(* ===== verification/Senf_Prelude.thy ===== *)
theory Senf_Prelude
  imports Main "HOL-Library.Word"
begin

text \<open>
  What the component theories share: the type names of the model, the list
  views of memory (a range of a block, a block written at an offset, a
  sequence with a range inserted or cut out), and the collections of facts
  the component proofs give to the simplifier.

  A \<open>SENF_ASSERT\<close> that fails, an exception that is thrown and a pointer that
  may be null are written as \<open>option\<close> or as a sum type in the components.
\<close>

unbundle bit_operations_syntax

section \<open>Names\<close>

type_synonym byte = "8 word"
type_synonym u16 = "16 word"
type_synonym u32 = "32 word"
type_synonym u64 = "64 word"

named_theorems subrange_simps "ranges of sequences after an insertion, a cut or a write"
named_theorems invar_intros "an operation keeps the invariant of its component"

section \<open>Ranges of a sequence\<close>

text \<open>The elements from index \<open>i\<close> up to, not including, index \<open>j\<close>.\<close>

definition subrange :: "nat \<Rightarrow> nat \<Rightarrow> 'a list \<Rightarrow> 'a list" where
  "subrange i j xs = take (j - i) (drop i xs)"

text \<open>A sequence with \<open>ys\<close> inserted before index \<open>i\<close>.\<close>

definition insert_list :: "nat \<Rightarrow> 'a list \<Rightarrow> 'a list \<Rightarrow> 'a list" where
  "insert_list i ys xs = take i xs @ ys @ drop i xs"

text \<open>A sequence without the elements from \<open>i\<close> up to, not including, \<open>j\<close>.\<close>

definition cut_list :: "nat \<Rightarrow> nat \<Rightarrow> 'a list \<Rightarrow> 'a list" where
  "cut_list i j xs = take i xs @ drop j xs"

text \<open>A memory block whose bytes from offset \<open>i\<close> on are overwritten by \<open>ys\<close>.\<close>

definition write_at :: "nat \<Rightarrow> 'a list \<Rightarrow> 'a list \<Rightarrow> 'a list" where
  "write_at i ys xs = take i xs @ ys @ drop (i + length ys) xs"

lemma length_subrange [simp]: "length (subrange i j xs) = min (j - i) (length xs - i)"
  by (simp add: subrange_def min.commute)

lemma subrange_Nil [simp]: "j \<le> i \<Longrightarrow> subrange i j xs = []"
  by (simp add: subrange_def)

lemma subrange_0 [simp]: "subrange 0 j xs = take j xs"
  by (simp add: subrange_def)

lemma length_insert_list [simp]:
  "i \<le> length xs \<Longrightarrow> length (insert_list i ys xs) = length xs + length ys"
  by (simp add: insert_list_def)

lemma insert_list_Nil [simp]: "insert_list i [] xs = xs"
  by (simp add: insert_list_def)

lemma length_cut_list [simp]:
  "i \<le> j \<Longrightarrow> j \<le> length xs \<Longrightarrow> length (cut_list i j xs) = length xs - (j - i)"
  by (simp add: cut_list_def)

lemma length_write_at [simp]:
  "i + length ys \<le> length xs \<Longrightarrow> length (write_at i ys xs) = length xs"
  by (simp add: write_at_def)

lemma nth_subrange: "i + k < j \<Longrightarrow> j \<le> length xs \<Longrightarrow> subrange i j xs ! k = xs ! (i + k)"
  by (simp add: subrange_def)

lemma nth_insert_list:
  "i \<le> length xs \<Longrightarrow> k < length xs + length ys \<Longrightarrow>
   insert_list i ys xs ! k =
     (if k < i then xs ! k else if k < i + length ys then ys ! (k - i) else xs ! (k - length ys))"
  by (auto simp: insert_list_def nth_append)

lemma nth_cut_list:
  "i \<le> j \<Longrightarrow> j \<le> length xs \<Longrightarrow> k < length xs - (j - i) \<Longrightarrow>
   cut_list i j xs ! k = (if k < i then xs ! k else xs ! (k + (j - i)))"
  by (auto simp: cut_list_def nth_append ac_simps)

lemma nth_write_at:
  "i + length ys \<le> length xs \<Longrightarrow> k < length xs \<Longrightarrow>
   write_at i ys xs ! k = (if i \<le> k \<and> k < i + length ys then ys ! (k - i) else xs ! k)"
  by (auto simp: write_at_def nth_append)

text \<open>Two sequences are equal when they have the same length and elements.\<close>

lemma list_eqI: "length xs = length ys \<Longrightarrow> (\<And>k. k < length ys \<Longrightarrow> xs ! k = ys ! k) \<Longrightarrow> xs = ys"
  by (simp add: list_eq_iff_nth_eq)

subsection \<open>Ranges that do not meet a change\<close>

lemma subrange_insert_before [subrange_simps]:
  "j \<le> i \<Longrightarrow> i \<le> length xs \<Longrightarrow> subrange a j (insert_list i ys xs) = subrange a j xs"
  by (rule list_eqI) (auto simp: nth_subrange nth_insert_list)

lemma subrange_insert_after [subrange_simps]:
  "i \<le> a \<Longrightarrow> a \<le> b \<Longrightarrow> b \<le> length xs \<Longrightarrow> i \<le> length xs \<Longrightarrow> length ys = n \<Longrightarrow>
   subrange (a + n) (b + n) (insert_list i ys xs) = subrange a b xs"
  by (rule list_eqI) (auto simp: nth_subrange nth_insert_list)

lemma subrange_insert_inside [subrange_simps]:
  "a \<le> i \<Longrightarrow> i \<le> b \<Longrightarrow> b \<le> length xs \<Longrightarrow> length ys = n \<Longrightarrow>
   subrange a (b + n) (insert_list i ys xs) = insert_list (i - a) ys (subrange a b xs)"
  by (rule list_eqI) (auto simp: nth_subrange ac_simps nth_insert_list)

lemma subrange_cut_before [subrange_simps]:
  "b \<le> i \<Longrightarrow> i \<le> j \<Longrightarrow> j \<le> length xs \<Longrightarrow> subrange a b (cut_list i j xs) = subrange a b xs"
  by (rule list_eqI) (auto simp: nth_subrange nth_cut_list)

lemma subrange_cut_after [subrange_simps]:
  "i \<le> j \<Longrightarrow> j \<le> a \<Longrightarrow> a \<le> b \<Longrightarrow> b \<le> length xs \<Longrightarrow> n = j - i \<Longrightarrow>
   subrange (a - n) (b - n) (cut_list i j xs) = subrange a b xs"
  by (rule list_eqI) (auto simp: nth_subrange nth_cut_list)

lemma subrange_cut_inside [subrange_simps]:
  "a \<le> i \<Longrightarrow> i \<le> j \<Longrightarrow> j \<le> b \<Longrightarrow> b \<le> length xs \<Longrightarrow> n = j - i \<Longrightarrow>
   subrange a (b - n) (cut_list i j xs) = cut_list (i - a) (j - a) (subrange a b xs)"
  by (rule list_eqI) (auto simp: nth_subrange ac_simps nth_cut_list)

lemma subrange_write_at_same [subrange_simps]:
  "i + length ys \<le> length xs \<Longrightarrow> j = i + length ys \<Longrightarrow> subrange i j (write_at i ys xs) = ys"
  by (rule list_eqI) (auto simp: nth_subrange nth_write_at)

subsection \<open>A range replaced by another\<close>

definition replace_list :: "nat \<Rightarrow> nat \<Rightarrow> 'a list \<Rightarrow> 'a list \<Rightarrow> 'a list" where
  "replace_list i j ys xs = take i xs @ ys @ drop j xs"

lemma insert_list_replace: "insert_list i ys xs = replace_list i i ys xs"
  by (simp add: insert_list_def replace_list_def)

lemma cut_list_replace: "cut_list i j xs = replace_list i j [] xs"
  by (simp add: cut_list_def replace_list_def)

lemma write_at_replace: "write_at i ys xs = replace_list i (i + length ys) ys xs"
  by (simp add: write_at_def replace_list_def)

lemma length_replace_list:
  "i \<le> j \<Longrightarrow> j \<le> length xs \<Longrightarrow> length (replace_list i j ys xs) = length xs - (j - i) + length ys"
  by (simp add: replace_list_def)

lemma nth_replace_list:
  "i \<le> j \<Longrightarrow> j \<le> length xs \<Longrightarrow> k < length xs - (j - i) + length ys \<Longrightarrow>
   replace_list i j ys xs ! k =
     (if k < i then xs ! k else if k < i + length ys then ys ! (k - i)
      else xs ! (k - length ys - i + j))"
  by (auto simp: replace_list_def nth_append not_less intro!: arg_cong [of _ _ "(!) xs"])

lemma subrange_replace_before:
  "b \<le> i \<Longrightarrow> i \<le> j \<Longrightarrow> j \<le> length xs \<Longrightarrow> subrange a b (replace_list i j ys xs) = subrange a b xs"
  by (rule list_eqI) (auto simp: nth_subrange nth_replace_list length_replace_list)

lemma subrange_replace_after:
  "i \<le> j \<Longrightarrow> j \<le> a \<Longrightarrow> a \<le> b \<Longrightarrow> b \<le> length xs \<Longrightarrow>
   subrange (a - (j - i) + length ys) (b - (j - i) + length ys) (replace_list i j ys xs) =
   subrange a b xs"
  by (rule list_eqI)
    (auto simp: nth_subrange nth_replace_list length_replace_list intro!: arg_cong [of _ _ "(!) xs"])

lemma subrange_replace_inside:
  "a \<le> i \<Longrightarrow> i \<le> j \<Longrightarrow> j \<le> b \<Longrightarrow> b \<le> length xs \<Longrightarrow>
   subrange a (b - (j - i) + length ys) (replace_list i j ys xs) =
   replace_list (i - a) (j - a) ys (subrange a b xs)"
  by (rule list_eqI)
    (auto simp: nth_subrange nth_replace_list length_replace_list
      intro!: arg_cong [of _ _ "(!) xs"] arg_cong [of _ _ "(!) ys"])

text \<open>Resizing a range and writing over it replaces it.\<close>

lemma write_cut_replace:
  "i + length ys \<le> j \<Longrightarrow> j \<le> length xs \<Longrightarrow>
   write_at i ys (cut_list (i + length ys) j xs) = replace_list i j ys xs"
  by (simp add: write_at_def cut_list_def replace_list_def)

lemma write_insert_replace:
  "i \<le> j \<Longrightarrow> j \<le> length xs \<Longrightarrow> length zs + (j - i) = length ys \<Longrightarrow>
   write_at i ys (insert_list j zs xs) = replace_list i j ys xs"
  by (simp add: write_at_def insert_list_def replace_list_def)

lemma subrange_replace_new:
  "i \<le> length xs \<Longrightarrow> a \<le> b \<Longrightarrow> b \<le> length ys \<Longrightarrow>
   subrange (i + a) (i + b) (replace_list i j ys xs) = subrange a b ys"
  by (simp add: subrange_def replace_list_def)

lemma subrange_subrange:
  "i \<le> a \<Longrightarrow> a \<le> b \<Longrightarrow> b \<le> j \<Longrightarrow> subrange (a - i) (b - i) (subrange i j xs) = subrange a b xs"
  by (simp add: subrange_def drop_take min_def)

end
