(* ===== verification/Packet_Vector.thy ===== *)
theory Packet_Vector
  imports Senf_Prelude
begin

text \<open>
  The byte container of a packet, \<open>senf::PacketVector\<close>
  (\<open>src/senf/Packets/PacketVector.cc\<close>, \<open>.cci\<close>, \<open>.cti\<close>): a memory block with
  head room and tail room around the bytes in use. An insertion moves the
  shorter side when there is room, the other side when there is not, and
  reallocates the block as the last resort.

  A pointer into the block is its offset from \<open>data_\<close>. The block itself is the
  list of its bytes. \<open>u\<close> is the content of memory that
  \<open>Pool::ordered_malloc\<close> has handed out and nobody has written yet: every
  result below holds for every \<open>u\<close>, so no operation makes an unwritten byte
  visible. A failed \<open>SENF_ASSERT\<close> is \<open>None\<close>.

  The locale \<open>raw_container\<close> states what the packet code relies on; it has two
  instances, the block container and the standard sequence that replaces it
  under \<open>SENF_PACKET_STD_CONTAINER\<close>.
\<close>

section \<open>Constants and state\<close>

text \<open>The defaults of \<open>senf/config.hh\<close>.\<close>

definition ChunkSizeIndex :: nat where "ChunkSizeIndex = 11"
definition ChunkSize :: nat where "ChunkSize = 2 ^ ChunkSizeIndex"
definition HeadRoom :: nat where "HeadRoom = 128"
definition TailRoom :: nat where "TailRoom = 128"

lemmas pv_consts = ChunkSizeIndex_def ChunkSize_def HeadRoom_def TailRoom_def

record packet_vector =
  pv_size :: nat
  pv_data :: "byte list"
  pv_b :: nat
  pv_e :: nat
  pv_owner :: bool

definition allocationSize :: "nat \<Rightarrow> nat" where
  "allocationSize sz = ((sz + HeadRoom + TailRoom) OR (ChunkSize - 1)) + 1"

text \<open>A fresh block of the given number of chunks, with unwritten content.\<close>

definition ordered_malloc :: "(nat \<Rightarrow> byte) \<Rightarrow> nat \<Rightarrow> byte list" where
  "ordered_malloc u chunks = map u [0..<chunks * ChunkSize]"

section \<open>Construction\<close>

definition pv_new :: "(nat \<Rightarrow> byte) \<Rightarrow> packet_vector" where
  "pv_new u = \<lparr>pv_size = ChunkSize, pv_data = ordered_malloc u 1,
     pv_b = HeadRoom, pv_e = HeadRoom, pv_owner = True\<rparr>"

definition pv_new_fill :: "(nat \<Rightarrow> byte) \<Rightarrow> nat \<Rightarrow> byte \<Rightarrow> packet_vector" where
  "pv_new_fill u requestSize initValue =
     (let sz = allocationSize requestSize
      in \<lparr>pv_size = sz,
          pv_data = write_at HeadRoom (replicate requestSize initValue)
                      (ordered_malloc u (drop_bit ChunkSizeIndex sz)),
          pv_b = HeadRoom, pv_e = HeadRoom + requestSize, pv_owner = True\<rparr>)"

definition pv_new_range :: "(nat \<Rightarrow> byte) \<Rightarrow> byte list \<Rightarrow> packet_vector" where
  "pv_new_range u xs =
     (let requestSize = length xs; sz = allocationSize requestSize
      in \<lparr>pv_size = sz,
          pv_data = write_at HeadRoom xs (ordered_malloc u (drop_bit ChunkSizeIndex sz)),
          pv_b = HeadRoom, pv_e = HeadRoom + requestSize, pv_owner = True\<rparr>)"

text \<open>A view of memory that somebody else owns: \<open>mem\<close> is that memory.\<close>

definition pv_new_external :: "byte list \<Rightarrow> nat \<Rightarrow> nat \<Rightarrow> nat \<Rightarrow> packet_vector" where
  "pv_new_external mem sz chunkSize offset =
     \<lparr>pv_size = (if chunkSize \<noteq> 0 then chunkSize else sz + offset), pv_data = mem,
      pv_b = offset, pv_e = offset + sz, pv_owner = False\<rparr>"

section \<open>Reading\<close>

definition pv_length :: "packet_vector \<Rightarrow> nat" where
  "pv_length v = pv_e v - pv_b v"

definition pv_external :: "packet_vector \<Rightarrow> bool" where
  "pv_external v \<longleftrightarrow> \<not> pv_owner v"

definition pv_contents :: "packet_vector \<Rightarrow> byte list" where
  "pv_contents v = subrange (pv_b v) (pv_e v) (pv_data v)"

section \<open>Making room\<close>

definition pv_memmove :: "nat \<Rightarrow> nat \<Rightarrow> nat \<Rightarrow> packet_vector \<Rightarrow> packet_vector" where
  "pv_memmove dst src n v =
     v\<lparr>pv_data := write_at dst (subrange src (src + n) (pv_data v)) (pv_data v)\<rparr>"

definition pv_grow :: "(nat \<Rightarrow> byte) \<Rightarrow> nat \<Rightarrow> nat \<Rightarrow> packet_vector \<Rightarrow> nat \<times> packet_vector" where
  "pv_grow u pos n v =
     (let posIndex = pos - pv_b v;
          dataSize = pv_e v - pv_b v;
          requestSize = allocationSize (dataSize + n);
          newData = ordered_malloc u (drop_bit ChunkSizeIndex requestSize);
          newData = write_at HeadRoom
                      (subrange (pv_b v) (pv_b v + posIndex) (pv_data v)) newData;
          newData = write_at (HeadRoom + posIndex + n)
                      (subrange (pv_b v + posIndex) (pv_b v + posIndex + (dataSize - posIndex))
                         (pv_data v)) newData
      in (HeadRoom + posIndex,
          \<lparr>pv_size = requestSize, pv_data = newData,
           pv_b = HeadRoom, pv_e = HeadRoom + dataSize + n, pv_owner = True\<rparr>))"

definition pv_moveGrow :: "(nat \<Rightarrow> byte) \<Rightarrow> nat \<Rightarrow> nat \<Rightarrow> packet_vector \<Rightarrow> nat \<times> packet_vector" where
  "pv_moveGrow u pos n v =
     (if pv_b v \<ge> n
      then (pos - n, (pv_memmove (pv_b v - n) (pv_b v) (pos - pv_b v) v)\<lparr>pv_b := pv_b v - n\<rparr>)
      else pv_grow u pos n v)"

definition pv_move :: "(nat \<Rightarrow> byte) \<Rightarrow> nat \<Rightarrow> nat \<Rightarrow> packet_vector \<Rightarrow> nat \<times> packet_vector" where
  "pv_move u pos n v =
     (if pos - pv_b v < pv_e v - pos \<and> pv_b v \<ge> n
      then (pos - n, (pv_memmove (pv_b v - n) (pv_b v) (pos - pv_b v) v)\<lparr>pv_b := pv_b v - n\<rparr>)
      else if pv_e v + n \<le> pv_size v
      then (pos, (pv_memmove (pos + n) pos (pv_e v - pos) v)\<lparr>pv_e := pv_e v + n\<rparr>)
      else pv_moveGrow u pos n v)"

section \<open>Changing the sequence\<close>

definition pv_clear :: "packet_vector \<Rightarrow> packet_vector" where
  "pv_clear v = v\<lparr>pv_e := pv_b v\<rparr>"

definition pv_releaseExternal :: "(nat \<Rightarrow> byte) \<Rightarrow> packet_vector \<Rightarrow> packet_vector" where
  "pv_releaseExternal u v = (if \<not> pv_owner v then snd (pv_grow u (pv_b v) 0 v) else v)"

definition pv_erase1 :: "nat \<Rightarrow> packet_vector \<Rightarrow> packet_vector option" where
  "pv_erase1 pos v =
     (if pv_b v \<le> pos \<and> pos < pv_e v
      then Some ((pv_memmove pos (pos + 1) (pv_e v - pos - 1) v)\<lparr>pv_e := pv_e v - 1\<rparr>)
      else None)"

definition pv_erase :: "nat \<Rightarrow> nat \<Rightarrow> packet_vector \<Rightarrow> packet_vector option" where
  "pv_erase from to v =
     (if pv_b v \<le> from \<and> to \<le> pv_e v \<and> from \<le> to
      then Some ((pv_memmove from to (pv_e v - to) v)\<lparr>pv_e := pv_e v - (to - from)\<rparr>)
      else None)"

definition pv_truncateFront :: "nat \<Rightarrow> packet_vector \<Rightarrow> packet_vector option" where
  "pv_truncateFront pos v =
     (if pv_b v \<le> pos \<and> pos \<le> pv_e v then Some (v\<lparr>pv_b := pos\<rparr>) else None)"

definition pv_truncateBack :: "nat \<Rightarrow> packet_vector \<Rightarrow> packet_vector option" where
  "pv_truncateBack pos v =
     (if pv_b v \<le> pos \<and> pos \<le> pv_e v then Some (v\<lparr>pv_e := pos\<rparr>) else None)"

definition pv_insert1 :: "(nat \<Rightarrow> byte) \<Rightarrow> nat \<Rightarrow> byte \<Rightarrow> packet_vector \<Rightarrow> packet_vector option" where
  "pv_insert1 u pos x v =
     (if pv_b v \<le> pos \<and> pos \<le> pv_e v
      then (case pv_move u pos 1 v of (p, v') \<Rightarrow> Some (v'\<lparr>pv_data := write_at p [x] (pv_data v')\<rparr>))
      else None)"

definition pv_insert_n ::
  "(nat \<Rightarrow> byte) \<Rightarrow> nat \<Rightarrow> nat \<Rightarrow> byte \<Rightarrow> packet_vector \<Rightarrow> packet_vector option" where
  "pv_insert_n u pos n x v =
     (if pv_b v \<le> pos \<and> pos \<le> pv_e v
      then (if n > 0
            then (case pv_move u pos n v of (p, v') \<Rightarrow>
                    Some (v'\<lparr>pv_data := write_at p (replicate n x) (pv_data v')\<rparr>))
            else Some v)
      else None)"

definition pv_insert_range ::
  "(nat \<Rightarrow> byte) \<Rightarrow> nat \<Rightarrow> byte list \<Rightarrow> packet_vector \<Rightarrow> packet_vector option" where
  "pv_insert_range u pos xs v =
     (if pv_b v \<le> pos \<and> pos \<le> pv_e v
      then (case pv_move u pos (length xs) v of (p, v') \<Rightarrow>
              Some (v'\<lparr>pv_data := write_at p xs (pv_data v')\<rparr>))
      else None)"

section \<open>The block invariant\<close>

definition pv_ok :: "packet_vector \<Rightarrow> bool" where
  "pv_ok v \<longleftrightarrow> pv_b v \<le> pv_e v \<and> pv_e v \<le> pv_size v \<and> length (pv_data v) = pv_size v"

lemma pv_okD:
  assumes "pv_ok v"
  shows "pv_b v \<le> pv_e v" "pv_e v \<le> length (pv_data v)" "length (pv_data v) = pv_size v"
  using assms by (auto simp: pv_ok_def)

lemma length_pv_contents [simp]: "pv_ok v \<Longrightarrow> length (pv_contents v) = pv_length v"
  by (auto simp: pv_contents_def pv_length_def pv_ok_def)

lemma nth_pv_contents:
  "pv_ok v \<Longrightarrow> k < pv_e v - pv_b v \<Longrightarrow> pv_contents v ! k = pv_data v ! (pv_b v + k)"
  by (simp add: pv_contents_def nth_subrange pv_ok_def)

subsection \<open>Sizes of blocks\<close>

lemma or_mask_nat: "(x::nat) OR (2 ^ n - 1) = (x div 2 ^ n) * 2 ^ n + (2 ^ n - 1)"
proof -
  have "x OR mask n = push_bit n (drop_bit n x) OR mask n"
    by (rule bit_eqI) (auto simp: bit_or_iff bit_push_bit_iff bit_drop_bit_eq bit_mask_iff)
  also have "\<dots> = push_bit n (drop_bit n x) + mask n"
    by (rule disjunctive_add_eq_or [symmetric])
      (rule bit_eqI, auto simp: bit_and_iff bit_push_bit_iff bit_mask_iff)
  finally show ?thesis
    by (simp add: mask_eq_exp_minus_1 push_bit_eq_mult drop_bit_eq_div)
qed

lemma allocationSize_eq:
  "allocationSize sz = ((sz + HeadRoom + TailRoom) div ChunkSize + 1) * ChunkSize"
  unfolding allocationSize_def ChunkSize_def or_mask_nat by simp

lemma allocationSize_room: "sz + HeadRoom + TailRoom < allocationSize sz"
  unfolding allocationSize_eq pv_consts by simp

lemma chunks_allocationSize [simp]:
  "drop_bit ChunkSizeIndex (allocationSize sz) * ChunkSize = allocationSize sz"
  by (simp add: allocationSize_eq ChunkSize_def drop_bit_eq_div del: add_mult_distrib)

lemma length_ordered_malloc [simp]: "length (ordered_malloc u c) = c * ChunkSize"
  by (simp add: ordered_malloc_def)

subsection \<open>Making room\<close>

text \<open>
  What \<open>move\<close>, \<open>moveGrow\<close> and \<open>grow\<close> promise each other: the sequence has a
  gap of \<open>n\<close> bytes at the returned position, everything before and behind the
  gap is the old sequence.
\<close>

definition made_room :: "nat \<Rightarrow> nat \<Rightarrow> packet_vector \<Rightarrow> nat \<times> packet_vector \<Rightarrow> bool" where
  "made_room pos n v r \<longleftrightarrow> (case r of (p, v') \<Rightarrow>
     pv_ok v' \<and> p = pv_b v' + (pos - pv_b v) \<and>
     pv_e v' = pv_b v' + (pv_e v - pv_b v) + n \<and>
     (\<forall>k < pos - pv_b v. pv_data v' ! (pv_b v' + k) = pv_data v ! (pv_b v + k)) \<and>
     (\<forall>k < pv_e v - pos. pv_data v' ! (p + n + k) = pv_data v ! (pos + k)))"

lemma memmove_down_made_room:
  assumes "pv_ok v" "pv_b v \<le> pos" "pos \<le> pv_e v" "n \<le> pv_b v"
  shows "made_room pos n v
    (pos - n, (pv_memmove (pv_b v - n) (pv_b v) (pos - pv_b v) v)\<lparr>pv_b := pv_b v - n\<rparr>)"
  using assms pv_okD [OF assms(1)]
  by (auto simp: made_room_def pv_ok_def pv_memmove_def nth_write_at nth_subrange)

lemma memmove_up_made_room:
  assumes "pv_ok v" "pv_b v \<le> pos" "pos \<le> pv_e v" "pv_e v + n \<le> pv_size v"
  shows "made_room pos n v
    (pos, (pv_memmove (pos + n) pos (pv_e v - pos) v)\<lparr>pv_e := pv_e v + n\<rparr>)"
  using assms pv_okD [OF assms(1)]
  by (auto simp: made_room_def pv_ok_def pv_memmove_def nth_write_at nth_subrange)

lemma pv_grow_made_room:
  assumes "pv_ok v" "pv_b v \<le> pos" "pos \<le> pv_e v"
  shows "made_room pos n v (pv_grow u pos n v)"
  using assms pv_okD [OF assms(1)] allocationSize_room [of "pv_e v - pv_b v + n"]
  by (auto simp: made_room_def pv_grow_def Let_def pv_ok_def nth_write_at nth_subrange)

lemma pv_moveGrow_made_room:
  assumes "pv_ok v" "pv_b v \<le> pos" "pos \<le> pv_e v"
  shows "made_room pos n v (pv_moveGrow u pos n v)"
  using memmove_down_made_room [OF assms] pv_grow_made_room [OF assms]
  by (simp add: pv_moveGrow_def)

lemma pv_move_made_room:
  assumes "pv_ok v" "pv_b v \<le> pos" "pos \<le> pv_e v"
  shows "made_room pos n v (pv_move u pos n v)"
  using memmove_down_made_room [OF assms] memmove_up_made_room [OF assms]
    pv_moveGrow_made_room [OF assms]
  by (simp add: pv_move_def)

text \<open>Filling the gap completes an insertion.\<close>

lemma fill_gap:
  assumes v: "pv_ok v" "pv_b v \<le> pos" "pos \<le> pv_e v"
    and room: "made_room pos (length xs) v (p, v')"
    and w: "w = v'\<lparr>pv_data := write_at p xs (pv_data v')\<rparr>"
  shows "pv_ok w" "pv_contents w = insert_list (pos - pv_b v) xs (pv_contents v)"
proof -
  obtain q r where q: "pos = pv_b v + q" and r: "pv_e v = pv_b v + q + r"
    using v by (metis le_Suc_ex)
  from room have ok': "pv_ok v'" and p: "p = pv_b v' + q"
    and e': "pv_e v' = pv_b v' + q + r + length xs"
    and lo: "\<And>k. k < q \<Longrightarrow> pv_data v' ! (pv_b v' + k) = pv_data v ! (pv_b v + k)"
    and hi: "\<And>k. k < r \<Longrightarrow> pv_data v' ! (p + length xs + k) = pv_data v ! (pos + k)"
    by (auto simp: made_room_def q r)
  have fits: "pv_b v' + q + r + length xs \<le> length (pv_data v')"
    using pv_okD [OF ok'] e' by simp
  show okw: "pv_ok w"
    using ok' fits p by (simp add: w pv_ok_def)
  have nth_w: "pv_contents w ! k = write_at p xs (pv_data v') ! (pv_b v' + k)"
    if "k < q + r + length xs" for k
    using okw that e' by (simp add: nth_pv_contents w)
  have nth_v: "pv_contents v ! k = pv_data v ! (pv_b v + k)" if "k < q + r" for k
    using v that r by (simp add: nth_pv_contents)
  have len: "length (pv_contents v) = q + r"
    using v r by (simp add: pv_length_def)
  have "pv_contents w = insert_list q xs (pv_contents v)"
  proof (rule list_eqI)
    show "length (pv_contents w) = length (insert_list q xs (pv_contents v))"
      using okw e' len by (simp add: w pv_length_def)
  next
    fix k assume "k < length (insert_list q xs (pv_contents v))"
    then have k: "k < q + r + length xs" using len by simp
    consider "k < q" | "k = q + (k - q)" "k - q < length xs"
      | "k = q + length xs + (k - q - length xs)" "k - q - length xs < r"
      using k by linarith
    then show "pv_contents w ! k = insert_list q xs (pv_contents v) ! k"
    proof cases
      case 1
      then show ?thesis
        using k fits p lo by (simp add: nth_w nth_v len nth_write_at nth_insert_list)
    next
      case 2
      then obtain j where "k = q + j" "j < length xs" by blast
      then show ?thesis
        using k fits p by (simp add: nth_w len nth_write_at nth_insert_list)
    next
      case 3
      then obtain j where "k = q + length xs + j" "j < r" by blast
      then show ?thesis
        using k fits p hi [of j] by (simp add: nth_w nth_v len nth_write_at nth_insert_list q ac_simps)
    qed
  qed
  then show "pv_contents w = insert_list (pos - pv_b v) xs (pv_contents v)"
    by (simp add: q)
qed

subsection \<open>Every operation on the sequence view\<close>

lemma pv_insert_range_spec:
  assumes "pv_ok v" "pv_b v \<le> pos" "pos \<le> pv_e v"
  shows "\<exists>w. pv_insert_range u pos xs v = Some w \<and> pv_ok w \<and>
    pv_contents w = insert_list (pos - pv_b v) xs (pv_contents v)"
proof -
  obtain p v' where r: "pv_move u pos (length xs) v = (p, v')" by fastforce
  with pv_move_made_room [OF assms, of "length xs" u]
  have "made_room pos (length xs) v (p, v')" by simp
  from fill_gap [OF assms this refl] r assms show ?thesis
    by (simp add: pv_insert_range_def)
qed

lemma pv_insert_n_range: "0 < n \<Longrightarrow> pv_insert_n u pos n x v = pv_insert_range u pos (replicate n x) v"
  by (simp add: pv_insert_n_def pv_insert_range_def)

lemma pv_insert1_range: "pv_insert1 u pos x v = pv_insert_range u pos [x] v"
  by (simp add: pv_insert1_def pv_insert_range_def)

lemma pv_insert_n_spec:
  assumes "pv_ok v" "pv_b v \<le> pos" "pos \<le> pv_e v"
  shows "\<exists>w. pv_insert_n u pos n x v = Some w \<and> pv_ok w \<and>
    pv_contents w = insert_list (pos - pv_b v) (replicate n x) (pv_contents v)"
  using pv_insert_range_spec [OF assms, of u "replicate n x"] assms
  by (cases "n = 0") (auto simp: pv_insert_n_range, simp add: pv_insert_n_def)

lemma pv_erase_spec:
  assumes "pv_ok v" "pv_b v \<le> from" "from \<le> to" "to \<le> pv_e v"
  shows "\<exists>w. pv_erase from to v = Some w \<and> pv_ok w \<and> pv_b w = pv_b v \<and>
    pv_contents w = cut_list (from - pv_b v) (to - pv_b v) (pv_contents v)"
proof -
  define w where "w = (pv_memmove from to (pv_e v - to) v)\<lparr>pv_e := pv_e v - (to - from)\<rparr>"
  note okD = pv_okD [OF assms(1)]
  have okw: "pv_ok w"
    using assms okD by (auto simp: w_def pv_ok_def pv_memmove_def)
  have "pv_contents w = cut_list (from - pv_b v) (to - pv_b v) (pv_contents v)"
  proof (rule list_eqI)
    show "length (pv_contents w) = length (cut_list (from - pv_b v) (to - pv_b v) (pv_contents v))"
      using okw assms by (simp add: pv_length_def) (simp add: w_def pv_memmove_def)
  next
    fix k assume "k < length (cut_list (from - pv_b v) (to - pv_b v) (pv_contents v))"
    then have k: "k < pv_e v - pv_b v - (to - from)"
      using assms by (simp add: pv_length_def)
    then show "pv_contents w ! k = cut_list (from - pv_b v) (to - pv_b v) (pv_contents v) ! k"
      using assms okD okw
      by (simp add: nth_pv_contents nth_cut_list pv_length_def)
        (auto simp: w_def pv_memmove_def nth_pv_contents nth_write_at nth_subrange ac_simps)
  qed
  with okw assms show ?thesis
    by (auto simp: pv_erase_def w_def pv_memmove_def)
qed

lemma pv_erase1_range: "pv_erase1 pos v = (if pos < pv_e v then pv_erase pos (pos + 1) v else None)"
  by (auto simp: pv_erase1_def pv_erase_def)

lemma pv_truncateFront_spec:
  assumes "pv_ok v" "pv_b v \<le> pos" "pos \<le> pv_e v"
  shows "\<exists>w. pv_truncateFront pos v = Some w \<and> pv_ok w \<and>
    pv_contents w = cut_list 0 (pos - pv_b v) (pv_contents v)"
  using assms
  by (auto simp: pv_truncateFront_def pv_ok_def pv_contents_def cut_list_def subrange_def drop_take)

lemma pv_truncateBack_spec:
  assumes "pv_ok v" "pv_b v \<le> pos" "pos \<le> pv_e v"
  shows "\<exists>w. pv_truncateBack pos v = Some w \<and> pv_ok w \<and>
    pv_contents w = take (pos - pv_b v) (pv_contents v)"
  using assms
  by (auto simp: pv_truncateBack_def pv_ok_def pv_contents_def subrange_def min_def)

text \<open>Writing through an iterator changes the bytes in place.\<close>

lemma pv_write_contents:
  assumes "pv_ok v" "i + length ys \<le> length (pv_contents v)"
  shows "pv_ok (v\<lparr>pv_data := write_at (pv_b v + i) ys (pv_data v)\<rparr>)"
    "pv_contents (v\<lparr>pv_data := write_at (pv_b v + i) ys (pv_data v)\<rparr>) = write_at i ys (pv_contents v)"
proof -
  from assms have fits: "pv_b v + i + length ys \<le> length (pv_data v)" "i + length ys \<le> pv_e v - pv_b v"
    using pv_okD [OF assms(1)] by (auto simp: pv_length_def)
  show ok: "pv_ok (v\<lparr>pv_data := write_at (pv_b v + i) ys (pv_data v)\<rparr>)"
    using assms(1) fits by (simp add: pv_ok_def)
  show "pv_contents (v\<lparr>pv_data := write_at (pv_b v + i) ys (pv_data v)\<rparr>) =
      write_at i ys (pv_contents v)"
    by (rule list_eqI)
      (use assms ok fits pv_okD [OF assms(1)] in
        \<open>auto simp: nth_pv_contents nth_write_at pv_length_def\<close>)
qed

section \<open>The container interface\<close>

text \<open>
  What \<open>PacketImpl\<close> needs of its container, by index into the sequence. An
  operation returns \<open>None\<close> where the container asserts.
\<close>

locale raw_container =
  fixes contents :: "'c \<Rightarrow> byte list"
    and invar :: "'c \<Rightarrow> bool"
    and insert_at :: "nat \<Rightarrow> byte list \<Rightarrow> 'c \<Rightarrow> 'c option"
    and erase_at :: "nat \<Rightarrow> nat \<Rightarrow> 'c \<Rightarrow> 'c option"
    and drop_front :: "nat \<Rightarrow> 'c \<Rightarrow> 'c option"
    and keep_front :: "nat \<Rightarrow> 'c \<Rightarrow> 'c option"
  assumes insert_at: "invar c \<Longrightarrow> i \<le> length (contents c) \<Longrightarrow>
      \<exists>d. insert_at i xs c = Some d \<and> invar d \<and> contents d = insert_list i xs (contents c)"
    and erase_at: "invar c \<Longrightarrow> i \<le> j \<Longrightarrow> j \<le> length (contents c) \<Longrightarrow>
      \<exists>d. erase_at i j c = Some d \<and> invar d \<and> contents d = cut_list i j (contents c)"
    and drop_front: "invar c \<Longrightarrow> i \<le> length (contents c) \<Longrightarrow>
      \<exists>d. drop_front i c = Some d \<and> invar d \<and> contents d = cut_list 0 i (contents c)"
    and keep_front: "invar c \<Longrightarrow> i \<le> length (contents c) \<Longrightarrow>
      \<exists>d. keep_front i c = Some d \<and> invar d \<and> contents d = take i (contents c)"
begin

text \<open>Bytes before the place of a change keep their index, bytes behind it move.\<close>

lemma insert_at_stable:
  assumes "invar c" "i \<le> length (contents c)"
  obtains d where "insert_at i xs c = Some d" "invar d"
    "length (contents d) = length (contents c) + length xs"
    "\<And>a b. b \<le> i \<Longrightarrow> subrange a b (contents d) = subrange a b (contents c)"
    "\<And>a b. i \<le> a \<Longrightarrow> a \<le> b \<Longrightarrow> b \<le> length (contents c) \<Longrightarrow>
       subrange (a + length xs) (b + length xs) (contents d) = subrange a b (contents c)"
    "\<And>a b. a \<le> i \<Longrightarrow> i \<le> b \<Longrightarrow> b \<le> length (contents c) \<Longrightarrow>
       subrange a (b + length xs) (contents d) = insert_list (i - a) xs (subrange a b (contents c))"
  using insert_at [OF assms, of xs] assms by (auto simp: subrange_simps)

lemma erase_at_stable:
  assumes "invar c" "i \<le> j" "j \<le> length (contents c)"
  obtains d where "erase_at i j c = Some d" "invar d"
    "length (contents d) = length (contents c) - (j - i)"
    "\<And>a b. b \<le> i \<Longrightarrow> subrange a b (contents d) = subrange a b (contents c)"
    "\<And>a b. j \<le> a \<Longrightarrow> a \<le> b \<Longrightarrow> b \<le> length (contents c) \<Longrightarrow>
       subrange (a - (j - i)) (b - (j - i)) (contents d) = subrange a b (contents c)"
    "\<And>a b. a \<le> i \<Longrightarrow> j \<le> b \<Longrightarrow> b \<le> length (contents c) \<Longrightarrow>
       subrange a (b - (j - i)) (contents d) = cut_list (i - a) (j - a) (subrange a b (contents c))"
proof -
  obtain d where d: "erase_at i j c = Some d" "invar d" "contents d = cut_list i j (contents c)"
    using erase_at [OF assms] by blast
  show thesis
    by (rule that [OF d(1,2)]) (use assms d(3) in \<open>simp_all only: subrange_simps length_cut_list\<close>)
qed

lemma insert_then_erase:
  assumes "invar c" "i \<le> length (contents c)" "insert_at i xs c = Some d"
  shows "\<exists>e. erase_at i (i + length xs) d = Some e \<and> contents e = contents c"
proof -
  have d: "invar d" "contents d = insert_list i xs (contents c)"
    using insert_at [OF assms(1,2), of xs] assms(3) by auto
  have "cut_list i (i + length xs) (insert_list i xs (contents c)) = contents c"
    using assms(2) by (simp add: cut_list_def insert_list_def)
  then show ?thesis
    using erase_at [OF d(1), of i "i + length xs"] d(2) assms(2) by auto
qed

end

text \<open>The block container, by index from \<open>begin()\<close>.\<close>

definition pv_insert_at :: "(nat \<Rightarrow> byte) \<Rightarrow> nat \<Rightarrow> byte list \<Rightarrow> packet_vector \<Rightarrow> packet_vector option" where
  "pv_insert_at u i xs v = pv_insert_range u (pv_b v + i) xs v"

definition pv_erase_at :: "nat \<Rightarrow> nat \<Rightarrow> packet_vector \<Rightarrow> packet_vector option" where
  "pv_erase_at i j v = pv_erase (pv_b v + i) (pv_b v + j) v"

definition pv_drop_front :: "nat \<Rightarrow> packet_vector \<Rightarrow> packet_vector option" where
  "pv_drop_front i v = pv_truncateFront (pv_b v + i) v"

definition pv_keep_front :: "nat \<Rightarrow> packet_vector \<Rightarrow> packet_vector option" where
  "pv_keep_front i v = pv_truncateBack (pv_b v + i) v"

interpretation pvc: raw_container pv_contents pv_ok "pv_insert_at u" pv_erase_at pv_drop_front
  pv_keep_front
proof
  fix v i xs assume v: "pv_ok v" "i \<le> length (pv_contents v)"
  then have i: "pv_b v + i \<le> pv_e v" by (auto simp: pv_length_def dest: pv_okD(1))
  show "\<exists>d. pv_insert_at u i xs v = Some d \<and> pv_ok d \<and> pv_contents d = insert_list i xs (pv_contents v)"
    using pv_insert_range_spec [OF v(1) _ i, of u xs] by (simp add: pv_insert_at_def)
  show "\<exists>d. pv_drop_front i v = Some d \<and> pv_ok d \<and> pv_contents d = cut_list 0 i (pv_contents v)"
    using pv_truncateFront_spec [OF v(1) _ i] by (simp add: pv_drop_front_def)
  show "\<exists>d. pv_keep_front i v = Some d \<and> pv_ok d \<and> pv_contents d = take i (pv_contents v)"
    using pv_truncateBack_spec [OF v(1) _ i] by (simp add: pv_keep_front_def)
next
  fix v i j assume v: "pv_ok v" "i \<le> j" "j \<le> length (pv_contents v)"
  then have "pv_b v + i \<le> pv_b v + j" "pv_b v + j \<le> pv_e v"
    by (auto simp: pv_length_def dest: pv_okD(1))
  from pv_erase_spec [OF v(1) _ this]
  show "\<exists>d. pv_erase_at i j v = Some d \<and> pv_ok d \<and> pv_contents d = cut_list i j (pv_contents v)"
    by (auto simp: pv_erase_at_def)
qed

text \<open>
  The container of a build with \<open>SENF_PACKET_STD_CONTAINER\<close>: a standard sequence,
  whose \<open>insert\<close> and \<open>erase\<close> the packet code calls with valid ranges only.
\<close>

definition std_insert_at :: "nat \<Rightarrow> byte list \<Rightarrow> byte list \<Rightarrow> byte list option" where
  "std_insert_at i xs c = (if i \<le> length c then Some (insert_list i xs c) else None)"

definition std_erase_at :: "nat \<Rightarrow> nat \<Rightarrow> byte list \<Rightarrow> byte list option" where
  "std_erase_at i j c = (if i \<le> j \<and> j \<le> length c then Some (cut_list i j c) else None)"

interpretation stdc: raw_container "\<lambda>c. c" "\<lambda>_. True" std_insert_at std_erase_at
  "std_erase_at 0" "\<lambda>i c. std_erase_at i (length c) c"
  by unfold_locales (auto simp: std_insert_at_def std_erase_at_def cut_list_def)

section \<open>Constructors keep the invariant\<close>

lemma pv_new_fill_spec:
  "pv_ok (pv_new_fill u n x)" "pv_contents (pv_new_fill u n x) = replicate n x"
  using allocationSize_room [of n]
  by (auto simp: pv_new_fill_def Let_def pv_ok_def pv_contents_def subrange_simps)

lemma pv_new_range_spec:
  "pv_ok (pv_new_range u xs)" "pv_contents (pv_new_range u xs) = xs"
  using allocationSize_room [of "length xs"]
  by (auto simp: pv_new_range_def Let_def pv_ok_def pv_contents_def subrange_simps)

lemma pv_new_spec: "pv_ok (pv_new u)" "pv_contents (pv_new u) = []"
  by (auto simp: pv_new_def pv_ok_def pv_contents_def pv_consts ordered_malloc_def)

lemma pv_releaseExternal_spec:
  assumes "pv_ok v"
  shows "pv_ok (pv_releaseExternal u v)" "pv_contents (pv_releaseExternal u v) = pv_contents v"
    "\<not> pv_external (pv_releaseExternal u v)"
proof -
  obtain p v' where r: "pv_grow u (pv_b v) 0 v = (p, v')" by fastforce
  with pv_grow_made_room [OF assms, of "pv_b v" 0 u] pv_okD [OF assms]
  have room: "made_room (pv_b v) (length []) v (p, v')" by simp
  have "v' = v'\<lparr>pv_data := write_at p [] (pv_data v')\<rparr>"
    by (simp add: write_at_def)
  from fill_gap [OF assms _ _ room this] pv_okD [OF assms]
  have "pv_ok v'" "pv_contents v' = pv_contents v" by (auto simp: insert_list_def)
  moreover have "pv_owner v'" using r by (auto simp: pv_grow_def Let_def)
  ultimately show "pv_ok (pv_releaseExternal u v)"
    "pv_contents (pv_releaseExternal u v) = pv_contents v"
    "\<not> pv_external (pv_releaseExternal u v)"
    using assms r by (auto simp: pv_releaseExternal_def pv_external_def)
qed

section \<open>Properties of the container\<close>

lemma pv_insert1_n: "pv_b v \<le> pos \<Longrightarrow> pos \<le> pv_e v \<Longrightarrow> pv_insert1 u pos x v = pv_insert_n u pos 1 x v"
  by (auto simp: pv_insert1_def pv_insert_n_def)

text \<open>C5: Whatever way room is made (moving the front into the head room, the back into the tail
  room, or copying into a fresh and larger block), the three insert operations of
  \<open>PacketVector\<close> succeed at every position of the sequence, keep the well-formedness of the block
  and insert exactly the given bytes, leaving all other bytes in their order.\<close>

theorem pv_insert_refines:
  assumes "pv_ok v" "pv_b v \<le> pos" "pos \<le> pv_e v"
  shows "(\<exists>w. pv_insert_range u pos xs v = Some w \<and> pv_ok w \<and>
      pv_contents w = insert_list (pos - pv_b v) xs (pv_contents v)) \<and>
    (\<exists>w. pv_insert_n u pos n x v = Some w \<and> pv_ok w \<and>
      pv_contents w = insert_list (pos - pv_b v) (replicate n x) (pv_contents v)) \<and>
    (\<exists>w. pv_insert1 u pos x v = Some w \<and> pv_ok w \<and>
      pv_contents w = insert_list (pos - pv_b v) [x] (pv_contents v))"
  using pv_insert_range_spec [OF assms, of u xs] pv_insert_n_spec [OF assms, of u n x]
    pv_insert_n_spec [OF assms, of u 1 x] pv_insert1_n [OF assms(2,3), of u x]
  by simp

theorem pv_insert_refines_witness:
  "\<exists>w. pv_insert_range (\<lambda>_. 0) 132 [9, 8] (pv_new_range (\<lambda>_. 0) [1, 2, 3, 4, 5, 6 :: byte]) = Some w \<and>
     pv_contents w = [1, 2, 3, 4, 9, 8, 5, 6]"
proof -
  have ends: "pv_b (pv_new_range (\<lambda>_. 0) [1, 2, 3, 4, 5, 6 :: byte]) = 128"
    "pv_e (pv_new_range (\<lambda>_. 0) [1, 2, 3, 4, 5, 6 :: byte]) = 134"
    by (simp_all add: pv_new_range_def Let_def pv_consts)
  show ?thesis
    using pv_insert_refines [OF pv_new_range_spec(1), where u = "\<lambda>_. 0" and pos = 132
        and xs = "[9, 8]", of "\<lambda>_. 0" "[1, 2, 3, 4, 5, 6]"]
    by (auto simp: ends pv_new_range_spec insert_list_def)
qed

text \<open>\<open>releaseExternal\<close> turns a packet that borrows a buffer of the caller into one that owns
  its block, with the same bytes: afterwards no operation touches the caller's buffer.\<close>

theorem pv_releaseExternal_keeps:
  assumes "pv_ok v"
  shows "pv_ok (pv_releaseExternal u v) \<and> \<not> pv_external (pv_releaseExternal u v) \<and>
    pv_contents (pv_releaseExternal u v) = pv_contents v"
  using pv_releaseExternal_spec [OF assms] by blast

theorem pv_releaseExternal_keeps_witness:
  "pv_external (pv_new_external [7, 1, 2, 0] 2 4 1) \<and>
   pv_contents (pv_releaseExternal (\<lambda>_. 0) (pv_new_external [7, 1, 2, 0] 2 4 1)) = [1, 2]"
proof -
  have "pv_ok (pv_new_external [7, 1, 2, 0] 2 4 1)" "pv_external (pv_new_external [7, 1, 2, 0] 2 4 1)"
    "pv_contents (pv_new_external [7, 1, 2, 0] 2 4 1) = [1, 2]"
    by (simp_all add: pv_new_external_def pv_ok_def pv_external_def pv_contents_def subrange_def)
  then show ?thesis using pv_releaseExternal_keeps [of _ "\<lambda>_. 0"] by simp
qed

end
