(* ===== verification/Packet_Alloc.thy ===== *)
theory Packet_Alloc
  imports Senf_Prelude
begin

text \<open>
  The storage of packet interpreters inside a \<open>PacketImpl\<close>
  (\<open>src/senf/Packets/PacketImpl.cci\<close>, \<open>allocateInterpreter\<close> and
  \<open>deallocateInterpreter\<close>, default configuration): an array of
  \<open>SENF_PACKET_PREALLOC_INTERPRETERS\<close> slots with a free list threaded through
  the unused slots as relative offsets, and the heap once the array is full.

  An address is a slot number or a heap address; a heap address never lies in
  the array, so the source's address comparison is the case distinction. The
  memory of a slot in use belongs to the object placed there, which may leave
  any bit pattern in it (\<open>Overwrite\<close> below): the free list must not depend on
  slots in use.
\<close>

section \<open>State and operations\<close>

definition PREALLOC_INTERPRETERS :: nat where "PREALLOC_INTERPRETERS = 8"

datatype addr = Slot nat | Heap nat

record prealloc =
  pa_nextOffset :: "nat \<Rightarrow> int"
  pa_free :: nat
  pa_heapcount :: nat

text \<open>The constructor clears the array and points \<open>preallocFree_\<close> at its first slot.\<close>

definition prealloc_init :: prealloc where
  "prealloc_init = \<lparr>pa_nextOffset = (\<lambda>_. 0), pa_free = 0, pa_heapcount = 0\<rparr>"

text \<open>\<open>h\<close> is the address \<open>new PreallocSlot\<close> returns.\<close>

definition allocateInterpreter :: "nat \<Rightarrow> prealloc \<Rightarrow> (addr \<times> prealloc) option" where
  "allocateInterpreter h p =
     (if pa_free p \<noteq> PREALLOC_INTERPRETERS
      then (if pa_free p < PREALLOC_INTERPRETERS
            then Some (Slot (pa_free p),
                       p\<lparr>pa_free := nat (int (pa_free p) + pa_nextOffset p (pa_free p) + 1)\<rparr>)
            else None)
      else Some (Heap h, p\<lparr>pa_heapcount := pa_heapcount p + 1\<rparr>))"

fun is_heap :: "addr \<Rightarrow> bool" where
  "is_heap (Heap h) = True"
| "is_heap (Slot i) = False"

definition deallocateInterpreter :: "addr \<Rightarrow> prealloc \<Rightarrow> prealloc option" where
  "deallocateInterpreter a p =
     (if pa_heapcount p > 0 \<and> is_heap a
      then Some (p\<lparr>pa_heapcount := pa_heapcount p - 1\<rparr>)
      else (case a of
              Slot i \<Rightarrow>
                if i < PREALLOC_INTERPRETERS
                then Some (p\<lparr>pa_nextOffset := (pa_nextOffset p)(i := int (pa_free p) - int i - 1),
                             pa_free := i\<rparr>)
                else None
            | Heap h \<Rightarrow> None))"

text \<open>
  The walk over the free list that \<open>memDebug\<close> makes to tell free slots from used
  ones. It stops at the end of the array; \<open>fuel\<close> bounds the number of slots it
  visits, and \<open>None\<close> says that the list is longer than the fuel.
\<close>

fun free_slots :: "nat \<Rightarrow> (nat \<Rightarrow> int) \<Rightarrow> nat \<Rightarrow> nat list option" where
  "free_slots fuel off f =
     (if f = PREALLOC_INTERPRETERS then Some []
      else case fuel of
          0 \<Rightarrow> None
        | Suc k \<Rightarrow> map_option ((#) f) (free_slots k off (nat (int f + off f + 1))))"

declare free_slots.simps [simp del]

section \<open>Runs of the allocator\<close>

text \<open>
  The allocator with the set of live addresses: an allocation, the object in a
  live slot writing over its memory, and a deallocation of a live address.
\<close>

inductive alloc_run :: "prealloc \<Rightarrow> addr set \<Rightarrow> bool" where
  start: "alloc_run prealloc_init {}"
| allocate: "alloc_run p live \<Longrightarrow> Heap h \<notin> live \<Longrightarrow> allocateInterpreter h p = Some (a, p') \<Longrightarrow>
    alloc_run p' (insert a live)"
| overwrite: "alloc_run p live \<Longrightarrow> Slot i \<in> live \<Longrightarrow>
    alloc_run (p\<lparr>pa_nextOffset := (pa_nextOffset p)(i := x)\<rparr>) live"
| deallocate: "alloc_run p live \<Longrightarrow> a \<in> live \<Longrightarrow> deallocateInterpreter a p = Some p' \<Longrightarrow>
    alloc_run p' (live - {a})"

section \<open>The free list\<close>

text \<open>The free list as a list of slots, ending at the end of the array.\<close>

fun free_chain :: "(nat \<Rightarrow> int) \<Rightarrow> nat \<Rightarrow> nat list \<Rightarrow> bool" where
  "free_chain off f [] \<longleftrightarrow> f = PREALLOC_INTERPRETERS"
| "free_chain off f (x # xs) \<longleftrightarrow>
     f = x \<and> x < PREALLOC_INTERPRETERS \<and> 0 \<le> int x + off x + 1 \<and>
     free_chain off (nat (int x + off x + 1)) xs"

text \<open>The heap addresses among a set of addresses.\<close>

definition heaps :: "addr set \<Rightarrow> nat set" where
  "heaps live = {h. Heap h \<in> live}"

text \<open>The array slots no live interpreter uses.\<close>

definition unused :: "addr set \<Rightarrow> nat set" where
  "unused live = {i. i < PREALLOC_INTERPRETERS \<and> Slot i \<notin> live}"

definition alloc_inv :: "prealloc \<Rightarrow> addr set \<Rightarrow> bool" where
  "alloc_inv p live \<longleftrightarrow>
     (\<exists>fl. free_chain (pa_nextOffset p) (pa_free p) fl \<and> distinct fl \<and> set fl = unused live) \<and>
     (\<forall>i. Slot i \<in> live \<longrightarrow> i < PREALLOC_INTERPRETERS) \<and>
     finite live \<and> pa_heapcount p = card (heaps live)"

lemma alloc_invI:
  assumes "free_chain (pa_nextOffset p) (pa_free p) fl" "distinct fl" "set fl = unused live"
    "\<And>i. Slot i \<in> live \<Longrightarrow> i < PREALLOC_INTERPRETERS" "finite live"
    "pa_heapcount p = card (heaps live)"
  shows "alloc_inv p live"
  using assms unfolding alloc_inv_def by blast

lemma alloc_invE:
  assumes "alloc_inv p live"
  obtains fl where "free_chain (pa_nextOffset p) (pa_free p) fl" "distinct fl" "set fl = unused live"
    "\<And>i. Slot i \<in> live \<Longrightarrow> i < PREALLOC_INTERPRETERS" "finite live"
    "pa_heapcount p = card (heaps live)"
  using assms unfolding alloc_inv_def by blast

lemma unused_simps [simp]:
  "unused (insert (Slot i) live) = unused live - {i}"
  "unused (insert (Heap h) live) = unused live"
  "unused (live - {Heap h}) = unused live"
  "i < PREALLOC_INTERPRETERS \<Longrightarrow> unused (live - {Slot i}) = insert i (unused live)"
  by (auto simp: unused_def)

lemma free_chain_other [simp]:
  "i \<notin> set fl \<Longrightarrow> free_chain (off(i := x)) f fl = free_chain off f fl"
  by (induction fl arbitrary: f) auto

lemma free_chain_hd:
  "free_chain off f fl \<Longrightarrow> f \<noteq> PREALLOC_INTERPRETERS \<Longrightarrow>
   \<exists>xs. fl = f # xs \<and> f < PREALLOC_INTERPRETERS \<and> free_chain off (nat (int f + off f + 1)) xs"
  by (cases fl) auto

lemma free_chain_end: "free_chain off PREALLOC_INTERPRETERS fl \<Longrightarrow> fl = []"
  by (cases fl) auto

lemma free_chain_iota:
  "k \<le> PREALLOC_INTERPRETERS \<Longrightarrow> free_chain (\<lambda>_. 0) k [k..<PREALLOC_INTERPRETERS]"
proof (induction "PREALLOC_INTERPRETERS - k" arbitrary: k)
  case 0
  then show ?case by simp
next
  case (Suc n)
  then have "k < PREALLOC_INTERPRETERS" by simp
  with Suc.hyps(1) [of "Suc k"] Suc.hyps(2) show ?case
    by (simp add: upt_conv_Cons nat_add_distrib)
qed

lemma free_slots_chain:
  "free_chain off f fl \<Longrightarrow> length fl \<le> fuel \<Longrightarrow> free_slots fuel off f = Some fl"
proof (induction fl arbitrary: f fuel)
  case Nil
  then show ?case by (simp add: free_slots.simps)
next
  case (Cons x xs)
  then obtain k where "fuel = Suc k" by (cases fuel) auto
  with Cons show ?case by (simp add: free_slots.simps [of _ _ x])
qed

section \<open>Every run keeps the invariant\<close>

lemma in_heaps [simp]: "h \<in> heaps live \<longleftrightarrow> Heap h \<in> live"
  by (simp add: heaps_def)

lemma heaps_simps [simp]:
  "heaps {} = {}" "heaps (insert (Slot i) live) = heaps live" "heaps (live - {Slot i}) = heaps live"
  "heaps (insert (Heap h) live) = insert h (heaps live)"
  "heaps (live - {Heap h}) = heaps live - {h}"
  by (auto simp: heaps_def)

lemma finite_heaps [simp]: "finite live \<Longrightarrow> finite (heaps live)"
  unfolding heaps_def
  by (rule finite_vimageI [of live Heap, unfolded vimage_def]) (auto intro: injI)

lemma alloc_inv_init: "alloc_inv prealloc_init {}"
  using free_chain_iota [of 0]
  by (intro alloc_invI [of _ "[0..<PREALLOC_INTERPRETERS]"]) (auto simp: prealloc_init_def unused_def)

lemma allocate_fresh:
  assumes inv: "alloc_inv p live" and h: "Heap h \<notin> live"
  shows "\<exists>a p'. allocateInterpreter h p = Some (a, p') \<and> a \<notin> live \<and> alloc_inv p' (insert a live)"
  using inv
proof (rule alloc_invE)
  fix fl
  assume fl: "free_chain (pa_nextOffset p) (pa_free p) fl" "distinct fl" "set fl = unused live"
    and live: "\<And>i. Slot i \<in> live \<Longrightarrow> i < PREALLOC_INTERPRETERS" "finite live"
    and hc: "pa_heapcount p = card (heaps live)"
  show ?thesis
  proof (cases "pa_free p = PREALLOC_INTERPRETERS")
    case True
    with fl live hc h have "alloc_inv (p\<lparr>pa_heapcount := pa_heapcount p + 1\<rparr>) (insert (Heap h) live)"
      by (intro alloc_invI [of _ fl]) auto
    with True h show ?thesis by (simp add: allocateInterpreter_def)
  next
    case False
    obtain xs where xs: "fl = pa_free p # xs" "pa_free p < PREALLOC_INTERPRETERS"
      "free_chain (pa_nextOffset p) (nat (int (pa_free p) + pa_nextOffset p (pa_free p) + 1)) xs"
      using free_chain_hd [OF fl(1) False] by blast
    then have "pa_free p \<in> unused live" using fl(3) by auto
    then have fresh: "Slot (pa_free p) \<notin> live" by (simp add: unused_def)
    have "set xs = unused live - {pa_free p}" using xs(1) fl(2,3) by auto
    with xs fl(2) live hc
    have "alloc_inv (p\<lparr>pa_free := nat (int (pa_free p) + pa_nextOffset p (pa_free p) + 1)\<rparr>)
        (insert (Slot (pa_free p)) live)"
      by (intro alloc_invI [of _ xs]) auto
    with False fresh xs(2) show ?thesis by (simp add: allocateInterpreter_def)
  qed
qed

lemma overwrite_inv:
  assumes "alloc_inv p live" "Slot i \<in> live"
  shows "alloc_inv (p\<lparr>pa_nextOffset := (pa_nextOffset p)(i := x)\<rparr>) live"
  using assms(1)
proof (rule alloc_invE)
  fix fl
  assume fl: "free_chain (pa_nextOffset p) (pa_free p) fl" "distinct fl" "set fl = unused live"
    and rest: "\<And>i. Slot i \<in> live \<Longrightarrow> i < PREALLOC_INTERPRETERS" "finite live"
      "pa_heapcount p = card (heaps live)"
  have "i \<notin> set fl" using fl(3) assms(2) by (simp add: unused_def)
  with fl rest show ?thesis by (intro alloc_invI [of _ fl]) auto
qed

lemma deallocate_inv:
  assumes inv: "alloc_inv p live" and a: "a \<in> live"
  shows "\<exists>p'. deallocateInterpreter a p = Some p' \<and> alloc_inv p' (live - {a})"
  using inv
proof (rule alloc_invE)
  fix fl
  assume fl: "free_chain (pa_nextOffset p) (pa_free p) fl" "distinct fl" "set fl = unused live"
    and live: "\<And>i. Slot i \<in> live \<Longrightarrow> i < PREALLOC_INTERPRETERS" "finite live"
    and hc: "pa_heapcount p = card (heaps live)"
  show ?thesis
  proof (cases a)
    case (Slot i)
    with a live(1) fl(3) have i: "i < PREALLOC_INTERPRETERS" "i \<notin> set fl"
      by (auto simp: unused_def)
    with fl live hc
    have "alloc_inv (p\<lparr>pa_nextOffset := (pa_nextOffset p)(i := int (pa_free p) - int i - 1),
        pa_free := i\<rparr>) (live - {Slot i})"
      by (intro alloc_invI [of _ "i # fl"]) auto
    with Slot i(1) show ?thesis by (simp add: deallocateInterpreter_def)
  next
    case (Heap h)
    with a live(2) have "h \<in> heaps live" "0 < card (heaps live)"
      by (auto simp: card_gt_0_iff)
    with fl live hc
    have "alloc_inv (p\<lparr>pa_heapcount := pa_heapcount p - 1\<rparr>) (live - {Heap h})"
      by (intro alloc_invI [of _ fl]) auto
    with Heap hc \<open>0 < card (heaps live)\<close> show ?thesis by (simp add: deallocateInterpreter_def)
  qed
qed

lemma alloc_run_inv: "alloc_run p live \<Longrightarrow> alloc_inv p live"
proof (induction rule: alloc_run.induct)
  case start
  show ?case by (rule alloc_inv_init)
next
  case (allocate p live h a p')
  with allocate_fresh [OF allocate.IH] show ?case by fastforce
next
  case (overwrite p live i x)
  then show ?case by (simp add: overwrite_inv)
next
  case (deallocate p live a p')
  with deallocate_inv [OF deallocate.IH] show ?case by fastforce
qed

section \<open>Properties\<close>

text \<open>In every run, an allocation succeeds, returns an address that no live
  interpreter uses, and takes it from the array as long as a slot is unused.\<close>

theorem allocateInterpreter_fresh:
  assumes "alloc_run p live" "Heap h \<notin> live"
  shows "\<exists>a p'. allocateInterpreter h p = Some (a, p') \<and> a \<notin> live \<and>
    (is_heap a \<longleftrightarrow> (\<forall>i < PREALLOC_INTERPRETERS. Slot i \<in> live))"
proof -
  from assms(1) have inv: "alloc_inv p live" by (rule alloc_run_inv)
  with allocate_fresh [OF inv assms(2)] obtain a p' where
    a: "allocateInterpreter h p = Some (a, p')" "a \<notin> live" by blast
  from inv obtain fl where fl: "free_chain (pa_nextOffset p) (pa_free p) fl" "set fl = unused live"
    by (rule alloc_invE)
  have "pa_free p = PREALLOC_INTERPRETERS \<longleftrightarrow> unused live = {}"
    using fl by (cases fl) auto
  with a show ?thesis
    by (auto simp: allocateInterpreter_def unused_def split: if_splits)
qed

theorem allocateInterpreter_fresh_witness:
  "\<exists>a p'. allocateInterpreter 7 prealloc_init = Some (a, p') \<and> a \<notin> {} \<and>
    (is_heap a \<longleftrightarrow> (\<forall>i < PREALLOC_INTERPRETERS. Slot i \<in> {}))"
  by (rule allocateInterpreter_fresh [OF alloc_run.start]) simp

text \<open>In every run, the walk of \<open>memDebug\<close> over the free list ends after at most as
  many slots as the array has and lists exactly the slots no live interpreter uses, each once.\<close>

theorem memDebug_free_slots:
  assumes "alloc_run p live"
  shows "\<exists>fl. free_slots PREALLOC_INTERPRETERS (pa_nextOffset p) (pa_free p) = Some fl \<and>
    distinct fl \<and> set fl = {i. i < PREALLOC_INTERPRETERS \<and> Slot i \<notin> live}"
proof -
  from alloc_run_inv [OF assms] obtain fl where
    fl: "free_chain (pa_nextOffset p) (pa_free p) fl" "distinct fl" "set fl = unused live"
    by (rule alloc_invE)
  then have "card (set fl) \<le> card {..<PREALLOC_INTERPRETERS}"
    by (intro card_mono) (auto simp: unused_def)
  with fl(2) have "length fl \<le> PREALLOC_INTERPRETERS"
    by (simp add: distinct_card)
  with fl show ?thesis by (auto simp: free_slots_chain unused_def)
qed

theorem memDebug_free_slots_witness:
  "\<exists>fl. free_slots PREALLOC_INTERPRETERS (pa_nextOffset prealloc_init) (pa_free prealloc_init) =
     Some fl \<and> distinct fl \<and> set fl = {i. i < PREALLOC_INTERPRETERS \<and> Slot i \<notin> {}}"
  by (rule memDebug_free_slots [OF alloc_run.start])

end
