(* ===== verification/Packet_Impl.thy ===== *)
theory Packet_Impl
  imports Packet_Vector Packet_Alloc
begin

text \<open>
  The packet: \<open>senf::detail::PacketImpl\<close> and \<open>senf::PacketInterpreterBase\<close>
  (\<open>src/senf/Packets/PacketImpl.cc\<close>, \<open>.cci\<close>, \<open>PacketInterpreter.cc\<close>, \<open>.ct\<close>,
  \<open>PacketData.cc\<close>). One byte container holds the bytes of a whole packet, from
  the outermost header to the innermost payload, and a chain of interpreters
  says which protocol reads which range of it.

  An interpreter is identified by the address it is stored at. Its range is a
  pair of indices into the container. An iterator is an index from
  \<open>begin()\<close>. The interpreters that were taken out of the chain while a handle
  still refers to them are kept in \<open>im_loose\<close>. The protocol code behind the
  virtual members is a parameter: \<open>npr t bs\<close> is the range of the next packet
  inside the bytes \<open>bs\<close> of a packet of type \<open>t\<close>.

  A failed \<open>SENF_ASSERT\<close> is \<open>None\<close> or \<open>AssertFailed\<close>; an exception leaves the
  state that the code had reached, so the members that throw return the state
  beside the outcome.
\<close>

section \<open>State\<close>

record 't interp =
  ip_addr :: addr
  ip_type :: 't
  ip_begin :: nat
  ip_end :: nat
  ip_refs :: nat

record 't packet_impl =
  im_refcount :: nat
  im_data :: packet_vector
  im_chain :: "'t interp list"
  im_loose :: "'t interp list"
  im_prealloc :: prealloc
  im_simple :: "byte list list"
  im_complex :: "byte list option list"

text \<open>Fast annotations are fixed slots, zeroed at first; the others are created on demand.\<close>

definition ANNOTATION_SLOTS :: nat where "ANNOTATION_SLOTS = 8"
definition ANNOTATION_SLOTSIZE :: nat where "ANNOTATION_SLOTSIZE = 16"

definition empty_slots :: "byte list list" where
  "empty_slots = replicate ANNOTATION_SLOTS (replicate ANNOTATION_SLOTSIZE 0)"

definition impl_new :: "packet_vector \<Rightarrow> 't packet_impl" where
  "impl_new d = \<lparr>im_refcount = 0, im_data = d, im_chain = [], im_loose = [],
     im_prealloc = prealloc_init, im_simple = empty_slots, im_complex = []\<rparr>"

definition impl_size :: "'t packet_impl \<Rightarrow> nat" where
  "impl_size im = pv_length (im_data im)"

text \<open>The bytes an interpreter reads.\<close>

definition ip_bytes :: "'t packet_impl \<Rightarrow> 't interp \<Rightarrow> byte list" where
  "ip_bytes im x = subrange (ip_begin x) (ip_end x) (pv_contents (im_data im))"

section \<open>Reference counts of the packet\<close>

definition impl_add_ref :: "'t packet_impl \<Rightarrow> 't packet_impl" where
  "impl_add_ref im = im\<lparr>im_refcount := im_refcount im + 1\<rparr>"

text \<open>The flag is the returned value: the packet was deleted.\<close>

definition impl_release :: "'t packet_impl \<Rightarrow> (bool \<times> 't packet_impl) option" where
  "impl_release im =
     (if im_refcount im \<ge> 1
      then (if im_refcount im = 1 then Some (True, im)
            else Some (False, im\<lparr>im_refcount := im_refcount im - 1\<rparr>))
      else None)"

section \<open>The interpreter chain\<close>

definition impl_first :: "'t packet_impl \<Rightarrow> 't interp option" where
  "impl_first im = (case im_chain im of [] \<Rightarrow> None | x # _ \<Rightarrow> Some x)"

definition impl_last :: "'t packet_impl \<Rightarrow> 't interp option" where
  "impl_last im = (if im_chain im = [] then None else Some (last (im_chain im)))"

fun chain_next :: "addr \<Rightarrow> 't interp list \<Rightarrow> 't interp option" where
  "chain_next a [] = None"
| "chain_next a (x # xs) =
     (if ip_addr x = a then (case xs of [] \<Rightarrow> None | y # _ \<Rightarrow> Some y) else chain_next a xs)"

fun chain_prev :: "addr \<Rightarrow> 't interp option \<Rightarrow> 't interp list \<Rightarrow> 't interp option" where
  "chain_prev a p [] = None"
| "chain_prev a p (x # xs) = (if ip_addr x = a then p else chain_prev a (Some x) xs)"

definition impl_next :: "addr \<Rightarrow> 't packet_impl \<Rightarrow> 't interp option" where
  "impl_next a im = chain_next a (im_chain im)"

definition impl_prev :: "addr \<Rightarrow> 't packet_impl \<Rightarrow> 't interp option" where
  "impl_prev a im = chain_prev a None (im_chain im)"

definition chain_find :: "addr \<Rightarrow> 't packet_impl \<Rightarrow> 't interp option" where
  "chain_find a im = find (\<lambda>x. ip_addr x = a) (im_chain im)"

text \<open>\<open>assignImpl\<close>: an interpreter with handles keeps its packet alive.\<close>

definition assignImpl :: "'t interp \<Rightarrow> 't packet_impl \<Rightarrow> 't packet_impl" where
  "assignImpl x im = (if ip_refs x > 0 then impl_add_ref im else im)"

definition appendInterpreter :: "'t interp \<Rightarrow> 't packet_impl \<Rightarrow> 't packet_impl" where
  "appendInterpreter x im = assignImpl x (im\<lparr>im_chain := im_chain im @ [x]\<rparr>)"

definition prependInterpreter :: "'t interp \<Rightarrow> 't packet_impl \<Rightarrow> 't packet_impl" where
  "prependInterpreter x im = assignImpl x (im\<lparr>im_chain := x # im_chain im\<rparr>)"

definition prependInterpreterBefore ::
  "'t interp \<Rightarrow> addr \<Rightarrow> 't packet_impl \<Rightarrow> 't packet_impl" where
  "prependInterpreterBefore x before im =
     assignImpl x
       (im\<lparr>im_chain := takeWhile (\<lambda>y. ip_addr y \<noteq> before) (im_chain im) @
                       x # dropWhile (\<lambda>y. ip_addr y \<noteq> before) (im_chain im)\<rparr>)"

text \<open>\<open>releaseImpl\<close>: an interpreter no handle refers to gives its storage back.\<close>

definition releaseImpl :: "'t interp \<Rightarrow> 't packet_impl \<Rightarrow> 't packet_impl option" where
  "releaseImpl x im =
     (if ip_refs x = 0
      then map_option (\<lambda>p. im\<lparr>im_prealloc := p\<rparr>) (deallocateInterpreter (ip_addr x) (im_prealloc im))
      else Some (im\<lparr>im_loose := x # im_loose im\<rparr>))"

fun eraseInterpreters :: "'t interp list \<Rightarrow> 't packet_impl \<Rightarrow> 't packet_impl option" where
  "eraseInterpreters [] im = Some im"
| "eraseInterpreters (x # xs) im =
     (case releaseImpl x
             (im\<lparr>im_chain := filter (\<lambda>y. ip_addr y \<noteq> ip_addr x) (im_chain im)\<rparr>) of
        None \<Rightarrow> None
      | Some im' \<Rightarrow> eraseInterpreters xs im')"

definition truncateInterpreters :: "addr \<Rightarrow> 't packet_impl \<Rightarrow> (bool \<times> 't packet_impl) option" where
  "truncateInterpreters a im =
     Option.bind
       (eraseInterpreters (dropWhile (\<lambda>y. ip_addr y \<noteq> a) (im_chain im)) (impl_add_ref im))
       impl_release"

definition truncateInterpretersBackwards ::
  "addr \<Rightarrow> 't packet_impl \<Rightarrow> (bool \<times> 't packet_impl) option" where
  "truncateInterpretersBackwards a im =
     Option.bind
       (eraseInterpreters
          (takeWhile (\<lambda>y. ip_addr y \<noteq> a) (im_chain im) @
           take 1 (dropWhile (\<lambda>y. ip_addr y \<noteq> a) (im_chain im)))
          (impl_add_ref im))
       impl_release"

text \<open>\<open>clearInterpreters\<close> only unlinks: no interpreter gives its storage back.\<close>

definition clearInterpreters :: "'t packet_impl \<Rightarrow> 't packet_impl" where
  "clearInterpreters im = im\<lparr>im_chain := [], im_loose := im_chain im @ im_loose im\<rparr>"

text \<open>The loop of \<open>destroySelf\<close>: it frees interpreters until none is on the heap.\<close>

fun destroy_loop :: "'t interp list \<Rightarrow> 't packet_impl \<Rightarrow> 't packet_impl option" where
  "destroy_loop [] im = Some im"
| "destroy_loop (x # xs) im =
     (case releaseImpl x
             (im\<lparr>im_chain := filter (\<lambda>y. ip_addr y \<noteq> ip_addr x) (im_chain im)\<rparr>) of
        None \<Rightarrow> None
      | Some im' \<Rightarrow> if pa_heapcount (im_prealloc im') = 0 then Some im' else destroy_loop xs im')"

definition destroySelf :: "'t packet_impl \<Rightarrow> 't packet_impl option" where
  "destroySelf im = destroy_loop (im_chain im) (impl_add_ref im)"

definition impl_destroy :: "'t packet_impl \<Rightarrow> 't packet_impl option" where
  "impl_destroy im = (if pa_heapcount (im_prealloc im) > 0 then destroySelf im else Some im)"

section \<open>Changing the bytes\<close>

text \<open>
  \<open>updateIterators\<close>: \<open>n\<close> bytes were inserted (or, for a negative \<open>n\<close>, removed) at
  index \<open>pos\<close> on behalf of the interpreter \<open>self\<close>. Interpreters outside of
  \<open>self\<close> and \<open>self\<close> grow; those inside move when the change is before the
  first of them.
\<close>

text \<open>
  An index is a \<open>size_t\<close>: one that would become negative wraps around. (It never
  exceeds the size of the container, so it does not wrap at the upper end.)
\<close>

definition move_ix :: "int \<Rightarrow> nat \<Rightarrow> nat" where
  "move_ix n i = (if int i + n < 0 then nat (int i + n + 2 ^ 64) else nat (int i + n))"

definition grow_ip :: "int \<Rightarrow> 't interp \<Rightarrow> 't interp" where
  "grow_ip n x = x\<lparr>ip_end := move_ix n (ip_end x)\<rparr>"

definition shift_ip :: "int \<Rightarrow> 't interp \<Rightarrow> 't interp" where
  "shift_ip n x = x\<lparr>ip_begin := move_ix n (ip_begin x), ip_end := move_ix n (ip_end x)\<rparr>"

fun updateIterators :: "addr \<Rightarrow> int \<Rightarrow> int \<Rightarrow> 't interp list \<Rightarrow> 't interp list option" where
  "updateIterators self pos n [] = None"
| "updateIterators self pos n (i # is) =
     (if ip_addr i \<noteq> self
      then map_option ((#) (grow_ip n i)) (updateIterators self pos n is)
      else Some (grow_ip n i #
                 (case is of
                    [] \<Rightarrow> []
                  | j # _ \<Rightarrow> if pos \<le> int (ip_begin j) then map (shift_ip n) is else is)))"

definition impl_update ::
  "addr \<Rightarrow> int \<Rightarrow> int \<Rightarrow> packet_vector option \<Rightarrow> 't packet_impl \<Rightarrow> 't packet_impl option" where
  "impl_update self pos n d im =
     (case d of
        None \<Rightarrow> None
      | Some d' \<Rightarrow> map_option (\<lambda>c. im\<lparr>im_data := d', im_chain := c\<rparr>)
                     (updateIterators self pos n (im_chain im)))"

definition impl_insert1 ::
  "(nat \<Rightarrow> byte) \<Rightarrow> addr \<Rightarrow> nat \<Rightarrow> byte \<Rightarrow> 't packet_impl \<Rightarrow> 't packet_impl option" where
  "impl_insert1 u self ix v im =
     impl_update self (int ix) 1 (pv_insert1 u (pv_b (im_data im) + ix) v (im_data im)) im"

definition impl_insert_n ::
  "(nat \<Rightarrow> byte) \<Rightarrow> addr \<Rightarrow> nat \<Rightarrow> nat \<Rightarrow> byte \<Rightarrow> 't packet_impl \<Rightarrow> 't packet_impl option" where
  "impl_insert_n u self ix n v im =
     impl_update self (int ix) (int n) (pv_insert_n u (pv_b (im_data im) + ix) n v (im_data im)) im"

definition impl_insert_range ::
  "(nat \<Rightarrow> byte) \<Rightarrow> addr \<Rightarrow> nat \<Rightarrow> byte list \<Rightarrow> 't packet_impl \<Rightarrow> 't packet_impl option" where
  "impl_insert_range u self ix xs im =
     impl_update self (int ix) (int (length xs))
       (pv_insert_range u (pv_b (im_data im) + ix) xs (im_data im)) im"

definition impl_erase1 :: "addr \<Rightarrow> nat \<Rightarrow> 't packet_impl \<Rightarrow> 't packet_impl option" where
  "impl_erase1 self ix im =
     impl_update self (int ix) (- 1) (pv_erase1 (pv_b (im_data im) + ix) (im_data im)) im"

definition impl_erase :: "addr \<Rightarrow> nat \<Rightarrow> nat \<Rightarrow> 't packet_impl \<Rightarrow> 't packet_impl option" where
  "impl_erase self from to im =
     impl_update self (int from) (- (int to - int from))
       (pv_erase (pv_b (im_data im) + from) (pv_b (im_data im) + to) (im_data im)) im"

definition truncateDataBackwards :: "addr \<Rightarrow> nat \<Rightarrow> 't packet_impl \<Rightarrow> 't packet_impl option" where
  "truncateDataBackwards self pos im =
     impl_update self 0 (- int pos)
       (pv_truncateFront (pv_b (im_data im) + pos) (im_data im)) im"

definition truncateRawDataBackwards :: "nat \<Rightarrow> 't packet_impl \<Rightarrow> 't packet_impl option" where
  "truncateRawDataBackwards pos im =
     (if im_chain im = []
      then map_option (\<lambda>d. im\<lparr>im_data := d\<rparr>)
             (pv_truncateFront (pv_b (im_data im) + pos) (im_data im))
      else None)"

definition truncateRawDataForward :: "nat \<Rightarrow> 't packet_impl \<Rightarrow> 't packet_impl option" where
  "truncateRawDataForward pos im =
     map_option (\<lambda>d. im\<lparr>im_data := d\<rparr>)
       (pv_truncateBack (pv_b (im_data im) + pos) (im_data im))"

text \<open>\<open>clear\<close>: the packets inside go first, then the bytes of the packet itself.\<close>

definition impl_clear :: "addr \<Rightarrow> 't packet_impl \<Rightarrow> 't packet_impl option" where
  "impl_clear self im =
     Option.bind
       (case impl_next self im of
          None \<Rightarrow> Some im
        | Some n \<Rightarrow> map_option snd (truncateInterpreters (ip_addr n) im))
       (\<lambda>im1. Option.bind (chain_find self im1)
         (\<lambda>x. impl_update self (int (ip_begin x)) (- (int (ip_end x) - int (ip_begin x)))
                (pv_erase (pv_b (im_data im1) + ip_begin x) (pv_b (im_data im1) + ip_end x)
                   (im_data im1)) im1))"

definition pd_resize ::
  "(nat \<Rightarrow> byte) \<Rightarrow> addr \<Rightarrow> nat \<Rightarrow> byte \<Rightarrow> 't packet_impl \<Rightarrow> 't packet_impl option" where
  "pd_resize u self n v im =
     Option.bind (chain_find self im)
       (\<lambda>x. if n < ip_end x - ip_begin x
            then impl_erase self (ip_begin x + n) (ip_end x) im
            else if n > ip_end x - ip_begin x
            then impl_insert_n u self (ip_end x) (n - (ip_end x - ip_begin x)) v im
            else Some im)"

section \<open>Annotations\<close>

definition clearAnnotations :: "'t packet_impl \<Rightarrow> 't packet_impl" where
  "clearAnnotations im = im\<lparr>im_simple := empty_slots, im_complex := []\<rparr>"

definition assignAnnotations :: "'t packet_impl \<Rightarrow> 't packet_impl \<Rightarrow> 't packet_impl" where
  "assignAnnotations other im = im\<lparr>im_simple := im_simple other, im_complex := im_complex other\<rparr>"

text \<open>
  An annotation key is a slot number, or negative: \<open>-1\<close> is the first complex
  annotation. The outer \<open>None\<close> is a failed assertion or an access out of range, the
  inner one the null pointer.
\<close>

definition complexAnnotation :: "int \<Rightarrow> 't packet_impl \<Rightarrow> byte list option option" where
  "complexAnnotation key im =
     (if key < 0
      then Some (if nat (- key - 1) \<ge> length (im_complex im) then None
                 else im_complex im ! nat (- key - 1))
      else None)"

definition annotation :: "int \<Rightarrow> 't packet_impl \<Rightarrow> byte list option option" where
  "annotation key im =
     (if key \<ge> 0
      then (if nat key < length (im_simple im) then Some (Some (im_simple im ! nat key)) else None)
      else complexAnnotation key im)"

text \<open>
  The typed access creates a missing complex annotation; \<open>v\<close> is what the
  annotation's constructor makes.
\<close>

definition complexAnnotation_create ::
  "int \<Rightarrow> byte list \<Rightarrow> 't packet_impl \<Rightarrow> (byte list \<times> 't packet_impl) option" where
  "complexAnnotation_create key v im =
     (case complexAnnotation key im of
        None \<Rightarrow> None
      | Some (Some x) \<Rightarrow> Some (x, im)
      | Some None \<Rightarrow>
          (let c = im_complex im @ replicate (nat (- key) - length (im_complex im)) None
           in Some (v, im\<lparr>im_complex := c[nat (- key - 1) := Some v]\<rparr>)))"

section \<open>The chain is nested\<close>

text \<open>
  The invariant of the chain: every interpreter lies inside the one before it,
  the first inside the container, and no two are stored at the same address.
\<close>

fun nested :: "nat \<Rightarrow> nat \<Rightarrow> 't interp list \<Rightarrow> bool" where
  "nested lo hi [] \<longleftrightarrow> True"
| "nested lo hi (x # xs) \<longleftrightarrow>
     lo \<le> ip_begin x \<and> ip_begin x \<le> ip_end x \<and> ip_end x \<le> hi \<and> nested (ip_begin x) (ip_end x) xs"

definition chain_ok :: "'t packet_impl \<Rightarrow> bool" where
  "chain_ok im \<longleftrightarrow> pv_ok (im_data im) \<and> nested 0 (impl_size im) (im_chain im) \<and>
     distinct (map ip_addr (im_chain im))"

text \<open>The chain up to and including \<open>self\<close>, and the packets inside of \<open>self\<close>.\<close>

fun outer :: "addr \<Rightarrow> 't interp list \<Rightarrow> 't interp list" where
  "outer self [] = []"
| "outer self (i # is) = i # (if ip_addr i = self then [] else outer self is)"

fun inner :: "addr \<Rightarrow> 't interp list \<Rightarrow> 't interp list" where
  "inner self [] = []"
| "inner self (i # is) = (if ip_addr i = self then is else inner self is)"

text \<open>
  The changes \<open>updateIterators\<close> is made for: the bytes from \<open>f\<close> to \<open>t\<close> belong to
  \<open>self\<close> and to no packet inside it, and the change is not placed directly
  behind an empty packet.
\<close>

fun edit_in :: "addr \<Rightarrow> nat \<Rightarrow> nat \<Rightarrow> 't interp list \<Rightarrow> bool" where
  "edit_in self f t [] \<longleftrightarrow> False"
| "edit_in self f t (i # is) \<longleftrightarrow>
     (if ip_addr i \<noteq> self then edit_in self f t is
      else ip_begin i \<le> f \<and> f \<le> t \<and> t \<le> ip_end i \<and>
           (case is of [] \<Rightarrow> True
            | j # _ \<Rightarrow> t \<le> ip_begin j \<or> ip_end j \<le> f \<and> ip_begin j < f))"

lemma outer_inner: "outer self c @ inner self c = c"
  by (induction c) auto

lemma nested_mono: "nested lo hi c \<Longrightarrow> lo' \<le> lo \<Longrightarrow> hi \<le> hi' \<Longrightarrow> nested lo' hi' c"
  by (cases c) auto

lemma nested_within: "nested lo hi c \<Longrightarrow> x \<in> set c \<Longrightarrow> lo \<le> ip_begin x \<and> ip_begin x \<le> ip_end x \<and> ip_end x \<le> hi"
  by (induction c arbitrary: lo hi) fastforce+

lemma move_ix_simps [simp]:
  "move_ix (int n) i = i + n" "n \<le> i \<Longrightarrow> move_ix (- int n) i = i - n"
  by (auto simp: move_ix_def nat_diff_distrib' nat_add_distrib)

text \<open>An index behind a change of \<open>t - f\<close> bytes into \<open>k\<close> bytes.\<close>

lemma move_ix_edit:
  "n = int k - (int t - int f) \<Longrightarrow> f \<le> t \<Longrightarrow> t \<le> i \<Longrightarrow> move_ix n i = i - (t - f) + k"
  by (auto simp: move_ix_def)

text \<open>The packets inside keep their bytes and move with them.\<close>

definition keeps_bytes :: "byte list \<Rightarrow> byte list \<Rightarrow> 't interp \<Rightarrow> 't interp \<Rightarrow> bool" where
  "keeps_bytes bs bs' x y \<longleftrightarrow> ip_addr y = ip_addr x \<and> ip_type y = ip_type x \<and> ip_refs y = ip_refs x \<and>
     subrange (ip_begin y) (ip_end y) bs' = subrange (ip_begin x) (ip_end x) bs"

text \<open>The packets outside see the change at the same place of their bytes.\<close>

definition sees_edit ::
  "nat \<Rightarrow> nat \<Rightarrow> byte list \<Rightarrow> byte list \<Rightarrow> byte list \<Rightarrow> 't interp \<Rightarrow> 't interp \<Rightarrow> bool" where
  "sees_edit f t ys bs bs' x y \<longleftrightarrow> ip_addr y = ip_addr x \<and> ip_type y = ip_type x \<and>
     ip_refs y = ip_refs x \<and> ip_begin y = ip_begin x \<and>
     subrange (ip_begin y) (ip_end y) bs' =
       replace_list (f - ip_begin x) (t - ip_begin x) ys (subrange (ip_begin x) (ip_end x) bs)"

lemma keeps_bytes_refl_before:
  "ip_end x \<le> f \<Longrightarrow> f \<le> t \<Longrightarrow> t \<le> length bs \<Longrightarrow> keeps_bytes bs (replace_list f t ys bs) x x"
  by (simp add: keeps_bytes_def subrange_replace_before)

lemma nested_shift:
  assumes n: "n = int (length ys) - (int t - int f)" "f \<le> t"
    and c: "nested lo hi c" "t \<le> lo" "hi \<le> length bs"
  shows "nested (lo - (t - f) + length ys) (hi - (t - f) + length ys) (map (shift_ip n) c) \<and>
    list_all2 (keeps_bytes bs (replace_list f t ys bs)) c (map (shift_ip n) c)"
  using c
proof (induction c arbitrary: lo hi)
  case Nil
  then show ?case by simp
next
  case (Cons x c)
  then have x: "t \<le> ip_begin x" "ip_begin x \<le> ip_end x" "ip_end x \<le> length bs" by auto
  have m: "move_ix n (ip_begin x) = ip_begin x - (t - f) + length ys"
    "move_ix n (ip_end x) = ip_end x - (t - f) + length ys"
    using x by (blast intro: move_ix_edit [OF n] le_trans)+
  have "keeps_bytes bs (replace_list f t ys bs) x (shift_ip n x)"
    using subrange_replace_after [OF n(2) x, of ys] by (simp add: keeps_bytes_def shift_ip_def m)
  moreover have "nested (ip_begin x) (ip_end x) c" using Cons.prems by simp
  note Cons.IH [OF this x(1,3)]
  moreover have "ip_begin (shift_ip n x) = ip_begin x - (t - f) + length ys"
    "ip_end (shift_ip n x) = ip_end x - (t - f) + length ys"
    by (simp_all add: shift_ip_def m)
  ultimately show ?case
    using Cons.prems x by auto
qed

lemma edit_in_within:
  "nested lo hi c \<Longrightarrow> edit_in self f t c \<Longrightarrow> lo \<le> f \<and> f \<le> t \<and> t \<le> hi"
  by (induction c arbitrary: lo hi) (fastforce split: if_splits)+

lemma sees_edit_grow:
  assumes n: "n = int (length ys) - (int t - int f)"
    and x: "ip_begin x \<le> f" "f \<le> t" "t \<le> ip_end x" "ip_end x \<le> length bs"
  shows "sees_edit f t ys bs (replace_list f t ys bs) x (grow_ip n x)"
    "ip_end (grow_ip n x) = ip_end x - (t - f) + length ys" "ip_begin (grow_ip n x) = ip_begin x"
proof -
  have m: "move_ix n (ip_end x) = ip_end x - (t - f) + length ys"
    by (rule move_ix_edit [OF n x(2,3)])
  show "sees_edit f t ys bs (replace_list f t ys bs) x (grow_ip n x)"
    using subrange_replace_inside [OF x, of ys] by (simp add: sees_edit_def grow_ip_def m)
  show "ip_end (grow_ip n x) = ip_end x - (t - f) + length ys" "ip_begin (grow_ip n x) = ip_begin x"
    by (simp_all add: grow_ip_def m)
qed

text \<open>The packets inside \<open>self\<close> after the change.\<close>

lemma updateIterators_inner:
  assumes n: "n = int (length ys) - (int t - int f)"
    and i: "ip_begin i \<le> f" "f \<le> t" "t \<le> ip_end i" "ip_end i \<le> length bs"
    and c: "nested (ip_begin i) (ip_end i) c"
      "case c of [] \<Rightarrow> True | j # _ \<Rightarrow> t \<le> ip_begin j \<or> ip_end j \<le> f \<and> ip_begin j < f"
    and c': "c' = (case c of [] \<Rightarrow> []
        | j # _ \<Rightarrow> if int f \<le> int (ip_begin j) then map (shift_ip n) c else c)"
  shows "nested (ip_begin i) (ip_end i - (t - f) + length ys) c' \<and>
    list_all2 (keeps_bytes bs (replace_list f t ys bs)) c c'"
proof (cases c)
  case Nil
  with c' show ?thesis by simp
next
  case (Cons j js)
  show ?thesis
  proof (cases "t \<le> ip_begin j")
    case True
    then have "nested t (ip_end i) c" "c' = map (shift_ip n) c"
      using Cons c c' i by auto
    with nested_shift [OF n i(2) this(1) le_refl i(4)] i show ?thesis
      by (auto intro: nested_mono)
  next
    case False
    then have "c' = c" "nested (ip_begin i) f c"
      using Cons c c' by auto
    moreover from this(2) have "keeps_bytes bs (replace_list f t ys bs) x x" if "x \<in> set c" for x
      using nested_within [OF _ that] i by (intro keeps_bytes_refl_before) fastforce+
    ultimately show ?thesis
      using i by (auto intro: nested_mono list.rel_refl_strong)
  qed
qed

lemma updateIterators_edit:
  assumes n: "n = int (length ys) - (int t - int f)"
    and c: "nested lo hi c" "edit_in self f t c" "hi \<le> length bs"
  shows "\<exists>os is. updateIterators self (int f) n c = Some (os @ is) \<and>
    nested lo (hi - (t - f) + length ys) (os @ is) \<and>
    list_all2 (sees_edit f t ys bs (replace_list f t ys bs)) (outer self c) os \<and>
    list_all2 (keeps_bytes bs (replace_list f t ys bs)) (inner self c) is"
  using c
proof (induction c arbitrary: lo hi)
  case Nil
  then show ?case by simp
next
  case (Cons i c)
  from edit_in_within [OF _ Cons.prems(2)] Cons.prems(1)
  have i: "lo \<le> ip_begin i" "ip_end i \<le> hi" "ip_begin i \<le> ip_end i"
    and ic: "nested (ip_begin i) (ip_end i) c" by auto
  have ft: "ip_begin i \<le> f \<and> f \<le> t \<and> t \<le> ip_end i"
    using Cons.prems edit_in_within [OF ic] by (auto split: if_splits)
  with i Cons.prems(3) have x: "ip_begin i \<le> f" "f \<le> t" "t \<le> ip_end i" "ip_end i \<le> length bs"
    by auto
  note g = sees_edit_grow [OF n x]
  show ?case
  proof (cases "ip_addr i = self")
    case False
    with Cons.prems have "edit_in self f t c" by simp
    from Cons.IH [OF ic this x(4)] obtain os "is" where
      IH: "updateIterators self (int f) n c = Some (os @ is)"
        "nested (ip_begin i) (ip_end i - (t - f) + length ys) (os @ is)"
        "list_all2 (sees_edit f t ys bs (replace_list f t ys bs)) (outer self c) os"
        "list_all2 (keeps_bytes bs (replace_list f t ys bs)) (inner self c) is"
      by blast
    with False g i x show ?thesis
      by (intro exI [of _ "grow_ip n i # os"] exI [of _ "is"]) auto
  next
    case True
    define c' where "c' = (case c of [] \<Rightarrow> []
        | j # _ \<Rightarrow> if int f \<le> int (ip_begin j) then map (shift_ip n) c else c)"
    have "case c of [] \<Rightarrow> True | j # _ \<Rightarrow> t \<le> ip_begin j \<or> ip_end j \<le> f \<and> ip_begin j < f"
      using Cons.prems(2) True by simp
    from updateIterators_inner [OF n x ic this c'_def] True g i x show ?thesis
      by (intro exI [of _ "[grow_ip n i]"] exI [of _ c']) (auto simp: c'_def)
  qed
qed

lemma outer_inner_split:
  assumes "edit_in self f t c" "list_all2 (\<lambda>x y. ip_addr y = ip_addr x) (outer self c) os"
  shows "outer self (os @ is) = os \<and> inner self (os @ is) = is"
  using assms
proof (induction c arbitrary: os)
  case Nil
  then show ?case by simp
next
  case (Cons i c)
  then obtain y ys where "os = y # ys" "ip_addr y = ip_addr i"
    "list_all2 (\<lambda>x y. ip_addr y = ip_addr x) (if ip_addr i = self then [] else outer self c) ys"
    by (auto simp: list_all2_Cons1)
  with Cons show ?case by (cases "ip_addr i = self") auto
qed

lemma map_addr_rel: "list_all2 (\<lambda>x y. ip_addr y = ip_addr x) c c' \<Longrightarrow> map ip_addr c' = map ip_addr c"
  by (induction rule: list_all2_induct) auto

text \<open>The effect of a change on every packet of the chain.\<close>

definition edit_effect ::
  "addr \<Rightarrow> nat \<Rightarrow> nat \<Rightarrow> byte list \<Rightarrow> 't packet_impl \<Rightarrow> 't packet_impl \<Rightarrow> bool" where
  "edit_effect self f t ys im im' \<longleftrightarrow>
     list_all2 (\<lambda>x y. ip_addr y = ip_addr x \<and> ip_type y = ip_type x \<and> ip_refs y = ip_refs x \<and>
         ip_begin y = ip_begin x \<and>
         ip_bytes im' y = replace_list (f - ip_begin x) (t - ip_begin x) ys (ip_bytes im x))
       (outer self (im_chain im)) (outer self (im_chain im')) \<and>
     list_all2 (\<lambda>x y. ip_addr y = ip_addr x \<and> ip_type y = ip_type x \<and> ip_refs y = ip_refs x \<and>
         ip_bytes im' y = ip_bytes im x)
       (inner self (im_chain im)) (inner self (im_chain im'))"

lemma impl_update_edit:
  assumes im: "chain_ok im" and ed: "edit_in self f t (im_chain im)"
    and d: "pv_ok d" "pv_contents d = replace_list f t ys (pv_contents (im_data im))"
    and n: "n = int (length ys) - (int t - int f)"
  shows "\<exists>im'. impl_update self (int f) n (Some d) im = Some im' \<and> chain_ok im' \<and>
    edit_effect self f t ys im im' \<and> im_data im' = d \<and>
    im_refcount im' = im_refcount im \<and> im_loose im' = im_loose im \<and> im_prealloc im' = im_prealloc im"
proof -
  let ?bs = "pv_contents (im_data im)"
  from im have ok: "pv_ok (im_data im)" "nested 0 (impl_size im) (im_chain im)"
    "distinct (map ip_addr (im_chain im))" and len: "impl_size im \<le> length ?bs"
    by (auto simp: chain_ok_def impl_size_def)
  from edit_in_within [OF ok(2) ed] have ft: "f \<le> t" "t \<le> length ?bs" using len by auto
  from updateIterators_edit [OF n ok(2) ed len] obtain os "is" where
    u: "updateIterators self (int f) n (im_chain im) = Some (os @ is)"
      "nested 0 (impl_size im - (t - f) + length ys) (os @ is)"
    and o: "list_all2 (sees_edit f t ys ?bs (pv_contents d)) (outer self (im_chain im)) os"
    and i: "list_all2 (keeps_bytes ?bs (pv_contents d)) (inner self (im_chain im)) is"
    unfolding d(2) by blast
  have oa: "list_all2 (\<lambda>x y. ip_addr y = ip_addr x) (outer self (im_chain im)) os"
    using o by (rule list_all2_mono) (simp add: sees_edit_def)
  have ia: "list_all2 (\<lambda>x y. ip_addr y = ip_addr x) (inner self (im_chain im)) is"
    using i by (rule list_all2_mono) (simp add: keeps_bytes_def)
  have "map ip_addr (os @ is) = map ip_addr (im_chain im)"
    using map_addr_rel [OF list_all2_appendI [OF oa ia]] by (simp add: outer_inner)
  moreover have "pv_length d = impl_size im - (t - f) + length ys"
    using d ok(1) ft length_pv_contents [OF d(1)]
    by (simp add: length_replace_list impl_size_def)
  moreover note outer_inner_split [OF ed oa]
  moreover have "edit_effect self f t ys im (im\<lparr>im_data := d, im_chain := os @ is\<rparr>)"
    unfolding edit_effect_def
    using o i outer_inner_split [OF ed oa]
    by (auto simp: sees_edit_def keeps_bytes_def ip_bytes_def elim!: list_all2_mono)
  ultimately show ?thesis
    using u ok d by (auto simp: impl_update_def chain_ok_def impl_size_def)
qed

lemma edit_in_length:
  "chain_ok im \<Longrightarrow> edit_in self f t (im_chain im) \<Longrightarrow>
   f \<le> t \<and> t \<le> length (pv_contents (im_data im))"
  using edit_in_within by (fastforce simp: chain_ok_def impl_size_def)

section \<open>Properties of the changes\<close>

text \<open>C1: Inserting bytes on behalf of a packet, at a place that belongs to it and not to a
  packet inside it, keeps the chain nested; the packet and all packets outside of it see the
  bytes inserted at that place, and every packet inside keeps its bytes.\<close>

theorem insert_range_keeps_packets:
  assumes "chain_ok im" "edit_in self ix ix (im_chain im)"
  shows "\<exists>im'. impl_insert_range u self ix xs im = Some im' \<and> chain_ok im' \<and>
    edit_effect self ix ix xs im im'"
proof -
  from assms(1) have ok: "pv_ok (im_data im)" by (simp add: chain_ok_def)
  from edit_in_length [OF assms] have "ix \<le> length (pv_contents (im_data im))" by simp
  from pvc.insert_at [OF ok this, where xs = xs and u = u] obtain d where
    "pv_insert_range u (pv_b (im_data im) + ix) xs (im_data im) = Some d" "pv_ok d"
    "pv_contents d = replace_list ix ix xs (pv_contents (im_data im))"
    by (auto simp: pv_insert_at_def insert_list_replace)
  with impl_update_edit [OF assms this(2,3)] show ?thesis
    by (auto simp: impl_insert_range_def)
qed


text \<open>
  The place directly behind an empty inner packet is the place directly before it:
  \<open>updateIterators\<close> cannot tell them apart.
\<close>

definition empty_inner :: "packet_vector \<Rightarrow> nat \<Rightarrow> unit packet_impl" where
  "empty_inner d n = (impl_new d)\<lparr>im_chain :=
     [\<lparr>ip_addr = Slot 0, ip_type = (), ip_begin = 0, ip_end = n, ip_refs = 1\<rparr>,
      \<lparr>ip_addr = Slot 1, ip_type = (), ip_begin = 0, ip_end = 0, ip_refs = 0\<rparr>]\<rparr>"

text \<open>Erasing the bytes of a packet that follow an empty packet at its beginning moves the
  empty packet by the erased length, so its index wraps around and leaves the container.\<close>

theorem erase_behind_empty_packet:
  assumes "pv_ok d" "pv_length d = n" "0 < t" "t \<le> n" "n < 2 ^ 63"
  shows "chain_ok (empty_inner d n) \<and>
    (\<exists>im'. impl_erase (Slot 0) 0 t (empty_inner d n) = Some im' \<and>
       map ip_begin (im_chain im') = [0, 2 ^ 64 - t] \<and> \<not> chain_ok im')"
proof -
  have "pv_b d + t \<le> pv_e d" using assms by (auto simp: pv_length_def dest: pv_okD(1))
  then obtain e where e: "pv_erase (pv_b d) (pv_b d + t) d = Some e"
    using pv_erase_spec [OF assms(1), of "pv_b d" "pv_b d + t"] by auto
  have m: "move_ix (- int t) 0 = 2 ^ 64 - t"
    using assms by (simp add: move_ix_def nat_diff_distrib')
  then show ?thesis
    using assms e
    by (auto simp: empty_inner_def impl_new_def impl_erase_def impl_update_def chain_ok_def
        impl_size_def shift_ip_def grow_ip_def)
qed

theorem erase_behind_empty_packet_witness:
  "\<exists>im'. impl_erase (Slot 0) 0 3 (empty_inner (pv_new_range (\<lambda>_. 0) [1, 2, 3, 4]) 4) = Some im' \<and>
     map ip_begin (im_chain im') = [0, 2 ^ 64 - 3] \<and> \<not> chain_ok im'"
  using erase_behind_empty_packet [of "pv_new_range (\<lambda>_. 0) [1, 2, 3, 4]" 4 3]
    length_pv_contents [of "pv_new_range (\<lambda>_. 0) [1, 2, 3, 4]"]
  by (simp add: pv_new_range_spec)

text \<open>A packet of two interpreters, to apply the properties to.\<close>

definition sample_impl :: "unit packet_impl" where
  "sample_impl = (impl_new (pv_new_range (\<lambda>_. 0) [1, 2, 3, 4, 5, 6]))\<lparr>im_refcount := 1,
     im_chain :=
       [\<lparr>ip_addr = Slot 0, ip_type = (), ip_begin = 0, ip_end = 6, ip_refs = 1\<rparr>,
        \<lparr>ip_addr = Slot 1, ip_type = (), ip_begin = 2, ip_end = 5, ip_refs = 0\<rparr>],
     im_prealloc := prealloc_init\<lparr>pa_free := 2\<rparr>\<rparr>"

lemma sample_impl_ok: "chain_ok sample_impl"
  using length_pv_contents [of "pv_new_range (\<lambda>_. 0) [1, 2, 3, 4, 5, 6]"]
  by (simp add: sample_impl_def impl_new_def chain_ok_def impl_size_def pv_new_range_spec)

theorem insert_range_keeps_packets_witness:
  "\<exists>im'. impl_insert_range (\<lambda>_. 0) (Slot 0) 2 [7, 8] sample_impl = Some im' \<and> chain_ok im' \<and>
    edit_effect (Slot 0) 2 2 [7, 8] sample_impl im'"
  by (rule insert_range_keeps_packets [OF sample_impl_ok]) (simp add: sample_impl_def)


end
