(* ===== verification/Packet_Chain.thy ===== *)
theory Packet_Chain
  imports Packet_Impl
begin

text \<open>
  The members of \<open>senf::PacketInterpreterBase\<close> and \<open>senf::PacketInterpreter\<close> that
  build and change chains (\<open>src/senf/Packets/PacketInterpreter.cc\<close>, \<open>.cci\<close>, \<open>.ct\<close>,
  \<open>.cti\<close>): creating an interpreter before, inside or in front of another one,
  appending the chain of one packet to another, cloning, and the handles that
  keep an interpreter and its packet alive.

  The result of a member that may throw is the state it leaves and the outcome.
\<close>

section \<open>Handles\<close>

datatype pkt_error = AssertFailed | InvalidPacketChain | TruncatedPacket

definition interps :: "'t packet_impl \<Rightarrow> 't interp list" where
  "interps im = im_chain im @ im_loose im"

definition set_refs :: "addr \<Rightarrow> nat \<Rightarrow> 't interp \<Rightarrow> 't interp" where
  "set_refs a n x = (if ip_addr x = a then x\<lparr>ip_refs := n\<rparr> else x)"

definition impl_set_refs :: "addr \<Rightarrow> nat \<Rightarrow> 't packet_impl \<Rightarrow> 't packet_impl" where
  "impl_set_refs a n im =
     im\<lparr>im_chain := map (set_refs a n) (im_chain im), im_loose := map (set_refs a n) (im_loose im)\<rparr>"

text \<open>\<open>intrusive_ptr_add_ref\<close>: the first handle of an interpreter also holds the packet.\<close>

definition interp_add_ref :: "addr \<Rightarrow> 't packet_impl \<Rightarrow> 't packet_impl option" where
  "interp_add_ref a im =
     map_option (\<lambda>x. impl_set_refs a (ip_refs x + 1) (if ip_refs x = 0 then impl_add_ref im else im))
       (find (\<lambda>x. ip_addr x = a) (interps im))"

text \<open>
  \<open>intrusive_ptr_release\<close>: the last handle gives the storage of an unlinked
  interpreter back and releases the packet. The flag says that the packet was deleted.
\<close>

definition interp_release :: "addr \<Rightarrow> 't packet_impl \<Rightarrow> (bool \<times> 't packet_impl) option" where
  "interp_release a im =
     Option.bind (find (\<lambda>x. ip_addr x = a) (interps im)) (\<lambda>x.
       if ip_refs x = 0 then None
       else if ip_refs x > 1 then Some (False, impl_set_refs a (ip_refs x - 1) im)
       else Option.bind
              (if a \<in> ip_addr ` set (im_chain im) then Some (impl_set_refs a 0 im)
               else releaseImpl (x\<lparr>ip_refs := 0\<rparr>)
                      (im\<lparr>im_loose := filter (\<lambda>y. ip_addr y \<noteq> a) (im_loose im)\<rparr>))
              impl_release)"

section \<open>Creating interpreters\<close>

datatype place = Append | Prepend | Before addr

text \<open>An address the heap may return: one that no interpreter of the packet uses.\<close>

fun heap_no :: "addr \<Rightarrow> nat" where
  "heap_no (Slot i) = 0"
| "heap_no (Heap h) = h"

definition fresh_heap :: "'t packet_impl \<Rightarrow> nat" where
  "fresh_heap im = Suc (sum_list (map (heap_no \<circ> ip_addr) (interps im)))"

definition interp_create ::
  "place \<Rightarrow> 't \<Rightarrow> nat \<Rightarrow> nat \<Rightarrow> 't packet_impl \<Rightarrow> (addr \<times> 't packet_impl) option" where
  "interp_create pl t b e im =
     map_option (\<lambda>(a, p).
         let x = \<lparr>ip_addr = a, ip_type = t, ip_begin = b, ip_end = e, ip_refs = 0\<rparr>;
             im1 = im\<lparr>im_prealloc := p\<rparr>
         in (a, case pl of Append \<Rightarrow> appendInterpreter x im1
                         | Prepend \<Rightarrow> prependInterpreter x im1
                         | Before q \<Rightarrow> prependInterpreterBefore x q im1))
       (allocateInterpreter (fresh_heap im) (im_prealloc im))"

text \<open>An interpreter that is returned as a handle.\<close>

definition interp_create_ptr ::
  "place \<Rightarrow> 't \<Rightarrow> nat \<Rightarrow> nat \<Rightarrow> 't packet_impl \<Rightarrow> (addr \<times> 't packet_impl) option" where
  "interp_create_ptr pl t b e im =
     Option.bind (interp_create pl t b e im)
       (\<lambda>(a, im1). map_option (Pair a) (interp_add_ref a im1))"

section \<open>The chain of packets\<close>

definition nextPacketRange ::
  "('t \<Rightarrow> byte list \<Rightarrow> (nat \<times> nat) option) \<Rightarrow> addr \<Rightarrow> 't packet_impl \<Rightarrow> (nat \<times> nat) option" where
  "nextPacketRange npr a im =
     Option.bind (chain_find a im) (\<lambda>x.
       map_option (\<lambda>(i, j). (ip_begin x + i, ip_begin x + j)) (npr (ip_type x) (ip_bytes im x)))"

text \<open>\<open>if (next()) impl().truncateInterpreters(nextP())\<close>, which is \<open>reparse\<close>.\<close>

definition reparse :: "addr \<Rightarrow> 't packet_impl \<Rightarrow> 't packet_impl option" where
  "reparse a im =
     (case impl_next a im of
        None \<Rightarrow> Some im
      | Some n \<Rightarrow> map_option snd (truncateInterpreters (ip_addr n) im))"

text \<open>\<open>Factory::parseNext\<close> and \<open>parseNextAs\<close>: interpret the payload as a packet of type \<open>t\<close>.\<close>

definition parseNext ::
  "('t \<Rightarrow> byte list \<Rightarrow> (nat \<times> nat) option) \<Rightarrow> 't \<Rightarrow> addr \<Rightarrow> 't packet_impl \<Rightarrow>
   't packet_impl \<times> (pkt_error + addr)" where
  "parseNext npr t a im =
     (case nextPacketRange npr a im of
        None \<Rightarrow> (im, Inl InvalidPacketChain)
      | Some (b, e) \<Rightarrow>
          (case Option.bind (reparse a im) (interp_create_ptr Append t b e) of
             None \<Rightarrow> (im, Inl AssertFailed)
           | Some (rv, im1) \<Rightarrow> (im1, Inr rv)))"

fun append_clones :: "'t interp list \<Rightarrow> nat \<Rightarrow> nat \<Rightarrow> 't packet_impl \<Rightarrow> 't packet_impl option" where
  "append_clones [] base new_base im = Some im"
| "append_clones (x # xs) base new_base im =
     Option.bind
       (interp_create Append (ip_type x) (new_base + (ip_begin x - base))
          (new_base + (ip_end x - base)) im)
       (\<lambda>(_, im1). append_clones xs base new_base im1)"

definition write_bytes :: "nat \<Rightarrow> byte list \<Rightarrow> 't packet_impl \<Rightarrow> 't packet_impl" where
  "write_bytes i ys im =
     im\<lparr>im_data := (im_data im)\<lparr>pv_data := write_at (pv_b (im_data im) + i) ys (pv_data (im_data im))\<rparr>\<rparr>"

text \<open>
  \<open>PacketInterpreterBase::append\<close>: the packet \<open>p\<close> of the chain \<open>sim\<close>, with all packets
  inside it, becomes the payload of the packet \<open>a\<close>.
\<close>

definition append_tail ::
  "(nat \<Rightarrow> byte) \<Rightarrow> 't packet_impl \<Rightarrow> 't interp \<Rightarrow> nat \<Rightarrow> nat \<Rightarrow> 't packet_impl \<Rightarrow>
   (addr \<times> 't packet_impl) option" where
  "append_tail u sim q b e im1 =
     Option.bind (interp_create_ptr Append (ip_type q) b e im1) (\<lambda>(rv, im2).
     Option.bind (pd_resize u rv (ip_end q - ip_begin q) 0 im2) (\<lambda>im3.
     Option.bind (chain_find rv im3) (\<lambda>r.
     map_option (Pair rv)
       (append_clones (inner (ip_addr q) (im_chain sim)) (ip_begin q) (ip_begin r)
          (write_bytes (ip_begin r) (ip_bytes sim q) im3)))))"

definition packet_append ::
  "(nat \<Rightarrow> byte) \<Rightarrow> ('t \<Rightarrow> byte list \<Rightarrow> (nat \<times> nat) option) \<Rightarrow> addr \<Rightarrow> 't packet_impl \<Rightarrow> addr \<Rightarrow>
   't packet_impl \<Rightarrow> 't packet_impl \<times> (pkt_error + addr)" where
  "packet_append u npr a sim p im =
     (case reparse a im of
        None \<Rightarrow> (im, Inl AssertFailed)
      | Some im1 \<Rightarrow>
          (case nextPacketRange npr a im1 of
             None \<Rightarrow> (im1, Inl InvalidPacketChain)
           | Some (b, e) \<Rightarrow>
               (case Option.bind (chain_find p sim) (\<lambda>q. append_tail u sim q b e im1) of
                  None \<Rightarrow> (im1, Inl AssertFailed)
                | Some (rv, im2) \<Rightarrow> (im2, Inr rv))))"

text \<open>\<open>PacketInterpreterBase::clone\<close>: a packet of its own, with the bytes of \<open>a\<close>.\<close>

definition packet_clone ::
  "(nat \<Rightarrow> byte) \<Rightarrow> addr \<Rightarrow> 't packet_impl \<Rightarrow> (addr \<times> 't packet_impl) option" where
  "packet_clone u a im =
     Option.bind (chain_find a im) (\<lambda>x.
     Option.bind
       (interp_create_ptr Append (ip_type x) 0 (ip_end x - ip_begin x)
          (impl_add_ref (impl_new (pv_new_range u (ip_bytes im x))))) (\<lambda>(pi, n1).
     Option.bind (append_clones (inner a (im_chain im)) (ip_begin x) 0 n1) (\<lambda>n2.
     map_option (Pair pi \<circ> snd) (impl_release (assignAnnotations im n2)))))"

text \<open>\<open>createAfter\<close> without initialisation: a new payload of the given size.\<close>

definition packet_createAfter ::
  "(nat \<Rightarrow> byte) \<Rightarrow> ('t \<Rightarrow> byte list \<Rightarrow> (nat \<times> nat) option) \<Rightarrow> 't \<Rightarrow> addr \<Rightarrow> nat \<Rightarrow> 't packet_impl \<Rightarrow>
   't packet_impl \<times> (pkt_error + addr)" where
  "packet_createAfter u npr t a sz im =
     (case nextPacketRange npr a im of
        None \<Rightarrow> (im, Inl InvalidPacketChain)
      | Some (b, e) \<Rightarrow>
          (case Option.bind (reparse a im) (\<lambda>im1.
                 Option.bind (interp_create_ptr Append t b e im1) (\<lambda>(rv, im2).
                 map_option (Pair rv) (pd_resize u rv sz 0 im2))) of
             None \<Rightarrow> (im, Inl AssertFailed)
           | Some (rv, im3) \<Rightarrow> (im3, Inr rv)))"

text \<open>
  \<open>createBefore\<close> without initialisation: a new outermost packet around the packet \<open>a\<close>,
  with \<open>space\<close> bytes in front of it and \<open>tailSpace\<close> bytes behind it.
\<close>

definition packet_createBefore ::
  "(nat \<Rightarrow> byte) \<Rightarrow> 't \<Rightarrow> addr \<Rightarrow> nat \<Rightarrow> nat \<Rightarrow> 't packet_impl \<Rightarrow> (addr \<times> 't packet_impl) option" where
  "packet_createBefore u t a space tailSpace im =
     Option.bind
       (case impl_prev a im of
          None \<Rightarrow> Some im
        | Some q \<Rightarrow> map_option snd (truncateInterpretersBackwards (ip_addr q) im)) (\<lambda>im1.
     Option.bind (chain_find a im1) (\<lambda>x.
     Option.bind (interp_create_ptr Prepend t 0 (ip_end x) im1) (\<lambda>(pi, im2).
     Option.bind
       (if ip_begin x > space then truncateDataBackwards pi (ip_begin x - space) im2
        else if ip_begin x < space then impl_insert_n u pi 0 (space - ip_begin x) 0 im2
        else Some im2) (\<lambda>im3.
     Option.bind (chain_find pi im3) (\<lambda>y.
     Option.bind (truncateRawDataForward (ip_end y) im3) (\<lambda>im4.
     map_option (Pair pi) (impl_insert_n u pi (ip_end y) tailSpace 0 im4)))))))"

text \<open>\<open>createInsertBefore\<close> without initialisation: a packet with the range of \<open>a\<close>, around it.\<close>

definition packet_createInsertBefore ::
  "'t \<Rightarrow> addr \<Rightarrow> 't packet_impl \<Rightarrow> (addr \<times> 't packet_impl) option" where
  "packet_createInsertBefore t a im =
     Option.bind (chain_find a im) (\<lambda>x. interp_create_ptr (Before a) t (ip_begin x) (ip_end x) im)"

text \<open>\<open>replaceAs\<close>: one packet of type \<open>t\<close> takes the place of the whole chain.\<close>

definition packet_replaceAs ::
  "'t \<Rightarrow> addr \<Rightarrow> int \<Rightarrow> int \<Rightarrow> 't packet_impl \<Rightarrow> (addr \<times> 't packet_impl) option" where
  "packet_replaceAs t a offset tailOffset im =
     Option.bind (chain_find a im) (\<lambda>x.
       let b = nat (int (ip_begin x) + offset);
           sz = nat (int (ip_end x) - int (ip_begin x) - offset + tailOffset)
       in Option.bind (truncateRawDataBackwards b (clearInterpreters (impl_add_ref im))) (\<lambda>im1.
          Option.bind (interp_create_ptr Append t 0 sz im1) (\<lambda>(rv, im2).
          map_option (Pair rv \<circ> snd) (impl_release im2))))"

text \<open>\<open>finalizeTo\<close>: the packets from \<open>other\<close> outwards up to \<open>a\<close> are finalised, innermost first.\<close>

fun finalize_order :: "addr \<Rightarrow> 't interp list \<Rightarrow> addr list" where
  "finalize_order a [] = [a]"
| "finalize_order a (x # xs) = (if ip_addr x = a then [a] else ip_addr x # finalize_order a xs)"

definition finalizeTo :: "addr \<Rightarrow> addr \<Rightarrow> 't packet_impl \<Rightarrow> addr list" where
  "finalizeTo a other im = finalize_order a (rev (outer other (im_chain im)))"

section \<open>The invariant of a packet\<close>

text \<open>
  Besides the nesting of the chain: no two interpreters share their storage, the
  storage in use is exactly the storage of the interpreters, and the packet counts
  the interpreters that handles refer to, and the guards \<open>g\<close> of running members.
\<close>

definition store_ok :: "'t packet_impl \<Rightarrow> bool" where
  "store_ok im \<longleftrightarrow> distinct (map ip_addr (interps im)) \<and>
     alloc_inv (im_prealloc im) (ip_addr ` set (interps im))"

definition held :: "'t interp list \<Rightarrow> nat" where
  "held xs = length (filter (\<lambda>x. ip_refs x > 0) xs)"

definition packet_inv :: "nat \<Rightarrow> 't packet_impl \<Rightarrow> bool" where
  "packet_inv g im \<longleftrightarrow> chain_ok im \<and> store_ok im \<and> im_refcount im = held (interps im) + g"

lemma held_simps [simp]:
  "held [] = 0" "held (x # xs) = (if ip_refs x > 0 then 1 else 0) + held xs"
  "held (xs @ ys) = held xs + held ys" "held (rev xs) = held xs"
  by (auto simp: held_def rev_filter [symmetric])

lemma store_ok_cong:
  assumes "map ip_addr (interps im') = map ip_addr (interps im)" "im_prealloc im' = im_prealloc im"
  shows "store_ok im' = store_ok im"
  unfolding store_ok_def list.set_map [symmetric] assms ..

lemma held_filter [simp]: "held (filter (\<lambda>x. 0 < ip_refs x) xs) = held xs"
  by (simp add: held_def)

lemma filter_addr:
  "ip_addr x \<notin> ip_addr ` set xs \<Longrightarrow> filter (\<lambda>y. ip_addr y \<noteq> ip_addr x) xs = xs"
  by (auto simp: filter_id_conv image_iff)

subsection \<open>Taking interpreters out\<close>

lemma releaseImpl_store:
  assumes "distinct (map ip_addr (x # interps im))"
    and "alloc_inv (im_prealloc im) (ip_addr ` set (x # interps im))"
  shows "\<exists>im'. releaseImpl x im = Some im' \<and> store_ok im' \<and> im_chain im' = im_chain im \<and>
    im_data im' = im_data im \<and> im_refcount im' = im_refcount im \<and>
    im_loose im' = (if ip_refs x > 0 then [x] else []) @ im_loose im"
proof (cases "ip_refs x = 0")
  case True
  from deallocate_inv [OF assms(2), of "ip_addr x"] obtain p where
    p: "deallocateInterpreter (ip_addr x) (im_prealloc im) = Some p"
      "alloc_inv p (ip_addr ` set (x # interps im) - {ip_addr x})" by auto
  have "ip_addr ` set (x # interps im) - {ip_addr x} = ip_addr ` set (interps im)"
    using assms(1) by auto
  with True p assms(1) show ?thesis
    by (simp add: releaseImpl_def store_ok_def interps_def)
next
  case False
  with assms show ?thesis
    by (auto simp: releaseImpl_def store_ok_def interps_def image_iff insert_commute)
qed

lemma eraseInterpreters_store:
  assumes "store_ok im" "im_chain im = pre @ xs @ post"
  shows "\<exists>im'. eraseInterpreters xs im = Some im' \<and> store_ok im' \<and> im_chain im' = pre @ post \<and>
    im_data im' = im_data im \<and> im_refcount im' = im_refcount im \<and>
    held (im_loose im') = held xs + held (im_loose im)"
  using assms
proof (induction xs arbitrary: im)
  case Nil
  then show ?case by simp
next
  case (Cons x xs)
  define im1 where "im1 = im\<lparr>im_chain := filter (\<lambda>y. ip_addr y \<noteq> ip_addr x) (im_chain im)\<rparr>"
  from Cons.prems have d: "distinct (map ip_addr (pre @ x # xs @ post @ im_loose im))"
    by (simp add: store_ok_def interps_def)
  then have c1: "im_chain im1 = pre @ xs @ post"
    by (auto simp: im1_def Cons.prems filter_addr)
  have l1: "interps im1 = pre @ xs @ post @ im_loose im"
    using c1 by (simp add: interps_def im1_def)
  have "distinct (map ip_addr (x # interps im1))" using d l1 by auto
  moreover have "ip_addr ` set (x # interps im1) = ip_addr ` set (interps im)"
    by (auto simp: l1) (auto simp: interps_def Cons.prems)
  then have "alloc_inv (im_prealloc im1) (ip_addr ` set (x # interps im1))"
    using Cons.prems by (simp add: store_ok_def im1_def)
  ultimately obtain im2 where im2: "releaseImpl x im1 = Some im2" "store_ok im2"
    "im_chain im2 = im_chain im1" "im_data im2 = im_data im1" "im_refcount im2 = im_refcount im1"
    "im_loose im2 = (if ip_refs x > 0 then [x] else []) @ im_loose im1"
    using releaseImpl_store by blast
  from Cons.IH [OF im2(2)] im2(3) c1 obtain im3 where
    "eraseInterpreters xs im2 = Some im3" "store_ok im3" "im_chain im3 = pre @ post"
    "im_data im3 = im_data im2" "im_refcount im3 = im_refcount im2"
    "held (im_loose im3) = held xs + held (im_loose im2)"
    by auto
  with im2 show ?case by (auto simp: im1_def)
qed

lemma chain_next_tl: "chain_next a c = Some n \<Longrightarrow> n \<in> set (tl c)"
proof (induction c)
  case (Cons x c)
  then show ?case by (cases c) (auto split: if_splits)
qed simp

lemma outer_dropWhile_next:
  assumes "chain_next a c = Some n" "distinct (map ip_addr c)"
  shows "dropWhile (\<lambda>y. ip_addr y \<noteq> ip_addr n) c = inner a c"
  using assms
proof (induction c)
  case Nil
  then show ?case by simp
next
  case (Cons x c)
  have "n \<in> set c" using chain_next_tl [OF Cons.prems(1)] by simp
  with Cons.prems(2) have neq: "ip_addr x \<noteq> ip_addr n" by auto
  show ?case
  proof (cases "ip_addr x = a")
    case True
    with Cons.prems(1) neq show ?thesis by (cases c) auto
  next
    case False
    with Cons.prems have "chain_next a c = Some n" "distinct (map ip_addr c)" by auto
    from Cons.IH [OF this] False neq show ?thesis by simp
  qed
qed

lemma chain_next_None: "chain_next a c = None \<Longrightarrow> distinct (map ip_addr c) \<Longrightarrow> outer a c = c"
  by (induction c) (auto split: if_splits list.splits)

lemma nested_append_left: "nested lo hi (xs @ ys) \<Longrightarrow> nested lo hi xs"
  by (induction xs arbitrary: lo hi) auto

lemma reparse_spec:
  assumes "packet_inv g im" "0 < im_refcount im"
  shows "\<exists>im1. reparse a im = Some im1 \<and> packet_inv g im1 \<and> im_data im1 = im_data im \<and>
    im_chain im1 = outer a (im_chain im) \<and> im_refcount im1 = im_refcount im"
proof (cases "impl_next a im")
  case None
  with assms chain_next_None [of a "im_chain im"] show ?thesis
    by (auto simp: reparse_def impl_next_def packet_inv_def chain_ok_def)
next
  case (Some n)
  from assms have st: "store_ok (impl_add_ref im)" and d: "distinct (map ip_addr (im_chain im))"
    by (auto simp: packet_inv_def store_ok_def interps_def impl_add_ref_def)
  have c: "im_chain (impl_add_ref im) = outer a (im_chain im) @ inner a (im_chain im) @ []"
    by (simp add: outer_inner impl_add_ref_def)
  from eraseInterpreters_store [OF st c] obtain im1 where
    im1: "eraseInterpreters (inner a (im_chain im)) (impl_add_ref im) = Some im1" "store_ok im1"
      "im_chain im1 = outer a (im_chain im)" "im_data im1 = im_data im"
      "im_refcount im1 = im_refcount im + 1"
      "held (im_loose im1) = held (inner a (im_chain im)) + held (im_loose im)"
    by (auto simp: impl_add_ref_def)
  have "held (im_chain im) = held (outer a (im_chain im)) + held (inner a (im_chain im))"
    by (metis held_simps(3) outer_inner)
  moreover have "nested 0 (impl_size im) (outer a (im_chain im))"
    using assms nested_append_left [of _ _ _ "inner a (im_chain im)"]
    by (simp add: packet_inv_def chain_ok_def outer_inner)
  moreover have "reparse a im = Some (im1\<lparr>im_refcount := im_refcount im\<rparr>)"
    using Some im1 assms outer_dropWhile_next [OF Some [unfolded impl_next_def] d]
    by (simp add: reparse_def truncateInterpreters_def impl_release_def)
  ultimately show ?thesis
    using im1 assms
    by (auto simp: packet_inv_def chain_ok_def store_ok_def interps_def impl_size_def)
qed

subsection \<open>Adding interpreters\<close>

lemma fresh_heap_unused: "Heap (fresh_heap im) \<notin> ip_addr ` set (interps im)"
proof
  assume "Heap (fresh_heap im) \<in> ip_addr ` set (interps im)"
  then obtain x where x: "x \<in> set (interps im)" "ip_addr x = Heap (fresh_heap im)" by auto
  then have "(heap_no \<circ> ip_addr) x \<le> sum_list (map (heap_no \<circ> ip_addr) (interps im))"
    by (intro member_le_sum_list) (auto intro!: rev_image_eqI)
  with x show False by (simp add: fresh_heap_def)
qed

lemma interp_create_append:
  assumes "store_ok im"
  shows "\<exists>a im'. interp_create Append t b e im = Some (a, im') \<and> store_ok im' \<and>
    a \<notin> ip_addr ` set (interps im) \<and> im_data im' = im_data im \<and> im_refcount im' = im_refcount im \<and>
    im_loose im' = im_loose im \<and>
    im_chain im' = im_chain im @ [\<lparr>ip_addr = a, ip_type = t, ip_begin = b, ip_end = e, ip_refs = 0\<rparr>]"
proof -
  from assms have "alloc_inv (im_prealloc im) (ip_addr ` set (interps im))"
    and d: "distinct (map ip_addr (interps im))"
    by (auto simp: store_ok_def)
  from allocate_fresh [OF this(1) fresh_heap_unused] obtain a p where
    a: "allocateInterpreter (fresh_heap im) (im_prealloc im) = Some (a, p)"
      "a \<notin> ip_addr ` set (interps im)" "alloc_inv p (insert a (ip_addr ` set (interps im)))"
    by blast
  moreover have "insert a (ip_addr ` set (interps im)) =
      insert a (ip_addr ` (set (im_chain im) \<union> set (im_loose im)))"
    by (simp add: interps_def)
  ultimately show ?thesis
    using d
    by (auto simp: interp_create_def appendInterpreter_def assignImpl_def store_ok_def interps_def
        image_Un Let_def)
qed

lemma map_set_refs_other: "a \<notin> ip_addr ` set xs \<Longrightarrow> map (set_refs a n) xs = xs"
  by (induction xs) (auto simp: set_refs_def)

lemma find_addr_last:
  "a \<notin> ip_addr ` set xs \<Longrightarrow> ip_addr x = a \<Longrightarrow> find (\<lambda>y. ip_addr y = a) (xs @ x # ys) = Some x"
  by (induction xs) auto

text \<open>A new innermost packet, with the handle that is returned.\<close>

lemma interp_create_ptr_append:
  assumes "store_ok im"
  shows "\<exists>a im'. interp_create_ptr Append t b e im = Some (a, im') \<and> store_ok im' \<and>
    a \<notin> ip_addr ` set (interps im) \<and> im_data im' = im_data im \<and>
    im_refcount im' = im_refcount im + 1 \<and> im_loose im' = im_loose im \<and>
    im_chain im' = im_chain im @ [\<lparr>ip_addr = a, ip_type = t, ip_begin = b, ip_end = e, ip_refs = 1\<rparr>]"
proof -
  from interp_create_append [OF assms, of t b e] obtain a im1 where
    c: "interp_create Append t b e im = Some (a, im1)" "store_ok im1"
      "a \<notin> ip_addr ` set (interps im)" "im_data im1 = im_data im" "im_refcount im1 = im_refcount im"
      "im_loose im1 = im_loose im"
      "im_chain im1 = im_chain im @ [\<lparr>ip_addr = a, ip_type = t, ip_begin = b, ip_end = e, ip_refs = 0\<rparr>]"
    by blast
  then have n: "a \<notin> ip_addr ` set (im_chain im)" "a \<notin> ip_addr ` set (im_loose im)"
    by (auto simp: interps_def)
  then have f: "find (\<lambda>y. ip_addr y = a) (interps im1) =
      Some \<lparr>ip_addr = a, ip_type = t, ip_begin = b, ip_end = e, ip_refs = 0\<rparr>"
    using c by (simp add: interps_def find_addr_last)
  define im2 where "im2 = impl_set_refs a 1 (impl_add_ref im1)"
  have c2: "im_chain im2 =
      im_chain im @ [\<lparr>ip_addr = a, ip_type = t, ip_begin = b, ip_end = e, ip_refs = 1\<rparr>]"
    "im_loose im2 = im_loose im"
    using c n by (auto simp: im2_def impl_set_refs_def impl_add_ref_def map_set_refs_other set_refs_def)
  have "map ip_addr (interps im2) = map ip_addr (interps im1)"
    using c2 c by (simp add: interps_def)
  moreover have "im_prealloc im2 = im_prealloc im1"
    by (simp add: im2_def impl_set_refs_def impl_add_ref_def)
  ultimately have "store_ok im2" using c(2) store_ok_cong by blast
  with c c2 f show ?thesis
    by (auto simp: interp_create_ptr_def interp_add_ref_def im2_def impl_set_refs_def impl_add_ref_def)
qed

subsection \<open>The bytes of the innermost packet\<close>

lemma updateIterators_last:
  "ip_addr r \<notin> ip_addr ` set c \<Longrightarrow>
   updateIterators (ip_addr r) pos n (c @ [r]) = Some (map (grow_ip n) c @ [grow_ip n r])"
  by (induction c) auto

lemma chain_find_last:
  "im_chain im = c @ [r] \<Longrightarrow> ip_addr r \<notin> ip_addr ` set c \<Longrightarrow> chain_find (ip_addr r) im = Some r"
  by (simp add: chain_find_def find_addr_last)

lemma grow_ip_0 [simp]: "grow_ip 0 x = x"
  by (simp add: grow_ip_def move_ix_def)

lemma map_grow_ip_0 [simp]: "map (grow_ip 0) c = c"
  by (simp add: map_idI)

lemma im_chain_same: "im_chain im = c \<Longrightarrow> im\<lparr>im_chain := c\<rparr> = im"
  by (cases im) auto

text \<open>
  \<open>resize\<close> on the innermost packet \<open>r\<close>, followed by writing its bytes: the range of
  \<open>r\<close> is replaced by \<open>ys\<close>, and every packet around it grows by the difference.
\<close>

lemma resize_write_last:
  assumes ok: "pv_ok (im_data im)" and c: "im_chain im = c @ [r]" "ip_addr r \<notin> ip_addr ` set c"
    and r: "ip_begin r \<le> ip_end r" "ip_end r \<le> pv_length (im_data im)"
    and n: "n = int (length ys) - (int (ip_end r) - int (ip_begin r))"
  shows "\<exists>im1 im2. pd_resize u (ip_addr r) (length ys) v im = Some im1 \<and>
    im2 = write_bytes (ip_begin r) ys im1 \<and> pv_ok (im_data im2) \<and>
    pv_contents (im_data im2) =
      replace_list (ip_begin r) (ip_end r) ys (pv_contents (im_data im)) \<and>
    im1 = im\<lparr>im_data := im_data im1, im_chain := map (grow_ip n) c @ [grow_ip n r]\<rparr>"
proof -
  let ?bs = "pv_contents (im_data im)" and ?b = "ip_begin r" and ?e = "ip_end r"
  have len: "length ?bs = pv_length (im_data im)" using ok by simp
  note f = chain_find_last [OF c]
  have upd: "updateIterators (ip_addr r) pos n (im_chain im) =
      Some (map (grow_ip n) c @ [grow_ip n r])" for pos
    using updateIterators_last [OF c(2)] c(1) by simp
  have "\<exists>d. pd_resize u (ip_addr r) (length ys) v im =
      Some (im\<lparr>im_data := d, im_chain := map (grow_ip n) c @ [grow_ip n r]\<rparr>) \<and> pv_ok d \<and>
      ?b + length ys \<le> length (pv_contents d) \<and>
      write_at ?b ys (pv_contents d) = replace_list ?b ?e ys ?bs"
  proof (cases "length ys" "?e - ?b" rule: linorder_cases)
    case less
    then have i: "?b + length ys \<le> ?e" using r by simp
    from pvc.erase_at [OF ok i] r len obtain d where
      d: "pv_erase (pv_b (im_data im) + (?b + length ys)) (pv_b (im_data im) + ?e) (im_data im) = Some d"
        "pv_ok d" "pv_contents d = cut_list (?b + length ys) ?e ?bs"
      by (auto simp: pv_erase_at_def)
    have "- (int ?e - int (?b + length ys)) = n" using n by simp
    with less d i r len f upd [of "int (?b + length ys)"] show ?thesis
      by (auto simp: pd_resize_def impl_erase_def impl_update_def write_cut_replace)
  next
    case equal
    then have "n = 0" using n r by simp
    with equal ok r len f c show ?thesis
      by (intro exI [of _ "im_data im"]) (auto simp: pd_resize_def write_at_replace im_chain_same)
  next
    case greater
    let ?k = "length ys - (?e - ?b)"
    have "pv_b (im_data im) + ?e \<le> pv_e (im_data im)"
      using r pv_okD(1) [OF ok] by (simp add: pv_length_def)
    from pv_insert_n_spec [OF ok _ this, of u ?k v] obtain d where
      d: "pv_insert_n u (pv_b (im_data im) + ?e) ?k v (im_data im) = Some d" "pv_ok d"
        "pv_contents d = insert_list ?e (replicate ?k v) ?bs"
      by auto
    have "int ?k = n" using n greater r by simp
    with greater d r len f upd [of "int ?e"] show ?thesis
      by (auto simp: pd_resize_def impl_insert_n_def impl_update_def write_insert_replace)
  qed
  then obtain d where d: "pd_resize u (ip_addr r) (length ys) v im =
      Some (im\<lparr>im_data := d, im_chain := map (grow_ip n) c @ [grow_ip n r]\<rparr>)" "pv_ok d"
    "?b + length ys \<le> length (pv_contents d)"
    "write_at ?b ys (pv_contents d) = replace_list ?b ?e ys ?bs" by blast
  from pv_write_contents [OF d(2,3)] d show ?thesis
    by (auto simp: write_bytes_def)
qed

subsection \<open>Copies of chains\<close>

lemma append_clones_spec:
  assumes "store_ok im"
  shows "\<exists>ys im'. append_clones xs base nb im = Some im' \<and> store_ok im' \<and>
    im_chain im' = im_chain im @ ys \<and> im_data im' = im_data im \<and> im_loose im' = im_loose im \<and>
    im_refcount im' = im_refcount im \<and>
    list_all2 (\<lambda>x y. ip_type y = ip_type x \<and> ip_begin y = nb + (ip_begin x - base) \<and>
      ip_end y = nb + (ip_end x - base) \<and> ip_refs y = 0) xs ys"
  using assms
proof (induction xs arbitrary: im)
  case Nil
  then show ?case by simp
next
  case (Cons x xs)
  from interp_create_append [OF Cons.prems] obtain a im1 where
    c: "interp_create Append (ip_type x) (nb + (ip_begin x - base)) (nb + (ip_end x - base)) im =
        Some (a, im1)" "store_ok im1" "im_data im1 = im_data im" "im_refcount im1 = im_refcount im"
      "im_loose im1 = im_loose im"
      "im_chain im1 = im_chain im @ [\<lparr>ip_addr = a, ip_type = ip_type x,
         ip_begin = nb + (ip_begin x - base), ip_end = nb + (ip_end x - base), ip_refs = 0\<rparr>]"
    by blast
  from Cons.IH [OF c(2)] c show ?case by fastforce
qed

text \<open>A chain moved from one place to another stays nested, and keeps its bytes.\<close>

lemma nested_clones:
  assumes "list_all2 (\<lambda>x y. ip_type y = ip_type x \<and> ip_begin y = nb + (ip_begin x - base) \<and>
      ip_end y = nb + (ip_end x - base) \<and> ip_refs y = 0) xs ys"
    and "nested lo hi xs" "base \<le> lo"
  shows "nested (nb + (lo - base)) (nb + (hi - base)) ys"
  using assms
  by (induction arbitrary: lo hi rule: list_all2_induct) (auto, fastforce)

lemma nested_snoc:
  assumes "nested lo hi xs" "nested (ip_begin (last xs)) (ip_end (last xs)) ys" "xs \<noteq> []"
  shows "nested lo hi (xs @ ys)"
  using assms
proof (induction xs arbitrary: lo hi)
  case (Cons x xs)
  then show ?case by (cases "xs = []") auto
qed simp

lemma nested_last_within:
  "nested lo hi xs \<Longrightarrow> xs \<noteq> [] \<Longrightarrow> lo \<le> ip_begin (last xs) \<and> ip_begin (last xs) \<le> ip_end (last xs) \<and>
   ip_end (last xs) \<le> hi"
  by (meson last_in_set nested_within)

lemma nested_map_grow:
  assumes n: "n = int k - (int t - int f)" "f \<le> t"
    and c: "nested lo hi c" "c \<noteq> [] \<Longrightarrow> ip_begin (last c) \<le> f \<and> t \<le> ip_end (last c)"
  shows "c \<noteq> [] \<longrightarrow> nested lo (hi - (t - f) + k) (map (grow_ip n) c)"
  using c
proof (induction c arbitrary: lo hi)
  case Nil
  then show ?case by simp
next
  case (Cons x c)
  from nested_last_within [OF Cons.prems(1)] Cons.prems
  have t: "t \<le> hi" "t \<le> ip_end x" "ip_begin x \<le> f"
    using nested_last_within [of "ip_begin x" "ip_end x" c] by (fastforce split: if_splits)+
  have m: "ip_end (grow_ip n x) = ip_end x - (t - f) + k" "ip_begin (grow_ip n x) = ip_begin x"
    using move_ix_edit [OF n t(2)] by (simp_all add: grow_ip_def)
  show ?case
  proof (cases "c = []")
    case True
    with Cons.prems m t n show ?thesis by auto
  next
    case False
    with Cons.IH [of "ip_begin x" "ip_end x"] Cons.prems m t n show ?thesis by auto
  qed
qed

lemma nested_inner:
  "nested lo hi c \<Longrightarrow> find (\<lambda>y. ip_addr y = a) c = Some q \<Longrightarrow>
   nested (ip_begin q) (ip_end q) (inner a c)"
  by (induction c arbitrary: lo hi) (auto split: if_splits)

lemma chain_find_within:
  assumes "chain_ok im" "chain_find a im = Some q"
  shows "q \<in> set (im_chain im)" "ip_addr q = a" "ip_begin q \<le> ip_end q"
    "ip_end q \<le> length (pv_contents (im_data im))" "length (ip_bytes im q) = ip_end q - ip_begin q"
    "nested (ip_begin q) (ip_end q) (inner a (im_chain im))"
proof -
  from assms(2) show q: "q \<in> set (im_chain im)" "ip_addr q = a"
    by (auto simp: chain_find_def find_Some_iff)
  with assms(1) show w: "ip_begin q \<le> ip_end q" "ip_end q \<le> length (pv_contents (im_data im))"
    using nested_within [OF _ q(1)] by (fastforce simp: chain_ok_def impl_size_def)+
  then show "length (ip_bytes im q) = ip_end q - ip_begin q"
    by (simp add: ip_bytes_def)
  show "nested (ip_begin q) (ip_end q) (inner a (im_chain im))"
    using assms nested_inner by (fastforce simp: chain_ok_def chain_find_def)
qed

lemma clones_bytes:
  fixes sim im :: "'t packet_impl"
  assumes sim: "chain_ok sim" "chain_find p sim = Some q"
    and ys: "list_all2 (\<lambda>x y. ip_type y = ip_type x \<and> ip_begin y = B + (ip_begin x - ip_begin q) \<and>
        ip_end y = B + (ip_end x - ip_begin q) \<and> ip_refs y = 0) (inner p (im_chain sim)) ys"
    and im: "B \<le> length bs" "pv_contents (im_data im) = replace_list B E (ip_bytes sim q) bs"
  shows "list_all2 (\<lambda>x y. ip_type y = ip_type x \<and> ip_bytes im y = ip_bytes sim x)
    (inner p (im_chain sim)) ys"
proof (rule list.rel_mono_strong [OF ys])
  fix x y :: "'t interp" assume xy: "x \<in> set (inner p (im_chain sim))"
    "ip_type y = ip_type x \<and> ip_begin y = B + (ip_begin x - ip_begin q) \<and>
      ip_end y = B + (ip_end x - ip_begin q) \<and> ip_refs y = 0"
  note q = chain_find_within [OF sim]
  from nested_within [OF q(6) xy(1)]
  have x: "ip_begin q \<le> ip_begin x" "ip_begin x \<le> ip_end x" "ip_end x \<le> ip_end q" by auto
  then have "ip_bytes im y = subrange (ip_begin x - ip_begin q) (ip_end x - ip_begin q) (ip_bytes sim q)"
    using subrange_replace_new [OF im(1), of "ip_begin x - ip_begin q" "ip_end x - ip_begin q"
        "ip_bytes sim q" E] xy(2) q(5)
    by (simp add: ip_bytes_def [of im] im(2))
  also have "\<dots> = ip_bytes sim x"
    unfolding ip_bytes_def using x by (rule subrange_subrange)
  finally show "ip_type y = ip_type x \<and> ip_bytes im y = ip_bytes sim x" using xy by simp
qed

text \<open>What appending makes of the chain that ends with the packet \<open>x\<close>.\<close>

lemma append_tail_spec:
  assumes inv: "chain_ok im" "store_ok im" and c: "im_chain im \<noteq> []" "x = last (im_chain im)"
    and r: "ip_begin x \<le> B" "B \<le> E" "E \<le> ip_end x"
    and sim: "chain_ok sim" "chain_find p sim = Some q"
    and n: "n = int (length (ip_bytes sim q)) - (int E - int B)"
  shows "\<exists>rv im2 new ys. append_tail u sim q B E im = Some (rv, im2) \<and> store_ok im2 \<and>
    pv_ok (im_data im2) \<and>
    pv_contents (im_data im2) = replace_list B E (ip_bytes sim q) (pv_contents (im_data im)) \<and>
    im_chain im2 = map (grow_ip n) (im_chain im) @ new # ys \<and> ip_addr new = rv \<and>
    ip_type new = ip_type q \<and> ip_begin new = B \<and> ip_end new = B + length (ip_bytes sim q) \<and>
    ip_refs new = 1 \<and> im_loose im2 = im_loose im \<and> im_refcount im2 = im_refcount im + 1 \<and>
    list_all2 (\<lambda>x y. ip_type y = ip_type x \<and> ip_begin y = B + (ip_begin x - ip_begin q) \<and>
      ip_end y = B + (ip_end x - ip_begin q) \<and> ip_refs y = 0) (inner p (im_chain sim)) ys"
proof -
  let ?ys = "ip_bytes sim q"
  note q = chain_find_within [OF sim]
  from inv c have x: "ip_end x \<le> pv_length (im_data im)" and ok: "pv_ok (im_data im)"
    using nested_last_within by (auto simp: chain_ok_def impl_size_def)
  from interp_create_ptr_append [OF inv(2), of "ip_type q" B E] obtain rv im1 where
    c1: "interp_create_ptr Append (ip_type q) B E im = Some (rv, im1)" "store_ok im1"
      "rv \<notin> ip_addr ` set (interps im)" "im_data im1 = im_data im"
      "im_refcount im1 = im_refcount im + 1" "im_loose im1 = im_loose im"
      "im_chain im1 = im_chain im @
         [\<lparr>ip_addr = rv, ip_type = ip_type q, ip_begin = B, ip_end = E, ip_refs = 1\<rparr>]"
    by blast
  define r0 where "r0 = \<lparr>ip_addr = rv, ip_type = ip_type q, ip_begin = B, ip_end = E, ip_refs = 1\<rparr>"
  have fresh: "ip_addr r0 \<notin> ip_addr ` set (im_chain im)"
    using c1(3) by (auto simp: r0_def interps_def)
  have "\<exists>im2 im3. pd_resize u (ip_addr r0) (length ?ys) 0 im1 = Some im2 \<and>
    im3 = write_bytes (ip_begin r0) ?ys im2 \<and> pv_ok (im_data im3) \<and>
    pv_contents (im_data im3) = replace_list (ip_begin r0) (ip_end r0) ?ys (pv_contents (im_data im1)) \<and>
    im2 = im1\<lparr>im_data := im_data im2, im_chain := map (grow_ip n) (im_chain im) @ [grow_ip n r0]\<rparr>"
    by (rule resize_write_last) (use ok c1 fresh r x n in \<open>auto simp: r0_def\<close>)
  then obtain im2 im3 where
    c2: "pd_resize u rv (length ?ys) 0 im1 = Some im2"
      "im3 = write_bytes B ?ys im2" "pv_ok (im_data im3)"
      "pv_contents (im_data im3) = replace_list B E ?ys (pv_contents (im_data im))"
      "im2 = im1\<lparr>im_data := im_data im2, im_chain := map (grow_ip n) (im_chain im) @ [grow_ip n r0]\<rparr>"
    using c1(4) by (auto simp: r0_def)
  have gr: "ip_addr (grow_ip n r0) = rv" "ip_begin (grow_ip n r0) = B" "ip_type (grow_ip n r0) = ip_type q"
    "ip_refs (grow_ip n r0) = 1" "ip_end (grow_ip n r0) = B + length ?ys"
    using move_ix_edit [OF n r(2) le_refl] r(2) by (auto simp: grow_ip_def r0_def)
  have ga: "ip_addr \<circ> grow_ip n = ip_addr" by (auto simp: grow_ip_def)
  have c2': "im_chain im2 = map (grow_ip n) (im_chain im) @ [grow_ip n r0]"
    "im_loose im2 = im_loose im1" "im_prealloc im2 = im_prealloc im1" "im_refcount im2 = im_refcount im1"
    by (subst c2(5), simp)+
  have "chain_find rv im2 = Some (grow_ip n r0)"
    using chain_find_last [OF c2'(1)] fresh gr(1) ga by (auto simp: image_iff grow_ip_def r0_def)
  moreover have "map ip_addr (interps im3) = map ip_addr (interps im1)"
    using c1(7) ga by (simp add: interps_def c2(2) write_bytes_def c2' r0_def grow_ip_def)
  from store_ok_cong [OF this] c1(2) have "store_ok im3"
    by (simp add: c2(2) write_bytes_def c2')
  from append_clones_spec [OF this, of "inner p (im_chain sim)" "ip_begin q" B] obtain zs im4 where
    c4: "append_clones (inner p (im_chain sim)) (ip_begin q) B im3 = Some im4" "store_ok im4"
      "im_chain im4 = im_chain im3 @ zs" "im_data im4 = im_data im3" "im_loose im4 = im_loose im3"
      "im_refcount im4 = im_refcount im3"
      "list_all2 (\<lambda>x y. ip_type y = ip_type x \<and> ip_begin y = B + (ip_begin x - ip_begin q) \<and>
         ip_end y = B + (ip_end x - ip_begin q) \<and> ip_refs y = 0) (inner p (im_chain sim)) zs"
    by blast
  ultimately have "append_tail u sim q B E im = Some (rv, im4)"
    using c1(1) c2(1,2) q gr by (simp add: append_tail_def)
  then show ?thesis
    using c4 c2 c2' gr c1
    by (intro exI [of _ rv] exI [of _ im4] exI [of _ "grow_ip n r0"] exI [of _ zs])
      (simp add: write_bytes_def)
qed

lemma outer_not_Nil [simp]: "outer a c = [] \<longleftrightarrow> c = []"
  by (cases c) auto

lemma outer_last: "find (\<lambda>y. ip_addr y = a) c = Some x \<Longrightarrow> last (outer a c) = x"
  by (induction c) (auto split: if_splits)

lemma find_outer: "find (\<lambda>y. ip_addr y = a) (outer a c) = find (\<lambda>y. ip_addr y = a) c"
  by (induction c) auto

lemma outer_contains:
  "nested lo hi c \<Longrightarrow> find (\<lambda>y. ip_addr y = a) c = Some x \<Longrightarrow> y \<in> set (outer a c) \<Longrightarrow>
   ip_begin y \<le> ip_begin x \<and> ip_end x \<le> ip_end y \<and> ip_end y \<le> hi"
proof (induction c arbitrary: lo hi)
  case (Cons z c)
  then show ?case
  proof (cases "ip_addr z = a")
    case False
    with Cons.prems have f: "find (\<lambda>y. ip_addr y = a) c = Some x" "nested (ip_begin z) (ip_end z) c"
      by auto
    then have "x \<in> set c" by (auto simp: find_Some_iff)
    with nested_within [OF f(2)] have "ip_begin z \<le> ip_begin x" "ip_end x \<le> ip_end z" by auto
    with Cons.IH [OF f(2,1)] Cons.prems False show ?thesis by auto
  qed auto
qed simp

lemma outer_append_new:
  assumes "find (\<lambda>y. ip_addr y = a) c = Some x" "map ip_addr c' = map ip_addr (outer a c)"
  shows "outer a (c' @ ys) = c' \<and> inner a (c' @ ys) = ys"
  using assms
proof (induction c arbitrary: c')
  case (Cons z c)
  then obtain w ws where "c' = w # ws" "ip_addr w = ip_addr z"
    "map ip_addr ws = map ip_addr (if ip_addr z = a then [] else outer a c)" by auto
  with Cons show ?case by (cases "ip_addr z = a") auto
qed simp

section \<open>Properties of the chain\<close>

text \<open>C3: Appending a packet, with all packets inside it, as the payload of another one: the
  payload's bytes are replaced by the packet's bytes in every packet around them, the new inner
  chain has the types and the bytes of the source chain, and the chain is nested again.\<close>

theorem packet_append_copies:
  assumes inv: "packet_inv g im" "0 < im_refcount im" "chain_find a im = Some x"
    and sim: "chain_ok sim" "chain_find p sim = Some q"
    and r: "npr (ip_type x) (ip_bytes im x) = Some (i, j)" "i \<le> j" "j \<le> length (ip_bytes im x)"
  shows "\<exists>im' rv. packet_append u npr a sim p im = (im', Inr rv) \<and> chain_ok im' \<and> store_ok im' \<and>
    list_all2 (\<lambda>y z. ip_addr z = ip_addr y \<and> ip_type z = ip_type y \<and>
        ip_bytes im' z = replace_list (ip_begin x + i - ip_begin y) (ip_begin x + j - ip_begin y)
          (ip_bytes sim q) (ip_bytes im y))
      (outer a (im_chain im)) (outer a (im_chain im')) \<and>
    list_all2 (\<lambda>y z. ip_type z = ip_type y \<and> ip_bytes im' z = ip_bytes sim y)
      (q # inner p (im_chain sim)) (inner a (im_chain im'))"
proof -
  define B where "B = ip_begin x + i"
  define E where "E = ip_begin x + j"
  define n where "n = int (length (ip_bytes sim q)) - (int E - int B)"
  from inv have cok: "chain_ok im" by (simp add: packet_inv_def)
  note x = chain_find_within [OF cok inv(3)]
  have BE: "ip_begin x \<le> B" "B \<le> E" "E \<le> ip_end x"
    using r x by (auto simp: B_def E_def)
  from reparse_spec [OF inv(1,2), of a] obtain im1 where
    im1: "reparse a im = Some im1" "packet_inv g im1" "im_data im1 = im_data im"
      "im_chain im1 = outer a (im_chain im)" by blast
  have f1: "chain_find a im1 = Some x"
    using inv(3) by (simp add: chain_find_def im1(4) find_outer)
  then have npr: "nextPacketRange npr a im1 = Some (B, E)"
    using r(1) by (simp add: nextPacketRange_def ip_bytes_def im1(3) B_def E_def)
  have l1: "im_chain im1 \<noteq> []" "x = last (im_chain im1)"
    using x(1) outer_last inv(3) by (auto simp: im1(4) chain_find_def)
  from im1(2) have ok1: "chain_ok im1" "store_ok im1" by (auto simp: packet_inv_def)
  from append_tail_spec [OF ok1 l1 BE sim n_def, of u] obtain rv im2 new ys where
    t: "append_tail u sim q B E im1 = Some (rv, im2)" "store_ok im2" "pv_ok (im_data im2)"
      "pv_contents (im_data im2) = replace_list B E (ip_bytes sim q) (pv_contents (im_data im1))"
      "im_chain im2 = map (grow_ip n) (im_chain im1) @ new # ys" "ip_type new = ip_type q"
      "ip_begin new = B" "ip_end new = B + length (ip_bytes sim q)"
    and ys: "list_all2 (\<lambda>x y. ip_type y = ip_type x \<and> ip_begin y = B + (ip_begin x - ip_begin q) \<and>
      ip_end y = B + (ip_end x - ip_begin q) \<and> ip_refs y = 0) (inner p (im_chain sim)) ys"
    by blast
  note contents = t(4) [unfolded im1(3)]
  note q = chain_find_within [OF sim]
  have Blen: "B \<le> length (pv_contents (im_data im))" using BE x by simp
  have nest: "nested 0 (pv_length (im_data im2)) (im_chain im2)"
  proof -
    have g: "nested 0 (impl_size im1 - (E - B) + length (ip_bytes sim q)) (map (grow_ip n) (im_chain im1))"
      using nested_map_grow [OF n_def BE(2), of 0 "impl_size im1" "im_chain im1"] ok1 l1 BE
      by (simp add: chain_ok_def)
    have "ip_end (grow_ip n x) = ip_end x - (E - B) + length (ip_bytes sim q)"
      using move_ix_edit [OF n_def BE(2,3)] by (simp add: grow_ip_def)
    moreover have "nested B (B + length (ip_bytes sim q)) ys"
      using nested_clones [OF ys q(6)] q(5) by simp
    ultimately have "nested (ip_begin (grow_ip n x)) (ip_end (grow_ip n x)) (new # ys)"
      using t(7,8) BE by (simp add: grow_ip_def)
    moreover have "pv_length (im_data im2) = impl_size im1 - (E - B) + length (ip_bytes sim q)"
      using length_pv_contents [OF t(3)] contents BE x ok1
      by (simp add: length_replace_list impl_size_def im1(3) chain_ok_def)
    ultimately show ?thesis
      using nested_snoc [OF g] l1 by (simp add: t(5) last_map)
  qed
  then have "chain_ok im2"
    using t(2,3) by (auto simp: chain_ok_def impl_size_def store_ok_def interps_def)
  moreover have out: "outer a (im_chain im2) = map (grow_ip n) (outer a (im_chain im)) \<and>
      inner a (im_chain im2) = new # ys"
    unfolding t(5) im1(4)
    by (rule outer_append_new [of _ "im_chain im" x])
      (use inv(3) in \<open>auto simp: chain_find_def grow_ip_def\<close>)
  have ob: "ip_addr (grow_ip n y) = ip_addr y \<and> ip_type (grow_ip n y) = ip_type y \<and>
      ip_bytes im2 (grow_ip n y) = replace_list (B - ip_begin y) (E - ip_begin y)
        (ip_bytes sim q) (ip_bytes im y)" if "y \<in> set (outer a (im_chain im))" for y
  proof -
    have "nested 0 (length (pv_contents (im_data im))) (im_chain im)"
      using cok by (simp add: chain_ok_def impl_size_def)
    from outer_contains [OF this inv(3) [unfolded chain_find_def] that]
    have "ip_begin y \<le> ip_begin x \<and> ip_end x \<le> ip_end y \<and> ip_end y \<le> length (pv_contents (im_data im))" .
    then show ?thesis
      using sees_edit_grow(1) [OF n_def, of y "pv_contents (im_data im)"] BE
      by (auto simp: sees_edit_def ip_bytes_def contents)
  qed
  then have "list_all2 (\<lambda>y z. ip_addr z = ip_addr y \<and> ip_type z = ip_type y \<and>
      ip_bytes im2 z = replace_list (B - ip_begin y) (E - ip_begin y) (ip_bytes sim q) (ip_bytes im y))
    (outer a (im_chain im)) (map (grow_ip n) (outer a (im_chain im)))"
    by (auto simp: list.rel_map intro!: list.rel_refl_strong)
  moreover have "ip_bytes im2 new = ip_bytes sim q"
    using subrange_replace_new [OF Blen, of 0 "length (ip_bytes sim q)" "ip_bytes sim q" E] t(7,8)
    by (simp add: ip_bytes_def [of im2] contents)
  moreover note clones_bytes [OF sim ys Blen contents]
  ultimately show ?thesis
    using im1(1) npr sim(2) t(1,2,6) out
    by (auto simp: packet_append_def B_def [symmetric] E_def [symmetric])
qed

text \<open>A clone is a packet of its own: its chain has the types and the bytes of the cloned packet
  and of the packets inside it, its container holds exactly the bytes of the cloned packet, and
  the returned handle is the only thing that keeps it alive.\<close>

theorem packet_clone_copies:
  assumes im: "chain_ok im" "chain_find a im = Some x"
  shows "\<exists>pi n. packet_clone u a im = Some (pi, n) \<and> packet_inv 0 n \<and> im_refcount n = 1 \<and>
    pv_contents (im_data n) = ip_bytes im x \<and> im_simple n = im_simple im \<and>
    im_complex n = im_complex im \<and>
    list_all2 (\<lambda>y z. ip_type z = ip_type y \<and> ip_bytes n z = ip_bytes im y)
      (x # inner a (im_chain im)) (im_chain n)"
proof -
  note x = chain_find_within [OF im]
  define n0 :: "'a packet_impl" where "n0 = impl_add_ref (impl_new (pv_new_range u (ip_bytes im x)))"
  have s0: "store_ok n0" and c0: "im_chain n0 = []" "im_loose n0 = []" "im_refcount n0 = 1"
    and d0: "pv_ok (im_data n0)" "pv_contents (im_data n0) = ip_bytes im x"
    by (auto simp: n0_def store_ok_def interps_def impl_add_ref_def impl_new_def alloc_inv_init
        pv_new_range_spec)
  from interp_create_ptr_append [OF s0, of "ip_type x" 0 "ip_end x - ip_begin x"] obtain pi n1 where
    n1: "interp_create_ptr Append (ip_type x) 0 (ip_end x - ip_begin x) n0 = Some (pi, n1)"
      "store_ok n1" "im_data n1 = im_data n0" "im_refcount n1 = 2" "im_loose n1 = []"
      "im_chain n1 = [\<lparr>ip_addr = pi, ip_type = ip_type x, ip_begin = 0,
         ip_end = ip_end x - ip_begin x, ip_refs = 1\<rparr>]"
    using c0 by auto
  from append_clones_spec [OF n1(2), of "inner a (im_chain im)" "ip_begin x" 0] obtain ys n2 where
    n2: "append_clones (inner a (im_chain im)) (ip_begin x) 0 n1 = Some n2" "store_ok n2"
      "im_chain n2 = im_chain n1 @ ys" "im_data n2 = im_data n1" "im_loose n2 = []" "im_refcount n2 = 2"
    and ys: "list_all2 (\<lambda>z y. ip_type y = ip_type z \<and> ip_begin y = 0 + (ip_begin z - ip_begin x) \<and>
        ip_end y = 0 + (ip_end z - ip_begin x) \<and> ip_refs y = 0) (inner a (im_chain im)) ys"
    using n1(4,5) by auto
  define n3 where "n3 = (assignAnnotations im n2)\<lparr>im_refcount := 1\<rparr>"
  have res: "packet_clone u a im = Some (pi, n3)"
    using im(2) n1(1) n2(1,6)
    by (simp add: packet_clone_def n0_def [symmetric] impl_release_def assignAnnotations_def n3_def)
  have cd: "im_chain n3 = im_chain n1 @ ys" "im_data n3 = im_data n0" "im_loose n3 = []"
    "im_prealloc n3 = im_prealloc n2"
    using n2 n1 by (auto simp: n3_def assignAnnotations_def)
  have len: "pv_length (im_data n0) = ip_end x - ip_begin x"
    using length_pv_contents [OF d0(1)] d0(2) x by simp
  have "store_ok n3"
    using n2(2) store_ok_cong [of n3 n2] cd n2 by (simp add: interps_def)
  moreover have "nested 0 (ip_end x - ip_begin x) ys"
    using nested_clones [OF ys x(6)] by simp
  then have "chain_ok n3"
    using cd n1(6) d0 len calculation
    by (auto simp: chain_ok_def impl_size_def store_ok_def interps_def)
  moreover have "held ys = 0"
    using ys by (induction rule: list_all2_induct) auto
  then have "held (interps n3) = 1" by (simp add: interps_def cd n1(6))
  moreover have c3: "pv_contents (im_data n3) = replace_list 0 0 (ip_bytes im x) []"
    by (simp add: cd d0 replace_list_def)
  from clones_bytes [OF im ys _ c3]
  have "list_all2 (\<lambda>y z. ip_type z = ip_type y \<and> ip_bytes n3 z = ip_bytes im y) (inner a (im_chain im)) ys"
    by simp
  ultimately show ?thesis
    using res cd d0 n1(6) x len
    by (auto simp: packet_inv_def n3_def ip_bytes_def assignAnnotations_def)
qed

subsection \<open>Handles\<close>

lemma set_refs_simps [simp]:
  "ip_addr (set_refs a n x) = ip_addr x" "ip_begin (set_refs a n x) = ip_begin x"
  "ip_end (set_refs a n x) = ip_end x"
  by (auto simp: set_refs_def)

lemma nested_set_refs [simp]: "nested lo hi (map (set_refs a n) c) = nested lo hi c"
  by (induction c arbitrary: lo hi) auto

lemma addr_set_refs [simp]: "ip_addr \<circ> set_refs a n = ip_addr"
  by auto

lemma find_distinct:
  "distinct (map ip_addr xs) \<Longrightarrow> x \<in> set xs \<Longrightarrow> find (\<lambda>y. ip_addr y = ip_addr x) xs = Some x"
  by (induction xs) auto

lemma held_set_refs:
  "distinct (map ip_addr xs) \<Longrightarrow> x \<in> set xs \<Longrightarrow>
   held (map (set_refs (ip_addr x) n) xs) + (if 0 < ip_refs x then 1 else 0) =
   held xs + (if 0 < n then 1 else 0)"
proof (induction xs)
  case (Cons y xs)
  show ?case
  proof (cases "y = x")
    case True
    with Cons.prems have "map (set_refs (ip_addr x) n) xs = xs"
      by (intro map_set_refs_other) auto
    moreover have "set_refs (ip_addr x) n x = x\<lparr>ip_refs := n\<rparr>" by (simp add: set_refs_def)
    ultimately show ?thesis using True by simp
  next
    case False
    with Cons show ?thesis by (auto simp: set_refs_def)
  qed
qed simp

lemma held_one:
  assumes "distinct (map ip_addr xs)" "x \<in> set xs" "0 < ip_refs x"
  shows "held xs = 1 \<longleftrightarrow> (\<forall>y \<in> set xs. 0 < ip_refs y \<longrightarrow> y = x)"
proof -
  let ?h = "{y \<in> set xs. 0 < ip_refs y}"
  have "held xs = card ?h"
    using assms(1) distinct_card [of "filter (\<lambda>y. 0 < ip_refs y) xs"]
    by (simp add: held_def distinct_map)
  moreover have x: "x \<in> ?h" using assms by simp
  have "card ?h = 1 \<longleftrightarrow> ?h = {x}"
  proof
    assume "card ?h = 1"
    then obtain z where "?h = {z}" by (auto simp: card_1_singleton_iff)
    with x show "?h = {x}" by (metis singletonD)
  qed simp
  moreover have "?h = {x} \<longleftrightarrow> (\<forall>y \<in> set xs. 0 < ip_refs y \<longrightarrow> y = x)"
    using x by blast
  ultimately show ?thesis by simp
qed

lemma packet_inv_set_refs:
  assumes "packet_inv g im" "held (interps (impl_set_refs a n im)) + d = held (interps im)"
  shows "packet_inv g ((impl_set_refs a n im)\<lparr>im_refcount := im_refcount im - d\<rparr>)"
proof -
  let ?im = "(impl_set_refs a n im)\<lparr>im_refcount := im_refcount im - d\<rparr>"
  have "map ip_addr (interps ?im) = map ip_addr (interps im)" "im_prealloc ?im = im_prealloc im"
    by (simp_all add: interps_def impl_set_refs_def)
  from store_ok_cong [OF this] assms show ?thesis
    by (auto simp: packet_inv_def chain_ok_def impl_size_def interps_def impl_set_refs_def)
qed

text \<open>The last handle of an unlinked interpreter.\<close>

lemma release_loose:
  assumes inv: "packet_inv 0 im" and x: "x \<in> set (im_loose im)" "ip_refs x = 1"
  shows "\<exists>im1. releaseImpl (x\<lparr>ip_refs := 0\<rparr>)
      (im\<lparr>im_loose := filter (\<lambda>y. ip_addr y \<noteq> ip_addr x) (im_loose im)\<rparr>) = Some im1 \<and>
    im_refcount im1 = im_refcount im \<and> packet_inv 0 (im1\<lparr>im_refcount := im_refcount im - 1\<rparr>)"
proof -
  let ?l = "filter (\<lambda>y. ip_addr y \<noteq> ip_addr x) (im_loose im)"
  let ?im = "im\<lparr>im_loose := ?l\<rparr>"
  from inv have d: "distinct (map ip_addr (im_chain im @ im_loose im))"
    and al: "alloc_inv (im_prealloc im) (ip_addr ` set (im_chain im @ im_loose im))"
    by (auto simp: packet_inv_def store_ok_def interps_def)
  obtain l1 l2 where l: "im_loose im = l1 @ x # l2" using x(1) by (meson split_list)
  then have l': "?l = l1 @ l2" using d by (auto simp: filter_addr)
  have "distinct (map ip_addr (x\<lparr>ip_refs := 0\<rparr> # interps ?im))"
    using d l l' by (auto simp: interps_def)
  moreover have "ip_addr ` set (x\<lparr>ip_refs := 0\<rparr> # interps ?im) = ip_addr ` set (im_chain im @ im_loose im)"
    using l l' by (auto simp: interps_def)
  ultimately obtain im1 where im1: "releaseImpl (x\<lparr>ip_refs := 0\<rparr>) ?im = Some im1" "store_ok im1"
    "im_chain im1 = im_chain im" "im_data im1 = im_data im" "im_refcount im1 = im_refcount im"
    "im_loose im1 = l1 @ l2"
    using releaseImpl_store [of "x\<lparr>ip_refs := 0\<rparr>" ?im] al l' by auto
  then have "packet_inv 0 (im1\<lparr>im_refcount := im_refcount im - 1\<rparr>)"
    using inv l x(2) store_ok_cong [of "im1\<lparr>im_refcount := im_refcount im - 1\<rparr>" im1]
    by (auto simp: packet_inv_def chain_ok_def impl_size_def interps_def)
  with im1 show ?thesis by auto
qed

text \<open>C4: Dropping a handle deletes the packet exactly when it is the last handle of the last
  interpreter that any handle refers to; otherwise the packet stays intact.\<close>

theorem interp_release_deletes_last:
  assumes inv: "packet_inv 0 im" and x: "x \<in> set (interps im)" "0 < ip_refs x"
  shows "\<exists>del im'. interp_release (ip_addr x) im = Some (del, im') \<and>
    (del \<longleftrightarrow> ip_refs x = 1 \<and> (\<forall>y \<in> set (interps im). 0 < ip_refs y \<longrightarrow> y = x)) \<and>
    (\<not> del \<longrightarrow> packet_inv 0 im')"
proof -
  from inv have d: "distinct (map ip_addr (interps im))" and rc: "im_refcount im = held (interps im)"
    by (auto simp: packet_inv_def store_ok_def)
  note f = find_distinct [OF d x(1)] and one = held_one [OF d x]
  have pos: "0 < held (interps im)" using x by (auto simp: held_def filter_empty_conv)
  have hs: "interps (impl_set_refs (ip_addr x) n im) = map (set_refs (ip_addr x) n) (interps im)" for n
    by (simp add: interps_def impl_set_refs_def)
  note hr = held_set_refs [OF d x(1)]
  consider "1 < ip_refs x" | "ip_refs x = 1" "ip_addr x \<in> ip_addr ` set (im_chain im)"
    | "ip_refs x = 1" "ip_addr x \<notin> ip_addr ` set (im_chain im)"
    using x(2) by linarith
  then show ?thesis
  proof cases
    case 1
    then have "packet_inv 0 (impl_set_refs (ip_addr x) (ip_refs x - 1) im)"
      using packet_inv_set_refs [OF inv, of "ip_addr x" "ip_refs x - 1" 0] hr [of "ip_refs x - 1"]
      by (simp add: hs) (simp add: impl_set_refs_def)
    with 1 f show ?thesis by (auto simp: interp_release_def)
  next
    case 2
    then have "packet_inv 0 ((impl_set_refs (ip_addr x) 0 im)\<lparr>im_refcount := im_refcount im - 1\<rparr>)"
      using packet_inv_set_refs [OF inv, of "ip_addr x" 0 1] hr [of 0] by (simp add: hs)
    moreover have "im_refcount (impl_set_refs (ip_addr x) 0 im) = held (interps im)"
      by (simp add: impl_set_refs_def rc)
    ultimately show ?thesis
      using 2 f pos one rc by (auto simp: interp_release_def impl_release_def)
  next
    case 3
    with x have "x \<in> set (im_loose im)" by (auto simp: interps_def)
    from release_loose [OF inv this 3(1)] obtain im1 where
      "releaseImpl (x\<lparr>ip_refs := 0\<rparr>)
        (im\<lparr>im_loose := filter (\<lambda>y. ip_addr y \<noteq> ip_addr x) (im_loose im)\<rparr>) = Some im1"
      "im_refcount im1 = held (interps im)" "packet_inv 0 (im1\<lparr>im_refcount := im_refcount im - 1\<rparr>)"
      using rc by auto
    then show ?thesis
      using 3 f pos one rc by (auto simp: interp_release_def impl_release_def)
  qed
qed

text \<open>Parsing the payload of a packet replaces everything inside it by one packet on the range
  the protocol names; it reads exactly those bytes of its parent, and no byte changes. Where the
  protocol names no range, the packet is left alone and the chain is reported invalid.\<close>

theorem parseNext_reads_payload:
  assumes inv: "packet_inv g im" "0 < im_refcount im" "chain_find a im = Some x"
    and r: "case npr (ip_type x) (ip_bytes im x) of None \<Rightarrow> True
      | Some (i, j) \<Rightarrow> i \<le> j \<and> j \<le> length (ip_bytes im x)"
  shows "case npr (ip_type x) (ip_bytes im x) of
      None \<Rightarrow> parseNext npr t a im = (im, Inl InvalidPacketChain)
    | Some (i, j) \<Rightarrow> \<exists>im' new. parseNext npr t a im = (im', Inr (ip_addr new)) \<and>
        packet_inv g im' \<and> im_data im' = im_data im \<and>
        im_chain im' = outer a (im_chain im) @ [new] \<and> ip_type new = t \<and>
        ip_bytes im' new = subrange i j (ip_bytes im x)"
proof (cases "npr (ip_type x) (ip_bytes im x)")
  case None
  with inv show ?thesis by (simp add: parseNext_def nextPacketRange_def)
next
  case (Some ij)
  obtain i j where ij: "ij = (i, j)" by fastforce
  from inv have cok: "chain_ok im" by (simp add: packet_inv_def)
  note x = chain_find_within [OF cok inv(3)]
  from reparse_spec [OF inv(1,2), of a] obtain im1 where
    im1: "reparse a im = Some im1" "packet_inv g im1" "im_data im1 = im_data im"
      "im_chain im1 = outer a (im_chain im)" by blast
  then have "store_ok im1" by (simp add: packet_inv_def)
  from interp_create_ptr_append [OF this, of t "ip_begin x + i" "ip_begin x + j"] obtain rv im2 where
    im2: "interp_create_ptr Append t (ip_begin x + i) (ip_begin x + j) im1 = Some (rv, im2)"
      "store_ok im2" "im_data im2 = im_data im1" "im_refcount im2 = im_refcount im1 + 1"
      "im_loose im2 = im_loose im1"
      "im_chain im2 = im_chain im1 @ [\<lparr>ip_addr = rv, ip_type = t, ip_begin = ip_begin x + i,
         ip_end = ip_begin x + j, ip_refs = 1\<rparr>]" by blast
  have l: "im_chain im1 \<noteq> []" "last (im_chain im1) = x"
    using x(1) outer_last inv(3) by (auto simp: im1(4) chain_find_def)
  have "nested 0 (impl_size im2) (im_chain im2)"
    unfolding im2(6) using im1(2) l r Some ij x
    by (intro nested_snoc) (auto simp: packet_inv_def chain_ok_def impl_size_def im2(3))
  then have "packet_inv g im2"
    using im1(2) im2 by (auto simp: packet_inv_def chain_ok_def store_ok_def interps_def)
  moreover have "subrange (ip_begin x + i) (ip_begin x + j) (pv_contents (im_data im)) =
      subrange i j (ip_bytes im x)"
    using subrange_subrange [of "ip_begin x" "ip_begin x + i" "ip_begin x + j" "ip_end x"
        "pv_contents (im_data im)"] r Some ij x
    by (auto simp: ip_bytes_def)
  ultimately show ?thesis
    using inv(3) Some ij im1 im2
    by (auto simp: parseNext_def nextPacketRange_def ip_bytes_def [of im2])
qed

subsection \<open>Witnesses\<close>

lemma sample_prealloc: "alloc_inv (prealloc_init\<lparr>pa_free := 2\<rparr>) {Slot 0, Slot 1}"
proof (rule alloc_invI)
  have "(2::nat) \<le> PREALLOC_INTERPRETERS" by (simp add: PREALLOC_INTERPRETERS_def)
  then show "free_chain (pa_nextOffset (prealloc_init\<lparr>pa_free := 2\<rparr>))
      (pa_free (prealloc_init\<lparr>pa_free := 2\<rparr>)) [2..<PREALLOC_INTERPRETERS]"
    by (simp add: prealloc_init_def free_chain_iota)
  show "set [2..<PREALLOC_INTERPRETERS] = unused {Slot 0, Slot 1}"
    unfolding unused_def by force
  show "i < PREALLOC_INTERPRETERS" if "Slot i \<in> {Slot 0, Slot 1}" for i
    using that by (auto simp: PREALLOC_INTERPRETERS_def)
qed (simp_all add: prealloc_init_def)

lemma sample_impl_inv: "packet_inv 0 sample_impl"
  using sample_impl_ok sample_prealloc
  by (simp add: packet_inv_def store_ok_def sample_impl_def interps_def impl_new_def)

lemma sample_impl_find:
  "chain_find (Slot 0) sample_impl =
     Some \<lparr>ip_addr = Slot 0, ip_type = (), ip_begin = 0, ip_end = 6, ip_refs = 1\<rparr>"
  "chain_find (Slot 1) sample_impl =
     Some \<lparr>ip_addr = Slot 1, ip_type = (), ip_begin = 2, ip_end = 5, ip_refs = 0\<rparr>"
  "im_refcount sample_impl = 1"
  by (simp_all add: chain_find_def sample_impl_def)

theorem packet_append_copies_witness:
  "\<exists>im' rv. packet_append (\<lambda>_. 0) (\<lambda>_ bs. Some (0, length bs)) (Slot 0) sample_impl (Slot 1) sample_impl =
     (im', Inr rv) \<and> chain_ok im' \<and> store_ok im'"
  using packet_append_copies [OF sample_impl_inv _ sample_impl_find(1) sample_impl_ok sample_impl_find(2),
      of "\<lambda>_ bs. Some (0, length bs)" 0 "length (ip_bytes sample_impl
        \<lparr>ip_addr = Slot 0, ip_type = (), ip_begin = 0, ip_end = 6, ip_refs = 1\<rparr>)" "\<lambda>_. 0"]
  by (auto simp: sample_impl_find)

theorem packet_clone_copies_witness:
  "\<exists>pi n. packet_clone (\<lambda>_. 0) (Slot 1) sample_impl = Some (pi, n) \<and> packet_inv 0 n \<and> im_refcount n = 1"
  using packet_clone_copies [OF sample_impl_ok sample_impl_find(2), of "\<lambda>_. 0"] by blast

theorem interp_release_deletes_last_witness:
  "\<exists>im'. interp_release (Slot 0) sample_impl = Some (True, im')"
  using interp_release_deletes_last [OF sample_impl_inv,
      of "\<lparr>ip_addr = Slot 0, ip_type = (), ip_begin = 0, ip_end = 6, ip_refs = 1\<rparr>"]
  by (auto simp: sample_impl_def interps_def impl_new_def)

theorem parseNext_reads_payload_witness:
  "\<exists>im' (new :: unit interp). parseNext (\<lambda>_ _. Some (0, 1)) () (Slot 0) sample_impl = (im', Inr (ip_addr new)) \<and>
     packet_inv 0 im' \<and> im_data im' = im_data sample_impl"
  using parseNext_reads_payload [OF sample_impl_inv _ sample_impl_find(1),
      of "\<lambda>_ _. Some (0, 1)" "()"] chain_find_within(5) [OF sample_impl_ok sample_impl_find(1)]
  by (auto simp: sample_impl_find)

end
