(* ===== verification/Int_Bits.thy ===== *)
theory Int_Bits
  imports Senf_Prelude
begin

text \<open>
  The byte and bit access below the integer parsers, \<open>senf/Packets/IntParser.ih\<close>: reading and writing integers
  of 8 to 64 bits in network byte order or least significant byte first, bit fields of up to 32 bits at
  any bit position, and single bit flags.

  A parser is an index into the bytes of a packet. The specification numbers the bits of a packet the
  way the documentation does, most significant bit of the first byte first (\<open>netbit\<close>): a field reads
  the bits of its range, and writing it changes these bits and no other.

  Operands narrower than \<open>int\<close> are promoted to 32 bits as the language does it. The masks
  \<open>boost::low_bits_mask_t\<close> and \<open>boost::high_bit_mask_t\<close> are \<open>mask n\<close> and the bit \<open>n\<close>.
\<close>

section \<open>Bits in network order\<close>

definition netbit :: "byte list \<Rightarrow> nat \<Rightarrow> bool" where
  "netbit bs k \<longleftrightarrow> k div 8 < length bs \<and> bit (bs ! (k div 8)) (7 - k mod 8)"

lemma byte_index: "n < 8 \<Longrightarrow> (8 * i + 7 - n) div 8 = i" "n < 8 \<Longrightarrow> 7 - (8 * i + 7 - n) mod 8 = n" for i n :: nat
proof -
  assume n: "n < 8"
  then have e: "8 * i + 7 - n = (7 - n) + 8 * i" by simp
  show "(8 * i + 7 - n) div 8 = i" unfolding e using n by simp
  show "7 - (8 * i + 7 - n) mod 8 = n" unfolding e using n by (simp only: mod_mult_self2) simp
qed

lemma netbit_byte: "i < length bs \<Longrightarrow> n < 8 \<Longrightarrow> bit (bs ! i) n \<longleftrightarrow> netbit bs (8 * i + 7 - n)"
  by (simp add: netbit_def byte_index)

lemma netbit_update:
  assumes "i < length bs"
  shows "netbit (bs[i := b]) k \<longleftrightarrow> (if 8 * i \<le> k \<and> k < 8 * i + 8 then bit b (8 * i + 7 - k) else netbit bs k)"
proof (cases "8 * i \<le> k \<and> k < 8 * i + 8")
  case True
  then have k: "k = 8 * i + 7 - (8 * i + 7 - k)" "8 * i + 7 - k < 8" by auto
  then have "k div 8 = i" "7 - k mod 8 = 8 * i + 7 - k" using byte_index [OF k(2), of i] by simp_all
  then show ?thesis using True assms by (simp add: netbit_def)
next
  case False
  then have "k div 8 \<noteq> i" by auto
  then show ?thesis using False by (auto simp: netbit_def)
qed

lemma netbit_ext:
  assumes "length bs = length cs" "\<And>k. netbit bs k = netbit cs k"
  shows "bs = cs"
proof (rule nth_equalityI [OF assms(1)])
  fix i assume i: "i < length bs"
  show "bs ! i = cs ! i"
  proof (rule bit_word_eqI)
    fix n assume "n < LENGTH(8)"
    then show "bit (bs ! i) n = bit (cs ! i) n" using netbit_byte [of i bs n] netbit_byte [of i cs n] i assms by simp
  qed
qed

section \<open>Byte order\<close>

definition parse_uint16 :: "byte list \<Rightarrow> nat \<Rightarrow> u16" where
  "parse_uint16 bs i = ucast ((ucast (bs ! (i + 1)) :: u32) OR push_bit 8 (ucast (bs ! i)))"

definition write_uint16 :: "byte list \<Rightarrow> nat \<Rightarrow> u16 \<Rightarrow> byte list" where
  "write_uint16 bs i v =
     (let w = (ucast v :: u32)
      in bs[i := ucast (drop_bit 8 w AND 0xff), i + 1 := ucast (w AND 0xff)])"

definition parse_uint16LSB :: "byte list \<Rightarrow> nat \<Rightarrow> u16" where
  "parse_uint16LSB bs i = ucast ((ucast (bs ! i) :: u32) OR push_bit 8 (ucast (bs ! (i + 1))))"

definition write_uint16LSB :: "byte list \<Rightarrow> nat \<Rightarrow> u16 \<Rightarrow> byte list" where
  "write_uint16LSB bs i v =
     (let w = (ucast v :: u32)
      in bs[i := ucast (w AND 0xff), i + 1 := ucast (drop_bit 8 w AND 0xff)])"

definition parse_uint24 :: "byte list \<Rightarrow> nat \<Rightarrow> u32" where
  "parse_uint24 bs i = ucast (bs ! (i + 2)) OR push_bit 8 (ucast (bs ! (i + 1))) OR push_bit 16 (ucast (bs ! i))"

definition write_uint24 :: "byte list \<Rightarrow> nat \<Rightarrow> u32 \<Rightarrow> byte list" where
  "write_uint24 bs i v =
     bs[i := ucast (drop_bit 16 v AND 0xff), i + 1 := ucast (drop_bit 8 v AND 0xff), i + 2 := ucast (v AND 0xff)]"

definition parse_uint32 :: "byte list \<Rightarrow> nat \<Rightarrow> u32" where
  "parse_uint32 bs i =
     ucast (bs ! (i + 3)) OR push_bit 8 (ucast (bs ! (i + 2))) OR push_bit 16 (ucast (bs ! (i + 1)))
     OR push_bit 24 (ucast (bs ! i))"

definition write_uint32 :: "byte list \<Rightarrow> nat \<Rightarrow> u32 \<Rightarrow> byte list" where
  "write_uint32 bs i v =
     bs[i := ucast (drop_bit 24 v AND 0xff), i + 1 := ucast (drop_bit 16 v AND 0xff),
        i + 2 := ucast (drop_bit 8 v AND 0xff), i + 3 := ucast (v AND 0xff)]"

definition parse_uint32LSB :: "byte list \<Rightarrow> nat \<Rightarrow> u32" where
  "parse_uint32LSB bs i =
     ucast (bs ! i) OR push_bit 8 (ucast (bs ! (i + 1))) OR push_bit 16 (ucast (bs ! (i + 2)))
     OR push_bit 24 (ucast (bs ! (i + 3)))"

definition write_uint32LSB :: "byte list \<Rightarrow> nat \<Rightarrow> u32 \<Rightarrow> byte list" where
  "write_uint32LSB bs i v =
     bs[i + 3 := ucast (drop_bit 24 v AND 0xff), i + 2 := ucast (drop_bit 16 v AND 0xff),
        i + 1 := ucast (drop_bit 8 v AND 0xff), i := ucast (v AND 0xff)]"

definition parse_uint64 :: "byte list \<Rightarrow> nat \<Rightarrow> u64" where
  "parse_uint64 bs i =
     ucast (bs ! (i + 7)) OR push_bit 8 (ucast (bs ! (i + 6)))
     OR push_bit 16 (ucast (bs ! (i + 5))) OR push_bit 24 (ucast (bs ! (i + 4)))
     OR push_bit 32 (ucast (bs ! (i + 3))) OR push_bit 40 (ucast (bs ! (i + 2)))
     OR push_bit 48 (ucast (bs ! (i + 1))) OR push_bit 56 (ucast (bs ! i))"

definition write_uint64 :: "byte list \<Rightarrow> nat \<Rightarrow> u64 \<Rightarrow> byte list" where
  "write_uint64 bs i v =
     bs[i := ucast (drop_bit 56 v AND 0xff), i + 1 := ucast (drop_bit 48 v AND 0xff),
        i + 2 := ucast (drop_bit 40 v AND 0xff), i + 3 := ucast (drop_bit 32 v AND 0xff),
        i + 4 := ucast (drop_bit 24 v AND 0xff), i + 5 := ucast (drop_bit 16 v AND 0xff),
        i + 6 := ucast (drop_bit 8 v AND 0xff), i + 7 := ucast (v AND 0xff)]"

definition parse_uint64LSB :: "byte list \<Rightarrow> nat \<Rightarrow> u64" where
  "parse_uint64LSB bs i =
     ucast (bs ! i) OR push_bit 8 (ucast (bs ! (i + 1)))
     OR push_bit 16 (ucast (bs ! (i + 2))) OR push_bit 24 (ucast (bs ! (i + 3)))
     OR push_bit 32 (ucast (bs ! (i + 4))) OR push_bit 40 (ucast (bs ! (i + 5)))
     OR push_bit 48 (ucast (bs ! (i + 6))) OR push_bit 56 (ucast (bs ! (i + 7)))"

definition write_uint64LSB :: "byte list \<Rightarrow> nat \<Rightarrow> u64 \<Rightarrow> byte list" where
  "write_uint64LSB bs i v =
     bs[i := ucast (v AND 0xff), i + 1 := ucast (drop_bit 8 v AND 0xff),
        i + 2 := ucast (drop_bit 16 v AND 0xff), i + 3 := ucast (drop_bit 24 v AND 0xff),
        i + 4 := ucast (drop_bit 32 v AND 0xff), i + 5 := ucast (drop_bit 40 v AND 0xff),
        i + 6 := ucast (drop_bit 48 v AND 0xff), i + 7 := ucast (drop_bit 56 v AND 0xff)]"

text \<open>The bits of what these functions read.\<close>

lemma bit_ff: "bit (0xff :: 'a::len word) n \<longleftrightarrow> n < 8 \<and> n < LENGTH('a)"
proof -
  have "(0xff :: 'a word) = mask 8" by (simp add: mask_eq_exp_minus_1)
  then show ?thesis by (simp only: bit_mask_iff) auto
qed

lemma bit_byte_le: "bit (b :: byte) n \<Longrightarrow> n < 8"
  using bit_imp_le_length by force

lemma ucast_ff: "ucast (w AND 0xff) = (ucast w :: byte)"
  by (rule bit_word_eqI) (simp only: bit_unsigned_iff bit_and_iff bit_ff, auto dest: bit_imp_le_length)

lemma length_writes [simp]:
  "length (write_uint16 bs i v) = length bs" "length (write_uint16LSB bs i v) = length bs" "length (write_uint24 bs i w) = length bs"
  "length (write_uint32 bs i w) = length bs" "length (write_uint32LSB bs i w) = length bs"
  "length (write_uint64 bs i x) = length bs" "length (write_uint64LSB bs i x) = length bs"
  by (simp_all add: write_uint16_def write_uint16LSB_def write_uint24_def write_uint32_def write_uint32LSB_def write_uint64_def
      write_uint64LSB_def Let_def)

text \<open>A word put together from bytes, the lowest first.\<close>

lemma byte_of: "8 * c \<le> j \<Longrightarrow> j < 8 * c + 8 \<Longrightarrow> j div 8 = c \<and> j mod 8 = j - 8 * c" for c j :: nat
proof -
  assume a: "8 * c \<le> j" "j < 8 * c + 8"
  then have "j div 8 = c" by auto
  then show ?thesis by (simp add: modulo_nat_def)
qed

lemma bit_low_byte:
  assumes "q = f 0" "8 \<le> LENGTH('a)" "M = 8"
  shows "bit (ucast (bs ! q :: byte) :: 'a::len word) j \<longleftrightarrow> j < M \<and> bit (bs ! f (j div 8)) (j mod 8)"
proof (cases "j < 8")
  case True
  then show ?thesis using assms by (simp add: bit_simps)
next
  case False
  then show ?thesis using assms by (auto simp: bit_simps dest: bit_byte_le)
qed

lemma bit_or_byte:
  fixes A :: "'a::len word" and bs :: "byte list"
  assumes A: "bit A j \<longleftrightarrow> j < m \<and> bit (bs ! f (j div 8)) (j mod 8)"
    and "8 * (m div 8) = m" "q = f (m div 8)" "m + 8 \<le> LENGTH('a)" "M = m + 8"
  shows "bit (A OR push_bit m (ucast (bs ! q))) j \<longleftrightarrow> j < M \<and> bit (bs ! f (j div 8)) (j mod 8)"
proof (cases "m \<le> j \<and> j < m + 8")
  case True
  then have "j div 8 = m div 8 \<and> j mod 8 = j - m" using byte_of [of "m div 8" j] assms(2) by simp
  then show ?thesis using True A assms(3-5) by (auto simp: bit_simps)
next
  case False
  then show ?thesis using A assms(5) by (auto simp: bit_simps dest: bit_byte_le)
qed

lemma bytes_parse_uint16: "bit (parse_uint16 bs i) j \<longleftrightarrow> j < 16 \<and> bit (bs ! (i + 1 - j div 8)) (j mod 8)"
proof -
  have "bit ((ucast (bs ! (i + 1)) :: u32) OR push_bit 8 (ucast (bs ! i))) j \<longleftrightarrow> j < 16 \<and> bit (bs ! (i + 1 - j div 8)) (j mod 8)"
    by (rule bit_or_byte [where f = "\<lambda>c. i + 1 - c"] bit_low_byte [where f = "\<lambda>c. i + 1 - c"] | simp)+
  then show ?thesis unfolding parse_uint16_def by (auto simp: bit_unsigned_iff)
qed

lemma bytes_parse_uint16LSB: "bit (parse_uint16LSB bs i) j \<longleftrightarrow> j < 16 \<and> bit (bs ! (i + j div 8)) (j mod 8)"
proof -
  have "bit ((ucast (bs ! i) :: u32) OR push_bit 8 (ucast (bs ! (i + 1)))) j \<longleftrightarrow> j < 16 \<and> bit (bs ! (i + j div 8)) (j mod 8)"
    by (rule bit_or_byte [where f = "\<lambda>c. i + c"] bit_low_byte [where f = "\<lambda>c. i + c"] | simp)+
  then show ?thesis unfolding parse_uint16LSB_def by (auto simp: bit_unsigned_iff)
qed

lemma bytes_parse_uint24: "bit (parse_uint24 bs i) j \<longleftrightarrow> j < 24 \<and> bit (bs ! (i + 2 - j div 8)) (j mod 8)"
  unfolding parse_uint24_def or.assoc [symmetric]
  by (rule bit_or_byte [where f = "\<lambda>c. i + 2 - c"] bit_low_byte [where f = "\<lambda>c. i + 2 - c"] | simp)+

lemma bytes_parse_uint32: "bit (parse_uint32 bs i) j \<longleftrightarrow> j < 32 \<and> bit (bs ! (i + 3 - j div 8)) (j mod 8)"
  unfolding parse_uint32_def or.assoc [symmetric]
  by (rule bit_or_byte [where f = "\<lambda>c. i + 3 - c"] bit_low_byte [where f = "\<lambda>c. i + 3 - c"] | simp)+

lemma bytes_parse_uint32LSB: "bit (parse_uint32LSB bs i) j \<longleftrightarrow> j < 32 \<and> bit (bs ! (i + j div 8)) (j mod 8)"
  unfolding parse_uint32LSB_def or.assoc [symmetric]
  by (rule bit_or_byte [where f = "\<lambda>c. i + c"] bit_low_byte [where f = "\<lambda>c. i + c"] | simp)+

lemma bytes_parse_uint64: "bit (parse_uint64 bs i) j \<longleftrightarrow> j < 64 \<and> bit (bs ! (i + 7 - j div 8)) (j mod 8)"
  unfolding parse_uint64_def or.assoc [symmetric]
  by (rule bit_or_byte [where f = "\<lambda>c. i + 7 - c"] bit_low_byte [where f = "\<lambda>c. i + 7 - c"] | simp)+

lemma bytes_parse_uint64LSB: "bit (parse_uint64LSB bs i) j \<longleftrightarrow> j < 64 \<and> bit (bs ! (i + j div 8)) (j mod 8)"
  unfolding parse_uint64LSB_def or.assoc [symmetric]
  by (rule bit_or_byte [where f = "\<lambda>c. i + c"] bit_low_byte [where f = "\<lambda>c. i + c"] | simp)+

text \<open>The bytes that are written.\<close>

lemma bytes_write_uint16:
  assumes "i + 2 \<le> length bs" "q < length bs"
  shows "write_uint16 bs i v ! q = (if i \<le> q \<and> q < i + 2 then ucast (drop_bit (8 * (i + 1 - q)) v) else bs ! q)"
proof -
  have e: "(ucast (drop_bit 8 (ucast v :: u32)) :: byte) = ucast (drop_bit 8 v)" "(ucast (ucast v :: u32) :: byte) = ucast v"
    by (rule bit_word_eqI, auto simp: bit_simps)+
  consider "q = i" | "q = i + 1" | "q < i \<or> i + 2 \<le> q" by linarith
  then show ?thesis using assms by cases (auto simp: write_uint16_def Let_def nth_list_update ucast_ff e)
qed

lemma bytes_write_uint16LSB:
  assumes "i + 2 \<le> length bs" "q < length bs"
  shows "write_uint16LSB bs i v ! q = (if i \<le> q \<and> q < i + 2 then ucast (drop_bit (8 * (q - i)) v) else bs ! q)"
proof -
  have e: "(ucast (drop_bit 8 (ucast v :: u32)) :: byte) = ucast (drop_bit 8 v)" "(ucast (ucast v :: u32) :: byte) = ucast v"
    by (rule bit_word_eqI, auto simp: bit_simps)+
  consider "q = i" | "q = i + 1" | "q < i \<or> i + 2 \<le> q" by linarith
  then show ?thesis using assms by cases (auto simp: write_uint16LSB_def Let_def nth_list_update ucast_ff e)
qed

lemma bytes_write_uint24:
  assumes "i + 3 \<le> length bs" "q < length bs"
  shows "write_uint24 bs i v ! q = (if i \<le> q \<and> q < i + 3 then ucast (drop_bit (8 * (i + 2 - q)) v) else bs ! q)"
proof -
  consider "q = i" | "q = i + 1" | "q = i + 2" | "q < i \<or> i + 3 \<le> q" by linarith
  then show ?thesis using assms by cases (auto simp: write_uint24_def nth_list_update ucast_ff)
qed

lemma bytes_write_uint32LSB:
  assumes "i + 4 \<le> length bs" "q < length bs"
  shows "write_uint32LSB bs i v ! q = (if i \<le> q \<and> q < i + 4 then ucast (drop_bit (8 * (q - i)) v) else bs ! q)"
proof -
  consider "q = i" | "q = i + 1" | "q = i + 2" | "q = i + 3" | "q < i \<or> i + 4 \<le> q" by linarith
  then show ?thesis using assms by cases (auto simp: write_uint32LSB_def nth_list_update ucast_ff)
qed

lemma bytes_write_uint64LSB:
  assumes "i + 8 \<le> length bs" "q < length bs"
  shows "write_uint64LSB bs i v ! q = (if i \<le> q \<and> q < i + 8 then ucast (drop_bit (8 * (q - i)) v) else bs ! q)"
proof -
  consider "q = i" | "q = i + 1" | "q = i + 2" | "q = i + 3" | "q = i + 4" | "q = i + 5" | "q = i + 6" | "q = i + 7"
    | "q < i \<or> i + 8 \<le> q" by linarith
  then show ?thesis using assms by cases (auto simp: write_uint64LSB_def nth_list_update ucast_ff)
qed

lemma bytes_write_uint32:
  assumes "i + 4 \<le> length bs" "q < length bs"
  shows "write_uint32 bs i v ! q = (if i \<le> q \<and> q < i + 4 then ucast (drop_bit (8 * (i + 3 - q)) v) else bs ! q)"
proof -
  consider "q = i" | "q = i + 1" | "q = i + 2" | "q = i + 3" | "q < i \<or> i + 4 \<le> q" by linarith
  then show ?thesis using assms by cases (auto simp: write_uint32_def nth_list_update ucast_ff)
qed

lemma bytes_write_uint64:
  assumes "i + 8 \<le> length bs" "q < length bs"
  shows "write_uint64 bs i v ! q = (if i \<le> q \<and> q < i + 8 then ucast (drop_bit (8 * (i + 7 - q)) v) else bs ! q)"
proof -
  consider "q = i" | "q = i + 1" | "q = i + 2" | "q = i + 3" | "q = i + 4" | "q = i + 5" | "q = i + 6" | "q = i + 7"
    | "q < i \<or> i + 8 \<le> q" by linarith
  then show ?thesis using assms by cases (auto simp: write_uint64_def nth_list_update ucast_ff)
qed

lemma bytes_netbit:
  assumes "j < 8 * n" "i + n \<le> length bs"
  shows "bit (bs ! (i + n - 1 - j div 8)) (j mod 8) \<longleftrightarrow> netbit bs (8 * (i + n) - 1 - j)"
proof -
  have q: "j div 8 < n" using assms(1) by auto
  define a where "a = j div 8"
  define b where "b = j mod 8"
  have j: "j = 8 * a + b" "b < 8" "a < n" using q by (simp_all add: a_def b_def)
  obtain r where "n = Suc (a + r)" using j(3) less_imp_Suc_add by auto
  then have "8 * (i + n - 1 - a) + 7 - b = 8 * (i + n) - 1 - j" using j(1,2) by simp
  then have "8 * (i + n - 1 - j div 8) + 7 - j mod 8 = 8 * (i + n) - 1 - j" by (simp only: a_def b_def)
  moreover have "i + n - 1 - j div 8 < length bs" using q assms(2) by linarith
  ultimately show ?thesis using netbit_byte [of "i + n - 1 - j div 8" bs "j mod 8"] by simp
qed

lemma net_parse_uint16: "i + 2 \<le> length bs \<Longrightarrow> bit (parse_uint16 bs i) j \<longleftrightarrow> j < 16 \<and> netbit bs (8 * i + 15 - j)"
  using bytes_netbit [of j 2 i bs] by (auto simp: bytes_parse_uint16 add.commute)

lemma net_parse_uint24: "i + 3 \<le> length bs \<Longrightarrow> bit (parse_uint24 bs i) j \<longleftrightarrow> j < 24 \<and> netbit bs (8 * i + 23 - j)"
  using bytes_netbit [of j 3 i bs] by (auto simp: bytes_parse_uint24 add.commute)

lemma net_parse_uint32: "i + 4 \<le> length bs \<Longrightarrow> bit (parse_uint32 bs i) j \<longleftrightarrow> j < 32 \<and> netbit bs (8 * i + 31 - j)"
  using bytes_netbit [of j 4 i bs] by (auto simp: bytes_parse_uint32 add.commute)

lemma net_parse_uint64: "i + 8 \<le> length bs \<Longrightarrow> bit (parse_uint64 bs i) j \<longleftrightarrow> j < 64 \<and> netbit bs (8 * i + 63 - j)"
  using bytes_netbit [of j 8 i bs] by (auto simp: bytes_parse_uint64 add.commute)

lemma bytes_written:
  fixes v :: "'a::len word"
  assumes "\<And>q. q < length bs \<Longrightarrow> cs ! q = (if i \<le> q \<and> q < i + n then ucast (drop_bit (8 * (i + n - 1 - q)) v) else bs ! q)"
    and "length cs = length bs" "i + n \<le> length bs" "8 * n \<le> LENGTH('a)"
  shows "netbit cs k \<longleftrightarrow> (if 8 * i \<le> k \<and> k < 8 * (i + n) then bit v (8 * (i + n) - 1 - k) else netbit bs k)"
proof (cases "8 * i \<le> k \<and> k < 8 * (i + n)")
  case True
  define q where "q = k div 8"
  have k: "k = 8 * q + k mod 8" by (simp add: q_def)
  have q: "i \<le> q" "q < i + n" using True by (auto simp: q_def)
  have "netbit cs k \<longleftrightarrow> bit (cs ! q) (7 - k mod 8)" using q assms(2,3) by (simp add: netbit_def q_def)
  also have "\<dots> \<longleftrightarrow> bit v (8 * (i + n - 1 - q) + (7 - k mod 8))" using q assms(1) [of q] assms(3,4) by (auto simp: bit_simps dest: bit_imp_le_length)
  also have "8 * (i + n - 1 - q) + (7 - k mod 8) = 8 * (i + n) - 1 - k" using q k by auto
  finally show ?thesis using True by simp
next
  case False
  then have "\<not> (i \<le> k div 8 \<and> k div 8 < i + n)" by auto
  then show ?thesis using False assms(1) [of "k div 8"] assms(2) by (auto simp: netbit_def)
qed

lemma net_write_uint16: "i + 2 \<le> length bs \<Longrightarrow> netbit (write_uint16 bs i v) k \<longleftrightarrow> (if 8 * i \<le> k \<and> k < 8 * i + 16 then bit v (8 * i + 15 - k) else netbit bs k)"
  using bytes_written [of bs "write_uint16 bs i v" i 2 v k] bytes_write_uint16 [of i bs _ v] by (simp add: add.commute)

lemma net_write_uint24: "i + 3 \<le> length bs \<Longrightarrow> netbit (write_uint24 bs i v) k \<longleftrightarrow> (if 8 * i \<le> k \<and> k < 8 * i + 24 then bit v (8 * i + 23 - k) else netbit bs k)"
  using bytes_written [of bs "write_uint24 bs i v" i 3 v k] bytes_write_uint24 [of i bs _ v] by (simp add: add.commute)

lemma net_write_uint32: "i + 4 \<le> length bs \<Longrightarrow> netbit (write_uint32 bs i v) k \<longleftrightarrow> (if 8 * i \<le> k \<and> k < 8 * i + 32 then bit v (8 * i + 31 - k) else netbit bs k)"
  using bytes_written [of bs "write_uint32 bs i v" i 4 v k] bytes_write_uint32 [of i bs _ v] by (simp add: add.commute)

lemma net_write_uint64: "i + 8 \<le> length bs \<Longrightarrow> netbit (write_uint64 bs i v) k \<longleftrightarrow> (if 8 * i \<le> k \<and> k < 8 * i + 64 then bit v (8 * i + 63 - k) else netbit bs k)"
  using bytes_written [of bs "write_uint64 bs i v" i 8 v k] bytes_write_uint64 [of i bs _ v] by (simp add: add.commute)

section \<open>Bit fields\<close>

text \<open>
  \<open>parse_bitfield_i\<close> has one specialisation for each number of bytes a field touches, \<open>endb\<close> plus one;
  \<open>start\<close> and \<open>end\<close> count from the first bit of byte \<open>offset\<close>.
\<close>

definition bitfield_parse0 :: "nat \<Rightarrow> nat \<Rightarrow> nat \<Rightarrow> byte list \<Rightarrow> nat \<Rightarrow> u32" where
  "bitfield_parse0 offset st en bs i = drop_bit (8 - en) (ucast (bs ! (i + offset))) AND mask (en - st)"

definition bitfield_write0 :: "nat \<Rightarrow> nat \<Rightarrow> nat \<Rightarrow> byte list \<Rightarrow> nat \<Rightarrow> u32 \<Rightarrow> byte list" where
  "bitfield_write0 offset st en bs i v =
     bs[i + offset := ucast ((ucast (bs ! (i + offset)) AND NOT (push_bit (8 - en) (mask (en - st))))
                             OR push_bit (8 - en) (v AND mask (en - st)))]"

definition bitfield_parse1 :: "nat \<Rightarrow> nat \<Rightarrow> nat \<Rightarrow> byte list \<Rightarrow> nat \<Rightarrow> u32" where
  "bitfield_parse1 offset st en bs i = drop_bit (16 - en) (ucast (parse_uint16 bs (i + offset))) AND mask (en - st)"

definition bitfield_write1 :: "nat \<Rightarrow> nat \<Rightarrow> nat \<Rightarrow> byte list \<Rightarrow> nat \<Rightarrow> u32 \<Rightarrow> byte list" where
  "bitfield_write1 offset st en bs i v =
     write_uint16 bs (i + offset)
       (ucast ((ucast (parse_uint16 bs (i + offset)) AND NOT (push_bit (16 - en) (mask (en - st))))
               OR push_bit (16 - en) (v AND mask (en - st))))"

definition bitfield_parse2 :: "nat \<Rightarrow> nat \<Rightarrow> nat \<Rightarrow> byte list \<Rightarrow> nat \<Rightarrow> u32" where
  "bitfield_parse2 offset st en bs i = drop_bit (24 - en) (parse_uint24 bs (i + offset)) AND mask (en - st)"

definition bitfield_write2 :: "nat \<Rightarrow> nat \<Rightarrow> nat \<Rightarrow> byte list \<Rightarrow> nat \<Rightarrow> u32 \<Rightarrow> byte list" where
  "bitfield_write2 offset st en bs i v =
     write_uint24 bs (i + offset)
       ((parse_uint24 bs (i + offset) AND NOT (push_bit (24 - en) (mask (en - st))))
        OR push_bit (24 - en) (v AND mask (en - st)))"

definition bitfield_parse3 :: "nat \<Rightarrow> nat \<Rightarrow> nat \<Rightarrow> byte list \<Rightarrow> nat \<Rightarrow> u32" where
  "bitfield_parse3 offset st en bs i = drop_bit (32 - en) (parse_uint32 bs (i + offset)) AND mask (en - st)"

definition bitfield_write3 :: "nat \<Rightarrow> nat \<Rightarrow> nat \<Rightarrow> byte list \<Rightarrow> nat \<Rightarrow> u32 \<Rightarrow> byte list" where
  "bitfield_write3 offset st en bs i v =
     write_uint32 bs (i + offset)
       ((parse_uint32 bs (i + offset) AND NOT (push_bit (32 - en) (mask (en - st))))
        OR push_bit (32 - en) (v AND mask (en - st)))"

definition bitfield_parse4 :: "nat \<Rightarrow> nat \<Rightarrow> nat \<Rightarrow> byte list \<Rightarrow> nat \<Rightarrow> u32" where
  "bitfield_parse4 offset st en bs i =
     ((drop_bit (40 - en) (parse_uint32 bs (i + offset + 1)) AND mask (32 - (40 - en)))
      OR push_bit (32 - (40 - en)) (ucast (bs ! (i + offset)))) AND mask (en - st)"

definition bitfield_write4 :: "nat \<Rightarrow> nat \<Rightarrow> nat \<Rightarrow> byte list \<Rightarrow> nat \<Rightarrow> u32 \<Rightarrow> byte list" where
  "bitfield_write4 offset st en bs i v =
     (let cs = write_uint32 bs (i + offset + 1)
                 ((parse_uint32 bs (i + offset + 1) AND NOT (push_bit (40 - en) (mask (en - 8))))
                  OR push_bit (40 - en) (v AND mask (en - 8)))
      in cs[i + offset := ucast (((ucast (cs ! (i + offset)) :: u32) AND NOT (mask (8 - st)))
                                 OR (drop_bit (en - 8) v AND mask (8 - st)))])"

definition parse_bitfield :: "nat \<Rightarrow> nat \<Rightarrow> byte list \<Rightarrow> nat \<Rightarrow> u32" where
  "parse_bitfield st en bs i =
     (let offset = st div 8; endb = (en - 1) div 8 - st div 8; st' = st mod 8; en' = en - 8 * (st div 8)
      in if endb = 0 then bitfield_parse0 offset st' en' bs i
         else if endb = 1 then bitfield_parse1 offset st' en' bs i
         else if endb = 2 then bitfield_parse2 offset st' en' bs i
         else if endb = 3 then bitfield_parse3 offset st' en' bs i
         else bitfield_parse4 offset st' en' bs i)"

definition write_bitfield :: "nat \<Rightarrow> nat \<Rightarrow> byte list \<Rightarrow> nat \<Rightarrow> u32 \<Rightarrow> byte list" where
  "write_bitfield st en bs i v =
     (let offset = st div 8; endb = (en - 1) div 8 - st div 8; st' = st mod 8; en' = en - 8 * (st div 8)
      in if endb = 0 then bitfield_write0 offset st' en' bs i v
         else if endb = 1 then bitfield_write1 offset st' en' bs i v
         else if endb = 2 then bitfield_write2 offset st' en' bs i v
         else if endb = 3 then bitfield_write3 offset st' en' bs i v
         else bitfield_write4 offset st' en' bs i v)"

lemma length_write_bitfield [simp]: "length (write_bitfield st en bs i v) = length bs"
  by (simp add: write_bitfield_def bitfield_write0_def bitfield_write1_def bitfield_write2_def bitfield_write3_def
      bitfield_write4_def Let_def)

text \<open>Each specialisation reads the bits of the field.\<close>

lemma net_bitfield_parse0:
  assumes "i + p < length bs" "s < e" "e \<le> 8"
  shows "bit (bitfield_parse0 p s e bs i) j \<longleftrightarrow> j < e - s \<and> netbit bs (8 * (i + p) + e - 1 - j)"
proof (cases "j < e - s")
  case True
  then have "j + (8 - e) < 8" "j < 32" "8 * (i + p) + 7 - (j + (8 - e)) = 8 * (i + p) + e - 1 - j" using assms by auto
  then show ?thesis using True assms netbit_byte [OF assms(1), of "j + (8 - e)"] by (simp add: bitfield_parse0_def bit_simps add.commute)
qed (simp add: bitfield_parse0_def bit_simps)

lemma net_bitfield_parse1:
  assumes "i + p + 1 < length bs" "s < e" "e \<le> 16"
  shows "bit (bitfield_parse1 p s e bs i) j \<longleftrightarrow> j < e - s \<and> netbit bs (8 * (i + p) + e - 1 - j)"
proof (cases "j < e - s")
  case True
  then have "j + (16 - e) < 16" "j < 32" "8 * (i + p) + 15 - (j + (16 - e)) = 8 * (i + p) + e - 1 - j" using assms by auto
  then show ?thesis using True assms net_parse_uint16 [of "i + p" bs "j + (16 - e)"] by (simp add: bitfield_parse1_def bit_simps add.commute)
qed (simp add: bitfield_parse1_def bit_simps)

lemma net_bitfield_parse2:
  assumes "i + p + 2 < length bs" "s < e" "e \<le> 24"
  shows "bit (bitfield_parse2 p s e bs i) j \<longleftrightarrow> j < e - s \<and> netbit bs (8 * (i + p) + e - 1 - j)"
proof (cases "j < e - s")
  case True
  then have "j + (24 - e) < 24" "j < 32" "8 * (i + p) + 23 - (j + (24 - e)) = 8 * (i + p) + e - 1 - j" using assms by auto
  then show ?thesis using True assms net_parse_uint24 [of "i + p" bs "j + (24 - e)"] by (simp add: bitfield_parse2_def bit_simps add.commute)
qed (simp add: bitfield_parse2_def bit_simps)

lemma net_bitfield_parse3:
  assumes "i + p + 3 < length bs" "s < e" "e \<le> 32"
  shows "bit (bitfield_parse3 p s e bs i) j \<longleftrightarrow> j < e - s \<and> netbit bs (8 * (i + p) + e - 1 - j)"
proof (cases "j < e - s")
  case True
  then have "j + (32 - e) < 32" "j < 32" "8 * (i + p) + 31 - (j + (32 - e)) = 8 * (i + p) + e - 1 - j" using assms by auto
  then show ?thesis using True assms net_parse_uint32 [of "i + p" bs "j + (32 - e)"] by (simp add: bitfield_parse3_def bit_simps add.commute)
qed (simp add: bitfield_parse3_def bit_simps)

lemma net_bitfield_parse4:
  assumes "i + p + 4 < length bs" "s < 8" "32 < e" "e - s \<le> 32"
  shows "bit (bitfield_parse4 p s e bs i) j \<longleftrightarrow> j < e - s \<and> netbit bs (8 * (i + p) + e - 1 - j)"
proof (cases "j < e - s")
  case True
  have e: "e \<le> 39" "32 - (40 - e) = e - 8" using assms by auto
  show ?thesis
  proof (cases "j < e - 8")
    case lo: True
    then have "j + (40 - e) < 32" "8 * (i + p + 1) + 31 - (j + (40 - e)) = 8 * (i + p) + e - 1 - j" using assms by auto
    then show ?thesis using True lo e assms net_parse_uint32 [of "i + p + 1" bs "j + (40 - e)"]
      by (simp add: bitfield_parse4_def bit_simps add.commute)
  next
    case hi: False
    then have "j - (e - 8) < 8" "8 * (i + p) + 7 - (j - (e - 8)) = 8 * (i + p) + e - 1 - j" using True assms by auto
    then show ?thesis using True hi e assms netbit_byte [of "i + p" bs "j - (e - 8)"]
      by (auto simp: bitfield_parse4_def bit_simps)
  qed
qed (simp add: bitfield_parse4_def bit_simps)

text \<open>Each specialisation changes the bits of the field only.\<close>

lemma masked_write:
  fixes w v :: u32
  assumes "j < 32" "n + h \<le> 32"
  shows "bit ((w AND NOT (push_bit h (mask n))) OR push_bit h (v AND mask n)) j \<longleftrightarrow>
    (if h \<le> j \<and> j < h + n then bit v (j - h) else bit w j)"
  using assms by (auto simp: bit_simps)

lemma net_bitfield_write0:
  assumes "i + p < length bs" "s < e" "e \<le> 8"
  shows "netbit (bitfield_write0 p s e bs i v) k \<longleftrightarrow>
    (if 8 * (i + p) + s \<le> k \<and> k < 8 * (i + p) + e then bit v (8 * (i + p) + e - 1 - k) else netbit bs k)"
proof (cases "8 * (i + p) \<le> k \<and> k < 8 * (i + p) + 8")
  case True
  define j where "j = 8 * (i + p) + 7 - k"
  have j: "j < 8" "k = 8 * (i + p) + 7 - j" using True by (auto simp: j_def)
  have "netbit (bitfield_write0 p s e bs i v) k \<longleftrightarrow> (if 8 - e \<le> j \<and> j < 8 - e + (e - s) then bit v (j - (8 - e)) else bit (bs ! (i + p)) j)"
    using True assms j(1) masked_write [of j "e - s" "8 - e" "ucast (bs ! (i + p))" v]
    unfolding bitfield_write0_def netbit_update [OF assms(1)] j_def [symmetric] by (simp add: bit_unsigned_iff)
  moreover have "8 - e \<le> j \<and> j < 8 - e + (e - s) \<longleftrightarrow> 8 * (i + p) + s \<le> k \<and> k < 8 * (i + p) + e" using j True assms by auto
  moreover have "j - (8 - e) = 8 * (i + p) + e - 1 - k" if "8 - e \<le> j" using that j True assms by auto
  ultimately show ?thesis using netbit_byte [OF assms(1) j(1)] j(2) by auto
next
  case False
  then show ?thesis using assms by (auto simp: bitfield_write0_def netbit_update)
qed

lemma net_bitfield_write1:
  assumes "i + p + 1 < length bs" "s < e" "e \<le> 16"
  shows "netbit (bitfield_write1 p s e bs i v) k \<longleftrightarrow>
    (if 8 * (i + p) + s \<le> k \<and> k < 8 * (i + p) + e then bit v (8 * (i + p) + e - 1 - k) else netbit bs k)"
proof (cases "8 * (i + p) \<le> k \<and> k < 8 * (i + p) + 16")
  case True
  define j where "j = 8 * (i + p) + 15 - k"
  have j: "j < 16" "k = 8 * (i + p) + 15 - j" using True by (auto simp: j_def)
  have l: "i + p + 2 \<le> length bs" using assms(1) by simp
  have "netbit (bitfield_write1 p s e bs i v) k \<longleftrightarrow>
      (if 16 - e \<le> j \<and> j < 16 - e + (e - s) then bit v (j - (16 - e)) else bit (parse_uint16 bs (i + p)) j)"
    using True assms j(1) masked_write [of j "e - s" "16 - e" "ucast (parse_uint16 bs (i + p))" v]
    unfolding bitfield_write1_def net_write_uint16 [OF l] j_def [symmetric] by (simp add: bit_unsigned_iff)
  moreover have "16 - e \<le> j \<and> j < 16 - e + (e - s) \<longleftrightarrow> 8 * (i + p) + s \<le> k \<and> k < 8 * (i + p) + e" using j True assms by auto
  moreover have "j - (16 - e) = 8 * (i + p) + e - 1 - k" if "16 - e \<le> j" using that j True assms by auto
  ultimately show ?thesis using net_parse_uint16 [OF l, of j] j by auto
next
  case False
  then show ?thesis using assms net_write_uint16 [of "i + p" bs _ k] by (auto simp: bitfield_write1_def)
qed

lemma net_bitfield_write2:
  assumes "i + p + 2 < length bs" "s < e" "e \<le> 24"
  shows "netbit (bitfield_write2 p s e bs i v) k \<longleftrightarrow>
    (if 8 * (i + p) + s \<le> k \<and> k < 8 * (i + p) + e then bit v (8 * (i + p) + e - 1 - k) else netbit bs k)"
proof (cases "8 * (i + p) \<le> k \<and> k < 8 * (i + p) + 24")
  case True
  define j where "j = 8 * (i + p) + 23 - k"
  have j: "j < 24" "k = 8 * (i + p) + 23 - j" using True by (auto simp: j_def)
  have l: "i + p + 3 \<le> length bs" using assms(1) by simp
  have "netbit (bitfield_write2 p s e bs i v) k \<longleftrightarrow>
      (if 24 - e \<le> j \<and> j < 24 - e + (e - s) then bit v (j - (24 - e)) else bit (parse_uint24 bs (i + p)) j)"
    using True assms j(1) masked_write [of j "e - s" "24 - e" "parse_uint24 bs (i + p)" v]
    unfolding bitfield_write2_def net_write_uint24 [OF l] j_def [symmetric] by simp
  moreover have "24 - e \<le> j \<and> j < 24 - e + (e - s) \<longleftrightarrow> 8 * (i + p) + s \<le> k \<and> k < 8 * (i + p) + e" using j True assms by auto
  moreover have "j - (24 - e) = 8 * (i + p) + e - 1 - k" if "24 - e \<le> j" using that j True assms by auto
  ultimately show ?thesis using net_parse_uint24 [OF l, of j] j by auto
next
  case False
  then show ?thesis using assms net_write_uint24 [of "i + p" bs _ k] by (auto simp: bitfield_write2_def)
qed

lemma net_bitfield_write3:
  assumes "i + p + 3 < length bs" "s < e" "e \<le> 32"
  shows "netbit (bitfield_write3 p s e bs i v) k \<longleftrightarrow>
    (if 8 * (i + p) + s \<le> k \<and> k < 8 * (i + p) + e then bit v (8 * (i + p) + e - 1 - k) else netbit bs k)"
proof (cases "8 * (i + p) \<le> k \<and> k < 8 * (i + p) + 32")
  case True
  define j where "j = 8 * (i + p) + 31 - k"
  have j: "j < 32" "k = 8 * (i + p) + 31 - j" using True by (auto simp: j_def)
  have l: "i + p + 4 \<le> length bs" using assms(1) by simp
  have "netbit (bitfield_write3 p s e bs i v) k \<longleftrightarrow>
      (if 32 - e \<le> j \<and> j < 32 - e + (e - s) then bit v (j - (32 - e)) else bit (parse_uint32 bs (i + p)) j)"
    using True assms j(1) masked_write [of j "e - s" "32 - e" "parse_uint32 bs (i + p)" v]
    unfolding bitfield_write3_def net_write_uint32 [OF l] j_def [symmetric] by simp
  moreover have "32 - e \<le> j \<and> j < 32 - e + (e - s) \<longleftrightarrow> 8 * (i + p) + s \<le> k \<and> k < 8 * (i + p) + e" using j True assms by auto
  moreover have "j - (32 - e) = 8 * (i + p) + e - 1 - k" if "32 - e \<le> j" using that j True assms by auto
  ultimately show ?thesis using net_parse_uint32 [OF l, of j] j by auto
next
  case False
  then show ?thesis using assms net_write_uint32 [of "i + p" bs _ k] by (auto simp: bitfield_write3_def)
qed

lemma net_bitfield_write4:
  assumes "i + p + 4 < length bs" "s < 8" "32 < e" "e - s \<le> 32"
  shows "netbit (bitfield_write4 p s e bs i v) k \<longleftrightarrow>
    (if 8 * (i + p) + s \<le> k \<and> k < 8 * (i + p) + e then bit v (8 * (i + p) + e - 1 - k) else netbit bs k)"
proof -
  define x where "x = (parse_uint32 bs (i + p + 1) AND NOT (push_bit (40 - e) (mask (e - 8)))) OR push_bit (40 - e) (v AND mask (e - 8))"
  define cs where "cs = write_uint32 bs (i + p + 1) x"
  define b where "b = ((ucast (bs ! (i + p)) :: u32) AND NOT (mask (8 - s))) OR (drop_bit (e - 8) v AND mask (8 - s))"
  have l: "i + p + 1 + 4 \<le> length bs" using assms(1) by simp
  have e: "e \<le> 39" using assms by simp
  have "cs ! (i + p) = bs ! (i + p)" using bytes_write_uint32 [OF l, of "i + p" x] assms(1) by (simp add: cs_def)
  then have w: "bitfield_write4 p s e bs i v = cs[i + p := ucast b]"
    by (simp add: bitfield_write4_def cs_def x_def b_def Let_def)
  have lc: "i + p < length cs" using assms(1) by (simp add: cs_def)
  have net: "netbit (bitfield_write4 p s e bs i v) k \<longleftrightarrow>
      (if 8 * (i + p) \<le> k \<and> k < 8 * (i + p) + 8 then bit (ucast b :: byte) (8 * (i + p) + 7 - k)
       else if 8 * (i + p + 1) \<le> k \<and> k < 8 * (i + p + 1) + 32 then bit x (8 * (i + p + 1) + 31 - k) else netbit bs k)"
    by (simp only: w netbit_update [OF lc]) (simp only: cs_def net_write_uint32 [OF l])
  consider (hi) "8 * (i + p) \<le> k" "k < 8 * (i + p) + 8" | (lo) "8 * (i + p + 1) \<le> k" "k < 8 * (i + p + 1) + 32"
    | (out) "k < 8 * (i + p) \<or> 8 * (i + p + 1) + 32 \<le> k" by fastforce
  then show ?thesis
  proof cases
    case hi
    define j where "j = 8 * (i + p) + 7 - k"
    have j: "j < 8" "k = 8 * (i + p) + 7 - j" using hi by (auto simp: j_def)
    have "bit (ucast b :: byte) j \<longleftrightarrow> (if j < 8 - s then bit v (j + (e - 8)) else bit (bs ! (i + p)) j)"
      using j(1) by (auto simp: b_def bit_simps add.commute)
    moreover have "j < 8 - s \<longleftrightarrow> 8 * (i + p) + s \<le> k \<and> k < 8 * (i + p) + e" using j hi assms by auto
    moreover have "j + (e - 8) = 8 * (i + p) + e - 1 - k" using j assms by auto
    moreover have "netbit (bitfield_write4 p s e bs i v) k \<longleftrightarrow> bit (ucast b :: byte) j" using net hi unfolding j_def by auto
    moreover have "bit (bs ! (i + p)) j \<longleftrightarrow> netbit bs k" using netbit_byte [of "i + p" bs j] j(1) assms(1) unfolding j(2) [symmetric] by simp
    ultimately show ?thesis by simp
  next
    case lo
    define j where "j = 8 * (i + p + 1) + 31 - k"
    have j: "j < 32" "k = 8 * (i + p + 1) + 31 - j" using lo by (auto simp: j_def)
    have "bit x j \<longleftrightarrow> (if 40 - e \<le> j \<and> j < 40 - e + (e - 8) then bit v (j - (40 - e)) else bit (parse_uint32 bs (i + p + 1)) j)"
      unfolding x_def by (rule masked_write) (use j(1) assms e in auto)
    moreover have "40 - e \<le> j \<and> j < 40 - e + (e - 8) \<longleftrightarrow> 8 * (i + p) + s \<le> k \<and> k < 8 * (i + p) + e" using j lo assms e by auto
    moreover have "j - (40 - e) = 8 * (i + p) + e - 1 - k" if "40 - e \<le> j" using that j lo assms e by auto
    moreover have "netbit (bitfield_write4 p s e bs i v) k \<longleftrightarrow> bit x j" using net lo unfolding j_def by auto
    moreover have "bit (parse_uint32 bs (i + p + 1)) j \<longleftrightarrow> netbit bs k" using net_parse_uint32 [OF l, of j] j(1) unfolding j(2) [symmetric] by simp
    ultimately show ?thesis by metis
  next
    case out
    then show ?thesis using net e by auto
  qed
qed

text \<open>The two facts about bit fields at any position.\<close>

lemma field_bytes:
  assumes "st < en" "en - st \<le> 32" "i + (en - 1) div 8 < length bs"
    and p: "p = st div 8" and c: "c = (en - 1) div 8 - st div 8" and s: "s = st mod 8" and e: "e = en - 8 * p"
  shows "c \<le> 4" "i + p + c < length bs" "s < 8" "s < e" "8 * c < e" "e \<le> 8 * c + 8" "e - s = en - st" "8 * (i + p) + s = 8 * i + st"
    "8 * (i + p) + e = 8 * i + en"
proof -
  have le: "st div 8 \<le> (en - 1) div 8" using assms(1) by (intro div_le_mono) simp
  define r where "r = (en - 1) mod 8"
  have a: "st = 8 * p + s" "en - 1 = 8 * (p + c) + r" using le by (simp_all add: p c s r_def)
  have b: "s < 8" "r < 8" by (simp_all add: s r_def)
  show "c \<le> 4" "s < 8" using a b assms(1,2) by auto
  show "i + p + c < length bs" using le assms(3) by (simp add: p c)
  show "s < e" "8 * c < e" "e \<le> 8 * c + 8" "e - s = en - st" "8 * (i + p) + s = 8 * i + st" "8 * (i + p) + e = 8 * i + en"
    using a b e assms(1,2) by auto
qed

lemma net_parse_bitfield:
  assumes "st < en" "en - st \<le> 32" "i + (en - 1) div 8 < length bs"
  shows "bit (parse_bitfield st en bs i) j \<longleftrightarrow> j < en - st \<and> netbit bs (8 * i + en - 1 - j)"
proof -
  define p c s e where d: "p = st div 8" "c = (en - 1) div 8 - st div 8" "s = st mod 8" "e = en - 8 * p"
  note f = field_bytes [OF assms d]
  have n: "8 * (i + p) + e - 1 - j = 8 * i + en - 1 - j" using f(9) by simp
  have v: "parse_bitfield st en bs i = (if c = 0 then bitfield_parse0 p s e bs i else if c = 1 then bitfield_parse1 p s e bs i
      else if c = 2 then bitfield_parse2 p s e bs i else if c = 3 then bitfield_parse3 p s e bs i else bitfield_parse4 p s e bs i)"
    by (simp add: parse_bitfield_def Let_def d)
  consider "c = 0" | "c = 1" | "c = 2" | "c = 3" | "c = 4" using f(1) by linarith
  then show ?thesis
  proof cases
    case 1 then show ?thesis using v net_bitfield_parse0 [of i p bs s e j] f n by simp
  next
    case 2 then show ?thesis using v net_bitfield_parse1 [of i p bs s e j] f n by simp
  next
    case 3 then show ?thesis using v net_bitfield_parse2 [of i p bs s e j] f n by simp
  next
    case 4 then show ?thesis using v net_bitfield_parse3 [of i p bs s e j] f n by simp
  next
    case 5 then show ?thesis using v net_bitfield_parse4 [of i p bs s e j] f n assms(2) by simp
  qed
qed

lemma net_write_bitfield:
  assumes "st < en" "en - st \<le> 32" "i + (en - 1) div 8 < length bs"
  shows "netbit (write_bitfield st en bs i v) k \<longleftrightarrow>
    (if 8 * i + st \<le> k \<and> k < 8 * i + en then bit v (8 * i + en - 1 - k) else netbit bs k)"
proof -
  define p c s e where d: "p = st div 8" "c = (en - 1) div 8 - st div 8" "s = st mod 8" "e = en - 8 * p"
  note f = field_bytes [OF assms d]
  have v: "write_bitfield st en bs i v = (if c = 0 then bitfield_write0 p s e bs i v else if c = 1 then bitfield_write1 p s e bs i v
      else if c = 2 then bitfield_write2 p s e bs i v else if c = 3 then bitfield_write3 p s e bs i v else bitfield_write4 p s e bs i v)"
    by (simp add: write_bitfield_def Let_def d)
  consider "c = 0" | "c = 1" | "c = 2" | "c = 3" | "c = 4" using f(1) by linarith
  then have "netbit (write_bitfield st en bs i v) k \<longleftrightarrow>
    (if 8 * (i + p) + s \<le> k \<and> k < 8 * (i + p) + e then bit v (8 * (i + p) + e - 1 - k) else netbit bs k)"
  proof cases
    case 1 with net_bitfield_write0 [of i p bs s e v k] f show ?thesis by (simp add: v)
  next
    case 2 with net_bitfield_write1 [of i p bs s e v k] f show ?thesis by (simp add: v)
  next
    case 3 with net_bitfield_write2 [of i p bs s e v k] f show ?thesis by (simp add: v)
  next
    case 4 with net_bitfield_write3 [of i p bs s e v k] f show ?thesis by (simp add: v)
  next
    case 5 with net_bitfield_write4 [of i p bs s e v k] f assms(2) show ?thesis by (simp add: v)
  qed
  then show ?thesis unfolding f(8,9) .
qed

end
