(* ===== verification/Int_Parsers.thy ===== *)
theory Int_Parsers
  imports Int_Bits
begin

text \<open>
  The integer parsers of \<open>senf/Packets/IntParser.hh\<close>, one definition for each class, with the size
  check of \<open>senf/Packets/PacketParser.cci\<close> and the operators of \<open>IntParser.ih\<close>. The contract of a parser
  is the locale \<open>field\<close>; it is interpreted for every class.
\<close>

section \<open>The parser classes\<close>

text \<open>
  What a parser class provides: its static assertions, the bytes it needs, the least and the greatest
  value where the class names them, and the two overloads of \<open>value\<close>. A value of a signed type is the
  word of its two's complement.
\<close>

record 'v int_parser =
  pr_static_assert :: bool
  pr_fixed_bytes :: nat
  pr_min_value :: "int option"
  pr_max_value :: "int option"
  pr_value :: "byte list \<Rightarrow> nat \<Rightarrow> 'v"
  pr_assign :: "byte list \<Rightarrow> nat \<Rightarrow> 'v \<Rightarrow> byte list"

definition Int8Parser :: "byte int_parser" where
  "Int8Parser = \<lparr>pr_static_assert = True, pr_fixed_bytes = 1, pr_min_value = Some (-128), pr_max_value = Some 127,
     pr_value = (\<lambda>bs i. bs ! i), pr_assign = (\<lambda>bs i v. bs[i := v])\<rparr>"

definition UInt8Parser :: "byte int_parser" where
  "UInt8Parser = \<lparr>pr_static_assert = True, pr_fixed_bytes = 1, pr_min_value = Some 0, pr_max_value = Some 255,
     pr_value = (\<lambda>bs i. bs ! i), pr_assign = (\<lambda>bs i v. bs[i := v])\<rparr>"

definition Int16Parser :: "u16 int_parser" where
  "Int16Parser = \<lparr>pr_static_assert = True, pr_fixed_bytes = 2, pr_min_value = Some (-32768), pr_max_value = Some 32767,
     pr_value = parse_uint16, pr_assign = write_uint16\<rparr>"

definition Int16LSBParser :: "u16 int_parser" where
  "Int16LSBParser = \<lparr>pr_static_assert = True, pr_fixed_bytes = 2, pr_min_value = Some (-32768), pr_max_value = Some 32767,
     pr_value = parse_uint16LSB, pr_assign = write_uint16LSB\<rparr>"

definition UInt16Parser :: "u16 int_parser" where
  "UInt16Parser = \<lparr>pr_static_assert = True, pr_fixed_bytes = 2, pr_min_value = Some 0, pr_max_value = Some 65535,
     pr_value = parse_uint16, pr_assign = write_uint16\<rparr>"

definition UInt16LSBParser :: "u16 int_parser" where
  "UInt16LSBParser = \<lparr>pr_static_assert = True, pr_fixed_bytes = 2, pr_min_value = Some 0, pr_max_value = Some 65535,
     pr_value = parse_uint16LSB, pr_assign = write_uint16LSB\<rparr>"

definition Int24Parser :: "u32 int_parser" where
  "Int24Parser = \<lparr>pr_static_assert = True, pr_fixed_bytes = 3, pr_min_value = Some (-8388608), pr_max_value = Some 8388607,
     pr_value = (\<lambda>bs i. let v = parse_uint24 bs i in if v AND 0x800000 \<noteq> 0 then v OR 0xff000000 else v),
     pr_assign = write_uint24\<rparr>"

definition UInt24Parser :: "u32 int_parser" where
  "UInt24Parser = \<lparr>pr_static_assert = True, pr_fixed_bytes = 3, pr_min_value = Some 0, pr_max_value = Some 16777215,
     pr_value = parse_uint24, pr_assign = write_uint24\<rparr>"

definition Int32Parser :: "u32 int_parser" where
  "Int32Parser = \<lparr>pr_static_assert = True, pr_fixed_bytes = 4, pr_min_value = Some (-2147483648), pr_max_value = Some 2147483647,
     pr_value = parse_uint32, pr_assign = write_uint32\<rparr>"

definition UInt32Parser :: "u32 int_parser" where
  "UInt32Parser = \<lparr>pr_static_assert = True, pr_fixed_bytes = 4, pr_min_value = Some 0, pr_max_value = Some 4294967295,
     pr_value = parse_uint32, pr_assign = write_uint32\<rparr>"

definition UInt32LSBParser :: "u32 int_parser" where
  "UInt32LSBParser = \<lparr>pr_static_assert = True, pr_fixed_bytes = 4, pr_min_value = Some 0, pr_max_value = Some 4294967295,
     pr_value = parse_uint32LSB, pr_assign = write_uint32LSB\<rparr>"

definition Int64Parser :: "u64 int_parser" where
  "Int64Parser = \<lparr>pr_static_assert = True, pr_fixed_bytes = 8, pr_min_value = None, pr_max_value = None,
     pr_value = parse_uint64, pr_assign = write_uint64\<rparr>"

definition UInt64Parser :: "u64 int_parser" where
  "UInt64Parser = \<lparr>pr_static_assert = True, pr_fixed_bytes = 8, pr_min_value = None, pr_max_value = None,
     pr_value = parse_uint64, pr_assign = write_uint64\<rparr>"

definition UInt64LSBParser :: "u64 int_parser" where
  "UInt64LSBParser = \<lparr>pr_static_assert = True, pr_fixed_bytes = 8, pr_min_value = None, pr_max_value = None,
     pr_value = parse_uint64LSB, pr_assign = write_uint64LSB\<rparr>"

definition IntFieldParser :: "nat \<Rightarrow> nat \<Rightarrow> u32 int_parser" where
  "IntFieldParser Start End = \<lparr>pr_static_assert = (Start < End \<and> End - Start \<le> 32), pr_fixed_bytes = (End - 1) div 8 + 1,
     pr_min_value = Some (- (2 ^ (End - Start - 1) - 1) - 1), pr_max_value = Some (2 ^ (End - Start - 1) - 1),
     pr_value = (\<lambda>bs i. let v = parse_bitfield Start End bs i
                       in if v AND push_bit (End - Start - 1) 1 \<noteq> 0 then v OR NOT (mask (End - Start)) else v),
     pr_assign = write_bitfield Start End\<rparr>"

definition UIntFieldParser :: "nat \<Rightarrow> nat \<Rightarrow> u32 int_parser" where
  "UIntFieldParser Start End = \<lparr>pr_static_assert = (Start < End \<and> End - Start \<le> 32), pr_fixed_bytes = (End - 1) div 8 + 1,
     pr_min_value = Some 0, pr_max_value = Some (2 ^ (End - Start) - 1),
     pr_value = parse_bitfield Start End, pr_assign = write_bitfield Start End\<rparr>"

definition FlagParser :: "nat \<Rightarrow> bool int_parser" where
  "FlagParser Bit = \<lparr>pr_static_assert = True, pr_fixed_bytes = Bit div 8 + 1, pr_min_value = Some 0, pr_max_value = Some 1,
     pr_value = (\<lambda>bs i. (ucast (bs ! (i + Bit div 8)) :: u32) AND push_bit (7 - Bit mod 8) 1 \<noteq> 0),
     pr_assign = (\<lambda>bs i v. if v then bs[i + Bit div 8 := ucast ((ucast (bs ! (i + Bit div 8)) :: u32) OR push_bit (7 - Bit mod 8) 1)]
                           else bs[i + Bit div 8 := ucast ((ucast (bs ! (i + Bit div 8)) :: u32) AND NOT (push_bit (7 - Bit mod 8) 1))])\<rparr>"

text \<open>
  \<open>PacketParserBase\<close> checks when a parser is created that its bytes are in the packet; the arithmetic
  operators of \<open>IntParserOps\<close> read, compute and assign.
\<close>

datatype parser_error = TruncatedPacketException

definition check_size :: "byte list \<Rightarrow> nat \<Rightarrow> nat \<Rightarrow> bool" where
  "check_size bs i n \<longleftrightarrow> (if length bs < i then False else n \<le> length bs - i)"

definition validate :: "byte list \<Rightarrow> nat \<Rightarrow> nat \<Rightarrow> parser_error + unit" where
  "validate bs i n = (if \<not> check_size bs i n then Inl TruncatedPacketException else Inr ())"

definition parser_read :: "'v int_parser \<Rightarrow> byte list \<Rightarrow> nat \<Rightarrow> parser_error + 'v" where
  "parser_read P bs i = (case validate bs i (pr_fixed_bytes P) of Inl x \<Rightarrow> Inl x | Inr _ \<Rightarrow> Inr (pr_value P bs i))"

definition parser_store :: "'v int_parser \<Rightarrow> byte list \<Rightarrow> nat \<Rightarrow> 'v \<Rightarrow> parser_error + byte list" where
  "parser_store P bs i v = (case validate bs i (pr_fixed_bytes P) of Inl x \<Rightarrow> Inl x | Inr _ \<Rightarrow> Inr (pr_assign P bs i v))"

definition parser_mutate :: "('v \<Rightarrow> 'v) \<Rightarrow> 'v int_parser \<Rightarrow> byte list \<Rightarrow> nat \<Rightarrow> parser_error + byte list" where
  "parser_mutate f P bs i = (case parser_read P bs i of Inl x \<Rightarrow> Inl x | Inr v \<Rightarrow> parser_store P bs i (f v))"

section \<open>The contract of a parser\<close>

text \<open>
  The field of \<open>P\<close> are the bits from \<open>lo\<close> up to \<open>hi\<close>, counted from the position of the parser, and it
  can hold the values that fit: it reads back what was assigned, and depends on no other bit.
\<close>

locale field =
  fixes P :: "'v int_parser" and lo hi :: nat and fits :: "'v \<Rightarrow> bool"
  assumes length_assign: "length (pr_assign P bs i v) = length bs"
    and value_assign: "pr_static_assert P \<Longrightarrow> i + pr_fixed_bytes P \<le> length bs \<Longrightarrow> fits v \<Longrightarrow> pr_value P (pr_assign P bs i v) i = v"
    and value_fits: "pr_static_assert P \<Longrightarrow> i + pr_fixed_bytes P \<le> length bs \<Longrightarrow> fits (pr_value P bs i)"
    and assign_value: "pr_static_assert P \<Longrightarrow> i + pr_fixed_bytes P \<le> length bs \<Longrightarrow> pr_assign P bs i (pr_value P bs i) = bs"
    and assign_frame: "pr_static_assert P \<Longrightarrow> i + pr_fixed_bytes P \<le> length bs \<Longrightarrow> k < 8 * i + lo \<or> 8 * i + hi \<le> k \<Longrightarrow>
      netbit (pr_assign P bs i v) k = netbit bs k"
    and value_local: "pr_static_assert P \<Longrightarrow> i + pr_fixed_bytes P \<le> length bs \<Longrightarrow> length cs = length bs \<Longrightarrow>
      (\<And>k. 8 * i + lo \<le> k \<Longrightarrow> k < 8 * i + hi \<Longrightarrow> netbit cs k = netbit bs k) \<Longrightarrow> pr_value P cs i = pr_value P bs i"
begin

lemma read_truncated: "length bs < i + pr_fixed_bytes P \<Longrightarrow> parser_read P bs i = Inl TruncatedPacketException"
  by (auto simp: parser_read_def validate_def check_size_def)

lemma mutate_reads_back:
  assumes "pr_static_assert P" "i + pr_fixed_bytes P \<le> length bs" "fits (f (pr_value P bs i))"
  shows "\<exists>cs. parser_mutate f P bs i = Inr cs \<and> length cs = length bs \<and> parser_read P cs i = Inr (f (pr_value P bs i))"
  using assms value_assign [OF assms(1,2,3)] length_assign [of bs i]
  by (simp add: parser_mutate_def parser_read_def parser_store_def validate_def check_size_def)

end

text \<open>Two fields that share no bit do not see each other's assignments.\<close>

locale two_fields = A: field P lo hi fits + B: field Q lo' hi' fits'
  for P :: "'v int_parser" and lo hi fits and Q :: "'w int_parser" and lo' hi' fits'
begin

lemma disjoint_assign:
  assumes "pr_static_assert P" "pr_static_assert Q" "i + pr_fixed_bytes P \<le> length bs" "j + pr_fixed_bytes Q \<le> length bs"
    and "8 * i + hi \<le> 8 * j + lo' \<or> 8 * j + hi' \<le> 8 * i + lo"
  shows "pr_value Q (pr_assign P bs i v) j = pr_value Q bs j"
proof (rule B.value_local [OF assms(2,4) A.length_assign])
  fix k assume k: "8 * j + lo' \<le> k" "k < 8 * j + hi'"
  show "netbit (pr_assign P bs i v) k = netbit bs k"
    by (rule A.assign_frame [OF assms(1,3)]) (use k assms(5) in linarith)
qed

end

text \<open>An unsigned field in network order: the values that fit are those with no bit above the field.\<close>

locale net_field =
  fixes P :: "'a::len word int_parser" and lo hi :: nat
  assumes bytes: "pr_static_assert P \<Longrightarrow> lo < hi \<and> hi - lo \<le> LENGTH('a) \<and> hi \<le> 8 * pr_fixed_bytes P"
    and len: "length (pr_assign P bs i v) = length bs"
    and net_value: "pr_static_assert P \<Longrightarrow> i + pr_fixed_bytes P \<le> length bs \<Longrightarrow>
      bit (pr_value P bs i) j \<longleftrightarrow> j < hi - lo \<and> netbit bs (8 * i + hi - 1 - j)"
    and net_assign: "pr_static_assert P \<Longrightarrow> i + pr_fixed_bytes P \<le> length bs \<Longrightarrow>
      netbit (pr_assign P bs i v) k \<longleftrightarrow> (if 8 * i + lo \<le> k \<and> k < 8 * i + hi then bit v (8 * i + hi - 1 - k) else netbit bs k)"
begin

lemma value_assign_take:
  assumes "pr_static_assert P" "i + pr_fixed_bytes P \<le> length bs"
  shows "pr_value P (pr_assign P bs i v) i = take_bit (hi - lo) v"
proof (rule bit_word_eqI)
  fix j assume "j < LENGTH('a)"
  show "bit (pr_value P (pr_assign P bs i v) i) j \<longleftrightarrow> bit (take_bit (hi - lo) v) j"
  proof (cases "j < hi - lo")
    case True
    then have k: "8 * i + lo \<le> 8 * i + hi - 1 - j \<and> 8 * i + hi - 1 - j < 8 * i + hi" "8 * i + hi - 1 - (8 * i + hi - 1 - j) = j" by auto
    show ?thesis using True net_value [of i "pr_assign P bs i v" j] net_assign [of i bs v "8 * i + hi - 1 - j"] assms k
      by (simp add: len bit_take_bit_iff)
  qed (use net_value [of i "pr_assign P bs i v" j] assms in \<open>simp add: len bit_take_bit_iff\<close>)
qed

lemma assign_low_bits:
  assumes "pr_static_assert P" "i + pr_fixed_bytes P \<le> length bs" "\<And>j. j < hi - lo \<Longrightarrow> bit v j \<longleftrightarrow> bit (pr_value P bs i) j"
  shows "pr_assign P bs i v = bs"
proof (rule netbit_ext)
  fix k
  show "netbit (pr_assign P bs i v) k = netbit bs k"
  proof (cases "8 * i + lo \<le> k \<and> k < 8 * i + hi")
    case True
    define j where "j = 8 * i + hi - 1 - k"
    have j: "j < hi - lo" "8 * i + hi - 1 - j = k" using True by (auto simp: j_def)
    have "netbit (pr_assign P bs i v) k \<longleftrightarrow> bit v j" using True net_assign [OF assms(1,2), of v k] by (simp add: j_def)
    also have "\<dots> \<longleftrightarrow> netbit bs k" using assms(3) [OF j(1)] net_value [OF assms(1,2), of j] j by simp
    finally show ?thesis .
  qed (use net_assign [OF assms(1,2), of v k] in auto)
qed (rule len)

end

sublocale net_field \<subseteq> field P lo hi "\<lambda>v. take_bit (hi - lo) v = v"
proof
  fix bs cs :: "byte list" and i k :: nat and v :: "'a word"
  show "length (pr_assign P bs i v) = length bs" by (rule len)
  assume s: "pr_static_assert P" "i + pr_fixed_bytes P \<le> length bs"
  show "pr_value P (pr_assign P bs i v) i = v" if "take_bit (hi - lo) v = v" using value_assign_take [OF s, of v] that by simp
  show "take_bit (hi - lo) (pr_value P bs i) = pr_value P bs i"
    by (rule bit_word_eqI) (auto simp: bit_take_bit_iff net_value [OF s])
  show "pr_assign P bs i (pr_value P bs i) = bs" by (rule assign_low_bits [OF s]) simp
  show "netbit (pr_assign P bs i v) k = netbit bs k" if "k < 8 * i + lo \<or> 8 * i + hi \<le> k"
    using net_assign [OF s, of v k] that by auto
  assume l: "length cs = length bs" and eq: "\<And>k. 8 * i + lo \<le> k \<Longrightarrow> k < 8 * i + hi \<Longrightarrow> netbit cs k = netbit bs k"
  show "pr_value P cs i = pr_value P bs i"
  proof (rule bit_word_eqI)
    fix j
    have "netbit cs (8 * i + hi - 1 - j) = netbit bs (8 * i + hi - 1 - j)" if "j < hi - lo"
      by (rule eq) (use that in linarith)+
    then show "bit (pr_value P cs i) j = bit (pr_value P bs i) j"
      using net_value [OF s, of j] net_value [of i cs j] s l by auto
  qed
qed

lemma min_top: "j < n \<Longrightarrow> min (n - Suc 0) j = j" "j < b - a \<Longrightarrow> min (b - Suc a) j = j" for j n a b :: nat
  by auto

text \<open>A signed field reads the unsigned one and extends its sign.\<close>

locale signed_field = U: net_field U lo hi for U :: "'a::len word int_parser" and lo hi +
  fixes S :: "'a word int_parser"
  assumes same: "pr_static_assert S = pr_static_assert U" "pr_fixed_bytes S = pr_fixed_bytes U" "pr_assign S = pr_assign U"
    and value_S: "pr_static_assert S \<Longrightarrow> i + pr_fixed_bytes S \<le> length bs \<Longrightarrow> pr_value S bs i = signed_take_bit (hi - lo - 1) (pr_value U bs i)"

sublocale signed_field \<subseteq> signed: field S lo hi "\<lambda>v. signed_take_bit (hi - lo - 1) v = v"
proof
  fix bs cs :: "byte list" and i k :: nat and v :: "'a word"
  show "length (pr_assign S bs i v) = length bs" by (simp add: same U.len)
  assume s: "pr_static_assert S" "i + pr_fixed_bytes S \<le> length bs"
  then have u: "pr_static_assert U" "i + pr_fixed_bytes U \<le> length bs" by (simp_all add: same)
  have n: "0 < hi - lo" using U.bytes [OF u(1)] by simp
  have low: "signed_take_bit (hi - lo - 1) (take_bit (hi - lo) w) = signed_take_bit (hi - lo - 1) w" for w :: "'a word"
    by (rule bit_word_eqI) (use n in \<open>auto simp: bit_signed_take_bit_iff bit_take_bit_iff min_def\<close>)
  show "pr_value S (pr_assign S bs i v) i = v" if "signed_take_bit (hi - lo - 1) v = v"
    using value_S [of i "pr_assign U bs i v"] s U.value_assign_take [OF u, of v] low that by (simp add: same U.len)
  show "signed_take_bit (hi - lo - 1) (pr_value S bs i) = pr_value S bs i"
    unfolding value_S [OF s] by (rule bit_word_eqI) (auto simp: bit_signed_take_bit_iff min_def)
  show "pr_assign S bs i (pr_value S bs i) = bs"
    unfolding same(3) value_S [OF s]
    by (rule U.assign_low_bits [OF u]) (use U.bytes [OF u(1)] in \<open>auto simp: bit_signed_take_bit_iff min_top\<close>)
  show "netbit (pr_assign S bs i v) k = netbit bs k" if "k < 8 * i + lo \<or> 8 * i + hi \<le> k"
    using U.assign_frame [OF u that] by (simp add: same)
  assume l: "length cs = length bs" and eq: "\<And>k. 8 * i + lo \<le> k \<Longrightarrow> k < 8 * i + hi \<Longrightarrow> netbit cs k = netbit bs k"
  have "pr_value U cs i = pr_value U bs i" by (rule U.value_local [OF u l eq])
  moreover have "i + pr_fixed_bytes S \<le> length cs" using s(2) l by simp
  ultimately show "pr_value S cs i = pr_value S bs i" by (simp only: value_S [OF s] value_S [OF s(1)])
qed

lemma sign_extend:
  fixes v :: u32
  assumes "0 < n" "n \<le> 32" "take_bit n v = v"
  shows "(if v AND push_bit (n - 1) 1 \<noteq> 0 then v OR NOT (mask n) else v) = signed_take_bit (n - 1) v"
proof (rule bit_word_eqI)
  fix j assume j: "j < LENGTH(32)"
  have b: "v AND push_bit (n - 1) 1 = 0 \<longleftrightarrow> \<not> bit v (n - 1)" by (simp add: push_bit_of_1 and_exp_eq_0_iff_not_bit)
  have hi: "\<not> bit v j" if "n \<le> j" using assms(3) that by (metis bit_take_bit_iff not_less)
  show "bit (if v AND push_bit (n - 1) 1 \<noteq> 0 then v OR NOT (mask n) else v) j = bit (signed_take_bit (n - 1) v) j"
  proof (cases "j < n")
    case True
    then show ?thesis using b j min_top(1) [OF True] by (simp add: bit_simps)
  next
    case False
    then have "min (n - Suc 0) j = n - Suc 0" by auto
    then show ?thesis using b j hi False by (simp add: bit_simps)
  qed
qed

text \<open>Least significant byte first.\<close>

locale lsb_field =
  fixes P :: "'a::len word int_parser" and n :: nat
  assumes width: "pr_fixed_bytes P = n" "LENGTH('a) = 8 * n"
    and len: "length (pr_assign P bs i v) = length bs"
    and byte_value: "bit (pr_value P bs i) j \<longleftrightarrow> j < 8 * n \<and> bit (bs ! (i + j div 8)) (j mod 8)"
    and byte_assign: "i + n \<le> length bs \<Longrightarrow> q < length bs \<Longrightarrow>
      pr_assign P bs i v ! q = (if i \<le> q \<and> q < i + n then ucast (drop_bit (8 * (q - i)) v) else bs ! q)"

sublocale lsb_field \<subseteq> field P 0 "8 * n" "\<lambda>_. True"
proof
  fix bs cs :: "byte list" and i k :: nat and v :: "'a word"
  show "length (pr_assign P bs i v) = length bs" by (rule len)
  assume "i + pr_fixed_bytes P \<le> length bs"
  then have i: "i + n \<le> length bs" by (simp add: width)
  have q: "j div 8 < n" if "j < 8 * n" for j using that by auto
  show "pr_value P (pr_assign P bs i v) i = v"
  proof (rule bit_word_eqI)
    fix j assume "j < LENGTH('a)"
    then have j: "j < 8 * n" by (simp add: width)
    show "bit (pr_value P (pr_assign P bs i v) i) j = bit v j"
      using j q [OF j] i byte_assign [OF i, of "i + j div 8" v] by (simp add: byte_value bit_simps)
  qed
  show "pr_assign P bs i (pr_value P bs i) = bs"
  proof (rule nth_equalityI)
    fix q assume "q < length (pr_assign P bs i (pr_value P bs i))"
    then have l: "q < length bs" by (simp add: len)
    show "pr_assign P bs i (pr_value P bs i) ! q = bs ! q"
    proof (cases "i \<le> q \<and> q < i + n")
      case True
      show ?thesis
        by (rule bit_word_eqI) (use True byte_assign [OF i l, of "pr_value P bs i"] in \<open>auto simp: bit_simps byte_value\<close>)
    qed (use byte_assign [OF i l, of "pr_value P bs i"] in auto)
  qed (rule len)
  show "netbit (pr_assign P bs i v) k = netbit bs k" if "k < 8 * i + 0 \<or> 8 * i + 8 * n \<le> k"
  proof -
    have "\<not> (i \<le> k div 8 \<and> k div 8 < i + n)" using that by auto
    then show ?thesis using byte_assign [OF i, of "k div 8" v] by (auto simp: netbit_def len)
  qed
  assume l: "length cs = length bs" and eq: "\<And>k. 8 * i + 0 \<le> k \<Longrightarrow> k < 8 * i + 8 * n \<Longrightarrow> netbit cs k = netbit bs k"
  show "pr_value P cs i = pr_value P bs i"
  proof (rule bit_word_eqI)
    fix j assume "j < LENGTH('a)"
    then have j: "j < 8 * n" by (simp add: width)
    have "8 * i + 0 \<le> 8 * (i + j div 8) + 7 - j mod 8" "8 * (i + j div 8) + 7 - j mod 8 < 8 * i + 8 * n"
      using q [OF j] by auto
    then show "bit (pr_value P cs i) j = bit (pr_value P bs i) j"
      using eq [of "8 * (i + j div 8) + 7 - j mod 8"] netbit_byte [of "i + j div 8" bs "j mod 8"] netbit_byte [of "i + j div 8" cs "j mod 8"]
        q [OF j] i l by (simp add: byte_value)
  qed
qed simp_all

section \<open>Every parser keeps the contract\<close>

interpretation u8: net_field UInt8Parser 0 8
proof
  fix bs :: "byte list" and i j k :: nat and v :: byte
  assume "i + pr_fixed_bytes UInt8Parser \<le> length bs"
  then have i: "i < length bs" by (simp add: UInt8Parser_def)
  show "bit (pr_value UInt8Parser bs i) j \<longleftrightarrow> j < 8 - 0 \<and> netbit bs (8 * i + 8 - 1 - j)"
    using netbit_byte [OF i, of j] by (auto simp: UInt8Parser_def add.commute dest: bit_byte_le)
  show "netbit (pr_assign UInt8Parser bs i v) k \<longleftrightarrow> (if 8 * i + 0 \<le> k \<and> k < 8 * i + 8 then bit v (8 * i + 8 - 1 - k) else netbit bs k)"
    using netbit_update [OF i, of v k] by (simp add: UInt8Parser_def add.commute)
qed (simp_all add: UInt8Parser_def)

interpretation u16: net_field UInt16Parser 0 16
  by unfold_locales (simp_all add: UInt16Parser_def net_parse_uint16 net_write_uint16 add.commute)

interpretation u24: net_field UInt24Parser 0 24
  by unfold_locales (simp_all add: UInt24Parser_def net_parse_uint24 net_write_uint24 add.commute)

interpretation u32: net_field UInt32Parser 0 32
  by unfold_locales (simp_all add: UInt32Parser_def net_parse_uint32 net_write_uint32 add.commute)

interpretation u64: net_field UInt64Parser 0 64
  by unfold_locales (simp_all add: UInt64Parser_def net_parse_uint64 net_write_uint64 add.commute)

interpretation ufield: net_field "UIntFieldParser st en" st en for st en
proof
  fix bs :: "byte list" and i j k :: nat and v :: u32
  show "length (pr_assign (UIntFieldParser st en) bs i v) = length bs" by (simp add: UIntFieldParser_def)
  assume "pr_static_assert (UIntFieldParser st en)"
  then have s: "st < en" "en - st \<le> 32" by (simp_all add: UIntFieldParser_def)
  have "en - 1 < 8 * ((en - 1) div 8 + 1)" by (simp add: dividend_less_div_times mult.commute)
  then show "st < en \<and> en - st \<le> LENGTH(32) \<and> en \<le> 8 * pr_fixed_bytes (UIntFieldParser st en)"
    using s by (simp add: UIntFieldParser_def)
  assume "i + pr_fixed_bytes (UIntFieldParser st en) \<le> length bs"
  then have i: "i + (en - 1) div 8 < length bs" by (simp add: UIntFieldParser_def)
  show "bit (pr_value (UIntFieldParser st en) bs i) j \<longleftrightarrow> j < en - st \<and> netbit bs (8 * i + en - 1 - j)"
    using net_parse_bitfield [OF s i] by (simp add: UIntFieldParser_def)
  show "netbit (pr_assign (UIntFieldParser st en) bs i v) k \<longleftrightarrow>
      (if 8 * i + st \<le> k \<and> k < 8 * i + en then bit v (8 * i + en - 1 - k) else netbit bs k)"
    using net_write_bitfield [OF s i] by (simp add: UIntFieldParser_def)
qed

interpretation s8: signed_field UInt8Parser 0 8 Int8Parser
  by unfold_locales (auto simp: UInt8Parser_def Int8Parser_def intro!: bit_word_eqI simp: bit_signed_take_bit_iff min_top)

interpretation s16: signed_field UInt16Parser 0 16 Int16Parser
  by unfold_locales (auto simp: UInt16Parser_def Int16Parser_def intro!: bit_word_eqI simp: bit_signed_take_bit_iff min_top)

interpretation s32: signed_field UInt32Parser 0 32 Int32Parser
  by unfold_locales (auto simp: UInt32Parser_def Int32Parser_def intro!: bit_word_eqI simp: bit_signed_take_bit_iff min_top)

interpretation s64: signed_field UInt64Parser 0 64 Int64Parser
  by unfold_locales (auto simp: UInt64Parser_def Int64Parser_def intro!: bit_word_eqI simp: bit_signed_take_bit_iff min_top)

interpretation s24: signed_field UInt24Parser 0 24 Int24Parser
proof
  fix bs :: "byte list" and i :: nat
  assume "i + pr_fixed_bytes Int24Parser \<le> length bs"
  then have "take_bit 24 (pr_value UInt24Parser bs i) = pr_value UInt24Parser bs i"
    using u24.value_fits [of i bs] by (simp add: Int24Parser_def UInt24Parser_def)
  moreover have "(0x800000 :: u32) = push_bit (24 - 1) 1" "(0xff000000 :: u32) = NOT (mask 24)" by (simp_all add: mask_eq_exp_minus_1)
  ultimately show "pr_value Int24Parser bs i = signed_take_bit (24 - 0 - 1) (pr_value UInt24Parser bs i)"
    using sign_extend [of 24 "pr_value UInt24Parser bs i"] by (simp only: Int24Parser_def UInt24Parser_def Let_def int_parser.simps) simp
qed (simp_all add: UInt24Parser_def Int24Parser_def)

interpretation sfield: signed_field "UIntFieldParser st en" st en "IntFieldParser st en" for st en
proof
  fix bs :: "byte list" and i :: nat
  assume a: "pr_static_assert (IntFieldParser st en)" "i + pr_fixed_bytes (IntFieldParser st en) \<le> length bs"
  then have "take_bit (en - st) (parse_bitfield st en bs i) = parse_bitfield st en bs i"
    using ufield.value_fits [of st en i bs] by (simp add: IntFieldParser_def UIntFieldParser_def)
  then show "pr_value (IntFieldParser st en) bs i = signed_take_bit (en - st - 1) (pr_value (UIntFieldParser st en) bs i)"
    using a(1) sign_extend [of "en - st" "parse_bitfield st en bs i"] by (simp add: IntFieldParser_def UIntFieldParser_def Let_def)
qed (simp_all add: UIntFieldParser_def IntFieldParser_def)

interpretation l16: lsb_field UInt16LSBParser 2
  by unfold_locales (simp_all add: UInt16LSBParser_def bytes_parse_uint16LSB bytes_write_uint16LSB)

interpretation ls16: lsb_field Int16LSBParser 2
  by unfold_locales (simp_all add: Int16LSBParser_def bytes_parse_uint16LSB bytes_write_uint16LSB)

interpretation l32: lsb_field UInt32LSBParser 4
  by unfold_locales (simp_all add: UInt32LSBParser_def bytes_parse_uint32LSB bytes_write_uint32LSB)

interpretation l64: lsb_field UInt64LSBParser 8
  by unfold_locales (simp_all add: UInt64LSBParser_def bytes_parse_uint64LSB bytes_write_uint64LSB)

lemma flag_position: "8 * (i + b div 8) + 7 - (7 - b mod 8) = 8 * i + b" for i b :: nat
  by simp

lemma flag_bit: "7 - b mod 8 < (8 :: nat)" "7 - b mod 8 < (32 :: nat)" for b :: nat
  by (rule le_less_trans [OF diff_le_self], simp)+

lemma flag_byte:
  fixes b :: byte
  assumes "j < 8" "m < 8"
  shows "bit (ucast ((ucast b :: u32) OR push_bit m 1) :: byte) j \<longleftrightarrow> j = m \<or> bit b j"
    "bit (ucast ((ucast b :: u32) AND NOT (push_bit m 1)) :: byte) j \<longleftrightarrow> j \<noteq> m \<and> bit b j"
  using assms by (auto simp: bit_simps)

lemma flag_value: "i + b div 8 < length bs \<Longrightarrow> pr_value (FlagParser b) bs i \<longleftrightarrow> netbit bs (8 * i + b)"
  using netbit_byte [of "i + b div 8" bs "7 - b mod 8", unfolded flag_position] flag_bit [of b]
  by (simp add: FlagParser_def push_bit_of_1 and_exp_eq_0_iff_not_bit bit_unsigned_iff)

lemma flag_assign:
  assumes "i + b div 8 < length bs"
  shows "netbit (pr_assign (FlagParser b) bs i v) k \<longleftrightarrow> (if k = 8 * i + b then v else netbit bs k)"
proof (cases "8 * (i + b div 8) \<le> k \<and> k < 8 * (i + b div 8) + 8")
  case True
  define j where "j = 8 * (i + b div 8) + 7 - k"
  have j: "j < 8" "k = 8 * (i + b div 8) + 7 - j" using True by (auto simp: j_def)
  have n: "bit (bs ! (i + b div 8)) j \<longleftrightarrow> netbit bs k" using netbit_byte [OF assms j(1)] unfolding j(2) [symmetric] .
  have "k \<noteq> 8 * i + b" if "j \<noteq> 7 - b mod 8"
  proof -
    define m where "m = 7 - b mod 8"
    have "m < 8" "8 * (i + b div 8) + 7 - m = 8 * i + b" "j \<noteq> m" using flag_position [of i b] that by (auto simp: m_def)
    then show ?thesis using j by linarith
  qed
  moreover have "k = 8 * i + b" if "j = 7 - b mod 8" using j(2) flag_position [of i b] that by simp
  moreover have "netbit (pr_assign (FlagParser b) bs i v) k \<longleftrightarrow> (if j = 7 - b mod 8 then v else bit (bs ! (i + b div 8)) j)"
    using True flag_byte [OF j(1) flag_bit(1) [of b], of "bs ! (i + b div 8)"]
    by (cases v; cases "j = 7 - b mod 8")
      (simp_all only: FlagParser_def int_parser.simps netbit_update [OF assms] j_def [symmetric] if_True if_False simp_thms)
  ultimately show ?thesis using n by simp
next
  case False
  moreover have "k \<noteq> 8 * i + b" using False flag_position [of i b] by auto
  ultimately show ?thesis using netbit_update [OF assms] by (auto simp: FlagParser_def)
qed

interpretation flag: field "FlagParser b" b "Suc b" "\<lambda>_. True" for b
proof
  fix bs cs :: "byte list" and i k :: nat and v :: bool
  show len: "length (pr_assign (FlagParser b) bs i v) = length bs" for v by (simp add: FlagParser_def)
  assume "i + pr_fixed_bytes (FlagParser b) \<le> length bs"
  then have i: "i + b div 8 < length bs" by (simp add: FlagParser_def)
  show "pr_value (FlagParser b) (pr_assign (FlagParser b) bs i v) i = v"
    using flag_value [of i b "pr_assign (FlagParser b) bs i v"] flag_assign [OF i] i len by simp
  show "pr_assign (FlagParser b) bs i (pr_value (FlagParser b) bs i) = bs"
    by (rule netbit_ext [OF len]) (use flag_value [OF i] flag_assign [OF i] in simp)
  show "netbit (pr_assign (FlagParser b) bs i v) k = netbit bs k" if "k < 8 * i + b \<or> 8 * i + Suc b \<le> k"
    using flag_assign [OF i] that by auto
  assume "length cs = length bs" "\<And>k. 8 * i + b \<le> k \<Longrightarrow> k < 8 * i + Suc b \<Longrightarrow> netbit cs k = netbit bs k"
  then show "pr_value (FlagParser b) cs i = pr_value (FlagParser b) bs i"
    using flag_value [of i b cs] flag_value [OF i] i by simp
qed simp_all

text \<open>Any two bit fields of a packet, and a bit field and a flag.\<close>

interpretation bitfields: two_fields "UIntFieldParser a b" a b "\<lambda>v. take_bit (b - a) v = v" "UIntFieldParser c d" c d "\<lambda>v. take_bit (d - c) v = v"
  for a b c d
  by unfold_locales

interpretation bitfield_flag: two_fields "UIntFieldParser a b" a b "\<lambda>v. take_bit (b - a) v = v" "FlagParser c" c "Suc c" "\<lambda>_. True" for a b c
  by unfold_locales

section \<open>What the fields mean\<close>

text \<open>The reference: the bits from \<open>a\<close> up to \<open>b\<close> in network order as a number, the first bit the most significant.\<close>

definition net_number :: "byte list \<Rightarrow> nat \<Rightarrow> nat \<Rightarrow> int" where
  "net_number bs a b = foldl (\<lambda>n k. 2 * n + of_bool (netbit bs k)) 0 [a..<b]"

lemma net_number_Suc: "a \<le> b \<Longrightarrow> net_number bs a (Suc b) = 2 * net_number bs a b + of_bool (netbit bs b)"
  by (simp add: net_number_def)

lemma bit_net_number: "a \<le> b \<Longrightarrow> bit (net_number bs a b) j \<longleftrightarrow> j < b - a \<and> netbit bs (b - 1 - j)"
proof (induction b arbitrary: j)
  case 0
  then show ?case by (simp add: net_number_def)
next
  case (Suc b)
  show ?case
  proof (cases "a \<le> b")
    case True
    show ?thesis
    proof (cases j)
      case 0
      then show ?thesis using True by (simp add: net_number_Suc bit_0)
    next
      case (Suc m)
      then show ?thesis using True Suc.IH [OF True, of m] by (auto simp: net_number_Suc bit_Suc)
    qed
  next
    case False
    then have "a = Suc b" using Suc.prems by simp
    then show ?thesis by (simp add: net_number_def)
  qed
qed

text \<open>
  C17: An unsigned bit field reads the number its bits spell in network order, and assigning it changes
  these bits to those of the value and no other bit of the packet, for every position and every width up
  to 32 bits: the five specialisations by the number of bytes agree with one reference.
\<close>

theorem bitfield_is_network_number:
  assumes "pr_static_assert (UIntFieldParser st en)" "i + pr_fixed_bytes (UIntFieldParser st en) \<le> length bs"
  shows "uint (pr_value (UIntFieldParser st en) bs i) = net_number bs (8 * i + st) (8 * i + en) \<and>
    (\<forall>v k. netbit (pr_assign (UIntFieldParser st en) bs i v) k \<longleftrightarrow>
      (if 8 * i + st \<le> k \<and> k < 8 * i + en then bit v (8 * i + en - 1 - k) else netbit bs k))"
proof (intro conjI allI)
  show "uint (pr_value (UIntFieldParser st en) bs i) = net_number bs (8 * i + st) (8 * i + en)"
  proof (rule bit_eqI)
    fix j
    show "bit (uint (pr_value (UIntFieldParser st en) bs i)) j = bit (net_number bs (8 * i + st) (8 * i + en)) j"
      using ufield.net_value [OF assms, of j] bit_net_number [of "8 * i + st" "8 * i + en" bs j] ufield.bytes [OF assms(1)]
      by (auto simp: bit_uint_iff)
  qed
qed (rule ufield.net_assign [OF assms])

text \<open>
  A signed bit field holds every value from its \<open>min_value\<close> to its \<open>max_value\<close>: the assignment
  succeeds in a packet that is long enough, the value is read back with its sign, and no other bit has
  changed; in a packet that is too short both raise the exception.
\<close>

theorem signed_bitfield_roundtrip:
  assumes "pr_static_assert (IntFieldParser st en)" "pr_min_value (IntFieldParser st en) = Some mn" "pr_max_value (IntFieldParser st en) = Some mx"
    and "mn \<le> sint v" "sint v \<le> mx"
  shows "if i + pr_fixed_bytes (IntFieldParser st en) \<le> length bs
    then \<exists>cs. parser_store (IntFieldParser st en) bs i v = Inr cs \<and> parser_read (IntFieldParser st en) cs i = Inr v \<and>
           length cs = length bs \<and> (\<forall>k. k < 8 * i + st \<or> 8 * i + en \<le> k \<longrightarrow> netbit cs k = netbit bs k)
    else parser_store (IntFieldParser st en) bs i v = Inl TruncatedPacketException \<and>
         parser_read (IntFieldParser st en) bs i = Inl TruncatedPacketException"
proof (cases "i + pr_fixed_bytes (IntFieldParser st en) \<le> length bs")
  case True
  define n where "n = en - st - 1"
  have n: "n < 32" using assms(1) by (auto simp: IntFieldParser_def n_def)
  have "- (2 ^ n) \<le> sint v \<and> sint v < 2 ^ n" using assms(2-5) by (auto simp: IntFieldParser_def n_def)
  then have "signed_take_bit n (sint v) = sint v" by (simp add: signed_take_bit_int_eq_self_iff)
  then have m: "bit (sint v) j \<longleftrightarrow> bit (sint v) (min n j)" for j by (metis bit_signed_take_bit_iff possible_bit_int)
  have e: "bit v j \<longleftrightarrow> bit v (min n j)" if "j < 32" for j using that n m [of j] by (simp add: bit_sint_iff not_le)
  have "signed_take_bit n v = v"
  proof (rule bit_word_eqI)
    fix j assume "j < LENGTH(32)"
    then show "bit (signed_take_bit n v) j = bit v j" using e [of j] by (simp add: bit_signed_take_bit_iff)
  qed
  then have fit: "signed_take_bit (en - st - 1) v = v" by (simp add: n_def)
  define cs where "cs = pr_assign (IntFieldParser st en) bs i v"
  have l: "length cs = length bs" by (simp add: cs_def sfield.signed.length_assign)
  have "parser_store (IntFieldParser st en) bs i v = Inr cs" using True by (simp add: parser_store_def validate_def check_size_def cs_def)
  moreover have "parser_read (IntFieldParser st en) cs i = Inr v"
    using True l sfield.signed.value_assign [OF assms(1) True fit] by (simp add: parser_read_def validate_def check_size_def cs_def)
  moreover have "netbit cs k = netbit bs k" if "k < 8 * i + st \<or> 8 * i + en \<le> k" for k
    using sfield.signed.assign_frame [OF assms(1) True that] by (simp add: cs_def)
  ultimately show ?thesis using True l by auto
qed (auto simp: parser_store_def parser_read_def validate_def check_size_def)

theorem bitfield_is_network_number_witness:
  "uint (pr_value (UIntFieldParser 4 16) [0xab, 0xcd] 0) = 0xbcd"
proof -
  have "uint (pr_value (UIntFieldParser 4 16) [0xab, 0xcd] 0) = net_number [0xab, 0xcd] 4 16"
    using bitfield_is_network_number [of 4 16 0 "[0xab, 0xcd]"] by (simp add: UIntFieldParser_def)
  also have "\<dots> = 0xbcd" by (simp add: net_number_def netbit_def upt_rec)
  finally show ?thesis .
qed

theorem signed_bitfield_roundtrip_witness:
  "\<exists>cs. parser_store (IntFieldParser 3 9) [0xff, 0xff] 0 (-5) = Inr cs \<and> parser_read (IntFieldParser 3 9) cs 0 = Inr (-5)"
  using signed_bitfield_roundtrip [of 3 9 "-32" "31" "-5" 0 "[0xff, 0xff]"] by (auto simp: IntFieldParser_def)

end
