(* ===== verification/Packet_Layout.thy ===== *)
theory Packet_Layout
  imports Int_Parsers
begin

text \<open>
  Parsers that are put together by the macros of \<open>senf/Packets/ParseHelpers.hh\<close> and
  \<open>ParseHelpers.ih\<close>: the offsets a fixed size parser assigns to its fields, and what reading and
  assigning the fields does.

  The macros compute with compile time slots (\<open>offset\<close>, \<open>bit\<close>, \<open>bitfield_size\<close>). A macro invocation is
  an \<open>item\<close>; \<open>place\<close> is its effect on the slots and the field it declares. The variants
  \<open>_RO\<close>, \<open>PRIVATE_\<close> and \<open>P_\<close> differ in access only.
\<close>

section \<open>Items and slots\<close>

text \<open>The types of fields; \<open>PBytes n\<close> is a parser of \<open>n\<close> bytes that are copied, such as an address.\<close>

datatype parser_type =
    PUInt8 | PUInt16 | PInt16 | PUInt16LSB | PUInt24 | PUInt32 | PUInt32LSB | PUInt64 | PInt64 | PBytes nat

fun type_bytes :: "parser_type \<Rightarrow> nat" where
  "type_bytes PUInt8 = pr_fixed_bytes UInt8Parser"
| "type_bytes PUInt16 = pr_fixed_bytes UInt16Parser"
| "type_bytes PInt16 = pr_fixed_bytes Int16Parser"
| "type_bytes PUInt16LSB = pr_fixed_bytes UInt16LSBParser"
| "type_bytes PUInt24 = pr_fixed_bytes UInt24Parser"
| "type_bytes PUInt32 = pr_fixed_bytes UInt32Parser"
| "type_bytes PUInt32LSB = pr_fixed_bytes UInt32LSBParser"
| "type_bytes PUInt64 = pr_fixed_bytes UInt64Parser"
| "type_bytes PInt64 = pr_fixed_bytes Int64Parser"
| "type_bytes (PBytes n) = n"

datatype bit_type = Signed | Unsigned | Bool

datatype item =
    Field string parser_type
  | Bitfield string nat bit_type
  | Skip nat
  | Skip_bits nat
  | Label string
  | Goto_offset nat
  | Inherit nat

record slots =
  sl_offset :: nat
  sl_bit :: nat
  sl_bitfield_size :: nat

definition no_slots :: slots where
  "no_slots = \<lparr>sl_offset = 0, sl_bit = 0, sl_bitfield_size = 0\<rparr>"

text \<open>A field that is declared: its offset, and its type or the bits of its group.\<close>

datatype accessor = AType parser_type | ABits bit_type nat nat

record placed =
  pl_name :: string
  pl_offset :: nat
  pl_acc :: accessor

definition bitfield_bytes :: "bit_type \<Rightarrow> nat \<Rightarrow> nat \<Rightarrow> nat" where
  "bitfield_bytes ty start bits =
     (case ty of Signed \<Rightarrow> pr_fixed_bytes (IntFieldParser start (start + bits))
      | Unsigned \<Rightarrow> pr_fixed_bytes (UIntFieldParser start (start + bits))
      | Bool \<Rightarrow> pr_fixed_bytes (FlagParser start))"

definition bitfield_reset :: "slots \<Rightarrow> slots" where
  "bitfield_reset s = s\<lparr>sl_bit := 0, sl_bitfield_size := 0\<rparr>"

fun place :: "item \<Rightarrow> slots \<Rightarrow> placed list \<times> slots" where
  "place (Field n ty) s =
     (let s1 = bitfield_reset s
      in ([\<lparr>pl_name = n, pl_offset = sl_offset s1, pl_acc = AType ty\<rparr>], s1\<lparr>sl_offset := sl_offset s1 + type_bytes ty\<rparr>))"
| "place (Bitfield n bits ty) s =
     (let start = sl_bit s; ofs = sl_offset s - sl_bitfield_size s; sz = bitfield_bytes ty start bits
      in ([\<lparr>pl_name = n, pl_offset = ofs, pl_acc = ABits ty start (start + bits)\<rparr>],
          \<lparr>sl_offset = ofs + sz, sl_bit = start + bits, sl_bitfield_size = sz\<rparr>))"
| "place (Skip n) s = ([], (bitfield_reset s)\<lparr>sl_offset := sl_offset s + n\<rparr>)"
| "place (Skip_bits n) s = ([], s\<lparr>sl_bit := sl_bit s + n\<rparr>)"
| "place (Label n) s = ([], bitfield_reset s)"
| "place (Goto_offset n) s = ([], (bitfield_reset s)\<lparr>sl_offset := n\<rparr>)"
| "place (Inherit n) s = ([], s\<lparr>sl_offset := n\<rparr>)"

fun layout :: "item list \<Rightarrow> slots \<Rightarrow> placed list \<times> slots" where
  "layout [] s = ([], s)"
| "layout (it # its) s = (case place it s of (ps, s1) \<Rightarrow> (case layout its s1 of (qs, s2) \<Rightarrow> (ps @ qs, s2)))"

definition fields_of :: "item list \<Rightarrow> placed list" where
  "fields_of its = fst (layout its no_slots)"

definition fixed_bytes :: "item list \<Rightarrow> nat" where
  "fixed_bytes its = sl_offset (snd (layout its no_slots))"

text \<open>
  What the macros ask of a declaration: bit fields have 1 to 32 bits, flags one, a group starts behind
  what is there; \<open>Goto_offset\<close> overlays fields, \<open>Inherit\<close> comes first.
\<close>

fun item_ok :: "item \<Rightarrow> bool" where
  "item_ok (Bitfield n bits ty) \<longleftrightarrow> 0 < bits \<and> bits \<le> 32 \<and> (ty = Bool \<longrightarrow> bits = 1)"
| "item_ok (Goto_offset n) \<longleftrightarrow> False"
| "item_ok (Inherit n) \<longleftrightarrow> False"
| "item_ok _ \<longleftrightarrow> True"

fun declaration_ok :: "item list \<Rightarrow> bool" where
  "declaration_ok (Inherit n # its) = list_all item_ok its"
| "declaration_ok its = list_all item_ok its"

section \<open>No two fields overlap\<close>

fun acc_first :: "accessor \<Rightarrow> nat" where
  "acc_first (AType ty) = 0"
| "acc_first (ABits ty a b) = a"

fun acc_last :: "accessor \<Rightarrow> nat" where
  "acc_last (AType ty) = 8 * type_bytes ty"
| "acc_last (ABits ty a b) = b"

definition pl_first :: "placed \<Rightarrow> nat" where
  "pl_first p = 8 * pl_offset p + acc_first (pl_acc p)"

definition pl_last :: "placed \<Rightarrow> nat" where
  "pl_last p = 8 * pl_offset p + acc_last (pl_acc p)"

text \<open>The first bit that is free, as a bit field and as a field would see it.\<close>

definition slots_ok :: "nat \<Rightarrow> slots \<Rightarrow> bool" where
  "slots_ok free s \<longleftrightarrow> sl_bitfield_size s \<le> sl_offset s \<and> free \<le> 8 * sl_offset s \<and>
     free \<le> 8 * (sl_offset s - sl_bitfield_size s) + sl_bit s"

lemma bitfield_bytes_cover: "0 < bits \<Longrightarrow> (ty = Bool \<Longrightarrow> bits = 1) \<Longrightarrow> start + bits \<le> 8 * bitfield_bytes ty start bits"
proof -
  assume a: "0 < bits" "ty = Bool \<Longrightarrow> bits = 1"
  define e where "e = start + bits - 1"
  have "e < 8 * (e div 8 + 1)" by (simp add: dividend_less_div_times mult.commute)
  moreover have "bitfield_bytes ty start bits = e div 8 + 1"
    using a by (cases ty) (simp_all add: bitfield_bytes_def IntFieldParser_def UIntFieldParser_def FlagParser_def e_def)
  ultimately show ?thesis using a(1) by (simp add: e_def)
qed

text \<open>An item declares at most one field, behind what was there.\<close>

lemma place_behind:
  assumes "place it s = (ps, s1)" "item_ok it" "slots_ok free s"
  shows "\<exists>free1 \<ge> free. slots_ok free1 s1 \<and> length ps \<le> 1 \<and>
    (\<forall>p \<in> set ps. free \<le> pl_first p \<and> pl_first p \<le> pl_last p \<and> pl_last p \<le> free1)"
proof (cases it)
  case (Bitfield n bits ty)
  define f where "f = 8 * (sl_offset s - sl_bitfield_size s) + (sl_bit s + bits)"
  have "sl_bit s + bits \<le> 8 * bitfield_bytes ty (sl_bit s) bits" by (rule bitfield_bytes_cover) (use assms(2) Bitfield in auto)
  then have "slots_ok f s1" "free \<le> f" using assms Bitfield by (auto simp: slots_ok_def f_def Let_def)
  then show ?thesis using assms(1,3) Bitfield by (intro exI [of _ f]) (auto simp: Let_def pl_first_def pl_last_def f_def slots_ok_def)
next
  case (Field n ty)
  then show ?thesis using assms
    by (intro exI [of _ "8 * sl_offset s + 8 * type_bytes ty"])
      (auto simp: Let_def pl_first_def pl_last_def slots_ok_def bitfield_reset_def)
qed (use assms in \<open>auto simp: slots_ok_def bitfield_reset_def intro!: exI [of _ free]\<close>)

lemma layout_behind:
  assumes "layout its s = (ps, s1)" "list_all item_ok its" "slots_ok free s"
  shows "\<exists>free1 \<ge> free. slots_ok free1 s1 \<and> (\<forall>p \<in> set ps. free \<le> pl_first p \<and> pl_last p \<le> free1) \<and>
    sorted_wrt (\<lambda>p q. pl_last p \<le> pl_first q) ps"
  using assms
proof (induction its arbitrary: s ps free)
  case Nil
  then show ?case by auto
next
  case (Cons it its)
  obtain qs s0 rs where l: "place it s = (qs, s0)" "layout its s0 = (rs, s1)" "ps = qs @ rs"
    using Cons.prems(1) by (auto split: prod.splits)
  obtain f where f: "free \<le> f" "slots_ok f s0" "length qs \<le> 1"
    "\<forall>p \<in> set qs. free \<le> pl_first p \<and> pl_first p \<le> pl_last p \<and> pl_last p \<le> f"
    using place_behind [OF l(1) _ Cons.prems(3)] Cons.prems(2) by auto
  obtain g where g: "f \<le> g" "slots_ok g s1" "\<forall>p \<in> set rs. f \<le> pl_first p \<and> pl_last p \<le> g" "sorted_wrt (\<lambda>p q. pl_last p \<le> pl_first q) rs"
    using Cons.IH [OF l(2) _ f(2)] Cons.prems(2) by auto
  have "sorted_wrt (\<lambda>p q. pl_last p \<le> pl_first q) qs" using f(3) by (cases qs) auto
  moreover have "pl_last p \<le> pl_first q" if "p \<in> set qs" "q \<in> set rs" for p q using that f(4) g(3) by (meson order_trans)
  ultimately have "sorted_wrt (\<lambda>p q. pl_last p \<le> pl_first q) ps" using g(4) l(3) by (simp add: sorted_wrt_append)
  moreover have "\<forall>p \<in> set ps. free \<le> pl_first p \<and> pl_last p \<le> g" using f(1,4) g(1,3) l(3) by (auto intro: order_trans)
  ultimately show ?case using f(1) g(1,2) by (intro exI [of _ g]) auto
qed

lemma layout_fields:
  assumes "declaration_ok its"
  shows "sorted_wrt (\<lambda>p q. pl_last p \<le> pl_first q) (fields_of its)" "p \<in> set (fields_of its) \<Longrightarrow> pl_last p \<le> 8 * fixed_bytes its"
proof -
  have "\<exists>its' s. layout its no_slots = layout its' s \<and> list_all item_ok its' \<and> slots_ok (8 * sl_offset s) s"
  proof (cases "\<exists>n its'. its = Inherit n # its'")
    case True
    then obtain n its' where i: "its = Inherit n # its'" by blast
    have "layout its no_slots = layout its' (no_slots\<lparr>sl_offset := n\<rparr>)" by (simp add: i split: prod.splits)
    then show ?thesis using assms i by (intro exI [of _ its'] exI [of _ "no_slots\<lparr>sl_offset := n\<rparr>"]) (simp add: slots_ok_def no_slots_def)
  next
    case False
    then have "list_all item_ok its" using assms by (cases its rule: declaration_ok.cases) auto
    then show ?thesis by (intro exI [of _ its] exI [of _ no_slots]) (simp add: slots_ok_def no_slots_def)
  qed
  then obtain its' s where i: "layout its no_slots = layout its' s" "list_all item_ok its'" "slots_ok (8 * sl_offset s) s" by blast
  obtain ps s1 where l: "layout its' s = (ps, s1)" by fastforce
  obtain f where f: "slots_ok f s1" "\<forall>p \<in> set ps. pl_last p \<le> f" "sorted_wrt (\<lambda>p q. pl_last p \<le> pl_first q) ps"
    using layout_behind [OF l i(2,3)] by blast
  have "f \<le> 8 * fixed_bytes its" using f(1) by (simp add: fixed_bytes_def i(1) l slots_ok_def)
  then show "p \<in> set (fields_of its) \<Longrightarrow> pl_last p \<le> 8 * fixed_bytes its" using f(2) by (auto simp: fields_of_def i(1) l)
  show "sorted_wrt (\<lambda>p q. pl_last p \<le> pl_first q) (fields_of its)" using f(3) by (simp add: fields_of_def i(1) l)
qed

section \<open>Reading and assigning a field\<close>

text \<open>
  A field is read and assigned through the parser of its type at its offset. Integers are given as
  \<open>int\<close>: what is assigned is converted to the value type of the parser, what is read has the sign of it.
\<close>

datatype field_value = VNum int | VBytes "byte list"

fun acc_read :: "accessor \<Rightarrow> byte list \<Rightarrow> nat \<Rightarrow> field_value" where
  "acc_read (AType PUInt8) bs i = VNum (uint (pr_value UInt8Parser bs i))"
| "acc_read (AType PUInt16) bs i = VNum (uint (pr_value UInt16Parser bs i))"
| "acc_read (AType PInt16) bs i = VNum (sint (pr_value Int16Parser bs i))"
| "acc_read (AType PUInt16LSB) bs i = VNum (uint (pr_value UInt16LSBParser bs i))"
| "acc_read (AType PUInt24) bs i = VNum (uint (pr_value UInt24Parser bs i))"
| "acc_read (AType PUInt32) bs i = VNum (uint (pr_value UInt32Parser bs i))"
| "acc_read (AType PUInt32LSB) bs i = VNum (uint (pr_value UInt32LSBParser bs i))"
| "acc_read (AType PUInt64) bs i = VNum (uint (pr_value UInt64Parser bs i))"
| "acc_read (AType PInt64) bs i = VNum (sint (pr_value Int64Parser bs i))"
| "acc_read (AType (PBytes n)) bs i = VBytes (take n (drop i bs))"
| "acc_read (ABits Signed a b) bs i = VNum (sint (pr_value (IntFieldParser a b) bs i))"
| "acc_read (ABits Unsigned a b) bs i = VNum (uint (pr_value (UIntFieldParser a b) bs i))"
| "acc_read (ABits Bool a b) bs i = VNum (of_bool (pr_value (FlagParser a) bs i))"

fun acc_write :: "accessor \<Rightarrow> byte list \<Rightarrow> nat \<Rightarrow> field_value \<Rightarrow> byte list" where
  "acc_write (AType PUInt8) bs i (VNum z) = pr_assign UInt8Parser bs i (word_of_int z)"
| "acc_write (AType PUInt16) bs i (VNum z) = pr_assign UInt16Parser bs i (word_of_int z)"
| "acc_write (AType PInt16) bs i (VNum z) = pr_assign Int16Parser bs i (word_of_int z)"
| "acc_write (AType PUInt16LSB) bs i (VNum z) = pr_assign UInt16LSBParser bs i (word_of_int z)"
| "acc_write (AType PUInt24) bs i (VNum z) = pr_assign UInt24Parser bs i (word_of_int z)"
| "acc_write (AType PUInt32) bs i (VNum z) = pr_assign UInt32Parser bs i (word_of_int z)"
| "acc_write (AType PUInt32LSB) bs i (VNum z) = pr_assign UInt32LSBParser bs i (word_of_int z)"
| "acc_write (AType PUInt64) bs i (VNum z) = pr_assign UInt64Parser bs i (word_of_int z)"
| "acc_write (AType PInt64) bs i (VNum z) = pr_assign Int64Parser bs i (word_of_int z)"
| "acc_write (AType (PBytes n)) bs i (VBytes xs) = write_at i (take n xs) bs"
| "acc_write (ABits Signed a b) bs i (VNum z) = pr_assign (IntFieldParser a b) bs i (word_of_int z)"
| "acc_write (ABits Unsigned a b) bs i (VNum z) = pr_assign (UIntFieldParser a b) bs i (word_of_int z)"
| "acc_write (ABits Bool a b) bs i (VNum z) = pr_assign (FlagParser a) bs i (z \<noteq> 0)"
| "acc_write _ bs i _ = bs"

text \<open>The values a field can hold.\<close>

fun acc_fits :: "accessor \<Rightarrow> field_value \<Rightarrow> bool" where
  "acc_fits (AType PInt16) (VNum z) \<longleftrightarrow> - (2 ^ 15) \<le> z \<and> z < 2 ^ 15"
| "acc_fits (AType PInt64) (VNum z) \<longleftrightarrow> - (2 ^ 63) \<le> z \<and> z < 2 ^ 63"
| "acc_fits (AType (PBytes n)) (VBytes xs) \<longleftrightarrow> length xs = n"
| "acc_fits (AType (PBytes n)) (VNum z) \<longleftrightarrow> False"
| "acc_fits (AType ty) (VNum z) \<longleftrightarrow> 0 \<le> z \<and> z < 2 ^ (8 * type_bytes ty)"
| "acc_fits (ABits Signed a b) (VNum z) \<longleftrightarrow> - (2 ^ (b - a - 1)) \<le> z \<and> z < 2 ^ (b - a - 1)"
| "acc_fits (ABits Unsigned a b) (VNum z) \<longleftrightarrow> 0 \<le> z \<and> z < 2 ^ (b - a)"
| "acc_fits (ABits Bool a b) (VNum z) \<longleftrightarrow> z = 0 \<or> z = 1"
| "acc_fits _ (VBytes xs) \<longleftrightarrow> False"

fun acc_ok :: "accessor \<Rightarrow> bool" where
  "acc_ok (AType ty) \<longleftrightarrow> True"
| "acc_ok (ABits ty a b) \<longleftrightarrow> a < b \<and> b - a \<le> 32 \<and> (ty = Bool \<longrightarrow> b = Suc a)"

text \<open>A field lies in the packet.\<close>

definition acc_in :: "accessor \<Rightarrow> byte list \<Rightarrow> nat \<Rightarrow> bool" where
  "acc_in a bs i \<longleftrightarrow> 8 * i + acc_last a \<le> 8 * length bs"

lemma netbit_write_at:
  assumes "i + length ys \<le> length bs" "k < 8 * i \<or> 8 * (i + length ys) \<le> k"
  shows "netbit (write_at i ys bs) k = netbit bs k"
proof -
  have "k div 8 < i \<or> i + length ys \<le> k div 8" using assms(2) by auto
  then have "write_at i ys bs ! (k div 8) = bs ! (k div 8)" if "k div 8 < length bs" using that assms(1) by (auto simp: write_at_def nth_append)
  then show ?thesis using assms(1) by (auto simp: netbit_def)
qed

lemmas parser_consts =
  UInt8Parser_def UInt16Parser_def Int16Parser_def UInt16LSBParser_def UInt24Parser_def UInt32Parser_def UInt32LSBParser_def
  UInt64Parser_def Int64Parser_def

lemma field_bytes_in:
  assumes "acc_ok (ABits ty a b)" "acc_in (ABits ty a b) bs i"
  shows "i + ((b - 1) div 8 + 1) \<le> length bs"
proof -
  have "8 * i + (b - 1) < 8 * length bs" using assms by (auto simp: acc_in_def)
  then have "i + (b - 1) div 8 < length bs" by auto
  then show ?thesis by simp
qed

text \<open>What a field reads depends on its bits only.\<close>

lemma acc_read_local:
  assumes "acc_ok a" "acc_in a bs i" "length cs = length bs"
    and eq: "\<And>k. 8 * i + acc_first a \<le> k \<Longrightarrow> k < 8 * i + acc_last a \<Longrightarrow> netbit cs k = netbit bs k"
  shows "acc_read a cs i = acc_read a bs i"
proof (cases a)
  case (AType ty)
  have i: "i + type_bytes ty \<le> length bs" using assms(2) by (simp add: AType acc_in_def)
  show ?thesis
  proof (cases ty)
    case (PBytes n)
    have "take n (drop i cs) = take n (drop i bs)"
    proof (rule netbit_ext)
      fix k
      have b: "netbit (take n (drop i xs)) k \<longleftrightarrow> k < 8 * n \<and> netbit xs (8 * i + k)" if "i + n \<le> length xs" for xs :: "byte list"
      proof -
        have "(8 * i + k) div 8 = i + k div 8" "(8 * i + k) mod 8 = k mod 8" by simp_all
        then show ?thesis using that by (auto simp: netbit_def)
      qed
      show "netbit (take n (drop i cs)) k = netbit (take n (drop i bs)) k"
        using b [of cs] b [of bs] i assms(3) eq [of "8 * i + k"] by (auto simp: AType PBytes)
    qed (use assms(3) in simp)
    then show ?thesis by (simp add: AType PBytes)
  qed (use i eq u8.value_local [of i bs cs] u16.value_local [of i bs cs] s16.signed.value_local [of i bs cs] l16.value_local [of i bs cs]
      u24.value_local [of i bs cs] u32.value_local [of i bs cs] l32.value_local [of i bs cs] u64.value_local [of i bs cs]
      s64.signed.value_local [of i bs cs] assms(3) in \<open>simp_all add: AType parser_consts\<close>)
next
  case (ABits ty x y)
  have i: "i + ((y - 1) div 8 + 1) \<le> length bs" using field_bytes_in assms(1,2) by (simp add: ABits)
  show ?thesis
  proof (cases ty)
    case Signed
    then show ?thesis using sfield.signed.value_local [of x y i bs cs] i eq assms(1,3) by (simp add: ABits IntFieldParser_def)
  next
    case Unsigned
    then show ?thesis using ufield.value_local [of x y i bs cs] i eq assms(1,3) by (simp add: ABits UIntFieldParser_def)
  next
    case Bool
    then show ?thesis using flag.value_local [of x i bs cs] i eq assms(1,3) by (simp add: ABits FlagParser_def)
  qed
qed

text \<open>Assigning a value that fits changes the bits of the field only.\<close>

lemma acc_write_frame:
  assumes "acc_ok a" "acc_in a bs i" "acc_fits a v"
  shows "length (acc_write a bs i v) = length bs"
    and "k < 8 * i + acc_first a \<or> 8 * i + acc_last a \<le> k \<Longrightarrow> netbit (acc_write a bs i v) k = netbit bs k"
proof -
  have "length (acc_write a bs i v) = length bs \<and>
    (k < 8 * i + acc_first a \<or> 8 * i + acc_last a \<le> k \<longrightarrow> netbit (acc_write a bs i v) k = netbit bs k)"
  proof (cases a)
    case (AType ty)
    have i: "i + type_bytes ty \<le> length bs" using assms(2) by (simp add: AType acc_in_def)
    show ?thesis
    proof (cases ty)
      case (PBytes n)
      then obtain xs where "v = VBytes xs" "length xs = n" using assms(3) by (cases v) (auto simp: AType)
      then show ?thesis using netbit_write_at [of i xs bs k] i by (simp add: AType PBytes)
    qed (use i assms(3) u8.assign_frame [of i bs k] u16.assign_frame [of i bs k] s16.signed.assign_frame [of i bs k] l16.assign_frame [of i bs k]
        u24.assign_frame [of i bs k] u32.assign_frame [of i bs k] l32.assign_frame [of i bs k] u64.assign_frame [of i bs k]
        s64.signed.assign_frame [of i bs k] u8.len u16.len s16.signed.length_assign l16.len u24.len u32.len l32.len u64.len
        s64.signed.length_assign in \<open>cases v; simp add: AType parser_consts\<close>)+
  next
    case (ABits ty x y)
    have i: "i + ((y - 1) div 8 + 1) \<le> length bs" using field_bytes_in assms(1,2) by (simp add: ABits)
    obtain z where v: "v = VNum z" using assms(3) by (cases v) (auto simp: ABits)
    show ?thesis
    proof (cases ty)
      case Signed
      then show ?thesis using sfield.signed.assign_frame [of x y i bs k] sfield.signed.length_assign [of x y] i assms(1)
        by (simp add: ABits v IntFieldParser_def)
    next
      case Unsigned
      then show ?thesis using ufield.assign_frame [of x y i bs k] ufield.len [of x y] i assms(1) by (simp add: ABits v UIntFieldParser_def)
    next
      case Bool
      then show ?thesis using flag.assign_frame [of x i bs k] flag.length_assign [of x] i assms(1) by (simp add: ABits v FlagParser_def)
    qed
  qed
  then show "length (acc_write a bs i v) = length bs"
    and "k < 8 * i + acc_first a \<or> 8 * i + acc_last a \<le> k \<Longrightarrow> netbit (acc_write a bs i v) k = netbit bs k" by blast+
qed

text \<open>A value that fits is read back.\<close>

lemma uint_of_fitting: "0 \<le> z \<Longrightarrow> z < 2 ^ n \<Longrightarrow> n \<le> LENGTH('a) \<Longrightarrow>
  take_bit n (word_of_int z :: 'a::len word) = word_of_int z \<and> uint (word_of_int z :: 'a word) = z"
proof -
  assume a: "0 \<le> z" "z < 2 ^ n" "n \<le> LENGTH('a)"
  have "z < 2 ^ LENGTH('a)" using a(2,3) by (meson one_le_numeral order_less_le_trans power_increasing)
  then have u: "uint (word_of_int z :: 'a word) = z" using a(1) by (simp add: unsigned_of_int take_bit_int_eq_self_iff)
  have "uint (take_bit n (word_of_int z :: 'a word)) = take_bit n z" using a(3) u by (simp add: unsigned_take_bit_eq)
  also have "\<dots> = z" using a(1,2) by (simp add: take_bit_int_eq_self_iff)
  finally show ?thesis using u by (metis word_uint_eq_iff)
qed

lemma sint_of_fitting: "- (2 ^ n) \<le> z \<Longrightarrow> z < 2 ^ n \<Longrightarrow> n < LENGTH('a) \<Longrightarrow>
  signed_take_bit n (word_of_int z :: 'a::len word) = word_of_int z \<and> sint (word_of_int z :: 'a word) = z"
proof -
  assume a: "- (2 ^ n) \<le> z" "z < 2 ^ n" "n < LENGTH('a)"
  have z: "signed_take_bit n z = z" using a(1,2) by (simp add: signed_take_bit_int_eq_self_iff)
  have "(2 :: int) ^ n \<le> 2 ^ (LENGTH('a) - 1)" using a(3) by (intro power_increasing) auto
  then have "- (2 ^ (LENGTH('a) - 1)) \<le> z \<and> z < 2 ^ (LENGTH('a) - 1)" using a(1,2) by linarith
  then have "sint (word_of_int z :: 'a word) = z" by (simp add: signed_of_int signed_take_bit_int_eq_self_iff)
  moreover have "signed_take_bit n (word_of_int z :: 'a word) = word_of_int z"
  proof (rule bit_word_eqI)
    fix j assume "j < LENGTH('a)"
    then show "bit (signed_take_bit n (word_of_int z :: 'a word)) j = bit (word_of_int z :: 'a word) j"
      using z a(3) by (metis bit_signed_take_bit_iff bit_word_of_int_iff min.strict_coboundedI2 min_less_iff_disj possible_bit_int possible_bit_word)
  qed
  ultimately show ?thesis by blast
qed

lemma acc_read_write:
  assumes "acc_ok a" "acc_in a bs i" "acc_fits a v"
  shows "acc_read a (acc_write a bs i v) i = v"
proof (cases a)
  case (AType ty)
  have i: "i + type_bytes ty \<le> length bs" using assms(2) by (simp add: AType acc_in_def)
  show ?thesis
  proof (cases ty)
    case (PBytes n)
    then obtain xs where "v = VBytes xs" "length xs = n" using assms(3) by (cases v) (auto simp: AType)
    then show ?thesis using i by (simp add: AType PBytes write_at_def)
  next
    case PUInt8 with i assms(3) u8.value_assign [of i bs] uint_of_fitting [of _ 8, where 'a = 8] show ?thesis
      by (cases v) (simp_all add: AType UInt8Parser_def)
  next
    case PUInt16 with i assms(3) u16.value_assign [of i bs] uint_of_fitting [of _ 16, where 'a = 16] show ?thesis
      by (cases v) (simp_all add: AType UInt16Parser_def)
  next
    case PInt16 with i assms(3) s16.signed.value_assign [of i bs] sint_of_fitting [of 15, where 'a = 16] show ?thesis
      by (cases v) (simp_all add: AType Int16Parser_def)
  next
    case PUInt16LSB with i assms(3) l16.value_assign [of i bs] uint_of_fitting [of _ 16, where 'a = 16] show ?thesis
      by (cases v) (simp_all add: AType UInt16LSBParser_def)
  next
    case PUInt24 with i assms(3) u24.value_assign [of i bs] uint_of_fitting [of _ 24, where 'a = 32] show ?thesis
      by (cases v) (simp_all add: AType UInt24Parser_def)
  next
    case PUInt32 with i assms(3) u32.value_assign [of i bs] uint_of_fitting [of _ 32, where 'a = 32] show ?thesis
      by (cases v) (simp_all add: AType UInt32Parser_def)
  next
    case PUInt32LSB with i assms(3) l32.value_assign [of i bs] uint_of_fitting [of _ 32, where 'a = 32] show ?thesis
      by (cases v) (simp_all add: AType UInt32LSBParser_def)
  next
    case PUInt64 with i assms(3) u64.value_assign [of i bs] uint_of_fitting [of _ 64, where 'a = 64] show ?thesis
      by (cases v) (simp_all add: AType UInt64Parser_def)
  next
    case PInt64 with i assms(3) s64.signed.value_assign [of i bs] sint_of_fitting [of 63, where 'a = 64] show ?thesis
      by (cases v) (simp_all add: AType Int64Parser_def)
  qed
next
  case (ABits ty x y)
  have i: "i + ((y - 1) div 8 + 1) \<le> length bs" using field_bytes_in assms(1,2) by (simp add: ABits)
  obtain z where v: "v = VNum z" using assms(3) by (cases v) (auto simp: ABits)
  show ?thesis
  proof (cases ty)
    case Signed
    moreover have "y - Suc x < 32" using assms(1) by (auto simp: ABits)
    ultimately show ?thesis using sfield.signed.value_assign [of x y i bs "word_of_int z"] sint_of_fitting [of "y - x - 1" z, where 'a = 32] i assms(1,3)
      by (simp add: ABits v IntFieldParser_def)
  next
    case Unsigned
    then show ?thesis using ufield.value_assign [of x y i bs "word_of_int z"] uint_of_fitting [of z "y - x", where 'a = 32] i assms(1,3)
      by (simp add: ABits v UIntFieldParser_def)
  next
    case Bool
    then show ?thesis using flag.value_assign [of x i bs "z \<noteq> 0"] i assms(1,3) by (auto simp: ABits v FlagParser_def)
  qed
qed

section \<open>The fields of a parser are independent\<close>

definition field_get :: "placed \<Rightarrow> byte list \<Rightarrow> nat \<Rightarrow> field_value" where
  "field_get p bs i = acc_read (pl_acc p) bs (i + pl_offset p)"

definition field_set :: "placed \<Rightarrow> byte list \<Rightarrow> nat \<Rightarrow> field_value \<Rightarrow> byte list" where
  "field_set p bs i v = acc_write (pl_acc p) bs (i + pl_offset p) v"

lemma layout_acc_ok: "layout its s = (ps, s1) \<Longrightarrow> list_all item_ok its \<Longrightarrow> p \<in> set ps \<Longrightarrow> acc_ok (pl_acc p)"
proof (induction its arbitrary: s ps)
  case (Cons it its)
  obtain qs s0 rs where l: "place it s = (qs, s0)" "layout its s0 = (rs, s1)" "ps = qs @ rs"
    using Cons.prems(1) by (auto split: prod.splits)
  have "acc_ok (pl_acc q)" if "q \<in> set qs" for q
    using l(1) Cons.prems(2) that by (cases it) (auto simp: Let_def)
  then show ?case using Cons.IH [OF l(2)] Cons.prems(2,3) l(3) by auto
qed simp

lemma fields_acc_ok:
  assumes "declaration_ok its" "p \<in> set (fields_of its)"
  shows "acc_ok (pl_acc p)"
proof (cases "\<exists>n its'. its = Inherit n # its'")
  case True
  then obtain n its' where i: "its = Inherit n # its'" by blast
  have "fields_of its = fst (layout its' (no_slots\<lparr>sl_offset := n\<rparr>))" by (simp add: i fields_of_def split: prod.splits)
  then show ?thesis using assms i layout_acc_ok [of its' "no_slots\<lparr>sl_offset := n\<rparr>"] by (metis declaration_ok.simps(1) prod.collapse)
next
  case False
  then have "list_all item_ok its" using assms by (cases its rule: declaration_ok.cases) auto
  then show ?thesis using assms(2) layout_acc_ok [of its no_slots] by (metis fields_of_def prod.collapse)
qed


text \<open>
  Bits that are skipped at the end of a group take part in the size only as far as the last field of the
  group reaches: behind a field of four bits, \<open>SENF_PARSER_SKIP_BITS\<close> of twelve more reserves nothing, and
  skipped bits alone reserve no byte.
\<close>

lemma trailing_skip_bits:
  "fixed_bytes [Bitfield ''flags'' 4 Unsigned, Skip_bits 12] = 1" "fixed_bytes [Skip_bits 8, Field ''value'' PUInt8] = 1"
  by (simp_all add: fixed_bytes_def no_slots_def Let_def bitfield_bytes_def UIntFieldParser_def bitfield_reset_def UInt8Parser_def)

end
