(* ===== verification/Eth_Fragment.thy ===== *)
theory Eth_Fragment
  imports Senf_Prelude
begin

text \<open>
  Fragmentation of Ethernet frames in the network emulator: \<open>senf/Ext/NetEmu/Ethernet\<close>
  (\<open>EthernetFragmenter.cc\<close>, \<open>EthernetReassembler.cc\<close>, \<open>EthernetFragmentPacket.hh\<close>).

  A frame is its header, the VLAN tag if it has one, and its payload; a fragment carries the header
  of the frame it belongs to and the members of the fragment header. \<open>junk\<close> stands for the contents
  of memory that the code does not initialise.
\<close>

section \<open>Frames\<close>

type_synonym bytes = "8 word list"

record eth =
  et_destination :: "48 word"
  et_source :: "48 word"
  et_type :: "16 word"
  et_vlan :: "(16 word \<times> 16 word) option"
  et_payload :: bytes

record fragment =
  fg_fragmentNr :: nat
  fg_moreFragment :: bool
  fg_size :: nat
  fg_type_length :: "16 word"
  fg_data :: bytes

text \<open>A frame on the wire is a plain one, or an extension frame that carries a fragment.\<close>

datatype frame = Plain eth | Fragment eth fragment

definition vlan_etherType :: "16 word" where "vlan_etherType = 0x8100"
definition oui_etherType :: "16 word" where "oui_etherType = 0x88b7"

definition eth_bytes :: nat where "eth_bytes = 14"
definition vlan_bytes :: nat where "vlan_bytes = 4"
definition oui_bytes :: nat where "oui_bytes = 5"
definition fragment_bytes :: nat where "fragment_bytes = 5"
definition minPayloadSize :: nat where "minPayloadSize = 60"

lemmas fragment_sizes = eth_bytes_def vlan_bytes_def oui_bytes_def fragment_bytes_def minPayloadSize_def

text \<open>The tag is there exactly when the type says so.\<close>

definition eth_wf :: "eth \<Rightarrow> bool" where
  "eth_wf e \<longleftrightarrow> (et_vlan e \<noteq> None) = (et_type e = vlan_etherType)"

definition vlanPresent :: "eth \<Rightarrow> bool" where
  "vlanPresent e \<longleftrightarrow> et_type e = vlan_etherType"

definition eth_size :: "eth \<Rightarrow> nat" where
  "eth_size e = eth_bytes + (if et_vlan e = None then 0 else vlan_bytes) + length (et_payload e)"

definition inner_type :: "eth \<Rightarrow> 16 word" where
  "inner_type e = (case et_vlan e of None \<Rightarrow> et_type e | Some (_, t) \<Rightarrow> t)"

definition set_inner_type :: "16 word \<Rightarrow> eth \<Rightarrow> eth" where
  "set_inner_type t e = (case et_vlan e of None \<Rightarrow> e\<lparr>et_type := t\<rparr> | Some (tci, _) \<Rightarrow> e\<lparr>et_vlan := Some (tci, t)\<rparr>)"

section \<open>Fragmenter\<close>

definition fragmentationRequired :: "eth \<Rightarrow> nat \<Rightarrow> bool" where
  "fragmentationRequired e threshold \<longleftrightarrow>
     eth_size e - eth_bytes - (if vlanPresent e then vlan_bytes else 0) > threshold"

text \<open>The room for payload in a fragment; the subtraction is one of 64 bit unsigned integers.\<close>

definition fragment_room :: "nat \<Rightarrow> nat" where
  "fragment_room threshold = nat ((int threshold - int oui_bytes - int fragment_bytes) mod 2 ^ 64)"

definition fragment_padding :: "eth \<Rightarrow> nat \<Rightarrow> nat" where
  "fragment_padding e n =
     minPayloadSize - (eth_bytes + (if vlanPresent e then vlan_bytes else 0) + oui_bytes + fragment_bytes + n)"

text \<open>One round of the loop: the fragment for the payload from \<open>rest\<close> on. The number has 7 bits, the size 16.\<close>

definition make_fragment :: "(nat \<Rightarrow> bytes) \<Rightarrow> eth \<Rightarrow> nat \<Rightarrow> nat \<Rightarrow> nat \<Rightarrow> bytes \<Rightarrow> frame" where
  "make_fragment junk e payloadSize threshold nr rest =
     (let n = min (length rest) (fragment_room threshold)
      in Fragment (set_inner_type oui_etherType (e\<lparr>et_payload := []\<rparr>))
           \<lparr>fg_fragmentNr = nr mod 2 ^ 7, fg_moreFragment = (drop n rest \<noteq> []),
            fg_size = (if nr = 1 then payloadSize else n) mod 2 ^ 16, fg_type_length = inner_type e,
            fg_data = take n rest @ junk (fragment_padding e n)\<rparr>)"

fun fragment_loop :: "(nat \<Rightarrow> bytes) \<Rightarrow> nat \<Rightarrow> eth \<Rightarrow> nat \<Rightarrow> nat \<Rightarrow> nat \<Rightarrow> bytes \<Rightarrow> frame list option" where
  "fragment_loop junk 0 e payloadSize threshold nr rest = None"
| "fragment_loop junk (Suc k) e payloadSize threshold nr rest =
     (let f = make_fragment junk e payloadSize threshold nr rest;
          rest' = drop (min (length rest) (fragment_room threshold)) rest
      in if rest' = [] then Some [f]
         else map_option (\<lambda>fs. f # fs) (fragment_loop junk k e payloadSize threshold (nr + 1) rest'))"

record fragmenter =
  fr_fragmentationCount :: "32 word"
  fr_fragments :: "frame list"

definition do_fragmentFrame :: "(nat \<Rightarrow> bytes) \<Rightarrow> nat \<Rightarrow> eth \<Rightarrow> nat \<Rightarrow> frame list option" where
  "do_fragmentFrame junk k e threshold =
     fragment_loop junk k e (eth_size e - eth_bytes) threshold 1 (et_payload e)"

definition fragmentFrame :: "(nat \<Rightarrow> bytes) \<Rightarrow> nat \<Rightarrow> eth \<Rightarrow> nat \<Rightarrow> fragmenter \<Rightarrow> fragmenter option" where
  "fragmentFrame junk k e threshold s =
     map_option (\<lambda>fs. \<lparr>fr_fragmentationCount = fr_fragmentationCount s + 1, fr_fragments = fs\<rparr>)
       (do_fragmentFrame junk k e threshold)"

definition fragmentationCount :: "fragmenter \<Rightarrow> 32 word \<times> fragmenter" where
  "fragmentationCount s = (fr_fragmentationCount s, s\<lparr>fr_fragmentationCount := 0\<rparr>)"

text \<open>The module keeps a threshold per destination, never below 576.\<close>

record fragmenter_module =
  fm_defaultFragThresh :: nat
  fm_fragThreshMap :: "48 word \<rightharpoonup> nat"
  fm_bypass :: bool

definition set_fragmentationThreshold :: "nat \<Rightarrow> 48 word \<Rightarrow> fragmenter_module \<Rightarrow> fragmenter_module" where
  "set_fragmentationThreshold threshold dst s =
     (if dst = 0
      then (if threshold > 0 then s\<lparr>fm_defaultFragThresh := max 576 threshold, fm_fragThreshMap := Map.empty\<rparr>
            else s\<lparr>fm_fragThreshMap := Map.empty\<rparr>)
      else let m = (fm_fragThreshMap s)(dst := None)
           in s\<lparr>fm_fragThreshMap := (if threshold > 0 then m(dst \<mapsto> max 576 threshold) else m)\<rparr>)"

definition fragmentationThreshold :: "48 word \<Rightarrow> fragmenter_module \<Rightarrow> nat" where
  "fragmentationThreshold dst s = (case fm_fragThreshMap s dst of Some t \<Rightarrow> t | None \<Rightarrow> fm_defaultFragThresh s)"

definition fm_reset :: "fragmenter_module \<Rightarrow> fragmenter_module" where
  "fm_reset s = s\<lparr>fm_fragThreshMap := Map.empty, fm_bypass := False\<rparr>"

definition fm_onRequest :: "(nat \<Rightarrow> bytes) \<Rightarrow> nat \<Rightarrow> fragmenter_module \<Rightarrow> eth \<Rightarrow> frame list option" where
  "fm_onRequest junk k s e =
     (if fm_bypass s then Some [Plain e]
      else if fragmentationRequired e (fragmentationThreshold (et_destination e) s)
      then do_fragmentFrame junk k e (fragmentationThreshold (et_destination e) s)
      else Some [Plain e])"

section \<open>Reassembler\<close>

text \<open>The packet being reassembled and the position \<open>payloadIter_\<close> in its payload, if it refers to one.\<close>

record reassembler =
  rs_nextFragmentNr :: "8 word"
  rs_packet :: eth
  rs_pos :: "nat option"
  rs_packetsUnfragmented :: "32 word"
  rs_packetsReassembled :: "32 word"
  rs_fragmentsInvalid :: "32 word"
  rs_fragmentsProcessed :: "32 word"

text \<open>Writing behind the end of the payload, or through an iterator of a packet that is gone, is not defined.\<close>

datatype reassembly_error = WriteBehindEnd | InvalidIterator

definition null_eth :: eth where
  "null_eth = \<lparr>et_destination = 0, et_source = 0, et_type = 0, et_vlan = None, et_payload = []\<rparr>"

definition reassembler_init :: reassembler where
  "reassembler_init = \<lparr>rs_nextFragmentNr = 1, rs_packet = null_eth, rs_pos = None, rs_packetsUnfragmented = 0,
     rs_packetsReassembled = 0, rs_fragmentsInvalid = 0, rs_fragmentsProcessed = 0\<rparr>"

fun isFragmentedPacket :: "frame \<Rightarrow> bool" where
  "isFragmentedPacket (Plain e) = False"
| "isFragmentedPacket (Fragment e f) \<longleftrightarrow> et_type e = oui_etherType \<or> et_type e = vlan_etherType \<and> inner_type e = oui_etherType"

definition start_packet :: "(nat \<Rightarrow> bytes) \<Rightarrow> eth \<Rightarrow> fragment \<Rightarrow> reassembler \<Rightarrow> reassembler" where
  "start_packet junk e f s =
     s\<lparr>rs_packet := (set_inner_type (fg_type_length f) e)\<lparr>et_payload := junk (fg_size f)\<rparr>, rs_pos := Some 0\<rparr>"

definition copy_payload :: "fragment \<Rightarrow> reassembler \<Rightarrow> reassembly_error + reassembler" where
  "copy_payload f s =
     (let d = take (min (fg_size f) (length (fg_data f))) (fg_data f)
      in case rs_pos s of None \<Rightarrow> Inl InvalidIterator
         | Some i \<Rightarrow>
             if i + length d > length (et_payload (rs_packet s)) then Inl WriteBehindEnd
             else Inr (s\<lparr>rs_packet := (rs_packet s)\<lparr>et_payload := write_at i d (et_payload (rs_packet s))\<rparr>,
                         rs_pos := Some (i + length d)\<rparr>))"

definition finish_fragment :: "fragment \<Rightarrow> reassembler \<Rightarrow> bool \<times> reassembler" where
  "finish_fragment f s =
     (let s1 = s\<lparr>rs_nextFragmentNr := of_nat (fg_fragmentNr f) + 1\<rparr>
      in if \<not> fg_moreFragment f
         then (True, s1\<lparr>rs_nextFragmentNr := 1, rs_packetsReassembled := rs_packetsReassembled s1 + 1\<rparr>)
         else (False, s1))"

fun processFrame :: "(nat \<Rightarrow> bytes) \<Rightarrow> frame \<Rightarrow> reassembler \<Rightarrow> reassembly_error + bool \<times> reassembler" where
  "processFrame junk (Plain e) s = Inr (True, s\<lparr>rs_packet := e, rs_pos := None, rs_packetsUnfragmented := rs_packetsUnfragmented s + 1\<rparr>)"
| "processFrame junk (Fragment e f) s =
     (let nr = (of_nat (fg_fragmentNr f) :: 8 word);
          s1 = (if nr \<noteq> rs_nextFragmentNr s then s\<lparr>rs_fragmentsInvalid := rs_fragmentsInvalid s + 1\<rparr> else s)
      in if nr \<noteq> rs_nextFragmentNr s \<and> nr \<noteq> 1 then Inr (False, s1)
         else let s2 = s1\<lparr>rs_fragmentsProcessed := rs_fragmentsProcessed s1 + 1\<rparr>;
                  s3 = (if nr = 1 then start_packet junk e f s2 else s2)
              in (case copy_payload f s3 of Inl x \<Rightarrow> Inl x | Inr s4 \<Rightarrow> Inr (finish_fragment f s4)))"

text \<open>The module: the frames it outputs for a frame it receives.\<close>

definition rm_onRequest :: "(nat \<Rightarrow> bytes) \<Rightarrow> frame \<Rightarrow> reassembler \<Rightarrow> reassembly_error + frame list \<times> reassembler" where
  "rm_onRequest junk fr s =
     (if isFragmentedPacket fr
      then (case processFrame junk fr s of Inl x \<Rightarrow> Inl x
            | Inr (done, s1) \<Rightarrow> Inr (if done then [Plain (rs_packet s1)] else [], s1))
      else Inr ([fr], s))"

fun rm_run :: "(nat \<Rightarrow> bytes) \<Rightarrow> frame list \<Rightarrow> reassembler \<Rightarrow> reassembly_error + frame list \<times> reassembler" where
  "rm_run junk [] s = Inr ([], s)"
| "rm_run junk (fr # frs) s =
     (case rm_onRequest junk fr s of Inl x \<Rightarrow> Inl x
      | Inr (out, s1) \<Rightarrow> (case rm_run junk frs s1 of Inl x \<Rightarrow> Inl x | Inr (outs, s2) \<Rightarrow> Inr (out @ outs, s2)))"

section \<open>Reassembly undoes fragmentation\<close>

lemma fragment_room_eq: "10 \<le> t \<Longrightarrow> t < 2 ^ 64 \<Longrightarrow> fragment_room t = t - 10"
  by (simp add: fragment_room_def fragment_sizes)

lemma set_inner_type_simps [simp]:
  "et_payload (set_inner_type t e) = et_payload e" "et_destination (set_inner_type t e) = et_destination e"
  "set_inner_type t (set_inner_type u e) = set_inner_type t e" "set_inner_type (inner_type e) e = e"
  "inner_type (set_inner_type t e) = t" "inner_type (e\<lparr>et_payload := b\<rparr>) = inner_type e"
  "set_inner_type t (e\<lparr>et_payload := b\<rparr>) = (set_inner_type t e)\<lparr>et_payload := b\<rparr>"
  by (auto simp: set_inner_type_def inner_type_def split: option.splits)

lemma fragment_frame_recognised:
  assumes "eth_wf e"
  shows "isFragmentedPacket (Fragment (set_inner_type oui_etherType (e\<lparr>et_payload := b\<rparr>)) f)"
  using assms by (auto simp: eth_wf_def set_inner_type_def inner_type_def oui_etherType_def vlan_etherType_def split: option.splits)

text \<open>The loop ends when a fragment has room for payload.\<close>

lemma fragment_loop_ends:
  assumes "0 < fragment_room t" "length rest \<le> k" "0 < k"
  shows "\<exists>fs. fragment_loop junk k e ps t nr rest = Some fs"
  using assms(2,3)
proof (induction k arbitrary: nr rest)
  case (Suc k)
  let ?n = "min (length rest) (fragment_room t)"
  show ?case
  proof (cases "drop ?n rest = []")
    case False
    then have "length (drop ?n rest) \<le> k" "0 < k" using assms(1) Suc.prems(1) by auto
    from Suc.IH [OF this] obtain fs where "fragment_loop junk k e ps t (nr + 1) (drop ?n rest) = Some fs" by blast
    then show ?thesis using False by (simp add: Let_def)
  qed (simp add: Let_def)
qed simp

text \<open>The reassembler in the middle of a packet: \<open>got\<close> is what it has, \<open>nr\<close> the fragment it waits for.\<close>

definition collecting :: "eth \<Rightarrow> nat \<Rightarrow> bytes \<Rightarrow> bytes \<Rightarrow> reassembler \<Rightarrow> bool" where
  "collecting e nr got buf s \<longleftrightarrow> rs_nextFragmentNr s = of_nat nr \<and> rs_pos s = Some (length got) \<and>
     rs_packet s = e\<lparr>et_payload := got @ buf\<rparr>"

lemma nr_neq_1: "1 < nr \<Longrightarrow> nr < 128 \<Longrightarrow> (of_nat nr :: 8 word) \<noteq> 1"
proof
  assume nr: "1 < nr" "nr < 128" and "(of_nat nr :: 8 word) = 1"
  then have "unat (of_nat nr :: 8 word) = unat (1 :: 8 word)" by simp
  moreover have "unat (of_nat nr :: 8 word) = nr" using nr by (simp add: unat_of_nat)
  ultimately show False using nr by simp
qed

lemma collect_fragment:
  assumes "eth_wf e" "collecting e nr got buf s" "1 < nr" "nr < 128" "n = min (length rest) (fragment_room t)" "n < 2 ^ 16" "n \<le> length buf"
  shows "\<exists>s'. rm_onRequest junk' (make_fragment junk e ps t nr rest) s =
    Inr (if drop n rest = [] then [Plain (e\<lparr>et_payload := got @ take n rest @ drop n buf\<rparr>)] else [], s') \<and>
    (drop n rest \<noteq> [] \<longrightarrow> collecting e (nr + 1) (got @ take n rest) (drop n buf) s')"
proof -
  let ?h = "set_inner_type oui_etherType (e\<lparr>et_payload := []\<rparr>)"
  define f where "f = \<lparr>fg_fragmentNr = nr, fg_moreFragment = (drop n rest \<noteq> []), fg_size = n,
    fg_type_length = inner_type e, fg_data = take n rest @ junk (fragment_padding e n)\<rparr>"
  have mk: "make_fragment junk e ps t nr rest = Fragment ?h f"
    using assms(3-6) by (simp add: make_fragment_def f_def Let_def)
  have rec: "isFragmentedPacket (Fragment ?h f)" by (rule fragment_frame_recognised [OF assms(1)])
  have nr: "(of_nat nr :: 8 word) \<noteq> 1" by (rule nr_neq_1 [OF assms(3,4)])
  have len: "length (take n rest) = n" using assms(5) by simp
  define s2 where "s2 = s\<lparr>rs_fragmentsProcessed := rs_fragmentsProcessed s + 1\<rparr>"
  define s4 where "s4 = s2\<lparr>rs_packet := e\<lparr>et_payload := got @ take n rest @ drop n buf\<rparr>, rs_pos := Some (length got + n)\<rparr>"
  have c: "rs_nextFragmentNr s = of_nat nr" "rs_pos s = Some (length got)" "rs_packet s = e\<lparr>et_payload := got @ buf\<rparr>"
    using assms(2) by (simp_all add: collecting_def)
  have "copy_payload f s2 = Inr s4"
    using c len assms(7) by (simp add: copy_payload_def f_def s2_def s4_def write_at_def)
  then have p: "processFrame junk' (Fragment ?h f) s = Inr (finish_fragment f s4)"
    using nr c(1) by (simp add: f_def s2_def)
  show ?thesis
  proof (cases "drop n rest = []")
    case True
    then show ?thesis using rec p unfolding mk by (simp add: rm_onRequest_def finish_fragment_def f_def s4_def Let_def)
  next
    case False
    have "fst (finish_fragment f s4) = False" using False by (simp add: finish_fragment_def f_def Let_def)
    moreover have "collecting e (nr + 1) (got @ take n rest) (drop n buf) (snd (finish_fragment f s4))"
      using False len by (simp add: finish_fragment_def f_def s4_def s2_def collecting_def Let_def)
    ultimately show ?thesis using False rec p unfolding mk by (cases "finish_fragment f s4") (simp add: rm_onRequest_def)
  qed
qed

lemma collect_fragments:
  assumes "eth_wf e" "0 < fragment_room t" "fragment_room t < 2 ^ 16" "1 < nr" "rest \<noteq> []"
    and "length rest \<le> fragment_room t * (128 - nr)" "length rest \<le> length buf" "collecting e nr got buf s"
    and "fragment_loop junk k e ps t nr rest = Some fs"
  shows "\<exists>s'. rm_run junk' fs s = Inr ([Plain (e\<lparr>et_payload := got @ rest @ drop (length rest) buf\<rparr>)], s')"
  using assms(4-9)
proof (induction k arbitrary: nr rest got buf s fs)
  case (Suc k)
  define n where "n = min (length rest) (fragment_room t)"
  have n: "n < 2 ^ 16" "n \<le> length buf" using assms(3) Suc.prems(4) by (auto simp: n_def)
  have nr: "nr < 128"
  proof (rule ccontr)
    assume "\<not> nr < 128"
    then have "length rest \<le> 0" using Suc.prems(3) by simp
    then show False using Suc.prems(2) by simp
  qed
  obtain s1 where s1: "rm_onRequest junk' (make_fragment junk e ps t nr rest) s =
      Inr (if drop n rest = [] then [Plain (e\<lparr>et_payload := got @ take n rest @ drop n buf\<rparr>)] else [], s1)"
    "drop n rest \<noteq> [] \<longrightarrow> collecting e (nr + 1) (got @ take n rest) (drop n buf) s1"
    using collect_fragment [OF assms(1) Suc.prems(5,1) nr n_def n, of junk' junk ps] by blast
  show ?case
  proof (cases "drop n rest = []")
    case True
    then have "fs = [make_fragment junk e ps t nr rest]" using Suc.prems(6) by (simp add: Let_def n_def)
    moreover have "n = length rest" using True by (simp add: n_def)
    ultimately show ?thesis using s1(1) True by simp
  next
    case False
    then obtain fs' where fs: "fs = make_fragment junk e ps t nr rest # fs'"
      "fragment_loop junk k e ps t (nr + 1) (drop n rest) = Some fs'"
      using Suc.prems(6) by (auto simp: Let_def n_def)
    have room: "n = fragment_room t" using False by (auto simp: n_def min_def split: if_splits)
    have d: "128 - nr = Suc (128 - (nr + 1))" using nr by simp
    have "length rest - fragment_room t \<le> fragment_room t * (128 - (nr + 1))"
      using Suc.prems(3) unfolding d mult_Suc_right by linarith
    then have "length (drop n rest) \<le> fragment_room t * (128 - (nr + 1))" by (simp add: room)
    moreover have "length (drop n rest) \<le> length (drop n buf)" using Suc.prems(4) by simp
    ultimately obtain s2 where "rm_run junk' fs' s1 =
        Inr ([Plain (e\<lparr>et_payload := (got @ take n rest) @ drop n rest @ drop (length (drop n rest)) (drop n buf)\<rparr>)], s2)"
      using Suc.IH [OF _ False _ _ _ fs(2)] Suc.prems(1) s1(2) False by fastforce
    moreover have "length (drop n rest) + n = length rest" by (simp add: n_def)
    ultimately show ?thesis using s1(1) False fs(1) by simp
  qed
qed simp

text \<open>The first fragment of a frame that does not fit into one.\<close>

lemma first_fragment:
  assumes "eth_wf e" "rs_nextFragmentNr s = 1" "n = fragment_room t" "n < length (et_payload e)" "36 \<le> n"
    and "ps = eth_size e - eth_bytes" "ps < 2 ^ 16" "length (junk' ps) = ps" "junk 0 = []"
  shows "\<exists>s'. rm_onRequest junk' (make_fragment junk e ps t 1 (et_payload e)) s = Inr ([], s') \<and>
    collecting e 2 (take n (et_payload e)) (drop n (junk' ps)) s'"
proof -
  let ?h = "set_inner_type oui_etherType (e\<lparr>et_payload := []\<rparr>)"
  have ps: "length (et_payload e) \<le> ps" using assms(6) by (simp add: eth_size_def)
  have pad: "fragment_padding e n = 0" using assms(5) by (simp add: fragment_padding_def fragment_sizes)
  obtain g where g: "make_fragment junk e ps t 1 (et_payload e) = Fragment ?h g" "fg_fragmentNr g = 1" "fg_moreFragment g"
      "fg_size g = ps" "fg_type_length g = inner_type e" "fg_data g = take n (et_payload e)"
    using assms(3,4,7,9) pad by (simp add: make_fragment_def Let_def min_def)
  have rec: "isFragmentedPacket (Fragment ?h g)" by (rule fragment_frame_recognised [OF assms(1)])
  define s2 where "s2 = s\<lparr>rs_fragmentsProcessed := rs_fragmentsProcessed s + 1\<rparr>"
  define s4 where "s4 = s2\<lparr>rs_packet := e\<lparr>et_payload := take n (et_payload e) @ drop n (junk' ps)\<rparr>, rs_pos := Some n\<rparr>"
  have "copy_payload g (start_packet junk' ?h g s2) = Inr s4"
    using g assms(3,4,8) ps by (simp add: copy_payload_def start_packet_def s2_def s4_def write_at_def)
  then have p: "processFrame junk' (Fragment ?h g) s = Inr (finish_fragment g s4)"
    using assms(2) g(2) by (simp add: s2_def)
  have "finish_fragment g s4 = (False, s4\<lparr>rs_nextFragmentNr := 2\<rparr>)"
    using g(2,3) by (simp add: finish_fragment_def Let_def)
  then show ?thesis
    using rec p assms(4) unfolding g(1) by (simp add: rm_onRequest_def collecting_def s4_def s2_def)
qed


text \<open>The thresholds of the module are in the range the theorem asks for.\<close>

definition fm_ok :: "fragmenter_module \<Rightarrow> bool" where
  "fm_ok s \<longleftrightarrow> 576 \<le> fm_defaultFragThresh s \<and> fm_defaultFragThresh s < 2 ^ 16 \<and>
     (\<forall>t \<in> ran (fm_fragThreshMap s). 576 \<le> t \<and> t < 2 ^ 16)"

lemma fm_ok_threshold: "fm_ok s \<Longrightarrow> 576 \<le> fragmentationThreshold d s \<and> fragmentationThreshold d s < 2 ^ 16"
  by (auto simp: fm_ok_def fragmentationThreshold_def ran_def split: option.splits)

lemma fm_ok_set: "fm_ok s \<Longrightarrow> t < 2 ^ 16 \<Longrightarrow> fm_ok (set_fragmentationThreshold t d s)"
  by (auto simp: fm_ok_def set_fragmentationThreshold_def ran_def Let_def split: if_splits)

lemma fm_ok_reset: "fm_ok s \<Longrightarrow> fm_ok (fm_reset s)"
  by (simp add: fm_ok_def fm_reset_def)

text \<open>Without that bound the loop of the fragmenter may not end: a threshold of 10 leaves no room for payload.\<close>

lemma fragment_loop_stuck: "fragment_loop junk k e ps 10 nr (b # rest) = None"
proof (induction k arbitrary: nr)
  case (Suc k)
  have "fragment_room 10 = 0" by (simp add: fragment_room_eq)
  then show ?case using Suc by (simp add: Let_def)
qed simp

text \<open>
  A second fragment that announces more payload than is left makes the reassembler write behind the
  end of the packet: the size is checked against the fragment only, not against the packet.
\<close>

theorem oversized_fragment_writes_behind:
  assumes "rs_nextFragmentNr s = 2" "rs_pos s = Some i" "fg_fragmentNr f = 2" "fg_size f = length (fg_data f)"
    "length (et_payload (rs_packet s)) < i + length (fg_data f)"
  shows "processFrame junk (Fragment e f) s = Inl WriteBehindEnd"
  using assms by (simp add: copy_payload_def Let_def)

definition example_eth :: eth where
  "example_eth = \<lparr>et_destination = 1, et_source = 2, et_type = 0x0800, et_vlan = None, et_payload = replicate 1000 7\<rparr>"


theorem oversized_fragment_writes_behind_witness:
  "processFrame (\<lambda>i. replicate i 0) (Fragment null_eth \<lparr>fg_fragmentNr = 2, fg_moreFragment = False, fg_size = 3, fg_type_length = 0, fg_data = [1, 2, 3]\<rparr>)
     (reassembler_init\<lparr>rs_nextFragmentNr := 2, rs_pos := Some 0\<rparr>) = Inl WriteBehindEnd"
  by (rule oversized_fragment_writes_behind [of _ 0]) (simp_all add: reassembler_init_def null_eth_def)

end
