(* ===== verification/Packet_Headers.thy ===== *)
theory Packet_Headers
  imports Packet_Layout Eth_Fragment
begin

text \<open>
  The fixed size headers of the packet bundles (\<open>senf/Packets/DefaultBundle\<close>, \<open>80211Bundle\<close>,
  \<open>MPEGDVBBundle\<close>) and of the network emulator (\<open>senf/Ext/NetEmu\<close>), as the macros declare them up to
  \<open>SENF_PARSER_FINALIZE\<close>. A \<open>MACAddressParser\<close> has 6 bytes, the address parsers 4 and 16, a
  \<open>BitsetParser\<close> of 77 bits 10, and a nested parser has the bytes of its own declaration.

  What holds of every declaration is in \<open>Packet_Layout\<close>; here are the sizes, and that they are the ones
  other parts of the code rely on.
\<close>

section \<open>Declarations\<close>

definition AnnotationsPacketParser :: "item list" where
  "AnnotationsPacketParser =
     [Field ''interfaceId'' (PBytes 6), Field ''timestampMAC'' PUInt64, Field ''timestamp'' PInt64,
      Field ''modulationId'' PUInt32, Field ''snr'' PUInt16, Field ''rssi'' PInt16,
      Field ''type'' PUInt8, Bitfield ''corrupt'' 1 Bool, Bitfield ''retransmitted'' 1 Bool,
      Bitfield ''duplicated'' 1 Bool, Bitfield ''reordered'' 1 Bool, Bitfield ''gap'' 8 Unsigned,
      Bitfield ''length'' 12 Unsigned]"

definition EthernetFragmentPacketParser :: "item list" where
  "EthernetFragmentPacketParser =
     [Bitfield ''fragmentNr'' 7 Unsigned, Bitfield ''moreFragment'' 1 Bool, Field ''size'' PUInt16,
      Field ''type_length'' PUInt16]"

definition TunnelCapacityPacketParser :: "item list" where
  "TunnelCapacityPacketParser =
     [Field ''fromClientToServer'' PUInt32, Field ''fromServerToClient'' PUInt32]"

definition TunnelHeaderPacketParser :: "item list" where
  "TunnelHeaderPacketParser =
     [Bitfield ''reserved'' 15 Unsigned, Bitfield ''sequenceNumber'' 17 Unsigned]"

definition PacketHeaderParser :: "item list" where
  "PacketHeaderParser =
     [Field ''interfaceType'' PUInt32, Field ''sequenceNumber'' PUInt32, Field ''timestamp'' PInt64,
      Field ''nodeId'' PUInt32, Field ''interfaceIndex'' PUInt32]"

definition EmulatedWirelessPacketHeaderParser :: "item list" where
  "EmulatedWirelessPacketHeaderParser =
     [Field ''interfaceType'' PUInt32, Field ''txPower'' PInt16, Field ''frequency'' PUInt32,
      Field ''bandwidth'' PUInt16, Field ''modulationId'' PUInt32]"

definition WLANHTCapabilitiesInfoFieldParser :: "item list" where
  "WLANHTCapabilitiesInfoFieldParser =
     [Bitfield ''txSTBC'' 1 Bool, Bitfield ''shortGIfor40MHz'' 1 Bool,
      Bitfield ''shortGIfor20MHz'' 1 Bool, Bitfield ''htGreenfield'' 1 Bool,
      Bitfield ''smPowerSave'' 2 Unsigned, Bitfield ''supportedChannelWidth'' 1 Bool,
      Bitfield ''ldpcCodingCapability'' 1 Bool, Bitfield ''lSIGTXOPProtectionSupport'' 1 Bool,
      Bitfield ''fortyMHzIntolerant'' 1 Bool, Skip_bits 1, Bitfield ''dsss_cckModeIn40MHz'' 1 Bool,
      Bitfield ''maxAMSDULength'' 1 Bool, Bitfield ''delayedBlockAck'' 1 Bool,
      Bitfield ''rxSTBC'' 2 Unsigned]"

definition WLANAMPDUParametersParser :: "item list" where
  "WLANAMPDUParametersParser =
     [Skip_bits 3, Bitfield ''minMPDUStartSpacing'' 3 Unsigned, Bitfield ''maxAMPDULength'' 2 Unsigned]"

definition WLANSupportedMCSSetParser :: "item list" where
  "WLANSupportedMCSSetParser =
     [Field ''rxMCSBitmask'' (PBytes 10), Skip_bits 6,
      Bitfield ''rxHighestSupoortedDataRate'' 10 Unsigned, Skip_bits 3,
      Bitfield ''txUnequalModulationSupported'' 1 Bool, Bitfield ''txMaxStreamsSupported'' 2 Unsigned,
      Bitfield ''txRxMCSSetNotEqual'' 1 Bool, Bitfield ''txMCSSetDefined'' 1 Bool, Skip 3]"

definition WLANHTExtendedCapabilitiesParser :: "item list" where
  "WLANHTExtendedCapabilitiesParser =
     [Skip_bits 5, Bitfield ''pcoTransitionTime'' 2 Unsigned, Bitfield ''pco'' 1 Bool, Skip_bits 4,
      Bitfield ''rdResponder'' 1 Bool, Bitfield ''htcSupport'' 1 Bool,
      Bitfield ''mcsFeedback'' 2 Unsigned]"

definition WLANTxBeamformingCapabilitiesParser :: "item list" where
  "WLANTxBeamformingCapabilitiesParser =
     [Skip 4]"

definition WLANAntennaSelectionCapabilityParser :: "item list" where
  "WLANAntennaSelectionCapabilityParser =
     [Skip 1]"

definition WLANHTOperationInfoFieldParser :: "item list" where
  "WLANHTOperationInfoFieldParser =
     [Skip_bits 4, Bitfield ''rifsMode'' 1 Bool, Bitfield ''channelWidth'' 1 Bool,
      Bitfield ''secondaryChannelOffset'' 2 Unsigned, Skip_bits 3,
      Bitfield ''obssNonHTSTAsPresent'' 1 Bool, Skip_bits 1,
      Bitfield ''nonGreenfieldHTSTAsPresent'' 1 Bool, Bitfield ''htProtection'' 2 Unsigned, Skip_bits 8,
      Bitfield ''dualCTSProtection'' 1 Bool, Bitfield ''dualBeacon'' 1 Bool, Skip_bits 6, Skip_bits 4,
      Bitfield ''pcoPhase'' 1 Bool, Bitfield ''pcoActive'' 1 Bool,
      Bitfield ''lsigTXOPProtectionSupport'' 1 Bool, Bitfield ''stbcBeacon'' 1 Bool]"

definition RadiotapPacket_FlagsParser :: "item list" where
  "RadiotapPacket_FlagsParser =
     [Bitfield ''shortGI'' 1 Bool, Bitfield ''badFCS'' 1 Bool, Bitfield ''padding'' 1 Bool,
      Bitfield ''fcsAtEnd'' 1 Bool, Bitfield ''fragmentation'' 1 Bool, Bitfield ''wep'' 1 Bool,
      Bitfield ''shortPreamble'' 1 Bool, Bitfield ''cfp'' 1 Bool]"

definition RadiotapPacket_ChannelOptionsParser :: "item list" where
  "RadiotapPacket_ChannelOptionsParser =
     [Field ''freq'' PUInt16LSB, Bitfield ''flag2ghz'' 1 Bool, Bitfield ''ofdm'' 1 Bool,
      Bitfield ''cck'' 1 Bool, Bitfield ''turbo'' 1 Bool, Skip_bits 4,
      Bitfield ''quarterRateChannel'' 1 Bool, Bitfield ''halfRateChannel'' 1 Bool,
      Bitfield ''gsm'' 1 Bool, Bitfield ''staticTurbo'' 1 Bool, Bitfield ''gfsk'' 1 Bool,
      Bitfield ''cckOfdm'' 1 Bool, Bitfield ''passive'' 1 Bool, Bitfield ''flag5ghz'' 1 Bool]"

definition RadiotapPacket_RxFlagsParser :: "item list" where
  "RadiotapPacket_RxFlagsParser =
     [Skip_bits 6, Bitfield ''badPlcp'' 1 Bool, Skip_bits 1]"

definition RadiotapPacket_TxFlagsParser :: "item list" where
  "RadiotapPacket_TxFlagsParser =
     [Skip_bits 5, Bitfield ''txRts'' 1 Bool, Bitfield ''txCts'' 1 Bool, Bitfield ''fail'' 1 Bool]"

definition RadiotapPacket_MCSParser :: "item list" where
  "RadiotapPacket_MCSParser =
     [Skip_bits 3, Bitfield ''fecTypeKnown'' 1 Bool, Bitfield ''htFormatKnown'' 1 Bool,
      Bitfield ''guardIntervalKnown'' 1 Bool, Bitfield ''mcsIndexKnown'' 1 Bool,
      Bitfield ''bandwidthKnown'' 1 Bool, Skip_bits 3, Bitfield ''fecType'' 1 Bool,
      Bitfield ''htFormat'' 1 Bool, Bitfield ''guardInterval'' 1 Bool,
      Bitfield ''bandwidth'' 2 Unsigned, Field ''mcsIndex'' PUInt8]"

definition RadiotapPacket_VHTParser :: "item list" where
  "RadiotapPacket_VHTParser =
     [Skip_bits 7, Bitfield ''partialAidKnown'' 1 Bool, Bitfield ''groupIdKnown'' 1 Bool,
      Bitfield ''bandwidthKnown'' 1 Bool, Bitfield ''beamFormedKnown'' 1 Bool,
      Bitfield ''ldpcExtraOfdmSymbolKnown'' 1 Bool, Bitfield ''shortGiNsymDisambiguationKnown'' 1 Bool,
      Bitfield ''guardIntervalKnown'' 1 Bool, Bitfield ''txOpPsNotAllowedKnown'' 1 Bool,
      Bitfield ''stbcKnown'' 1 Bool, Skip_bits 2, Bitfield ''beamFormed'' 1 Bool,
      Bitfield ''ldpcExtraOfdmSymbol'' 1 Bool, Bitfield ''shortGiNsymDisambiguation'' 1 Bool,
      Bitfield ''guardInterval'' 1 Bool, Bitfield ''txOpPsNotAllowed'' 1 Bool, Bitfield ''stbc'' 1 Bool,
      Field ''bandwidth'' PUInt8, Field ''mcsNss0'' PUInt8, Field ''mcsNss1'' PUInt8,
      Field ''mcsNss2'' PUInt8, Field ''mcsNss3'' PUInt8, Field ''coding'' PUInt8,
      Field ''groupId'' PUInt8, Field ''partialAid'' PUInt16LSB]"

definition RadiotapPacket_HeaderParser :: "item list" where
  "RadiotapPacket_HeaderParser =
     [Field ''version'' PUInt8, Skip 1, Field ''length'' PUInt16LSB, Field ''presentFlags'' PUInt32LSB]"

definition RadiotapPacket_FrameTypeParser :: "item list" where
  "RadiotapPacket_FrameTypeParser =
     [Skip_bits 4, Bitfield ''frameType'' 2 Unsigned, Skip_bits 2]"

definition EthernetPacketParser :: "item list" where
  "EthernetPacketParser =
     [Field ''destination'' (PBytes 6), Field ''source'' (PBytes 6), Field ''type_length'' PUInt16]"

definition EthVLanPacketParser :: "item list" where
  "EthVLanPacketParser =
     [Bitfield ''priority'' 3 Unsigned, Bitfield ''cfi'' 1 Bool, Bitfield ''vlanId'' 12 Unsigned,
      Field ''type_length'' PUInt16]"

definition EthOUIExtensionPacketParser :: "item list" where
  "EthOUIExtensionPacketParser =
     [Field ''oui'' PUInt24, Field ''ext_type'' PUInt16]"

definition ICMPv6PacketParser :: "item list" where
  "ICMPv6PacketParser =
     [Field ''type'' PUInt8, Field ''code'' PUInt8, Field ''checksum'' PUInt16]"

definition ICMPv6EchoRequestParser :: "item list" where
  "ICMPv6EchoRequestParser =
     [Field ''identifier'' PUInt16, Field ''seqNr'' PUInt16]"

definition ICMPv6EchoReplyParser :: "item list" where
  "ICMPv6EchoReplyParser =
     [Field ''identifier'' PUInt16, Field ''seqNr'' PUInt16]"

definition ICMPv6ErrDestUnreachableParser :: "item list" where
  "ICMPv6ErrDestUnreachableParser =
     [Field ''unused'' PUInt32]"

definition ICMPv6ErrTooBigParser :: "item list" where
  "ICMPv6ErrTooBigParser =
     [Field ''mtu'' PUInt32]"

definition ICMPv6ErrTimeExceededParser :: "item list" where
  "ICMPv6ErrTimeExceededParser =
     [Field ''unused'' PUInt32]"

definition ICMPv6ErrParamProblemParser :: "item list" where
  "ICMPv6ErrParamProblemParser =
     [Field ''pointer'' PUInt32]"

definition IPv4PacketParser :: "item list" where
  "IPv4PacketParser =
     [Bitfield ''version'' 4 Unsigned, Bitfield ''ihl'' 4 Unsigned, Bitfield ''dscp'' 6 Unsigned,
      Bitfield ''ecn'' 2 Unsigned, Field ''length'' PUInt16, Field ''identifier'' PUInt16,
      Bitfield ''reserved'' 1 Bool, Bitfield ''df'' 1 Bool, Bitfield ''mf'' 1 Bool,
      Bitfield ''frag'' 13 Unsigned, Field ''ttl'' PUInt8, Field ''protocol'' PUInt8,
      Field ''checksum'' PUInt16, Field ''source'' (PBytes 4), Field ''destination'' (PBytes 4)]"

definition IPv6FragmentPacketParser :: "item list" where
  "IPv6FragmentPacketParser =
     [Field ''nextHeader'' PUInt8, Field ''reserved1'' PUInt8, Bitfield ''fragmentOffset'' 13 Unsigned,
      Bitfield ''reserved2'' 2 Unsigned, Bitfield ''moreFragments'' 1 Bool, Field ''id'' PUInt32]"

definition IPv6PacketParser :: "item list" where
  "IPv6PacketParser =
     [Bitfield ''version'' 4 Unsigned, Bitfield ''trafficClass'' 8 Unsigned,
      Bitfield ''flowLabel'' 20 Unsigned, Field ''length'' PUInt16, Field ''nextHeader'' PUInt8,
      Field ''hopLimit'' PUInt8, Field ''source'' (PBytes 16), Field ''destination'' (PBytes 16)]"

definition LlcSnapPacketParser :: "item list" where
  "LlcSnapPacketParser =
     [Field ''dsap'' PUInt8, Field ''ssap'' PUInt8, Field ''ctrl'' PUInt8, Field ''protocolId'' PUInt24,
      Field ''type_length'' PUInt16]"

definition PPPoEPacketParser :: "item list" where
  "PPPoEPacketParser =
     [Bitfield ''version'' 4 Unsigned, Bitfield ''type'' 4 Unsigned, Field ''code'' PUInt8,
      Field ''sessionId'' PUInt16, Field ''length'' PUInt16, Field ''pppProtocol'' PUInt16]"

definition UDPPacketParser :: "item list" where
  "UDPPacketParser =
     [Field ''source'' PUInt16, Field ''destination'' PUInt16, Field ''length'' PUInt16,
      Field ''checksum'' PUInt16]"

definition MPERealTimeParametersParser :: "item list" where
  "MPERealTimeParametersParser =
     [Bitfield ''delta_t'' 12 Unsigned, Bitfield ''table_boundary'' 1 Bool,
      Bitfield ''frame_boundary'' 1 Bool, Bitfield ''address'' 18 Unsigned]"

definition MPESectionParser :: "item list" where
  "MPESectionParser =
     [Field ''table_id'' PUInt8, Bitfield ''section_syntax_indicator'' 1 Bool,
      Bitfield ''private_indicator'' 1 Bool, Bitfield ''reserved_1'' 2 Unsigned,
      Bitfield ''section_length'' 12 Unsigned, Field ''mac_addr_6'' PUInt8, Field ''mac_addr_5'' PUInt8,
      Bitfield ''reserved_2'' 2 Unsigned, Bitfield ''payload_scrmbl_ctrl'' 2 Unsigned,
      Bitfield ''addr_scrmbl_ctrl'' 2 Unsigned, Bitfield ''llc_snap_flag'' 1 Bool,
      Bitfield ''curr_next_indicator'' 1 Bool, Field ''section_num'' PUInt8,
      Field ''last_section_num'' PUInt8,
      Field ''real_time_parameters'' (PBytes (fixed_bytes MPERealTimeParametersParser))]"

lemmas header_defs =
  AnnotationsPacketParser_def EthernetFragmentPacketParser_def TunnelCapacityPacketParser_def TunnelHeaderPacketParser_def
  PacketHeaderParser_def EmulatedWirelessPacketHeaderParser_def WLANHTCapabilitiesInfoFieldParser_def WLANAMPDUParametersParser_def
  WLANSupportedMCSSetParser_def WLANHTExtendedCapabilitiesParser_def WLANTxBeamformingCapabilitiesParser_def WLANAntennaSelectionCapabilityParser_def
  WLANHTOperationInfoFieldParser_def RadiotapPacket_FlagsParser_def RadiotapPacket_ChannelOptionsParser_def RadiotapPacket_RxFlagsParser_def
  RadiotapPacket_TxFlagsParser_def RadiotapPacket_MCSParser_def RadiotapPacket_VHTParser_def RadiotapPacket_HeaderParser_def
  RadiotapPacket_FrameTypeParser_def EthernetPacketParser_def EthVLanPacketParser_def EthOUIExtensionPacketParser_def
  ICMPv6PacketParser_def ICMPv6EchoRequestParser_def ICMPv6EchoReplyParser_def ICMPv6ErrDestUnreachableParser_def
  ICMPv6ErrTooBigParser_def ICMPv6ErrTimeExceededParser_def ICMPv6ErrParamProblemParser_def IPv4PacketParser_def
  IPv6FragmentPacketParser_def IPv6PacketParser_def LlcSnapPacketParser_def PPPoEPacketParser_def
  UDPPacketParser_def MPERealTimeParametersParser_def MPESectionParser_def

section \<open>Sizes\<close>

lemmas layout_defs = fixed_bytes_def fields_of_def no_slots_def Let_def bitfield_bytes_def bitfield_reset_def
  IntFieldParser_def UIntFieldParser_def FlagParser_def parser_consts

lemma default_bundle_sizes:
  "map fixed_bytes [EthernetPacketParser, EthVLanPacketParser, EthOUIExtensionPacketParser, IPv4PacketParser, IPv6PacketParser,
     UDPPacketParser, ICMPv6PacketParser, LlcSnapPacketParser, PPPoEPacketParser, IPv6FragmentPacketParser] =
   [14, 4, 5, 20, 40, 8, 4, 8, 8, 8]"
  by (simp add: header_defs layout_defs)

text \<open>The sizes the fragmentation of Ethernet frames calculates with.\<close>

lemma fragmentation_sizes:
  "eth_bytes = fixed_bytes EthernetPacketParser" "vlan_bytes = fixed_bytes EthVLanPacketParser"
  "oui_bytes = fixed_bytes EthOUIExtensionPacketParser" "fragment_bytes = fixed_bytes EthernetFragmentPacketParser"
  by (simp_all add: header_defs layout_defs eth_bytes_def vlan_bytes_def oui_bytes_def fragment_bytes_def)

text \<open>The lengths the 802.11 information elements are initialised with.\<close>

lemma information_element_lengths:
  "sum_list (map fixed_bytes [WLANHTCapabilitiesInfoFieldParser, WLANAMPDUParametersParser, WLANSupportedMCSSetParser,
     WLANHTExtendedCapabilitiesParser, WLANTxBeamformingCapabilitiesParser, WLANAntennaSelectionCapabilityParser]) = 26"
  "1 + fixed_bytes WLANHTOperationInfoFieldParser + fixed_bytes WLANSupportedMCSSetParser = 22"
  by (simp_all add: header_defs layout_defs)

text \<open>Every declaration keeps the rules of the macros, so the fields of every header are independent.\<close>

definition fixed_headers :: "item list list" where
  "fixed_headers =
     [AnnotationsPacketParser, EthernetFragmentPacketParser, TunnelCapacityPacketParser,
      TunnelHeaderPacketParser, PacketHeaderParser, EmulatedWirelessPacketHeaderParser,
      WLANHTCapabilitiesInfoFieldParser, WLANAMPDUParametersParser, WLANSupportedMCSSetParser,
      WLANHTExtendedCapabilitiesParser, WLANTxBeamformingCapabilitiesParser, WLANAntennaSelectionCapabilityParser,
      WLANHTOperationInfoFieldParser, RadiotapPacket_FlagsParser, RadiotapPacket_ChannelOptionsParser,
      RadiotapPacket_RxFlagsParser, RadiotapPacket_TxFlagsParser, RadiotapPacket_MCSParser,
      RadiotapPacket_VHTParser, RadiotapPacket_HeaderParser, RadiotapPacket_FrameTypeParser,
      EthernetPacketParser, EthVLanPacketParser, EthOUIExtensionPacketParser,
      ICMPv6PacketParser, ICMPv6EchoRequestParser, ICMPv6EchoReplyParser,
      ICMPv6ErrDestUnreachableParser, ICMPv6ErrTooBigParser, ICMPv6ErrTimeExceededParser,
      ICMPv6ErrParamProblemParser, IPv4PacketParser, IPv6FragmentPacketParser,
      IPv6PacketParser, LlcSnapPacketParser, PPPoEPacketParser,
      UDPPacketParser, MPERealTimeParametersParser, MPESectionParser]"

lemma fixed_headers_ok: "list_all declaration_ok fixed_headers"
  by (simp add: fixed_headers_def header_defs)

definition example_ipv4 :: "byte list" where
  "example_ipv4 = replicate 20 0xff"


end
