(* ===== verification/Vector_Parser.thy ===== *)
theory Vector_Parser
  imports Int_Parsers
begin

text \<open>
  Vectors in packets, \<open>senf/Packets/VectorParser.*\<close> and \<open>AuxParser.*\<close>: a number of elements of a fixed
  size behind each other, with the number of elements in a field in front of them, at a fixed distance
  or somewhere else in the packet.

  The packet data is a byte list and iterators are offsets into it; \<open>data().insert\<close> and \<open>data().erase\<close>
  are \<open>insert_list\<close> and \<open>cut_list\<close>, which is what \<open>Packet_Vector\<close> shows of the container. A container
  wrapper has the offset of the vector, \<open>i\<close>. Sizes are numbers of type \<open>size_type\<close>, 64 bits wide; storing
  one into the field truncates it to the type of the field's parser.
\<close>

section \<open>Where the size is kept\<close>

record aux_policy =
  aux_get :: "byte list \<Rightarrow> nat \<Rightarrow> nat"
  aux_set :: "nat \<Rightarrow> byte list \<Rightarrow> nat \<Rightarrow> byte list"
  aux_adjust :: "nat \<Rightarrow> nat"
  aux_bytes :: nat

definition PrefixAuxParserPolicy :: "'a::len word int_parser \<Rightarrow> aux_policy" where
  "PrefixAuxParserPolicy P = \<lparr>aux_get = (\<lambda>ds i. unat (pr_value P ds i)), aux_set = (\<lambda>v ds i. pr_assign P ds i (of_nat v)),
     aux_adjust = (\<lambda>i. i + pr_fixed_bytes P), aux_bytes = pr_fixed_bytes P\<rparr>"

definition FixedAuxParserPolicy :: "'a::len word int_parser \<Rightarrow> nat \<Rightarrow> aux_policy" where
  "FixedAuxParserPolicy P Dist = \<lparr>aux_get = (\<lambda>ds i. unat (pr_value P ds (i - Dist))),
     aux_set = (\<lambda>v ds i. pr_assign P ds (i - Dist) (of_nat v)), aux_adjust = (\<lambda>i. i), aux_bytes = 0\<rparr>"

text \<open>The parser of a dynamic policy has a position of its own, which the wrapper keeps as an offset.\<close>

definition DynamicAuxParserPolicy :: "'a::len word int_parser \<Rightarrow> nat \<Rightarrow> aux_policy" where
  "DynamicAuxParserPolicy P p = \<lparr>aux_get = (\<lambda>ds i. unat (pr_value P ds p)), aux_set = (\<lambda>v ds i. pr_assign P ds p (of_nat v)),
     aux_adjust = (\<lambda>i. i), aux_bytes = 0\<rparr>"

definition TransformAuxParserPolicy :: "(nat \<Rightarrow> nat) \<Rightarrow> (nat \<Rightarrow> nat) \<Rightarrow> aux_policy \<Rightarrow> aux_policy" where
  "TransformAuxParserPolicy get put A = \<lparr>aux_get = (\<lambda>ds i. get (aux_get A ds i)), aux_set = (\<lambda>v ds i. aux_set A (put v) ds i),
     aux_adjust = aux_adjust A, aux_bytes = aux_bytes A\<rparr>"

text \<open>A size field that counts bytes.\<close>

definition VectorParserBytesTransform :: "nat \<Rightarrow> aux_policy \<Rightarrow> aux_policy" where
  "VectorParserBytesTransform fixedSize A = TransformAuxParserPolicy (\<lambda>v. v div fixedSize) (\<lambda>v. v * fixedSize) A"

section \<open>Vectors\<close>

definition vec_size :: "aux_policy \<Rightarrow> byte list \<Rightarrow> nat \<Rightarrow> nat" where
  "vec_size A ds i = aux_get A ds i"

definition vec_bytes :: "'v int_parser \<Rightarrow> aux_policy \<Rightarrow> byte list \<Rightarrow> nat \<Rightarrow> nat" where
  "vec_bytes E A ds i = vec_size A ds i * pr_fixed_bytes E + aux_bytes A"

definition vec_begin :: "aux_policy \<Rightarrow> nat \<Rightarrow> nat" where
  "vec_begin A i = aux_adjust A i"

definition vec_end :: "'v int_parser \<Rightarrow> aux_policy \<Rightarrow> byte list \<Rightarrow> nat \<Rightarrow> nat" where
  "vec_end E A ds i = vec_begin A i + vec_size A ds i * pr_fixed_bytes E"

definition vec_at :: "'v int_parser \<Rightarrow> aux_policy \<Rightarrow> byte list \<Rightarrow> nat \<Rightarrow> nat \<Rightarrow> 'v" where
  "vec_at E A ds i n = pr_value E ds (vec_begin A i + n * pr_fixed_bytes E)"

definition vec_setSize :: "aux_policy \<Rightarrow> nat \<Rightarrow> byte list \<Rightarrow> nat \<Rightarrow> byte list" where
  "vec_setSize A v ds i = aux_set A v ds i"

definition vec_shift :: "'v int_parser \<Rightarrow> aux_policy \<Rightarrow> nat \<Rightarrow> nat \<Rightarrow> byte list \<Rightarrow> nat \<Rightarrow> byte list" where
  "vec_shift E A pos n ds i = insert_list pos (replicate (n * pr_fixed_bytes E) 0) (vec_setSize A (vec_size A ds i + n) ds i)"

text \<open>The loops that write the elements, from offset \<open>j\<close> on.\<close>

fun vec_fill :: "'v int_parser \<Rightarrow> 'v list \<Rightarrow> nat \<Rightarrow> byte list \<Rightarrow> byte list" where
  "vec_fill E [] j ds = ds"
| "vec_fill E (t # ts) j ds = vec_fill E ts (j + pr_fixed_bytes E) (pr_assign E ds j t)"

definition vec_insert_n :: "'v int_parser \<Rightarrow> aux_policy \<Rightarrow> nat \<Rightarrow> nat \<Rightarrow> 'v \<Rightarrow> byte list \<Rightarrow> nat \<Rightarrow> byte list" where
  "vec_insert_n E A pos n t ds i = vec_fill E (replicate n t) pos (vec_shift E A pos n ds i)"

definition vec_insert_range :: "'v int_parser \<Rightarrow> aux_policy \<Rightarrow> nat \<Rightarrow> 'v list \<Rightarrow> byte list \<Rightarrow> nat \<Rightarrow> byte list" where
  "vec_insert_range E A pos ts ds i = vec_fill E ts pos (vec_shift E A pos (length ts) ds i)"

definition vec_insert :: "'v int_parser \<Rightarrow> aux_policy \<Rightarrow> nat \<Rightarrow> 'v \<Rightarrow> byte list \<Rightarrow> nat \<Rightarrow> byte list" where
  "vec_insert E A pos t ds i = pr_assign E (vec_shift E A pos 1 ds i) pos t"

definition vec_erase :: "'v int_parser \<Rightarrow> aux_policy \<Rightarrow> nat \<Rightarrow> nat \<Rightarrow> byte list \<Rightarrow> nat \<Rightarrow> byte list" where
  "vec_erase E A pos n ds i =
     cut_list pos (pos + n * pr_fixed_bytes E) (vec_setSize A ((vec_size A ds i + 2 ^ 64 - n) mod 2 ^ 64) ds i)"

definition vec_clear :: "'v int_parser \<Rightarrow> aux_policy \<Rightarrow> byte list \<Rightarrow> nat \<Rightarrow> byte list" where
  "vec_clear E A ds i = vec_erase E A (vec_begin A i) (vec_size A ds i) ds i"

definition vec_push_back :: "'v int_parser \<Rightarrow> aux_policy \<Rightarrow> 'v \<Rightarrow> nat \<Rightarrow> byte list \<Rightarrow> nat \<Rightarrow> byte list" where
  "vec_push_back E A t n ds i = vec_insert_n E A (vec_end E A ds i) n t ds i"

definition vec_push_back_space :: "'v int_parser \<Rightarrow> aux_policy \<Rightarrow> nat \<Rightarrow> byte list \<Rightarrow> nat \<Rightarrow> byte list" where
  "vec_push_back_space E A n ds i = vec_shift E A (vec_end E A ds i) n ds i"

definition vec_push_front :: "'v int_parser \<Rightarrow> aux_policy \<Rightarrow> 'v \<Rightarrow> nat \<Rightarrow> byte list \<Rightarrow> nat \<Rightarrow> byte list" where
  "vec_push_front E A t n ds i = vec_insert_n E A (vec_begin A i) n t ds i"

definition vec_push_front_space :: "'v int_parser \<Rightarrow> aux_policy \<Rightarrow> nat \<Rightarrow> byte list \<Rightarrow> nat \<Rightarrow> byte list" where
  "vec_push_front_space E A n ds i = vec_shift E A (vec_begin A i) n ds i"

definition vec_resize_space :: "'v int_parser \<Rightarrow> aux_policy \<Rightarrow> nat \<Rightarrow> byte list \<Rightarrow> nat \<Rightarrow> byte list" where
  "vec_resize_space E A n ds i =
     (if vec_size A ds i \<ge> n then vec_erase E A (vec_begin A i + n * pr_fixed_bytes E) (vec_size A ds i - n) ds i
      else vec_push_back_space E A (n - vec_size A ds i) ds i)"

definition vec_resize :: "'v int_parser \<Rightarrow> aux_policy \<Rightarrow> nat \<Rightarrow> 'v \<Rightarrow> byte list \<Rightarrow> nat \<Rightarrow> byte list" where
  "vec_resize E A n t ds i =
     (if vec_size A ds i \<ge> n then vec_erase E A (vec_begin A i + n * pr_fixed_bytes E) (vec_size A ds i - n) ds i
      else vec_push_back E A t (n - vec_size A ds i) ds i)"

fun vec_push_all :: "'v int_parser \<Rightarrow> aux_policy \<Rightarrow> 'v list \<Rightarrow> byte list \<Rightarrow> nat \<Rightarrow> byte list" where
  "vec_push_all E A [] ds i = ds"
| "vec_push_all E A (t # ts) ds i = vec_push_all E A ts (vec_push_back E A t 1 ds i) i"

definition vec_assign :: "'v int_parser \<Rightarrow> aux_policy \<Rightarrow> 'v list \<Rightarrow> byte list \<Rightarrow> nat \<Rightarrow> byte list" where
  "vec_assign E A ts ds i = vec_push_all E A ts (vec_clear E A ds i) i"

section \<open>The contracts\<close>

text \<open>The bytes of one element, and the values of \<open>n\<close> elements that start at offset \<open>j\<close>.\<close>

definition elem_enc :: "'v int_parser \<Rightarrow> 'v \<Rightarrow> byte list" where
  "elem_enc E t = pr_assign E (replicate (pr_fixed_bytes E) 0) 0 t"

definition values_at :: "'v int_parser \<Rightarrow> byte list \<Rightarrow> nat \<Rightarrow> nat \<Rightarrow> 'v list" where
  "values_at E ds j n = map (\<lambda>m. pr_value E ds (j + m * pr_fixed_bytes E)) [0..<n]"

text \<open>The elements of a vector; \<open>vec_ok\<close>: they are within the packet.\<close>

definition vec_values :: "'v int_parser \<Rightarrow> aux_policy \<Rightarrow> byte list \<Rightarrow> nat \<Rightarrow> 'v list" where
  "vec_values E A ds i = values_at E ds (vec_begin A i) (vec_size A ds i)"

definition vec_ok :: "'v int_parser \<Rightarrow> aux_policy \<Rightarrow> byte list \<Rightarrow> nat \<Rightarrow> bool" where
  "vec_ok E A ds i \<longleftrightarrow> vec_end E A ds i \<le> length ds"

text \<open>The outcome of an operation: the elements, and that what is behind the vector is still there.\<close>

definition vec_becomes :: "'v int_parser \<Rightarrow> aux_policy \<Rightarrow> nat \<Rightarrow> byte list \<Rightarrow> 'v list \<Rightarrow> byte list \<Rightarrow> bool" where
  "vec_becomes E A i ds vs ds' \<longleftrightarrow>
     vec_values E A ds' i = vs \<and> vec_ok E A ds' i \<and> drop (vec_end E A ds' i) ds' = drop (vec_end E A ds i) ds"

text \<open>
  An element parser of a fixed size reads and writes the bytes at its position only, in the same way
  wherever it is.
\<close>

locale element =
  fixes E :: "'v int_parser" and fits :: "'v \<Rightarrow> bool"
  assumes el_bytes: "0 < pr_fixed_bytes E"
    and el_len: "length (pr_assign E bs i v) = length bs"
    and el_value: "i + pr_fixed_bytes E \<le> length bs \<Longrightarrow> pr_value E bs i = pr_value E (take (pr_fixed_bytes E) (drop i bs)) 0"
    and el_assign: "i + pr_fixed_bytes E \<le> length bs \<Longrightarrow>
      pr_assign E bs i v = take i bs @ pr_assign E (take (pr_fixed_bytes E) (drop i bs)) 0 v @ drop (i + pr_fixed_bytes E) bs"
    and el_read: "length bs = pr_fixed_bytes E \<Longrightarrow> fits v \<Longrightarrow> pr_value E (pr_assign E bs 0 v) 0 = v"
begin

lemma length_enc [simp]: "length (elem_enc E t) = pr_fixed_bytes E"
  by (simp add: elem_enc_def el_len)

lemma length_concat_enc [simp]: "length (concat (map (elem_enc E) ts)) = length ts * pr_fixed_bytes E"
  by (induction ts) simp_all

lemma fill_zeros:
  "length xs = j \<Longrightarrow> vec_fill E ts j (xs @ replicate (length ts * pr_fixed_bytes E) 0 @ ys) = xs @ concat (map (elem_enc E) ts) @ ys"
proof (induction ts arbitrary: xs j)
  case (Cons t ts)
  define k where "k = pr_fixed_bytes E"
  define zs where "zs = replicate (length ts * k) (0 :: byte) @ ys"
  have r: "replicate (length (t # ts) * k) 0 @ ys = replicate k 0 @ zs" by (simp add: zs_def replicate_add)
  have "pr_assign E (xs @ replicate k 0 @ zs) j t = (xs @ elem_enc E t) @ zs"
    using el_assign [of j "xs @ replicate k 0 @ zs" t] Cons.prems by (simp add: elem_enc_def k_def)
  moreover have "length (xs @ elem_enc E t) = j + k" using Cons.prems by (simp add: k_def)
  ultimately show ?case using Cons.IH [of "xs @ elem_enc E t" "j + k"] unfolding r [unfolded k_def] by (simp add: zs_def k_def)
qed simp

lemma value_append: "length xs = j \<Longrightarrow> length s = pr_fixed_bytes E \<Longrightarrow> pr_value E (xs @ s @ ys) j = pr_value E s 0"
  using el_value [of j "xs @ s @ ys"] by simp

lemma value_enc: "fits t \<Longrightarrow> pr_value E (elem_enc E t) 0 = t"
  by (simp add: elem_enc_def el_read)

lemma length_values_at [simp]: "length (values_at E ds j n) = n"
  by (simp add: values_at_def)

lemma values_at_add: "values_at E ds j (m + n) = values_at E ds j m @ values_at E ds (j + m * pr_fixed_bytes E) n"
  by (rule nth_equalityI) (auto simp: values_at_def nth_append algebra_simps)

lemma values_at_cong:
  assumes "length xs = j" "length xs' = j'" "n * pr_fixed_bytes E \<le> length ys" "n * pr_fixed_bytes E \<le> length ys'"
    and "take (n * pr_fixed_bytes E) ys = take (n * pr_fixed_bytes E) ys'"
  shows "values_at E (xs @ ys) j n = values_at E (xs' @ ys') j' n"
proof (rule nth_equalityI)
  fix m
  assume "m < length (values_at E (xs @ ys) j n)"
  then have m: "m < n" by simp
  define k where "k = pr_fixed_bytes E"
  have mk: "m * k + k \<le> n * k" using m by (metis Suc_leI add.commute mult_Suc mult_le_mono1)
  have "take k (drop (m * k) ys) = drop (m * k) (take (m * k + k) ys)" for ys :: "byte list" by (simp add: take_drop add.commute)
  moreover have "take (m * k + k) ys = take (m * k + k) ys'"
    using assms(5) mk by (metis k_def min.absorb1 take_take)
  ultimately have t: "take k (drop (m * k) ys) = take k (drop (m * k) ys')" by metis
  have "pr_value E (xs @ ys) (j + m * k) = pr_value E (take k (drop (m * k) ys)) 0"
    using el_value [of "j + m * k" "xs @ ys"] assms(1,3) mk by (simp add: k_def)
  moreover have "pr_value E (xs' @ ys') (j' + m * k) = pr_value E (take k (drop (m * k) ys')) 0"
    using el_value [of "j' + m * k" "xs' @ ys'"] assms(2,4) mk by (simp add: k_def)
  ultimately show "values_at E (xs @ ys) j n ! m = values_at E (xs' @ ys') j' n ! m" using m t by (simp add: values_at_def k_def)
qed simp

lemma values_at_enc:
  assumes "length xs = j" "list_all fits ts"
  shows "values_at E (xs @ concat (map (elem_enc E) ts) @ ys) j (length ts) = ts"
  using assms
proof (induction ts arbitrary: xs j)
  case (Cons t ts)
  have hd: "values_at E (xs @ elem_enc E t @ concat (map (elem_enc E) ts) @ ys) j 1 = [t]"
    using Cons.prems by (simp add: values_at_def value_append value_enc)
  have "values_at E ((xs @ elem_enc E t) @ concat (map (elem_enc E) ts) @ ys) (j + pr_fixed_bytes E) (length ts) = ts"
    using Cons.IH [of "xs @ elem_enc E t" "j + pr_fixed_bytes E"] Cons.prems by simp
  then have "values_at E (xs @ elem_enc E t @ concat (map (elem_enc E) ts) @ ys) j (1 + length ts) = t # ts"
    unfolding values_at_add hd by simp
  then show ?case by simp
qed (simp add: values_at_def)

end

text \<open>
  The size of the vector at \<open>i\<close> is kept in front of its elements and can be any number below \<open>cap\<close>.
\<close>

locale aux =
  fixes A :: aux_policy and i cap :: nat
  assumes aux_len: "length (aux_set A v ds i) = length ds"
    and aux_tail: "aux_adjust A i \<le> length ds \<Longrightarrow> drop (aux_adjust A i) (aux_set A v ds i) = drop (aux_adjust A i) ds"
    and aux_get_set: "aux_adjust A i \<le> length ds \<Longrightarrow> v < cap \<Longrightarrow> aux_get A (aux_set A v ds i) i = v"
    and aux_local: "aux_adjust A i \<le> length ds \<Longrightarrow> aux_adjust A i \<le> length es \<Longrightarrow>
      take (aux_adjust A i) es = take (aux_adjust A i) ds \<Longrightarrow> aux_get A es i = aux_get A ds i"
    and aux_cap: "cap \<le> 2 ^ 64"
begin

text \<open>The packet in two parts, up to the first element and from there on.\<close>

lemma set_split:
  assumes "aux_adjust A i \<le> length ds" "v < cap"
  obtains P where "aux_set A v ds i = P @ drop (aux_adjust A i) ds" "length P = aux_adjust A i"
    "\<And>T. aux_get A (P @ T) i = v"
proof -
  define P where "P = take (aux_adjust A i) (aux_set A v ds i)"
  have a: "aux_set A v ds i = P @ drop (aux_adjust A i) ds"
    unfolding P_def using aux_tail [OF assms(1), of v] by (metis append_take_drop_id)
  have b: "length P = aux_adjust A i" using assms(1) by (simp add: P_def aux_len)
  have "aux_get A (P @ T) i = v" for T
  proof -
    have "aux_get A (P @ T) i = aux_get A (aux_set A v ds i) i"
      by (rule aux_local) (use a b assms in \<open>simp_all add: aux_len\<close>)
    then show ?thesis using aux_get_set [OF assms] by simp
  qed
  then show ?thesis using a b that by blast
qed

end

locale vector = element E fits + aux A i cap
  for E :: "'v int_parser" and fits and A and i cap
begin

abbreviation k :: nat where "k \<equiv> pr_fixed_bytes E"
abbreviation elems :: "byte list \<Rightarrow> 'v list" where "elems ds \<equiv> vec_values E A ds i"

text \<open>\<open>n\<close> elements from index \<open>p\<close> on are replaced by the bytes of \<open>m\<close> others.\<close>

lemma splice:
  assumes ok: "vec_ok E A ds i" and n: "p + n \<le> vec_size A ds i" and P: "length P = vec_begin A i" and C: "length C = m * k"
    and ds': "ds' = P @ take (p * k) T @ C @ drop ((p + n) * k) T" and T: "T = drop (vec_begin A i) ds"
    and s: "vec_size A ds' i = vec_size A ds i - n + m"
  shows "elems ds' = take p (elems ds) @ values_at E C 0 m @ drop (p + n) (elems ds) \<and> vec_ok E A ds' i \<and>
    drop (vec_end E A ds' i) ds' = drop (vec_end E A ds i) ds"
proof -
  define b z q where "b = vec_begin A i" and "z = vec_size A ds i" and "q = z - (p + n)"
  have z: "z = p + n + q" using n by (simp add: z_def q_def)
  have len: "b + z * k \<le> length ds" using ok by (simp add: vec_ok_def vec_end_def b_def z_def)
  have lT: "z * k \<le> length T" using len T by (simp add: b_def)
  have ds: "ds = take b ds @ T" by (simp add: T b_def)
  have pk: "p * k \<le> length T" "(p + n) * k \<le> length T" "q * k \<le> length (drop ((p + n) * k) T)" using lT z by (simp_all add: algebra_simps)
  have lb: "length (take b ds) = b" using len by simp
  have old: "elems ds = values_at E ds b p @ values_at E ds (b + p * k) n @ values_at E ds (b + (p + n) * k) q"
    unfolding vec_values_def b_def [symmetric] z_def [symmetric] z values_at_add by (simp add: algebra_simps)
  have sz: "vec_size A ds' i = p + m + q" using s z by (simp add: z_def)
  have "elems ds' = values_at E ds' b (p + m + q)"
    unfolding vec_values_def b_def [symmetric] sz ..
  also have "\<dots> = values_at E ds' b p @ values_at E ds' (b + p * k) m @ values_at E ds' (b + (p + m) * k) q"
    unfolding values_at_add by (simp add: algebra_simps)
  also have "values_at E ds' b p = values_at E ds b p"
    using values_at_cong [of P b "take b ds" b p "take (p * k) T @ C @ drop ((p + n) * k) T" T] P lb pk ds by (simp add: ds' b_def)
  also have "values_at E ds' (b + p * k) m = values_at E C 0 m"
    using values_at_cong [of "P @ take (p * k) T" "b + p * k" "[]" 0 m "C @ drop ((p + n) * k) T" C] P C pk
    by (simp add: ds' b_def)
  also have "values_at E ds' (b + (p + m) * k) q = values_at E ds (b + (p + n) * k) q"
  proof -
    have "ds = (take b ds @ take ((p + n) * k) T) @ drop ((p + n) * k) T" using ds by simp
    then show ?thesis
      using values_at_cong [of "P @ take (p * k) T @ C" "b + (p + m) * k" "take b ds @ take ((p + n) * k) T" "b + (p + n) * k" q
          "drop ((p + n) * k) T" "drop ((p + n) * k) T"] P C pk lb
      by (simp add: ds' b_def algebra_simps)
  qed
  finally have v: "elems ds' = take p (elems ds) @ values_at E C 0 m @ drop (p + n) (elems ds)" unfolding old by simp
  have e: "vec_end E A ds' i = b + (p + m + q) * k" unfolding vec_end_def sz by (simp add: b_def)
  have e0: "vec_end E A ds i = b + (p + n + q) * k" unfolding vec_end_def b_def [symmetric] z_def [symmetric] z by simp
  have "drop (b + (p + m + q) * k) ds' = drop (q * k) (drop ((p + n) * k) T)"
    unfolding ds' using P C pk by (simp add: b_def algebra_simps)
  then have "drop (vec_end E A ds' i) ds' = drop (q * k) (drop ((p + n) * k) T)" by (simp only: e)
  also have "\<dots> = drop (vec_end E A ds i) ds" unfolding e0 T b_def [symmetric] by (simp add: algebra_simps)
  finally have t: "drop (vec_end E A ds' i) ds' = drop (vec_end E A ds i) ds" .
  have "b + (p + m + q) * k \<le> length ds'" unfolding ds' using P C pk by (simp add: b_def algebra_simps)
  then have "vec_ok E A ds' i" by (simp only: vec_ok_def e)
  then show ?thesis using v t by blast
qed

lemma insert_bytes:
  assumes ok: "vec_ok E A ds i" and p: "p \<le> vec_size A ds i" and m: "vec_size A ds i + m < cap" and C: "length C = m * k"
  shows "vec_becomes E A i ds (take p (elems ds) @ values_at E C 0 m @ drop p (elems ds))
    (insert_list (vec_begin A i + p * k) C (vec_setSize A (vec_size A ds i + m) ds i))"
proof -
  have l: "vec_begin A i + vec_size A ds i * k \<le> length ds" using ok by (simp add: vec_ok_def vec_end_def)
  have "p * k \<le> vec_size A ds i * k" using p by simp
  then have pk: "p * k \<le> length ds - vec_begin A i" "vec_begin A i \<le> length ds" using l by linarith+
  obtain P where P: "aux_set A (vec_size A ds i + m) ds i = P @ drop (vec_begin A i) ds" "length P = vec_begin A i"
      "\<And>T. aux_get A (P @ T) i = vec_size A ds i + m"
    using set_split [of ds "vec_size A ds i + m"] pk(2) m by (auto simp: vec_begin_def)
  define ds' where "ds' = P @ take (p * k) (drop (vec_begin A i) ds) @ C @ drop ((p + 0) * k) (drop (vec_begin A i) ds)"
  have "insert_list (vec_begin A i + p * k) C (vec_setSize A (vec_size A ds i + m) ds i) = ds'"
    unfolding vec_setSize_def P(1) ds'_def using pk P(2) by (simp add: insert_list_def)
  moreover have "vec_size A ds' i = vec_size A ds i - 0 + m" unfolding vec_size_def ds'_def using P(3) by (simp add: vec_size_def)
  ultimately show ?thesis using splice [OF ok, of p 0 P C m ds'] p P(2) C by (simp add: ds'_def vec_becomes_def)
qed

lemma erase_elements:
  assumes ok: "vec_ok E A ds i" and n: "p + n \<le> vec_size A ds i" and c: "vec_size A ds i < cap"
  shows "vec_becomes E A i ds (take p (elems ds) @ drop (p + n) (elems ds)) (vec_erase E A (vec_begin A i + p * k) n ds i)"
proof -
  have l: "vec_begin A i + vec_size A ds i * k \<le> length ds" using ok by (simp add: vec_ok_def vec_end_def)
  have "(p + n) * k \<le> vec_size A ds i * k" using n by (rule mult_le_mono1)
  then have pk: "(p + n) * k \<le> length ds - vec_begin A i" "vec_begin A i \<le> length ds" using l by linarith+
  have pk': "p * k \<le> length ds - vec_begin A i" using pk(1) by (simp add: algebra_simps)
  have w: "(vec_size A ds i + 2 ^ 64 - n) mod 2 ^ 64 = vec_size A ds i - n"
  proof -
    have "vec_size A ds i < 2 ^ 64" using c aux_cap by linarith
    moreover have "vec_size A ds i + 2 ^ 64 - n = (vec_size A ds i - n) + 2 ^ 64" using n by linarith
    ultimately show ?thesis by (metis less_imp_diff_less mod_add_self2 mod_less)
  qed
  obtain P where P: "aux_set A (vec_size A ds i - n) ds i = P @ drop (vec_begin A i) ds" "length P = vec_begin A i"
      "\<And>T. aux_get A (P @ T) i = vec_size A ds i - n"
    using set_split [of ds "vec_size A ds i - n"] pk(2) c less_imp_diff_less [OF c, of n] by (auto simp: vec_begin_def)
  define ds' where "ds' = P @ take (p * k) (drop (vec_begin A i) ds) @ [] @ drop ((p + n) * k) (drop (vec_begin A i) ds)"
  have "vec_erase E A (vec_begin A i + p * k) n ds i = ds'"
    unfolding vec_erase_def w vec_setSize_def P(1) ds'_def using pk pk' P(2) by (simp add: cut_list_def algebra_simps)
  moreover have "vec_size A ds' i = vec_size A ds i - n + 0" unfolding vec_size_def ds'_def using P(3) by (simp add: vec_size_def)
  ultimately show ?thesis using splice [OF ok, of p n P "[]" 0 ds'] n P(2) by (simp add: ds'_def vec_becomes_def values_at_def)
qed

lemma size_elems [simp]: "length (elems ds) = vec_size A ds i"
  by (simp add: vec_values_def)

lemma insert_elements:
  assumes ok: "vec_ok E A ds i" and p: "p \<le> vec_size A ds i" and m: "vec_size A ds i + length ts < cap" and f: "list_all fits ts"
  shows "vec_becomes E A i ds (take p (elems ds) @ ts @ drop p (elems ds)) (vec_insert_range E A (vec_begin A i + p * k) ts ds i)"
proof -
  define pos ds1 where "pos = vec_begin A i + p * k" and "ds1 = vec_setSize A (vec_size A ds i + length ts) ds i"
  have "vec_begin A i + vec_size A ds i * k \<le> length ds" "p * k \<le> vec_size A ds i * k" using ok p by (simp_all add: vec_ok_def vec_end_def mult_le_mono1 del: mult_le_cancel2)
  then have "vec_begin A i + p * k \<le> length ds" by linarith
  then have "pos \<le> length ds1" by (simp add: pos_def ds1_def vec_setSize_def aux_len)
  then have "vec_insert_range E A pos ts ds i = insert_list pos (concat (map (elem_enc E) ts)) ds1"
    using fill_zeros [of "take pos ds1" pos ts "drop pos ds1"]
    by (simp add: vec_insert_range_def vec_shift_def ds1_def [symmetric] insert_list_def)
  then show ?thesis
    using insert_bytes [OF ok p m, of "concat (map (elem_enc E) ts)"] values_at_enc [of "[]" 0 ts "[]"] f by (simp add: pos_def ds1_def)
qed

lemma insert_n_elements:
  assumes "vec_ok E A ds i" "p \<le> vec_size A ds i" "vec_size A ds i + n < cap" "fits t"
  shows "vec_becomes E A i ds (take p (elems ds) @ replicate n t @ drop p (elems ds)) (vec_insert_n E A (vec_begin A i + p * k) n t ds i)"
  using insert_elements [of ds p "replicate n t"] assms by (simp add: vec_insert_n_def vec_insert_range_def list_all_iff)

lemma insert_element:
  assumes "vec_ok E A ds i" "p \<le> vec_size A ds i" "vec_size A ds i + 1 < cap" "fits t"
  shows "vec_becomes E A i ds (take p (elems ds) @ t # drop p (elems ds)) (vec_insert E A (vec_begin A i + p * k) t ds i)"
  using insert_elements [of ds p "[t]"] assms by (simp add: vec_insert_def vec_insert_range_def)

lemma clear_elements:
  assumes "vec_ok E A ds i" "vec_size A ds i < cap"
  shows "vec_becomes E A i ds [] (vec_clear E A ds i)"
  using erase_elements [of ds 0 "vec_size A ds i"] assms by (simp add: vec_clear_def)

lemma push_back_elements:
  assumes "vec_ok E A ds i" "vec_size A ds i + n < cap" "fits t"
  shows "vec_becomes E A i ds (elems ds @ replicate n t) (vec_push_back E A t n ds i)"
  using insert_n_elements [of ds "vec_size A ds i" n t] assms by (simp add: vec_push_back_def vec_end_def)

lemma push_front_elements:
  assumes "vec_ok E A ds i" "vec_size A ds i + n < cap" "fits t"
  shows "vec_becomes E A i ds (replicate n t @ elems ds) (vec_push_front E A t n ds i)"
  using insert_n_elements [of ds 0 n t] assms by (simp add: vec_push_front_def)

lemma resize_elements:
  assumes "vec_ok E A ds i" "vec_size A ds i < cap" "n < cap" "fits t"
  shows "vec_becomes E A i ds (take n (elems ds) @ replicate (n - vec_size A ds i) t) (vec_resize E A n t ds i)"
proof (cases "n \<le> vec_size A ds i")
  case True
  then show ?thesis using erase_elements [of ds n "vec_size A ds i - n"] assms by (simp add: vec_resize_def)
next
  case False
  then show ?thesis using push_back_elements [of ds "n - vec_size A ds i" t] assms by (simp add: vec_resize_def)
qed

lemma becomes_trans:
  "vec_becomes E A i ds vs ds' \<Longrightarrow> vec_becomes E A i ds' ws ds'' \<Longrightarrow> vec_becomes E A i ds ws ds''"
  by (simp add: vec_becomes_def)

lemma push_all_elements:
  assumes "vec_ok E A ds i" "vec_size A ds i + length ts < cap" "list_all fits ts"
  shows "vec_becomes E A i ds (elems ds @ ts) (vec_push_all E A ts ds i)"
  using assms
proof (induction ts arbitrary: ds)
  case (Cons t ts)
  have p: "vec_becomes E A i ds (elems ds @ [t]) (vec_push_back E A t 1 ds i)" using push_back_elements [of ds 1 t] Cons.prems by simp
  then have e: "elems (vec_push_back E A t 1 ds i) = elems ds @ [t]" and o: "vec_ok E A (vec_push_back E A t 1 ds i) i" by (simp_all add: vec_becomes_def)
  have z: "vec_size A (vec_push_back E A t 1 ds i) i = vec_size A ds i + 1" using arg_cong [OF e, of length] by simp
  have "vec_becomes E A i (vec_push_back E A t 1 ds i) ((elems ds @ [t]) @ ts) (vec_push_all E A ts (vec_push_back E A t 1 ds i) i)"
    using Cons.IH [OF o] Cons.prems z e by simp
  then show ?case using becomes_trans [OF p] by simp
qed (simp add: vec_becomes_def)

lemma assign_elements:
  assumes "vec_ok E A ds i" "vec_size A ds i < cap" "length ts < cap" "list_all fits ts"
  shows "vec_becomes E A i ds ts (vec_assign E A ts ds i)"
proof -
  have c: "vec_becomes E A i ds [] (vec_clear E A ds i)" by (rule clear_elements [OF assms(1,2)])
  then have e: "elems (vec_clear E A ds i) = []" "vec_ok E A (vec_clear E A ds i) i" by (simp_all add: vec_becomes_def)
  have "vec_size A (vec_clear E A ds i) i = 0" using arg_cong [OF e(1), of length] by simp
  then show ?thesis using becomes_trans [OF c] push_all_elements [OF e(2), of ts] e(1) assms(3,4) by (simp add: vec_assign_def)
qed

end

section \<open>The parsers keep the contracts\<close>

lemma netbit_append: "netbit (xs @ ys) q \<longleftrightarrow> (if q < 8 * length xs then netbit xs q else netbit ys (q - 8 * length xs))"
proof (cases "q < 8 * length xs")
  case True
  then have "q div 8 < length xs" by auto
  then show ?thesis using True by (simp add: netbit_def nth_append)
next
  case False
  define r where "r = q - 8 * length xs"
  have q: "q = 8 * length xs + r" using False by (simp add: r_def)
  have "q div 8 = length xs + r div 8" "q mod 8 = r mod 8" by (simp_all add: q)
  then show ?thesis using False by (simp add: netbit_def nth_append r_def [symmetric])
qed

lemma netbit_slice: "x < 8 * n \<Longrightarrow> i + n \<le> length bs \<Longrightarrow> netbit (take n (drop i bs)) x = netbit bs (8 * i + x)"
proof -
  assume x: "x < 8 * n" and l: "i + n \<le> length bs"
  have "x div 8 < n" using x by auto
  moreover have "(8 * i + x) div 8 = i + x div 8" "(8 * i + x) mod 8 = x mod 8" by simp_all
  ultimately show ?thesis using l by (simp add: netbit_def)
qed

context net_field
begin

lemma value_slice:
  assumes "pr_static_assert P" "i + pr_fixed_bytes P \<le> length bs"
  shows "pr_value P bs i = pr_value P (take (pr_fixed_bytes P) (drop i bs)) 0"
proof (rule bit_word_eqI)
  fix j
  have h: "hi \<le> 8 * pr_fixed_bytes P" "lo < hi" using bytes [OF assms(1)] by auto
  show "bit (pr_value P bs i) j = bit (pr_value P (take (pr_fixed_bytes P) (drop i bs)) 0) j"
  proof (cases "j < hi - lo")
    case True
    have "8 * i + hi - 1 - j = 8 * i + (hi - 1 - j)" "hi - 1 - j < 8 * pr_fixed_bytes P" using True h by auto
    then show ?thesis
      using net_value [OF assms, of j] net_value [of 0 "take (pr_fixed_bytes P) (drop i bs)" j] assms
        netbit_slice [of "hi - 1 - j" "pr_fixed_bytes P" i bs] by simp
  qed (use net_value [OF assms, of j] net_value [of 0 "take (pr_fixed_bytes P) (drop i bs)" j] assms in simp)
qed

lemma assign_slice:
  assumes "pr_static_assert P" "i + pr_fixed_bytes P \<le> length bs"
  shows "pr_assign P bs i v = take i bs @ pr_assign P (take (pr_fixed_bytes P) (drop i bs)) 0 v @ drop (i + pr_fixed_bytes P) bs"
    (is "?l = ?r")
proof (rule netbit_ext)
  define n where "n = pr_fixed_bytes P"
  have h: "hi \<le> 8 * n" using bytes [OF assms(1)] by (simp add: n_def)
  fix q
  consider "q < 8 * i" | "8 * i \<le> q" "q < 8 * (i + n)" | "8 * (i + n) \<le> q" by linarith
  then show "netbit ?l q = netbit ?r q"
  proof cases
    case 1
    then show ?thesis using net_assign [OF assms, of v q] assms(2) netbit_slice [of q i 0 bs] by (simp add: netbit_append len)
  next
    case 2
    define x where "x = q - 8 * i"
    have q: "q = 8 * i + x" "x < 8 * n" using 2 by (auto simp: x_def)
    have "netbit ?r q = netbit (pr_assign P (take n (drop i bs)) 0 v) x" using q assms(2) by (simp add: netbit_append len n_def)
    also have "\<dots> = (if lo \<le> x \<and> x < hi then bit v (hi - 1 - x) else netbit bs q)"
      using net_assign [of 0 "take n (drop i bs)" v x] netbit_slice [of x n i bs] q assms by (simp add: n_def)
    also have "\<dots> = netbit ?l q" using net_assign [OF assms, of v q] q by (auto simp: add.assoc)
    finally show ?thesis ..
  next
    case 3
    have "netbit (take (length bs - (i + n)) (drop (i + n) bs)) (q - 8 * (i + n)) = netbit bs q"
    proof (cases "q < 8 * length bs")
      case True
      then show ?thesis using netbit_slice [of "q - 8 * (i + n)" "length bs - (i + n)" "i + n" bs] 3 assms(2) by (simp add: n_def)
    next
      case False
      then have "\<not> q div 8 < length bs" "\<not> (q - 8 * (i + n)) div 8 < length bs - (i + n)" using 3 by auto
      then show ?thesis by (simp add: netbit_def)
    qed
    moreover have "netbit ?r q = netbit (drop (i + n) bs) (q - 8 * (i + n))"
    proof -
      have "\<not> q < 8 * i" "\<not> q - 8 * i < 8 * n" "q - 8 * i - 8 * n = q - 8 * (i + n)"
        using 3 by (simp_all add: algebra_simps)
      then show ?thesis using assms(2) by (simp add: netbit_append len n_def)
    qed
    moreover have "netbit ?l q = netbit bs q" using 3 h net_assign [OF assms, of v q] by auto
    ultimately show ?thesis by simp
  qed
qed (use assms(2) in \<open>simp add: len\<close>)

lemma element_field:
  assumes "pr_static_assert P" "0 < pr_fixed_bytes P"
  shows "element P (\<lambda>v. take_bit (hi - lo) v = v)"
proof
  fix bs :: "byte list" and i :: nat and v :: "'a word"
  show "0 < pr_fixed_bytes P" by (rule assms(2))
  show "length (pr_assign P bs i v) = length bs" by (rule len)
  show "pr_value P (pr_assign P bs 0 v) 0 = v" if "length bs = pr_fixed_bytes P" "take_bit (hi - lo) v = v"
    using value_assign_take [OF assms(1), of 0 bs v] that by simp
qed (rule value_slice [OF assms(1)], assumption, rule assign_slice [OF assms(1)], assumption)

lemma number_roundtrip:
  assumes "pr_static_assert P" "p + pr_fixed_bytes P \<le> length ds" "v < 2 ^ (hi - lo)"
  shows "unat (pr_value P (pr_assign P ds p (of_nat v)) p) = v"
proof -
  have "hi - lo \<le> LENGTH('a)" using bytes [OF assms(1)] by simp
  then have "v < 2 ^ LENGTH('a)" using assms(3) by (meson le_less_trans less_le_trans not_less one_le_numeral power_increasing)
  then have "unat (of_nat v :: 'a word) = v" by (simp add: unat_of_nat)
  then show ?thesis using value_assign_take [OF assms(1,2), of "of_nat v"] assms(3)
    by (simp add: unsigned_take_bit_eq take_bit_nat_eq_self)
qed

text \<open>A field in front of the elements, at \<open>p\<close>.\<close>

lemma aux_in_front:
  assumes "pr_static_assert P" "p + pr_fixed_bytes P \<le> b" "hi - lo \<le> 64"
    and "aux_get A = (\<lambda>ds i. unat (pr_value P ds (f i)))" "aux_set A = (\<lambda>v ds i. pr_assign P ds (f i) (of_nat v))"
    and "f i = p" "aux_adjust A i = b"
  shows "aux A i (2 ^ (hi - lo))"
proof
  fix v :: nat and ds es :: "byte list"
  show "length (aux_set A v ds i) = length ds" by (simp add: assms(5) len)
  show "(2 :: nat) ^ (hi - lo) \<le> 2 ^ 64" using assms(3) by (rule power_increasing) simp
  assume l: "aux_adjust A i \<le> length ds"
  then have pl: "p + pr_fixed_bytes P \<le> length ds" using assms(2,7) by simp
  show "aux_get A (aux_set A v ds i) i = v" if "v < 2 ^ (hi - lo)"
    using number_roundtrip [OF assms(1) pl that] by (simp add: assms(4-6))
  have "pr_assign P ds p (of_nat v) =
      take p ds @ pr_assign P (take (pr_fixed_bytes P) (drop p ds)) 0 (of_nat v) @ drop (p + pr_fixed_bytes P) ds"
    by (rule assign_slice [OF assms(1) pl])
  moreover have "length (take p ds @ pr_assign P (take (pr_fixed_bytes P) (drop p ds)) 0 (of_nat v)) = p + pr_fixed_bytes P"
    using pl by (simp add: len)
  ultimately show "drop (aux_adjust A i) (aux_set A v ds i) = drop (aux_adjust A i) ds"
    using assms(2) pl by (simp add: assms(5-7) len)
  assume e: "aux_adjust A i \<le> length es" "take (aux_adjust A i) es = take (aux_adjust A i) ds"
  have "take (pr_fixed_bytes P) (drop p xs) = drop p (take (p + pr_fixed_bytes P) (take b xs))" for xs :: "byte list"
    using assms(2) by (simp add: take_drop min.absorb1 add.commute)
  moreover have "take b es = take b ds" using e(2) assms(7) by simp
  ultimately have "take (pr_fixed_bytes P) (drop p es) = take (pr_fixed_bytes P) (drop p ds)" by presburger
  then show "aux_get A es i = aux_get A ds i"
    using value_slice [OF assms(1) pl] value_slice [OF assms(1), of p es] e(1) assms(2,7) by (simp add: assms(4,6))
qed

end

text \<open>Size fields in front of the vector, at a fixed distance or elsewhere, counting elements or bytes.\<close>

context net_field
begin

lemma aux_prefix:
  assumes "pr_static_assert P" "hi - lo \<le> 64"
  shows "aux (PrefixAuxParserPolicy P) i (2 ^ (hi - lo))"
  by (rule aux_in_front [OF assms(1) _ assms(2), where f = "\<lambda>i. i" and p = i and b = "i + pr_fixed_bytes P"])
    (simp_all add: PrefixAuxParserPolicy_def)

lemma aux_fixed:
  assumes "pr_static_assert P" "hi - lo \<le> 64" "pr_fixed_bytes P \<le> Dist" "Dist \<le> i"
  shows "aux (FixedAuxParserPolicy P Dist) i (2 ^ (hi - lo))"
  by (rule aux_in_front [OF assms(1) _ assms(2), where f = "\<lambda>i. i - Dist" and p = "i - Dist" and b = i])
    (use assms(3,4) in \<open>simp_all add: FixedAuxParserPolicy_def\<close>)

lemma aux_dynamic:
  assumes "pr_static_assert P" "hi - lo \<le> 64" "p + pr_fixed_bytes P \<le> i"
  shows "aux (DynamicAuxParserPolicy P p) i (2 ^ (hi - lo))"
  by (rule aux_in_front [OF assms(1) assms(3,2), where f = "\<lambda>_. p"]) (simp_all add: DynamicAuxParserPolicy_def)

end

context aux
begin

lemma aux_transformed:
  assumes "0 < s"
  shows "aux (VectorParserBytesTransform s A) i ((cap + s - 1) div s)"
proof
  fix v :: nat and ds es :: "byte list"
  note d = VectorParserBytesTransform_def TransformAuxParserPolicy_def
  show "length (aux_set (VectorParserBytesTransform s A) v ds i) = length ds" by (simp add: d aux_len)
  have "(cap + s - 1) div s \<le> cap"
  proof (cases cap)
    case (Suc c)
    have "(c + s) div s = Suc (c div s)" using assms by (simp add: div_add_self2)
    then show ?thesis using Suc div_le_dividend [of c s] by simp
  qed (use assms in simp)
  then show "(cap + s - 1) div s \<le> 2 ^ 64" using aux_cap by linarith
  assume l: "aux_adjust (VectorParserBytesTransform s A) i \<le> length ds"
  then have l': "aux_adjust A i \<le> length ds" by (simp add: d)
  then show "drop (aux_adjust (VectorParserBytesTransform s A) i) (aux_set (VectorParserBytesTransform s A) v ds i) =
      drop (aux_adjust (VectorParserBytesTransform s A) i) ds" by (simp add: d aux_tail)
  show "aux_get (VectorParserBytesTransform s A) (aux_set (VectorParserBytesTransform s A) v ds i) i = v" if "v < (cap + s - 1) div s"
  proof -
    have "Suc v * s \<le> (cap + s - 1) div s * s" using that by (intro mult_le_mono1) simp
    also have "\<dots> \<le> cap + s - 1" by simp
    finally have "v * s < cap" using assms by simp
    then show ?thesis using aux_get_set [OF l', of "v * s"] assms by (simp add: d)
  qed
  assume "aux_adjust (VectorParserBytesTransform s A) i \<le> length es"
    "take (aux_adjust (VectorParserBytesTransform s A) i) es = take (aux_adjust (VectorParserBytesTransform s A) i) ds"
  then show "aux_get (VectorParserBytesTransform s A) es i = aux_get (VectorParserBytesTransform s A) ds i"
    using aux_local [OF l', of es] by (simp add: d)
qed

end

interpretation elem8: element UInt8Parser "\<lambda>v. take_bit (8 - 0) v = v"
  by (rule u8.element_field) (simp_all add: UInt8Parser_def)

interpretation elem16: element UInt16Parser "\<lambda>v. take_bit (16 - 0) v = v"
  by (rule u16.element_field) (simp_all add: UInt16Parser_def)

interpretation elem24: element UInt24Parser "\<lambda>v. take_bit (24 - 0) v = v"
  by (rule u24.element_field) (simp_all add: UInt24Parser_def)

interpretation elem32: element UInt32Parser "\<lambda>v. take_bit (32 - 0) v = v"
  by (rule u32.element_field) (simp_all add: UInt32Parser_def)

interpretation elem64: element UInt64Parser "\<lambda>v. take_bit (64 - 0) v = v"
  by (rule u64.element_field) (simp_all add: UInt64Parser_def)

interpretation prefix8: aux "PrefixAuxParserPolicy UInt8Parser" i "2 ^ (8 - 0)" for i
  by (rule u8.aux_prefix) (simp_all add: UInt8Parser_def)

interpretation prefix16: aux "PrefixAuxParserPolicy UInt16Parser" i "2 ^ (16 - 0)" for i
  by (rule u16.aux_prefix) (simp_all add: UInt16Parser_def)

interpretation bytes16: aux "VectorParserBytesTransform 4 (PrefixAuxParserPolicy UInt16Parser)" i "(2 ^ (16 - 0) + 4 - 1) div 4" for i
  by (rule prefix16.aux_transformed) simp

interpretation vec8_16: vector UInt16Parser "\<lambda>v. take_bit (16 - 0) v = v" "PrefixAuxParserPolicy UInt8Parser" i "2 ^ (8 - 0)" for i
  by unfold_locales

interpretation vec16_32: vector UInt32Parser "\<lambda>v. take_bit (32 - 0) v = v"
    "VectorParserBytesTransform 4 (PrefixAuxParserPolicy UInt16Parser)" i "(2 ^ (16 - 0) + 4 - 1) div 4" for i
  by unfold_locales

section \<open>Properties\<close>

text \<open>
  C20: A vector in a packet is a list of values: as long as the number of elements stays below what the size
  field can hold, inserting a range or copies of a value, erasing, assigning, appending and resizing
  have on the elements the effect the operation has on a list, with the elements within the packet,
  and they leave everything behind the vector as it was. It holds for any parser of a fixed size for
  the elements and for every way of keeping the size.
\<close>

theorem vector_is_list:
  assumes "vector E fits A i cap" "vec_ok E A ds i" "p + n \<le> vec_size A ds i" "vec_size A ds i + length ts < cap" "list_all fits ts" "fits t"
    and "vec_size A ds i + m < cap" "l < cap"
  shows "vec_becomes E A i ds (take p (vec_values E A ds i) @ ts @ drop p (vec_values E A ds i))
      (vec_insert_range E A (vec_begin A i + p * pr_fixed_bytes E) ts ds i) \<and>
    vec_becomes E A i ds (take p (vec_values E A ds i) @ drop (p + n) (vec_values E A ds i))
      (vec_erase E A (vec_begin A i + p * pr_fixed_bytes E) n ds i) \<and>
    vec_becomes E A i ds ts (vec_assign E A ts ds i) \<and>
    vec_becomes E A i ds (vec_values E A ds i @ replicate m t) (vec_push_back E A t m ds i) \<and>
    vec_becomes E A i ds (replicate m t @ vec_values E A ds i) (vec_push_front E A t m ds i) \<and>
    vec_becomes E A i ds (take l (vec_values E A ds i) @ replicate (l - vec_size A ds i) t) (vec_resize E A l t ds i)"
proof -
  have z: "vec_size A ds i < cap" "length ts < cap" "p \<le> vec_size A ds i" using assms(3,4) by linarith+
  show ?thesis
    using vector.insert_elements [OF assms(1,2) z(3) assms(4,5)] vector.erase_elements [OF assms(1,2,3) z(1)]
      vector.assign_elements [OF assms(1,2) z(1,2) assms(5)] vector.push_back_elements [OF assms(1,2,7,6)]
      vector.push_front_elements [OF assms(1,2,7,6)] vector.resize_elements [OF assms(1,2) z(1) assms(8,6)]
    by blast
qed

theorem vector_is_list_witness:
  "vec_becomes UInt16Parser (PrefixAuxParserPolicy UInt8Parser) 0 [2, 0, 1, 0, 2, 7] [1, 0x304, 2]
     (vec_insert_range UInt16Parser (PrefixAuxParserPolicy UInt8Parser) 3 [0x304] [2, 0, 1, 0, 2, 7] 0)"
proof -
  define A where "A = PrefixAuxParserPolicy UInt8Parser"
  have a: "vec_size A [2, 0, 1, 0, 2, 7] 0 = 2" "vec_begin A 0 = 1" by (simp_all add: A_def vec_size_def vec_begin_def PrefixAuxParserPolicy_def UInt8Parser_def)
  have v: "vec_values UInt16Parser A [2, 0, 1, 0, 2, 7] 0 = [1, 2]"
    by (simp add: vec_values_def a values_at_def upt_rec UInt16Parser_def parse_uint16_def)
  have o: "vec_ok UInt16Parser A [2, 0, 1, 0, 2, 7] 0" by (simp add: vec_ok_def vec_end_def a UInt16Parser_def)
  have "vec_begin A 0 + 1 * pr_fixed_bytes UInt16Parser = 3" by (simp add: a UInt16Parser_def)
  then show ?thesis
    unfolding A_def [symmetric] using vector_is_list [OF vec8_16.vector_axioms [of 0], folded A_def, OF o, of 1 0 "[0x304]" 0 0 0] by (simp add: a v numeral_3_eq_3)
qed

text \<open>
  The size field is not checked: when the number of elements does not fit, the elements are inserted
  and the number wraps around.
\<close>

lemma vector_size_wraps:
  assumes "vec_size (PrefixAuxParserPolicy UInt8Parser) ds i = 255" "i < length ds"
  shows "vec_size (PrefixAuxParserPolicy UInt8Parser) (vec_push_back_space E (PrefixAuxParserPolicy UInt8Parser) 1 ds i) i = 0"
    "length (vec_push_back_space E (PrefixAuxParserPolicy UInt8Parser) 1 ds i) = length ds + pr_fixed_bytes E"
proof -
  have "vec_end E (PrefixAuxParserPolicy UInt8Parser) ds i = i + 1 + 255 * pr_fixed_bytes E"
    using assms(1) by (simp add: vec_end_def vec_begin_def PrefixAuxParserPolicy_def UInt8Parser_def)
  then show "vec_size (PrefixAuxParserPolicy UInt8Parser) (vec_push_back_space E (PrefixAuxParserPolicy UInt8Parser) 1 ds i) i = 0"
    using assms by (simp add: vec_push_back_space_def vec_shift_def vec_setSize_def insert_list_def vec_size_def PrefixAuxParserPolicy_def
        UInt8Parser_def nth_append)
  show "length (vec_push_back_space E (PrefixAuxParserPolicy UInt8Parser) 1 ds i) = length ds + pr_fixed_bytes E"
    by (simp add: vec_push_back_space_def vec_shift_def vec_setSize_def insert_list_def PrefixAuxParserPolicy_def UInt8Parser_def)
qed

end
