(* ===== verification/Ip_Checksum.thy ===== *)
theory Ip_Checksum
  imports Packet_Headers Vector_Parser
begin

text \<open>
  The internet checksum, \<open>senf/Utils/IpChecksum.*\<close>, and its use in \<open>senf/Packets/DefaultBundle\<close>: IPv4
  headers, UDP, TCP and ICMPv6 with their pseudo headers, and what \<open>finalize\<close> writes into the headers.

  The bytes of a packet from its header to the end of its payload are a byte list. The packets in front
  of it in the chain are a list of types with their bytes, the nearest first. The key that a registry has
  for the next packet is an argument.
\<close>

section \<open>The checksum\<close>

record ip_checksum =
  ck_sum :: u32
  ck_odd :: bool

definition IpChecksum :: ip_checksum where
  "IpChecksum = \<lparr>ck_sum = 0, ck_odd = False\<rparr>"

definition ck_feed :: "byte \<Rightarrow> ip_checksum \<Rightarrow> ip_checksum" where
  "ck_feed b c = c\<lparr>ck_sum := ck_sum c + (if ck_odd c then ucast b else push_bit 8 (ucast b)), ck_odd := \<not> ck_odd c\<rparr>"

fun ck_feeds :: "byte list \<Rightarrow> ip_checksum \<Rightarrow> ip_checksum" where
  "ck_feeds [] c = c"
| "ck_feeds (b # bs) c = ck_feeds bs (ck_feed b c)"

lemma unat_drop_bit: "unat (drop_bit n v) = unat v div 2 ^ n" for v :: "'a::len word"
proof -
  have "take_bit LENGTH('a) (unat v) = unat v" by (rule take_bit_nat_eq_self) (rule unsigned_less)
  then show ?thesis unfolding unsigned_drop_bit_eq by (simp add: drop_bit_eq_div)
qed

lemma fold_unat:
  fixes v :: u32
  shows "unat (v AND 0xffff) = unat v mod 65536" "unat (drop_bit 16 v) = unat v div 65536"
    "unat ((v AND 0xffff) + drop_bit 16 v) = unat v mod 65536 + unat v div 65536"
proof -
  have "v AND 0xffff = take_bit 16 v" by (simp add: take_bit_eq_mask mask_eq_exp_minus_1)
  then show m: "unat (v AND 0xffff) = unat v mod 65536" by (simp add: unsigned_take_bit_eq) (simp add: take_bit_eq_mod)
  show d: "unat (drop_bit 16 v) = unat v div 65536" using unat_drop_bit [of 16 v] by simp
  have "unat v < 2 ^ 32" using unsigned_less [of v] by simp
  then have "unat v div 65536 < 65536" by (simp add: div_less_iff_less_mult)
  moreover have "unat v mod 65536 < 65536" by simp
  ultimately have "unat v mod 65536 + unat v div 65536 < 2 ^ 32" by simp
  then show "unat ((v AND 0xffff) + drop_bit 16 v) = unat v mod 65536 + unat v div 65536" using m d by (simp add: unat_word_ariths)
qed

function ck_fold :: "u32 \<Rightarrow> u32" where
  "ck_fold v = (if drop_bit 16 v \<noteq> 0 then ck_fold ((v AND 0xffff) + drop_bit 16 v) else v)"
  by pat_completeness auto
termination
proof (relation "measure unat")
  fix v :: u32
  assume "drop_bit 16 v \<noteq> 0"
  then have "0 < unat v div 65536" using fold_unat(2) [of v] by (metis gr0I unat_eq_0)
  then have "unat v mod 65536 + unat v div 65536 < unat v"
    using div_mult_mod_eq [of "unat v" 65536] by linarith
  then show "((v AND 0xffff) + drop_bit 16 v, v) \<in> measure unat" by (simp only: in_measure fold_unat(3))
qed simp

declare ck_fold.simps [simp del]

definition ck_value :: "ip_checksum \<Rightarrow> u16" where
  "ck_value c = ucast (NOT (ck_fold (ck_sum c)))"

section \<open>The headers that carry one\<close>

text \<open>Where the macros put a field.\<close>

definition field_offset :: "string \<Rightarrow> item list \<Rightarrow> nat" where
  "field_offset n its = (case find (\<lambda>p. pl_name p = n) (fields_of its) of None \<Rightarrow> 0 | Some p \<Rightarrow> pl_offset p)"

lemma header_offsets [simp]:
  "field_offset ''length'' IPv4PacketParser = 2" "field_offset ''protocol'' IPv4PacketParser = 9"
  "field_offset ''checksum'' IPv4PacketParser = 10" "field_offset ''source'' IPv4PacketParser = 12"
  "field_offset ''destination'' IPv4PacketParser = 16"
  "field_offset ''length'' IPv6PacketParser = 4" "field_offset ''nextHeader'' IPv6PacketParser = 6"
  "field_offset ''source'' IPv6PacketParser = 8" "field_offset ''destination'' IPv6PacketParser = 24"
  "field_offset ''length'' UDPPacketParser = 4" "field_offset ''checksum'' UDPPacketParser = 6"
  "field_offset ''checksum'' ICMPv6PacketParser = 2"
  by (simp_all add: field_offset_def IPv4PacketParser_def IPv6PacketParser_def UDPPacketParser_def ICMPv6PacketParser_def layout_defs)

text \<open>\<open>rfind<OtherPacket>(nothrow)\<close> over the packets in front.\<close>

datatype hdr_type = HIPv4 | HIPv6 | HOther

definition pkt_rfind :: "hdr_type \<Rightarrow> (hdr_type \<times> byte list) list \<Rightarrow> byte list option" where
  "pkt_rfind t before = map_option snd (find (\<lambda>p. fst p = t) before)"

definition ipv4_calcChecksum :: "byte list \<Rightarrow> parser_error + u16" where
  "ipv4_calcChecksum ds =
     (case validate ds 0 (fixed_bytes IPv4PacketParser) of Inl x \<Rightarrow> Inl x
      | Inr _ \<Rightarrow>
          let ofs = field_offset ''checksum'' IPv4PacketParser;
              c1 = ck_feeds (subrange 0 ofs ds) IpChecksum;
              c2 = ck_feeds (subrange (ofs + 2) (fixed_bytes IPv4PacketParser) ds) c1
          in Inr (ck_value c2))"

definition ipv4_validateChecksum :: "byte list \<Rightarrow> parser_error + bool" where
  "ipv4_validateChecksum ds =
     map_sum id (\<lambda>c. pr_value UInt16Parser ds (field_offset ''checksum'' IPv4PacketParser) = c) (ipv4_calcChecksum ds)"

definition ipv4_finalize :: "byte option \<Rightarrow> byte list \<Rightarrow> parser_error + byte list" where
  "ipv4_finalize key ds =
     (case validate ds 0 (fixed_bytes IPv4PacketParser) of Inl x \<Rightarrow> Inl x
      | Inr _ \<Rightarrow>
          let ds1 = pr_assign UInt16Parser ds (field_offset ''length'' IPv4PacketParser) (of_nat (length ds));
              ds2 = (case key of None \<Rightarrow> ds1 | Some k \<Rightarrow> pr_assign UInt8Parser ds1 (field_offset ''protocol'' IPv4PacketParser) k)
          in map_sum id (pr_assign UInt16Parser ds2 (field_offset ''checksum'' IPv4PacketParser)) (ipv4_calcChecksum ds2))"

text \<open>IPv6: no packet behind this one is \<open>None\<close>, one without a key \<open>Some None\<close>.\<close>

definition ipv6_finalize :: "byte option option \<Rightarrow> byte list \<Rightarrow> parser_error + byte list" where
  "ipv6_finalize nxt ds =
     (case validate ds 0 (fixed_bytes IPv6PacketParser) of Inl x \<Rightarrow> Inl x
      | Inr _ \<Rightarrow>
          let ds1 = pr_assign UInt16Parser ds (field_offset ''length'' IPv6PacketParser) (of_nat (length ds - fixed_bytes IPv6PacketParser));
              ofs = field_offset ''nextHeader'' IPv6PacketParser
          in Inr (case nxt of None \<Rightarrow> pr_assign UInt8Parser ds1 ofs 59 | Some None \<Rightarrow> ds1 | Some (Some k) \<Rightarrow> pr_assign UInt8Parser ds1 ofs k))"

text \<open>The addresses of the header found in front.\<close>

definition feed_ipv4_addresses :: "byte list \<Rightarrow> ip_checksum \<Rightarrow> ip_checksum" where
  "feed_ipv4_addresses h c =
     (let src = field_offset ''source'' IPv4PacketParser; dst = field_offset ''destination'' IPv4PacketParser
      in ck_feeds (subrange dst (dst + 4) h) (ck_feeds (subrange src (src + 4) h) c))"

definition feed_ipv6_addresses :: "byte list \<Rightarrow> ip_checksum \<Rightarrow> ip_checksum" where
  "feed_ipv6_addresses h c =
     (let src = field_offset ''source'' IPv6PacketParser; dst = field_offset ''destination'' IPv6PacketParser
      in ck_feeds (subrange dst (dst + 16) h) (ck_feeds (subrange src (src + 16) h) c))"

definition nonzero_sum :: "u16 \<Rightarrow> u16" where
  "nonzero_sum rv = (if rv \<noteq> 0 then rv else 0xffff)"

definition udp_pseudo :: "(hdr_type \<times> byte list) list \<Rightarrow> byte list \<Rightarrow> ip_checksum \<Rightarrow> ip_checksum" where
  "udp_pseudo before ds c =
     (let ofs = field_offset ''length'' UDPPacketParser
      in case pkt_rfind HIPv4 before of
           Some h \<Rightarrow> ck_feeds (subrange ofs (ofs + 2) ds) (ck_feed 17 (ck_feed 0 (feed_ipv4_addresses h c)))
         | None \<Rightarrow> (case pkt_rfind HIPv6 before of
               Some h \<Rightarrow> ck_feed 17 (ck_feed 0 (ck_feeds (subrange ofs (ofs + 2) ds) (feed_ipv6_addresses h c)))
             | None \<Rightarrow> c))"

definition udp_calcChecksum :: "(hdr_type \<times> byte list) list \<Rightarrow> byte list \<Rightarrow> u16" where
  "udp_calcChecksum before ds =
     (let ofs = field_offset ''checksum'' UDPPacketParser;
          c = udp_pseudo before ds IpChecksum
      in nonzero_sum (ck_value (ck_feeds (drop (ofs + 2) ds) (ck_feeds (subrange 0 ofs ds) c))))"

definition udp_finalize :: "(hdr_type \<times> byte list) list \<Rightarrow> byte list \<Rightarrow> parser_error + byte list" where
  "udp_finalize before ds =
     (case validate ds 0 (fixed_bytes UDPPacketParser) of Inl x \<Rightarrow> Inl x
      | Inr _ \<Rightarrow>
          let ds1 = pr_assign UInt16Parser ds (field_offset ''length'' UDPPacketParser) (of_nat (length ds))
          in Inr (pr_assign UInt16Parser ds1 (field_offset ''checksum'' UDPPacketParser) (udp_calcChecksum before ds1)))"

text \<open>
  TCP: \<open>feed\<close> takes a byte, so that \<open>boost::uint16_t(size) & 0xff00\<close> is truncated to its low byte. The data
  offset is the bit field of four bits at byte 12.
\<close>

definition tcp_feed_length :: "nat \<Rightarrow> ip_checksum \<Rightarrow> ip_checksum" where
  "tcp_feed_length n c = ck_feed (ucast ((of_nat n :: u16) AND 0x00ff)) (ck_feed (ucast ((of_nat n :: u16) AND 0xff00)) c)"

definition tcp_pseudo :: "(hdr_type \<times> byte list) list \<Rightarrow> byte list \<Rightarrow> ip_checksum \<Rightarrow> ip_checksum" where
  "tcp_pseudo before ds c =
     (case pkt_rfind HIPv4 before of
        Some h \<Rightarrow> tcp_feed_length (length ds) (ck_feed 6 (ck_feed 0 (feed_ipv4_addresses h c)))
      | None \<Rightarrow> (case pkt_rfind HIPv6 before of
            Some h \<Rightarrow> ck_feed 6 (ck_feed 0 (tcp_feed_length (length ds) (feed_ipv6_addresses h c)))
          | None \<Rightarrow> c))"

definition tcp_calcChecksum :: "(hdr_type \<times> byte list) list \<Rightarrow> byte list \<Rightarrow> u16" where
  "tcp_calcChecksum before ds =
     nonzero_sum (ck_value (ck_feeds (drop 18 ds) (ck_feeds (subrange 0 16 ds) (tcp_pseudo before ds IpChecksum))))"

definition tcp_finalize :: "(hdr_type \<times> byte list) list \<Rightarrow> byte list \<Rightarrow> parser_error + byte list" where
  "tcp_finalize before ds =
     (case validate ds 0 20 of Inl x \<Rightarrow> Inl x
      | Inr _ \<Rightarrow>
          let ds1 = pr_assign (UIntFieldParser 0 4) ds 12 (of_nat (length ds))
          in Inr (pr_assign UInt16Parser ds1 16 (tcp_calcChecksum before ds1)))"

definition icmpv6_calcChecksum :: "(hdr_type \<times> byte list) list \<Rightarrow> byte list \<Rightarrow> u16" where
  "icmpv6_calcChecksum before ds =
     (case pkt_rfind HIPv6 before of
        None \<Rightarrow> 0
      | Some h \<Rightarrow>
          let ofs = field_offset ''checksum'' ICMPv6PacketParser;
              sz = (of_nat (length ds) :: u32);
              c1 = feed_ipv6_addresses h IpChecksum;
              c2 = ck_feeds [ucast (drop_bit 24 sz AND 0xff), ucast (drop_bit 16 sz AND 0xff), ucast (drop_bit 8 sz AND 0xff), ucast (sz AND 0xff)] c1;
              c3 = ck_feed 58 (ck_feed 0 c2)
          in nonzero_sum (ck_value (ck_feeds (drop (ofs + 2) ds) (ck_feeds (subrange 0 ofs ds) c3))))"

section \<open>What the sum is\<close>

text \<open>The reference of RFC 1071: the sum of the 16 bit words in one's complement, a last odd byte padded with zero.\<close>

fun sum16 :: "byte list \<Rightarrow> nat" where
  "sum16 [] = 0"
| "sum16 [a] = 256 * unat a"
| "sum16 (a # b # bs) = 256 * unat a + unat b + sum16 bs"

definition ones_complement :: "nat \<Rightarrow> nat" where
  "ones_complement n = (if n = 0 then 0 else (n - 1) mod 65535 + 1)"

lemma ones_complement_le: "ones_complement n \<le> 65535"
proof -
  have "(n - 1) mod 65535 < 65535" by simp
  then have "(n - 1) mod 65535 + 1 \<le> 65535" by linarith
  then show ?thesis by (simp add: ones_complement_def)
qed

lemma ones_complement_small: "n \<le> 65535 \<Longrightarrow> ones_complement n = n"
  by (simp add: ones_complement_def)

lemma ones_complement_shift: "ones_complement (65535 * q + n) = ones_complement n" if "0 < n"
proof -
  have "65535 * q + n - 1 = 65535 * q + (n - 1)" using that by simp
  moreover have "(65535 * q + (n - 1)) mod 65535 = (n - 1) mod 65535" by (rule mod_mult_self4)
  ultimately show ?thesis using that unfolding ones_complement_def by (simp only: add_is_0) simp
qed

lemma unat_ck_fold: "unat (ck_fold v) = ones_complement (unat v)"
proof (induction v rule: ck_fold.induct)
  case (1 v)
  define q r where "q = unat v div 65536" and "r = unat v mod 65536"
  have v: "unat v = 65536 * q + r" by (simp add: q_def r_def)
  show ?case
  proof (cases "drop_bit 16 v = 0")
    case True
    then have "q = 0" using fold_unat(2) [of v] by (simp add: q_def)
    moreover have "r \<le> 65535" using mod_less_divisor [of 65536 "unat v"] by (simp add: r_def)
    ultimately show ?thesis using True v by (simp add: ck_fold.simps [of v] ones_complement_small)
  next
    case False
    then have q: "0 < q" using fold_unat(2) [of v] by (metis gr0I q_def unat_eq_0)
    have "unat (ck_fold v) = ones_complement (r + q)"
      using 1 [OF False] False fold_unat(3) [of v] by (simp add: ck_fold.simps [of v] q_def r_def)
    also have "\<dots> = ones_complement (65535 * q + (r + q))" by (rule ones_complement_shift [symmetric]) (use q in simp)
    finally show ?thesis using v by (simp add: algebra_simps)
  qed
qed

lemma unat_ck_value: "unat (ck_value c) = 65535 - ones_complement (unat (ck_sum c))"
proof -
  define w :: u16 where "w = ucast (ck_fold (ck_sum c))"
  have "ck_value c = NOT w" unfolding ck_value_def w_def by (rule bit_word_eqI) (auto simp: bit_simps)
  also have "\<dots> = -1 - w" by (simp add: not_eq_complement)
  finally have "unat (ck_value c) = unat (-1 - w)" by simp
  also have "\<dots> = unat (-1 :: u16) - unat w" by (rule unat_sub) simp
  also have "unat (-1 :: u16) = 65535" by (simp add: unsigned_minus_1_eq_mask mask_eq_exp_minus_1)
  also have "unat w = ones_complement (unat (ck_sum c))"
  proof -
    have "unat w = unat (ck_fold (ck_sum c)) mod 2 ^ 16" by (simp add: w_def unsigned_ucast_eq take_bit_eq_mod)
    also have "\<dots> = unat (ck_fold (ck_sum c))" using ones_complement_le [of "unat (ck_sum c)"] unat_ck_fold [of "ck_sum c"] by simp
    finally show ?thesis by (simp add: unat_ck_fold)
  qed
  finally show ?thesis .
qed

lemma feeds_append: "ck_feeds (xs @ ys) c = ck_feeds ys (ck_feeds xs c)"
  by (induction xs arbitrary: c) simp_all

lemma feed_feeds: "ck_feed b c = ck_feeds [b] c"
  by simp

lemma feeds_even: "ck_feeds bs \<lparr>ck_sum = v, ck_odd = False\<rparr> = \<lparr>ck_sum = v + of_nat (sum16 bs), ck_odd = odd (length bs)\<rparr>"
proof (induction bs arbitrary: v rule: sum16.induct)
  case (2 a)
  then show ?case by (simp add: ck_feed_def push_bit_eq_mult)
next
  case (3 a b bs)
  have "ck_feed b (ck_feed a \<lparr>ck_sum = v, ck_odd = False\<rparr>) = \<lparr>ck_sum = v + (256 * ucast a + ucast b), ck_odd = False\<rparr>"
    by (simp add: ck_feed_def push_bit_eq_mult algebra_simps)
  then show ?case using 3 [of "v + (256 * ucast a + ucast b)"] by (simp add: algebra_simps)
qed simp

lemma sum16_le: "sum16 bs \<le> 65535 * ((length bs + 1) div 2)"
proof (induction bs rule: sum16.induct)
  case (2 a)
  have "unat a < 256" using unsigned_less [of a] by simp
  then show ?case by simp
next
  case (3 a b bs)
  have "unat a < 256" "unat b < 256" using unsigned_less [of a] unsigned_less [of b] by simp_all
  then have "256 * unat a + unat b \<le> 65535" by linarith
  moreover have "(length (a # b # bs) + 1) div 2 = Suc ((length bs + 1) div 2)" by simp
  ultimately show ?case using 3 by simp
qed simp

definition internet_checksum :: "byte list \<Rightarrow> nat" where
  "internet_checksum bs = 65535 - ones_complement (sum16 bs)"

lemma ck_bytes:
  assumes "length bs \<le> 131074"
  shows "unat (ck_value (ck_feeds bs IpChecksum)) = internet_checksum bs"
proof -
  have "(length bs + 1) div 2 \<le> 65537" using assms by simp
  then have "65535 * ((length bs + 1) div 2) \<le> 65535 * 65537" by (rule mult_le_mono2)
  then have "sum16 bs < 2 ^ 32" using sum16_le [of bs] by simp
  then have "unat (of_nat (sum16 bs) :: u32) = sum16 bs" by (simp add: unat_of_nat)
  then show ?thesis unfolding IpChecksum_def feeds_even unat_ck_value internet_checksum_def by simp
qed

lemma sum16_append: "even (length xs) \<Longrightarrow> sum16 (xs @ ys) = sum16 xs + sum16 ys"
  by (induction xs rule: sum16.induct) simp_all

text \<open>A sum of zero: the words add up to a multiple of \<open>0xffff\<close>.\<close>

lemma internet_checksum_zero: "internet_checksum bs = 0 \<longleftrightarrow> sum16 bs mod 65535 = 0 \<and> sum16 bs \<noteq> 0"
proof (cases "sum16 bs")
  case (Suc m)
  have "m mod 65535 < 65535" by simp
  then have "internet_checksum bs = 0 \<longleftrightarrow> m mod 65535 = 65534" using Suc by (auto simp: internet_checksum_def ones_complement_def)
  also have "\<dots> \<longleftrightarrow> Suc m mod 65535 = 0" using mod_Suc [of m 65535] by auto
  finally show ?thesis using Suc by simp
qed (simp add: internet_checksum_def ones_complement_def)

lemma internet_checksum_mod: "(sum16 bs + internet_checksum bs) mod 65535 = 0"
proof (cases "sum16 bs")
  case (Suc m)
  define r where "r = m mod 65535"
  have r: "r < 65535" by (simp add: r_def)
  have "m = 65535 * (m div 65535) + r" by (simp add: r_def)
  then have "Suc m + (65535 - (r + 1)) = 65535 * (m div 65535) + 65535" using r by linarith
  then have "(Suc m + (65535 - (r + 1))) mod 65535 = 0" by simp
  then show ?thesis using Suc by (simp add: internet_checksum_def ones_complement_def r_def)
qed (simp add: internet_checksum_def ones_complement_def)

definition word_bytes :: "u16 \<Rightarrow> byte list" where
  "word_bytes v = [ucast (drop_bit 8 v), ucast v]"

lemma length_word_bytes [simp]: "length (word_bytes v) = 2"
  by (simp add: word_bytes_def)

lemma sum16_word [simp]: "sum16 (word_bytes v) = unat v"
proof -
  have h: "unat (ucast (drop_bit 8 v) :: byte) = unat v div 256"
  proof -
    have "unat (drop_bit 8 v) = unat v div 256" using unat_drop_bit [of 8 v] by simp
    moreover have "unat v div 256 < 256" using unsigned_less [of v] by (simp add: div_less_iff_less_mult)
    ultimately show ?thesis by (simp add: unsigned_ucast_eq take_bit_eq_mod)
  qed
  have l: "unat (ucast v :: byte) = unat v mod 256" by (simp add: unsigned_ucast_eq take_bit_eq_mod)
  show ?thesis unfolding word_bytes_def using h l div_mult_mod_eq [of "unat v" 256] by simp
qed

lemma write_word:
  assumes "i + 2 \<le> length ds"
  shows "pr_assign UInt16Parser ds i v = take i ds @ word_bytes v @ drop (i + 2) ds"
proof (rule nth_equalityI)
  fix q assume "q < length (pr_assign UInt16Parser ds i v)"
  then have q: "q < length ds" by (simp add: UInt16Parser_def)
  consider "q < i" | "q = i" | "q = i + 1" | "i + 2 \<le> q" by linarith
  then show "pr_assign UInt16Parser ds i v ! q = (take i ds @ word_bytes v @ drop (i + 2) ds) ! q"
  proof cases
    case 4
    then obtain r where "q = i + 2 + r" using le_Suc_ex by blast
    then show ?thesis using bytes_write_uint16 [of i ds q v] assms q by (simp add: UInt16Parser_def word_bytes_def nth_append)
  qed (use bytes_write_uint16 [of i ds q v] assms q in \<open>auto simp: UInt16Parser_def word_bytes_def nth_append\<close>)
qed (use assms in \<open>simp add: UInt16Parser_def\<close>)

lemma read_word:
  assumes "length X = i"
  shows "pr_value UInt16Parser (X @ word_bytes v @ Y) i = v"
  using u16.value_assign [of i "X @ word_bytes v @ Y" v] write_word [of i "X @ word_bytes v @ Y" v] assms
  by (simp add: UInt16Parser_def take_bit_word_eq_self)

text \<open>A packet with its checksum in place sums up to zero.\<close>

lemma checksum_in_place:
  assumes "even (length X)" "length (X @ Y) \<le> 131074"
    and "v = ck_value (ck_feeds (X @ Y) IpChecksum) \<or> v = nonzero_sum (ck_value (ck_feeds (X @ Y) IpChecksum))"
  shows "internet_checksum (X @ word_bytes v @ Y) = 0"
proof -
  have u: "unat v mod 65535 = internet_checksum (X @ Y) mod 65535"
    using assms(3) ck_bytes [OF assms(2)] by (auto simp: nonzero_sum_def)
  have "sum16 (X @ word_bytes v @ Y) = sum16 (X @ Y) + unat v"
    using assms(1) sum16_append [of "word_bytes v" Y] length_word_bytes [of v] by (simp add: sum16_append)
  moreover have "(sum16 (X @ Y) + unat v) mod 65535 = 0"
    using internet_checksum_mod [of "X @ Y"] u by (metis mod_add_cong)
  moreover have "sum16 (X @ Y) + unat v \<noteq> 0"
  proof
    assume z: "sum16 (X @ Y) + unat v = 0"
    then have "internet_checksum (X @ Y) = 65535" by (simp add: internet_checksum_def ones_complement_def)
    then have "unat v = 65535" using assms(3) ck_bytes [OF assms(2)] by (auto simp: nonzero_sum_def)
    then show False using z by simp
  qed
  ultimately show ?thesis by (simp add: internet_checksum_zero)
qed

section \<open>Properties\<close>

text \<open>
  C25: The checksum is the one's complement of the one's complement sum of the 16 bit words of RFC 1071, with
  a last odd byte padded, however the data is cut into the pieces that are fed, for up to 131074 bytes,
  which is where the sum of 32 bits can overflow; the loop that folds the carries ends.
\<close>

theorem checksum_is_rfc1071:
  assumes "length (concat bss) \<le> 131074"
  shows "unat (ck_value (fold ck_feeds bss IpChecksum)) = internet_checksum (concat bss)"
proof -
  have "fold ck_feeds bss c = ck_feeds (concat bss) c" for c
    by (induction bss arbitrary: c) (simp_all add: feeds_append)
  then show ?thesis using ck_bytes [OF assms] by simp
qed

theorem checksum_is_rfc1071_witness:
  "unat (ck_value (fold ck_feeds [[0x45], [0, 0x12, 0xff]] IpChecksum)) = 43008"
proof -
  have "internet_checksum (concat [[0x45], [0, 0x12, 0xff]]) = 43008" by (simp add: internet_checksum_def ones_complement_def)
  then show ?thesis using checksum_is_rfc1071 [of "[[0x45], [0, 0x12, 0xff]]"] by simp
qed

lemma ipv4_calc:
  assumes "20 \<le> length ds"
  shows "ipv4_calcChecksum ds = Inr (ck_value (ck_feeds (take 10 ds @ subrange 12 20 ds) IpChecksum))"
  using assms default_bundle_sizes by (simp add: ipv4_calcChecksum_def validate_def check_size_def feeds_append Let_def)

text \<open>
  C26: Finalizing an IPv4 packet that has its header writes the packet's length and, when the next packet has
  a key, its protocol, and a checksum that validates and with which the words of the header sum up to
  zero, and leaves the payload alone; a truncated header raises the exception.
\<close>

theorem ipv4_finalize_validates:
  "if 20 \<le> length ds
   then \<exists>ds'. ipv4_finalize key ds = Inr ds' \<and> length ds' = length ds \<and> ipv4_validateChecksum ds' = Inr True \<and>
          internet_checksum (take 20 ds') = 0 \<and> pr_value UInt16Parser ds' 2 = of_nat (length ds) \<and>
          (case key of None \<Rightarrow> ds' ! 9 = ds ! 9 | Some k \<Rightarrow> ds' ! 9 = k) \<and> drop 20 ds' = drop 20 ds
   else ipv4_finalize key ds = Inl TruncatedPacketException"
proof (cases "20 \<le> length ds")
  case True
  define ds1 where "ds1 = take 2 ds @ word_bytes (of_nat (length ds)) @ drop 4 ds"
  define ds2 where "ds2 = (case key of None \<Rightarrow> ds1 | Some k \<Rightarrow> ds1[9 := k])"
  define v where "v = ck_value (ck_feeds (take 10 ds2 @ subrange 12 20 ds2) IpChecksum)"
  define ds' where "ds' = take 10 ds2 @ word_bytes v @ drop 12 ds2"
  have l: "length ds1 = length ds" "length ds2 = length ds" "length ds' = length ds"
    using True by (auto simp: ds1_def ds2_def ds'_def split: option.splits)
  have "ipv4_finalize key ds = Inr ds'"
    using True l default_bundle_sizes ipv4_calc [of ds2] write_word [of 2 ds "of_nat (length ds)"] write_word [of 10 ds2 v]
    by (cases key) (simp_all add: ipv4_finalize_def validate_def check_size_def Let_def ds1_def ds2_def v_def ds'_def UInt8Parser_def)
  moreover have s: "take 10 ds' = take 10 ds2" "subrange 12 20 ds' = subrange 12 20 ds2" "take 20 ds' = take 10 ds2 @ word_bytes v @ subrange 12 20 ds2"
    using l True by (simp_all add: ds'_def subrange_def)
  moreover have "pr_value UInt16Parser ds' 10 = v" using read_word [of "take 10 ds2" 10 v "drop 12 ds2"] l True by (simp add: ds'_def)
  moreover have "internet_checksum (take 10 ds2 @ word_bytes v @ subrange 12 20 ds2) = 0"
    by (rule checksum_in_place) (use l True in \<open>simp_all add: v_def\<close>)
  moreover have "pr_value UInt16Parser ds' 2 = of_nat (length ds)"
  proof -
    have "take 4 ds2 = take 4 ds1" by (simp add: ds2_def take_update_cancel split: option.splits)
    moreover have "take 4 ds' = take 4 ds2" using l True by (simp add: ds'_def)
    ultimately have "take 4 ds' = take 2 ds @ word_bytes (of_nat (length ds))" using True by (simp add: ds1_def)
    then have e: "ds' = take 2 ds @ word_bytes (of_nat (length ds)) @ drop 4 ds'" by (metis append.assoc append_take_drop_id)
    show ?thesis using read_word [of "take 2 ds" 2 "of_nat (length ds)" "drop 4 ds'"] True e by simp
  qed
  moreover have "case key of None \<Rightarrow> ds' ! 9 = ds ! 9 | Some k \<Rightarrow> ds' ! 9 = k" "drop 20 ds' = drop 20 ds"
    using l True by (auto simp: ds'_def ds2_def ds1_def nth_append word_bytes_def split: option.splits)
  ultimately show ?thesis using True l ipv4_calc [of ds'] by (auto simp: ipv4_validateChecksum_def v_def)
next
  case False
  then show ?thesis using default_bundle_sizes by (simp add: ipv4_finalize_def validate_def check_size_def)
qed

lemma ends_of_range:
  fixes x y :: nat
  assumes "x \<le> 65535" "y \<le> 65535" "x \<noteq> y" "(65535 :: int) dvd int x - int y"
  shows "x = 65535 \<and> y = 0 \<or> x = 0 \<and> y = 65535"
proof -
  obtain k where k: "int x - int y = 65535 * k" using assms(4) by (auto simp: dvd_def)
  have "k \<noteq> 0" using k assms(3) by auto
  then have "k = 1 \<or> k = -1" using k assms(1,2) by linarith
  then show ?thesis using k assms(1,2) by auto
qed

text \<open>A changed word is noticed: the sums differ by less than \<open>0xffff\<close>.\<close>

lemma checksum_differs:
  assumes "even (length X)" "a \<noteq> b" "{a, b} \<noteq> {0, 0xffff}"
  shows "internet_checksum (X @ word_bytes a @ Y) \<noteq> internet_checksum (X @ word_bytes b @ Y)"
proof
  assume e: "internet_checksum (X @ word_bytes a @ Y) = internet_checksum (X @ word_bytes b @ Y)"
  define t where "t = sum16 X + sum16 Y"
  have w: "sum16 (X @ word_bytes c @ Y) = t + unat c" for c using assms(1) by (simp add: sum16_append t_def)
  have u: "unat c \<le> 65535" for c :: u16 using unsigned_less [of c, where 'a = nat] by simp
  have "unat a \<noteq> unat b" using assms(2) by (simp add: word_unat_eq_iff)
  define c where "c = internet_checksum (X @ word_bytes a @ Y)"
  have "(t + unat a + c) mod 65535 = (t + unat b + c) mod 65535"
    using internet_checksum_mod [of "X @ word_bytes a @ Y"] internet_checksum_mod [of "X @ word_bytes b @ Y"] e w by (simp add: c_def)
  then have "int ((t + unat a + c) mod 65535) = int ((t + unat b + c) mod 65535)" by (simp only:)
  then have "(int t + int (unat a) + int c) mod 65535 = (int t + int (unat b) + int c) mod 65535"
    by (simp only: zmod_int of_nat_add of_nat_numeral)
  then have "(65535 :: int) dvd int (unat a) - int (unat b)" by (simp add: mod_eq_dvd_iff)
  then have "unat a = 65535 \<and> unat b = 0 \<or> unat a = 0 \<and> unat b = 65535"
    using ends_of_range [OF u u \<open>unat a \<noteq> unat b\<close>] by blast
  then have "a = of_nat 65535 \<and> b = of_nat 0 \<or> a = of_nat 0 \<and> b = of_nat 65535" by (metis of_nat_unat ucast_id)
  then have ab: "a = 0xffff \<and> b = 0 \<or> a = 0 \<and> b = 0xffff" by simp
  show False using assms(3) ab by auto
qed

text \<open>
  An error in one 16 bit word of an IPv4 header is noticed: if a header validates, it does no longer
  validate after the word at any even offset, the checksum included, has been changed, unless zero and
  \<open>0xffff\<close>, the two representations of zero, have been exchanged.
\<close>

theorem ipv4_word_error_detected:
  assumes "20 \<le> length ds" "ipv4_validateChecksum ds = Inr True" "even k" "k + 2 \<le> 20"
    and "w \<noteq> pr_value UInt16Parser ds k" "{w, pr_value UInt16Parser ds k} \<noteq> {0, 0xffff}"
  shows "ipv4_validateChecksum (pr_assign UInt16Parser ds k w) = Inr False"
proof -
  define o' where "o' = pr_value UInt16Parser ds k"
  define chk where "chk e = internet_checksum (take 10 e @ subrange 12 20 e)" for e :: "byte list"
  define ds' where "ds' = pr_assign UInt16Parser ds k w"
  have old: "ds = take k ds @ word_bytes o' @ drop (k + 2) ds"
    using u16.assign_value [of k ds] write_word [of k ds o'] assms(1,4) by (simp add: o'_def UInt16Parser_def)
  have new: "ds' = take k ds @ word_bytes w @ drop (k + 2) ds" using write_word [of k ds w] assms(1,4) by (simp add: ds'_def)
  have l: "length ds' = length ds" by (simp add: ds'_def UInt16Parser_def)
  have v: "ipv4_validateChecksum e = Inr (unat (pr_value UInt16Parser e 10) = chk e)" if "20 \<le> length e" for e
    using ipv4_calc [OF that] ck_bytes [of "take 10 e @ subrange 12 20 e"] that
    by (auto simp: ipv4_validateChecksum_def chk_def word_unat_eq_iff)
  have ok: "unat (pr_value UInt16Parser ds 10) = chk ds" using v [OF assms(1)] assms(2) by simp
  have "unat (pr_value UInt16Parser ds' 10) \<noteq> chk ds'"
  proof -
    have "k \<noteq> 9" "k \<noteq> 11" using assms(3) by auto
    then consider "k = 10" | "k + 2 \<le> 10" | "12 \<le> k" by linarith
    then show ?thesis
    proof cases
      case 1
      have "pr_value UInt16Parser ds' 10 = w" using read_word [of "take k ds" 10 w "drop (k + 2) ds"] new 1 assms(1) by simp
      moreover have "chk ds' = chk ds" unfolding chk_def new using 1 assms(1) by (simp add: subrange_def)
      ultimately show ?thesis using ok assms(5) 1 by (auto simp: word_unat_eq_iff)
    next
      case 2
      have "pr_value UInt16Parser ds' 10 = pr_value UInt16Parser ds 10"
        using 2 assms(1) l bytes_write_uint16 [of k ds 10 w] bytes_write_uint16 [of k ds 11 w] by (simp add: ds'_def UInt16Parser_def parse_uint16_def)
      define Y where "Y = drop (k + 2) (take 10 ds) @ subrange 12 20 ds"
      have "take 10 ds @ subrange 12 20 ds = take k ds @ word_bytes o' @ Y"
        using arg_cong [OF old, of "take 10"] 2 assms(1) by (simp add: Y_def drop_take)
      moreover have "take 10 ds' @ subrange 12 20 ds' = take k ds @ word_bytes w @ Y"
        using 2 assms(1) by (simp add: new Y_def drop_take subrange_def)
      ultimately have "chk ds' \<noteq> chk ds"
        unfolding chk_def using checksum_differs [of "take k ds" w o' Y] assms(1,3,4,5,6) by (simp add: o'_def)
      then show ?thesis using ok \<open>pr_value UInt16Parser ds' 10 = pr_value UInt16Parser ds 10\<close> by simp
    next
      case 3
      have "pr_value UInt16Parser ds' 10 = pr_value UInt16Parser ds 10"
        using 3 assms(1,4) l bytes_write_uint16 [of k ds 10 w] bytes_write_uint16 [of k ds 11 w] by (simp add: ds'_def UInt16Parser_def parse_uint16_def)
      define X Y where "X = take 10 ds @ subrange 12 k ds" and "Y = subrange (k + 2) 20 ds"
      have "take 10 ds @ subrange 12 20 ds = X @ word_bytes o' @ Y"
        using arg_cong [OF old, of "subrange 12 20"] 3 assms(1,4) by (simp add: X_def Y_def subrange_def drop_take)
      moreover have "take 10 ds' @ subrange 12 20 ds' = X @ word_bytes w @ Y"
        using 3 assms(1,4) by (simp add: new X_def Y_def subrange_def drop_take)
      moreover have "even (length X)" using 3 assms(1,3,4) by (simp add: X_def)
      ultimately have "chk ds' \<noteq> chk ds"
        unfolding chk_def using checksum_differs [of X w o' Y] assms(5,6) by (simp add: o'_def)
      then show ?thesis using ok \<open>pr_value UInt16Parser ds' 10 = pr_value UInt16Parser ds 10\<close> by simp
    qed
  qed
  then show ?thesis using v [of ds'] assms(1) l by (simp add: ds'_def)
qed

definition example_ipv4_header :: "byte list" where
  "example_ipv4_header = [0x45, 0, 0, 20, 0, 0, 0, 0, 64, 17, 0x66, 0xd7, 10, 0, 0, 1, 10, 0, 0, 2]"

lemma example_header_validates: "ipv4_validateChecksum example_ipv4_header = Inr True"
proof -
  have l: "20 \<le> length example_ipv4_header" by (simp add: example_ipv4_header_def)
  have v: "unat (pr_value UInt16Parser example_ipv4_header 10) = 26327" by (simp add: example_ipv4_header_def UInt16Parser_def parse_uint16_def)
  have "internet_checksum (take 10 example_ipv4_header @ subrange 12 20 example_ipv4_header) = 26327"
    by (simp add: example_ipv4_header_def internet_checksum_def ones_complement_def subrange_def)
  then have "unat (ck_value (ck_feeds (take 10 example_ipv4_header @ subrange 12 20 example_ipv4_header) IpChecksum)) = 26327"
    using ck_bytes [of "take 10 example_ipv4_header @ subrange 12 20 example_ipv4_header"] l by simp
  then show ?thesis using ipv4_calc [OF l] v by (simp add: ipv4_validateChecksum_def word_unat_eq_iff)
qed

theorem ipv4_word_error_detected_witness:
  "ipv4_validateChecksum (pr_assign UInt16Parser example_ipv4_header 16 0x0b00) = Inr False"
proof -
  have v: "pr_value UInt16Parser example_ipv4_header 16 = 0x0a00" by (simp add: example_ipv4_header_def UInt16Parser_def parse_uint16_def)
  have "{0x0b00, 0x0a00} \<noteq> {0, 0xffff :: u16}" by (simp add: doubleton_eq_iff)
  then show ?thesis
    using ipv4_word_error_detected [where k = 16 and w = "0x0b00", OF _ example_header_validates] v by (simp add: example_ipv4_header_def)
qed

text \<open>The words of the two pseudo headers of RFC 768 and RFC 2460, as the receiver sums them up.\<close>

definition ipv4_pseudo :: "byte list \<Rightarrow> byte \<Rightarrow> nat \<Rightarrow> byte list" where
  "ipv4_pseudo h proto n = subrange 12 20 h @ [0, proto] @ word_bytes (of_nat n)"

definition ipv6_pseudo :: "byte list \<Rightarrow> byte \<Rightarrow> nat \<Rightarrow> byte list" where
  "ipv6_pseudo h proto n =
     subrange 8 40 h @ word_bytes (of_nat (n div 65536)) @ word_bytes (of_nat n) @ [0, 0, 0, proto]"

text \<open>A checksum at offset \<open>k\<close>, taken over other bytes \<open>P\<close> with the same sum as the pseudo header.\<close>

lemma transport_checks:
  assumes "even (length Q)" "even (length P)" "even k" "k + 2 \<le> length ds" "length P + length ds \<le> 131074"
    and "v = nonzero_sum (ck_value (ck_feeds (P @ take k ds @ drop (k + 2) ds) IpChecksum))"
    and "sum16 Q = sum16 P + d"
  shows "internet_checksum (Q @ pr_assign UInt16Parser ds k v) = 0 \<longleftrightarrow> d mod 65535 = 0"
proof -
  have w: "pr_assign UInt16Parser ds k v = take k ds @ word_bytes v @ drop (k + 2) ds" by (rule write_word [OF assms(4)])
  define t where "t = sum16 (P @ take k ds @ word_bytes v @ drop (k + 2) ds)"
  have ev: "even (length (P @ take k ds))" using assms(2,3,4) by simp
  have "internet_checksum ((P @ take k ds) @ word_bytes v @ drop (k + 2) ds) = 0"
    by (rule checksum_in_place) (use ev assms(4,5,6) in simp_all)
  then have t: "t mod 65535 = 0" "t \<noteq> 0" by (simp_all add: internet_checksum_zero t_def)
  have "sum16 (Q @ pr_assign UInt16Parser ds k v) = t + d"
    using assms(1,2,7) by (simp add: w t_def sum16_append)
  moreover have "(t + d) mod 65535 = d mod 65535" using t(1) by (metis add_0 mod_add_left_eq)
  ultimately show ?thesis using t(2) by (simp add: internet_checksum_zero)
qed

lemma rfind_none: "(\<And>p. p \<in> set before \<Longrightarrow> fst p \<noteq> t) \<Longrightarrow> pkt_rfind t before = None"
  by (fastforce simp: pkt_rfind_def find_None_iff)

lemma addresses_feed:
  "20 \<le> length h \<Longrightarrow> feed_ipv4_addresses h c = ck_feeds (subrange 12 20 h) c"
  "40 \<le> length h \<Longrightarrow> feed_ipv6_addresses h c = ck_feeds (subrange 8 40 h) c"
proof -
  have "subrange a b h @ subrange b c h = subrange a c h" if "a \<le> b" "b \<le> c" for a b c
  proof -
    have "take (c - a) (drop a h) = take (b - a) (drop a h) @ take (c - b) (drop (b - a) (drop a h))"
      using take_add [of "b - a" "c - b" "drop a h"] that by simp
    then show ?thesis using that by (simp add: subrange_def)
  qed
  then show "20 \<le> length h \<Longrightarrow> feed_ipv4_addresses h c = ck_feeds (subrange 12 20 h) c"
    "40 \<le> length h \<Longrightarrow> feed_ipv6_addresses h c = ck_feeds (subrange 8 40 h) c"
    by (simp_all add: feed_ipv4_addresses_def feed_ipv6_addresses_def Let_def flip: feeds_append)
qed

definition pseudo_header :: "(hdr_type \<times> byte list) list \<Rightarrow> byte \<Rightarrow> nat \<Rightarrow> byte list option" where
  "pseudo_header before proto n =
     (case pkt_rfind HIPv4 before of
        Some h \<Rightarrow> if 20 \<le> length h then Some (ipv4_pseudo h proto n) else None
      | None \<Rightarrow> (case pkt_rfind HIPv6 before of
            Some h \<Rightarrow> if 40 \<le> length h then Some (ipv6_pseudo h proto n) else None
          | None \<Rightarrow> None))"

lemma pseudo_headerE:
  assumes "pseudo_header before proto n = Some Q"
  obtains h where "pkt_rfind HIPv4 before = Some h" "20 \<le> length h" "Q = ipv4_pseudo h proto n"
  | h where "pkt_rfind HIPv4 before = None" "pkt_rfind HIPv6 before = Some h" "40 \<le> length h" "Q = ipv6_pseudo h proto n"
  using assms by (auto simp: pseudo_header_def split: option.splits if_splits)

lemma udp_pseudo_bytes:
  assumes "pseudo_header before 17 n = Some Q" "subrange 4 6 ds = word_bytes (of_nat n)" "n \<le> 65535"
  obtains P where "udp_pseudo before ds c = ck_feeds P c" "even (length P)" "length P \<le> 36" "sum16 Q = sum16 P + 0" "even (length Q)"
  using assms(1)
proof (cases rule: pseudo_headerE)
  case (1 h)
  show ?thesis
    by (rule that [of "ipv4_pseudo h 17 n"])
      (use 1 assms(2) in \<open>simp_all add: udp_pseudo_def addresses_feed feeds_append ipv4_pseudo_def\<close>)
next
  case (2 h)
  have z: "n div 65536 = 0" using assms(3) by simp
  show ?thesis
    by (rule that [of "subrange 8 40 h @ word_bytes (of_nat n) @ [0, 17]"])
      (use 2 assms(2) z in \<open>simp_all add: udp_pseudo_def addresses_feed feeds_append ipv6_pseudo_def sum16_append\<close>)
qed

text \<open>
  Finalizing a UDP packet writes its length and a checksum that is never zero and with which the packet
  and the pseudo header of RFC 768 or RFC 2460, made from the addresses of the IP header that is found in
  front of it, sum up to zero, so that the receiver accepts it; the payload stays.
\<close>

theorem udp_finalize_checks:
  assumes "8 \<le> length ds" "length ds \<le> 65535" "pseudo_header before 17 (length ds) = Some Q"
  shows "\<exists>ds'. udp_finalize before ds = Inr ds' \<and> length ds' = length ds \<and> internet_checksum (Q @ ds') = 0 \<and>
    pr_value UInt16Parser ds' 4 = of_nat (length ds) \<and> pr_value UInt16Parser ds' 6 \<noteq> 0 \<and> drop 8 ds' = drop 8 ds"
proof -
  define n where "n = length ds"
  define ds1 where "ds1 = take 4 ds @ word_bytes (of_nat n) @ drop 6 ds"
  have l: "length ds1 = n" using assms(1) by (simp add: ds1_def n_def)
  have s: "subrange 4 6 ds1 = word_bytes (of_nat n)" using assms(1) by (simp add: ds1_def subrange_def)
  define v where "v = udp_calcChecksum before ds1"
  obtain P where P: "udp_pseudo before ds1 IpChecksum = ck_feeds P IpChecksum" "even (length P)" "length P \<le> 36" "sum16 Q = sum16 P + 0" "even (length Q)"
    using udp_pseudo_bytes [OF assms(3) [folded n_def] s] assms(2) n_def by metis
  have v: "v = nonzero_sum (ck_value (ck_feeds (P @ take 6 ds1 @ drop (6 + 2) ds1) IpChecksum))"
    by (simp add: v_def udp_calcChecksum_def Let_def P(1) feeds_append)
  define ds' where "ds' = pr_assign UInt16Parser ds1 6 v"
  have d': "ds' = take 6 ds1 @ word_bytes v @ drop 8 ds1" using write_word [of 6 ds1 v] l assms(1) by (simp add: ds'_def n_def)
  have "udp_finalize before ds = Inr ds'"
    using assms(1) default_bundle_sizes write_word [of 4 ds "of_nat n"]
    by (simp add: udp_finalize_def validate_def check_size_def Let_def ds1_def [symmetric] n_def [symmetric] v_def ds'_def)
  moreover have "internet_checksum (Q @ ds') = 0"
    unfolding ds'_def using transport_checks [OF P(5,2) _ _ _ v P(4)] l P(3) assms(1,2) by (simp add: n_def)
  moreover have "v \<noteq> 0" by (simp add: v nonzero_sum_def)
  moreover have "pr_value UInt16Parser ds' 6 = v" using read_word [of "take 6 ds1" 6 v "drop 8 ds1"] l assms(1) d' by (simp add: n_def)
  moreover have "pr_value UInt16Parser ds' 4 = of_nat n"
  proof -
    have "ds' = take 4 ds @ word_bytes (of_nat n) @ (word_bytes v @ drop 8 ds1)" using assms(1) by (simp add: d' ds1_def)
    then show ?thesis using read_word [of "take 4 ds" 4 "of_nat n" "word_bytes v @ drop 8 ds1"] assms(1) by simp
  qed
  moreover have "drop 8 ds' = drop 8 ds" "length ds' = n" using assms(1) l by (simp_all add: d' ds1_def n_def)
  ultimately show ?thesis by (auto simp: n_def)
qed

theorem udp_finalize_checks_witness:
  "\<exists>ds'. udp_finalize [(HIPv4, example_ipv4_header)] [0, 53, 0, 53, 0, 0, 0, 0, 9] = Inr ds' \<and>
     internet_checksum (ipv4_pseudo example_ipv4_header 17 9 @ ds') = 0"
proof -
  define ds :: "byte list" where "ds = [0, 53, 0, 53, 0, 0, 0, 0, 9]"
  have l: "length ds = 9" by (simp add: ds_def)
  have "pseudo_header [(HIPv4, example_ipv4_header)] 17 9 = Some (ipv4_pseudo example_ipv4_header 17 9)"
    by (simp add: pseudo_header_def pkt_rfind_def example_ipv4_header_def)
  then show ?thesis unfolding ds_def [symmetric] using udp_finalize_checks [of ds "[(HIPv4, example_ipv4_header)]"] unfolding l by auto
qed

lemma tcp_length_bytes: "tcp_feed_length n c = ck_feeds [0, ucast (of_nat n :: u16)] c"
proof -
  have h: "(0xff00 :: u16) = NOT (mask 8)" by (simp add: mask_eq_exp_minus_1)
  have m: "w AND 0xff = take_bit 8 w" "w AND 0xff00 = w AND NOT (mask 8)" for w :: u16
    by (simp add: take_bit_eq_mask mask_eq_exp_minus_1) (simp only: h)
  have "(ucast ((of_nat n :: u16) AND 0xff00) :: byte) = 0" unfolding m by (rule bit_word_eqI) (auto simp: bit_simps)
  moreover have "ucast ((of_nat n :: u16) AND 0xff) = (ucast (of_nat n :: u16) :: byte)" unfolding m by (rule bit_word_eqI) (auto simp: bit_simps)
  ultimately show ?thesis by (simp add: tcp_feed_length_def)
qed

lemma tcp_pseudo_bytes:
  assumes "pseudo_header before 6 (length ds) = Some Q" "length ds \<le> 65535"
  obtains P where "tcp_pseudo before ds c = ck_feeds P c" "even (length P)" "length P \<le> 36"
    "sum16 Q = sum16 P + 256 * (length ds div 256)" "even (length Q)"
proof -
  define n L where "n = length ds" and "L = [0, ucast (of_nat n :: u16) :: byte]"
  have u: "unat (of_nat n :: u16) = n" using assms(2) by (simp add: n_def unat_of_nat)
  have "unat (ucast (of_nat n :: u16) :: byte) = n mod 256" using u by (simp add: unsigned_ucast_eq take_bit_eq_mod)
  then have L: "sum16 L = n mod 256" "length L = 2" by (simp_all add: L_def)
  have w: "sum16 (word_bytes (of_nat n)) = sum16 L + 256 * (n div 256)" using u L by simp
  show ?thesis using assms(1) [folded n_def]
  proof (cases rule: pseudo_headerE)
    case (1 h)
    show ?thesis
      by (rule that [of "subrange 12 20 h @ [0, 6] @ L"])
        (use 1 w L in \<open>simp_all add: tcp_pseudo_def tcp_length_bytes addresses_feed feeds_append ipv4_pseudo_def sum16_append n_def [symmetric] L_def [symmetric] del: sum16_word\<close>)
  next
    case (2 h)
    have z: "n div 65536 = 0" using assms(2) by (simp add: n_def)
    show ?thesis
      by (rule that [of "subrange 8 40 h @ L @ [0, 6]"])
        (use 2 w L z in \<open>simp_all add: tcp_pseudo_def tcp_length_bytes addresses_feed feeds_append ipv6_pseudo_def sum16_append n_def [symmetric] L_def [symmetric]\<close>)
  qed
qed



text \<open>\<open>finalize\<close> writes the size of the packet in bytes into the data offset, which is four bits wide and counts words.\<close>

lemma tcp_finalize_data_offset:
  assumes "20 \<le> length ds" "tcp_finalize before ds = Inr ds'"
  shows "unat (pr_value (UIntFieldParser 0 4) ds' 12) = length ds mod 16"
proof -
  define ds1 where "ds1 = pr_assign (UIntFieldParser 0 4) ds 12 (of_nat (length ds))"
  define v where "v = tcp_calcChecksum before ds1"
  have l: "length ds1 = length ds" by (simp add: ds1_def ufield.len)
  have ok: "pr_static_assert (UIntFieldParser 0 4)" "12 + pr_fixed_bytes (UIntFieldParser 0 4) \<le> length ds" using assms(1) by (simp_all add: UIntFieldParser_def)
  have d': "ds' = take 16 ds1 @ word_bytes v @ drop 18 ds1"
    using assms write_word [of 16 ds1 v] l by (simp add: tcp_finalize_def validate_def check_size_def ds1_def v_def Let_def)
  have "pr_value (UIntFieldParser 0 4) ds' 12 = pr_value (UIntFieldParser 0 4) ds1 12"
    using ufield.value_slice [OF ok(1), of 12 ds'] ufield.value_slice [OF ok(1), of 12 ds1] l assms(1)
    by (simp add: d' UIntFieldParser_def drop_take)
  also have "\<dots> = take_bit 4 (of_nat (length ds))" using ufield.value_assign_take [OF ok, of "of_nat (length ds)"] by (simp add: ds1_def)
  also have "unat \<dots> = length ds mod 16"
    unfolding unsigned_take_bit_eq by (simp add: unat_of_nat take_bit_eq_mod mod_mod_cancel)
  finally show ?thesis by simp
qed

text \<open>An IPv4 header further out is preferred to the IPv6 header that the packet is in.\<close>

lemma tunnel_uses_outer_header:
  assumes "pkt_rfind HIPv4 before = Some h"
  shows "udp_pseudo ((HIPv6, g) # before) ds c = udp_pseudo [(HIPv4, h)] ds c" "tcp_pseudo ((HIPv6, g) # before) ds c = tcp_pseudo [(HIPv4, h)] ds c"
proof -
  have "pkt_rfind HIPv4 ((HIPv6, g) # before) = Some h" "pkt_rfind HIPv4 [(HIPv4, h)] = Some h" using assms by (simp_all add: pkt_rfind_def)
  then show "udp_pseudo ((HIPv6, g) # before) ds c = udp_pseudo [(HIPv4, h)] ds c" "tcp_pseudo ((HIPv6, g) # before) ds c = tcp_pseudo [(HIPv4, h)] ds c"
    by (simp_all add: udp_pseudo_def tcp_pseudo_def)
qed

text \<open>ICMPv6: the size is fed with all of its four bytes.\<close>

lemma size_bytes:
  "[ucast (drop_bit 24 (of_nat n :: u32) AND 0xff), ucast (drop_bit 16 (of_nat n :: u32) AND 0xff), ucast (drop_bit 8 (of_nat n :: u32) AND 0xff),
     ucast ((of_nat n :: u32) AND 0xff)] = word_bytes (of_nat (n div 65536)) @ word_bytes (of_nat n)"
proof -
  have m: "w AND 0xff = take_bit 8 w" for w :: u32 by (simp add: take_bit_eq_mask mask_eq_exp_minus_1)
  have d: "bit (n div 65536) j \<longleftrightarrow> bit n (16 + j)" for j using bit_drop_bit_eq [of 16 n] by (simp add: drop_bit_eq_div fun_eq_iff comp_def)
  have "(ucast (drop_bit 24 (of_nat n :: u32) AND 0xff) :: byte) = ucast (drop_bit 8 (of_nat (n div 65536) :: u16))"
    "(ucast (drop_bit 16 (of_nat n :: u32) AND 0xff) :: byte) = ucast (of_nat (n div 65536) :: u16)"
    "(ucast (drop_bit 8 (of_nat n :: u32) AND 0xff) :: byte) = ucast (drop_bit 8 (of_nat n :: u16))"
    "(ucast ((of_nat n :: u32) AND 0xff) :: byte) = ucast (of_nat n :: u16)"
    unfolding m by (rule bit_word_eqI; auto simp: bit_simps d)+
  then show ?thesis by (simp add: word_bytes_def)
qed

lemma icmpv6_checksum_checks:
  assumes "4 \<le> length ds" "length ds \<le> 131000" "pkt_rfind HIPv6 before = Some h" "40 \<le> length h"
  shows "internet_checksum (ipv6_pseudo h 58 (length ds) @ pr_assign UInt16Parser ds 2 (icmpv6_calcChecksum before ds)) = 0"
proof -
  define n where "n = length ds"
  define P where "P = subrange 8 40 h @ (word_bytes (of_nat (n div 65536)) @ word_bytes (of_nat n)) @ [0, 58]"
  define v where "v = icmpv6_calcChecksum before ds"
  have v: "v = nonzero_sum (ck_value (ck_feeds (P @ take 2 ds @ drop (2 + 2) ds) IpChecksum))"
    unfolding v_def icmpv6_calcChecksum_def Let_def assms(3) option.case size_bytes n_def [symmetric] P_def
    using assms(4) by (simp add: addresses_feed feeds_append)
  have P: "even (length P)" "length P = 38" using assms(4) by (simp_all add: P_def)
  have "internet_checksum (ipv6_pseudo h 58 n @ pr_assign UInt16Parser ds 2 v) = 0 \<longleftrightarrow> 0 mod 65535 = (0 :: nat)"
    by (rule transport_checks [OF _ P(1) _ _ _ v]) (use assms(1,2,4) P(2) in \<open>simp_all add: P_def ipv6_pseudo_def sum16_append\<close>)
  then show ?thesis by (simp add: v_def n_def)
qed

end
