(* ===== verification/Log_Routing.thy ===== *)
theory Log_Routing
  imports Senf_Prelude
begin

text \<open>
  The routing of log messages, \<open>senf/Utils/Logger/Target.*\<close> and \<open>AreaRegistry.*\<close>: every target has a table of
  rules for streams, areas and levels, and every area caches for each stream which targets accept
  messages and from which level on, so that a message that nobody wants costs one comparison.

  Streams, areas and targets are numbers; a stream's number is its \<open>index\<close>. The registries are association
  lists from names to them; the order in which an update visits their entries does not matter, since
  every pair of area and stream has a cache entry of its own.
\<close>

section \<open>Rules\<close>

definition NONE_level :: nat where "NONE_level = 0"
definition MESSAGE_level :: nat where "MESSAGE_level = 3"
definition DISABLED_level :: nat where "DISABLED_level = 7"

datatype action_t = ACCEPT | REJECT

record RoutingEntry =
  re_stream :: "nat option"
  re_area :: "nat option"
  re_level :: nat
  re_action :: action_t

record RouteEntry =
  rt_limit :: nat
  rt_target :: nat

record CacheEntry =
  ce_limit :: nat
  ce_routes :: "RouteEntry list"

definition no_cache :: CacheEntry where
  "no_cache = \<lparr>ce_limit = DISABLED_level, ce_routes = []\<rparr>"

record log_state =
  ls_streams :: "(string \<times> nat) list"
  ls_areas :: "(string \<times> nat) list"
  ls_default :: "nat \<Rightarrow> nat"
  ls_alive :: "nat \<Rightarrow> bool"
  ls_cache :: "nat \<Rightarrow> CacheEntry list"
  ls_rib :: "nat \<Rightarrow> RoutingEntry list"
  ls_fallback :: bool

section \<open>The cache of an area\<close>

text \<open>The loops over the routes: the first until the target is found, the second over the rest.\<close>

fun least_limit :: "nat \<Rightarrow> RouteEntry list \<Rightarrow> nat" where
  "least_limit l [] = l"
| "least_limit l (r # rs) = least_limit (if rt_limit r < l then rt_limit r else l) rs"

fun update_routes :: "nat \<Rightarrow> nat \<Rightarrow> nat \<Rightarrow> RouteEntry list \<Rightarrow> RouteEntry list \<times> nat" where
  "update_routes target limit l [] = ([\<lparr>rt_limit = limit, rt_target = target\<rparr>], l)"
| "update_routes target limit l (r # rs) =
     (if rt_target r = target
      then (let r' = r\<lparr>rt_limit := limit\<rparr> in (r' # rs, least_limit l (r' # rs)))
      else case update_routes target limit (if rt_limit r < l then rt_limit r else l) rs of (rs', l') \<Rightarrow> (r # rs', l'))"

definition area_updateRoutingCache :: "nat \<Rightarrow> nat \<Rightarrow> nat \<Rightarrow> CacheEntry list \<Rightarrow> CacheEntry list" where
  "area_updateRoutingCache target stream limit cache =
     (let cache1 = (if stream \<ge> length cache then cache @ replicate (stream + 1 - length cache) no_cache else cache)
      in case update_routes target limit limit (ce_routes (cache1 ! stream)) of
           (routes, l) \<Rightarrow> cache1[stream := \<lparr>ce_limit = l, ce_routes = routes\<rparr>])"

fun remove_routes :: "nat \<Rightarrow> nat \<Rightarrow> RouteEntry list \<Rightarrow> RouteEntry list \<times> nat" where
  "remove_routes target l [] = ([], l)"
| "remove_routes target l (r # rs) =
     (if rt_target r = target then remove_routes target l rs
      else case remove_routes target (if rt_limit r < l then rt_limit r else l) rs of (rs', l') \<Rightarrow> (r # rs', l'))"

definition area_removeRoutingCache :: "nat \<Rightarrow> nat \<Rightarrow> CacheEntry list \<Rightarrow> CacheEntry list" where
  "area_removeRoutingCache target stream cache =
     (if stream \<ge> length cache then cache
      else case remove_routes target DISABLED_level (ce_routes (cache ! stream)) of
             (routes, l) \<Rightarrow> cache[stream := \<lparr>ce_limit = l, ce_routes = routes\<rparr>])"

definition area_limit :: "log_state \<Rightarrow> nat \<Rightarrow> nat \<Rightarrow> nat" where
  "area_limit s area stream = (if stream \<ge> length (ls_cache s area) then DISABLED_level else ce_limit (ls_cache s area ! stream))"

section \<open>The routing table of a target\<close>

definition entry_level :: "log_state \<Rightarrow> nat \<Rightarrow> RoutingEntry \<Rightarrow> nat" where
  "entry_level s stream e = (if re_level e = NONE_level then ls_default s stream else re_level e)"

definition entry_matches :: "nat \<Rightarrow> nat \<Rightarrow> RoutingEntry \<Rightarrow> bool" where
  "entry_matches stream area e \<longleftrightarrow> (re_stream e = None \<or> re_stream e = Some stream) \<and> (re_area e = None \<or> re_area e = Some area)"

fun rib_limit :: "log_state \<Rightarrow> nat \<Rightarrow> nat \<Rightarrow> nat \<Rightarrow> RoutingEntry list \<Rightarrow> nat" where
  "rib_limit s stream area limit [] = limit"
| "rib_limit s stream area limit (e # es) =
     rib_limit s stream area
       (if entry_matches stream area e \<and> re_action e = ACCEPT then (let l = entry_level s stream e in if l < limit then l else limit) else limit) es"

definition update_one :: "nat \<Rightarrow> nat \<Rightarrow> nat \<Rightarrow> log_state \<Rightarrow> log_state" where
  "update_one target stream area s =
     (if \<not> ls_alive s area then s
      else let limit = rib_limit s stream area DISABLED_level (ls_rib s target)
           in s\<lparr>ls_cache := (ls_cache s)(area :=
                (if limit = DISABLED_level then area_removeRoutingCache target stream (ls_cache s area)
                 else area_updateRoutingCache target stream limit (ls_cache s area)))\<rparr>)"

definition update_areas :: "nat \<Rightarrow> nat \<Rightarrow> nat option \<Rightarrow> log_state \<Rightarrow> log_state" where
  "update_areas target stream area s =
     (case area of Some a \<Rightarrow> update_one target stream a s
      | None \<Rightarrow> fold (update_one target stream) (map snd (ls_areas s)) s)"

definition target_updateRoutingCache :: "nat \<Rightarrow> nat option \<Rightarrow> nat option \<Rightarrow> log_state \<Rightarrow> log_state" where
  "target_updateRoutingCache target stream area s =
     (case stream of Some st \<Rightarrow> update_areas target st area s
      | None \<Rightarrow> fold (\<lambda>st. update_areas target st area) (map snd (ls_streams s)) s)"

definition log_route_index :: "int \<Rightarrow> nat \<Rightarrow> nat" where
  "log_route_index index n =
     (if index < 0 then (if nat (- index - 1) \<ge> n then 0 else nat (int n + (index + 1)))
      else (if nat index \<ge> n then n else nat index))"

definition log_route :: "nat \<Rightarrow> nat option \<Rightarrow> nat option \<Rightarrow> nat \<Rightarrow> action_t \<Rightarrow> int \<Rightarrow> log_state \<Rightarrow> log_state" where
  "log_route target stream area level action index s =
     (let rib = ls_rib s target;
          s1 = s\<lparr>ls_rib := (ls_rib s)(target := insert_list (log_route_index index (length rib))
                  [\<lparr>re_stream = stream, re_area = area, re_level = level, re_action = action\<rparr>] rib)\<rparr>;
          s2 = (if action = ACCEPT then target_updateRoutingCache target stream area s1 else s1)
      in s2\<lparr>ls_fallback := False\<rparr>)"

definition log_unroute_index :: "int \<Rightarrow> nat \<Rightarrow> nat" where
  "log_unroute_index index n =
     (if index < 0 then (if nat (- index) \<ge> n then 0 else nat (int n + index))
      else (if nat (index + 1) \<ge> n then n - 1 else nat index))"

definition log_unroute_at :: "nat \<Rightarrow> int \<Rightarrow> log_state \<Rightarrow> log_state" where
  "log_unroute_at target index s =
     (let rib = ls_rib s target
      in if rib = [] then s
         else let i = log_unroute_index index (length rib); entry = rib ! i;
                  s1 = s\<lparr>ls_rib := (ls_rib s)(target := cut_list i (i + 1) rib)\<rparr>
              in if re_action entry = ACCEPT then target_updateRoutingCache target (re_stream entry) (re_area entry) s1 else s1)"

text \<open>\<open>std::find\<close>: the index of the first entry that is equal.\<close>

fun find_entry :: "RoutingEntry \<Rightarrow> RoutingEntry list \<Rightarrow> nat" where
  "find_entry e [] = 0"
| "find_entry e (x # xs) = (if x = e then 0 else Suc (find_entry e xs))"

definition log_unroute :: "nat \<Rightarrow> nat option \<Rightarrow> nat option \<Rightarrow> nat \<Rightarrow> action_t \<Rightarrow> log_state \<Rightarrow> log_state" where
  "log_unroute target stream area level action s =
     (let i = find_entry \<lparr>re_stream = stream, re_area = area, re_level = level, re_action = action\<rparr> (ls_rib s target)
      in if i \<noteq> length (ls_rib s target) then log_unroute_at target (int i) s else s)"

definition log_flush :: "nat \<Rightarrow> log_state \<Rightarrow> log_state" where
  "log_flush target s =
     fold (\<lambda>e s. if re_action e = ACCEPT then target_updateRoutingCache target (re_stream e) (re_area e) s else s)
       (ls_rib s target) (s\<lparr>ls_rib := (ls_rib s)(target := [])\<rparr>)"

text \<open>The names of streams and areas are looked up; an empty name is any.\<close>

datatype log_error = InvalidStreamException | InvalidAreaException

definition log_lookup :: "(string \<times> nat) list \<Rightarrow> string \<Rightarrow> 'e \<Rightarrow> 'e + nat option" where
  "log_lookup registry name err =
     (if name = [] then Inr None
      else case map_of registry name of None \<Rightarrow> Inl err | Some x \<Rightarrow> Inr (Some x))"

definition log_route_named :: "nat \<Rightarrow> string \<Rightarrow> string \<Rightarrow> nat \<Rightarrow> action_t \<Rightarrow> int \<Rightarrow> log_state \<Rightarrow> log_error + log_state" where
  "log_route_named target stream area level action index s =
     (case log_lookup (ls_streams s) stream InvalidStreamException of Inl e \<Rightarrow> Inl e
      | Inr st \<Rightarrow> (case log_lookup (ls_areas s) area InvalidAreaException of Inl e \<Rightarrow> Inl e
         | Inr a \<Rightarrow> Inr (log_route target st a level action index s)))"

definition log_unroute_named :: "nat \<Rightarrow> string \<Rightarrow> string \<Rightarrow> nat \<Rightarrow> action_t \<Rightarrow> log_state \<Rightarrow> log_error + log_state" where
  "log_unroute_named target stream area level action s =
     (case log_lookup (ls_streams s) stream InvalidStreamException of Inl e \<Rightarrow> Inl e
      | Inr st \<Rightarrow> (case log_lookup (ls_areas s) area InvalidAreaException of Inl e \<Rightarrow> Inl e
         | Inr a \<Rightarrow> Inr (log_unroute target st a level action s)))"

text \<open>Only the cache changes when the cache is updated.\<close>

lemma update_one_simps [simp]:
  "ls_streams (update_one t st a s) = ls_streams s" "ls_areas (update_one t st a s) = ls_areas s"
  "ls_default (update_one t st a s) = ls_default s" "ls_alive (update_one t st a s) = ls_alive s"
  "ls_rib (update_one t st a s) = ls_rib s" "ls_fallback (update_one t st a s) = ls_fallback s"
  by (simp_all add: update_one_def Let_def)

lemma fold_keeps:
  assumes "\<And>x s. f (g x s) = f s"
  shows "f (fold g xs s) = f s"
  by (induction xs arbitrary: s) (simp_all add: assms)

lemma update_areas_simps [simp]:
  "ls_streams (update_areas t st a s) = ls_streams s" "ls_areas (update_areas t st a s) = ls_areas s"
  "ls_default (update_areas t st a s) = ls_default s" "ls_alive (update_areas t st a s) = ls_alive s"
  "ls_rib (update_areas t st a s) = ls_rib s" "ls_fallback (update_areas t st a s) = ls_fallback s"
  by (simp_all add: update_areas_def fold_keeps split: option.splits)

lemma updateRoutingCache_simps [simp]:
  "ls_streams (target_updateRoutingCache t st a s) = ls_streams s" "ls_areas (target_updateRoutingCache t st a s) = ls_areas s"
  "ls_default (target_updateRoutingCache t st a s) = ls_default s" "ls_alive (target_updateRoutingCache t st a s) = ls_alive s"
  "ls_rib (target_updateRoutingCache t st a s) = ls_rib s" "ls_fallback (target_updateRoutingCache t st a s) = ls_fallback s"
  by (simp_all add: target_updateRoutingCache_def fold_keeps split: option.splits)

lemma find_entry_less: "e \<in> set es \<Longrightarrow> find_entry e es < length es \<and> es ! find_entry e es = e"
  by (induction es) auto

lemma find_entry_length: "find_entry e es = length es \<longleftrightarrow> e \<notin> set es"
  by (induction es) auto

lemma unroute_index_self: "i < n \<Longrightarrow> log_unroute_index (int i) n = i"
  by (auto simp: log_unroute_index_def)

lemma unroute_index_less: "0 < n \<Longrightarrow> log_unroute_index k n < n"
  by (auto simp: log_unroute_index_def)

lemma rib_unroute_at:
  "ls_rib s t \<noteq> [] \<Longrightarrow> ls_rib (log_unroute_at t k s) =
     (ls_rib s)(t := cut_list (log_unroute_index k (length (ls_rib s t))) (log_unroute_index k (length (ls_rib s t)) + 1) (ls_rib s t))"
  by (simp add: log_unroute_at_def Let_def)

text \<open>The destructor removes the rules from the last one on.\<close>

function log_destroy_target :: "nat \<Rightarrow> log_state \<Rightarrow> log_state" where
  "log_destroy_target target s =
     (if ls_rib s target = [] then s
      else let e = last (ls_rib s target)
           in log_destroy_target target (log_unroute target (re_stream e) (re_area e) (re_level e) (re_action e) s))"
  by pat_completeness auto

termination
proof (relation "measure (\<lambda>(t, s). length (ls_rib s t))")
  fix t :: nat and s :: log_state and e
  assume "ls_rib s t \<noteq> []" and e: "e = last (ls_rib s t)"
  then have i: "find_entry e (ls_rib s t) < length (ls_rib s t)" using find_entry_less [of e "ls_rib s t"] by simp
  have eq: "\<lparr>re_stream = re_stream e, re_area = re_area e, re_level = re_level e, re_action = re_action e\<rparr> = e" by simp
  have "log_unroute t (re_stream e) (re_area e) (re_level e) (re_action e) s = log_unroute_at t (int (find_entry e (ls_rib s t))) s"
    unfolding log_unroute_def Let_def eq using i by simp
  then show "((t, log_unroute t (re_stream e) (re_area e) (re_level e) (re_action e) s), (t, s)) \<in> measure (\<lambda>(t, s). length (ls_rib s t))"
    using i \<open>ls_rib s t \<noteq> []\<close> by (simp add: rib_unroute_at unroute_index_self)
qed simp

declare log_destroy_target.simps [simp del]

section \<open>Messages\<close>

text \<open>Whether \<open>write\<close> of a target calls its \<open>v_write\<close>.\<close>

fun target_write :: "log_state \<Rightarrow> nat \<Rightarrow> nat \<Rightarrow> nat \<Rightarrow> RoutingEntry list \<Rightarrow> bool" where
  "target_write s stream area level [] \<longleftrightarrow> False"
| "target_write s stream area level (e # es) \<longleftrightarrow>
     (if entry_matches stream area e \<and> entry_level s stream e \<le> level then re_action e = ACCEPT
      else target_write s stream area level es)"

text \<open>The targets a message is written to.\<close>

definition area_write :: "log_state \<Rightarrow> nat \<Rightarrow> nat \<Rightarrow> nat \<Rightarrow> nat list" where
  "area_write s area stream level =
     (if stream \<ge> length (ls_cache s area) then []
      else filter (\<lambda>t. target_write s stream area level (ls_rib s t)) (map rt_target (ce_routes (ls_cache s area ! stream))))"

definition registry_write :: "nat \<Rightarrow> log_state \<Rightarrow> nat \<Rightarrow> nat \<Rightarrow> nat \<Rightarrow> nat list" where
  "registry_write console s stream area level =
     (if ls_fallback s then (if level \<ge> ls_default s stream then [console] else []) else area_write s area stream level)"

text \<open>The test in front of the message: \<open>enabled\<close> of the parameters, and the write if it holds.\<close>

definition log_enabled :: "bool \<Rightarrow> log_state \<Rightarrow> nat \<Rightarrow> nat \<Rightarrow> nat \<Rightarrow> bool" where
  "log_enabled compileEnabled s stream area level \<longleftrightarrow> compileEnabled \<and> (ls_fallback s \<or> area_limit s area stream \<le> level)"

definition log_message :: "bool \<Rightarrow> nat \<Rightarrow> log_state \<Rightarrow> nat \<Rightarrow> nat \<Rightarrow> nat \<Rightarrow> nat list" where
  "log_message compileEnabled console s stream area level =
     (if log_enabled compileEnabled s stream area level then registry_write console s stream area level else [])"

section \<open>What the cache holds\<close>

lemma Min_less: "finite A \<Longrightarrow> Min (insert (if x < l then x else l) A) = Min (insert l (insert x A))" for x l :: nat
  by (cases "A = {}") (auto simp: min_def)

lemma least_limit_Min: "least_limit l rs = Min (insert l (rt_limit ` set rs))"
  by (induction rs arbitrary: l) (simp_all only: least_limit.simps list.set image_insert image_empty Min_less finite_imageI finite_set Min_singleton)

definition route_map :: "RouteEntry list \<Rightarrow> nat \<Rightarrow> nat option" where
  "route_map rs = map_of (map (\<lambda>r. (rt_target r, rt_limit r)) rs)"

lemma route_map_simps [simp]:
  "route_map [] = Map.empty" "route_map (r # rs) = (route_map rs)(rt_target r \<mapsto> rt_limit r)"
  by (simp_all add: route_map_def)

lemma route_map_dom: "route_map rs t = None \<longleftrightarrow> t \<notin> rt_target ` set rs"
  by (induction rs) auto

lemma update_routes_ok:
  assumes "distinct (map rt_target rs)" "l \<le> limit" "update_routes t limit l rs = (rs', l')"
  shows "distinct (map rt_target rs') \<and> route_map rs' = (route_map rs)(t \<mapsto> limit) \<and> l' = Min (insert l (rt_limit ` set rs')) \<and>
    rt_target ` set rs' = insert t (rt_target ` set rs)"
  using assms
proof (induction rs arbitrary: l rs' l')
  case (Cons r rs)
  show ?case
  proof (cases "rt_target r = t")
    case True
    then show ?thesis using Cons.prems least_limit_Min by (auto simp: Let_def)
  next
    case False
    define m where "m = (if rt_limit r < l then rt_limit r else l)"
    obtain qs k where q: "update_routes t limit m rs = (qs, k)" by fastforce
    have rs': "rs' = r # qs" "l' = k" using Cons.prems(3) False q by (simp_all add: m_def)
    have "distinct (map rt_target qs) \<and> route_map qs = (route_map rs)(t \<mapsto> limit) \<and> k = Min (insert m (rt_limit ` set qs)) \<and>
        rt_target ` set qs = insert t (rt_target ` set rs)"
      by (rule Cons.IH [OF _ _ q]) (use Cons.prems in \<open>auto simp: m_def\<close>)
    moreover have "Min (insert m (rt_limit ` set qs)) = Min (insert l (insert (rt_limit r) (rt_limit ` set qs)))"
      unfolding m_def by (rule Min_less) simp
    ultimately show ?thesis using False Cons.prems(1) by (auto simp: rs')
  qed
qed (auto simp: min_def)

lemma remove_routes_eq: "remove_routes t l rs = (filter (\<lambda>r. rt_target r \<noteq> t) rs, Min (insert l (rt_limit ` set (filter (\<lambda>r. rt_target r \<noteq> t) rs))))"
proof (induction rs arbitrary: l)
  case (Cons r rs)
  show ?case
  proof (cases "rt_target r = t")
    case False
    have "finite (rt_limit ` {x \<in> set rs. rt_target x \<noteq> t})" by simp
    from Min_less [OF this, of "rt_limit r" l] show ?thesis using False Cons by (simp del: Min_insert)
  qed (use Cons in simp)
qed simp

lemma route_map_filter: "route_map (filter (\<lambda>r. rt_target r \<noteq> t) rs) = (route_map rs)(t := None)"
  by (induction rs) (auto simp: fun_upd_twist)

text \<open>The entry of an area for a stream, and what it should be.\<close>

definition lookup_cache :: "CacheEntry list \<Rightarrow> nat \<Rightarrow> CacheEntry" where
  "lookup_cache c st = (if st \<ge> length c then no_cache else c ! st)"

definition cache_entry :: "log_state \<Rightarrow> nat \<Rightarrow> nat \<Rightarrow> CacheEntry" where
  "cache_entry s a st = lookup_cache (ls_cache s a) st"

definition accept_limit :: "log_state \<Rightarrow> nat \<Rightarrow> nat \<Rightarrow> nat \<Rightarrow> nat option" where
  "accept_limit s a st t =
     (let l = rib_limit s st a DISABLED_level (ls_rib s t) in if l = DISABLED_level then None else Some l)"

definition entry_ok :: "nat set \<Rightarrow> log_state \<Rightarrow> nat \<Rightarrow> nat \<Rightarrow> bool" where
  "entry_ok T s a st \<longleftrightarrow>
     distinct (map rt_target (ce_routes (cache_entry s a st))) \<and>
     (\<forall>t. t \<notin> T \<longrightarrow> route_map (ce_routes (cache_entry s a st)) t = accept_limit s a st t) \<and>
     ce_limit (cache_entry s a st) = Min (insert DISABLED_level (rt_limit ` set (ce_routes (cache_entry s a st))))"

lemma entry_cong:
  assumes "cache_entry s' a st = cache_entry s a st" "\<And>t. t \<notin> T \<Longrightarrow> accept_limit s' a st t = accept_limit s a st t"
  shows "entry_ok T s' a st = entry_ok T s a st"
  using assms by (auto simp: entry_ok_def)

lemma rib_limit_cong: "ls_default s' = ls_default s \<Longrightarrow> rib_limit s' st a l es = rib_limit s st a l es"
  by (induction es arbitrary: l) (simp_all add: entry_level_def Let_def)

lemma rib_limit_filter: "rib_limit s st a l es = rib_limit s st a l (filter (\<lambda>e. entry_matches st a e \<and> re_action e = ACCEPT) es)"
  by (induction es arbitrary: l) simp_all

lemma accept_limit_cong:
  "ls_default s' = ls_default s \<Longrightarrow>
   filter (\<lambda>e. entry_matches st a e \<and> re_action e = ACCEPT) (ls_rib s' t) = filter (\<lambda>e. entry_matches st a e \<and> re_action e = ACCEPT) (ls_rib s t) \<Longrightarrow>
   accept_limit s' a st t = accept_limit s a st t"
  unfolding accept_limit_def using rib_limit_cong [of s' s st a DISABLED_level] rib_limit_filter [of s st a DISABLED_level] by metis

lemma accept_update_one [simp]: "accept_limit (update_one t st a s) a' st' t' = accept_limit s a' st' t'"
  by (rule accept_limit_cong) simp_all

text \<open>One update: the entry is right for this target too, and every other entry is as it was.\<close>

lemma update_one_entry:
  assumes "ls_alive s a" "entry_ok {t} s a st"
  shows "entry_ok {} (update_one t st a s) a st"
proof -
  define l c where "l = rib_limit s st a DISABLED_level (ls_rib s t)" and "c = cache_entry s a st"
  have ok: "distinct (map rt_target (ce_routes c))" "\<And>u. u \<noteq> t \<Longrightarrow> route_map (ce_routes c) u = accept_limit s a st u"
    using assms(2) by (auto simp: entry_ok_def c_def)
  have acc: "accept_limit s a st t = (if l = DISABLED_level then None else Some l)" by (simp add: accept_limit_def l_def Let_def)
  have le: "l \<le> DISABLED_level"
  proof -
    have "rib_limit s st a k es \<le> k" for k es by (induction es arbitrary: k) (auto simp: Let_def intro: order_trans [OF _ less_imp_le])
    then show ?thesis by (simp add: l_def)
  qed
  show ?thesis
  proof (cases "l = DISABLED_level")
    case True
    have c': "cache_entry (update_one t st a s) a st = \<lparr>ce_limit = Min (insert DISABLED_level (rt_limit ` set (filter (\<lambda>r. rt_target r \<noteq> t) (ce_routes c)))),
        ce_routes = filter (\<lambda>r. rt_target r \<noteq> t) (ce_routes c)\<rparr>"
    proof (cases "st < length (ls_cache s a)")
      case True
      then show ?thesis using \<open>l = DISABLED_level\<close> assms(1)
        by (simp add: update_one_def l_def [symmetric] cache_entry_def lookup_cache_def area_removeRoutingCache_def remove_routes_eq c_def del: Min_insert)
    next
      case False
      then show ?thesis using \<open>l = DISABLED_level\<close> assms(1)
        by (simp add: update_one_def l_def [symmetric] cache_entry_def lookup_cache_def area_removeRoutingCache_def c_def no_cache_def)
    qed
    have "route_map (filter (\<lambda>r. rt_target r \<noteq> t) (ce_routes c)) u = accept_limit s a st u" for u
      using ok(2) [of u] acc True by (simp add: route_map_filter)
    then show ?thesis using ok(1) by (simp add: entry_ok_def c' distinct_map_filter del: Min_insert)
  next
    case False
    obtain rs m where u: "update_routes t l l (ce_routes c) = (rs, m)" by fastforce
    have p: "distinct (map rt_target rs)" "route_map rs = (route_map (ce_routes c))(t \<mapsto> l)" "m = Min (insert l (rt_limit ` set rs))"
      using update_routes_ok [OF ok(1) order_refl u] by auto
    have c': "cache_entry (update_one t st a s) a st = \<lparr>ce_limit = m, ce_routes = rs\<rparr>"
    proof (cases "st < length (ls_cache s a)")
      case True
      then show ?thesis using False assms(1) u
        by (simp add: update_one_def l_def [symmetric] cache_entry_def lookup_cache_def area_updateRoutingCache_def c_def)
    next
      case ge: False
      have "(ls_cache s a @ replicate (st + 1 - length (ls_cache s a)) no_cache) ! st = no_cache" using ge by (simp add: nth_append)
      then show ?thesis using False assms(1) u ge
        by (simp add: update_one_def l_def [symmetric] cache_entry_def lookup_cache_def area_updateRoutingCache_def c_def)
    qed
    have "l \<in> rt_limit ` set rs"
    proof -
      have "map_of (map (\<lambda>r. (rt_target r, rt_limit r)) rs) t = Some l" using p(2) by (simp add: route_map_def [symmetric])
      then show ?thesis using map_of_SomeD by fastforce
    qed
    then have "Min (rt_limit ` set rs) \<le> l" "m = Min (rt_limit ` set rs)" "rt_limit ` set rs \<noteq> {}" using p(3) by (auto simp: insert_absorb)
    moreover from this have "Min (rt_limit ` set rs) \<le> DISABLED_level" using le by linarith
    ultimately have "m = Min (insert DISABLED_level (rt_limit ` set rs))" by (simp add: min.absorb2 del: Min_le_iff)
    moreover have "route_map rs u = accept_limit s a st u" for u using ok(2) [of u] acc False p(2) by simp
    ultimately show ?thesis using p(1) by (simp add: entry_ok_def c' del: Min_insert)
  qed
qed

lemma other_streams:
  assumes "st' \<noteq> st"
  shows "lookup_cache (area_removeRoutingCache t st c) st' = lookup_cache c st'" "lookup_cache (area_updateRoutingCache t st l c) st' = lookup_cache c st'"
  using assms by (auto simp: lookup_cache_def area_removeRoutingCache_def area_updateRoutingCache_def Let_def nth_append split: prod.splits)

lemma update_one_other:
  assumes "(a', st') \<noteq> (a, st)"
  shows "cache_entry (update_one t st a s) a' st' = cache_entry s a' st'"
  using assms other_streams [of st' st] by (auto simp: update_one_def cache_entry_def Let_def)

lemma update_one_keeps: "entry_ok T s a' st' \<Longrightarrow> t \<in> T \<or> T = {} \<Longrightarrow> T \<subseteq> {t} \<Longrightarrow> ls_alive s a \<Longrightarrow> entry_ok T (update_one t st a s) a' st'"
proof (cases "(a', st') = (a, st)")
  case True
  assume *: "entry_ok T s a' st'" "T \<subseteq> {t}" "ls_alive s a"
  then have "entry_ok {t} s a st" using True by (auto simp: entry_ok_def)
  then have "entry_ok {} (update_one t st a s) a st" using *(3) by (rule update_one_entry [rotated])
  then show ?thesis using True by (auto simp: entry_ok_def)
next
  case False
  assume "entry_ok T s a' st'"
  then show ?thesis using entry_cong [of "update_one t st a s" a' st' s T] update_one_other [OF False] by simp
qed

text \<open>All updates of a target: the entries that are named become right, and what is right stays right.\<close>

definition pairs :: "log_state \<Rightarrow> nat option \<Rightarrow> nat option \<Rightarrow> (nat \<times> nat) set" where
  "pairs s st a = (case a of Some x \<Rightarrow> {x} | None \<Rightarrow> snd ` set (ls_areas s)) \<times> (case st of Some x \<Rightarrow> {x} | None \<Rightarrow> snd ` set (ls_streams s))"

lemma update_alive:
  "entry_ok {t} s a' st' \<Longrightarrow> entry_ok {t} (update_one t st a s) a' st'" "entry_ok {} s a' st' \<Longrightarrow> entry_ok {} (update_one t st a s) a' st'"
proof -
  have d: "update_one t st a s = s" if "\<not> ls_alive s a" using that by (simp add: update_one_def)
  show "entry_ok {t} s a' st' \<Longrightarrow> entry_ok {t} (update_one t st a s) a' st'"
    by (cases "ls_alive s a") (use d update_one_keeps [of "{t}" s a' st' t a st] in auto)
  show "entry_ok {} s a' st' \<Longrightarrow> entry_ok {} (update_one t st a s) a' st'"
    by (cases "ls_alive s a") (use d update_one_keeps [of "{}" s a' st' t a st] in auto)
qed

text \<open>A fold of updates over keys \<open>k\<close>, each of which settles the pairs \<open>F k\<close>.\<close>

lemma fold_updates:
  assumes keep: "\<And>k s a' st' T. T = {t} \<or> T = {} \<Longrightarrow> entry_ok T s a' st' \<Longrightarrow> entry_ok T (g k s) a' st'"
    and settle: "\<And>k s a' st'. (a', st') \<in> F k \<Longrightarrow> alive s a' \<Longrightarrow> entry_ok {t} s a' st' \<Longrightarrow> entry_ok {} (g k s) a' st'"
    and live: "\<And>k s. alive (g k s) = alive s"
  shows "entry_ok T s a st \<Longrightarrow> T = {t} \<or> T = {} \<Longrightarrow> entry_ok T (fold g ks s) a st"
    "k \<in> set ks \<Longrightarrow> (a, st) \<in> F k \<Longrightarrow> alive s a \<Longrightarrow> entry_ok {t} s a st \<Longrightarrow> entry_ok {} (fold g ks s) a st"
proof -
  show k: "entry_ok T s a st \<Longrightarrow> T = {t} \<or> T = {} \<Longrightarrow> entry_ok T (fold g ks s) a st" for T s ks
    using keep by (induction ks arbitrary: s) auto
  show "k \<in> set ks \<Longrightarrow> (a, st) \<in> F k \<Longrightarrow> alive s a \<Longrightarrow> entry_ok {t} s a st \<Longrightarrow> entry_ok {} (fold g ks s) a st"
  proof (induction ks arbitrary: s)
    case (Cons x ks)
    show ?case
    proof (cases "x = k")
      case True
      then show ?thesis using settle [OF Cons.prems(2-4)] k by simp
    next
      case False
      then show ?thesis using Cons keep live by simp
    qed
  qed simp
qed

lemma update_areas_entry:
  "T = {t} \<or> T = {} \<Longrightarrow> entry_ok T s a' st' \<Longrightarrow> entry_ok T (update_areas t st area s) a' st'"
  "a' \<in> (case area of Some x \<Rightarrow> {x} | None \<Rightarrow> snd ` set (ls_areas s)) \<Longrightarrow> ls_alive s a' \<Longrightarrow> entry_ok {t} s a' st \<Longrightarrow>
     entry_ok {} (update_areas t st area s) a' st"
proof -
  have keep: "T = {t} \<or> T = {} \<Longrightarrow> entry_ok T s a' st' \<Longrightarrow> entry_ok T (update_one t st k s) a' st'" for k s a' st' T
    using update_alive by auto
  have settle: "(a', st') \<in> {(k, st)} \<Longrightarrow> ls_alive s a' \<Longrightarrow> entry_ok {t} s a' st' \<Longrightarrow> entry_ok {} (update_one t st k s) a' st'" for k s a' st'
    using update_one_entry by auto
  note f = fold_updates [where alive = ls_alive and g = "update_one t st" and F = "\<lambda>a. {(a, st)}" and t = t, OF keep settle update_one_simps(4)]
  show "T = {t} \<or> T = {} \<Longrightarrow> entry_ok T s a' st' \<Longrightarrow> entry_ok T (update_areas t st area s) a' st'"
    using f(1) [of T s a' st'] keep [of T s a' st'] by (cases area) (simp_all add: update_areas_def)
  show "a' \<in> (case area of Some x \<Rightarrow> {x} | None \<Rightarrow> snd ` set (ls_areas s)) \<Longrightarrow> ls_alive s a' \<Longrightarrow> entry_ok {t} s a' st \<Longrightarrow>
     entry_ok {} (update_areas t st area s) a' st"
    using f(2) [of a' "map snd (ls_areas s)" a' st s] settle [of a' st a' s] by (cases area) (simp_all add: update_areas_def)
qed

lemma updateRoutingCache_entry:
  "T = {t} \<or> T = {} \<Longrightarrow> entry_ok T s a' st' \<Longrightarrow> entry_ok T (target_updateRoutingCache t stream area s) a' st'"
  "(a', st') \<in> pairs s stream area \<Longrightarrow> ls_alive s a' \<Longrightarrow> entry_ok {t} s a' st' \<Longrightarrow>
     entry_ok {} (target_updateRoutingCache t stream area s) a' st'"
proof -
  define F where "F st = (case area of Some x \<Rightarrow> {x} | None \<Rightarrow> snd ` set (ls_areas s)) \<times> {st}" for st :: nat
  define alive where "alive s' a \<longleftrightarrow> ls_alive s' a \<and> ls_areas s' = ls_areas s" for s' :: log_state and a
  have keep: "T = {t} \<or> T = {} \<Longrightarrow> entry_ok T s a' st' \<Longrightarrow> entry_ok T (update_areas t k area s) a' st'" for k s a' st' T
    by (rule update_areas_entry(1))
  have settle: "(a', st') \<in> F k \<Longrightarrow> alive s' a' \<Longrightarrow> entry_ok {t} s' a' st' \<Longrightarrow> entry_ok {} (update_areas t k area s') a' st'" for k s' a' st'
    using update_areas_entry(2) [where a' = a' and area = area and s = s' and t = t and st = k] by (auto simp: F_def alive_def split: option.splits)
  have live: "alive (update_areas t k area s') = alive s'" for k s' by (simp add: alive_def fun_eq_iff)
  note f = fold_updates [where alive = alive and g = "\<lambda>k. update_areas t k area" and F = F and t = t, OF keep settle live]
  show "T = {t} \<or> T = {} \<Longrightarrow> entry_ok T s a' st' \<Longrightarrow> entry_ok T (target_updateRoutingCache t stream area s) a' st'"
    using f(1) [where T = T and s = s and a = a' and st = st'] keep [of T s a' st'] by (cases stream) (simp_all add: target_updateRoutingCache_def)
  show "(a', st') \<in> pairs s stream area \<Longrightarrow> ls_alive s a' \<Longrightarrow> entry_ok {t} s a' st' \<Longrightarrow>
     entry_ok {} (target_updateRoutingCache t stream area s) a' st'"
    using f(2) [where k = st' and ks = "map snd (ls_streams s)" and a = a' and st = st' and s = s] settle [of a' st' st' s]
    by (cases stream) (auto simp: target_updateRoutingCache_def pairs_def F_def alive_def)
qed

definition cache_ok :: "log_state \<Rightarrow> bool" where
  "cache_ok s \<longleftrightarrow> (\<forall>a\<in>snd ` set (ls_areas s). \<forall>st\<in>snd ` set (ls_streams s). ls_alive s a \<longrightarrow> entry_ok {} s a st)"

lemma matches_pairs:
  "a \<in> snd ` set (ls_areas s) \<Longrightarrow> st \<in> snd ` set (ls_streams s) \<Longrightarrow> entry_matches st a e \<Longrightarrow> (a, st) \<in> pairs s (re_stream e) (re_area e)"
  by (auto simp: entry_matches_def pairs_def split: option.splits)

text \<open>The rules of one target change: the cache is right for the others, and for this one where the accepting rules are the same.\<close>

lemma change_rib:
  assumes "entry_ok {} s a st" "s1 = s\<lparr>ls_rib := (ls_rib s)(t := rib)\<rparr>"
  shows "entry_ok {t} s1 a st"
    "filter (\<lambda>e. entry_matches st a e \<and> re_action e = ACCEPT) rib = filter (\<lambda>e. entry_matches st a e \<and> re_action e = ACCEPT) (ls_rib s t) \<Longrightarrow>
     entry_ok {} s1 a st"
proof -
  have c: "cache_entry s1 a st = cache_entry s a st" by (simp add: assms(2) cache_entry_def)
  have "accept_limit s1 a st u = accept_limit s a st u" if "u \<noteq> t" for u by (rule accept_limit_cong) (use that in \<open>simp_all add: assms(2)\<close>)
  then have "entry_ok {t} s1 a st = entry_ok {t} s a st" by (intro entry_cong [OF c]) auto
  then show "entry_ok {t} s1 a st" using assms(1) by (auto simp: entry_ok_def)
  assume "filter (\<lambda>e. entry_matches st a e \<and> re_action e = ACCEPT) rib = filter (\<lambda>e. entry_matches st a e \<and> re_action e = ACCEPT) (ls_rib s t)"
  then have "accept_limit s1 a st u = accept_limit s a st u" for u by (intro accept_limit_cong) (auto simp: assms(2))
  then show "entry_ok {} s1 a st" using entry_cong [OF c, of "{}"] assms(1) by simp
qed

text \<open>A rule is added or removed, and the cache updated when it is an accepting one.\<close>

lemma change_entry:
  assumes "cache_ok s" "s1 = s\<lparr>ls_rib := (ls_rib s)(t := rib)\<rparr>"
    and "\<And>P. \<not> P e \<Longrightarrow> filter P rib = filter P (ls_rib s t)"
  shows "cache_ok (if re_action e = ACCEPT then target_updateRoutingCache t (re_stream e) (re_area e) s1 else s1)"
    (is "cache_ok ?s2")
proof -
  have "entry_ok {} ?s2 a st" if r: "a \<in> snd ` set (ls_areas s)" "st \<in> snd ` set (ls_streams s)" "ls_alive s a" for a st
  proof -
    have ok: "entry_ok {} s a st" using assms(1) r by (auto simp: cache_ok_def)
    show ?thesis
    proof (cases "entry_matches st a e \<and> re_action e = ACCEPT")
      case True
      then have "(a, st) \<in> pairs s1 (re_stream e) (re_area e)" using matches_pairs r assms(2) by (simp add: pairs_def)
      then show ?thesis using updateRoutingCache_entry(2) [of a st s1] change_rib(1) [OF ok assms(2)] r(3) True assms(2) by simp
    next
      case False
      have "entry_ok {} s1 a st" by (rule change_rib(2) [OF ok assms(2)]) (rule assms(3), use False in simp)
      then show ?thesis using updateRoutingCache_entry(1) [of "{}" t s1] by simp
    qed
  qed
  moreover have "ls_areas ?s2 = ls_areas s" "ls_streams ?s2 = ls_streams s" "ls_alive ?s2 = ls_alive s" by (simp_all add: assms(2))
  ultimately show ?thesis by (simp add: cache_ok_def del: if_split)
qed

lemma cache_ok_fallback [simp]: "cache_ok (s\<lparr>ls_fallback := x\<rparr>) = cache_ok s"
proof -
  have "entry_ok T (s\<lparr>ls_fallback := x\<rparr>) a st = entry_ok T s a st" for T a st
    by (rule entry_cong, simp add: cache_entry_def) (rule accept_limit_cong, simp_all)
  then show ?thesis by (simp add: cache_ok_def)
qed

lemma route_keeps_cache: "cache_ok s \<Longrightarrow> cache_ok (log_route t st a level action index s)"
proof -
  assume ok: "cache_ok s"
  define e where "e = \<lparr>re_stream = st, re_area = a, re_level = level, re_action = action\<rparr>"
  define i where "i = log_route_index index (length (ls_rib s t))"
  have "filter P (insert_list i [e] (ls_rib s t)) = filter P (ls_rib s t)" if "\<not> P e" for P
    using that by (simp add: insert_list_def) (metis append_take_drop_id filter_append)
  from change_entry [where e = e, OF ok refl this]
  have "cache_ok (if re_action e = ACCEPT then target_updateRoutingCache t (re_stream e) (re_area e) (s\<lparr>ls_rib := (ls_rib s)(t := insert_list i [e] (ls_rib s t))\<rparr>)
      else s\<lparr>ls_rib := (ls_rib s)(t := insert_list i [e] (ls_rib s t))\<rparr>)" .
  moreover have "log_route t st a level action index s =
      (if re_action e = ACCEPT then target_updateRoutingCache t (re_stream e) (re_area e) (s\<lparr>ls_rib := (ls_rib s)(t := insert_list i [e] (ls_rib s t))\<rparr>)
       else s\<lparr>ls_rib := (ls_rib s)(t := insert_list i [e] (ls_rib s t))\<rparr>)\<lparr>ls_fallback := False\<rparr>"
    by (simp add: log_route_def e_def i_def Let_def)
  ultimately show ?thesis by (simp only: cache_ok_fallback)
qed

lemma unroute_at_keeps_cache: "cache_ok s \<Longrightarrow> cache_ok (log_unroute_at t index s)"
proof (cases "ls_rib s t = []")
  case False
  assume ok: "cache_ok s"
  define i where "i = log_unroute_index index (length (ls_rib s t))"
  define e where "e = ls_rib s t ! i"
  have i: "i < length (ls_rib s t)" using unroute_index_less [of "length (ls_rib s t)" index] False by (simp add: i_def)
  have f: "filter P (cut_list i (i + 1) (ls_rib s t)) = filter P (ls_rib s t)" if "\<not> P e" for P
  proof -
    have "ls_rib s t = take i (ls_rib s t) @ e # drop (i + 1) (ls_rib s t)" using i by (simp add: e_def id_take_nth_drop)
    then have "filter P (ls_rib s t) = filter P (take i (ls_rib s t)) @ filter P (drop (i + 1) (ls_rib s t))"
      using that by (metis filter.simps(2) filter_append)
    then show ?thesis by (simp add: cut_list_def)
  qed
  have "cache_ok (if re_action e = ACCEPT then target_updateRoutingCache t (re_stream e) (re_area e) (s\<lparr>ls_rib := (ls_rib s)(t := cut_list i (i + 1) (ls_rib s t))\<rparr>)
      else s\<lparr>ls_rib := (ls_rib s)(t := cut_list i (i + 1) (ls_rib s t))\<rparr>)"
    by (rule change_entry [OF ok refl]) (rule f)
  then show ?thesis using False unfolding log_unroute_at_def Let_def i_def [symmetric] e_def [symmetric] by (simp only: if_False)
qed (simp add: log_unroute_at_def)

lemma unroute_keeps_cache: "cache_ok s \<Longrightarrow> cache_ok (log_unroute t st a level action s)"
  by (simp add: log_unroute_def Let_def unroute_at_keeps_cache)

lemma destroy_keeps_cache: "cache_ok s \<Longrightarrow> cache_ok (log_destroy_target t s) \<and> ls_rib (log_destroy_target t s) t = []"
  by (induction t s rule: log_destroy_target.induct) (subst (1 2) log_destroy_target.simps, simp add: Let_def unroute_keeps_cache)

lemma rib_limit_none: "(\<And>e. e \<in> set es \<Longrightarrow> \<not> (entry_matches st a e \<and> re_action e = ACCEPT)) \<Longrightarrow> rib_limit s st a l es = l"
  by (induction es) (fastforce)+

lemma flush_keeps_cache: "cache_ok s \<Longrightarrow> cache_ok (log_flush t s)"
proof -
  assume ok: "cache_ok s"
  define g where "g e s = (if re_action e = ACCEPT then target_updateRoutingCache t (re_stream e) (re_area e) s else s)" for e :: RoutingEntry and s :: log_state
  define s1 where "s1 = s\<lparr>ls_rib := (ls_rib s)(t := [])\<rparr>"
  define F where "F e = (if re_action e = ACCEPT then pairs s (re_stream e) (re_area e) else {})" for e :: RoutingEntry
  define alive where "alive s' a \<longleftrightarrow> ls_alive s' a \<and> ls_areas s' = ls_areas s \<and> ls_streams s' = ls_streams s" for s' :: log_state and a
  have keep: "T = {t} \<or> T = {} \<Longrightarrow> entry_ok T s a' st' \<Longrightarrow> entry_ok T (g k s) a' st'" for k s a' st' T
    using updateRoutingCache_entry(1) by (simp add: g_def)
  have settle: "(a', st') \<in> F k \<Longrightarrow> alive s' a' \<Longrightarrow> entry_ok {t} s' a' st' \<Longrightarrow> entry_ok {} (g k s') a' st'" for k s' a' st'
  proof -
    assume m: "(a', st') \<in> F k" and al: "alive s' a'" and e: "entry_ok {t} s' a' st'"
    have "re_action k = ACCEPT" "(a', st') \<in> pairs s' (re_stream k) (re_area k)" "ls_alive s' a'"
      using m al by (auto simp: F_def alive_def pairs_def split: if_splits option.splits)
    then show "entry_ok {} (g k s') a' st'" using updateRoutingCache_entry(2) e by (simp add: g_def)
  qed
  have live: "alive (g k s') = alive s'" for k s' by (simp add: alive_def fun_eq_iff g_def)
  note f = fold_updates [where alive = alive and g = g and F = F and t = t, OF keep settle live]
  have fields: "ls_areas (fold g es s') = ls_areas s'" "ls_streams (fold g es s') = ls_streams s'" "ls_alive (fold g es s') = ls_alive s'" for es s'
    by (simp_all add: fold_keeps g_def)
  have "entry_ok {} (fold g (ls_rib s t) s1) a st" if r: "a \<in> snd ` set (ls_areas s)" "st \<in> snd ` set (ls_streams s)" "ls_alive s a" for a st
  proof -
    have e: "entry_ok {} s a st" using ok r by (auto simp: cache_ok_def)
    show ?thesis
    proof (cases "\<exists>e\<in>set (ls_rib s t). entry_matches st a e \<and> re_action e = ACCEPT")
      case True
      then obtain e where m: "e \<in> set (ls_rib s t)" "(a, st) \<in> F e" using matches_pairs [OF r(1,2)] by (auto simp: F_def)
      have "alive s1 a" "entry_ok {t} s1 a st" using r(3) change_rib(1) [OF e s1_def] by (simp_all add: alive_def s1_def)
      then show ?thesis using f(2) [where k = e and ks = "ls_rib s t" and s = s1 and a = a and st = st] m by simp
    next
      case False
      then have "filter (\<lambda>e. entry_matches st a e \<and> re_action e = ACCEPT) (ls_rib s t) = []" by (auto simp: filter_empty_conv)
      then have "entry_ok {} s1 a st" using change_rib(2) [OF e s1_def] by simp
      then show ?thesis using f(1) [where T = "{}" and s = s1 and a = a and st = st] by simp
    qed
  qed
  moreover have "log_flush t s = fold g (ls_rib s t) s1" by (simp add: log_flush_def g_def [abs_def] s1_def)
  ultimately show ?thesis by (simp add: cache_ok_def fields) (simp add: s1_def)
qed

section \<open>Properties\<close>

text \<open>
  What can happen: streams and areas are registered while there are no rules yet, as the static
  initialisation does; then rules of targets are added and removed in any order.
\<close>

definition log_registerStream :: "string \<Rightarrow> nat \<Rightarrow> log_state \<Rightarrow> log_state" where
  "log_registerStream name st s = (if name \<in> fst ` set (ls_streams s) then s else s\<lparr>ls_streams := ls_streams s @ [(name, st)]\<rparr>)"

definition log_registerArea :: "string \<Rightarrow> nat \<Rightarrow> log_state \<Rightarrow> log_state" where
  "log_registerArea name a s = (if name \<in> fst ` set (ls_areas s) then s else s\<lparr>ls_areas := ls_areas s @ [(name, a)]\<rparr>)"

definition log_destroy_area :: "nat \<Rightarrow> log_state \<Rightarrow> log_state" where
  "log_destroy_area a s = s\<lparr>ls_alive := (ls_alive s)(a := False)\<rparr>"

inductive log_reach :: "log_state \<Rightarrow> bool" where
  start: "ls_streams s = [] \<Longrightarrow> ls_areas s = [] \<Longrightarrow> ls_cache s = (\<lambda>_. []) \<Longrightarrow> ls_rib s = (\<lambda>_. []) \<Longrightarrow> log_reach s"
| stream: "log_reach s \<Longrightarrow> ls_rib s = (\<lambda>_. []) \<Longrightarrow> ls_cache s = (\<lambda>_. []) \<Longrightarrow> log_reach (log_registerStream name st s)"
| area: "log_reach s \<Longrightarrow> ls_rib s = (\<lambda>_. []) \<Longrightarrow> ls_cache s = (\<lambda>_. []) \<Longrightarrow> log_reach (log_registerArea name a s)"
| route: "log_reach s \<Longrightarrow> log_reach (log_route t st ar level action index s)"
| unroute_at: "log_reach s \<Longrightarrow> log_reach (log_unroute_at t index s)"
| unroute: "log_reach s \<Longrightarrow> log_reach (log_unroute t st ar level action s)"
| flush: "log_reach s \<Longrightarrow> log_reach (log_flush t s)"
| destroy: "log_reach s \<Longrightarrow> log_reach (log_destroy_target t s)"
| area_gone: "log_reach s \<Longrightarrow> log_reach (log_destroy_area a s)"

lemma empty_cache_ok: "ls_rib s = (\<lambda>_. []) \<Longrightarrow> ls_cache s = (\<lambda>_. []) \<Longrightarrow> cache_ok s"
  by (simp add: cache_ok_def entry_ok_def cache_entry_def lookup_cache_def no_cache_def accept_limit_def)

lemma destroy_area_keeps_cache: "cache_ok s \<Longrightarrow> cache_ok (log_destroy_area a s)"
proof -
  have same: "accept_limit (log_destroy_area a s) b st t = accept_limit s b st t" "cache_entry (log_destroy_area a s) b st = cache_entry s b st" for b st t
    by (rule accept_limit_cong) (simp_all add: log_destroy_area_def cache_entry_def)
  then have "entry_ok {} (log_destroy_area a s) b st = entry_ok {} s b st" for b st by (simp add: entry_ok_def)
  then show "cache_ok s \<Longrightarrow> cache_ok (log_destroy_area a s)" by (simp add: cache_ok_def) (simp add: log_destroy_area_def)
qed

lemma reach_cache_ok: "log_reach s \<Longrightarrow> cache_ok s"
proof (induction rule: log_reach.induct)
  case (stream s name st)
  then show ?case using empty_cache_ok [of "log_registerStream name st s"] by (simp add: log_registerStream_def)
next
  case (area s name a)
  then show ?case using empty_cache_ok [of "log_registerArea name a s"] by (simp add: log_registerArea_def)
qed (auto simp: empty_cache_ok route_keeps_cache unroute_at_keeps_cache unroute_keeps_cache flush_keeps_cache destroy_keeps_cache destroy_area_keeps_cache)

lemma write_needs_limit:
  assumes "target_write s st a level es" "level < DISABLED_level"
  shows "rib_limit s st a DISABLED_level es \<le> level"
proof -
  have le: "rib_limit s st a l es \<le> l" for l es by (induction es arbitrary: l) (auto simp: Let_def intro: order_trans [OF _ less_imp_le])
  have "target_write s st a level es \<Longrightarrow> rib_limit s st a l es \<le> level" for l es
  proof (induction es arbitrary: l)
    case (Cons e es)
    show ?case
    proof (cases "entry_matches st a e \<and> entry_level s st e \<le> level")
      case True
      then have "re_action e = ACCEPT" using Cons.prems by simp
      then show ?thesis using True le [of "if entry_level s st e < l then entry_level s st e else l" es] by (auto simp: Let_def split: if_splits)
    next
      case False
      then show ?thesis using Cons by (simp add: Let_def)
    qed
  qed simp
  then show ?thesis using assms(1) by simp
qed

text \<open>
  C28: A message is written to exactly the targets whose first rule that matches its stream, area and level
  accepts it, each once: whatever rules have been added, inserted and removed before, neither the cache
  of the area nor the comparison with the least level, which is made before the message is built, loses
  a message or writes it twice.
\<close>

theorem log_message_reaches:
  assumes "log_reach s" "\<not> ls_fallback s" "a \<in> snd ` set (ls_areas s)" "st \<in> snd ` set (ls_streams s)" "ls_alive s a" "level < DISABLED_level"
  shows "set (log_message True console s st a level) = {t. target_write s st a level (ls_rib s t)} \<and> distinct (log_message True console s st a level)"
proof -
  define c where "c = cache_entry s a st"
  have ok: "entry_ok {} s a st" using reach_cache_ok [OF assms(1)] assms(3-5) by (auto simp: cache_ok_def)
  then have d: "distinct (map rt_target (ce_routes c))" and m: "\<And>t. route_map (ce_routes c) t = accept_limit s a st t"
    and l: "ce_limit c = Min (insert DISABLED_level (rt_limit ` set (ce_routes c)))" by (simp_all add: entry_ok_def c_def)
  have w: "area_write s a st level = filter (\<lambda>t. target_write s st a level (ls_rib s t)) (map rt_target (ce_routes c))"
    by (simp add: area_write_def c_def cache_entry_def lookup_cache_def no_cache_def)
  have acc: "\<exists>r\<in>set (ce_routes c). rt_target r = t \<and> rt_limit r \<le> level" if "target_write s st a level (ls_rib s t)" for t
  proof -
    define k where "k = rib_limit s st a DISABLED_level (ls_rib s t)"
    have k: "k \<le> level" using write_needs_limit [OF that assms(6)] by (simp add: k_def)
    then have "route_map (ce_routes c) t = Some k" using m [of t] assms(6) by (auto simp: accept_limit_def k_def Let_def)
    then have "(t, k) \<in> set (map (\<lambda>r. (rt_target r, rt_limit r)) (ce_routes c))" unfolding route_map_def by (rule map_of_SomeD)
    then show ?thesis using k by auto
  qed
  have set: "set (area_write s a st level) = {t. target_write s st a level (ls_rib s t)}" using acc by (auto simp: w)
  have en: "area_limit s a st = ce_limit c" by (simp add: area_limit_def c_def cache_entry_def lookup_cache_def no_cache_def)
  show ?thesis
  proof (cases "area_limit s a st \<le> level")
    case True
    then show ?thesis using set d assms(2) by (simp add: log_message_def log_enabled_def registry_write_def w)
  next
    case False
    have "\<not> target_write s st a level (ls_rib s t)" for t
    proof
      assume "target_write s st a level (ls_rib s t)"
      then obtain r where "r \<in> set (ce_routes c)" "rt_limit r \<le> level" using acc by blast
      then have "Min (insert DISABLED_level (rt_limit ` set (ce_routes c))) \<le> level"
        by (intro order_trans [OF Min_le [of _ "rt_limit r"]]) simp_all
      then have "ce_limit c \<le> level" by (simp only: l)
      then show False using False en by simp
    qed
    then show ?thesis using False assms(2) by (simp add: log_message_def log_enabled_def)
  qed
qed

text \<open>One stream and one area; everything from CRITICAL on goes to target 4, everything but that from NOTICE on to target 5.\<close>

definition log_example :: log_state where
  "log_example =
     log_route 5 None None 2 ACCEPT (- 1)
       (log_route 5 None (Some 0) 5 REJECT (- 1)
         (log_route 4 (Some 0) None 5 ACCEPT (- 1)
           \<lparr>ls_streams = [(''senf::log::Debug'', 0)], ls_areas = [(''senf::log::DefaultArea'', 0)], ls_default = (\<lambda>_. MESSAGE_level), ls_alive = (\<lambda>_. True),
             ls_cache = (\<lambda>_. []), ls_rib = (\<lambda>_. []), ls_fallback = True\<rparr>))"

lemma log_example_reach: "log_reach log_example"
proof -
  define s0 where "s0 = \<lparr>ls_streams = [], ls_areas = [], ls_default = (\<lambda>_. MESSAGE_level), ls_alive = (\<lambda>_. True),
    ls_cache = (\<lambda>_. []), ls_rib = (\<lambda>_. []), ls_fallback = True\<rparr>"
  have "log_reach s0" by (rule log_reach.start) (simp_all add: s0_def)
  then have "log_reach (log_registerStream ''senf::log::Debug'' 0 s0)" by (rule log_reach.stream) (simp_all add: s0_def)
  then have "log_reach (log_registerArea ''senf::log::DefaultArea'' 0 (log_registerStream ''senf::log::Debug'' 0 s0))"
    by (rule log_reach.area) (simp_all add: s0_def log_registerStream_def)
  then show ?thesis unfolding log_example_def
    by (intro log_reach.route) (simp add: s0_def log_registerStream_def log_registerArea_def)
qed

theorem log_message_reaches_witness:
  "set (log_message True 9 log_example 0 0 4) = {t. target_write log_example 0 0 4 (ls_rib log_example t)} \<and>
   target_write log_example 0 0 4 (ls_rib log_example 5) \<and> \<not> target_write log_example 0 0 5 (ls_rib log_example 5)"
proof -
  have "\<not> ls_fallback log_example" "0 \<in> snd ` set (ls_areas log_example)" "0 \<in> snd ` set (ls_streams log_example)" "ls_alive log_example 0"
    by (simp_all add: log_example_def log_route_def Let_def)
  moreover have "4 < DISABLED_level" by (simp add: DISABLED_level_def)
  moreover have "target_write log_example 0 0 4 (ls_rib log_example 5)" "\<not> target_write log_example 0 0 5 (ls_rib log_example 5)"
    by (simp_all add: log_example_def log_route_def log_route_index_def insert_list_def entry_matches_def entry_level_def NONE_level_def Let_def)
  ultimately show ?thesis using log_message_reaches [OF log_example_reach] by blast
qed

text \<open>
  A stream or area that is registered when there are rules already has no cache entry: until the rules
  are set up again none of its messages is written, even where a rule for any stream and area accepts it.
\<close>

lemma late_area_is_silent:
  assumes "\<not> ls_fallback s" "ls_cache s a = []" "level < DISABLED_level"
  shows "log_message True console (log_registerArea name a s) st a level = []"
  using assms by (simp add: log_message_def log_enabled_def area_limit_def log_registerArea_def)

lemma late_area_example:
  "target_write (log_registerArea ''app'' 1 log_example) 0 1 4 (ls_rib (log_registerArea ''app'' 1 log_example) 5)"
  "log_message True 9 (log_registerArea ''app'' 1 log_example) 0 1 4 = []"
proof -
  have "\<not> ls_fallback log_example" "ls_cache log_example 1 = []"
    by (simp_all add: log_example_def log_route_def target_updateRoutingCache_def update_areas_def update_one_def Let_def)
  then show "log_message True 9 (log_registerArea ''app'' 1 log_example) 0 1 4 = []" by (rule late_area_is_silent) (simp add: DISABLED_level_def)
qed (simp add: log_registerArea_def log_example_def log_route_def log_route_index_def insert_list_def entry_matches_def entry_level_def NONE_level_def Let_def)

text \<open>The fallback: before the first rule everything from the default level of its stream on goes to the console.\<close>

lemma fallback_to_console:
  "ls_fallback s \<Longrightarrow> log_message True console s st a level = (if ls_default s st \<le> level then [console] else [])"
  by (simp add: log_message_def log_enabled_def registry_write_def)

lemma route_ends_fallback: "\<not> ls_fallback (log_route t st a level action index s)"
  by (simp add: log_route_def Let_def)

text \<open>An unknown name changes nothing.\<close>

lemma route_named_errors:
  "stream \<noteq> [] \<Longrightarrow> map_of (ls_streams s) stream = None \<Longrightarrow> log_route_named t stream area level action index s = Inl InvalidStreamException"
  "stream = [] \<or> map_of (ls_streams s) stream \<noteq> None \<Longrightarrow> area \<noteq> [] \<Longrightarrow> map_of (ls_areas s) area = None \<Longrightarrow>
     log_route_named t stream area level action index s = Inl InvalidAreaException"
  by (auto simp: log_route_named_def log_lookup_def)

text \<open>The destructor leaves no rule behind.\<close>

lemma destroyed_target_has_no_rules: "ls_rib (log_destroy_target t s) t = []"
proof (induction t s rule: log_destroy_target.induct)
  case (1 t s)
  then show ?case by (cases "ls_rib s t = []") (simp_all add: log_destroy_target.simps [of t s] Let_def)
qed

end
