(* ===== verification/Fifo_Runner.thy ===== *)
theory Fifo_Runner
  imports Senf_Prelude "HOL-Library.Sublist"
begin

text \<open>
  The task queue of the scheduler: \<open>senf/Scheduler/FIFORunner.cc\<close>, \<open>.cci\<close> and \<open>.hh\<close>.

  The intrusive list \<open>tasks_\<close> is a list of node names; the three \<open>NullTask\<close> members are
  nodes of their own. An iterator is the node it points at, \<open>None\<close> stands for \<open>end()\<close>.
  A callback is arbitrary code: given its own state it returns the calls it makes to
  the runner, in order, and whether it ends by an exception.
\<close>

section \<open>State\<close>

datatype priority = PRIORITY_LOW | PRIORITY_NORMAL | PRIORITY_HIGH

datatype node = Task nat | QueueEnd | NormalPriorityEnd | HighPriorityEnd

record fifo =
  fr_tasks :: "node list"
  fr_next :: "node option"
  fr_runnable :: "nat \<Rightarrow> bool"
  fr_priority :: "nat \<Rightarrow> priority"
  fr_name :: "nat \<Rightarrow> string"
  fr_runCount :: "nat \<Rightarrow> u32"
  fr_runningTask :: "node option"
  fr_runningName :: string
  fr_timer :: "u32 \<times> u32"
  fr_watchdogRunning :: bool
  fr_watchdogMs :: u32
  fr_watchdogAbort :: bool
  fr_watchdogCheckpoint :: "string option"
  fr_watchdogCount :: u32
  fr_hangCount :: u32
  fr_yield :: bool

text \<open>The constructor, for given names and priorities of the tasks; the timer is not armed.\<close>

definition fifo_init :: "(nat \<Rightarrow> string) \<Rightarrow> (nat \<Rightarrow> priority) \<Rightarrow> fifo" where
  "fifo_init nm pr = \<lparr>fr_tasks = [HighPriorityEnd, NormalPriorityEnd], fr_next = None,
     fr_runnable = (\<lambda>_. False), fr_priority = pr, fr_name = nm, fr_runCount = (\<lambda>_. 0),
     fr_runningTask = None, fr_runningName = [], fr_timer = (0, 0),
     fr_watchdogRunning = False, fr_watchdogMs = 1000, fr_watchdogAbort = False,
     fr_watchdogCheckpoint = None, fr_watchdogCount = 0, fr_hangCount = 0, fr_yield = False\<rparr>"

section \<open>List iterators\<close>

fun succ_in :: "'a \<Rightarrow> 'a list \<Rightarrow> 'a option" where
  "succ_in x [] = None"
| "succ_in x (y # ys) = (if y = x then (case ys of [] \<Rightarrow> None | z # _ \<Rightarrow> Some z) else succ_in x ys)"

fun insert_before :: "'a option \<Rightarrow> 'a \<Rightarrow> 'a list \<Rightarrow> 'a list" where
  "insert_before l x [] = [x]"
| "insert_before l x (y # ys) = (if l = Some y then x # y # ys else y # insert_before l x ys)"

definition list_begin :: "'a list \<Rightarrow> 'a option" where
  "list_begin xs = (case xs of [] \<Rightarrow> None | x # _ \<Rightarrow> Some x)"

section \<open>Queue operations\<close>

fun priorityEnd :: "priority \<Rightarrow> node option" where
  "priorityEnd PRIORITY_LOW = None"
| "priorityEnd PRIORITY_NORMAL = Some NormalPriorityEnd"
| "priorityEnd PRIORITY_HIGH = Some HighPriorityEnd"

text \<open>Linking a node twice and erasing a node that is not linked are assertions of the list.\<close>

definition enqueue :: "nat \<Rightarrow> fifo \<Rightarrow> fifo option" where
  "enqueue t r =
     (if Task t \<in> set (fr_tasks r) then None
      else Some (r\<lparr>fr_tasks := insert_before (priorityEnd (fr_priority r t)) (Task t) (fr_tasks r)\<rparr>))"

definition dequeue :: "nat \<Rightarrow> fifo \<Rightarrow> fifo option" where
  "dequeue t r =
     (if Task t \<notin> set (fr_tasks r) then None
      else
        let r1 = (if fr_next r = Some (Task t)
                  then r\<lparr>fr_next := succ_in (Task t) (fr_tasks r)\<rparr> else r);
            r2 = (if fr_runningTask r1 = Some (Task t)
                  then r1\<lparr>fr_runningTask := None, fr_runningName := fr_name r1 t\<rparr> else r1)
        in Some (r2\<lparr>fr_tasks := remove1 (Task t) (fr_tasks r2)\<rparr>))"

definition setRunnable :: "nat \<Rightarrow> fifo \<Rightarrow> fifo" where
  "setRunnable t r = r\<lparr>fr_runnable := (fr_runnable r)(t := True)\<rparr>"

definition yield :: "fifo \<Rightarrow> fifo" where
  "yield r = r\<lparr>fr_yield := True\<rparr>"

definition watchdogCheckpoint :: "string \<Rightarrow> fifo \<Rightarrow> fifo" where
  "watchdogCheckpoint s r = r\<lparr>fr_watchdogCheckpoint := Some s\<rparr>"

text \<open>The tasks that \<open>begin()\<close> to \<open>end()\<close> show: the nodes with a type.\<close>

fun is_task :: "node \<Rightarrow> bool" where
  "is_task (Task t) = True"
| "is_task _ = False"

definition listed_tasks :: "fifo \<Rightarrow> node list" where
  "listed_tasks r = filter is_task (fr_tasks r)"

section \<open>The watchdog\<close>

text \<open>\<open>ok\<close> says whether \<open>timer_settime\<close> succeeds; \<open>None\<close> is the system exception.\<close>

definition stopWatchdog :: "bool \<Rightarrow> fifo \<Rightarrow> fifo option" where
  "stopWatchdog ok r = (if ok then Some (r\<lparr>fr_timer := (0, 0), fr_watchdogRunning := False\<rparr>) else None)"

definition startWatchdog :: "bool \<Rightarrow> fifo \<Rightarrow> fifo option" where
  "startWatchdog ok r =
     (if fr_watchdogMs r > 0
      then (if ok
            then Some (r\<lparr>fr_timer := (fr_watchdogMs r div 1000, fr_watchdogMs r mod 1000 * 1000000),
                         fr_watchdogRunning := True\<rparr>)
            else None)
      else stopWatchdog ok r)"

definition set_taskTimeout :: "bool \<Rightarrow> u32 \<Rightarrow> fifo \<Rightarrow> fifo option" where
  "set_taskTimeout ok ms r =
     (let r1 = r\<lparr>fr_watchdogMs := ms\<rparr>
      in if fr_watchdogRunning r1 then startWatchdog ok r1 else Some r1)"

definition set_abortOnTimeout :: "bool \<Rightarrow> fifo \<Rightarrow> fifo" where
  "set_abortOnTimeout flag r = r\<lparr>fr_watchdogAbort := flag\<rparr>"

definition hangCount :: "fifo \<Rightarrow> u32 \<times> fifo" where
  "hangCount r = (fr_hangCount r, r\<lparr>fr_hangCount := 0\<rparr>)"

text \<open>The line \<open>watchdogError\<close> writes, for the process id as a string of six characters.\<close>

fun node_name :: "fifo \<Rightarrow> node \<Rightarrow> string" where
  "node_name r (Task t) = fr_name r t"
| "node_name r _ = ''<null>''"

definition watchdogError :: "string \<Rightarrow> fifo \<Rightarrow> string \<times> bool" where
  "watchdogError pid r =
     ([CHR 0x0A, CHR 0x0A] @ ''*** Scheduler task hanging (pid '' @ pid @ ''): '' @
      (case fr_runningTask r of Some x \<Rightarrow> node_name r x | None \<Rightarrow> fr_runningName r) @
      (case fr_watchdogCheckpoint r of Some s \<Rightarrow> ''  Last Checkpoint: '' @ s | None \<Rightarrow> []) @
      [CHR 0x0A],
      fr_watchdogAbort r)"

text \<open>The signal handler: the text written, whether it aborts, and the new state.\<close>

definition watchdog :: "string \<Rightarrow> fifo \<Rightarrow> (string \<times> bool) option \<times> fifo" where
  "watchdog pid r =
     (if fr_watchdogCount r > 0
      then
        let r1 = r\<lparr>fr_watchdogCount := fr_watchdogCount r + 1\<rparr>
        in if fr_watchdogCount r1 > 2
           then let r2 = r1\<lparr>fr_hangCount := fr_hangCount r1 + 1\<rparr>
                in (Some (watchdogError pid r2), r2)
           else (None, r1)
      else (None, r))"

section \<open>Running tasks\<close>

datatype call = Enqueue nat | Dequeue nat | SetRunnable nat | Yield | Checkpoint string

fun do_call :: "call \<Rightarrow> fifo \<Rightarrow> fifo option" where
  "do_call (Enqueue t) r = enqueue t r"
| "do_call (Dequeue t) r = dequeue t r"
| "do_call (SetRunnable t) r = Some (setRunnable t r)"
| "do_call Yield r = Some (yield r)"
| "do_call (Checkpoint s) r = Some (watchdogCheckpoint s r)"

fun do_calls :: "call list \<Rightarrow> fifo \<Rightarrow> fifo option" where
  "do_calls [] r = Some r"
| "do_calls (c # cs) r = Option.bind (do_call c r) (do_calls cs)"

type_synonym 'e callback = "nat \<Rightarrow> 'e \<Rightarrow> call list \<times> bool \<times> 'e"

datatype outcome = Finished | Yielded | Thrown | Asserted | OutOfFuel

fun node_runnable :: "fifo \<Rightarrow> node \<Rightarrow> bool" where
  "node_runnable r (Task t) = fr_runnable r t"
| "node_runnable r _ = False"

definition erase_end :: "fifo \<Rightarrow> fifo" where
  "erase_end r = r\<lparr>fr_tasks := remove1 QueueEnd (fr_tasks r)\<rparr>"

definition leave_range :: "node option \<Rightarrow> fifo \<Rightarrow> fifo" where
  "leave_range l r = erase_end (r\<lparr>fr_watchdogCount := 0, fr_next := l\<rparr>)"

text \<open>What the loop does to the queue before it calls the callback of a runnable task.\<close>

definition begin_task :: "node option \<Rightarrow> nat \<Rightarrow> fifo \<Rightarrow> fifo" where
  "begin_task l t r =
     r\<lparr>fr_runningTask := Some (Task t),
       fr_runnable := (fr_runnable r)(t := False),
       fr_next := succ_in (Task t) (fr_tasks r),
       fr_tasks := insert_before l (Task t) (remove1 (Task t) (fr_tasks r)),
       fr_watchdogCount := 1,
       fr_yield := False,
       fr_runCount := (fr_runCount r)(t := fr_runCount r t + 1)\<rparr>"

text \<open>
  One iteration of the loop: either it leaves the loop (\<open>Inl\<close>) or it goes on (\<open>Inr\<close>), with
  the task whose callback it called.
\<close>

definition run_step ::
  "'e callback \<Rightarrow> node option \<Rightarrow> fifo \<Rightarrow> 'e \<Rightarrow>
   (outcome \<times> nat list \<times> fifo \<times> 'e) + (nat list \<times> fifo \<times> 'e)" where
  "run_step cb l r e =
     (case fr_next r of
        None \<Rightarrow> Inl (Asserted, [], r, e)
      | Some x \<Rightarrow>
          (case (x, node_runnable r x) of
             (Task t, True) \<Rightarrow>
               (let (cs, throws, e1) = cb t e
                in case do_calls cs (begin_task l t r) of
                     None \<Rightarrow> Inl (Asserted, [t], r, e1)
                   | Some r1 \<Rightarrow>
                       if throws then Inl (Thrown, [t], leave_range l r1, e1)
                       else if fr_yield r1 then Inl (Yielded, [t], erase_end r1, e1)
                       else Inr ([t], r1, e1))
           | _ \<Rightarrow> Inr ([], r\<lparr>fr_runningTask := Some x, fr_next := succ_in x (fr_tasks r)\<rparr>, e)))"

fun run_loop ::
  "nat \<Rightarrow> 'e callback \<Rightarrow> node option \<Rightarrow> fifo \<Rightarrow> 'e \<Rightarrow> outcome \<times> nat list \<times> fifo \<times> 'e" where
  "run_loop 0 cb l r e =
     (if fr_next r = Some QueueEnd then (Finished, [], leave_range l r, e) else (OutOfFuel, [], r, e))"
| "run_loop (Suc k) cb l r e =
     (if fr_next r = Some QueueEnd then (Finished, [], leave_range l r, e)
      else case run_step cb l r e of
             Inl res \<Rightarrow> res
           | Inr (ts, r1, e1) \<Rightarrow> map_prod id (map_prod ((@) ts) id) (run_loop k cb l r1 e1))"

definition run_range ::
  "'e callback \<Rightarrow> node option \<Rightarrow> node option \<Rightarrow> fifo \<Rightarrow> 'e \<Rightarrow> outcome \<times> nat list \<times> fifo \<times> 'e" where
  "run_range cb f l r e =
     (if f = l then (Finished, [], r, e)
      else let r1 = r\<lparr>fr_tasks := insert_before l QueueEnd (fr_tasks r), fr_next := f\<rparr>
           in run_loop (length (fr_tasks r1)) cb l r1 e)"

text \<open>
  \<open>run()\<close>: the three priorities in turn, again from the first whenever a task yields.
  \<open>fuel\<close> bounds the number of times it starts over.
\<close>

definition seg_bounds :: "priority \<Rightarrow> fifo \<Rightarrow> node option \<times> node option" where
  "seg_bounds p r =
     (case p of
        PRIORITY_HIGH \<Rightarrow> (list_begin (fr_tasks r), Some HighPriorityEnd)
      | PRIORITY_NORMAL \<Rightarrow> (succ_in HighPriorityEnd (fr_tasks r), Some NormalPriorityEnd)
      | PRIORITY_LOW \<Rightarrow> (succ_in NormalPriorityEnd (fr_tasks r), None))"

definition run_seg :: "'e callback \<Rightarrow> priority \<Rightarrow> fifo \<Rightarrow> 'e \<Rightarrow> outcome \<times> nat list \<times> fifo \<times> 'e" where
  "run_seg cb p r e = (let (f, l) = seg_bounds p r in run_range cb f l r e)"

fun run_segs :: "'e callback \<Rightarrow> priority list \<Rightarrow> fifo \<Rightarrow> 'e \<Rightarrow> outcome \<times> nat list \<times> fifo \<times> 'e" where
  "run_segs cb [] r e = (Finished, [], r, e)"
| "run_segs cb (p # ps) r e =
     (case run_seg cb p r e of
        (oc, ts, r1, e1) \<Rightarrow>
          if oc = Finished \<or> oc = Yielded
          then (if fr_yield r1 then (Yielded, ts, r1\<lparr>fr_yield := False\<rparr>, e1)
                else map_prod id (map_prod ((@) ts) id) (run_segs cb ps r1 e1))
          else (oc, ts, r1, e1))"

fun fifo_run :: "nat \<Rightarrow> 'e callback \<Rightarrow> fifo \<Rightarrow> 'e \<Rightarrow> outcome \<times> nat list \<times> fifo \<times> 'e" where
  "fifo_run 0 cb r e = (OutOfFuel, [], r, e)"
| "fifo_run (Suc k) cb r e =
     (case run_segs cb [PRIORITY_HIGH, PRIORITY_NORMAL, PRIORITY_LOW] r e of
        (Yielded, ts, r1, e1) \<Rightarrow> map_prod id (map_prod ((@) ts) id) (fifo_run k cb r1 e1)
      | res \<Rightarrow> res)"


section \<open>The shape of the queue\<close>

text \<open>The queue of three segments, one for each priority.\<close>

definition queue_of :: "(priority \<Rightarrow> node list) \<Rightarrow> node list" where
  "queue_of S = S PRIORITY_HIGH @ HighPriorityEnd # S PRIORITY_NORMAL @ NormalPriorityEnd # S PRIORITY_LOW"

fun segment :: "node list \<Rightarrow> priority \<Rightarrow> node list" where
  "segment xs PRIORITY_HIGH = takeWhile ((\<noteq>) HighPriorityEnd) xs"
| "segment xs PRIORITY_NORMAL =
     takeWhile ((\<noteq>) NormalPriorityEnd) (tl (dropWhile ((\<noteq>) HighPriorityEnd) xs))"
| "segment xs PRIORITY_LOW = tl (dropWhile ((\<noteq>) NormalPriorityEnd) xs)"

definition queue_ok :: "(priority \<Rightarrow> node list) \<Rightarrow> fifo \<Rightarrow> bool" where
  "queue_ok S r \<longleftrightarrow> fr_tasks r = queue_of S \<and> distinct (queue_of S) \<and>
     (\<forall>q t. Task t \<in> set (S q) \<longrightarrow> fr_priority r t = q)"

text \<open>Between passes: every linked task stands in the segment of its priority, once.\<close>

definition fifo_ok :: "fifo \<Rightarrow> bool" where
  "fifo_ok r \<longleftrightarrow> queue_ok (segment (fr_tasks r)) r \<and> QueueEnd \<notin> set (fr_tasks r)"

text \<open>
  During a pass over the segment \<open>p\<close>: \<open>todo\<close> is what the loop has still to visit; it is
  followed by the end mark, and by the tasks that were moved or enqueued meanwhile.
\<close>

definition pass_ok :: "priority \<Rightarrow> node list \<Rightarrow> fifo \<Rightarrow> bool" where
  "pass_ok p todo r \<longleftrightarrow> (\<exists>S A B. queue_ok S r \<and> S p = A @ todo @ QueueEnd # B \<and>
     fr_next r = Some (hd (todo @ [QueueEnd])))"

lemma queue_of_around: "\<exists>pre post. \<forall>X. queue_of (S(p := X)) = pre @ X @ post \<and>
   (post = [] \<longleftrightarrow> p = PRIORITY_LOW) \<and> list_begin post = priorityEnd p"
proof (cases p)
  case PRIORITY_LOW
  then show ?thesis
    by (intro exI [of _ "S PRIORITY_HIGH @ HighPriorityEnd # S PRIORITY_NORMAL @ [NormalPriorityEnd]"]
        exI [of _ "[]"]) (simp add: queue_of_def list_begin_def)
next
  case PRIORITY_NORMAL
  then show ?thesis
    by (intro exI [of _ "S PRIORITY_HIGH @ [HighPriorityEnd]"]
        exI [of _ "NormalPriorityEnd # S PRIORITY_LOW"]) (simp add: queue_of_def list_begin_def)
next
  case PRIORITY_HIGH
  then show ?thesis
    by (intro exI [of _ "[]"]
        exI [of _ "HighPriorityEnd # S PRIORITY_NORMAL @ NormalPriorityEnd # S PRIORITY_LOW"])
      (simp add: queue_of_def list_begin_def)
qed

lemma set_queue_of:
  "set (queue_of S) = (\<Union>q. set (S q)) \<union> {HighPriorityEnd, NormalPriorityEnd}"
proof -
  have "(\<Union>q. set (S q)) = set (S PRIORITY_HIGH) \<union> set (S PRIORITY_NORMAL) \<union> set (S PRIORITY_LOW)"
    by (auto, metis priority.exhaust)
  then show ?thesis by (auto simp: queue_of_def)
qed

lemma insert_before_append: "(case l of None \<Rightarrow> True | Some y \<Rightarrow> y \<notin> set xs) \<Longrightarrow>
    list_begin ys = l \<Longrightarrow> insert_before l x (xs @ ys) = xs @ x # ys"
  by (induction xs) (auto simp: list_begin_def split: list.splits option.splits)

lemma succ_in_append: "x \<notin> set xs \<Longrightarrow> succ_in x (xs @ x # y # ys) = Some y"
  by (induction xs) auto

lemma queue_of_distinctD:
  assumes "distinct (queue_of S)"
  shows "distinct (S p)" "HighPriorityEnd \<notin> set (S p)" "NormalPriorityEnd \<notin> set (S p)"
    "q \<noteq> p \<Longrightarrow> x \<in> set (S p) \<Longrightarrow> x \<notin> set (S q)"
  using assms by (cases p; cases q; auto simp: queue_of_def)+

lemma insert_queue_of:
  assumes "distinct (queue_of S)"
  shows "insert_before (priorityEnd p) x (queue_of S) = queue_of (S(p := S p @ [x]))"
proof -
  obtain pre post where *: "\<And>X. queue_of (S(p := X)) = pre @ X @ post" "list_begin post = priorityEnd p"
    using queue_of_around [of S p] by blast
  have q: "queue_of S = (pre @ S p) @ post" using *(1) [of "S p"] by simp
  have "case priorityEnd p of None \<Rightarrow> True | Some y \<Rightarrow> y \<notin> set (pre @ S p)"
    using assms *(2) unfolding q by (cases post) (auto simp: list_begin_def split: option.splits)
  from insert_before_append [OF this *(2), of x] show ?thesis
    unfolding q using *(1) by simp
qed

lemma remove_queue_of:
  assumes "distinct (queue_of S)" "x \<noteq> HighPriorityEnd" "x \<noteq> NormalPriorityEnd"
  shows "remove1 x (queue_of S) = queue_of (\<lambda>q. filter ((\<noteq>) x) (S q))"
proof -
  have "remove1 x (queue_of S) = filter ((\<noteq>) x) (queue_of S)"
    using assms(1) by (simp add: distinct_remove1_removeAll removeAll_filter_not_eq)
  then show ?thesis using assms by (simp add: queue_of_def)
qed

lemma succ_queue_of:
  assumes "distinct (queue_of S)" "S p = A @ x # y # B"
  shows "succ_in x (queue_of S) = Some y"
proof -
  obtain pre post where *: "\<And>X. queue_of (S(p := X)) = pre @ X @ post"
    using queue_of_around [of S p] by blast
  have q: "queue_of S = (pre @ A) @ x # y # (B @ post)"
    using *(1) [of "S p"] unfolding assms(2) [symmetric] fun_upd_triv by (simp add: assms(2))
  then show ?thesis using assms(1) succ_in_append [of x "pre @ A" y "B @ post"] by simp
qed

lemma segment_queue_of:
  assumes "distinct (queue_of S)"
  shows "segment (queue_of S) = S"
proof
  have tw: "takeWhile ((\<noteq>) z) (xs @ z # ys) = xs" "dropWhile ((\<noteq>) z) (xs @ z # ys) = z # ys"
    if "z \<notin> set xs" for z :: node and xs ys
    using that by (induction xs) auto
  fix p show "segment (queue_of S) p = S p"
  proof (cases p)
    case PRIORITY_LOW
    have "queue_of S = (S PRIORITY_HIGH @ HighPriorityEnd # S PRIORITY_NORMAL) @ NormalPriorityEnd # S PRIORITY_LOW"
      by (simp add: queue_of_def)
    moreover
    have "NormalPriorityEnd \<notin> set (S PRIORITY_HIGH @ HighPriorityEnd # S PRIORITY_NORMAL)"
      using assms by (auto simp: queue_of_def)
    from tw(2) [OF this, of "S PRIORITY_LOW"] calculation
    have "dropWhile ((\<noteq>) NormalPriorityEnd) (queue_of S) = NormalPriorityEnd # S PRIORITY_LOW"
      by presburger
    then show ?thesis using PRIORITY_LOW by simp
  qed (use assms in \<open>auto simp: queue_of_def tw\<close>)
qed

lemma fifo_okI:
  assumes "queue_ok S r" "\<And>q. QueueEnd \<notin> set (S q)"
  shows "fifo_ok r"
  using assms by (auto simp: fifo_ok_def queue_ok_def segment_queue_of set_queue_of)

lemma fifo_okE:
  assumes "fifo_ok r"
  obtains "queue_ok (segment (fr_tasks r)) r" "\<forall>q. QueueEnd \<notin> set (segment (fr_tasks r) q)"
proof -
  have "fr_tasks r = queue_of (segment (fr_tasks r))"
    using assms by (simp add: fifo_ok_def queue_ok_def)
  then have "set (segment (fr_tasks r) q) \<subseteq> set (fr_tasks r)" for q
    using set_queue_of [of "segment (fr_tasks r)"] by (metis (no_types, lifting) UN_I UNIV_I UnI1 subsetI)
  then show thesis using assms that by (auto simp: fifo_ok_def)
qed


section \<open>One pass over a segment\<close>

lemma pass_okE:
  assumes "pass_ok p todo r"
  obtains S A B where "fr_tasks r = queue_of S" "distinct (queue_of S)"
    "\<forall>q t. Task t \<in> set (S q) \<longrightarrow> fr_priority r t = q" "S p = A @ todo @ QueueEnd # B"
    "fr_next r = Some (hd (todo @ [QueueEnd]))"
  using assms unfolding pass_ok_def queue_ok_def by blast

lemma pass_okI:
  assumes "fr_tasks r = queue_of S" "distinct (queue_of S)"
    "\<forall>q t. Task t \<in> set (S q) \<longrightarrow> fr_priority r t = q" "S p = A @ todo @ QueueEnd # B"
    "fr_next r = Some (hd (todo @ [QueueEnd]))"
  shows "pass_ok p todo r"
  using assms unfolding pass_ok_def queue_ok_def by blast

lemma distinct_queue_of_append:
  assumes "distinct (queue_of S)" "x \<notin> set (queue_of S)"
  shows "distinct (queue_of (S(p := S p @ [x])))"
  using assms by (cases p) (auto simp: queue_of_def)

lemma distinct_queue_of_filter: "distinct (queue_of S) \<Longrightarrow> distinct (queue_of (\<lambda>q. filter P (S q)))"
  by (auto simp: queue_of_def)

lemma pass_enqueue:
  assumes "pass_ok p todo r" "enqueue t r = Some r'"
  shows "pass_ok p todo r'"
proof -
  from assms(1) obtain S A B where S: "fr_tasks r = queue_of S" "distinct (queue_of S)"
    "\<forall>q t. Task t \<in> set (S q) \<longrightarrow> fr_priority r t = q" "S p = A @ todo @ QueueEnd # B"
    "fr_next r = Some (hd (todo @ [QueueEnd]))" by (rule pass_okE)
  let ?q = "fr_priority r t"
  from assms(2) S(1) have new: "Task t \<notin> set (queue_of S)"
    and r': "r' = r\<lparr>fr_tasks := queue_of (S(?q := S ?q @ [Task t]))\<rparr>"
    by (auto simp: enqueue_def insert_queue_of [OF S(2)] split: if_splits)
  show ?thesis
    by (rule pass_okI [where S = "S(?q := S ?q @ [Task t])" and A = A
          and B = "if ?q = p then B @ [Task t] else B"])
      (use S new r' distinct_queue_of_append [OF S(2) new] in \<open>auto split: if_splits\<close>)
qed

lemma pass_dequeue:
  assumes "pass_ok p todo r" "dequeue t r = Some r'"
  shows "pass_ok p (filter ((\<noteq>) (Task t)) todo) r'"
proof -
  from assms(1) obtain S A B where S: "fr_tasks r = queue_of S" "distinct (queue_of S)"
    "\<forall>q t. Task t \<in> set (S q) \<longrightarrow> fr_priority r t = q" "S p = A @ todo @ QueueEnd # B"
    "fr_next r = Some (hd (todo @ [QueueEnd]))" by (rule pass_okE)
  let ?F = "filter ((\<noteq>) (Task t))"
  have d: "distinct todo" "QueueEnd \<notin> set todo"
    using queue_of_distinctD(1) [OF S(2), of p] S(4) by auto
  have tasks: "fr_tasks r' = queue_of (\<lambda>q. ?F (S q))" "fr_priority r' = fr_priority r"
    using assms(2) S(1) by (auto simp: dequeue_def Let_def remove_queue_of [OF S(2)] split: if_splits)
  have "fr_next r' = Some (hd (?F todo @ [QueueEnd]))"
  proof (cases "fr_next r = Some (Task t)")
    case False
    then have "fr_next r' = fr_next r"
      using assms(2) by (auto simp: dequeue_def Let_def split: if_splits)
    then show ?thesis using False S(5) by (cases todo) auto
  next
    case True
    then obtain rest where todo: "todo = Task t # rest" using S(5) by (cases todo) auto
    then have "?F todo = rest" using d by (auto simp: filter_id_conv)
    moreover have "fr_next r' = succ_in (Task t) (queue_of S)"
      using assms(2) True S(1) by (auto simp: dequeue_def Let_def split: if_splits)
    moreover have "S p = A @ Task t # hd (rest @ [QueueEnd]) # tl (rest @ QueueEnd # B)"
      using S(4) todo by (cases rest) auto
    ultimately show ?thesis using succ_queue_of [OF S(2)] by simp
  qed
  then show ?thesis
    by (intro pass_okI [where S = "\<lambda>q. ?F (S q)" and A = "?F A" and B = "?F B"])
      (use S(3,4) tasks distinct_queue_of_filter [OF S(2)] in auto)
qed

lemma pass_setRunnable: "pass_ok p todo (setRunnable t r) = pass_ok p todo r"
  and pass_yield: "pass_ok p todo (yield r) = pass_ok p todo r"
  and pass_checkpoint: "pass_ok p todo (watchdogCheckpoint s r) = pass_ok p todo r"
  by (simp_all add: pass_ok_def queue_ok_def setRunnable_def yield_def watchdogCheckpoint_def)

fun dequeues :: "call list \<Rightarrow> node \<Rightarrow> bool" where
  "dequeues cs (Task t) = (Dequeue t \<in> set cs)"
| "dequeues cs _ = False"

lemma pass_do_call:
  assumes "pass_ok p todo r" "do_call c r = Some r'"
  shows "pass_ok p (filter (\<lambda>x. \<not> dequeues [c] x) todo) r'"
proof (cases c)
  case (Dequeue t)
  moreover have "(\<lambda>x. \<not> dequeues [Dequeue t] x) = (\<noteq>) (Task t)"
  proof
    fix x show "(\<not> dequeues [Dequeue t] x) = (Task t \<noteq> x)" by (cases x) auto
  qed
  ultimately show ?thesis using assms pass_dequeue by simp
next
  case (Enqueue t)
  moreover have "\<not> dequeues [Enqueue t] x" for x by (cases x) auto
  ultimately show ?thesis using assms pass_enqueue by simp
next
  case (SetRunnable t)
  moreover have "\<not> dequeues [SetRunnable t] x" for x by (cases x) auto
  ultimately show ?thesis using assms by (auto simp: pass_setRunnable)
next
  case Yield
  moreover have "\<not> dequeues [Yield] x" for x by (cases x) auto
  ultimately show ?thesis using assms by (auto simp: pass_yield)
next
  case (Checkpoint s)
  moreover have "\<not> dequeues [Checkpoint s] x" for x by (cases x) auto
  ultimately show ?thesis using assms by (auto simp: pass_checkpoint)
qed

lemma dequeues_Cons: "dequeues (c # cs) x \<longleftrightarrow> dequeues [c] x \<or> dequeues cs x"
  by (cases x) auto

lemma pass_do_calls:
  "pass_ok p todo r \<Longrightarrow> do_calls cs r = Some r' \<Longrightarrow> pass_ok p (filter (\<lambda>x. \<not> dequeues cs x) todo) r'"
proof (induction cs arbitrary: r todo)
  case Nil
  moreover have "\<not> dequeues [] x" for x by (cases x) auto
  ultimately show ?case by simp
next
  case (Cons c cs)
  then obtain r1 where "do_call c r = Some r1" "do_calls cs r1 = Some r'"
    by (auto simp: bind_eq_Some_conv)
  with Cons.IH pass_do_call [OF Cons.prems(1)]
  have "pass_ok p (filter (\<lambda>x. \<not> dequeues cs x) (filter (\<lambda>x. \<not> dequeues [c] x) todo)) r'" by blast
  then show ?case by (simp add: dequeues_Cons [of c cs] conj_commute)
qed


lemma filter_neq_id [simp]: "x \<notin> set xs \<Longrightarrow> filter ((\<noteq>) x) xs = xs"
  by (auto simp: filter_id_conv)

lemma pass_begin_task:
  assumes "pass_ok p (Task t # todo) r"
  shows "pass_ok p todo (begin_task (priorityEnd p) t r)"
proof -
  from assms obtain S A B where S: "fr_tasks r = queue_of S" "distinct (queue_of S)"
    "\<forall>q t. Task t \<in> set (S q) \<longrightarrow> fr_priority r t = q"
    "S p = A @ (Task t # todo) @ QueueEnd # B" by (rule pass_okE)
  let ?F = "filter ((\<noteq>) (Task t))"
  let ?S = "\<lambda>q. ?F (S q)"
  have dp: "distinct (A @ (Task t # todo) @ QueueEnd # B)"
    using queue_of_distinctD(1) [OF S(2), of p] S(4) by simp
  then have Fp: "?S p = A @ todo @ QueueEnd # B" by (auto simp: S(4))
  have rem: "remove1 (Task t) (queue_of S) = queue_of ?S"
    by (rule remove_queue_of [OF S(2)]) auto
  have d: "distinct (queue_of ?S)" "Task t \<notin> set (queue_of ?S)"
    using S(2) unfolding rem [symmetric] by simp_all
  have nx: "succ_in (Task t) (queue_of S) = Some (hd (todo @ [QueueEnd]))"
    by (rule succ_queue_of [OF S(2), of p A _ _ "tl (todo @ QueueEnd # B)"]) (use S(4) in \<open>cases todo; simp\<close>)
  show ?thesis
    by (rule pass_okI [where S = "?S(p := ?S p @ [Task t])" and A = A and B = "B @ [Task t]"])
      (use S(1,3,4) Fp nx distinct_queue_of_append [OF d, of p] in
        \<open>auto simp: begin_task_def rem insert_queue_of [OF d(1)] split: if_splits\<close>)
qed

definition skip_node :: "node \<Rightarrow> fifo \<Rightarrow> fifo" where
  "skip_node x r = r\<lparr>fr_runningTask := Some x, fr_next := succ_in x (fr_tasks r)\<rparr>"

lemma pass_skip:
  assumes "pass_ok p (x # todo) r"
  shows "pass_ok p todo (skip_node x r)"
proof -
  from assms obtain S A B where S: "fr_tasks r = queue_of S" "distinct (queue_of S)"
    "\<forall>q t. Task t \<in> set (S q) \<longrightarrow> fr_priority r t = q"
    "S p = A @ (x # todo) @ QueueEnd # B" by (rule pass_okE)
  have nx: "succ_in x (queue_of S) = Some (hd (todo @ [QueueEnd]))"
    by (rule succ_queue_of [OF S(2), of p A _ _ "tl (todo @ QueueEnd # B)"]) (use S(4) in \<open>cases todo; simp\<close>)
  show ?thesis
    by (rule pass_okI [where S = S and A = "A @ [x]" and B = B])
      (use S nx in \<open>auto simp: skip_node_def\<close>)
qed

lemma pass_erase_end:
  assumes "pass_ok p todo r"
  shows "fifo_ok (erase_end r)" "fifo_ok (leave_range l r)"
proof -
  from assms obtain S A B where S: "fr_tasks r = queue_of S" "distinct (queue_of S)"
    "\<forall>q t. Task t \<in> set (S q) \<longrightarrow> fr_priority r t = q"
    "S p = A @ todo @ QueueEnd # B" by (rule pass_okE)
  let ?S = "\<lambda>q. filter ((\<noteq>) QueueEnd) (S q)"
  have rem: "remove1 QueueEnd (queue_of S) = queue_of ?S"
    by (rule remove_queue_of [OF S(2)]) auto
  have "distinct (queue_of ?S)" using S(2) unfolding rem [symmetric] by simp
  then show "fifo_ok (erase_end r)" "fifo_ok (leave_range l r)"
    using S(1,3) by (intro fifo_okI [of ?S]; auto simp: queue_ok_def erase_end_def leave_range_def rem)+
qed

text \<open>What the calls of a callback change besides the queue.\<close>

lemma do_call_frame:
  assumes "do_call c r = Some r'"
  shows "fr_priority r' = fr_priority r" "fr_runnable r' t = (fr_runnable r t \<or> c = SetRunnable t)"
    "fr_yield r' = (fr_yield r \<or> c = Yield)"
  using assms by (cases c; auto simp: enqueue_def dequeue_def Let_def setRunnable_def yield_def
      watchdogCheckpoint_def split: if_splits)+

lemma do_calls_frame:
  "do_calls cs r = Some r' \<Longrightarrow> fr_priority r' = fr_priority r \<and>
     (\<forall>t. fr_runnable r' t = (fr_runnable r t \<or> SetRunnable t \<in> set cs)) \<and>
     fr_yield r' = (fr_yield r \<or> Yield \<in> set cs)"
proof (induction cs arbitrary: r)
  case (Cons c cs)
  then obtain r1 where "do_call c r = Some r1" "do_calls cs r1 = Some r'"
    by (auto simp: bind_eq_Some_conv)
  with Cons.IH do_call_frame [of c r r1] show ?case by auto
qed simp

lemma begin_task_frame [simp]:
  "fr_priority (begin_task l t r) = fr_priority r"
  "fr_runnable (begin_task l t r) = (fr_runnable r)(t := False)"
  "fr_yield (begin_task l t r) = False"
  by (simp_all add: begin_task_def)

lemma skip_node_frame [simp]:
  "fr_priority (skip_node x r) = fr_priority r"
  "fr_runnable (skip_node x r) = fr_runnable r" "fr_yield (skip_node x r) = fr_yield r"
  by (simp_all add: skip_node_def)

lemma leave_frame [simp]:
  "fr_priority (leave_range l r) = fr_priority r" "fr_priority (erase_end r) = fr_priority r"
  "fr_yield (leave_range l r) = fr_yield r" "fr_yield (erase_end r) = fr_yield r"
  by (simp_all add: leave_range_def erase_end_def)

lemma pass_nodes:
  assumes "pass_ok p todo r"
  shows "distinct todo" "x \<in> set todo \<Longrightarrow> \<exists>t. x = Task t \<and> fr_priority r t = p"
proof -
  from assms obtain S A B where S: "fr_tasks r = queue_of S" "distinct (queue_of S)"
    "\<forall>q t. Task t \<in> set (S q) \<longrightarrow> fr_priority r t = q"
    "S p = A @ todo @ QueueEnd # B" by (rule pass_okE)
  from queue_of_distinctD(1) [OF S(2), of p] S(4) show "distinct todo" by simp
  assume x: "x \<in> set todo"
  have "x \<noteq> QueueEnd" using queue_of_distinctD(1) [OF S(2), of p] S(4) x by auto
  moreover have "x \<noteq> HighPriorityEnd" "x \<noteq> NormalPriorityEnd"
    using queue_of_distinctD(2,3) [OF S(2), of p] S(4) x by auto
  ultimately show "\<exists>t. x = Task t \<and> fr_priority r t = p" using S(3,4) x by (cases x) auto
qed

text \<open>The cases of one iteration, for a node of the pass.\<close>

lemma run_step_cases:
  assumes "pass_ok p (x # todo) r"
  obtains (skip) t where "x = Task t" "\<not> fr_runnable r t"
      "run_step cb l r e = Inr ([], skip_node x r, e)"
  | (asserts) t where "x = Task t" "\<exists>r1 e1. run_step cb l r e = Inl (Asserted, [t], r1, e1)"
  | (calls) t cs throws e1 r1 where "x = Task t" "fr_runnable r t" "cb t e = (cs, throws, e1)"
      "do_calls cs (begin_task l t r) = Some r1"
      "run_step cb l r e = (if throws then Inl (Thrown, [t], leave_range l r1, e1)
         else if fr_yield r1 then Inl (Yielded, [t], erase_end r1, e1) else Inr ([t], r1, e1))"
proof -
  from pass_nodes(2) [OF assms, of x] obtain t where x: "x = Task t" by auto
  have nx: "fr_next r = Some x" using assms by (auto simp: pass_ok_def)
  obtain cs throws e1 where cb: "cb t e = (cs, throws, e1)" by (cases "cb t e") auto
  show thesis
  proof (cases "fr_runnable r t")
    case False
    then show thesis using skip x nx by (auto simp: run_step_def skip_node_def)
  next
    case True
    show thesis
    proof (cases "do_calls cs (begin_task l t r)")
      case None
      then show thesis using asserts x nx True cb by (auto simp: run_step_def)
    next
      case (Some r1)
      then show thesis using calls x nx True cb by (auto simp: run_step_def)
    qed
  qed
qed


text \<open>
  The claims about a whole pass: it does not run out of fuel, the tasks called are a
  subsequence of the tasks to visit, and the queue is well formed afterwards.
\<close>

definition pass_result :: "priority \<Rightarrow> node list \<Rightarrow> fifo \<Rightarrow> outcome \<times> nat list \<times> fifo \<times> 'e \<Rightarrow> bool" where
  "pass_result p todo r res \<longleftrightarrow>
     (case res of (oc, ts, r', _) \<Rightarrow>
        oc \<noteq> OutOfFuel \<and> subseq (map Task ts) todo \<and>
        (oc \<noteq> Asserted \<longrightarrow> fifo_ok r' \<and> fr_priority r' = fr_priority r))"

lemma pass_result_step:
  assumes "pass_result p (filter P todo) r1 res" "fr_priority r1 = fr_priority r"
  shows "pass_result p (Task t # todo) r (map_prod id (map_prod ((#) t) id) res)"
proof -
  have "subseq (filter P todo) todo" by (rule subseq_filter_left)
  then show ?thesis using assms by (cases res) (auto simp: pass_result_def intro: subseq_order.trans)
qed

lemma run_loop_Inr:
  "fr_next r \<noteq> Some QueueEnd \<Longrightarrow> run_step cb l r e = Inr ([], r1, e1) \<Longrightarrow>
     run_loop (Suc k) cb l r e = run_loop k cb l r1 e1"
  "fr_next r \<noteq> Some QueueEnd \<Longrightarrow> run_step cb l r e = Inr ([t], r1, e1) \<Longrightarrow>
     run_loop (Suc k) cb l r e = map_prod id (map_prod ((#) t) id) (run_loop k cb l r1 e1)"
  by (cases "run_loop k cb l r1 e1", simp add: map_prod_def)+

lemma run_loop_Inl:
  "fr_next r \<noteq> Some QueueEnd \<Longrightarrow> run_step cb l r e = Inl res \<Longrightarrow> run_loop (Suc k) cb l r e = res"
  by simp

lemma pass_result_skip:
  "pass_result p todo r1 res \<Longrightarrow> fr_priority r1 = fr_priority r \<Longrightarrow> pass_result p (x # todo) r res"
  by (cases res) (auto simp: pass_result_def)

lemma pass_next: "pass_ok p todo r \<Longrightarrow> fr_next r = Some (hd (todo @ [QueueEnd]))"
  by (auto simp: pass_ok_def)

lemma run_loop_pass:
  "pass_ok p todo r \<Longrightarrow> length todo \<le> fuel \<Longrightarrow> pass_result p todo r (run_loop fuel cb (priorityEnd p) r e)"
proof (induction fuel arbitrary: todo r e)
  case 0
  then have "fr_next r = Some QueueEnd" using pass_next [OF 0(1)] by simp
  then show ?case using pass_erase_end(2) [OF 0(1)] by (simp add: pass_result_def)
next
  case (Suc k)
  show ?case
  proof (cases todo)
    case Nil
    then have "fr_next r = Some QueueEnd" using pass_next [OF Suc.prems(1)] by simp
    then show ?thesis using pass_erase_end(2) [OF Suc.prems(1)] by (simp add: pass_result_def)
  next
    case todo: (Cons x rest)
    note ok = Suc.prems(1) [unfolded todo]
    from pass_nodes(2) [OF ok, of x] pass_next [OF ok] have nx: "fr_next r \<noteq> Some QueueEnd"
      by auto
    from ok show ?thesis
    proof (cases rule: run_step_cases [where cb = cb and l = "priorityEnd p" and e = e])
      case (skip t)
      have "pass_result p rest (skip_node x r) (run_loop k cb (priorityEnd p) (skip_node x r) e)"
        using Suc.IH [OF pass_skip [OF ok]] Suc.prems(2) todo by simp
      from pass_result_skip [OF this skip_node_frame(1)] show ?thesis
        unfolding run_loop_Inr(1) [OF nx skip(3)] todo .
    next
      case (asserts t)
      then obtain r1 e1 where "run_step cb (priorityEnd p) r e = Inl (Asserted, [t], r1, e1)" by blast
      from run_loop_Inl [OF nx this] show ?thesis using asserts(1) todo
        by (simp add: pass_result_def)
    next
      case (calls t cs throws e1 r1)
      have b: "pass_ok p rest (begin_task (priorityEnd p) t r)"
        using pass_begin_task ok calls(1) by simp
      note ok1 = pass_do_calls [OF b calls(4)]
      have fr: "fr_priority r1 = fr_priority r" using do_calls_frame [OF calls(4)] by simp
      have "length (filter (\<lambda>x. \<not> dequeues cs x) rest) \<le> k"
        using Suc.prems(2) todo by (auto intro: le_trans [OF length_filter_le])
      from pass_result_step [OF Suc.IH [OF ok1 this] fr]
      have go: "pass_result p todo r
          (map_prod id (map_prod ((#) t) id) (run_loop k cb (priorityEnd p) r1 e1))"
        unfolding todo calls(1) .
      have stop: "pass_result p todo r (oc, [t], leave_range (priorityEnd p) r1, e1)"
        "pass_result p todo r (oc, [t], erase_end r1, e1)" if "oc \<noteq> OutOfFuel" for oc
        using that todo calls(1) fr pass_erase_end [OF ok1] by (simp_all add: pass_result_def)
      consider "throws" | "\<not> throws" "fr_yield r1" | "\<not> throws" "\<not> fr_yield r1" by blast
      then show ?thesis
      proof cases
        case 1
        with run_loop_Inl [OF nx, of cb "priorityEnd p" e] calls(5) stop(1) show ?thesis by simp
      next
        case 2
        with run_loop_Inl [OF nx, of cb "priorityEnd p" e] calls(5) stop(2) show ?thesis by simp
      next
        case 3
        with run_loop_Inr(2) [OF nx, of cb "priorityEnd p" e] calls(5) go show ?thesis by simp
      qed
    qed
  qed
qed

text \<open>Who may be called, and who must be: seen from the flags before the pass.\<close>

lemma run_loop_only_runnable:
  "pass_ok p todo r \<Longrightarrow> run_loop fuel cb (priorityEnd p) r e = (oc, ts, r', e') \<Longrightarrow> t \<in> set ts \<Longrightarrow>
     fr_runnable r t \<or> (\<exists>u \<in> set ts. \<exists>d. SetRunnable t \<in> set (fst (cb u d)))"
proof (induction fuel arbitrary: todo r e ts)
  case 0
  then show ?case by (auto split: if_splits)
next
  case (Suc k)
  show ?case
  proof (cases todo)
    case Nil
    then show ?thesis using Suc.prems pass_next [OF Suc.prems(1)] by simp
  next
    case todo: (Cons x rest)
    note ok = Suc.prems(1) [unfolded todo]
    from pass_nodes(2) [OF ok, of x] pass_next [OF ok] have nx: "fr_next r \<noteq> Some QueueEnd" by auto
    from ok show ?thesis
    proof (cases rule: run_step_cases [where cb = cb and l = "priorityEnd p" and e = e])
      case (skip u)
      with Suc.IH [OF pass_skip [OF ok]] Suc.prems(2,3) run_loop_Inr(1) [OF nx skip(3)]
      show ?thesis by simp
    next
      case (asserts u)
      with run_loop_Inl [OF nx, of cb "priorityEnd p" e] Suc.prems(2,3)
      have "\<exists>v. ts = [v] \<and> fr_runnable r v"
        using ok asserts pass_next [OF ok] by (auto simp: run_step_def split: if_splits option.splits bool.splits prod.splits)
      with Suc.prems(3) show ?thesis by auto
    next
      case (calls u cs throws e1 r1)
      have b: "pass_ok p rest (begin_task (priorityEnd p) u r)"
        using pass_begin_task ok calls(1) by simp
      note ok1 = pass_do_calls [OF b calls(4)]
      show ?thesis
      proof (cases "throws \<or> fr_yield r1")
        case True
        then have "ts = [u]"
          using calls(5) Suc.prems(2) run_loop_Inl [OF nx, of cb "priorityEnd p" e] by (auto split: if_splits)
        with calls(2) Suc.prems(3) show ?thesis by simp
      next
        case False
        then obtain ts1 where ts: "ts = u # ts1"
            "run_loop k cb (priorityEnd p) r1 e1 = (oc, ts1, r', e')"
          using calls(5) Suc.prems(2) run_loop_Inr(2) [OF nx, of cb "priorityEnd p" e]
          by (cases "run_loop k cb (priorityEnd p) r1 e1") auto
        have "set cs = set (fst (cb u e))" by (simp add: calls(3))
        with Suc.IH [OF ok1 ts(2)] Suc.prems(3) ts(1) calls(2) do_calls_frame [OF calls(4)]
        show ?thesis by (cases "t = u") (auto split: if_splits)
      qed
    qed
  qed
qed

lemma run_loop_runs_all:
  "pass_ok p todo r \<Longrightarrow> run_loop fuel cb (priorityEnd p) r e = (Finished, ts, r', e') \<Longrightarrow>
     Task t \<in> set todo \<Longrightarrow> fr_runnable r t \<Longrightarrow>
     t \<in> set ts \<or> (\<exists>u \<in> set ts. \<exists>d. Dequeue t \<in> set (fst (cb u d)))"
proof (induction fuel arbitrary: todo r e ts)
  case 0
  then have "todo = []" using 0(2) pass_next [OF 0(1)] pass_nodes(2) [OF 0(1), of "hd todo"]
    by (cases todo) (auto split: if_splits)
  with 0 show ?case by simp
next
  case (Suc k)
  then obtain x rest where todo: "todo = x # rest" by (cases todo) auto
  note ok = Suc.prems(1) [unfolded todo]
  from pass_nodes(2) [OF ok, of x] pass_next [OF ok] have nx: "fr_next r \<noteq> Some QueueEnd" by auto
  from ok show ?case
  proof (cases rule: run_step_cases [where cb = cb and l = "priorityEnd p" and e = e])
    case (skip u)
    with Suc.IH [OF pass_skip [OF ok]] Suc.prems(2,3,4) run_loop_Inr(1) [OF nx skip(3)] todo
    show ?thesis by auto
  next
    case (asserts u)
    with run_loop_Inl [OF nx, of cb "priorityEnd p" e] Suc.prems(2) show ?thesis by auto
  next
    case (calls u cs throws e1 r1)
    have b: "pass_ok p rest (begin_task (priorityEnd p) u r)"
      using pass_begin_task ok calls(1) by simp
    note ok1 = pass_do_calls [OF b calls(4)]
    have "\<not> throws \<and> \<not> fr_yield r1"
      using calls(5) Suc.prems(2) run_loop_Inl [OF nx, of cb "priorityEnd p" e] by (auto split: if_splits)
    then obtain ts1 where ts: "ts = u # ts1"
        "run_loop k cb (priorityEnd p) r1 e1 = (Finished, ts1, r', e')"
      using calls(5) Suc.prems(2) run_loop_Inr(2) [OF nx, of cb "priorityEnd p" e]
      by (cases "run_loop k cb (priorityEnd p) r1 e1") auto
    show ?thesis
    proof (cases "t = u \<or> Dequeue t \<in> set cs")
      case True
      then show ?thesis using ts(1) calls(3) by (auto intro!: bexI [of _ u] exI [of _ e])
    next
      case False
      then have "Task t \<in> set (filter (\<lambda>x. \<not> dequeues cs x) rest)" "fr_runnable r1 t"
        using Suc.prems(3,4) todo calls(1) do_calls_frame [OF calls(4)] by auto
      from Suc.IH [OF ok1 ts(2) this] ts(1) show ?thesis by auto
    qed
  qed
qed

section \<open>The three segments\<close>

lemma succ_in_begin: "x \<notin> set xs \<Longrightarrow> succ_in x (xs @ x # ys) = list_begin ys"
  by (induction xs) (auto simp: list_begin_def split: list.splits)

lemma seg_bounds_queue:
  assumes "queue_ok S r"
  shows "seg_bounds p r = (if S p = [] then priorityEnd p else Some (hd (S p)), priorityEnd p)"
proof (cases p)
  case PRIORITY_LOW
  have "queue_of S = (S PRIORITY_HIGH @ HighPriorityEnd # S PRIORITY_NORMAL) @ NormalPriorityEnd # S PRIORITY_LOW"
    by (simp add: queue_of_def)
  moreover have "NormalPriorityEnd \<notin> set (S PRIORITY_HIGH @ HighPriorityEnd # S PRIORITY_NORMAL)"
    using assms by (auto simp: queue_ok_def queue_of_def)
  ultimately have "succ_in NormalPriorityEnd (fr_tasks r) = list_begin (S PRIORITY_LOW)"
    using succ_in_begin assms by (metis queue_ok_def)
  then show ?thesis using PRIORITY_LOW
    by (cases "S PRIORITY_LOW") (auto simp: seg_bounds_def list_begin_def)
next
  case PRIORITY_NORMAL
  have "succ_in HighPriorityEnd (fr_tasks r) = list_begin (S PRIORITY_NORMAL @ NormalPriorityEnd # S PRIORITY_LOW)"
    using assms by (simp add: queue_ok_def queue_of_def succ_in_begin)
  then show ?thesis using PRIORITY_NORMAL
    by (cases "S PRIORITY_NORMAL") (auto simp: seg_bounds_def list_begin_def)
next
  case PRIORITY_HIGH
  then show ?thesis using assms
    by (cases "S PRIORITY_HIGH") (auto simp: seg_bounds_def list_begin_def queue_ok_def queue_of_def)
qed

lemma run_seg_cases:
  assumes "fifo_ok r"
  obtains (empty) "segment (fr_tasks r) p = []" "run_seg cb p r e = (Finished, [], r, e)"
  | (pass) r1 where "pass_ok p (segment (fr_tasks r) p) r1" "fr_priority r1 = fr_priority r"
      "fr_runnable r1 = fr_runnable r" "fr_yield r1 = fr_yield r"
      "length (segment (fr_tasks r) p) \<le> length (fr_tasks r1)"
      "run_seg cb p r e = run_loop (length (fr_tasks r1)) cb (priorityEnd p) r1 e"
proof (cases "segment (fr_tasks r) p = []")
  case True
  from assms obtain "queue_ok (segment (fr_tasks r)) r" by (rule fifo_okE)
  from seg_bounds_queue [OF this, of p] True empty show thesis
    by (simp add: run_seg_def run_range_def)
next
  case False
  let ?S = "segment (fr_tasks r)"
  from assms obtain ok: "queue_ok ?S r" and qe: "\<forall>q. QueueEnd \<notin> set (?S q)"
    by (rule fifo_okE)
  from ok have tasks: "fr_tasks r = queue_of ?S" and d: "distinct (queue_of ?S)"
    by (auto simp: queue_ok_def)
  define r1 where "r1 = r\<lparr>fr_tasks := queue_of (?S(p := ?S p @ [QueueEnd])), fr_next := Some (hd (?S p))\<rparr>"
  have new: "QueueEnd \<notin> set (queue_of ?S)" using qe by (auto simp: set_queue_of)
  have ins: "insert_before (priorityEnd p) QueueEnd (fr_tasks r) = queue_of (?S(p := ?S p @ [QueueEnd]))"
    using insert_queue_of [OF d] tasks by metis
  have "hd (?S p) \<in> set (?S p)" using False by simp
  then have "Some (hd (?S p)) \<noteq> priorityEnd p"
    using queue_of_distinctD(2,3) [OF d, of p] by (cases p) auto
  with False seg_bounds_queue [OF ok, of p] ins
  have "run_seg cb p r e = run_loop (length (fr_tasks r1)) cb (priorityEnd p) r1 e"
    by (simp add: run_seg_def run_range_def r1_def Let_def)
  moreover have "pass_ok p (?S p) r1"
    by (rule pass_okI [where S = "?S(p := ?S p @ [QueueEnd])" and A = "[]" and B = "[]"])
      (use False ok distinct_queue_of_append [OF d new, of p] in \<open>auto simp: r1_def queue_ok_def\<close>)
  moreover have "length (?S p) \<le> length (fr_tasks r1)"
    by (cases p) (auto simp: r1_def queue_of_def)
  moreover have "fr_priority r1 = fr_priority r" "fr_runnable r1 = fr_runnable r" "fr_yield r1 = fr_yield r"
    by (simp_all add: r1_def)
  ultimately show thesis by (intro pass)
qed

lemma segment_nodes:
  assumes "fifo_ok r" "x \<in> set (segment (fr_tasks r) p)"
  shows "\<exists>t. x = Task t \<and> fr_priority r t = p"
proof -
  from assms(1) obtain ok: "queue_ok (segment (fr_tasks r)) r"
    and qe: "\<forall>q. QueueEnd \<notin> set (segment (fr_tasks r) q)" by (rule fifo_okE)
  have "x \<noteq> QueueEnd" using qe assms(2) by blast
  moreover have "x \<noteq> HighPriorityEnd" "x \<noteq> NormalPriorityEnd"
    using queue_of_distinctD(2,3) [of "segment (fr_tasks r)" p] ok assms(2) by (auto simp: queue_ok_def)
  ultimately show ?thesis using ok assms(2) by (cases x) (auto simp: queue_ok_def)
qed

lemma segment_distinct: "fifo_ok r \<Longrightarrow> distinct (segment (fr_tasks r) p)"
  using queue_of_distinctD(1) by (auto simp: fifo_ok_def queue_ok_def)

lemma run_seg_result:
  assumes "fifo_ok r"
  shows "pass_result p (segment (fr_tasks r) p) r (run_seg cb p r e)"
  using assms
proof (cases rule: run_seg_cases [where cb = cb and p = p and e = e])
  case empty
  then show ?thesis using assms by (simp add: pass_result_def)
next
  case (pass r1)
  from run_loop_pass [OF pass(1,5), of cb e] show ?thesis
    unfolding pass(6) using pass(2) by (simp add: pass_result_def split: prod.splits)
qed

lemma subseq_distinct: "subseq xs ys \<Longrightarrow> distinct ys \<Longrightarrow> distinct xs"
  by (metis subseq_conv_nths distinct_nthsI)

lemma pass_result_tasks:
  assumes "fifo_ok r" "pass_result p (segment (fr_tasks r) p) r (oc, ts, r', e')"
  shows "distinct ts" "t \<in> set ts \<Longrightarrow> fr_priority r t = p"
proof -
  have sub: "subseq (map Task ts) (segment (fr_tasks r) p)"
    using assms(2) by (simp add: pass_result_def)
  from subseq_distinct [OF this segment_distinct [OF assms(1)]] show "distinct ts"
    by (simp add: distinct_map)
  assume "t \<in> set ts"
  then have "Task t \<in> set (segment (fr_tasks r) p)"
    using list_emb_set [OF sub] by auto
  from segment_nodes [OF assms(1) this] show "fr_priority r t = p" by simp
qed

lemma run_segs_Cons:
  assumes "run_seg cb p r e = (oc, ts, r1, e1)"
  shows "oc \<noteq> Finished \<Longrightarrow> oc \<noteq> Yielded \<Longrightarrow> run_segs cb (p # ps) r e = (oc, ts, r1, e1)"
    "oc = Finished \<or> oc = Yielded \<Longrightarrow> fr_yield r1 \<Longrightarrow>
       run_segs cb (p # ps) r e = (Yielded, ts, r1\<lparr>fr_yield := False\<rparr>, e1)"
    "oc = Finished \<or> oc = Yielded \<Longrightarrow> \<not> fr_yield r1 \<Longrightarrow>
       run_segs cb (p # ps) r e = map_prod id (map_prod ((@) ts) id) (run_segs cb ps r1 e1)"
  using assms by simp_all

lemma run_segs_result:
  "fifo_ok r \<Longrightarrow> distinct ps \<Longrightarrow> run_segs cb ps r e = (oc, ts, r', e') \<Longrightarrow>
     oc \<noteq> OutOfFuel \<and> (oc \<noteq> Asserted \<longrightarrow> fifo_ok r' \<and> fr_priority r' = fr_priority r) \<and>
     distinct ts \<and> (\<forall>t \<in> set ts. fr_priority r t \<in> set ps) \<and>
     ts = concat (map (\<lambda>p. filter (\<lambda>t. fr_priority r t = p) ts) ps)"
proof (induction ps arbitrary: r e ts)
  case (Cons p ps)
  obtain oc1 ts1 r1 e1 where seg: "run_seg cb p r e = (oc1, ts1, r1, e1)" by (metis prod.exhaust)
  from run_seg_result [OF Cons.prems(1), of p cb e] seg
  have res: "pass_result p (segment (fr_tasks r) p) r (oc1, ts1, r1, e1)" by simp
  note ts1 = pass_result_tasks [OF Cons.prems(1) res]
  have f1: "filter (\<lambda>t. fr_priority r t = p) ts1 = ts1"
    using ts1(2) by (simp add: filter_id_conv)
  have f2: "concat (map (\<lambda>q. filter (\<lambda>t. fr_priority r t = q) ts1) ps) = []"
    using ts1(2) Cons.prems(2) by (auto simp: filter_empty_conv)
  show ?case
  proof (cases "(oc1 = Finished \<or> oc1 = Yielded) \<and> \<not> fr_yield r1")
    case False
    then have "(oc, ts, r', e') = (oc1, ts1, r1, e1) \<or>
        oc1 \<noteq> Asserted \<and> (oc, ts, r', e') = (Yielded, ts1, r1\<lparr>fr_yield := False\<rparr>, e1)"
      using run_segs_Cons(1,2) [OF seg, of ps] unfolding Cons.prems(3) by blast
    then have ts: "ts = ts1"
      and r': "oc = oc1 \<and> r' = r1 \<or> oc = Yielded \<and> oc1 \<noteq> Asserted \<and> r' = r1\<lparr>fr_yield := False\<rparr>"
      by blast+
    have "oc \<noteq> OutOfFuel \<and> (oc \<noteq> Asserted \<longrightarrow> fifo_ok r' \<and> fr_priority r' = fr_priority r)"
      using res r' by (auto simp: pass_result_def fifo_ok_def queue_ok_def)
    moreover have "ts = concat (map (\<lambda>p. filter (\<lambda>t. fr_priority r t = p) ts) (p # ps))"
      unfolding ts list.map concat.simps f1 f2 by simp
    moreover have "\<forall>t \<in> set ts. fr_priority r t \<in> set (p # ps)" using ts ts1(2) by simp
    ultimately show ?thesis using ts ts1(1) by blast
  next
    case True
    then obtain ts2 where ts: "ts = ts1 @ ts2" "run_segs cb ps r1 e1 = (oc, ts2, r', e')"
      using Cons.prems(3) seg by (cases "run_segs cb ps r1 e1") auto
    have ok1: "fifo_ok r1" "fr_priority r1 = fr_priority r" using res True by (auto simp: pass_result_def)
    have "distinct ps" using Cons.prems(2) by simp
    from Cons.IH [OF ok1(1) this ts(2), unfolded ok1(2)]
    have ih: "oc \<noteq> OutOfFuel" "oc \<noteq> Asserted \<longrightarrow> fifo_ok r' \<and> fr_priority r' = fr_priority r"
      "distinct ts2" "\<forall>t \<in> set ts2. fr_priority r t \<in> set ps"
      "ts2 = concat (map (\<lambda>p. filter (\<lambda>t. fr_priority r t = p) ts2) ps)" by blast+
    have g: "filter (\<lambda>t. fr_priority r t = p) ts2 = []"
      using ih(4) Cons.prems(2) by (auto simp: filter_empty_conv)
    have m: "map (\<lambda>q. filter (\<lambda>t. fr_priority r t = q) (ts1 @ ts2)) ps =
        map (\<lambda>q. filter (\<lambda>t. fr_priority r t = q) ts2) ps"
      using ts1(2) Cons.prems(2) by (auto simp: filter_empty_conv)
    have eq: "ts = concat (map (\<lambda>p. filter (\<lambda>t. fr_priority r t = p) ts) (p # ps))"
      unfolding ts(1) list.map concat.simps m ih(5) [symmetric] unfolding filter_append f1 g by simp
    have "set ts1 \<inter> set ts2 = {}" using ts1(2) ih(4) Cons.prems(2) by auto
    then have "distinct ts" using ts(1) ts1(1) ih(3) by simp
    moreover have "\<forall>t \<in> set ts. fr_priority r t \<in> set (p # ps)" using ts(1) ts1(2) ih(4) by auto
    ultimately show ?thesis using ih(1,2) eq by blast
  qed
qed simp

lemma run_loop_no_yield:
  "\<forall>t d. Yield \<notin> set (fst (cb t d)) \<Longrightarrow> run_loop fuel cb l r e = (oc, ts, r', e') \<Longrightarrow> \<not> fr_yield r \<Longrightarrow> \<not> fr_yield r'"
proof (induction fuel arbitrary: r e ts)
  case 0
  then show ?case by (auto split: if_splits)
next
  case (Suc k)
  show ?case
  proof (cases "fr_next r = Some QueueEnd")
    case True
    then show ?thesis using Suc.prems by auto
  next
    case nx: False
    have step: "\<not> fr_yield r1" if "run_step cb l r e = Inr (us, r1, e1)" for us r1 e1
      using that Suc.prems(3)
      by (auto simp: run_step_def split: option.splits node.splits bool.splits prod.splits if_splits)
    have leave: "\<not> fr_yield r1" if "run_step cb l r e = Inl (oc1, us, r1, e1)" for oc1 us r1 e1
    proof -
      have "\<not> fr_yield r2" if "cb t e = (cs, th, e2)" "do_calls cs (begin_task l t r) = Some r2" for t cs th e2 r2
        using do_calls_frame [OF that(2)] Suc.prems(1) that(1) by (metis begin_task_frame(3) fst_conv)
      then show ?thesis using that Suc.prems(3)
        by (auto simp: run_step_def split: option.splits node.splits bool.splits prod.splits if_splits)
    qed
    show ?thesis
    proof (cases "run_step cb l r e")
      case (Inl res)
      then show ?thesis using run_loop_Inl [OF nx Inl] leave Suc.prems(2) by (cases res) auto
    next
      case (Inr b)
      obtain us r1 e1 where b: "b = (us, r1, e1)" by (cases b) auto
      obtain ts1 where "run_loop k cb l r1 e1 = (oc, ts1, r', e')"
        using Suc.prems(2) nx Inr b by (cases "run_loop k cb l r1 e1") auto
      with Suc.IH [OF Suc.prems(1)] step Inr b show ?thesis by blast
    qed
  qed
qed

lemma run_segs_no_yield:
  assumes "\<forall>t d. Yield \<notin> set (fst (cb t d))"
  shows "fifo_ok r \<Longrightarrow> \<not> fr_yield r \<Longrightarrow> run_segs cb ps r e = (oc, ts, r', e') \<Longrightarrow> oc \<noteq> Yielded"
proof (induction ps arbitrary: r e ts)
  case (Cons p ps)
  obtain oc1 ts1 r1 e1 where seg: "run_seg cb p r e = (oc1, ts1, r1, e1)" by (metis prod.exhaust)
  have y: "\<not> fr_yield r1" using Cons.prems(1)
  proof (cases rule: run_seg_cases [where cb = cb and p = p and e = e])
    case empty
    then show ?thesis using seg Cons.prems(2) by simp
  next
    case (pass r2)
    then show ?thesis using run_loop_no_yield [OF assms] seg Cons.prems(2) by metis
  qed
  show ?case
  proof (cases "oc1 = Finished \<or> oc1 = Yielded")
    case False
    then show ?thesis using Cons.prems(3) seg by auto
  next
    case True
    have "fifo_ok r1" using run_seg_result [OF Cons.prems(1), of p cb e] True seg
      by (auto simp: pass_result_def)
    moreover obtain ts2 where "run_segs cb ps r1 e1 = (oc, ts2, r', e')"
      using Cons.prems(3) True y seg by (cases "run_segs cb ps r1 e1") auto
    ultimately show ?thesis using Cons.IH y by blast
  qed
qed simp

lemma run_segs_yielded:
  "run_segs cb ps r e = (Yielded, ts, r', e') \<Longrightarrow> \<not> fr_yield r'"
proof (induction ps arbitrary: r e ts)
  case (Cons p ps)
  obtain oc1 ts1 r1 e1 where seg: "run_seg cb p r e = (oc1, ts1, r1, e1)" by (metis prod.exhaust)
  note step = run_segs_Cons [OF seg, of ps]
  consider "oc1 \<noteq> Finished" "oc1 \<noteq> Yielded" | "oc1 = Finished \<or> oc1 = Yielded" "fr_yield r1"
    | "oc1 = Finished \<or> oc1 = Yielded" "\<not> fr_yield r1" by blast
  then show ?case
  proof cases
    case 1
    with step(1) Cons.prems show ?thesis by simp
  next
    case 2
    with step(2) Cons.prems show ?thesis by auto
  next
    case 3
    with step(3) Cons.prems obtain ts2 where "run_segs cb ps r1 e1 = (Yielded, ts2, r', e')"
      by (cases "run_segs cb ps r1 e1") auto
    with Cons.IH show ?thesis by blast
  qed
qed simp

section \<open>The interface of the queue towards the events\<close>

text \<open>
  What the event classes rely on: a task is linked by \<open>enqueue\<close> and unlinked by \<open>dequeue\<close>,
  and nobody else is. Both fail only where the intrusive list asserts.
\<close>

locale task_queue =
  fixes linked :: "'s \<Rightarrow> nat set" and invar :: "'s \<Rightarrow> bool"
    and enq :: "nat \<Rightarrow> 's \<Rightarrow> 's option" and deq :: "nat \<Rightarrow> 's \<Rightarrow> 's option"
  assumes enq: "invar s \<Longrightarrow> t \<notin> linked s \<Longrightarrow>
      \<exists>s'. enq t s = Some s' \<and> invar s' \<and> linked s' = insert t (linked s)"
    and deq: "invar s \<Longrightarrow> t \<in> linked s \<Longrightarrow>
      \<exists>s'. deq t s = Some s' \<and> invar s' \<and> linked s' = linked s - {t}"
    and enq_linked: "t \<in> linked s \<Longrightarrow> enq t s = None"
    and deq_unlinked: "t \<notin> linked s \<Longrightarrow> deq t s = None"
begin

lemma enqE:
  assumes "invar s" "t \<notin> linked s"
  obtains s' where "enq t s = Some s'" "invar s'" "linked s' = insert t (linked s)"
  using enq [OF assms] by blast

lemma deqE:
  assumes "invar s" "t \<in> linked s"
  obtains s' where "deq t s = Some s'" "invar s'" "linked s' = linked s - {t}"
  using deq [OF assms] by blast

lemma enq_SomeD:
  assumes "invar s" "enq t s = Some s'"
  shows "t \<notin> linked s" "invar s'" "linked s' = insert t (linked s)"
  using assms enq [OF assms(1), of t] enq_linked [of t s] by (cases "t \<in> linked s"; auto)+

lemma deq_SomeD:
  assumes "invar s" "deq t s = Some s'"
  shows "t \<in> linked s" "invar s'" "linked s' = linked s - {t}"
  using assms deq [OF assms(1), of t] deq_unlinked [of t s] by (cases "t \<in> linked s"; auto)+

lemma enq_deq:
  assumes "invar s" "t \<notin> linked s"
  shows "\<exists>s'. Option.bind (enq t s) (deq t) = Some s' \<and> invar s' \<and> linked s' = linked s"
proof -
  obtain s1 where s1: "enq t s = Some s1" "invar s1" "linked s1 = insert t (linked s)"
    using assms by (rule enqE)
  obtain s2 where "deq t s1 = Some s2" "invar s2" "linked s2 = linked s1 - {t}"
    using deqE [OF s1(2), of t] s1(3) by auto
  then show ?thesis using s1 assms(2) by auto
qed

end

definition linked :: "fifo \<Rightarrow> nat set" where
  "linked r = {t. Task t \<in> set (fr_tasks r)}"

lemma enqueue_ok:
  assumes "fifo_ok r" "enqueue t r = Some r'"
  shows "fifo_ok r'" "linked r' = insert t (linked r)"
proof -
  let ?S = "segment (fr_tasks r)" and ?q = "fr_priority r t"
  from assms(1) obtain ok: "queue_ok ?S r" and qe: "\<forall>q. QueueEnd \<notin> set (?S q)"
    by (rule fifo_okE)
  then have d: "fr_tasks r = queue_of ?S" "distinct (queue_of ?S)" by (auto simp: queue_ok_def)
  from assms(2) d(1) have new: "Task t \<notin> set (queue_of ?S)" by (auto simp: enqueue_def split: if_splits)
  have "insert_before (priorityEnd ?q) (Task t) (fr_tasks r) = queue_of (?S(?q := ?S ?q @ [Task t]))"
    using insert_queue_of [OF d(2)] d(1) by metis
  then have r': "r' = r\<lparr>fr_tasks := queue_of (?S(?q := ?S ?q @ [Task t]))\<rparr>"
    using assms(2) by (auto simp: enqueue_def split: if_splits)
  show "fifo_ok r'"
    by (rule fifo_okI [where S = "?S(?q := ?S ?q @ [Task t])"])
      (use ok qe distinct_queue_of_append [OF d(2) new, of ?q] in \<open>auto simp: r' queue_ok_def\<close>)
  have "set (fr_tasks r') = insert (Task t) (set (queue_of ?S))"
    unfolding r' by (cases ?q) (auto simp: queue_of_def)
  then show "linked r' = insert t (linked r)" using d(1) by (auto simp: linked_def)
qed

lemma dequeue_ok:
  assumes "fifo_ok r" "dequeue t r = Some r'"
  shows "fifo_ok r'" "linked r' = linked r - {t}"
proof -
  let ?S = "segment (fr_tasks r)" and ?F = "\<lambda>q. filter ((\<noteq>) (Task t)) (segment (fr_tasks r) q)"
  from assms(1) obtain ok: "queue_ok ?S r" and qe: "\<forall>q. QueueEnd \<notin> set (?S q)"
    by (rule fifo_okE)
  then have d: "fr_tasks r = queue_of ?S" "distinct (queue_of ?S)" by (auto simp: queue_ok_def)
  have rem: "remove1 (Task t) (fr_tasks r) = queue_of ?F"
    using remove_queue_of [OF d(2), of "Task t"] d(1) by simp
  have r': "fr_tasks r' = remove1 (Task t) (fr_tasks r)" "fr_priority r' = fr_priority r"
    using assms(2) by (auto simp: dequeue_def Let_def split: if_splits)
  show "fifo_ok r'"
    by (rule fifo_okI [where S = ?F])
      (use ok qe distinct_queue_of_filter [OF d(2)] in \<open>auto simp: r' rem queue_ok_def\<close>)
  have "distinct (fr_tasks r)" using d by simp
  then show "linked r' = linked r - {t}" using r' by (auto simp: linked_def)
qed

interpretation fq: task_queue linked fifo_ok enqueue dequeue
proof
  fix s t
  show "\<exists>s'. enqueue t s = Some s' \<and> fifo_ok s' \<and> linked s' = insert t (linked s)"
    if "fifo_ok s" "t \<notin> linked s"
  proof -
    from that(2) obtain s' where "enqueue t s = Some s'" by (auto simp: enqueue_def linked_def)
    with enqueue_ok [OF that(1) this] show ?thesis by blast
  qed
  show "\<exists>s'. dequeue t s = Some s' \<and> fifo_ok s' \<and> linked s' = linked s - {t}"
    if "fifo_ok s" "t \<in> linked s"
  proof -
    from that(2) obtain s' where "dequeue t s = Some s'" by (auto simp: dequeue_def linked_def Let_def)
    with dequeue_ok [OF that(1) this] show ?thesis by blast
  qed
  show "enqueue t s = None" if "t \<in> linked s" using that by (simp add: enqueue_def linked_def)
  show "dequeue t s = None" if "t \<notin> linked s" using that by (simp add: dequeue_def linked_def)
qed

lemma fifo_ok_yield: "fifo_ok (yield r) = fifo_ok r"
  by (simp add: fifo_ok_def queue_ok_def yield_def)

lemma fifo_init_ok: "fifo_ok (fifo_init nm pr)"
  by (auto intro!: fifo_okI [where S = "\<lambda>_. []"] simp: queue_ok_def fifo_init_def queue_of_def)

section \<open>Properties of the runner\<close>

text \<open>A queue of four tasks, all runnable; the callback of task 1 takes task 2 out and back in.\<close>

definition sample_fifo :: fifo where
  "sample_fifo = (fifo_init (\<lambda>_. ''task'')
       (\<lambda>t. if t = 0 then PRIORITY_HIGH else if t = 3 then PRIORITY_LOW else PRIORITY_NORMAL))
     \<lparr>fr_tasks := [Task 0, HighPriorityEnd, Task 1, Task 2, NormalPriorityEnd, Task 3],
      fr_runnable := (\<lambda>_. True)\<rparr>"

definition sample_cb :: "unit callback" where
  "sample_cb t e = (if t = 1 then [Dequeue 2, Enqueue 2] else [], False, ())"

lemma sample_fifo_ok: "fifo_ok sample_fifo"
proof (rule fifo_okI)
  let ?S = "\<lambda>p. case p of PRIORITY_HIGH \<Rightarrow> [Task 0] | PRIORITY_NORMAL \<Rightarrow> [Task 1, Task 2] | PRIORITY_LOW \<Rightarrow> [Task 3]"
  show "queue_ok ?S sample_fifo"
    by (auto simp: queue_ok_def sample_fifo_def queue_of_def fifo_init_def split: priority.splits)
  show "QueueEnd \<notin> set (?S q)" for q by (cases q) auto
qed

lemmas sample_run = sample_fifo_def sample_cb_def fifo_init_def run_seg_def run_range_def seg_bounds_def
  list_begin_def run_step_def begin_task_def erase_end_def leave_range_def enqueue_def dequeue_def
  Let_def eval_nat_numeral

text \<open>C6: One pass over the tasks of a priority ends, whatever the callbacks enqueue, dequeue or
  make runnable: it visits each task that was linked when it began at most once, in queue order,
  never a task that is enqueued during the pass, and unless a callback violates an assertion of the
  list, it leaves a well-formed queue with every task in the segment of its priority.\<close>

theorem run_seg_calls_each_once:
  assumes "fifo_ok r" "run_seg cb p r e = (oc, ts, r', e')"
  shows "oc \<noteq> OutOfFuel \<and> distinct ts \<and> subseq (map Task ts) (segment (fr_tasks r) p) \<and>
    (oc \<noteq> Asserted \<longrightarrow> fifo_ok r')"
proof -
  from run_seg_result [OF assms(1), of p cb e] assms(2)
  have res: "pass_result p (segment (fr_tasks r) p) r (oc, ts, r', e')" by simp
  from pass_result_tasks(1) [OF assms(1) res] res show ?thesis by (simp add: pass_result_def)
qed

theorem run_seg_calls_each_once_witness:
  "fst (snd (run_seg sample_cb PRIORITY_NORMAL sample_fifo ())) = [1] \<and>
   (case run_seg sample_cb PRIORITY_NORMAL sample_fifo () of
      (oc, ts, r', _) \<Rightarrow> oc = Finished \<and> distinct ts \<and> fifo_ok r')"
proof -
  obtain oc ts r' e' where run: "run_seg sample_cb PRIORITY_NORMAL sample_fifo () = (oc, ts, r', e')"
    by (metis prod.exhaust)
  have "oc = Finished" "ts = [1]" using run by (auto simp: sample_run)
  with run_seg_calls_each_once [OF sample_fifo_ok run] run show ?thesis by simp
qed

text \<open>C7: A pass that ends normally starves nobody: every task of the segment that was runnable
  when the pass began has been called, unless a callback of the pass dequeued it; and a task is
  called only if it was runnable then or a callback of the pass made it runnable.\<close>

theorem run_seg_runs_runnable:
  assumes "fifo_ok r" "run_seg cb p r e = (Finished, ts, r', e')"
  shows "(\<forall>t. Task t \<in> set (segment (fr_tasks r) p) \<and> fr_runnable r t \<longrightarrow>
        t \<in> set ts \<or> (\<exists>u \<in> set ts. \<exists>d. Dequeue t \<in> set (fst (cb u d)))) \<and>
    (\<forall>t \<in> set ts. fr_runnable r t \<or> (\<exists>u \<in> set ts. \<exists>d. SetRunnable t \<in> set (fst (cb u d))))"
  using assms(1)
proof (cases rule: run_seg_cases [where cb = cb and p = p and e = e])
  case empty
  then show ?thesis using assms(2) by simp
next
  case (pass r1)
  have "run_loop (length (fr_tasks r1)) cb (priorityEnd p) r1 e = (Finished, ts, r', e')"
    using pass(6) assms(2) by simp
  from run_loop_runs_all [OF pass(1) this] run_loop_only_runnable [OF pass(1) this] pass(3)
  show ?thesis by auto
qed

theorem run_seg_runs_runnable_witness:
  "\<exists>ts r'. run_seg sample_cb PRIORITY_HIGH sample_fifo () = (Finished, ts, r', ()) \<and> 0 \<in> set ts"
proof -
  obtain ts r' where run: "run_seg sample_cb PRIORITY_HIGH sample_fifo () = (Finished, ts, r', ())"
    by (simp add: sample_run)
  moreover have "Task 0 \<in> set (segment (fr_tasks sample_fifo) PRIORITY_HIGH)" "fr_runnable sample_fifo 0"
    by (simp_all add: sample_fifo_def)
  moreover have "Dequeue 0 \<notin> set (fst (sample_cb u d))" for u d by (simp add: sample_cb_def)
  ultimately show ?thesis using run_seg_runs_runnable [OF sample_fifo_ok run] by blast
qed

text \<open>One round of \<open>run()\<close> calls every task at most once, all high priority tasks before all
  normal ones and those before the low ones, and leaves a well-formed queue.\<close>

theorem run_segs_priority_order:
  assumes "fifo_ok r"
    and "run_segs cb [PRIORITY_HIGH, PRIORITY_NORMAL, PRIORITY_LOW] r e = (oc, ts, r', e')"
  shows "oc \<noteq> OutOfFuel \<and> distinct ts \<and> (oc \<noteq> Asserted \<longrightarrow> fifo_ok r') \<and>
    (\<exists>hi no lo. ts = hi @ no @ lo \<and> (\<forall>t \<in> set hi. fr_priority r t = PRIORITY_HIGH) \<and>
       (\<forall>t \<in> set no. fr_priority r t = PRIORITY_NORMAL) \<and> (\<forall>t \<in> set lo. fr_priority r t = PRIORITY_LOW))"
proof -
  let ?f = "\<lambda>p. filter (\<lambda>t. fr_priority r t = p) ts"
  have res: "oc \<noteq> OutOfFuel" "distinct ts" "oc \<noteq> Asserted \<longrightarrow> fifo_ok r'"
    and eq: "ts = concat (map ?f [PRIORITY_HIGH, PRIORITY_NORMAL, PRIORITY_LOW])"
    using run_segs_result [OF assms(1) _ assms(2)] by simp_all
  have "ts = ?f PRIORITY_HIGH @ ?f PRIORITY_NORMAL @ ?f PRIORITY_LOW"
    by (subst eq) (simp only: list.map concat.simps append_Nil2)
  then have "\<exists>hi no lo. ts = hi @ no @ lo \<and> (\<forall>t \<in> set hi. fr_priority r t = PRIORITY_HIGH) \<and>
      (\<forall>t \<in> set no. fr_priority r t = PRIORITY_NORMAL) \<and> (\<forall>t \<in> set lo. fr_priority r t = PRIORITY_LOW)"
    by (intro exI [of _ "?f PRIORITY_HIGH"] exI [of _ "?f PRIORITY_NORMAL"] exI [of _ "?f PRIORITY_LOW"]
        conjI) (assumption | simp)+
  with res show ?thesis by blast
qed

theorem run_segs_priority_order_witness:
  "case run_segs sample_cb [PRIORITY_HIGH, PRIORITY_NORMAL, PRIORITY_LOW] sample_fifo () of
     (oc, ts, r', _) \<Rightarrow> oc = Finished \<and> ts = [0, 1, 3] \<and> fifo_ok r'"
proof -
  obtain oc ts r' e' where run:
    "run_segs sample_cb [PRIORITY_HIGH, PRIORITY_NORMAL, PRIORITY_LOW] sample_fifo () = (oc, ts, r', e')"
    by (metis prod.exhaust)
  have "oc = Finished" "ts = [0, 1, 3]" using run by (auto simp: sample_run)
  with run_segs_priority_order [OF sample_fifo_ok run] run show ?thesis by simp
qed

text \<open>When no callback yields, \<open>run()\<close> returns: it starts over at most once, for a \<open>yield()\<close>
  that was pending when it was called.\<close>

theorem fifo_run_returns:
  assumes "fifo_ok r" "\<forall>t d. Yield \<notin> set (fst (cb t d))"
  shows "fst (fifo_run (Suc (Suc k)) cb r e) \<noteq> OutOfFuel"
proof -
  let ?ps = "[PRIORITY_HIGH, PRIORITY_NORMAL, PRIORITY_LOW]"
  have once: "fst (fifo_run (Suc j) cb q d) \<noteq> OutOfFuel" if "fifo_ok q" "\<not> fr_yield q" for j q d
  proof -
    obtain oc ts q' d' where run: "run_segs cb ?ps q d = (oc, ts, q', d')" by (metis prod.exhaust)
    have "oc \<noteq> Yielded" by (rule run_segs_no_yield [OF assms(2) that run])
    moreover have "oc \<noteq> OutOfFuel" using run_segs_result [OF that(1) _ run] by simp
    ultimately show ?thesis using run by (cases oc) simp_all
  qed
  obtain oc ts r1 e1 where run: "run_segs cb ?ps r e = (oc, ts, r1, e1)" by (metis prod.exhaust)
  show ?thesis
  proof (cases "oc = Yielded")
    case False
    moreover have "oc \<noteq> OutOfFuel" using run_segs_result [OF assms(1) _ run] by simp
    ultimately show ?thesis using run by (cases oc) simp_all
  next
    case True
    have "fifo_ok r1" using run_segs_result [OF assms(1) _ run] True by simp
    moreover have "\<not> fr_yield r1" using run_segs_yielded [OF run [unfolded True]] .
    ultimately have "fst (fifo_run (Suc k) cb r1 e1) \<noteq> OutOfFuel" by (rule once)
    then show ?thesis using run True by (simp add: fifo_run.simps(2) [of "Suc k"])
  qed
qed

theorem fifo_run_returns_witness:
  "fst (fifo_run 2 sample_cb (yield sample_fifo) ()) \<noteq> OutOfFuel"
proof -
  have "fifo_ok (yield sample_fifo)" using sample_fifo_ok by (simp add: fifo_ok_yield)
  from fifo_run_returns [OF this, of sample_cb 0 "()"] show ?thesis
    by (simp add: sample_cb_def numeral_2_eq_2)
qed

end
