(* ===== verification/Fd_Events.thy ===== *)
theory Fd_Events
  imports Fifo_Runner
begin

unbundle bit_operations_syntax

text \<open>
  File descriptor events of the scheduler: \<open>senf/Scheduler/Poller.*\<close>, \<open>FdManager.*\<close> and
  \<open>FdEvent.*\<close> (\<open>FdDispatcher\<close>, \<open>FileDispatcher\<close>, \<open>FdEvent\<close>).

  An operation takes the state and returns the new state with a result or the exception
  thrown. The kernel is a parameter: \<open>ctl\<close> stands for \<open>epoll_ctl\<close> on a kernel state \<open>'k\<close>, and
  \<open>epoll_spec\<close> states its documented behaviour. The intrusive multiset \<open>fds_\<close> is the list of
  its events in iteration order, the members of the event objects are functions of the
  event's number, which is also its number as a task.
\<close>

section \<open>Results with state\<close>

datatype sched_error =
    SystemException | DuplicateEventRegistration | DuplicateSignalRegistration | AssertFailed
  | CallbackException

type_synonym ('s, 'a) sres = "(sched_error + 'a) \<times> 's"

definition sbind :: "('s, 'a) sres \<Rightarrow> ('a \<Rightarrow> 's \<Rightarrow> ('s, 'b) sres) \<Rightarrow> ('s, 'b) sres" where
  "sbind m f = (case m of (Inl x, s) \<Rightarrow> (Inl x, s) | (Inr a, s) \<Rightarrow> f a s)"

lemma sbind_simps [simp]: "sbind (Inl x, s) f = (Inl x, s)" "sbind (Inr a, s) f = f a s"
  by (simp_all add: sbind_def)

section \<open>State\<close>

type_synonym mask = u32

definition EV_READ :: mask where "EV_READ = 1"
definition EV_PRIO :: mask where "EV_PRIO = 2"
definition EV_WRITE :: mask where "EV_WRITE = 4"
definition EV_ERR :: mask where "EV_ERR = 8"
definition EV_HUP :: mask where "EV_HUP = 16"
definition EV_ALL :: mask where "EV_ALL = EV_READ OR EV_WRITE OR EV_PRIO"

lemmas ev_defs = EV_READ_def EV_PRIO_def EV_WRITE_def EV_ERR_def EV_HUP_def EV_ALL_def

text \<open>The objects registered with the poller: an event, or one of the other dispatchers.\<close>

datatype poll_target = FdTarget nat | SignalTarget | TimerTarget

record fd_event =
  fe_fd :: int
  fe_pollable :: bool
  fe_events :: mask
  fe_signaled :: mask

record 'k fd_sys =
  sc_runner :: fifo
  sc_kernel :: 'k
  sc_pollTimeout :: int
  sc_eventTime :: int
  sc_fdev :: "nat \<Rightarrow> fd_event"
  sc_fds :: "nat list"
  sc_files :: "nat list"
  sc_managerTimeout :: int

section \<open>Poller and FdManager\<close>

datatype errno = EEXIST | EPERM | ENOENT | EBADF | EOther

datatype epoll_op = EPOLL_CTL_ADD | EPOLL_CTL_MOD | EPOLL_CTL_DEL

type_synonym 'k epoll_ctl = "epoll_op \<Rightarrow> int \<Rightarrow> mask \<times> poll_target \<Rightarrow> 'k \<Rightarrow> errno option \<times> 'k"

definition poller_set ::
  "'k epoll_ctl \<Rightarrow> int \<Rightarrow> mask \<Rightarrow> poll_target \<Rightarrow> ('k, 'z) fd_sys_scheme \<Rightarrow> (('k, 'z) fd_sys_scheme, bool) sres" where
  "poller_set ctl fd evs tgt s =
     (case ctl EPOLL_CTL_ADD fd (evs, tgt) (sc_kernel s) of
        (None, k) \<Rightarrow> (Inr True, s\<lparr>sc_kernel := k\<rparr>)
      | (Some e, k) \<Rightarrow>
          (case (if e = EEXIST then ctl EPOLL_CTL_MOD fd (evs, tgt) k else (Some e, k)) of
             (None, k') \<Rightarrow> (Inr True, s\<lparr>sc_kernel := k'\<rparr>)
           | (Some e', k') \<Rightarrow>
               (if e' = EPERM then Inr False else Inl SystemException, s\<lparr>sc_kernel := k'\<rparr>)))"

definition poller_remove ::
  "'k epoll_ctl \<Rightarrow> int \<Rightarrow> ('k, 'z) fd_sys_scheme \<Rightarrow> (('k, 'z) fd_sys_scheme, unit) sres" where
  "poller_remove ctl fd s =
     (case ctl EPOLL_CTL_DEL fd (0, SignalTarget) (sc_kernel s) of
        (None, k) \<Rightarrow> (Inr (), s\<lparr>sc_kernel := k\<rparr>)
      | (Some e, k) \<Rightarrow>
          (if e \<noteq> ENOENT \<and> e \<noteq> EBADF \<and> e \<noteq> EPERM then Inl SystemException else Inr (),
           s\<lparr>sc_kernel := k\<rparr>))"

text \<open>
  \<open>Poller::wait\<close>: \<open>w\<close> is what \<open>epoll_wait\<close> does, an error or the events posted, of which it
  returns at most \<open>NumEvents\<close>.
\<close>

definition NumEvents :: nat where "NumEvents = 8"

datatype wait_result = WaitInterrupted | WaitFailed | WaitEvents "(mask \<times> poll_target) list"

fun poller_wait :: "wait_result \<Rightarrow> sched_error + (mask \<times> poll_target) list" where
  "poller_wait WaitInterrupted = Inr []"
| "poller_wait WaitFailed = Inl SystemException"
| "poller_wait (WaitEvents xs) = Inr (take NumEvents xs)"

section \<open>The ordered set of events\<close>

definition fd_of :: "('k, 'z) fd_sys_scheme \<Rightarrow> nat \<Rightarrow> int" where
  "fd_of s i = fe_fd (sc_fdev s i)"

definition ev_of :: "('k, 'z) fd_sys_scheme \<Rightarrow> nat \<Rightarrow> mask" where
  "ev_of s i = fe_events (sc_fdev s i)"

definition below :: "('k, 'z) fd_sys_scheme \<Rightarrow> int \<Rightarrow> nat list \<Rightarrow> nat list" where
  "below s fd is = takeWhile (\<lambda>i. fd_of s i < fd) is"

definition from_fd :: "('k, 'z) fd_sys_scheme \<Rightarrow> int \<Rightarrow> nat list \<Rightarrow> nat list" where
  "from_fd s fd is = dropWhile (\<lambda>i. fd_of s i < fd) is"

definition equal_range :: "('k, 'z) fd_sys_scheme \<Rightarrow> int \<Rightarrow> nat list \<Rightarrow> nat list" where
  "equal_range s fd is = takeWhile (\<lambda>i. fd_of s i = fd) (from_fd s fd is)"

definition all_events :: "('k, 'z) fd_sys_scheme \<Rightarrow> nat list \<Rightarrow> mask" where
  "all_events s is = foldl (\<lambda>m i. m OR ev_of s i) 0 is"

definition set_insert :: "('k, 'z) fd_sys_scheme \<Rightarrow> nat \<Rightarrow> nat list \<Rightarrow> nat list" where
  "set_insert s t is = below s (fd_of s t) is @ t # from_fd s (fd_of s t) is"

section \<open>The dispatchers\<close>

definition runner_enqueue :: "nat \<Rightarrow> ('k, 'z) fd_sys_scheme \<Rightarrow> (('k, 'z) fd_sys_scheme, unit) sres" where
  "runner_enqueue t s =
     (case enqueue t (sc_runner s) of None \<Rightarrow> (Inl AssertFailed, s) | Some r \<Rightarrow> (Inr (), s\<lparr>sc_runner := r\<rparr>))"

definition runner_dequeue :: "nat \<Rightarrow> ('k, 'z) fd_sys_scheme \<Rightarrow> (('k, 'z) fd_sys_scheme, unit) sres" where
  "runner_dequeue t s =
     (case dequeue t (sc_runner s) of None \<Rightarrow> (Inl AssertFailed, s) | Some r \<Rightarrow> (Inr (), s\<lparr>sc_runner := r\<rparr>))"

definition make_runnable :: "nat \<Rightarrow> ('k, 'z) fd_sys_scheme \<Rightarrow> ('k, 'z) fd_sys_scheme" where
  "make_runnable t s = s\<lparr>sc_runner := setRunnable t (sc_runner s)\<rparr>"

definition fdd_add ::
  "'k epoll_ctl \<Rightarrow> nat \<Rightarrow> ('k, 'z) fd_sys_scheme \<Rightarrow> (('k, 'z) fd_sys_scheme, bool) sres" where
  "fdd_add ctl t s =
     (let evs = all_events s (equal_range s (fd_of s t) (sc_fds s))
      in if ev_of s t AND evs \<noteq> 0 then (Inl DuplicateEventRegistration, s)
         else sbind (poller_set ctl (fd_of s t) (evs OR ev_of s t) (FdTarget t) s) (\<lambda>ok s1.
              if \<not> ok then (Inr False, s1)
              else sbind (runner_enqueue t s1) (\<lambda>_ s2.
                   (Inr True, s2\<lparr>sc_fds := set_insert s2 t (sc_fds s2)\<rparr>))))"

definition fdd_remove ::
  "'k epoll_ctl \<Rightarrow> nat \<Rightarrow> ('k, 'z) fd_sys_scheme \<Rightarrow> (('k, 'z) fd_sys_scheme, unit) sres" where
  "fdd_remove ctl t s =
     (if t \<notin> set (sc_fds s) then (Inl AssertFailed, s)
      else sbind (runner_dequeue t (s\<lparr>sc_fds := remove1 t (sc_fds s)\<rparr>)) (\<lambda>_ s1.
        let range = equal_range s1 (fd_of s1 t) (sc_fds s1)
        in case range of
             [] \<Rightarrow> poller_remove ctl (fd_of s1 t) s1
           | i # _ \<Rightarrow> sbind (poller_set ctl (fd_of s1 t) (all_events s1 range) (FdTarget i) s1)
                        (\<lambda>_ s2. (Inr (), s2))))"

definition fld_add :: "nat \<Rightarrow> ('k, 'z) fd_sys_scheme \<Rightarrow> (('k, 'z) fd_sys_scheme, unit) sres" where
  "fld_add t s =
     (let evs = all_events s (equal_range s (fd_of s t) (sc_files s))
      in if ev_of s t AND evs \<noteq> 0 then (Inl DuplicateEventRegistration, s)
         else sbind (runner_enqueue t s) (\<lambda>_ s1.
              (Inr (), s1\<lparr>sc_files := set_insert s1 t (sc_files s1), sc_pollTimeout := 0\<rparr>)))"

definition fld_remove :: "nat \<Rightarrow> ('k, 'z) fd_sys_scheme \<Rightarrow> (('k, 'z) fd_sys_scheme, unit) sres" where
  "fld_remove t s =
     (if t \<notin> set (sc_files s) then (Inl AssertFailed, s)
      else sbind (runner_dequeue t (s\<lparr>sc_files := remove1 t (sc_files s)\<rparr>)) (\<lambda>_ s1.
           (Inr (), if sc_files s1 = [] then s1\<lparr>sc_pollTimeout := sc_managerTimeout s1\<rparr> else s1)))"

definition fld_timeout :: "int \<Rightarrow> ('k, 'z) fd_sys_scheme \<Rightarrow> ('k, 'z) fd_sys_scheme" where
  "fld_timeout t s =
     (let s1 = s\<lparr>sc_managerTimeout := t\<rparr>
      in if sc_files s1 = [] then s1\<lparr>sc_pollTimeout := sc_managerTimeout s1\<rparr> else s1)"

definition signal_one :: "nat \<Rightarrow> mask \<Rightarrow> ('k, 'z) fd_sys_scheme \<Rightarrow> ('k, 'z) fd_sys_scheme" where
  "signal_one i m s = s\<lparr>sc_fdev := (sc_fdev s)(i := (sc_fdev s i)\<lparr>fe_signaled := m\<rparr>)\<rparr>"

definition fld_prepareRun :: "('k, 'z) fd_sys_scheme \<Rightarrow> ('k, 'z) fd_sys_scheme" where
  "fld_prepareRun s = foldl (\<lambda>s i. make_runnable i (signal_one i (ev_of s i) s)) s (sc_files s)"

section \<open>FdEvent\<close>

definition fe_enabled :: "nat \<Rightarrow> ('k, 'z) fd_sys_scheme \<Rightarrow> bool" where
  "fe_enabled t s \<longleftrightarrow> Task t \<in> set (fr_tasks (sc_runner s))"

definition fe_disable ::
  "'k epoll_ctl \<Rightarrow> nat \<Rightarrow> ('k, 'z) fd_sys_scheme \<Rightarrow> (('k, 'z) fd_sys_scheme, unit) sres" where
  "fe_disable ctl t s =
     (if fe_enabled t s
      then (if fe_pollable (sc_fdev s t) then fdd_remove ctl t s else fld_remove t s)
      else (Inr (), s))"

definition set_fdev :: "nat \<Rightarrow> fd_event \<Rightarrow> ('k, 'z) fd_sys_scheme \<Rightarrow> ('k, 'z) fd_sys_scheme" where
  "set_fdev t ev s = s\<lparr>sc_fdev := (sc_fdev s)(t := ev)\<rparr>"

definition fe_enable ::
  "'k epoll_ctl \<Rightarrow> nat \<Rightarrow> ('k, 'z) fd_sys_scheme \<Rightarrow> (('k, 'z) fd_sys_scheme, unit) sres" where
  "fe_enable ctl t s =
     (if \<not> fe_enabled t s \<and> ev_of s t \<noteq> 0 \<and> fd_of s t \<noteq> -1
      then sbind (if fe_pollable (sc_fdev s t) then fdd_add ctl t s else (Inr False, s)) (\<lambda>done s1.
             if done then (Inr (), s1)
             else sbind (fld_add t s1) (\<lambda>_ s2.
                    (Inr (), set_fdev t ((sc_fdev s2 t)\<lparr>fe_pollable := False\<rparr>) s2)))
      else (Inr (), s))"

definition fe_set_events ::
  "'k epoll_ctl \<Rightarrow> nat \<Rightarrow> mask \<Rightarrow> ('k, 'z) fd_sys_scheme \<Rightarrow> (('k, 'z) fd_sys_scheme, unit) sres" where
  "fe_set_events ctl t evs s =
     (let en = fe_enabled t s
      in sbind (fe_disable ctl t s) (\<lambda>_ s1.
         let s2 = set_fdev t ((sc_fdev s1 t)\<lparr>fe_events := evs\<rparr>) s1
         in if en then fe_enable ctl t s2 else (Inr (), s2)))"

definition fe_addEvents ::
  "'k epoll_ctl \<Rightarrow> nat \<Rightarrow> mask \<Rightarrow> ('k, 'z) fd_sys_scheme \<Rightarrow> (('k, 'z) fd_sys_scheme, unit) sres" where
  "fe_addEvents ctl t e s = fe_set_events ctl t (ev_of s t OR e) s"

definition fe_removeEvents ::
  "'k epoll_ctl \<Rightarrow> nat \<Rightarrow> mask \<Rightarrow> ('k, 'z) fd_sys_scheme \<Rightarrow> (('k, 'z) fd_sys_scheme, unit) sres" where
  "fe_removeEvents ctl t e s = fe_set_events ctl t (ev_of s t AND NOT e) s"

text \<open>\<open>handle\<close> for a handle with the descriptor \<open>fd\<close>.\<close>

definition fe_set_handle ::
  "'k epoll_ctl \<Rightarrow> nat \<Rightarrow> int \<Rightarrow> ('k, 'z) fd_sys_scheme \<Rightarrow> (('k, 'z) fd_sys_scheme, unit) sres" where
  "fe_set_handle ctl t fd s =
     (let en = fe_enabled t s;
          s1 = set_fdev t ((sc_fdev s t)\<lparr>fe_fd := fd, fe_pollable := True\<rparr>) s
      in if en then fe_enable ctl t s1 else (Inr (), s1))"

text \<open>The loop of \<open>signal\<close> from the position of the event on, while the descriptor is the same.\<close>

definition signal_event :: "mask \<Rightarrow> nat \<Rightarrow> ('k, 'z) fd_sys_scheme \<Rightarrow> ('k, 'z) fd_sys_scheme" where
  "signal_event evs i s =
     (let all_ev = (evs AND (EV_ERR OR EV_HUP) \<noteq> 0 \<and> evs AND (EV_READ OR EV_PRIO OR EV_WRITE) = 0);
          s1 = signal_one i (evs AND (EV_ERR OR EV_HUP OR ev_of s i)) s
      in if ev_of s i AND evs \<noteq> 0 \<or> all_ev then make_runnable i s1 else s1)"

definition fe_signal :: "nat \<Rightarrow> mask \<Rightarrow> ('k, 'z) fd_sys_scheme \<Rightarrow> ('k, 'z) fd_sys_scheme" where
  "fe_signal t evs s =
     foldl (\<lambda>s i. signal_event evs i s) s
       (takeWhile (\<lambda>i. fd_of s i = fd_of s t) (dropWhile (\<lambda>i. i \<noteq> t) (sc_fds s)))"

fun digits_of :: "nat \<Rightarrow> string" where
  "digits_of n = (if n < 10 then [char_of (48 + n)] else digits_of (n div 10) @ [char_of (48 + n mod 10)])"

declare digits_of.simps [simp del]

definition show_int :: "int \<Rightarrow> string" where
  "show_int i = (if i < 0 then ''-'' @ digits_of (nat (- i)) else digits_of (nat i))"

definition fe_info :: "fd_event \<Rightarrow> string" where
  "fe_info ev = ''fd '' @ show_int (fe_fd ev) @
     (if fe_pollable ev then [] else '' (NOT pollable)'') @
     (if fe_events ev AND EV_READ \<noteq> 0 then '' READ'' else []) @
     (if fe_events ev AND EV_PRIO \<noteq> 0 then '' PRIO'' else []) @
     (if fe_events ev AND EV_WRITE \<noteq> 0 then '' WRITE'' else [])"

section \<open>What the kernel promises\<close>

text \<open>
  The documented behaviour of \<open>epoll_ctl\<close> for open descriptors: \<open>regs\<close> is the interest list
  of a kernel state, \<open>pollfd\<close> tells the descriptors that support polling.
\<close>

definition epoll_spec ::
  "'k epoll_ctl \<Rightarrow> ('k \<Rightarrow> int \<Rightarrow> (mask \<times> poll_target) option) \<Rightarrow> (int \<Rightarrow> bool) \<Rightarrow> bool" where
  "epoll_spec ctl regs pollfd \<longleftrightarrow> (\<forall>k fd ev.
     (case ctl EPOLL_CTL_ADD fd ev k of (e, k') \<Rightarrow>
        if regs k fd \<noteq> None then e = Some EEXIST \<and> regs k' = regs k
        else if pollfd fd then e = None \<and> regs k' = (regs k)(fd \<mapsto> ev)
        else e = Some EPERM \<and> regs k' = regs k) \<and>
     (case ctl EPOLL_CTL_MOD fd ev k of (e, k') \<Rightarrow>
        if regs k fd \<noteq> None then e = None \<and> regs k' = (regs k)(fd \<mapsto> ev)
        else e = Some ENOENT \<and> regs k' = regs k) \<and>
     (case ctl EPOLL_CTL_DEL fd ev k of (e, k') \<Rightarrow>
        if regs k fd \<noteq> None then e = None \<and> regs k' = (regs k)(fd := None)
        else e = Some ENOENT \<and> regs k' = regs k))"

lemma epoll_specD:
  assumes "epoll_spec ctl regs pollfd"
  shows "ctl EPOLL_CTL_ADD fd ev k = (e, k') \<Longrightarrow>
      if regs k fd \<noteq> None then e = Some EEXIST \<and> regs k' = regs k
      else if pollfd fd then e = None \<and> regs k' = (regs k)(fd \<mapsto> ev)
      else e = Some EPERM \<and> regs k' = regs k"
    "ctl EPOLL_CTL_MOD fd ev k = (e, k') \<Longrightarrow>
      if regs k fd \<noteq> None then e = None \<and> regs k' = (regs k)(fd \<mapsto> ev)
      else e = Some ENOENT \<and> regs k' = regs k"
    "ctl EPOLL_CTL_DEL fd ev k = (e, k') \<Longrightarrow>
      if regs k fd \<noteq> None then e = None \<and> regs k' = (regs k)(fd := None)
      else e = Some ENOENT \<and> regs k' = regs k"
  using assms [unfolded epoll_spec_def, THEN spec [of _ k], THEN spec [of _ fd], THEN spec [of _ ev]]
  by simp_all

lemma poller_set_registers:
  assumes "epoll_spec ctl regs pollfd" "pollfd fd \<or> regs (sc_kernel s) fd \<noteq> None"
  obtains k where "poller_set ctl fd evs tgt s = (Inr True, s\<lparr>sc_kernel := k\<rparr>)"
    "regs k = (regs (sc_kernel s))(fd \<mapsto> (evs, tgt))"
proof -
  obtain e1 k1 where add: "ctl EPOLL_CTL_ADD fd (evs, tgt) (sc_kernel s) = (e1, k1)" by fastforce
  obtain e2 k2 where md: "ctl EPOLL_CTL_MOD fd (evs, tgt) k1 = (e2, k2)" by fastforce
  note a = epoll_specD(1) [OF assms(1) add] and m = epoll_specD(2) [OF assms(1) md]
  show thesis
  proof (cases "regs (sc_kernel s) fd = None")
    case True
    with a add assms(2) show thesis by (intro that [of k1]) (simp_all add: poller_set_def)
  next
    case False
    with a have e1: "e1 = Some EEXIST" "regs k1 = regs (sc_kernel s)" by simp_all
    with m False have "e2 = None" "regs k2 = (regs (sc_kernel s))(fd \<mapsto> (evs, tgt))" by simp_all
    with e1 add md show thesis by (intro that [of k2]) (simp_all add: poller_set_def)
  qed
qed

lemma poller_set_refuses:
  assumes "epoll_spec ctl regs pollfd" "\<not> pollfd fd" "regs (sc_kernel s) fd = None"
  obtains k where "poller_set ctl fd evs tgt s = (Inr False, s\<lparr>sc_kernel := k\<rparr>)"
    "regs k = regs (sc_kernel s)"
proof -
  obtain e k where add: "ctl EPOLL_CTL_ADD fd (evs, tgt) (sc_kernel s) = (e, k)" by fastforce
  from epoll_specD(1) [OF assms(1) add] assms(2,3)
  have "e = Some EPERM" "regs k = regs (sc_kernel s)" by simp_all
  with add show thesis by (intro that [of k]) (simp_all add: poller_set_def)
qed

lemma poller_remove_unregisters:
  assumes "epoll_spec ctl regs pollfd"
  obtains k where "poller_remove ctl fd s = (Inr (), s\<lparr>sc_kernel := k\<rparr>)"
    "regs k = (regs (sc_kernel s))(fd := None)"
proof -
  obtain e k where del: "ctl EPOLL_CTL_DEL fd (0, SignalTarget) (sc_kernel s) = (e, k)" by fastforce
  from epoll_specD(3) [OF assms del] del show thesis
    by (cases "regs (sc_kernel s) fd"; intro that [of k]) (simp_all add: poller_remove_def fun_upd_idem)
qed

section \<open>The set invariant\<close>

definition on_fd :: "('k, 'z) fd_sys_scheme \<Rightarrow> int \<Rightarrow> nat list" where
  "on_fd s fd = filter (\<lambda>i. fd_of s i = fd) (sc_fds s)"

lemma equal_range_filter:
  "sorted (map (fd_of s) is) \<Longrightarrow> equal_range s fd is = filter (\<lambda>i. fd_of s i = fd) is"
proof (induction "is")
  case (Cons i "is")
  have "filter (\<lambda>j. fd_of s j = fd) is = []" if "fd < fd_of s i"
    using Cons.prems that by (fastforce simp: filter_empty_conv)
  moreover have "dropWhile (\<lambda>j. fd_of s j < fd) is = is" if "fd \<le> fd_of s i"
    using Cons.prems that by (cases "is") auto
  moreover have "takeWhile (\<lambda>j. fd_of s j = fd) is = filter (\<lambda>j. fd_of s j = fd) is" if "fd_of s i = fd"
    using Cons.IH Cons.prems that calculation(2) by (simp add: equal_range_def from_fd_def)
  ultimately show ?case
    using Cons by (cases "fd_of s i" fd rule: linorder_cases) (simp_all add: equal_range_def from_fd_def)
qed (simp add: equal_range_def from_fd_def)

lemma below_from: "below s fd is @ from_fd s fd is = is"
  by (simp add: below_def from_fd_def)

lemma set_set_insert [simp]: "set (set_insert s t is) = insert t (set is)"
proof -
  have "set is = set (below s (fd_of s t) is) \<union> set (from_fd s (fd_of s t) is)"
    by (metis below_from set_append)
  then show ?thesis by (auto simp: set_insert_def)
qed

lemma below_less: "i \<in> set (below s fd is) \<Longrightarrow> fd_of s i < fd"
  by (auto simp: below_def dest: set_takeWhileD)

lemma from_fd_ge: "sorted (map (fd_of s) is) \<Longrightarrow> i \<in> set (from_fd s fd is) \<Longrightarrow> fd \<le> fd_of s i"
  by (induction "is") (fastforce simp: from_fd_def split: if_splits)+

lemma sorted_set_insert:
  assumes "sorted (map (fd_of s) is)"
  shows "sorted (map (fd_of s) (set_insert s t is))"
proof -
  have "sorted (map (fd_of s) (below s (fd_of s t) is @ from_fd s (fd_of s t) is))"
    unfolding below_from by (rule assms)
  then show ?thesis
    using below_less [of _ s "fd_of s t" "is"] from_fd_ge [OF assms, of _ "fd_of s t"]
    by (fastforce simp: set_insert_def sorted_append)
qed

lemma distinct_set_insert: "distinct is \<Longrightarrow> t \<notin> set is \<Longrightarrow> distinct (set_insert s t is)"
proof -
  assume "distinct is" "t \<notin> set is"
  then have "distinct (below s (fd_of s t) is @ from_fd s (fd_of s t) is)"
    "t \<notin> set (below s (fd_of s t) is @ from_fd s (fd_of s t) is)" by (simp_all add: below_from)
  then show "distinct (set_insert s t is)" by (auto simp: set_insert_def)
qed

lemma filter_set_insert:
  "filter (\<lambda>i. fd_of s i = fd) (set_insert s t is) =
     (if fd = fd_of s t then t # filter (\<lambda>i. fd_of s i = fd) is else filter (\<lambda>i. fd_of s i = fd) is)"
proof -
  have split: "filter (\<lambda>i. fd_of s i = fd) is = filter (\<lambda>i. fd_of s i = fd) (below s (fd_of s t) is) @
      filter (\<lambda>i. fd_of s i = fd) (from_fd s (fd_of s t) is)"
    by (metis below_from filter_append)
  show ?thesis
  proof (cases "fd = fd_of s t")
    case True
    then have "filter (\<lambda>i. fd_of s i = fd) (below s (fd_of s t) is) = []"
      using below_less by (fastforce simp: filter_empty_conv)
    then show ?thesis using True split by (simp add: set_insert_def)
  next
    case False
    then show ?thesis using split by (auto simp: set_insert_def)
  qed
qed

text \<open>
  The invariant, for the set \<open>E\<close> of events that are file descriptor events: an enabled event is
  in the set of its dispatcher, the events of a descriptor have disjoint masks, and the kernel
  watches each descriptor for the union of the masks on behalf of the first of its events.
\<close>

definition set_ok :: "bool \<Rightarrow> nat set \<Rightarrow> nat list \<Rightarrow> ('k, 'z) fd_sys_scheme \<Rightarrow> bool" where
  "set_ok pollable E is s \<longleftrightarrow> sorted (map (fd_of s) is) \<and> distinct is \<and>
     set is = {i \<in> E. i \<in> linked (sc_runner s) \<and> fe_pollable (sc_fdev s i) = pollable}"

definition masks_ok :: "nat list \<Rightarrow> ('k, 'z) fd_sys_scheme \<Rightarrow> bool" where
  "masks_ok is s \<longleftrightarrow> (\<forall>i \<in> set is. ev_of s i \<noteq> 0 \<and>
     (\<forall>j \<in> set is. i \<noteq> j \<and> fd_of s i = fd_of s j \<longrightarrow> ev_of s i AND ev_of s j = 0))"

definition watch_ok :: "('k \<Rightarrow> int \<Rightarrow> (mask \<times> poll_target) option) \<Rightarrow> ('k, 'z) fd_sys_scheme \<Rightarrow> bool" where
  "watch_ok regs s \<longleftrightarrow> (\<forall>fd. case on_fd s fd of
       [] \<Rightarrow> (\<forall>m t. regs (sc_kernel s) fd \<noteq> Some (m, FdTarget t))
     | i # _ \<Rightarrow> regs (sc_kernel s) fd = Some (all_events s (on_fd s fd), FdTarget i))"

definition fd_ok ::
  "nat set \<Rightarrow> ('k \<Rightarrow> int \<Rightarrow> (mask \<times> poll_target) option) \<Rightarrow> ('k, 'z) fd_sys_scheme \<Rightarrow> bool" where
  "fd_ok E regs s \<longleftrightarrow> fifo_ok (sc_runner s) \<and> set_ok True E (sc_fds s) s \<and>
     set_ok False E (sc_files s) s \<and> masks_ok (sc_fds s) s \<and> watch_ok regs s"

lemma fold_or: "foldl (\<lambda>m i. m OR f i) (a :: mask) is = a OR foldl (\<lambda>m i. m OR f i) 0 is"
proof (induction "is" arbitrary: a)
  case (Cons i "is")
  from Cons [of "a OR f i"] Cons [of "f i"] show ?case by (simp add: or.assoc)
qed simp

lemma all_events_Cons: "all_events s (i # is) = ev_of s i OR all_events s is"
  using fold_or [of "ev_of s" "ev_of s i" "is"] by (simp add: all_events_def)

lemma all_events_Nil [simp]: "all_events s [] = 0"
  by (simp add: all_events_def)

lemma or_and_zero: "(a OR b) AND (c :: mask) = 0 \<longleftrightarrow> a AND c = 0 \<and> b AND c = 0"
proof -
  have "(a AND c) OR (b AND c) = 0 \<longleftrightarrow> a AND c = 0 \<and> b AND c = 0"
    by (auto simp: bit_eq_iff bit_simps)
  then show ?thesis by (simp add: bit.conj_disj_distrib2)
qed

lemma all_events_disjoint: "m AND all_events s is = 0 \<longleftrightarrow> (\<forall>i \<in> set is. m AND ev_of s i = 0)"
proof (induction "is")
  case (Cons i "is")
  then show ?case by (simp add: all_events_Cons or_and_zero and.commute [of m])
qed simp

lemma fd_okD:
  assumes "fd_ok E regs s"
  shows "fifo_ok (sc_runner s)" "sorted (map (fd_of s) (sc_fds s))" "distinct (sc_fds s)"
    "set (sc_fds s) = {i \<in> E. i \<in> linked (sc_runner s) \<and> fe_pollable (sc_fdev s i)}"
    "sorted (map (fd_of s) (sc_files s))" "distinct (sc_files s)"
    "set (sc_files s) = {i \<in> E. i \<in> linked (sc_runner s) \<and> \<not> fe_pollable (sc_fdev s i)}"
    "masks_ok (sc_fds s) s" "watch_ok regs s"
  using assms by (auto simp: fd_ok_def set_ok_def)

lemma fe_enabled_linked: "fe_enabled t s \<longleftrightarrow> t \<in> linked (sc_runner s)"
  by (simp add: fe_enabled_def linked_def)

lemma range_on_fd: "fd_ok E regs s \<Longrightarrow> equal_range s fd (sc_fds s) = on_fd s fd"
  using equal_range_filter [OF fd_okD(2)] by (simp add: on_fd_def)

text \<open>Fields that a change of runner, kernel or sets does not touch.\<close>

lemma fd_frame [simp]:
  "fd_of (s\<lparr>sc_runner := r\<rparr>) = fd_of s" "ev_of (s\<lparr>sc_runner := r\<rparr>) = ev_of s"
  "fd_of (s\<lparr>sc_kernel := k\<rparr>) = fd_of s" "ev_of (s\<lparr>sc_kernel := k\<rparr>) = ev_of s"
  "fd_of (s\<lparr>sc_fds := l\<rparr>) = fd_of s" "ev_of (s\<lparr>sc_fds := l\<rparr>) = ev_of s"
  "fd_of (s\<lparr>sc_files := l\<rparr>) = fd_of s" "ev_of (s\<lparr>sc_files := l\<rparr>) = ev_of s"
  "fd_of (s\<lparr>sc_pollTimeout := n\<rparr>) = fd_of s" "ev_of (s\<lparr>sc_pollTimeout := n\<rparr>) = ev_of s"
  by (simp_all add: fd_of_def ev_of_def fun_eq_iff)

lemma range_frame [simp]:
  "equal_range (s\<lparr>sc_runner := r\<rparr>) = equal_range s" "set_insert (s\<lparr>sc_runner := r\<rparr>) = set_insert s"
  "equal_range (s\<lparr>sc_kernel := k\<rparr>) = equal_range s" "set_insert (s\<lparr>sc_kernel := k\<rparr>) = set_insert s"
  "equal_range (s\<lparr>sc_fds := l\<rparr>) = equal_range s" "set_insert (s\<lparr>sc_fds := l\<rparr>) = set_insert s"
  "equal_range (s\<lparr>sc_files := l\<rparr>) = equal_range s" "set_insert (s\<lparr>sc_files := l\<rparr>) = set_insert s"
  "equal_range (s\<lparr>sc_pollTimeout := n\<rparr>) = equal_range s" "set_insert (s\<lparr>sc_pollTimeout := n\<rparr>) = set_insert s"
  by (simp_all add: equal_range_def from_fd_def below_def set_insert_def fun_eq_iff)

lemma all_events_frame [simp]:
  "all_events (s\<lparr>sc_runner := r\<rparr>) = all_events s"
  "all_events (s\<lparr>sc_kernel := k\<rparr>) = all_events s"
  "all_events (s\<lparr>sc_fds := l\<rparr>) = all_events s"
  "all_events (s\<lparr>sc_files := l\<rparr>) = all_events s"
  "all_events (s\<lparr>sc_pollTimeout := n\<rparr>) = all_events s"
  by (simp_all add: all_events_def fun_eq_iff)

section \<open>Enabling and disabling\<close>

lemma watch_okD:
  assumes "watch_ok regs s"
  shows "on_fd s fd = i # is \<Longrightarrow> regs (sc_kernel s) fd = Some (all_events s (on_fd s fd), FdTarget i)"
    "on_fd s fd = [] \<Longrightarrow> regs (sc_kernel s) fd \<noteq> Some (m, FdTarget t)"
  using assms [unfolded watch_ok_def, THEN spec [of _ fd]] by simp_all

lemma watch_ok_cong:
  assumes "\<And>fd. on_fd s' fd = on_fd s fd" "all_events s' = all_events s" "sc_kernel s' = sc_kernel s"
  shows "watch_ok regs s' = watch_ok regs s"
  unfolding watch_ok_def assms ..

lemma fdd_add_ok:
  assumes kern: "epoll_spec ctl regs pollfd" and ok: "fd_ok E regs s"
    and t: "t \<in> E" "\<not> fe_enabled t s" "ev_of s t \<noteq> 0" "fe_pollable (sc_fdev s t)" "pollfd (fd_of s t)"
    and free: "\<forall>i \<in> set (on_fd s (fd_of s t)). ev_of s t AND ev_of s i = 0"
  obtains k r where
    "fdd_add ctl t s = (Inr True, s\<lparr>sc_kernel := k, sc_runner := r, sc_fds := set_insert s t (sc_fds s)\<rparr>)"
    "fd_ok E regs (s\<lparr>sc_kernel := k, sc_runner := r, sc_fds := set_insert s t (sc_fds s)\<rparr>)"
    "linked r = insert t (linked (sc_runner s))"
    "regs k = (regs (sc_kernel s))(fd_of s t \<mapsto> (all_events s (on_fd s (fd_of s t)) OR ev_of s t, FdTarget t))"
proof -
  note D = fd_okD [OF ok]
  let ?fd = "fd_of s t" and ?evs = "all_events s (on_fd s (fd_of s t))"
  obtain k where k: "poller_set ctl ?fd (?evs OR ev_of s t) (FdTarget t) s = (Inr True, s\<lparr>sc_kernel := k\<rparr>)"
    "regs k = (regs (sc_kernel s))(?fd \<mapsto> (?evs OR ev_of s t, FdTarget t))"
    using poller_set_registers [OF kern, of ?fd s] t(5) by blast
  obtain r where r: "enqueue t (sc_runner s) = Some r" "fifo_ok r" "linked r = insert t (linked (sc_runner s))"
    using fq.enqE [OF D(1), of t] t(2) by (auto simp: fe_enabled_linked)
  let ?s = "s\<lparr>sc_kernel := k, sc_runner := r, sc_fds := set_insert s t (sc_fds s)\<rparr>"
  have tn: "t \<notin> set (sc_fds s)" using D(4) t(2) by (simp add: fe_enabled_linked)
  have add: "fdd_add ctl t s = (Inr True, ?s)"
    using free k(1) r(1)
    by (simp add: fdd_add_def range_on_fd [OF ok] all_events_disjoint runner_enqueue_def)
  have on: "on_fd ?s fd = (if fd = ?fd then t # on_fd s fd else on_fd s fd)" for fd
    using filter_set_insert [of s fd t "sc_fds s"] by (simp add: on_fd_def)
  have "set_ok True E (sc_fds ?s) ?s"
    using D(2,3,4) t tn r(3) sorted_set_insert [OF D(2), of t] distinct_set_insert [OF D(3) tn]
    by (auto simp: set_ok_def)
  moreover have "set_ok False E (sc_files ?s) ?s" using D(5,6,7) t(4) r(3) by (auto simp: set_ok_def)
  moreover have "masks_ok (sc_fds ?s) ?s"
    using D(8) t(3) free by (auto simp: masks_ok_def on_fd_def and.commute)
  moreover have "watch_ok regs ?s"
    unfolding watch_ok_def
  proof
    fix fd
    have ev: "all_events ?s = all_events s" by simp
    show "case on_fd ?s fd of [] \<Rightarrow> \<forall>m u. regs (sc_kernel ?s) fd \<noteq> Some (m, FdTarget u)
      | i # _ \<Rightarrow> regs (sc_kernel ?s) fd = Some (all_events ?s (on_fd ?s fd), FdTarget i)"
    proof (cases "fd = ?fd")
      case True
      then show ?thesis unfolding on ev by (simp add: k(2) all_events_Cons or.commute)
    next
      case False
      then show ?thesis unfolding on ev
        using D(9) [unfolded watch_ok_def, THEN spec [of _ fd]] by (simp add: k(2) split: list.splits)
    qed
  qed
  ultimately have "fd_ok E regs ?s" using r(2) by (simp add: fd_ok_def)
  from that [OF add this r(3) k(2)] show thesis .
qed

lemma runner_dequeue_ok:
  assumes "fifo_ok (sc_runner s)" "t \<in> linked (sc_runner s)"
  obtains r where "runner_dequeue t s = (Inr (), s\<lparr>sc_runner := r\<rparr>)" "fifo_ok r"
    "linked r = linked (sc_runner s) - {t}"
proof -
  obtain r where "dequeue t (sc_runner s) = Some r" "fifo_ok r" "linked r = linked (sc_runner s) - {t}"
    using assms by (rule fq.deqE)
  then show thesis by (intro that [of r]) (simp_all add: runner_dequeue_def)
qed

lemma sorted_remove1_map: "sorted (map f xs) \<Longrightarrow> sorted (map f (remove1 x xs))"
  by (induction xs) (auto dest: notin_set_remove1 [THEN contrapos_pp] set_remove1_subset [THEN subsetD])

lemma filter_remove1: "distinct xs \<Longrightarrow> filter P (remove1 x xs) = filter (\<lambda>y. P y \<and> y \<noteq> x) xs"
  by (simp add: distinct_remove1_removeAll removeAll_filter_not_eq conj_commute neq_commute)

lemma fdd_remove_ok:
  assumes kern: "epoll_spec ctl regs pollfd" and ok: "fd_ok E regs s" and t: "t \<in> set (sc_fds s)"
  shows "\<exists>k r. fdd_remove ctl t s = (Inr (), s\<lparr>sc_fds := remove1 t (sc_fds s), sc_runner := r, sc_kernel := k\<rparr>) \<and>
    fd_ok E regs (s\<lparr>sc_fds := remove1 t (sc_fds s), sc_runner := r, sc_kernel := k\<rparr>) \<and>
    linked r = linked (sc_runner s) - {t}"
proof -
  note D = fd_okD [OF ok]
  let ?fd = "fd_of s t" and ?fds = "remove1 t (sc_fds s)"
  let ?rest = "filter (\<lambda>i. fd_of s i = ?fd) ?fds"
  obtain r where r: "runner_dequeue t (s\<lparr>sc_fds := ?fds\<rparr>) = (Inr (), s\<lparr>sc_fds := ?fds, sc_runner := r\<rparr>)"
    "fifo_ok r" "linked r = linked (sc_runner s) - {t}"
    using runner_dequeue_ok [of "s\<lparr>sc_fds := ?fds\<rparr>" t] D(1,4) t by auto
  let ?s1 = "s\<lparr>sc_fds := ?fds, sc_runner := r\<rparr>"
  have rng: "equal_range ?s1 (fd_of ?s1 t) (sc_fds ?s1) = ?rest"
    using equal_range_filter [OF sorted_remove1_map [OF D(2)], of ?fd t] by simp
  have ev: "all_events ?s1 = all_events s" by simp
  have reg: "regs (sc_kernel s) ?fd \<noteq> None"
  proof -
    have "t \<in> set (on_fd s ?fd)" using t by (simp add: on_fd_def)
    then show ?thesis using watch_okD(1) [OF D(9), of ?fd] by (cases "on_fd s ?fd") auto
  qed
  obtain k where rem: "fdd_remove ctl t s = (Inr (), ?s1\<lparr>sc_kernel := k\<rparr>)"
    and k: "regs k = (regs (sc_kernel s))(?fd := (case ?rest of [] \<Rightarrow> None
        | i # _ \<Rightarrow> Some (all_events s ?rest, FdTarget i)))"
  proof (cases ?rest)
    case Nil
    obtain k where "poller_remove ctl ?fd ?s1 = (Inr (), ?s1\<lparr>sc_kernel := k\<rparr>)"
      "regs k = (regs (sc_kernel ?s1))(?fd := None)"
      using poller_remove_unregisters [OF kern, of ?fd ?s1] by blast
    with that [of k] Nil t r(1) rng show thesis by (simp add: fdd_remove_def)
  next
    case (Cons i "is")
    obtain k where "poller_set ctl ?fd (all_events s ?rest) (FdTarget i) ?s1 = (Inr True, ?s1\<lparr>sc_kernel := k\<rparr>)"
      "regs k = (regs (sc_kernel ?s1))(?fd \<mapsto> (all_events s ?rest, FdTarget i))"
      using poller_set_registers [OF kern, of ?fd ?s1] reg by auto
    with that [of k] Cons t r(1) rng ev show thesis by (simp add: fdd_remove_def)
  qed
  let ?s = "?s1\<lparr>sc_kernel := k\<rparr>"
  have on: "on_fd ?s fd = (if fd = ?fd then ?rest else on_fd s fd)" for fd
    using D(3) by (auto simp: on_fd_def filter_remove1 intro!: filter_cong)
  have "set_ok True E (sc_fds ?s) ?s"
    using D(2,3,4) r(3) sorted_remove1_map [OF D(2), of t] by (auto simp: set_ok_def)
  moreover have "set_ok False E (sc_files ?s) ?s" using D(4,5,6,7) t r(3) by (auto simp: set_ok_def)
  moreover have "masks_ok (sc_fds ?s) ?s"
    using D(3,8) by (auto simp: masks_ok_def)
  moreover have "watch_ok regs ?s"
    unfolding watch_ok_def
  proof
    fix fd
    have ev': "all_events ?s = all_events s" by simp
    show "case on_fd ?s fd of [] \<Rightarrow> \<forall>m u. regs (sc_kernel ?s) fd \<noteq> Some (m, FdTarget u)
      | i # _ \<Rightarrow> regs (sc_kernel ?s) fd = Some (all_events ?s (on_fd ?s fd), FdTarget i)"
    proof (cases "fd = ?fd")
      case True
      then show ?thesis unfolding on ev' by (simp add: k split: list.splits)
    next
      case False
      then show ?thesis unfolding on ev'
        using D(9) [unfolded watch_ok_def, THEN spec [of _ fd]] by (simp add: k split: list.splits)
    qed
  qed
  ultimately have "fd_ok E regs ?s" using r(2) by (simp add: fd_ok_def)
  with rem r(3) show ?thesis by auto
qed

lemma fld_remove_ok:
  assumes ok: "fd_ok E regs s" and t: "t \<in> set (sc_files s)"
  shows "\<exists>r n. fld_remove t s = (Inr (), s\<lparr>sc_files := remove1 t (sc_files s), sc_runner := r, sc_pollTimeout := n\<rparr>) \<and>
    fd_ok E regs (s\<lparr>sc_files := remove1 t (sc_files s), sc_runner := r, sc_pollTimeout := n\<rparr>) \<and>
    linked r = linked (sc_runner s) - {t}"
proof -
  note D = fd_okD [OF ok]
  let ?fs = "remove1 t (sc_files s)"
  obtain r where r: "runner_dequeue t (s\<lparr>sc_files := ?fs\<rparr>) = (Inr (), s\<lparr>sc_files := ?fs, sc_runner := r\<rparr>)"
    "fifo_ok r" "linked r = linked (sc_runner s) - {t}"
    using runner_dequeue_ok [of "s\<lparr>sc_files := ?fs\<rparr>" t] D(1,7) t by auto
  define n where "n = (if ?fs = [] then sc_managerTimeout s else sc_pollTimeout s)"
  let ?s = "s\<lparr>sc_files := ?fs, sc_runner := r, sc_pollTimeout := n\<rparr>"
  have rem: "fld_remove t s = (Inr (), ?s)" using t r(1) by (simp add: fld_remove_def n_def)
  have on: "on_fd ?s fd = on_fd s fd" for fd by (simp add: on_fd_def)
  have "set_ok True E (sc_fds ?s) ?s" using D(2,3,4,7) t r(3) by (auto simp: set_ok_def)
  moreover have "set_ok False E (sc_files ?s) ?s"
    using D(5,6,7) r(3) sorted_remove1_map [OF D(5), of t] by (auto simp: set_ok_def)
  moreover have "masks_ok (sc_fds ?s) ?s" using D(8) by (simp add: masks_ok_def)
  moreover have "watch_ok regs ?s"
    using D(9) watch_ok_cong [OF on] by simp
  ultimately have "fd_ok E regs ?s" using r(2) by (simp add: fd_ok_def)
  with rem r(3) show ?thesis by auto
qed

section \<open>Properties of file descriptor events\<close>

text \<open>A kernel whose state is its interest list, and three events: 1 and 2 on descriptor 5.\<close>

definition map_epoll :: "(int \<Rightarrow> bool) \<Rightarrow> (int \<Rightarrow> (mask \<times> poll_target) option) epoll_ctl" where
  "map_epoll pollfd op fd ev k =
     (case op of
        EPOLL_CTL_ADD \<Rightarrow>
          if k fd \<noteq> None then (Some EEXIST, k)
          else if pollfd fd then (None, k(fd \<mapsto> ev)) else (Some EPERM, k)
      | EPOLL_CTL_MOD \<Rightarrow> if k fd \<noteq> None then (None, k(fd \<mapsto> ev)) else (Some ENOENT, k)
      | EPOLL_CTL_DEL \<Rightarrow> if k fd \<noteq> None then (None, k(fd := None)) else (Some ENOENT, k))"

lemma map_epoll_spec: "epoll_spec (map_epoll pollfd) id pollfd"
  by (auto simp: epoll_spec_def map_epoll_def)

definition sample_events :: "nat \<Rightarrow> fd_event" where
  "sample_events i = \<lparr>fe_fd = (if i = 0 then 3 else 5), fe_pollable = True,
     fe_events = (if i = 1 then EV_READ else EV_WRITE), fe_signaled = 0\<rparr>"

definition sample_sys :: "(int \<Rightarrow> (mask \<times> poll_target) option) fd_sys" where
  "sample_sys = \<lparr>sc_runner = (fifo_init (\<lambda>_. ''fd'') (\<lambda>_. PRIORITY_NORMAL))
       \<lparr>fr_tasks := [HighPriorityEnd, Task 1, NormalPriorityEnd]\<rparr>,
     sc_kernel = [5 \<mapsto> (EV_READ, FdTarget 1)], sc_pollTimeout = -1, sc_eventTime = 0,
     sc_fdev = sample_events, sc_fds = [1], sc_files = [], sc_managerTimeout = -1\<rparr>"

lemma sample_sys_ok: "fd_ok {0, 1, 2} id sample_sys"
proof -
  have "fifo_ok (sc_runner sample_sys)"
    by (rule fifo_okI [where S = "(\<lambda>_. [])(PRIORITY_NORMAL := [Task 1])"])
      (auto simp: sample_sys_def queue_ok_def queue_of_def fifo_init_def split: if_splits)
  then show ?thesis
    by (auto simp: fd_ok_def set_ok_def masks_ok_def watch_ok_def sample_sys_def sample_events_def linked_def
        fd_of_def ev_of_def on_fd_def all_events_def ev_defs fifo_init_def)
qed

text \<open>Enabling an event on a descriptor that can be polled, with a mask that no enabled event of
  the descriptor shares, registers it: the kernel then watches the descriptor for the old masks and
  the new one on behalf of the new event, the event is queued with the runner, and the invariant of
  the dispatchers holds.\<close>

theorem fe_enable_registers:
  assumes "epoll_spec ctl regs pollfd" "fd_ok E regs s"
    and "t \<in> E" "\<not> fe_enabled t s" "ev_of s t \<noteq> 0" "fd_of s t \<noteq> -1"
    and "fe_pollable (sc_fdev s t)" "pollfd (fd_of s t)"
    and "\<forall>i \<in> set (on_fd s (fd_of s t)). ev_of s t AND ev_of s i = 0"
  shows "\<exists>s'. fe_enable ctl t s = (Inr (), s') \<and> fd_ok E regs s' \<and> fe_enabled t s' \<and>
    on_fd s' (fd_of s t) = t # on_fd s (fd_of s t) \<and>
    regs (sc_kernel s') = (regs (sc_kernel s))
      (fd_of s t \<mapsto> (all_events s (on_fd s (fd_of s t)) OR ev_of s t, FdTarget t))"
proof -
  obtain k r where add:
    "fdd_add ctl t s = (Inr True, s\<lparr>sc_kernel := k, sc_runner := r, sc_fds := set_insert s t (sc_fds s)\<rparr>)"
    "fd_ok E regs (s\<lparr>sc_kernel := k, sc_runner := r, sc_fds := set_insert s t (sc_fds s)\<rparr>)"
    "linked r = insert t (linked (sc_runner s))"
    "regs k = (regs (sc_kernel s))(fd_of s t \<mapsto> (all_events s (on_fd s (fd_of s t)) OR ev_of s t, FdTarget t))"
    by (rule fdd_add_ok [OF assms(1-5,7-9)])
  let ?s = "s\<lparr>sc_kernel := k, sc_runner := r, sc_fds := set_insert s t (sc_fds s)\<rparr>"
  have "fe_enable ctl t s = (Inr (), ?s)" using assms add(1) by (simp add: fe_enable_def)
  moreover have "on_fd ?s (fd_of s t) = t # on_fd s (fd_of s t)"
    using filter_set_insert [of s "fd_of s t" t "sc_fds s"] by (simp add: on_fd_def)
  moreover have "fe_enabled t ?s" using add(3) by (simp add: fe_enabled_linked)
  ultimately show ?thesis using add(2,4) by auto
qed

theorem fe_enable_registers_witness:
  "\<exists>s'. fe_enable (map_epoll (\<lambda>_. True)) 2 sample_sys = (Inr (), s') \<and>
     sc_kernel s' 5 = Some (EV_READ OR EV_WRITE, FdTarget 2)"
proof -
  have pre: "\<not> fe_enabled 2 sample_sys" "ev_of sample_sys 2 = EV_WRITE" "fd_of sample_sys 2 = 5"
    "fe_pollable (sc_fdev sample_sys 2)" "on_fd sample_sys 5 = [1]" "ev_of sample_sys 1 = EV_READ"
    by (simp_all add: fe_enabled_def sample_sys_def sample_events_def fd_of_def ev_of_def on_fd_def ev_defs)
  show ?thesis
    using fe_enable_registers [OF map_epoll_spec sample_sys_ok, where t = 2 and pollfd = "\<lambda>_. True"]
    by (auto simp: pre all_events_Cons ev_defs pre [unfolded One_nat_def])
qed

text \<open>Disabling an event takes it out of its dispatcher and out of the queue, and leaves the
  kernel watching the descriptor for exactly the remaining events, on behalf of the first of them.\<close>

theorem fe_disable_unregisters:
  assumes "epoll_spec ctl regs pollfd" "fd_ok E regs s" "t \<in> E"
  shows "\<exists>s'. fe_disable ctl t s = (Inr (), s') \<and> fd_ok E regs s' \<and> \<not> fe_enabled t s' \<and>
    set (sc_fds s') = set (sc_fds s) - {t} \<and> set (sc_files s') = set (sc_files s) - {t}"
proof (cases "fe_enabled t s")
  case False
  then have "t \<notin> set (sc_fds s)" "t \<notin> set (sc_files s)"
    using fd_okD(4,7) [OF assms(2)] by (auto simp: fe_enabled_linked)
  with False assms(2) show ?thesis by (simp add: fe_disable_def)
next
  case en: True
  note D = fd_okD [OF assms(2)]
  show ?thesis
  proof (cases "fe_pollable (sc_fdev s t)")
    case True
    then have t: "t \<in> set (sc_fds s)" "t \<notin> set (sc_files s)"
      using D(4,7) assms(3) en by (auto simp: fe_enabled_linked)
    from fdd_remove_ok [OF assms(1,2) t(1)] show ?thesis
      using True en t(2) D(3) by (auto simp: fe_disable_def fe_enabled_linked)
  next
    case False
    then have t: "t \<in> set (sc_files s)" "t \<notin> set (sc_fds s)"
      using D(4,7) assms(3) en by (auto simp: fe_enabled_linked)
    from fld_remove_ok [OF assms(2) t(1)] show ?thesis
      using False en t(2) D(6) by (auto simp: fe_disable_def fe_enabled_linked)
  qed
qed

theorem fe_disable_unregisters_witness:
  "\<exists>s'. fe_disable (map_epoll (\<lambda>_. True)) 1 sample_sys = (Inr (), s') \<and> \<not> fe_enabled 1 s' \<and> sc_fds s' = []"
proof -
  have "sc_fds sample_sys = [1]" by (simp add: sample_sys_def)
  with fe_disable_unregisters [OF map_epoll_spec sample_sys_ok, of 1 "\<lambda>_. True"] show ?thesis by auto
qed

text \<open>An event whose mask meets the mask of an enabled event on the same descriptor cannot be
  enabled: the call throws and changes nothing.\<close>

theorem fe_enable_duplicate:
  assumes "fd_ok E regs s" "\<not> fe_enabled t s" "fd_of s t \<noteq> -1" "fe_pollable (sc_fdev s t)"
    and "i \<in> set (sc_fds s)" "fd_of s i = fd_of s t" "ev_of s t AND ev_of s i \<noteq> 0"
  shows "fe_enable ctl t s = (Inl DuplicateEventRegistration, s)"
proof -
  have "i \<in> set (on_fd s (fd_of s t))" using assms(5,6) by (simp add: on_fd_def)
  then have "ev_of s t AND all_events s (on_fd s (fd_of s t)) \<noteq> 0" "ev_of s t \<noteq> 0"
    using assms(7) by (auto simp: all_events_disjoint)
  then show ?thesis using assms(2-4) by (simp add: fe_enable_def fdd_add_def range_on_fd [OF assms(1)])
qed

theorem fe_enable_duplicate_witness:
  "fst (fe_enable (map_epoll (\<lambda>_. True)) 2 (set_fdev 2 (sample_events 1) sample_sys)) =
     Inl DuplicateEventRegistration"
proof -
  let ?s = "set_fdev 2 (sample_events 1) sample_sys"
  have "fd_ok {0, 1, 2} id ?s"
  proof -
    have "fifo_ok (sc_runner ?s)" using fd_okD(1) [OF sample_sys_ok] by (simp add: set_fdev_def)
    then show ?thesis
      by (auto simp: fd_ok_def set_ok_def masks_ok_def watch_ok_def sample_sys_def sample_events_def linked_def
          fd_of_def ev_of_def on_fd_def all_events_def ev_defs fifo_init_def set_fdev_def)
  qed
  from fe_enable_duplicate [OF this, of 2 1 "map_epoll (\<lambda>_. True)"] show ?thesis
    by (simp add: set_fdev_def sample_sys_def sample_events_def fd_of_def ev_of_def fe_enabled_def ev_defs)
qed

text \<open>The events a signal on the first event of a descriptor visits.\<close>

lemma signalled_range:
  assumes "fd_ok E regs s" "on_fd s fd = t # rest"
  shows "takeWhile (\<lambda>i. fd_of s i = fd_of s t) (dropWhile (\<lambda>i. i \<noteq> t) (sc_fds s)) = on_fd s fd"
proof -
  have t: "fd_of s t = fd" using assms(2) by (auto simp: on_fd_def dest: filter_eq_ConsD)
  have eq: "takeWhile (\<lambda>i. fd_of s i = fd) (from_fd s fd (sc_fds s)) = on_fd s fd"
    using range_on_fd [OF assms(1), of fd] by (simp add: equal_range_def)
  then obtain ys where ys: "from_fd s fd (sc_fds s) = t # ys"
    using assms(2) by (cases "from_fd s fd (sc_fds s)") (auto split: if_splits)
  have "t \<notin> set (below s fd (sc_fds s))" using below_less [of t s fd] t by auto
  then have "\<forall>i \<in> set (below s fd (sc_fds s)). i \<noteq> t" by blast
  then have "dropWhile (\<lambda>i. i \<noteq> t) (below s fd (sc_fds s) @ t # ys) = t # ys"
    by (simp add: dropWhile_append2)
  then have "dropWhile (\<lambda>i. i \<noteq> t) (sc_fds s) = t # ys"
    using below_from [of s fd "sc_fds s"] unfolding ys by simp
  then show ?thesis using eq t by (simp add: ys)
qed

definition all_ev :: "mask \<Rightarrow> bool" where
  "all_ev evs \<longleftrightarrow> evs AND (EV_ERR OR EV_HUP) \<noteq> 0 \<and> evs AND (EV_READ OR EV_PRIO OR EV_WRITE) = 0"

lemma signal_event_effect:
  "sc_fdev (signal_event evs i s) = (sc_fdev s)(i := (sc_fdev s i)\<lparr>fe_signaled := evs AND (EV_ERR OR EV_HUP OR ev_of s i)\<rparr>)"
  "fr_runnable (sc_runner (signal_event evs i s)) =
     (fr_runnable (sc_runner s))(i := fr_runnable (sc_runner s) i \<or> ev_of s i AND evs \<noteq> 0 \<or> all_ev evs)"
  "fr_tasks (sc_runner (signal_event evs i s)) = fr_tasks (sc_runner s)"
  "fr_priority (sc_runner (signal_event evs i s)) = fr_priority (sc_runner s)"
  "sc_fds (signal_event evs i s) = sc_fds s" "sc_files (signal_event evs i s) = sc_files s"
  "sc_kernel (signal_event evs i s) = sc_kernel s"
  "ev_of (signal_event evs i s) = ev_of s" "fd_of (signal_event evs i s) = fd_of s"
  "fe_pollable (sc_fdev (signal_event evs i s) j) = fe_pollable (sc_fdev s j)"
  by (auto simp: signal_event_def signal_one_def make_runnable_def setRunnable_def Let_def all_ev_def
      ev_of_def fd_of_def fun_eq_iff)

definition signal_list :: "mask \<Rightarrow> ('k, 'z) fd_sys_scheme \<Rightarrow> nat list \<Rightarrow> ('k, 'z) fd_sys_scheme" where
  "signal_list evs = foldl (\<lambda>s i. signal_event evs i s)"

lemma signal_loop:
  "sc_fds (signal_list evs s is) = sc_fds s \<and> sc_files (signal_list evs s is) = sc_files s \<and> sc_kernel (signal_list evs s is) = sc_kernel s \<and>
    ev_of (signal_list evs s is) = ev_of s \<and> fd_of (signal_list evs s is) = fd_of s \<and>
    fr_tasks (sc_runner (signal_list evs s is)) = fr_tasks (sc_runner s) \<and>
    fr_priority (sc_runner (signal_list evs s is)) = fr_priority (sc_runner s) \<and>
    (\<forall>j. fe_pollable (sc_fdev (signal_list evs s is) j) = fe_pollable (sc_fdev s j)) \<and>
    (\<forall>j. sc_fdev (signal_list evs s is) j = (if j \<in> set is
       then (sc_fdev s j)\<lparr>fe_signaled := evs AND (EV_ERR OR EV_HUP OR ev_of s j)\<rparr> else sc_fdev s j)) \<and>
    (\<forall>j. fr_runnable (sc_runner (signal_list evs s is)) j \<longleftrightarrow>
       fr_runnable (sc_runner s) j \<or> j \<in> set is \<and> (ev_of s j AND evs \<noteq> 0 \<or> all_ev evs))"
proof (induction "is" arbitrary: s)
  case (Cons i "is")
  have step: "signal_list evs s (i # is) = signal_list evs (signal_event evs i s) is" by (simp add: signal_list_def)
  show ?case using Cons [of "signal_event evs i s"] unfolding step signal_event_effect by auto
qed (simp add: signal_list_def)

lemma fd_ok_cong:
  assumes "sc_fds s' = sc_fds s" "sc_files s' = sc_files s" "sc_kernel s' = sc_kernel s"
    "ev_of s' = ev_of s" "fd_of s' = fd_of s" "fr_tasks (sc_runner s') = fr_tasks (sc_runner s)"
    "fr_priority (sc_runner s') = fr_priority (sc_runner s)"
    "\<forall>j. fe_pollable (sc_fdev s' j) = fe_pollable (sc_fdev s j)"
  shows "fd_ok E regs s' = fd_ok E regs s"
proof -
  have "on_fd s' fd = on_fd s fd" for fd using assms by (simp add: on_fd_def)
  then have "watch_ok regs s' = watch_ok regs s"
    using assms by (intro watch_ok_cong) (simp_all add: all_events_def fun_eq_iff)
  then show ?thesis using assms
    by (simp add: fd_ok_def set_ok_def masks_ok_def linked_def fifo_ok_def queue_ok_def)
qed

text \<open>C8: When the kernel reports events on a watched descriptor, the signal reaches every enabled
  event of that descriptor: each records the reported events of its mask together with errors and
  hang-up, each whose mask is met (every one, when only an error or a hang-up is reported) becomes
  runnable, and no event of another descriptor is touched.\<close>

theorem fe_signal_reaches_all:
  assumes "fd_ok E regs s" "regs (sc_kernel s) fd = Some (m, FdTarget t)"
  shows "fd_ok E regs (fe_signal t evs s) \<and>
    (\<forall>i \<in> set (sc_fds s). fd_of s i = fd \<longrightarrow>
       fe_signaled (sc_fdev (fe_signal t evs s) i) = evs AND (EV_ERR OR EV_HUP OR ev_of s i) \<and>
       (ev_of s i AND evs \<noteq> 0 \<or> all_ev evs \<longrightarrow> fr_runnable (sc_runner (fe_signal t evs s)) i)) \<and>
    (\<forall>i. fd_of s i \<noteq> fd \<longrightarrow> sc_fdev (fe_signal t evs s) i = sc_fdev s i \<and>
       fr_runnable (sc_runner (fe_signal t evs s)) i = fr_runnable (sc_runner s) i)"
proof -
  note watch = watch_okD [OF fd_okD(9) [OF assms(1)], of fd]
  obtain rest where on: "on_fd s fd = t # rest"
    using watch assms(2) by (cases "on_fd s fd") auto
  have go: "fe_signal t evs s = signal_list evs s (on_fd s fd)"
    using signalled_range [OF assms(1) on] by (simp add: fe_signal_def signal_list_def)
  have mem: "i \<in> set (on_fd s fd) \<longleftrightarrow> i \<in> set (sc_fds s) \<and> fd_of s i = fd" for i
    by (auto simp: on_fd_def)
  note loop = signal_loop [of evs s "on_fd s fd", folded go]
  from fd_ok_cong [of "fe_signal t evs s" s E regs] loop assms(1)
  have "fd_ok E regs (fe_signal t evs s)" by blast
  moreover from loop have
    "\<forall>i. sc_fdev (fe_signal t evs s) i = (if i \<in> set (on_fd s fd)
       then (sc_fdev s i)\<lparr>fe_signaled := evs AND (EV_ERR OR EV_HUP OR ev_of s i)\<rparr> else sc_fdev s i)"
    "\<forall>i. fr_runnable (sc_runner (fe_signal t evs s)) i \<longleftrightarrow>
       fr_runnable (sc_runner s) i \<or> i \<in> set (on_fd s fd) \<and> (ev_of s i AND evs \<noteq> 0 \<or> all_ev evs)"
    by blast+
  ultimately show ?thesis using mem by simp
qed

theorem fe_signal_reaches_all_witness:
  "fr_runnable (sc_runner (fe_signal 1 (EV_READ OR EV_HUP) sample_sys)) 1"
  using fe_signal_reaches_all [OF sample_sys_ok, of 5 EV_READ 1 "EV_READ OR EV_HUP"]
  by (simp add: sample_sys_def sample_events_def fd_of_def ev_of_def ev_defs)

text \<open>\<open>handle()\<close> on an enabled event does not move it: the kernel keeps watching the old
  descriptor on behalf of the event and does not watch the new one, although the event now claims the
  new descriptor.\<close>

theorem fe_set_handle_keeps_watching:
  assumes "fd_ok E regs s" "t \<in> set (sc_fds s)" "fd \<noteq> fd_of s t" "regs (sc_kernel s) fd = None"
  shows "\<exists>s'. fe_set_handle ctl t fd s = (Inr (), s') \<and> fd_of s' t = fd \<and> t \<in> set (sc_fds s') \<and>
    sc_kernel s' = sc_kernel s \<and> regs (sc_kernel s') fd = None \<and> \<not> fd_ok E regs s'"
proof -
  have en: "fe_enabled t s" using fd_okD(4) [OF assms(1)] assms(2) by (auto simp: fe_enabled_linked)
  let ?s = "set_fdev t ((sc_fdev s t)\<lparr>fe_fd := fd, fe_pollable := True\<rparr>) s"
  have "fe_set_handle ctl t fd s = (Inr (), ?s)"
    using en by (simp add: fe_set_handle_def fe_enable_def fe_enabled_def set_fdev_def Let_def)
  moreover have fd: "fd_of ?s t = fd" by (simp add: fd_of_def set_fdev_def)
  moreover have "\<not> fd_ok E regs ?s"
  proof
    assume ok: "fd_ok E regs ?s"
    have "t \<in> set (on_fd ?s fd)" using assms(2) fd by (auto simp: on_fd_def set_fdev_def)
    then have "regs (sc_kernel ?s) fd \<noteq> None"
      using watch_okD(1) [OF fd_okD(9) [OF ok], of fd] by (cases "on_fd ?s fd") auto
    with assms(4) show False by (simp add: set_fdev_def)
  qed
  ultimately show ?thesis using assms(2,4) by (auto simp: set_fdev_def)
qed

theorem fe_set_handle_keeps_watching_witness:
  "\<exists>s'. fe_set_handle (map_epoll (\<lambda>_. True)) 1 7 sample_sys = (Inr (), s') \<and>
     fd_of s' 1 = 7 \<and> sc_kernel s' = [5 \<mapsto> (EV_READ, FdTarget 1)]"
proof -
  have "sc_kernel sample_sys = [5 \<mapsto> (EV_READ, FdTarget 1)]" "1 \<in> set (sc_fds sample_sys)" "fd_of sample_sys 1 = 5"
    by (simp_all add: sample_sys_def sample_events_def fd_of_def)
  with fe_set_handle_keeps_watching [OF sample_sys_ok, of 1 7 "map_epoll (\<lambda>_. True)"] show ?thesis by auto
qed

end
