(* ===== verification/Log_Output.thy ===== *)
theory Log_Output
  imports Log_Routing Fd_Events "HOL-Library.Word"
begin

unbundle bit_operations_syntax

text \<open>
  What the log targets write: the parameters of the console commands (\<open>Target.cc\<close>), the prefix of a message
  (\<open>LogFormat.*\<close>) and the targets \<open>IOStreamTarget\<close>, \<open>SyslogTarget\<close> and \<open>SyslogUDPTarget\<close>.

  The trimming and the tokenizer of Boost and the formatted date are arguments of the operations.
\<close>

section \<open>Log parameters\<close>

record LogParameters =
  pm_stream :: "nat option"
  pm_area :: "nat option"
  pm_level :: nat

datatype param_error = duplicate_stream | duplicate_area | invalid_parameter | duplicate_level

definition pm_clear :: LogParameters where
  "pm_clear = \<lparr>pm_stream = None, pm_area = None, pm_level = NONE_level\<rparr>"

definition pm_setDefaults :: "nat \<Rightarrow> nat \<Rightarrow> LogParameters \<Rightarrow> LogParameters" where
  "pm_setDefaults debug defaultArea pm =
     \<lparr>pm_stream = (if pm_stream pm = None then Some debug else pm_stream pm),
      pm_area = (if pm_area pm = None then Some defaultArea else pm_area pm),
      pm_level = (if pm_level pm = NONE_level then MESSAGE_level else pm_level pm)\<rparr>"

definition pm_default :: "nat \<Rightarrow> nat \<Rightarrow> LogParameters" where
  "pm_default debug defaultArea = pm_setDefaults debug defaultArea pm_clear"

definition levelNames :: "string list" where
  "levelNames = [''NONE'', ''VERBOSE'', ''NOTICE'', ''MESSAGE'', ''IMPORTANT'', ''CRITICAL'', ''FATAL'', ''DISABLED'']"

text \<open>\<open>std::find\<close> in the names between the first and the last.\<close>

fun find_name :: "string \<Rightarrow> nat \<Rightarrow> string list \<Rightarrow> nat" where
  "find_name v i [] = i"
| "find_name v i (n # ns) = (if n = v then i else find_name v (i + 1) ns)"

definition find_level :: "string \<Rightarrow> nat" where
  "find_level v = find_name v 1 (butlast (tl levelNames))"

definition parseParamToken :: "log_state \<Rightarrow> string \<Rightarrow> LogParameters \<Rightarrow> param_error + LogParameters" where
  "parseParamToken s value out =
     (case map_of (ls_streams s) value of
        Some st \<Rightarrow> (if pm_stream out \<noteq> None then Inl duplicate_stream else Inr (out\<lparr>pm_stream := Some st\<rparr>))
      | None \<Rightarrow> (case map_of (ls_areas s) value of
          Some a \<Rightarrow> (if pm_area out \<noteq> None then Inl duplicate_area else Inr (out\<lparr>pm_area := Some a\<rparr>))
        | None \<Rightarrow>
            (if find_level value = 7 then Inl invalid_parameter
             else if pm_level out \<noteq> NONE_level then Inl duplicate_level
             else Inr (out\<lparr>pm_level := find_level value\<rparr>))))"

fun parse_param_tokens :: "log_state \<Rightarrow> string list \<Rightarrow> LogParameters \<Rightarrow> param_error + LogParameters" where
  "parse_param_tokens s [] out = Inr out"
| "parse_param_tokens s (v # vs) out = (case parseParamToken s v out of Inl e \<Rightarrow> Inl e | Inr out' \<Rightarrow> parse_param_tokens s vs out')"

definition pm_parse_argument :: "log_state \<Rightarrow> string list \<Rightarrow> param_error + LogParameters" where
  "pm_parse_argument s tokens = parse_param_tokens s tokens pm_clear"

definition pm_print :: "(nat \<Rightarrow> string) \<Rightarrow> (nat \<Rightarrow> string) \<Rightarrow> LogParameters \<Rightarrow> string" where
  "pm_print stream_name area_name pm =
     ''('' @ (case pm_stream pm of None \<Rightarrow> [] | Some st \<Rightarrow> stream_name st) @
     (case pm_area pm of None \<Rightarrow> [] | Some a \<Rightarrow> (if pm_stream pm \<noteq> None then '' '' else []) @ area_name a) @
     (if pm_level pm \<noteq> NONE_level then (if pm_stream pm \<noteq> None \<or> pm_area pm \<noteq> None then '' '' else []) @ levelNames ! pm_level pm else []) @ '')''"

definition consoleRoute :: "nat \<Rightarrow> int \<Rightarrow> LogParameters \<Rightarrow> action_t \<Rightarrow> log_state \<Rightarrow> log_state" where
  "consoleRoute target index pm action s = log_route target (pm_stream pm) (pm_area pm) (pm_level pm) action index s"

definition consoleUnroute :: "nat \<Rightarrow> LogParameters \<Rightarrow> action_t \<Rightarrow> log_state \<Rightarrow> log_state" where
  "consoleUnroute target pm action s = log_unroute target (pm_stream pm) (pm_area pm) (pm_level pm) action s"

definition consoleWrite :: "nat \<Rightarrow> nat \<Rightarrow> nat \<Rightarrow> log_state \<Rightarrow> LogParameters \<Rightarrow> nat list" where
  "consoleWrite console debug defaultArea s pm =
     (let pm' = pm_setDefaults debug defaultArea pm
      in registry_write console s (the (pm_stream pm')) (the (pm_area pm')) (pm_level pm'))"

section \<open>The prefix of a message\<close>

record LogFormat =
  lf_tag :: string
  lf_timeFormat :: string
  lf_timeBase :: int
  lf_noformat :: bool
  lf_showTime :: bool
  lf_showStream :: bool
  lf_showLevel :: bool
  lf_showArea :: bool

definition lf_set_timeFormat :: "int \<Rightarrow> string \<Rightarrow> LogFormat \<Rightarrow> LogFormat" where
  "lf_set_timeFormat now format f =
     (if format = [] then f\<lparr>lf_timeFormat := format, lf_noformat := True, lf_timeBase := now\<rparr>
      else f\<lparr>lf_timeFormat := format, lf_noformat := False\<rparr>)"

definition lf_new :: "int \<Rightarrow> string \<Rightarrow> LogFormat" where
  "lf_new now defaultTag =
     lf_set_timeFormat now ''%Y-%m-%d %H:%M:%S.%f-0000''
       \<lparr>lf_tag = defaultTag, lf_timeFormat = [], lf_timeBase = -1, lf_noformat = False,
        lf_showTime = True, lf_showStream = False, lf_showLevel = True, lf_showArea = True\<rparr>"

definition setw0 :: "nat \<Rightarrow> string \<Rightarrow> string" where
  "setw0 w s = replicate (w - length s) CHR ''0'' @ s"

text \<open>Division and remainder of C++ go toward zero.\<close>

definition lf_time :: "LogFormat \<Rightarrow> int \<Rightarrow> string" where
  "lf_time f timestamp =
     (let delta = timestamp - lf_timeBase f
      in setw0 10 (show_int (sgn delta * (\<bar>delta\<bar> div 1000000000))) @ ''.'' @
         setw0 9 (show_int (sgn delta * (\<bar>delta\<bar> mod 1000000000))))"

definition lf_prefix :: "(string \<Rightarrow> int \<Rightarrow> string) \<Rightarrow> LogFormat \<Rightarrow> int \<Rightarrow> string \<Rightarrow> string \<Rightarrow> nat \<Rightarrow> string" where
  "lf_prefix abstime f timestamp stream area level =
     (if lf_showTime f then (if lf_noformat f then lf_time f timestamp else abstime (lf_timeFormat f) timestamp) @ '' '' else []) @
     (if lf_tag f \<noteq> [] then lf_tag f @ '': '' else []) @
     (if lf_showStream f then ''['' @ stream @ ''] '' else []) @
     (if lf_showLevel f then ''['' @ levelNames ! level @ ''] '' else []) @
     (if lf_showArea f \<and> area \<noteq> ''senf::log::DefaultArea'' then ''['' @ area @ ''] '' else [])"

definition isPlainFormat :: "LogFormat \<Rightarrow> bool" where
  "isPlainFormat f \<longleftrightarrow> lf_tag f = [] \<and> \<not> lf_showTime f \<and> \<not> lf_showStream f \<and> \<not> lf_showLevel f \<and> \<not> lf_showArea f"

text \<open>A \<open>char\<close> is signed: the bytes from 128 on are less than a space.\<close>

definition char_value :: "char \<Rightarrow> int" where
  "char_value c = (if of_char c < (128 :: nat) then of_char c else of_char c - 256)"

definition quoteNonPrintable :: "string \<Rightarrow> string" where
  "quoteNonPrintable = map (\<lambda>c. if char_value c < 32 \<and> c \<noteq> CHR 0x0A then CHR ''?'' else c)"

section \<open>The targets\<close>

definition iostream_write :: "(string \<Rightarrow> string) \<Rightarrow> (string \<Rightarrow> string list) \<Rightarrow> (string \<Rightarrow> int \<Rightarrow> string) \<Rightarrow> LogFormat \<Rightarrow>
    int \<Rightarrow> string \<Rightarrow> string \<Rightarrow> nat \<Rightarrow> string \<Rightarrow> string" where
  "iostream_write trim_right tokenize abstime f timestamp stream area level message =
     (let m = quoteNonPrintable (trim_right message)
      in if isPlainFormat f then m @ [CHR 0x0A]
         else let prf = lf_prefix abstime f timestamp stream area level
              in concat (map (\<lambda>t. prf @ t @ [CHR 0x0A]) (tokenize m)))"

text \<open>The severities of \<open>syslog\<close>: \<open>LOG_DEBUG\<close>, \<open>LOG_INFO\<close>, \<open>LOG_NOTICE\<close>, \<open>LOG_WARNING\<close>, \<open>LOG_CRIT\<close>, \<open>LOG_EMERG\<close>.\<close>

definition LEVELMAP :: "32 word list" where
  "LEVELMAP = [0, 7, 6, 5, 4, 2, 0, 0]"

definition c_str :: "string \<Rightarrow> string" where
  "c_str = takeWhile (\<lambda>c. c \<noteq> CHR 0x00)"

definition syslog_write :: "32 word \<Rightarrow> string \<Rightarrow> nat \<Rightarrow> string \<Rightarrow> 32 word \<times> string" where
  "syslog_write facility area level message =
     (facility OR LEVELMAP ! level,
      if area \<noteq> ''senf::log::DefaultArea'' then ''['' @ c_str area @ ''] '' @ c_str message else c_str message)"

text \<open>The datagrams of one line: \<open>sz\<close> and \<open>j\<close> are unsigned. The loop need not end, then there is no result.\<close>

definition udp_size :: "string \<Rightarrow> nat" where
  "udp_size prf = nat ((896 - int (length prf)) mod 2 ^ 32)"

partial_function (option) udp_lines :: "string \<Rightarrow> nat \<Rightarrow> string \<Rightarrow> nat \<Rightarrow> string list option" where
  "udp_lines prf sz line j =
     (if j < length line
      then Option.bind (udp_lines prf sz line ((j + sz) mod 2 ^ 32)) (\<lambda>rest. Some ((prf @ take sz (drop j line)) # rest))
      else Some [])"

fun udp_tokens :: "string \<Rightarrow> nat \<Rightarrow> string list \<Rightarrow> string list option" where
  "udp_tokens prf sz [] = Some []"
| "udp_tokens prf sz (t # ts) =
     (case udp_lines prf sz t 0 of None \<Rightarrow> None | Some ls \<Rightarrow> map_option (\<lambda>rest. ls @ rest) (udp_tokens prf sz ts))"

definition syslog_prefix :: "bool \<Rightarrow> 32 word \<Rightarrow> nat \<Rightarrow> string" where
  "syslog_prefix syslogFormat facility level = (if syslogFormat then ''<'' @ digits_of (unat (facility OR LEVELMAP ! level)) @ ''> '' else [])"

definition udp_write :: "(string \<Rightarrow> string) \<Rightarrow> (string \<Rightarrow> string list) \<Rightarrow> (string \<Rightarrow> int \<Rightarrow> string) \<Rightarrow> LogFormat \<Rightarrow> bool \<Rightarrow> 32 word \<Rightarrow>
    int \<Rightarrow> string \<Rightarrow> string \<Rightarrow> nat \<Rightarrow> string \<Rightarrow> string list option" where
  "udp_write trim_right tokenize abstime f syslogFormat facility timestamp stream area level message =
     (let m = quoteNonPrintable (trim_right message);
          prf = syslog_prefix syslogFormat facility level @ lf_prefix abstime f timestamp stream area level
      in udp_tokens prf (udp_size prf) (tokenize m))"

section \<open>Properties\<close>

text \<open>The parameters that were printed are read back, token for token.\<close>

definition pm_tokens :: "(nat \<Rightarrow> string) \<Rightarrow> (nat \<Rightarrow> string) \<Rightarrow> LogParameters \<Rightarrow> string list" where
  "pm_tokens stream_name area_name pm =
     (case pm_stream pm of None \<Rightarrow> [] | Some st \<Rightarrow> [stream_name st]) @ (case pm_area pm of None \<Rightarrow> [] | Some a \<Rightarrow> [area_name a]) @
     (if pm_level pm \<noteq> NONE_level then [levelNames ! pm_level pm] else [])"

fun join_words :: "string list \<Rightarrow> string" where
  "join_words [] = []"
| "join_words [w] = w"
| "join_words (w # v # ws) = w @ '' '' @ join_words (v # ws)"

lemma print_is_tokens: "pm_print sn an pm = ''('' @ join_words (pm_tokens sn an pm) @ '')''"
  by (simp add: pm_print_def pm_tokens_def split: option.splits)

lemma less_7_cases: "0 < l \<Longrightarrow> l < 7 \<Longrightarrow> l = 1 \<or> l = 2 \<or> l = 3 \<or> l = 4 \<or> l = 5 \<or> l = (6 :: nat)"
  by arith

lemma find_level_name: "0 < l \<Longrightarrow> l < 7 \<Longrightarrow> find_level (levelNames ! l) = l"
  by (drule less_7_cases, assumption) (auto simp: find_level_def levelNames_def)

lemma param_roundtrip:
  assumes "pm_level pm < DISABLED_level"
    and "\<And>st. pm_stream pm = Some st \<Longrightarrow> map_of (ls_streams s) (sn st) = Some st"
    and "\<And>a. pm_area pm = Some a \<Longrightarrow> map_of (ls_streams s) (an a) = None \<and> map_of (ls_areas s) (an a) = Some a"
    and "\<And>l. map_of (ls_streams s) (levelNames ! l) = None \<and> map_of (ls_areas s) (levelNames ! l) = None"
  shows "pm_parse_argument s (pm_tokens sn an pm) = Inr pm"
proof -
  have level: "parseParamToken s (levelNames ! pm_level pm) out = Inr (out\<lparr>pm_level := pm_level pm\<rparr>)"
    if "pm_level pm \<noteq> NONE_level" "pm_level out = NONE_level" for out :: LogParameters
    using that assms(1,4) find_level_name [of "pm_level pm"] by (simp add: parseParamToken_def DISABLED_level_def NONE_level_def)
  have stream: "parseParamToken s (sn st) out = Inr (out\<lparr>pm_stream := Some st\<rparr>)" if "pm_stream pm = Some st" "pm_stream out = None" for st and out :: LogParameters
    using assms(2) [OF that(1)] that(2) by (simp add: parseParamToken_def)
  have area: "parseParamToken s (an a) out = Inr (out\<lparr>pm_area := Some a\<rparr>)" if "pm_area pm = Some a" "pm_area out = None" for a and out :: LogParameters
    using assms(3) [OF that(1)] that(2) by (simp add: parseParamToken_def)
  obtain ps pa pl where pm: "pm = \<lparr>pm_stream = ps, pm_area = pa, pm_level = pl\<rparr>" by (cases pm)
  show ?thesis using stream area level unfolding pm pm_parse_argument_def pm_tokens_def pm_clear_def
    by (cases ps; cases pa; cases "pl = NONE_level") simp_all
qed

text \<open>A name that nothing is registered under and that is no level is refused, so is a second level; the level DISABLED cannot be given.\<close>

lemma find_name_end: "v \<notin> set ns \<Longrightarrow> find_name v i ns = i + length ns"
  by (induction ns arbitrary: i) auto

lemma parse_token_errors:
  "map_of (ls_streams s) v = None \<Longrightarrow> map_of (ls_areas s) v = None \<Longrightarrow> v \<notin> set (butlast (tl levelNames)) \<Longrightarrow>
     parseParamToken s v out = Inl invalid_parameter"
  "map_of (ls_streams s) ''DISABLED'' = None \<Longrightarrow> map_of (ls_areas s) ''DISABLED'' = None \<Longrightarrow>
     parseParamToken s ''DISABLED'' out = Inl invalid_parameter"
proof -
  have n: "v \<notin> set (butlast (tl levelNames)) \<Longrightarrow> find_level v = 7" for v by (simp add: find_level_def find_name_end) (simp add: levelNames_def)
  show "map_of (ls_streams s) v = None \<Longrightarrow> map_of (ls_areas s) v = None \<Longrightarrow> v \<notin> set (butlast (tl levelNames)) \<Longrightarrow>
     parseParamToken s v out = Inl invalid_parameter" by (simp add: parseParamToken_def n)
  show "map_of (ls_streams s) ''DISABLED'' = None \<Longrightarrow> map_of (ls_areas s) ''DISABLED'' = None \<Longrightarrow>
     parseParamToken s ''DISABLED'' out = Inl invalid_parameter" using n [of "''DISABLED''"] by (simp add: parseParamToken_def levelNames_def)
qed

text \<open>A message cannot bring control characters into the log: every character of the line is printable or a line feed.\<close>

lemma quoted_printable: "c \<in> set (quoteNonPrintable s) \<Longrightarrow> 32 \<le> char_value c \<or> c = CHR 0x0A"
  by (auto simp: quoteNonPrintable_def char_value_def split: if_splits)

lemma quote_idem: "quoteNonPrintable (quoteNonPrintable s) = quoteNonPrintable s"
  by (auto simp: quoteNonPrintable_def char_value_def)

text \<open>The more important a message is, the smaller its severity.\<close>

lemma levelmap_order: "0 < l \<Longrightarrow> l < l' \<Longrightarrow> l' < DISABLED_level \<Longrightarrow> LEVELMAP ! l' < LEVELMAP ! l"
proof -
  assume "0 < l" "l < l'" "l' < DISABLED_level"
  then have "l \<in> {1, 2, 3, 4, 5}" "l' \<in> {2, 3, 4, 5, 6}" "l < l'" by (auto simp: DISABLED_level_def)
  then show ?thesis by (auto simp: LEVELMAP_def)
qed

text \<open>The datagrams: none is longer than 896 characters, each has the prefix, and together they have the line.\<close>

lemma udp_lines_ok:
  assumes "0 < sz" "length line + sz < 2 ^ 32"
  shows "\<exists>ps. udp_lines pre sz line j = Some (map (\<lambda>p. pre @ p) ps) \<and> concat ps = drop j line \<and> (\<forall>p\<in>set ps. p \<noteq> [] \<and> length p \<le> sz)"
proof (induction "length line - j" arbitrary: j rule: less_induct)
  case less
  show ?case
  proof (cases "j < length line")
    case True
    then have j: "(j + sz) mod 2 ^ 32 = j + sz" using assms(2) by simp
    have "length line - (j + sz) < length line - j" using True assms(1) by simp
    from less [OF this] obtain ps where ps: "udp_lines pre sz line (j + sz) = Some (map (\<lambda>p. pre @ p) ps)" "concat ps = drop (j + sz) line"
      "\<forall>p\<in>set ps. p \<noteq> [] \<and> length p \<le> sz" by blast
    have "udp_lines pre sz line j = Some (map (\<lambda>p. pre @ p) (take sz (drop j line) # ps))"
      using True j ps(1) by (subst udp_lines.simps) simp
    moreover have "concat (take sz (drop j line) # ps) = drop j line" using ps(2) append_take_drop_id [of sz "drop j line"] by (simp add: add.commute)
    moreover have "\<forall>p\<in>set (take sz (drop j line) # ps). p \<noteq> [] \<and> length p \<le> sz" using ps(3) True assms(1) by auto
    ultimately show ?thesis by blast
  next
    case False
    then show ?thesis by (intro exI [of _ "[]"]) (subst udp_lines.simps, simp)
  qed
qed

text \<open>
  A message to a syslog server is sent in datagrams of at most 896 characters, each with the whole
  prefix, and together they have every character of every line, as long as the prefix is shorter than that.
\<close>

theorem udp_datagrams:
  assumes "length pre < 896" "\<forall>t\<in>set ts. length t < 2 ^ 31"
  shows "\<exists>ps. udp_tokens pre (udp_size pre) ts = Some (map (\<lambda>p. pre @ p) ps) \<and> concat ps = concat ts \<and>
    (\<forall>p\<in>set ps. p \<noteq> [] \<and> length (pre @ p) \<le> 896)"
  using assms(2)
proof (induction ts)
  case (Cons t ts)
  have sz: "udp_size pre = 896 - length pre" using assms(1) by (simp add: udp_size_def nat_diff_distrib)
  obtain ps where ps: "udp_lines pre (udp_size pre) t 0 = Some (map (\<lambda>p. pre @ p) ps)" "concat ps = t" "\<forall>p\<in>set ps. p \<noteq> [] \<and> length p \<le> udp_size pre"
  proof -
    have "0 < udp_size pre" "length t + udp_size pre < 2 ^ 32" using assms(1) Cons.prems sz by auto
    from udp_lines_ok [OF this, of pre 0] show thesis using that by auto
  qed
  obtain qs where qs: "udp_tokens pre (udp_size pre) ts = Some (map (\<lambda>p. pre @ p) qs)" "concat qs = concat ts"
    "\<forall>p\<in>set qs. p \<noteq> [] \<and> length (pre @ p) \<le> 896" using Cons by auto
  show ?case by (rule exI [of _ "ps @ qs"]) (use ps qs sz assms(1) in auto)
qed simp

theorem udp_datagrams_witness:
  "\<exists>ps. udp_tokens ''<15> '' (udp_size ''<15> '') [''disk full'', ''retry''] = Some (map (\<lambda>p. ''<15> '' @ p) ps) \<and>
     concat ps = ''disk fullretry'' \<and> (\<forall>p\<in>set ps. p \<noteq> [] \<and> length (''<15> '' @ p) \<le> 896)"
proof -
  have "length ''<15> '' < 896" "\<forall>t\<in>set [''disk full'', ''retry'']. length t < 2 ^ 31" by simp_all
  from udp_datagrams [OF this] show ?thesis by simp
qed

text \<open>A prefix of exactly 896 characters: the loop that sends a line never ends.\<close>

lemma udp_lines_step: "udp_lines pre sz line j = Some ls \<Longrightarrow> \<not> (sz = 0 \<and> j < 2 ^ 32 \<and> j < length line)"
proof (rule udp_lines.raw_induct [where P = "\<lambda>pre sz line j ls. \<not> (sz = 0 \<and> j < 2 ^ 32 \<and> j < length line)"], goal_cases)
  case (1 f pre sz line j ls)
  show ?case
  proof
    assume z: "sz = 0 \<and> j < 2 ^ 32 \<and> j < length line"
    then obtain r where "f pre sz line ((j + sz) mod 2 ^ 32) = Some r" using 1(3) by (auto split: bind_splits)
    from 1(2) [OF this] show False using z by simp
  qed
qed

lemma udp_prefix_hangs:
  assumes "length pre = 896" "t \<noteq> []"
  shows "udp_tokens pre (udp_size pre) (t # ts) = None"
proof -
  have "udp_size pre = 0" using assms(1) by (simp add: udp_size_def)
  then have "udp_lines pre (udp_size pre) t 0 = None" using udp_lines_step [of pre "udp_size pre" t 0] assms(2) by (cases "udp_lines pre (udp_size pre) t 0") auto
  then show ?thesis by simp
qed

text \<open>The prefix alone decides that, for instance the name of an area.\<close>

lemma long_area_hangs:
  assumes "length (syslog_prefix b fac level @ lf_prefix abstime f ts stream area level) = 896" "tokenize (quoteNonPrintable (trim message)) = t # us" "t \<noteq> []"
  shows "udp_write trim tokenize abstime f b fac ts stream area level message = None"
  using udp_prefix_hangs [OF assms(1,3)] assms(2) by (simp add: udp_write_def Let_def)

text \<open>With the empty time format the times are relative to the moment the format was set, not to the first message after it.\<close>

lemma time_base_is_setting: "lf_time (lf_set_timeFormat now [] f) (now + 5000000007) = ''0000000005.000000007''"
proof -
  have "setw0 10 ''5'' = ''0000000005''" "setw0 9 ''7'' = ''000000007''" by (simp_all add: setw0_def numeral_eq_Suc)
  moreover have "digits_of 5 = ''5''" "digits_of 7 = ''7''" by (simp_all add: digits_of.simps [of 5] digits_of.simps [of 7] char_of_def bit_0)
  ultimately show ?thesis by (simp add: lf_time_def lf_set_timeFormat_def show_int_def Let_def)
qed

end
