(* ===== verification/Telnet.thy ===== *)
theory Telnet
  imports Senf_Prelude
begin

text \<open>
  The telnet protocol, \<open>senf/Utils/Termlib/Telnet.*\<close>: quoting, the byte-wise state machine of the
  receiver, option negotiation, and the two option handlers \<open>TerminalType\<close> and \<open>NAWS\<close>.

  One object of a class derived from \<open>BaseTelnetProtocol\<close> is the record \<open>telnet\<close>. The calls of the
  virtual functions that the application implements are kept in \<open>tn_calls\<close>, in order. Characters are
  bytes. \<open>boost::algorithm::to_lower\<close> is the argument \<open>lower\<close>. The scheduler events are their
  \<open>enabled\<close> flags and, for the timer, the time it is set to.
\<close>

section \<open>State\<close>

definition CMD_NONE :: byte where "CMD_NONE = 0"
definition CMD_SE :: byte where "CMD_SE = 240"
definition CMD_NOP :: byte where "CMD_NOP = 241"
definition CMD_DM :: byte where "CMD_DM = 242"
definition CMD_BRK :: byte where "CMD_BRK = 243"
definition CMD_IP :: byte where "CMD_IP = 244"
definition CMD_AO :: byte where "CMD_AO = 245"
definition CMD_AYT :: byte where "CMD_AYT = 246"
definition CMD_EC :: byte where "CMD_EC = 247"
definition CMD_EL :: byte where "CMD_EL = 248"
definition CMD_GA :: byte where "CMD_GA = 249"
definition CMD_SB :: byte where "CMD_SB = 250"
definition CMD_WILL :: byte where "CMD_WILL = 251"
definition CMD_WONT :: byte where "CMD_WONT = 252"
definition CMD_DO :: byte where "CMD_DO = 253"
definition CMD_DONT :: byte where "CMD_DONT = 254"
definition CMD_IAC :: byte where "CMD_IAC = 255"

lemmas CMD_defs = CMD_NONE_def CMD_SE_def CMD_NOP_def CMD_DM_def CMD_BRK_def CMD_IP_def CMD_AO_def CMD_AYT_def CMD_EC_def
  CMD_EL_def CMD_GA_def CMD_SB_def CMD_WILL_def CMD_WONT_def CMD_DO_def CMD_DONT_def CMD_IAC_def

datatype WantState = WANTED | ACCEPTED | DISABLED
datatype OptionState = NONE | REQUEST_SENT | ACKNOWLEDGED
datatype CharState = NORMAL | IAC_SEEN | EXPECT_OPTION | CR_SEEN | SB_OPTION | SB_DATA | SB_IAC_SEEN

record opt_info =
  wantState :: WantState
  optionState :: OptionState
  opt_enabled :: bool

definition OptInfo :: opt_info where
  "OptInfo = \<lparr>wantState = DISABLED, optionState = NONE, opt_enabled = False\<rparr>"

datatype telnet_handler = TerminalType | NAWS

datatype telnet_call = CharReceived byte | SetupComplete | WindowSizeChanged | Eof | HandleCommand byte

record telnet =
  tn_options :: "bool \<times> byte \<Rightarrow> opt_info option"
  tn_handlers :: "byte \<Rightarrow> telnet_handler option"
  tn_sendQueue :: "byte list"
  tn_charState :: CharState
  tn_command :: byte
  tn_option :: byte
  tn_data :: "byte list"
  tn_inputEvent :: bool
  tn_outputEvent :: bool
  tn_pendingRequests :: u32
  tn_requestTimeout :: int
  tn_timeout :: "int option"
  tn_eventTime :: int
  tn_type :: "byte list"
  tn_width :: u32
  tn_height :: u32
  tn_calls :: "telnet_call list"

definition BaseTelnetProtocol :: telnet where
  "BaseTelnetProtocol = \<lparr>tn_options = Map.empty, tn_handlers = Map.empty, tn_sendQueue = [], tn_charState = NORMAL, tn_command = CMD_NONE,
     tn_option = 0, tn_data = [], tn_inputEvent = True, tn_outputEvent = False, tn_pendingRequests = 0,
     tn_requestTimeout = 500000000, tn_timeout = None, tn_eventTime = 0, tn_type = [], tn_width = 0, tn_height = 0, tn_calls = []\<rparr>"

definition call :: "telnet_call \<Rightarrow> telnet \<Rightarrow> telnet" where
  "call c t = t\<lparr>tn_calls := tn_calls t @ [c]\<rparr>"

definition emit :: "byte \<Rightarrow> telnet \<Rightarrow> telnet" where
  "emit c = call (CharReceived c)"

section \<open>Sending\<close>

definition transmit :: "byte \<Rightarrow> telnet \<Rightarrow> telnet" where
  "transmit c t = t\<lparr>tn_sendQueue := tn_sendQueue t @ [c], tn_outputEvent := True\<rparr>"

definition tn_write_char :: "byte \<Rightarrow> telnet \<Rightarrow> telnet" where
  "tn_write_char c t =
     (if c = 13 then transmit 0 (transmit 13 t)
      else if c = 10 then transmit 10 (transmit 13 t)
      else if c = 255 then transmit 255 (transmit 255 t)
      else transmit c t)"

fun tn_write :: "byte list \<Rightarrow> telnet \<Rightarrow> telnet" where
  "tn_write [] t = t"
| "tn_write (c # cs) t = tn_write cs (tn_write_char c t)"

fun transmit_quoted :: "byte list \<Rightarrow> telnet \<Rightarrow> telnet" where
  "transmit_quoted [] t = t"
| "transmit_quoted (c # cs) t =
     transmit_quoted cs (if c = 255 then transmit 255 (transmit 255 t) else transmit c t)"

definition sendOptionParameters :: "byte \<Rightarrow> byte list \<Rightarrow> telnet \<Rightarrow> telnet" where
  "sendOptionParameters opt data t =
     transmit CMD_SE (transmit CMD_IAC (transmit_quoted data (transmit opt (transmit CMD_SB (transmit CMD_IAC t)))))"

text \<open>\<open>sendNOP\<close>, \<open>sendBRK\<close> and the other commands without an option.\<close>

definition sendCommand :: "byte \<Rightarrow> telnet \<Rightarrow> telnet" where
  "sendCommand c t = transmit c (transmit CMD_IAC t)"

section \<open>Requests\<close>

definition requestsPending :: "telnet \<Rightarrow> bool" where
  "requestsPending t \<longleftrightarrow> tn_pendingRequests t > 0"

definition incrementRequestCounter :: "telnet \<Rightarrow> telnet" where
  "incrementRequestCounter t =
     t\<lparr>tn_pendingRequests := tn_pendingRequests t + 1, tn_timeout := Some (tn_eventTime t + tn_requestTimeout t)\<rparr>"

definition decrementRequestCounter :: "telnet \<Rightarrow> telnet" where
  "decrementRequestCounter t =
     (if tn_pendingRequests t > 0 then
        let u = t\<lparr>tn_pendingRequests := tn_pendingRequests t - 1\<rparr>
        in if tn_pendingRequests u = 0 then call SetupComplete (u\<lparr>tn_timeout := None\<rparr>) else u
      else t)"

text \<open>The handler of the timer, which is no longer set when it is called.\<close>

definition tn_timeout_handler :: "telnet \<Rightarrow> telnet" where
  "tn_timeout_handler t =
     (let u = t\<lparr>tn_timeout := None\<rparr>
      in if tn_pendingRequests u > 0 then call SetupComplete (u\<lparr>tn_pendingRequests := 0\<rparr>) else u)"

section \<open>Option handlers\<close>

definition nextTerminalType :: "telnet \<Rightarrow> telnet" where
  "nextTerminalType t = sendOptionParameters 24 [1] t"

fun tn_v_init :: "telnet_handler \<Rightarrow> telnet \<Rightarrow> telnet" where
  "tn_v_init TerminalType t = incrementRequestCounter (nextTerminalType t)"
| "tn_v_init NAWS t = incrementRequestCounter t"

fun v_handleOptionParameters :: "(byte \<Rightarrow> byte) \<Rightarrow> telnet_handler \<Rightarrow> byte list \<Rightarrow> telnet \<Rightarrow> telnet" where
  "v_handleOptionParameters lower TerminalType data t =
     (if length data \<le> 0 then t
      else if data ! 0 = 0 then decrementRequestCounter (t\<lparr>tn_type := map lower (drop 1 data)\<rparr>)
      else t)"
| "v_handleOptionParameters lower NAWS data t =
     (if length data \<noteq> 4 then t
      else let u = t\<lparr>tn_width := push_bit 8 (ucast (data ! 0)) + ucast (data ! 1),
                     tn_height := push_bit 8 (ucast (data ! 2)) + ucast (data ! 3)\<rparr>
           in decrementRequestCounter (if \<not> requestsPending u then call WindowSizeChanged u else u))"

section \<open>Option negotiation\<close>

definition getOption :: "bool \<Rightarrow> byte \<Rightarrow> telnet \<Rightarrow> opt_info \<times> telnet" where
  "getOption loc opt t =
     (case tn_options t (loc, opt) of
        Some i \<Rightarrow> (i, t)
      | None \<Rightarrow> (OptInfo, t\<lparr>tn_options := (tn_options t)((loc, opt) \<mapsto> OptInfo)\<rparr>))"

definition setOption :: "bool \<Rightarrow> byte \<Rightarrow> opt_info \<Rightarrow> telnet \<Rightarrow> telnet" where
  "setOption loc opt i t = t\<lparr>tn_options := (tn_options t)((loc, opt) \<mapsto> i)\<rparr>"

definition transmit_option :: "bool \<Rightarrow> byte \<Rightarrow> bool \<Rightarrow> telnet \<Rightarrow> telnet" where
  "transmit_option loc opt enabled t =
     transmit opt (transmit ((if loc then CMD_WILL else CMD_DO) + (if enabled then 0 else 1)) (transmit CMD_IAC t))"

definition tn_request :: "bool \<Rightarrow> byte \<Rightarrow> bool \<Rightarrow> telnet \<Rightarrow> telnet" where
  "tn_request loc opt enabled t =
     (case getOption loc opt t of (i0, t) \<Rightarrow>
        let i = i0\<lparr>wantState := (if enabled then WANTED else DISABLED)\<rparr>
        in if enabled \<noteq> opt_enabled i
           then incrementRequestCounter (setOption loc opt (i\<lparr>optionState := REQUEST_SENT\<rparr>) (transmit_option loc opt enabled t))
           else setOption loc opt i t)"

definition init_handler :: "byte \<Rightarrow> telnet \<Rightarrow> telnet" where
  "init_handler opt t = (case tn_handlers t opt of None \<Rightarrow> t | Some h \<Rightarrow> tn_v_init h t)"

definition response :: "bool \<Rightarrow> byte \<Rightarrow> bool \<Rightarrow> telnet \<Rightarrow> telnet" where
  "response loc opt enabled t =
     (case getOption loc opt t of (i, t) \<Rightarrow>
        if optionState i = REQUEST_SENT then
          let j = i\<lparr>optionState := ACKNOWLEDGED, opt_enabled := enabled\<rparr>; u = setOption loc opt j t
          in decrementRequestCounter (if opt_enabled j then init_handler opt u else u)
        else if enabled \<noteq> opt_enabled i then
          let j = (if \<not> enabled \<or> wantState i = WANTED \<or> wantState i = ACCEPTED
                   then i\<lparr>optionState := ACKNOWLEDGED, opt_enabled := enabled\<rparr> else i);
              u = transmit_option loc opt (opt_enabled j) (setOption loc opt j t)
          in if opt_enabled j then init_handler opt u else u
        else t)"

definition requestLocalOption :: "byte \<Rightarrow> bool \<Rightarrow> telnet \<Rightarrow> telnet" where
  "requestLocalOption opt enabled t = tn_request True opt enabled t"

definition requestPeerOption :: "byte \<Rightarrow> bool \<Rightarrow> telnet \<Rightarrow> telnet" where
  "requestPeerOption opt enabled t = tn_request False opt enabled t"

definition acceptLocalOption :: "byte \<Rightarrow> bool \<Rightarrow> telnet \<Rightarrow> telnet" where
  "acceptLocalOption opt enabled t = (case getOption True opt t of (i, t) \<Rightarrow> setOption True opt (i\<lparr>wantState := ACCEPTED\<rparr>) t)"

definition acceptPeerOption :: "byte \<Rightarrow> bool \<Rightarrow> telnet \<Rightarrow> telnet" where
  "acceptPeerOption opt enabled t = (case getOption False opt t of (i, t) \<Rightarrow> setOption False opt (i\<lparr>wantState := ACCEPTED\<rparr>) t)"

definition localOption :: "byte \<Rightarrow> telnet \<Rightarrow> bool \<times> telnet" where
  "localOption opt t = map_prod opt_enabled id (getOption True opt t)"

definition peerOption :: "byte \<Rightarrow> telnet \<Rightarrow> bool \<times> telnet" where
  "peerOption opt t = map_prod opt_enabled id (getOption False opt t)"

fun OPTION_CODE :: "telnet_handler \<Rightarrow> byte" where
  "OPTION_CODE TerminalType = 24"
| "OPTION_CODE NAWS = 31"

text \<open>\<open>std::map::insert\<close> keeps an entry that is there.\<close>

definition registerHandler :: "telnet_handler \<Rightarrow> bool \<Rightarrow> telnet \<Rightarrow> telnet" where
  "registerHandler h request t =
     (let u = (if tn_handlers t (OPTION_CODE h) = None then t\<lparr>tn_handlers := (tn_handlers t)(OPTION_CODE h \<mapsto> h)\<rparr> else t)
      in if request then requestPeerOption (OPTION_CODE h) True u else u)"

section \<open>Receiving\<close>

definition processCommand :: "(byte \<Rightarrow> byte) \<Rightarrow> telnet \<Rightarrow> telnet" where
  "processCommand lower t =
     (let c = tn_command t in
      if c \<in> {CMD_NOP, CMD_BRK, CMD_IP, CMD_AO, CMD_AYT, CMD_EC, CMD_EL, CMD_GA} then call (HandleCommand c) t
      else if c = CMD_SB then
        (case tn_handlers t (tn_option t) of None \<Rightarrow> t | Some h \<Rightarrow> v_handleOptionParameters lower h (tn_data t) t)
      else if c = CMD_WILL \<or> c = CMD_WONT then response False (tn_option t) (c = CMD_WILL) t
      else if c = CMD_DO \<or> c = CMD_DONT then response True (tn_option t) (c = CMD_DO) t
      else t)"

definition handleNormalChar :: "byte \<Rightarrow> telnet \<Rightarrow> telnet" where
  "handleNormalChar c t =
     (if c = 13 then t\<lparr>tn_charState := CR_SEEN\<rparr>
      else if c = 255 then t\<lparr>tn_charState := IAC_SEEN\<rparr>
      else emit c t)"

definition handleOption :: "(byte \<Rightarrow> byte) \<Rightarrow> byte \<Rightarrow> telnet \<Rightarrow> telnet" where
  "handleOption lower c t = (processCommand lower (t\<lparr>tn_option := c\<rparr>))\<lparr>tn_charState := NORMAL\<rparr>"

definition handleSBOption :: "byte \<Rightarrow> telnet \<Rightarrow> telnet" where
  "handleSBOption c t = t\<lparr>tn_option := c, tn_charState := SB_DATA, tn_data := []\<rparr>"

definition handleSBData :: "byte \<Rightarrow> telnet \<Rightarrow> telnet" where
  "handleSBData c t = (if c = 255 then t\<lparr>tn_charState := SB_IAC_SEEN\<rparr> else t\<lparr>tn_data := tn_data t @ [c]\<rparr>)"

text \<open>
  \<open>handleCommand\<close>, \<open>handleCR\<close> and \<open>handleSBIAC\<close> set a state and hand the character back to \<open>handleChar\<close>.
  The state they set decides which function gets it, so that they are written in the order of these
  states, without recursion; \<open>redispatch\<close> below has the equations with \<open>handleChar\<close>.
\<close>

definition handleCommand :: "(byte \<Rightarrow> byte) \<Rightarrow> byte \<Rightarrow> telnet \<Rightarrow> telnet" where
  "handleCommand lower c t =
     (if c = CMD_SE then t\<lparr>tn_charState := NORMAL\<rparr>
      else if c \<in> {CMD_NOP, CMD_DM, CMD_BRK, CMD_IP, CMD_AO, CMD_AYT, CMD_EC, CMD_EL, CMD_GA} then
        (processCommand lower (t\<lparr>tn_command := c\<rparr>))\<lparr>tn_charState := NORMAL\<rparr>
      else if c = CMD_SB then t\<lparr>tn_command := CMD_SB, tn_charState := SB_OPTION\<rparr>
      else if c \<in> {CMD_WILL, CMD_WONT, CMD_DO, CMD_DONT} then t\<lparr>tn_command := c, tn_charState := EXPECT_OPTION\<rparr>
      else if c = CMD_IAC then emit CMD_IAC (t\<lparr>tn_charState := NORMAL\<rparr>)
      else handleNormalChar c ((emit CMD_IAC t)\<lparr>tn_charState := NORMAL\<rparr>))"

definition handleCR :: "byte \<Rightarrow> telnet \<Rightarrow> telnet" where
  "handleCR c t =
     (if c = 0 then (emit 13 t)\<lparr>tn_charState := NORMAL\<rparr>
      else if c = 10 then (emit 10 t)\<lparr>tn_charState := NORMAL\<rparr>
      else handleNormalChar c ((emit 13 t)\<lparr>tn_charState := NORMAL\<rparr>))"

definition handleSBIAC :: "(byte \<Rightarrow> byte) \<Rightarrow> byte \<Rightarrow> telnet \<Rightarrow> telnet" where
  "handleSBIAC lower c t =
     (if c = CMD_IAC then t\<lparr>tn_data := tn_data t @ [c], tn_charState := SB_DATA\<rparr>
      else if c = CMD_SE then (processCommand lower t)\<lparr>tn_charState := NORMAL\<rparr>
      else handleCommand lower c (t\<lparr>tn_charState := IAC_SEEN\<rparr>))"

definition handleChar :: "(byte \<Rightarrow> byte) \<Rightarrow> byte \<Rightarrow> telnet \<Rightarrow> telnet" where
  "handleChar lower c t =
     (case tn_charState t of
        NORMAL \<Rightarrow> handleNormalChar c t
      | IAC_SEEN \<Rightarrow> handleCommand lower c t
      | EXPECT_OPTION \<Rightarrow> handleOption lower c t
      | CR_SEEN \<Rightarrow> handleCR c t
      | SB_OPTION \<Rightarrow> handleSBOption c t
      | SB_DATA \<Rightarrow> handleSBData c t
      | SB_IAC_SEEN \<Rightarrow> handleSBIAC lower c t)"

lemma redispatch:
  "handleChar lower c (t\<lparr>tn_charState := NORMAL\<rparr>) = handleNormalChar c (t\<lparr>tn_charState := NORMAL\<rparr>)"
  "handleChar lower c (t\<lparr>tn_charState := IAC_SEEN\<rparr>) = handleCommand lower c (t\<lparr>tn_charState := IAC_SEEN\<rparr>)"
  by (simp_all add: handleChar_def)

fun handleChars :: "(byte \<Rightarrow> byte) \<Rightarrow> byte list \<Rightarrow> telnet \<Rightarrow> telnet" where
  "handleChars lower [] t = t"
| "handleChars lower (c # cs) t = handleChars lower cs (handleChar lower c t)"

text \<open>The handlers of the file events: the event and the end of file are what the scheduler and the socket report.\<close>

definition readHandler :: "(byte \<Rightarrow> byte) \<Rightarrow> bool \<Rightarrow> bool \<Rightarrow> byte list \<Rightarrow> telnet \<Rightarrow> telnet" where
  "readHandler lower ev_read eof data t =
     (if \<not> ev_read \<or> eof then call Eof (t\<lparr>tn_inputEvent := False\<rparr>) else handleChars lower data t)"

text \<open>\<open>n\<close> is the number of bytes the socket takes.\<close>

definition writeHandler :: "bool \<Rightarrow> nat \<Rightarrow> telnet \<Rightarrow> telnet" where
  "writeHandler ev_write n t =
     (if \<not> ev_write then call Eof (t\<lparr>tn_outputEvent := False, tn_inputEvent := False\<rparr>)
      else let u = t\<lparr>tn_sendQueue := drop n (tn_sendQueue t)\<rparr>
           in if tn_sendQueue u = [] then u\<lparr>tn_outputEvent := False\<rparr> else u)"

section \<open>The stream of messages\<close>

text \<open>
  What a peer sends, at the level of the protocol: characters, commands, option negotiation and option
  parameters; \<open>encode\<close> is their form on the wire.
\<close>

datatype telnet_msg = Character byte | Command byte | Negotiate byte byte | Parameters byte "byte list"

definition quote :: "byte list \<Rightarrow> byte list" where
  "quote data = concat (map (\<lambda>c. if c = 255 then [255, 255] else [c]) data)"

fun encode :: "telnet_msg \<Rightarrow> byte list" where
  "encode (Character c) = (if c = 13 then [13, 0] else if c = 10 then [13, 10] else if c = 255 then [255, 255] else [c])"
| "encode (Command c) = [CMD_IAC, c]"
| "encode (Negotiate c opt) = [CMD_IAC, c, opt]"
| "encode (Parameters opt data) = [CMD_IAC, CMD_SB, opt] @ quote data @ [CMD_IAC, CMD_SE]"

fun msg_ok :: "telnet_msg \<Rightarrow> bool" where
  "msg_ok (Command c) \<longleftrightarrow> c \<in> {CMD_NOP, CMD_DM, CMD_BRK, CMD_IP, CMD_AO, CMD_AYT, CMD_EC, CMD_EL, CMD_GA}"
| "msg_ok (Negotiate c opt) \<longleftrightarrow> c \<in> {CMD_WILL, CMD_WONT, CMD_DO, CMD_DONT}"
| "msg_ok _ \<longleftrightarrow> True"

text \<open>The effect of a message as a whole.\<close>

fun receive :: "(byte \<Rightarrow> byte) \<Rightarrow> telnet_msg \<Rightarrow> telnet \<Rightarrow> telnet" where
  "receive lower (Character c) t = emit c t"
| "receive lower (Command c) t = processCommand lower (t\<lparr>tn_command := c\<rparr>)"
| "receive lower (Negotiate c opt) t = processCommand lower (t\<lparr>tn_command := c, tn_option := opt\<rparr>)"
| "receive lower (Parameters opt data) t = processCommand lower (t\<lparr>tn_command := CMD_SB, tn_option := opt, tn_data := data\<rparr>)"

fun receives :: "(byte \<Rightarrow> byte) \<Rightarrow> telnet_msg list \<Rightarrow> telnet \<Rightarrow> telnet" where
  "receives lower [] t = t"
| "receives lower (m # ms) t = receives lower ms (receive lower m t)"

text \<open>No handler of a command looks at the state of the receiver.\<close>

lemma charState_commutes:
  "call k (t\<lparr>tn_charState := s\<rparr>) = (call k t)\<lparr>tn_charState := s\<rparr>"
  "transmit c (t\<lparr>tn_charState := s\<rparr>) = (transmit c t)\<lparr>tn_charState := s\<rparr>"
  "setOption l opt i (t\<lparr>tn_charState := s\<rparr>) = (setOption l opt i t)\<lparr>tn_charState := s\<rparr>"
  "incrementRequestCounter (t\<lparr>tn_charState := s\<rparr>) = (incrementRequestCounter t)\<lparr>tn_charState := s\<rparr>"
  "decrementRequestCounter (t\<lparr>tn_charState := s\<rparr>) = (decrementRequestCounter t)\<lparr>tn_charState := s\<rparr>"
  "getOption l opt (t\<lparr>tn_charState := s\<rparr>) = map_prod id (\<lambda>t. t\<lparr>tn_charState := s\<rparr>) (getOption l opt t)"
  by (simp_all add: call_def transmit_def setOption_def incrementRequestCounter_def decrementRequestCounter_def getOption_def Let_def
      split: option.split)

lemma charState_commutes_handlers:
  "transmit_option l opt e (t\<lparr>tn_charState := s\<rparr>) = (transmit_option l opt e t)\<lparr>tn_charState := s\<rparr>"
  "tn_v_init h (t\<lparr>tn_charState := s\<rparr>) = (tn_v_init h t)\<lparr>tn_charState := s\<rparr>"
  "init_handler opt (t\<lparr>tn_charState := s\<rparr>) = (init_handler opt t)\<lparr>tn_charState := s\<rparr>"
proof -
  show a: "tn_v_init h (t\<lparr>tn_charState := s\<rparr>) = (tn_v_init h t)\<lparr>tn_charState := s\<rparr>" for h
    by (cases h) (simp_all add: charState_commutes nextTerminalType_def sendOptionParameters_def)
  show "init_handler opt (t\<lparr>tn_charState := s\<rparr>) = (init_handler opt t)\<lparr>tn_charState := s\<rparr>"
    by (simp add: init_handler_def a split: option.split)
qed (simp add: transmit_option_def charState_commutes)

lemma response_charState: "response l opt e (t\<lparr>tn_charState := s\<rparr>) = (response l opt e t)\<lparr>tn_charState := s\<rparr>"
  by (cases "getOption l opt t") (simp add: response_def Let_def charState_commutes charState_commutes_handlers)

lemma parameters_charState:
  "v_handleOptionParameters lower h d (t\<lparr>tn_charState := s\<rparr>) = (v_handleOptionParameters lower h d t)\<lparr>tn_charState := s\<rparr>"
proof (cases h)
  case TerminalType
  have "decrementRequestCounter (t\<lparr>tn_charState := s, tn_type := ty\<rparr>) = (decrementRequestCounter (t\<lparr>tn_type := ty\<rparr>))\<lparr>tn_charState := s\<rparr>" for ty
    using charState_commutes(5) [where t = "t\<lparr>tn_type := ty\<rparr>" and s = s] by (cases t) simp
  then show ?thesis using TerminalType by simp
next
  case NAWS
  have "decrementRequestCounter (t\<lparr>tn_charState := s, tn_width := w, tn_height := g\<rparr>) =
      (decrementRequestCounter (t\<lparr>tn_width := w, tn_height := g\<rparr>))\<lparr>tn_charState := s\<rparr>"
    "decrementRequestCounter (call k (t\<lparr>tn_charState := s, tn_width := w, tn_height := g\<rparr>)) =
      (decrementRequestCounter (call k (t\<lparr>tn_width := w, tn_height := g\<rparr>)))\<lparr>tn_charState := s\<rparr>" for w g k
    using charState_commutes(5) [where t = "t\<lparr>tn_width := w, tn_height := g\<rparr>" and s = s]
      charState_commutes(5) [where t = "call k (t\<lparr>tn_width := w, tn_height := g\<rparr>)" and s = s] by (cases t, simp add: call_def)+
  then show ?thesis using NAWS by (simp add: Let_def requestsPending_def)
qed

lemma processCommand_charState: "processCommand lower (t\<lparr>tn_charState := s\<rparr>) = (processCommand lower t)\<lparr>tn_charState := s\<rparr>"
  by (simp add: processCommand_def Let_def charState_commutes response_charState parameters_charState split: option.split)

lemma processCommand_keeps [simp]: "tn_charState (processCommand lower t) = tn_charState t"
proof -
  have "processCommand lower (t\<lparr>tn_charState := tn_charState t\<rparr>) = (processCommand lower t)\<lparr>tn_charState := tn_charState t\<rparr>"
    by (rule processCommand_charState)
  then have "processCommand lower t = (processCommand lower t)\<lparr>tn_charState := tn_charState t\<rparr>" by simp
  then have "tn_charState (processCommand lower t) = tn_charState ((processCommand lower t)\<lparr>tn_charState := tn_charState t\<rparr>)" by (rule arg_cong)
  then show ?thesis by simp
qed

lemma handleChars_append: "handleChars lower (as @ bs) t = handleChars lower bs (handleChars lower as t)"
  by (induction as arbitrary: t) simp_all

text \<open>Option parameters are collected with their quotes removed.\<close>

lemma handleChars_quote:
  "tn_charState t = SB_DATA \<Longrightarrow> handleChars lower (quote data) t = t\<lparr>tn_data := tn_data t @ data\<rparr>"
proof (induction data arbitrary: t)
  case Nil
  then show ?case by (simp add: quote_def)
next
  case (Cons c data)
  define u where "u = t\<lparr>tn_data := tn_data t @ [c]\<rparr>"
  have q: "quote (c # data) = (if c = 255 then [255, 255] else [c]) @ quote data" by (simp add: quote_def)
  have "handleChars lower (if c = 255 then [255, 255] else [c]) t = u"
    using Cons.prems by (simp add: u_def handleChar_def handleSBData_def handleSBIAC_def CMD_IAC_def)
  then show ?case using Cons.IH [of u] Cons.prems by (simp add: q handleChars_append u_def)
qed

lemma normal_charState: "tn_charState t = NORMAL \<Longrightarrow> t\<lparr>tn_charState := NORMAL\<rparr> = t"
  by simp

lemma receive_normal [simp]: "tn_charState (receive lower m t) = tn_charState t"
  by (cases m) (simp_all add: emit_def call_def)

lemma handleChars_encode:
  assumes "msg_ok m" "tn_charState t = NORMAL"
  shows "handleChars lower (encode m) t = receive lower m t"
proof (cases m)
  case (Character c)
  then show ?thesis using assms(2)
    by (auto simp: handleChar_def handleNormalChar_def handleCR_def handleCommand_def CMD_defs emit_def call_def)
next
  case (Command c)
  have "processCommand lower (t\<lparr>tn_charState := IAC_SEEN, tn_command := c\<rparr>)\<lparr>tn_charState := NORMAL\<rparr> = processCommand lower (t\<lparr>tn_command := c\<rparr>)"
    using processCommand_charState [where lower = lower and t = "t\<lparr>tn_command := c\<rparr>" and s = IAC_SEEN] assms(2) by (cases t) simp
  then show ?thesis using assms Command
    by (auto simp: handleChar_def handleNormalChar_def handleCommand_def CMD_defs)
next
  case (Negotiate c opt)
  define u where "u = t\<lparr>tn_command := c, tn_charState := EXPECT_OPTION\<rparr>"
  have c: "c \<in> {CMD_WILL, CMD_WONT, CMD_DO, CMD_DONT}" using assms(1) Negotiate by simp
  have "handleChar lower CMD_IAC t = t\<lparr>tn_charState := IAC_SEEN\<rparr>" using assms(2) by (simp add: handleChar_def handleNormalChar_def CMD_defs)
  moreover have "handleChar lower c (t\<lparr>tn_charState := IAC_SEEN\<rparr>) = u"
    unfolding redispatch u_def using c by (cases t) (auto simp: handleCommand_def CMD_defs)
  moreover have "handleChar lower opt u = (processCommand lower (u\<lparr>tn_option := opt\<rparr>))\<lparr>tn_charState := NORMAL\<rparr>"
    by (simp add: u_def handleChar_def handleOption_def)
  ultimately have "handleChars lower (encode m) t = (processCommand lower (u\<lparr>tn_option := opt\<rparr>))\<lparr>tn_charState := NORMAL\<rparr>"
    by (simp add: Negotiate)
  moreover have "(processCommand lower (u\<lparr>tn_option := opt\<rparr>))\<lparr>tn_charState := NORMAL\<rparr> = processCommand lower (u\<lparr>tn_option := opt, tn_charState := NORMAL\<rparr>)"
    by (rule processCommand_charState [symmetric])
  moreover have "u\<lparr>tn_option := opt, tn_charState := NORMAL\<rparr> = t\<lparr>tn_command := c, tn_option := opt\<rparr>"
    using assms(2) by (cases t) (simp add: u_def)
  ultimately show ?thesis by (simp add: Negotiate)
next
  case (Parameters opt data)
  define u where "u = t\<lparr>tn_charState := SB_DATA, tn_command := CMD_SB, tn_option := opt, tn_data := []\<rparr>"
  have a: "handleChars lower [CMD_IAC, CMD_SB, opt] t = u"
    using assms(2) by (simp add: u_def handleChar_def handleNormalChar_def handleCommand_def handleSBOption_def CMD_defs)
  have b: "handleChars lower (quote data) u = u\<lparr>tn_data := data\<rparr>" using handleChars_quote [of u lower data] by (simp add: u_def)
  have c: "handleChars lower [CMD_IAC, CMD_SE] (u\<lparr>tn_data := data\<rparr>) =
      processCommand lower (t\<lparr>tn_charState := SB_IAC_SEEN, tn_command := CMD_SB, tn_option := opt, tn_data := data\<rparr>)\<lparr>tn_charState := NORMAL\<rparr>"
    by (cases t) (simp add: u_def handleChar_def handleSBData_def handleSBIAC_def CMD_defs)
  have "processCommand lower (t\<lparr>tn_charState := SB_IAC_SEEN, tn_command := CMD_SB, tn_option := opt, tn_data := data\<rparr>)\<lparr>tn_charState := NORMAL\<rparr> =
      processCommand lower (t\<lparr>tn_command := CMD_SB, tn_option := opt, tn_data := data\<rparr>)"
    using processCommand_charState [where lower = lower and t = "t\<lparr>tn_command := CMD_SB, tn_option := opt, tn_data := data\<rparr>" and s = SB_IAC_SEEN] assms(2) by (cases t) simp
  then show ?thesis unfolding Parameters encode.simps handleChars_append a b c by simp
qed

lemma handleChars_stream:
  assumes "list_all msg_ok ms" "tn_charState t = NORMAL"
  shows "handleChars lower (concat (map encode ms)) t = receives lower ms t \<and> tn_charState (receives lower ms t) = NORMAL"
  using assms by (induction ms arbitrary: t) (simp_all add: handleChars_append handleChars_encode)

text \<open>
  C23: The byte-wise receiver implements the protocol of messages: for every sequence of characters,
  commands, negotiations and option parameters, taking in the bytes of their encodings one by one has
  the effect of handling the messages one after the other, and leaves the receiver ready for the next
  message.
\<close>

theorem telnet_stream_refines:
  assumes "list_all msg_ok ms" "tn_charState t = NORMAL"
  shows "handleChars lower (concat (map encode ms)) t = receives lower ms t \<and>
    tn_charState (receives lower ms t) = NORMAL"
  by (rule handleChars_stream [OF assms])

theorem telnet_stream_refines_witness:
  "handleChars id (concat (map encode [Character 65, Parameters 31 [255, 0, 0, 80], Character 10, Command CMD_AYT])) BaseTelnetProtocol =
     receives id [Character 65, Parameters 31 [255, 0, 0, 80], Character 10, Command CMD_AYT] BaseTelnetProtocol"
proof -
  have "list_all msg_ok [Character 65, Parameters 31 [255, 0, 0, 80], Character 10, Command CMD_AYT]" "tn_charState BaseTelnetProtocol = NORMAL"
    by (simp_all add: BaseTelnetProtocol_def)
  then show ?thesis using telnet_stream_refines by blast
qed

text \<open>What is queued by the operations that send.\<close>

lemma transmit_queue [simp]: "tn_sendQueue (transmit c t) = tn_sendQueue t @ [c]"
  by (simp add: transmit_def)

lemma tn_write_queue: "tn_sendQueue (tn_write s t) = tn_sendQueue t @ concat (map (encode \<circ> Character) s)"
  by (induction s t rule: tn_write.induct) (simp_all add: tn_write_char_def)

lemma transmit_quoted_queue: "tn_sendQueue (transmit_quoted d t) = tn_sendQueue t @ quote d"
  by (induction d t rule: transmit_quoted.induct) (simp_all add: quote_def)

lemma sendOptionParameters_queue: "tn_sendQueue (sendOptionParameters opt d t) = tn_sendQueue t @ encode (Parameters opt d)"
  by (simp add: sendOptionParameters_def transmit_quoted_queue)

lemma sendCommand_queue: "tn_sendQueue (sendCommand c t) = tn_sendQueue t @ encode (Command c)"
  by (simp add: sendCommand_def)

lemma transmit_option_queue:
  "tn_sendQueue (transmit_option l opt e t) = tn_sendQueue t @ encode (Negotiate ((if l then CMD_WILL else CMD_DO) + (if e then 0 else 1)) opt)"
  by (simp add: transmit_option_def)

lemma receives_characters: "tn_calls (receives lower (map Character s) t) = tn_calls t @ map CharReceived s"
  by (induction s arbitrary: t) (simp_all add: emit_def call_def)

text \<open>
  Text that is written on one side is received unchanged on the other: the calls of
  \<open>v_charReceived\<close> are the characters that were written, whatever they are (carriage returns, newlines
  and the byte 255 are quoted and unquoted), and option parameters reach the handler of their option
  as they were given.
\<close>

theorem telnet_text_roundtrip:
  assumes "tn_sendQueue a = []" "tn_charState b = NORMAL" "tn_handlers b opt = Some h"
  shows "tn_calls (readHandler lower True False (tn_sendQueue (tn_write s a)) b) = tn_calls b @ map CharReceived s \<and>
    readHandler lower True False (tn_sendQueue (sendOptionParameters opt d a)) b =
      v_handleOptionParameters lower h d (b\<lparr>tn_command := CMD_SB, tn_option := opt, tn_data := d\<rparr>)"
proof -
  have "list_all msg_ok (map Character s)" by (simp add: list_all_iff)
  then have "handleChars lower (concat (map encode (map Character s))) b = receives lower (map Character s) b"
    using handleChars_stream assms(2) by blast
  then have "tn_calls (readHandler lower True False (tn_sendQueue (tn_write s a)) b) = tn_calls b @ map CharReceived s"
    by (simp add: readHandler_def tn_write_queue assms(1) receives_characters)
  moreover have "handleChars lower (encode (Parameters opt d)) b = v_handleOptionParameters lower h d (b\<lparr>tn_command := CMD_SB, tn_option := opt, tn_data := d\<rparr>)"
    using handleChars_encode [of "Parameters opt d" b lower] assms(2,3) by (simp add: processCommand_def Let_def CMD_defs)
  ultimately show ?thesis by (simp add: readHandler_def sendOptionParameters_queue assms(1) del: encode.simps)
qed

theorem telnet_text_roundtrip_witness:
  "tn_calls (readHandler id True False (tn_sendQueue (tn_write [13, 255, 10] BaseTelnetProtocol)) (registerHandler NAWS True BaseTelnetProtocol)) =
     [CharReceived 13, CharReceived 255, CharReceived 10]"
proof -
  have "tn_sendQueue BaseTelnetProtocol = []" "tn_charState (registerHandler NAWS True BaseTelnetProtocol) = NORMAL"
    "tn_handlers (registerHandler NAWS True BaseTelnetProtocol) 31 = Some NAWS" "tn_calls (registerHandler NAWS True BaseTelnetProtocol) = []"
    by (simp_all add: registerHandler_def requestPeerOption_def tn_request_def getOption_def setOption_def transmit_option_def transmit_def
        incrementRequestCounter_def BaseTelnetProtocol_def OptInfo_def)
  then show ?thesis
    using telnet_text_roundtrip [of BaseTelnetProtocol "registerHandler NAWS True BaseTelnetProtocol" 31 NAWS id "[13, 255, 10]" "[]"] by simp
qed

section \<open>Negotiation between two peers\<close>

definition opt_of :: "telnet \<Rightarrow> bool \<Rightarrow> byte \<Rightarrow> opt_info" where
  "opt_of t l opt = (case tn_options t (l, opt) of None \<Rightarrow> OptInfo | Some i \<Rightarrow> i)"

lemma getOption_opt: "getOption l opt t = (opt_of t l opt, t\<lparr>tn_options := (tn_options t)((l, opt) \<mapsto> opt_of t l opt)\<rparr>)"
  by (simp add: getOption_def opt_of_def fun_upd_idem split: option.split)

text \<open>
  One request: \<open>a\<close> asks for an option, \<open>b\<close> takes in what was sent, \<open>a\<close> takes in the answer. The option
  is local to \<open>a\<close> or to \<open>b\<close>; for the other side it is one of the peer.
\<close>

definition negotiate :: "(byte \<Rightarrow> byte) \<Rightarrow> bool \<Rightarrow> byte \<Rightarrow> bool \<Rightarrow> telnet \<Rightarrow> telnet \<Rightarrow> telnet \<times> telnet" where
  "negotiate lower l opt e a b =
     (let a1 = tn_request l opt e a; b1 = readHandler lower True False (tn_sendQueue a1) b
      in (readHandler lower True False (tn_sendQueue b1) (a1\<lparr>tn_sendQueue := []\<rparr>), b1))"

lemma receive_negotiate:
  "receive lower (Negotiate ((if l then CMD_WILL else CMD_DO) + (if e then 0 else 1)) opt) t =
     response (\<not> l) opt e (t\<lparr>tn_command := (if l then CMD_WILL else CMD_DO) + (if e then 0 else 1), tn_option := opt\<rparr>)"
  by (simp add: processCommand_def Let_def CMD_defs)

lemma negotiate_msg_ok: "msg_ok (Negotiate ((if l then CMD_WILL else CMD_DO) + (if e then 0 else 1)) opt)"
  by (simp add: CMD_defs)

text \<open>Taking in one answer.\<close>

lemma handleChars_negotiate:
  assumes "tn_charState t = NORMAL"
  shows "handleChars lower (encode (Negotiate ((if l then CMD_WILL else CMD_DO) + (if e then 0 else 1)) opt)) t =
     response (\<not> l) opt e (t\<lparr>tn_command := (if l then CMD_WILL else CMD_DO) + (if e then 0 else 1), tn_option := opt\<rparr>)"
  using handleChars_encode [OF negotiate_msg_ok assms] by (simp only: receive_negotiate)

definition accepts :: "opt_info \<Rightarrow> bool \<Rightarrow> bool" where
  "accepts i e \<longleftrightarrow> \<not> e \<or> wantState i = WANTED \<or> wantState i = ACCEPTED"

lemma response_to_request:
  assumes "optionState (opt_of t l opt) \<noteq> REQUEST_SENT" "opt_enabled (opt_of t l opt) \<noteq> e" "tn_handlers t opt = None"
  shows "opt_enabled (opt_of (response l opt e t) l opt) = (e \<and> accepts (opt_of t l opt) e)"
    "tn_sendQueue (response l opt e t) =
       tn_sendQueue t @ encode (Negotiate ((if l then CMD_WILL else CMD_DO) + (if e \<and> accepts (opt_of t l opt) e then 0 else 1)) opt)"
  using assms by (auto simp: response_def getOption_opt Let_def init_handler_def transmit_option_def setOption_def accepts_def opt_of_def transmit_def)

lemma response_to_reply:
  assumes "optionState (opt_of t l opt) = REQUEST_SENT" "tn_handlers t opt = None"
  shows "response l opt e t =
    decrementRequestCounter (setOption l opt ((opt_of t l opt)\<lparr>optionState := ACKNOWLEDGED, opt_enabled := e\<rparr>) t)"
  using assms by (simp add: response_def getOption_opt Let_def init_handler_def setOption_def)

lemma decrement_keeps [simp]:
  "tn_options (decrementRequestCounter t) = tn_options t" "tn_sendQueue (decrementRequestCounter t) = tn_sendQueue t"
  by (simp_all add: decrementRequestCounter_def Let_def call_def)



section \<open>Invariant\<close>

text \<open>
  What is queued is going to be sent, as long as the connection is up, and a request that is pending
  has a timer that ends the wait.
\<close>

definition tn_inv :: "telnet \<Rightarrow> bool" where
  "tn_inv t \<longleftrightarrow> (tn_sendQueue t \<noteq> [] \<longrightarrow> tn_outputEvent t \<or> Eof \<in> set (tn_calls t)) \<and>
     (tn_pendingRequests t \<noteq> 0 \<longrightarrow> tn_timeout t \<noteq> None)"

lemma tn_inv_steps [invar_intros]:
  "tn_inv t \<Longrightarrow> tn_inv (call k t)"
  "tn_inv t \<Longrightarrow> tn_inv (transmit c t)"
  "tn_inv t \<Longrightarrow> tn_inv (setOption l opt i t)"
  "tn_inv t \<Longrightarrow> tn_inv (incrementRequestCounter t)"
  "tn_inv t \<Longrightarrow> tn_inv (decrementRequestCounter t)"
  "tn_inv t \<Longrightarrow> tn_inv (snd (getOption l opt t))"
  "tn_inv t \<Longrightarrow> tn_inv (tn_timeout_handler t)"
  by (auto simp: tn_inv_def call_def transmit_def setOption_def incrementRequestCounter_def decrementRequestCounter_def getOption_def
      tn_timeout_handler_def Let_def word_gt_0 split: option.split)

lemma tn_inv_fields [invar_intros]:
  "tn_inv t \<Longrightarrow> tn_inv (t\<lparr>tn_charState := s\<rparr>)" "tn_inv t \<Longrightarrow> tn_inv (t\<lparr>tn_command := c\<rparr>)"
  "tn_inv t \<Longrightarrow> tn_inv (t\<lparr>tn_option := c\<rparr>)" "tn_inv t \<Longrightarrow> tn_inv (t\<lparr>tn_data := d\<rparr>)" "tn_inv t \<Longrightarrow> tn_inv (t\<lparr>tn_type := d\<rparr>)"
  "tn_inv t \<Longrightarrow> tn_inv (t\<lparr>tn_width := w\<rparr>)" "tn_inv t \<Longrightarrow> tn_inv (t\<lparr>tn_height := w\<rparr>)" "tn_inv t \<Longrightarrow> tn_inv (t\<lparr>tn_handlers := h\<rparr>)"
  "tn_inv t \<Longrightarrow> tn_inv (t\<lparr>tn_eventTime := n\<rparr>)" "tn_inv t \<Longrightarrow> tn_inv (t\<lparr>tn_inputEvent := g\<rparr>)" "tn_inv t \<Longrightarrow> tn_inv (t\<lparr>tn_options := opts\<rparr>)"
  by (simp_all add: tn_inv_def)

lemma tn_inv_quoted [invar_intros]: "tn_inv t \<Longrightarrow> tn_inv (transmit_quoted d t)"
  by (induction d t rule: transmit_quoted.induct) (simp_all add: tn_inv_steps)

lemma tn_inv_write [invar_intros]: "tn_inv t \<Longrightarrow> tn_inv (tn_write s t)"
  by (induction s t rule: tn_write.induct) (simp_all add: tn_write_char_def tn_inv_steps)

lemma tn_inv_sends [invar_intros]:
  "tn_inv t \<Longrightarrow> tn_inv (sendOptionParameters opt d t)" "tn_inv t \<Longrightarrow> tn_inv (sendCommand c t)" "tn_inv t \<Longrightarrow> tn_inv (transmit_option l opt e t)"
  unfolding sendOptionParameters_def sendCommand_def transmit_option_def by (intro invar_intros; assumption)+

lemma tn_inv_handlers [invar_intros]:
  "tn_inv t \<Longrightarrow> tn_inv (tn_v_init h t)" "tn_inv t \<Longrightarrow> tn_inv (init_handler opt t)" "tn_inv t \<Longrightarrow> tn_inv (v_handleOptionParameters lower h d t)"
proof -
  show a: "tn_inv t \<Longrightarrow> tn_inv (tn_v_init h t)" for h by (cases h) (simp_all add: nextTerminalType_def invar_intros)
  show "tn_inv t \<Longrightarrow> tn_inv (init_handler opt t)" using a by (simp add: init_handler_def split: option.split)
  show "tn_inv t \<Longrightarrow> tn_inv (v_handleOptionParameters lower h d t)" by (cases h) (simp_all add: Let_def invar_intros)
qed

lemma tn_inv_request [invar_intros]: "tn_inv t \<Longrightarrow> tn_inv (tn_request l opt e t)"
  by (simp add: tn_request_def getOption_opt Let_def invar_intros)

lemma tn_inv_response [invar_intros]: "tn_inv t \<Longrightarrow> tn_inv (response l opt e t)"
  by (simp add: response_def getOption_opt Let_def invar_intros)

lemma tn_inv_processCommand [invar_intros]: "tn_inv t \<Longrightarrow> tn_inv (processCommand lower t)"
  by (simp add: processCommand_def Let_def invar_intros split: option.split)

lemma tn_inv_handleChar [invar_intros]: "tn_inv t \<Longrightarrow> tn_inv (handleChar lower c t)"
proof -
  assume t: "tn_inv t"
  have n: "tn_inv u \<Longrightarrow> tn_inv (handleNormalChar c u)" for u by (simp add: handleNormalChar_def emit_def invar_intros)
  have k: "tn_inv u \<Longrightarrow> tn_inv (handleCommand lower c u)" for u
    unfolding handleCommand_def by (simp add: n emit_def invar_intros del: insert_iff)
  show ?thesis
    using t unfolding handleChar_def handleCR_def handleSBIAC_def handleOption_def handleSBOption_def handleSBData_def
    by (cases "tn_charState t") (simp_all add: n k emit_def invar_intros)
qed

lemma tn_inv_handleChars [invar_intros]: "tn_inv t \<Longrightarrow> tn_inv (handleChars lower cs t)"
  by (induction cs arbitrary: t) (simp_all add: invar_intros)

lemma tn_inv_events [invar_intros]:
  "tn_inv t \<Longrightarrow> tn_inv (readHandler lower ev_read eof d t)" "tn_inv t \<Longrightarrow> tn_inv (writeHandler ev_write n t)"
  by (simp add: readHandler_def invar_intros) (auto simp: tn_inv_def writeHandler_def Let_def call_def)

text \<open>The life of a telnet object: what the application calls and what the scheduler reports, in any order.\<close>

inductive telnet_reach :: "(byte \<Rightarrow> byte) \<Rightarrow> telnet \<Rightarrow> bool" for lower where
  start: "telnet_reach lower BaseTelnetProtocol"
| handler: "telnet_reach lower t \<Longrightarrow> telnet_reach lower (registerHandler h request t)"
| put: "telnet_reach lower t \<Longrightarrow> telnet_reach lower (tn_write s t)"
| params: "telnet_reach lower t \<Longrightarrow> telnet_reach lower (sendOptionParameters opt d t)"
| command: "telnet_reach lower t \<Longrightarrow> telnet_reach lower (sendCommand c t)"
| request: "telnet_reach lower t \<Longrightarrow> telnet_reach lower (tn_request l opt e t)"
| accept_local: "telnet_reach lower t \<Longrightarrow> telnet_reach lower (acceptLocalOption opt e t)"
| accept_peer: "telnet_reach lower t \<Longrightarrow> telnet_reach lower (acceptPeerOption opt e t)"
| time: "telnet_reach lower t \<Longrightarrow> telnet_reach lower (t\<lparr>tn_eventTime := n\<rparr>)"
| reading: "telnet_reach lower t \<Longrightarrow> telnet_reach lower (readHandler lower ev_read eof d t)"
| writing: "telnet_reach lower t \<Longrightarrow> telnet_reach lower (writeHandler ev_write k t)"
| timer: "telnet_reach lower t \<Longrightarrow> tn_timeout t \<noteq> None \<Longrightarrow> telnet_reach lower (tn_timeout_handler t)"

text \<open>
  In every state a telnet object gets into, bytes that are queued will be sent: the output event is
  enabled, unless the end of the connection has been reported. And a wait for the peer ends: as long as
  requests are pending the timer is set, and when it expires the application is told that the setup is
  complete.
\<close>

theorem telnet_never_stuck:
  assumes "telnet_reach lower t"
  shows "(tn_sendQueue t \<noteq> [] \<longrightarrow> tn_outputEvent t \<or> Eof \<in> set (tn_calls t)) \<and>
    (tn_pendingRequests t \<noteq> 0 \<longrightarrow> tn_timeout t \<noteq> None \<and> SetupComplete \<in> set (tn_calls (tn_timeout_handler t)) \<and>
      tn_pendingRequests (tn_timeout_handler t) = 0)"
proof -
  have "tn_inv t" using assms
  proof induction
    case start
    then show ?case by (simp add: tn_inv_def BaseTelnetProtocol_def)
  qed (simp_all add: registerHandler_def requestPeerOption_def acceptLocalOption_def acceptPeerOption_def getOption_opt Let_def invar_intros)
  then show ?thesis by (auto simp: tn_inv_def tn_timeout_handler_def call_def Let_def word_gt_0)
qed

theorem telnet_never_stuck_witness:
  "tn_outputEvent (registerHandler NAWS True BaseTelnetProtocol) \<or> Eof \<in> set (tn_calls (registerHandler NAWS True BaseTelnetProtocol))"
proof -
  have "telnet_reach id (registerHandler NAWS True BaseTelnetProtocol)" by (rule telnet_reach.handler [OF telnet_reach.start])
  moreover have "tn_sendQueue (registerHandler NAWS True BaseTelnetProtocol) \<noteq> []"
    by (simp add: registerHandler_def requestPeerOption_def tn_request_def getOption_def setOption_def transmit_option_def transmit_def
        incrementRequestCounter_def BaseTelnetProtocol_def OptInfo_def)
  ultimately show ?thesis using telnet_never_stuck by blast
qed

text \<open>
  Two ways in which the code does not keep to what is asked: an option that is no longer accepted is
  still accepted, and a request that is taken back before the answer arrives is carried out.
\<close>

lemma accept_ignores_flag: "acceptLocalOption opt False t = acceptLocalOption opt True t" "acceptPeerOption opt False t = acceptPeerOption opt True t"
  by (simp_all add: acceptLocalOption_def acceptPeerOption_def)

lemma request_taken_back:
  assumes "\<not> opt_enabled (opt_of t l opt)" "tn_handlers t opt = None" "u = tn_request l opt False (tn_request l opt True t)"
  shows "tn_sendQueue u = tn_sendQueue (tn_request l opt True t) \<and> opt_enabled (opt_of (response l opt True u) l opt)"
proof -
  have "optionState (opt_of u l opt) = REQUEST_SENT" "tn_handlers u opt = None" "tn_sendQueue u = tn_sendQueue (tn_request l opt True t)"
    using assms by (simp_all add: tn_request_def getOption_opt Let_def incrementRequestCounter_def setOption_def transmit_option_def transmit_def opt_of_def)
  then show ?thesis by (simp add: response_to_reply setOption_def opt_of_def)
qed

end
