(* ===== verification/Line_Editor.thy ===== *)
theory Line_Editor
  imports Senf_Prelude
begin

text \<open>
  The line editor of the console, \<open>senf/Utils/Termlib/Editor.*\<close>, and the key table of \<open>Terminfo.cc\<close>.

  What is written to the terminal is a list of commands: a character, or a capability of the terminal
  (its terminfo string, with the number it was formatted with). The flag \<open>ed_failed\<close> is set when a
  capability is written that the terminal does not have: the program raises an exception there.
  The functions that are bound to keys are a data type; the completers and the function that is called with
  an accepted line are arguments. Differences of \<open>unsigned\<close> numbers wrap; texts are shorter than \<open>2 ^ 32\<close>.
\<close>

section \<open>The terminal\<close>

datatype capability =
  ClrEol | ParmRightCursor | CursorRight | ParmLeftCursor | CursorLeft | EnterBoldMode | ExitAttributeMode |
  ClearScreen | ParmDownCursor | CursorDown | ParmUpCursor | CursorUp | KeypadXmit

datatype tcmd = Ch char | Cap capability | CapN capability nat

datatype binding =
  selfInsertCommand | forwardChar | backwardChar | acceptLine | acceptWithRepeat | backwardDeleteChar | deleteCharCmd |
  beginningOfLine | endOfLine | deleteToEndOfLine | restartEdit | prevHistoryCmd | nextHistoryCmd | clearScreenCmd | complete nat

record editor =
  ed_caps :: "capability \<Rightarrow> bool"
  ed_width :: nat
  ed_height :: nat
  ed_out :: "tcmd list"
  ed_failed :: bool
  ed_column :: nat
  ed_displayHeight :: nat
  ed_line :: nat
  ed_enabled :: bool
  ed_redisplay :: bool
  ed_prompt :: string
  ed_promptWidth :: nat
  ed_editWidth :: nat
  ed_text :: string
  ed_point :: nat
  ed_displayPos :: nat
  ed_lastKey :: int
  ed_bindings :: "int \<Rightarrow> binding option"
  ed_history :: "string list"
  ed_historyPoint :: nat
  ed_aux :: "string list"

definition usub :: "nat \<Rightarrow> nat \<Rightarrow> nat" where
  "usub a b = nat ((int a - int b) mod 2 ^ 32)"

lemma usub_minus [simp]: "b \<le> a \<Longrightarrow> a - b < 2 ^ 32 \<Longrightarrow> usub a b = a - b"
  by (simp add: usub_def flip: of_nat_diff)

section \<open>Moving and writing (BaseEditor)\<close>

definition ed_write :: "tcmd list \<Rightarrow> editor \<Rightarrow> editor" where
  "ed_write cs e = e\<lparr>ed_out := ed_out e @ cs\<rparr>"

definition ed_writes :: "string \<Rightarrow> editor \<Rightarrow> editor" where
  "ed_writes s = ed_write (map Ch s)"

definition ed_cap :: "capability \<Rightarrow> nat \<Rightarrow> editor \<Rightarrow> editor" where
  "ed_cap c n e = (if ed_caps e c then ed_write (replicate n (Cap c)) e else if n = 0 then e else e\<lparr>ed_failed := True\<rparr>)"

definition toColumn :: "nat \<Rightarrow> editor \<Rightarrow> editor" where
  "toColumn c0 e =
     (let c = (if c0 \<ge> ed_width e then ed_width e else c0)
      in if c > ed_column e
         then (if ed_caps e ParmRightCursor then ed_write [CapN ParmRightCursor (c - ed_column e)] e
               else ed_cap CursorRight (c - ed_column e) e)\<lparr>ed_column := c\<rparr>
         else if c < ed_column e
         then (if ed_caps e ParmLeftCursor then ed_write [CapN ParmLeftCursor (ed_column e - c)] e
               else ed_cap CursorLeft (ed_column e - c) e)\<lparr>ed_column := c\<rparr>
         else e)"

definition put_char :: "char \<Rightarrow> editor \<Rightarrow> editor" where
  "put_char ch e = (if ed_column e \<ge> usub (ed_width e) 1 then e else (ed_writes [ch] e)\<lparr>ed_column := ed_column e + 1\<rparr>)"

definition put_text :: "string \<Rightarrow> editor \<Rightarrow> editor" where
  "put_text t e =
     (let room = usub (usub (ed_width e) (ed_column e)) 1
      in if length t > room then (ed_writes (take room t) e)\<lparr>ed_column := usub (ed_width e) 1\<rparr>
         else (ed_writes t e)\<lparr>ed_column := ed_column e + length t\<rparr>)"

definition clearLine :: "editor \<Rightarrow> editor" where
  "clearLine e = (ed_cap ClrEol 1 (ed_writes [CHR 0x0D] e))\<lparr>ed_column := 0\<rparr>"

definition setBold :: "editor \<Rightarrow> editor" where
  "setBold e = (if ed_caps e EnterBoldMode \<and> ed_caps e ExitAttributeMode then ed_cap EnterBoldMode 1 e else e)"

definition setNormal :: "editor \<Rightarrow> editor" where
  "setNormal e = (if ed_caps e EnterBoldMode \<and> ed_caps e ExitAttributeMode then ed_cap ExitAttributeMode 1 e else e)"

definition maybeClrScr :: "editor \<Rightarrow> editor" where
  "maybeClrScr e = (if ed_caps e ClearScreen then ed_cap ClearScreen 1 e else e)"

text \<open>New lines below the display area are opened one by one.\<close>

fun open_lines :: "nat \<Rightarrow> editor \<Rightarrow> editor" where
  "open_lines 0 e = e"
| "open_lines (Suc n) e =
     open_lines n ((ed_cap ClrEol 1 (ed_writes [CHR 0x0A] e))\<lparr>ed_displayHeight := ed_displayHeight e + 1, ed_line := ed_line e + 1\<rparr>)"

definition toLine :: "nat \<Rightarrow> editor \<Rightarrow> editor" where
  "toLine l0 e =
     (let l = (if l0 \<ge> ed_height e then usub (ed_height e) 1 else l0);
          ll = (if l \<ge> ed_displayHeight e then usub (ed_displayHeight e) 1 else l);
          e1 = (if ll > ed_line e
                then (if ed_caps e ParmDownCursor then ed_write [CapN ParmDownCursor (ll - ed_line e)] e
                      else ed_cap CursorDown (ll - ed_line e) e)\<lparr>ed_line := ll\<rparr>
                else if ll < ed_line e
                then (if ed_caps e ParmUpCursor then ed_write [CapN ParmUpCursor (ed_line e - ll)] e
                      else ed_cap CursorUp (ed_line e - ll) e)\<lparr>ed_line := ll\<rparr>
                else e)
      in (ed_writes [CHR 0x0D] (open_lines (l - ed_line e1) e1))\<lparr>ed_column := 0\<rparr>)"

definition ed_reset :: "editor \<Rightarrow> editor" where
  "ed_reset e = (toLine 0 (fold (\<lambda>i e. clearLine (toLine i e)) [1..<ed_displayHeight e] e))\<lparr>ed_displayHeight := 1\<rparr>"

definition newline :: "editor \<Rightarrow> editor" where
  "newline e = (ed_cap ClrEol 1 (ed_writes [CHR 0x0A] (ed_reset e)))\<lparr>ed_column := 0\<rparr>"

section \<open>The line editor\<close>

definition default_bindings :: "int \<Rightarrow> binding option" where
  "default_bindings = [0x0D \<mapsto> acceptLine, 0xE06E \<mapsto> forwardChar, 0xE05C \<mapsto> backwardChar, 0xE090 \<mapsto> prevHistoryCmd, 0xE011 \<mapsto> nextHistoryCmd,
     0xE001 \<mapsto> backwardDeleteChar, 0xE00F \<mapsto> deleteCharCmd, 0xE059 \<mapsto> beginningOfLine, 0xE014 \<mapsto> endOfLine,
     0x0B \<mapsto> deleteToEndOfLine, 0x01 \<mapsto> beginningOfLine, 0x05 \<mapsto> endOfLine, 0x04 \<mapsto> deleteCharCmd, 0x03 \<mapsto> restartEdit, 0x0C \<mapsto> clearScreenCmd]"

definition new_editor :: "(capability \<Rightarrow> bool) \<Rightarrow> nat \<Rightarrow> nat \<Rightarrow> editor" where
  "new_editor caps w h =
     \<lparr>ed_caps = caps, ed_width = w, ed_height = h, ed_out = [], ed_failed = False, ed_column = 0, ed_displayHeight = 1, ed_line = 0,
      ed_enabled = False, ed_redisplay = False, ed_prompt = ''$'', ed_promptWidth = 1, ed_editWidth = 0, ed_text = [], ed_point = 0,
      ed_displayPos = 0, ed_lastKey = 0, ed_bindings = default_bindings, ed_history = [], ed_historyPoint = 0, ed_aux = []\<rparr>"

definition redisplay :: "editor \<Rightarrow> editor" where
  "redisplay e = e\<lparr>ed_redisplay := True\<rparr>"

definition set_prompt :: "string \<Rightarrow> editor \<Rightarrow> editor" where
  "set_prompt text e =
     (let pw = (if length text > usub (ed_width e) 4 \<and> ed_width e > 4 then usub (ed_width e) 4 else length text);
          e1 = e\<lparr>ed_prompt := text, ed_promptWidth := pw, ed_editWidth := usub (usub (ed_width e) pw) 3\<rparr>
      in if ed_enabled e1 then redisplay e1 else e1)"

definition set_text :: "string \<Rightarrow> nat \<Rightarrow> editor \<Rightarrow> editor" where
  "set_text text pos e =
     (let p = (if pos > length text then length text else pos)
      in redisplay (e\<lparr>ed_text := text, ed_point := p, ed_displayPos := (if p > ed_editWidth e then p - ed_editWidth e else 0)\<rparr>))"

definition forceRedisplay :: "editor \<Rightarrow> editor" where
  "forceRedisplay e =
     (if \<not> ed_enabled e then e
      else let pw = ed_promptWidth e; dp = ed_displayPos e; ew = ed_editWidth e;
               e1 = setBold (clearLine e);
               e2 = put_text (if length (ed_prompt e) > pw then drop (length (ed_prompt e) - pw) (ed_prompt e) else ed_prompt e) e1;
               e3 = put_char (if dp > 0 then CHR ''<'' else CHR '' '') e2;
               e4 = (if length (ed_text e) > dp + ew then toColumn (pw + 1) (put_char (CHR ''>'') (toColumn (ew + pw + 1) e3)) else e3);
               e5 = put_text (take ew (drop dp (ed_text e))) (setNormal e4);
               e6 = toColumn (usub (ed_point e) dp + pw + 1) e5
           in e6\<lparr>ed_redisplay := False\<rparr>)"

fun show_aux :: "nat \<Rightarrow> string list \<Rightarrow> editor \<Rightarrow> editor" where
  "show_aux n [] e = e"
| "show_aux n (t # ts) e = show_aux (n + 1) ts (put_text t (toLine (n + 1) e))"

definition show_editor :: "editor \<Rightarrow> editor" where
  "show_editor e =
     (if ed_enabled e then e
      else forceRedisplay (toLine 0 (show_aux 0 (ed_aux e) (e\<lparr>ed_enabled := True\<rparr>))))"

definition hide_editor :: "editor \<Rightarrow> editor" where
  "hide_editor e = (if \<not> ed_enabled e then e else (clearLine (ed_reset e))\<lparr>ed_enabled := False\<rparr>)"

definition clear_text :: "editor \<Rightarrow> editor" where
  "clear_text e = (set_text [] 0 e)\<lparr>ed_historyPoint := length (ed_history e)\<rparr>"

definition gotoChar :: "nat \<Rightarrow> editor \<Rightarrow> editor" where
  "gotoChar n e =
     (let p = (if n > length (ed_text e) then length (ed_text e) else n);
          d = (if p < ed_displayPos e then p else ed_displayPos e);
          d' = (if p > d + ed_editWidth e then p - ed_editWidth e else d)
      in redisplay (e\<lparr>ed_point := p, ed_displayPos := d'\<rparr>))"

definition scrollTo :: "nat \<Rightarrow> editor \<Rightarrow> editor" where
  "scrollTo n e =
     (let d = (if n > length (ed_text e) then length (ed_text e) else n);
          p = (if ed_point e < d then d else ed_point e);
          p' = (if p > d + ed_editWidth e then d + ed_editWidth e else p)
      in redisplay (e\<lparr>ed_displayPos := d, ed_point := p'\<rparr>))"

definition deleteChar :: "nat \<Rightarrow> editor \<Rightarrow> editor" where
  "deleteChar n e =
     (if ed_point e \<ge> length (ed_text e) then e
      else redisplay (e\<lparr>ed_text := cut_list (ed_point e) (ed_point e + n) (ed_text e)\<rparr>))"

definition insert_text :: "string \<Rightarrow> editor \<Rightarrow> editor" where
  "insert_text t e = redisplay (gotoChar (ed_point e + length t) (e\<lparr>ed_text := insert_list (ed_point e) t (ed_text e)\<rparr>))"

definition MAX_HISTORY_SIZE :: nat where "MAX_HISTORY_SIZE = 1024"

definition pushHistory :: "string \<Rightarrow> bool \<Rightarrow> editor \<Rightarrow> editor" where
  "pushHistory text accept e =
     (let h = ed_history e
      in if text \<noteq> [] \<and> (accept \<or> ed_historyPoint e = length h \<or> h ! ed_historyPoint e \<noteq> text) \<and> (h = [] \<or> last h \<noteq> text)
         then let h' = drop (length h + 1 - MAX_HISTORY_SIZE) (h @ [text])
              in e\<lparr>ed_history := h', ed_historyPoint := (if accept then length h' - 1 else ed_historyPoint e)\<rparr>
         else e)"

definition prevHistory :: "editor \<Rightarrow> editor" where
  "prevHistory e =
     (if ed_historyPoint e = 0 then e
      else let e1 = pushHistory (ed_text e) False e;
               p = ed_historyPoint e1 - 1; entry = ed_history e1 ! p
           in set_text entry (length entry) (e1\<lparr>ed_historyPoint := p\<rparr>))"

definition nextHistory :: "editor \<Rightarrow> editor" where
  "nextHistory e =
     (if ed_historyPoint e \<ge> length (ed_history e) then e
      else let e1 = pushHistory (ed_text e) False e; p = ed_historyPoint e1 + 1; e2 = e1\<lparr>ed_historyPoint := p\<rparr>
           in if p \<ge> length (ed_history e2) then set_text [] 0 e2
              else let entry = ed_history e2 ! p in set_text entry (length entry) e2)"

definition accept_line :: "(string \<Rightarrow> editor \<Rightarrow> editor) \<Rightarrow> editor \<Rightarrow> editor" where
  "accept_line callback e =
     (let e1 = (if ed_enabled e then newline e else e);
          e2 = pushHistory (ed_text e) True (hide_editor e1)
      in clear_text (callback (ed_text e2) e2))"

definition auxDisplay :: "nat \<Rightarrow> string \<Rightarrow> editor \<Rightarrow> editor" where
  "auxDisplay line text e =
     (let e1 = put_text text (clearLine (toLine (line + 1) e));
          aux = ed_aux e1 @ replicate (line + 1 - length (ed_aux e1)) []
      in e1\<lparr>ed_aux := aux[line := text]\<rparr>)"

definition maxAuxDisplayHeight :: "editor \<Rightarrow> nat" where
  "maxAuxDisplayHeight e = usub (ed_height e) 1"

definition clearAuxDisplay :: "editor \<Rightarrow> editor" where
  "clearAuxDisplay e = (ed_reset e)\<lparr>ed_aux := []\<rparr>"

definition defineKey :: "int \<Rightarrow> binding \<Rightarrow> editor \<Rightarrow> editor" where
  "defineKey key b e = e\<lparr>ed_bindings := (ed_bindings e)(key \<mapsto> b)\<rparr>"

definition unsetKey :: "int \<Rightarrow> editor \<Rightarrow> editor" where
  "unsetKey key e = e\<lparr>ed_bindings := (ed_bindings e)(key := None)\<rparr>"

section \<open>Completion\<close>

fun common_start :: "string \<Rightarrow> string list \<Rightarrow> nat \<Rightarrow> nat" where
  "common_start c [] n = n"
| "common_start c (d # ds) n = common_start c ds (length (takeWhile (\<lambda>(x, y). x = y) (zip (take n c) d)))"

fun max_length :: "string list \<Rightarrow> nat \<Rightarrow> nat" where
  "max_length [] n = n"
| "max_length (d # ds) n = max_length ds (if length d > n then length d else n)"

text \<open>An entry of the list of completions, padded to the width of the column.\<close>

definition entry_cell :: "nat \<Rightarrow> string \<Rightarrow> string" where
  "entry_cell colWidth s = take (colWidth - 2) s @ replicate (colWidth - min (length s) (colWidth - 2)) CHR '' ''"

fun aux_rows :: "nat \<Rightarrow> nat \<Rightarrow> nat \<Rightarrow> nat \<Rightarrow> string list \<Rightarrow> editor \<Rightarrow> editor" where
  "aux_rows 0 row nColumns colWidth cs e = e"
| "aux_rows (Suc k) row nColumns colWidth cs e =
     aux_rows k (row + 1) nColumns colWidth (drop nColumns cs)
       (auxDisplay row (concat (map (entry_cell colWidth) (take nColumns cs))) e)"

text \<open>The text with the completion, and whether it changed: \<open>substr\<close> and \<open>erase\<close> take a position and a number of characters.\<close>

definition complete_text :: "string \<Rightarrow> nat \<Rightarrow> nat \<Rightarrow> string \<Rightarrow> string \<times> bool" where
  "complete_text text b n completion =
     (if take n (drop b text) \<noteq> completion then (insert_list b completion (cut_list b (b + n) text), True) else (text, False))"

definition complete_at :: "(editor \<Rightarrow> nat \<Rightarrow> nat \<Rightarrow> nat \<times> nat \<times> string \<times> string list) \<Rightarrow> editor \<Rightarrow> editor" where
  "complete_at completer e =
     (case completer e 0 (ed_point e) of (b0, e0, pre, completions) \<Rightarrow>
        if completions = [] then e
        else let text = ed_text e;
                 en = (if e0 > length text then length text else e0);
                 b = (if b0 > en then en else b0);
                 n = common_start (hd completions) (tl completions) (length (hd completions));
                 maxLen = max_length (tl completions) (length (hd completions))
             in case complete_text text b en (pre @ take n (hd completions)) of (text', didComplete) \<Rightarrow>
                  let e1 = set_text text' (b + length pre + n) e
                  in if didComplete \<or> length completions = 1 then e1
                     else let colWidth = maxLen + 2;
                              nColumns = (if usub (ed_width e1) 1 div colWidth < 1 then 1 else usub (ed_width e1) 1 div colWidth);
                              nRows = (length completions + nColumns - 1) div nColumns
                          in if nRows > maxAuxDisplayHeight e1 then auxDisplay 0 ''(too many completions)'' e1
                             else aux_rows nRows 0 nColumns colWidth completions e1)"

section \<open>Keys\<close>

definition run_binding :: "(string \<Rightarrow> editor \<Rightarrow> editor) \<Rightarrow> (nat \<Rightarrow> editor \<Rightarrow> nat \<Rightarrow> nat \<Rightarrow> nat \<times> nat \<times> string \<times> string list) \<Rightarrow>
    binding \<Rightarrow> editor \<Rightarrow> editor" where
  "run_binding callback completers b e =
     (case b of
        selfInsertCommand \<Rightarrow> (if 32 \<le> ed_lastKey e \<and> ed_lastKey e < 256 then insert_text [char_of (nat (ed_lastKey e))] e else e)
      | forwardChar \<Rightarrow> gotoChar (ed_point e + 1) e
      | backwardChar \<Rightarrow> (if ed_point e > 0 then gotoChar (ed_point e - 1) e else e)
      | acceptLine \<Rightarrow> accept_line callback e
      | acceptWithRepeat \<Rightarrow> accept_line callback (if ed_text e = [] then forceRedisplay (prevHistory e) else e)
      | backwardDeleteChar \<Rightarrow> (if ed_point e > 0 then deleteChar 1 (gotoChar (ed_point e - 1) e) else e)
      | deleteCharCmd \<Rightarrow> deleteChar 1 e
      | beginningOfLine \<Rightarrow> gotoChar 0 e
      | endOfLine \<Rightarrow> gotoChar (length (ed_text e)) e
      | deleteToEndOfLine \<Rightarrow> deleteChar (length (ed_text e) - ed_point e) e
      | restartEdit \<Rightarrow> redisplay (clear_text (newline e))
      | prevHistoryCmd \<Rightarrow> prevHistory e
      | nextHistoryCmd \<Rightarrow> nextHistory e
      | clearScreenCmd \<Rightarrow> forceRedisplay (clearLine (maybeClrScr e))
      | complete n \<Rightarrow> complete_at (completers n) e)"

definition keyReceived :: "(string \<Rightarrow> editor \<Rightarrow> editor) \<Rightarrow> (nat \<Rightarrow> editor \<Rightarrow> nat \<Rightarrow> nat \<Rightarrow> nat \<times> nat \<times> string \<times> string list) \<Rightarrow>
    int \<Rightarrow> editor \<Rightarrow> editor" where
  "keyReceived callback completers key e =
     (if \<not> ed_enabled e then e
      else let e1 = (clearAuxDisplay e)\<lparr>ed_lastKey := key\<rparr>;
               e2 = (case ed_bindings e1 key of
                       Some b \<Rightarrow> run_binding callback completers b e1
                     | None \<Rightarrow> if 32 \<le> key \<and> key < 256 then insert_text [char_of (nat key)] e1 else e1);
               e3 = (if ed_line e2 \<noteq> 0 then toLine 0 e2 else e2)
           in if ed_redisplay e3 then forceRedisplay e3
              else toColumn (usub (ed_point e3) (ed_displayPos e3) + ed_promptWidth e3 + 1) e3)"

text \<open>\<open>loaded\<close>: whether the terminfo entry of the terminal could be read.\<close>

definition base_cb_init :: "bool \<Rightarrow> editor \<Rightarrow> editor \<times> bool" where
  "base_cb_init loaded e =
     (if \<not> loaded then (e, False)
      else if \<not> (ed_caps e ClrEol \<and> (ed_caps e ParmRightCursor \<or> ed_caps e CursorRight) \<and> (ed_caps e ParmLeftCursor \<or> ed_caps e CursorLeft))
      then (e, False)
      else (if ed_caps e KeypadXmit then ed_cap KeypadXmit 1 e else e, True))"

definition ed_cb_init :: "bool \<Rightarrow> editor \<Rightarrow> editor \<times> bool" where
  "ed_cb_init loaded e =
     (case base_cb_init loaded e of
        (e1, False) \<Rightarrow> (e1, False)
      | (e1, True) \<Rightarrow> (show_editor (set_prompt (ed_prompt e1) e1), True))"

text \<open>The size of the window is what the terminal reports at the time.\<close>

definition cb_windowSizeChanged :: "nat \<Rightarrow> nat \<Rightarrow> editor \<Rightarrow> editor" where
  "cb_windowSizeChanged w h e0 =
     (let e = e0\<lparr>ed_width := w, ed_height := h\<rparr>;
          e1 = (if ed_column e \<ge> ed_width e then e\<lparr>ed_column := usub (ed_width e) 1\<rparr> else e);
          e2 = set_prompt (ed_prompt e1) (clearAuxDisplay e1)
      in forceRedisplay (gotoChar (ed_point e2) e2))"

section \<open>What the operations leave as it is\<close>

definition ed_core :: "editor \<Rightarrow> editor" where
  "ed_core e = e\<lparr>ed_out := [], ed_failed := False, ed_column := 0, ed_displayHeight := 0, ed_line := 0\<rparr>"

lemma core_updates [simp]:
  "ed_core (e\<lparr>ed_out := a\<rparr>) = ed_core e" "ed_core (e\<lparr>ed_failed := f\<rparr>) = ed_core e" "ed_core (e\<lparr>ed_column := n\<rparr>) = ed_core e"
  "ed_core (e\<lparr>ed_displayHeight := n\<rparr>) = ed_core e" "ed_core (e\<lparr>ed_line := n\<rparr>) = ed_core e"
  by (simp_all add: ed_core_def)

lemma core_write [simp]: "ed_core (ed_write cs e) = ed_core e" "ed_core (ed_writes s e) = ed_core e" "ed_core (ed_cap c n e) = ed_core e"
  by (simp_all add: ed_write_def ed_writes_def ed_cap_def)

lemma core_output [simp]:
  "ed_core (toColumn c e) = ed_core e" "ed_core (put_char ch e) = ed_core e" "ed_core (put_text t e) = ed_core e"
  "ed_core (clearLine e) = ed_core e" "ed_core (setBold e) = ed_core e" "ed_core (setNormal e) = ed_core e" "ed_core (maybeClrScr e) = ed_core e"
  by (simp_all add: toColumn_def put_char_def put_text_def clearLine_def setBold_def setNormal_def maybeClrScr_def Let_def)

lemma core_open_lines [simp]: "ed_core (open_lines n e) = ed_core e"
  by (induction n e rule: open_lines.induct) simp_all

lemma core_toLine [simp]: "ed_core (toLine l e) = ed_core e"
  by (simp add: toLine_def Let_def)

lemma core_fold_lines: "ed_core (fold (\<lambda>i e. clearLine (toLine i e)) is e) = ed_core e"
  by (induction "is" arbitrary: e) simp_all

lemma core_reset [simp]: "ed_core (ed_reset e) = ed_core e" "ed_core (newline e) = ed_core e"
  by (simp_all add: ed_reset_def newline_def core_fold_lines)

lemma core_eqD:
  assumes "ed_core e' = ed_core e"
  shows "ed_caps e' = ed_caps e" "ed_width e' = ed_width e" "ed_height e' = ed_height e" "ed_enabled e' = ed_enabled e" "ed_redisplay e' = ed_redisplay e"
    "ed_prompt e' = ed_prompt e" "ed_promptWidth e' = ed_promptWidth e" "ed_editWidth e' = ed_editWidth e" "ed_text e' = ed_text e"
    "ed_point e' = ed_point e" "ed_displayPos e' = ed_displayPos e" "ed_lastKey e' = ed_lastKey e" "ed_bindings e' = ed_bindings e"
    "ed_history e' = ed_history e" "ed_historyPoint e' = ed_historyPoint e" "ed_aux e' = ed_aux e"
  using assms by (cases e, cases e', simp add: ed_core_def)+

lemmas output_fields [simp] =
  core_eqD [OF core_output(1)] core_eqD [OF core_output(2)] core_eqD [OF core_output(3)] core_eqD [OF core_output(4)] core_eqD [OF core_output(5)]
  core_eqD [OF core_output(6)] core_eqD [OF core_output(7)] core_eqD [OF core_toLine] core_eqD [OF core_reset(1)] core_eqD [OF core_reset(2)]
  core_eqD [OF core_write(1)] core_eqD [OF core_write(2)] core_eqD [OF core_write(3)]

lemma core_redisplay_update: "ed_core (e\<lparr>ed_redisplay := b\<rparr>) = (ed_core e)\<lparr>ed_redisplay := b\<rparr>"
  by (simp add: ed_core_def)

lemma core_force: "ed_core (forceRedisplay e) = (if ed_enabled e then (ed_core e)\<lparr>ed_redisplay := False\<rparr> else ed_core e)"
  by (simp add: forceRedisplay_def Let_def core_redisplay_update)

section \<open>The cursor and the history\<close>

definition ed_inv :: "editor \<Rightarrow> bool" where
  "ed_inv e \<longleftrightarrow> ed_point e \<le> length (ed_text e) \<and> ed_displayPos e \<le> ed_point e \<and> ed_point e \<le> ed_displayPos e + ed_editWidth e \<and>
     ed_historyPoint e \<le> length (ed_history e) \<and> length (ed_history e) \<le> MAX_HISTORY_SIZE"

lemma inv_core: "ed_inv (ed_core e) = ed_inv e"
  by (simp add: ed_inv_def ed_core_def)

lemma inv_cong: "ed_core e' = ed_core e \<Longrightarrow> ed_inv e' = ed_inv e"
  by (metis inv_core)

lemma inv_redisplay [simp]: "ed_inv (e\<lparr>ed_redisplay := b\<rparr>) = ed_inv e" "ed_inv (redisplay e) = ed_inv e" "ed_inv (e\<lparr>ed_lastKey := k\<rparr>) = ed_inv e" "ed_inv (e\<lparr>ed_aux := a\<rparr>) = ed_inv e"
  "ed_inv (e\<lparr>ed_enabled := b\<rparr>) = ed_inv e"
  by (simp_all add: ed_inv_def redisplay_def)

lemma inv_force [simp]: "ed_inv (forceRedisplay e) = ed_inv e"
  using core_force [of e] by (metis inv_core inv_redisplay(1))

lemma inv_output [simp]:
  "ed_inv (toColumn c e) = ed_inv e" "ed_inv (toLine l e) = ed_inv e" "ed_inv (ed_reset e) = ed_inv e" "ed_inv (newline e) = ed_inv e"
  "ed_inv (clearLine e) = ed_inv e" "ed_inv (maybeClrScr e) = ed_inv e" "ed_inv (put_text t e) = ed_inv e"
  by (rule inv_cong, simp)+

lemma inv_goto [simp]: "ed_inv e \<Longrightarrow> ed_inv (gotoChar n e)"
  by (auto simp: ed_inv_def gotoChar_def redisplay_def Let_def)

lemma inv_scroll: "ed_inv e \<Longrightarrow> ed_inv (scrollTo n e)"
  by (auto simp: ed_inv_def scrollTo_def redisplay_def Let_def)

lemma inv_delete [simp]: "ed_inv e \<Longrightarrow> ed_inv (deleteChar n e)"
  by (auto simp: ed_inv_def deleteChar_def redisplay_def cut_list_def)

text \<open>Whatever the text is, moving to a position settles the cursor.\<close>

lemma goto_settles: "ed_historyPoint e \<le> length (ed_history e) \<Longrightarrow> length (ed_history e) \<le> MAX_HISTORY_SIZE \<Longrightarrow> ed_inv (gotoChar n e)"
  by (auto simp: ed_inv_def gotoChar_def redisplay_def Let_def)

lemma inv_insert [simp]: "ed_inv e \<Longrightarrow> ed_inv (insert_text t e)"
  by (simp add: insert_text_def) (rule goto_settles; simp add: ed_inv_def)

lemma inv_set_text: "ed_historyPoint e \<le> length (ed_history e) \<Longrightarrow> length (ed_history e) \<le> MAX_HISTORY_SIZE \<Longrightarrow> ed_inv (set_text t n e)"
  by (auto simp: ed_inv_def set_text_def redisplay_def Let_def)

lemma inv_set_text' [simp]: "ed_inv e \<Longrightarrow> ed_inv (set_text t n e)"
  by (rule inv_set_text) (simp_all add: ed_inv_def)

lemma inv_clear_text [simp]: "ed_inv e \<Longrightarrow> ed_inv (clear_text e)"
  by (auto simp: ed_inv_def clear_text_def set_text_def redisplay_def Let_def)

lemma inv_push [simp]: "ed_inv e \<Longrightarrow> ed_inv (pushHistory t a e)"
  by (auto simp: ed_inv_def pushHistory_def MAX_HISTORY_SIZE_def Let_def)

lemma push_history_grows: "length (ed_history e) \<le> MAX_HISTORY_SIZE \<Longrightarrow> length (ed_history e) \<le> length (ed_history (pushHistory t a e))"
  by (auto simp: pushHistory_def Let_def)

lemma push_keeps_point: "ed_historyPoint (pushHistory t False e) = ed_historyPoint e"
  by (simp add: pushHistory_def Let_def)

lemma inv_prev [simp]: "ed_inv e \<Longrightarrow> ed_inv (prevHistory e)"
proof -
  assume "ed_inv e"
  then have "ed_inv (pushHistory (ed_text e) False e)" by simp
  then have h: "ed_historyPoint (pushHistory (ed_text e) False e) \<le> length (ed_history (pushHistory (ed_text e) False e))"
    "length (ed_history (pushHistory (ed_text e) False e)) \<le> MAX_HISTORY_SIZE" by (simp_all add: ed_inv_def)
  show ?thesis using \<open>ed_inv e\<close> h by (simp add: prevHistory_def Let_def inv_set_text)
qed

lemma inv_next [simp]: "ed_inv e \<Longrightarrow> ed_inv (nextHistory e)"
proof -
  assume i: "ed_inv e"
  then have "ed_inv (pushHistory (ed_text e) False e)" by simp
  then have h: "length (ed_history (pushHistory (ed_text e) False e)) \<le> MAX_HISTORY_SIZE" by (simp add: ed_inv_def)
  have "length (ed_history e) \<le> length (ed_history (pushHistory (ed_text e) False e))" using i push_history_grows by (simp add: ed_inv_def)
  then show ?thesis using i h by (simp add: nextHistory_def Let_def push_keeps_point inv_set_text)
qed

lemma inv_hide [simp]: "ed_inv e \<Longrightarrow> ed_inv (hide_editor e)"
  by (simp add: hide_editor_def)

lemma inv_accept: "ed_inv e \<Longrightarrow> (\<And>t e. ed_inv e \<Longrightarrow> ed_inv (callback t e)) \<Longrightarrow> ed_inv (accept_line callback e)"
  by (simp add: accept_line_def Let_def)

lemma inv_aux [simp]: "ed_inv e \<Longrightarrow> ed_inv (auxDisplay n t e)" "ed_inv e \<Longrightarrow> ed_inv (clearAuxDisplay e)"
  by (simp_all add: auxDisplay_def clearAuxDisplay_def Let_def)

lemma inv_aux_rows: "ed_inv e \<Longrightarrow> ed_inv (aux_rows k row n w cs e)"
  by (induction k row n w cs e rule: aux_rows.induct) simp_all

lemma inv_complete: "ed_inv e \<Longrightarrow> ed_inv (complete_at completer e)"
  by (auto simp: complete_at_def Let_def inv_aux_rows split: prod.splits)

lemma inv_binding: "ed_inv e \<Longrightarrow> (\<And>t e. ed_inv e \<Longrightarrow> ed_inv (callback t e)) \<Longrightarrow> ed_inv (run_binding callback completers b e)"
  by (cases b) (simp_all add: run_binding_def inv_accept inv_complete)

lemma inv_show_aux [simp]: "ed_inv (show_aux n ts e) = ed_inv e"
  by (induction n ts e rule: show_aux.induct) simp_all

lemma inv_show [simp]: "ed_inv (show_editor e) = ed_inv e"
  by (simp add: show_editor_def)

lemma inv_set_prompt: "ed_inv e \<Longrightarrow> ed_point e = 0 \<Longrightarrow> ed_inv (set_prompt t e)"
  by (simp add: ed_inv_def set_prompt_def redisplay_def Let_def)

lemma inv_new: "ed_inv (fst (ed_cb_init loaded (new_editor caps w h)))"
proof -
  have "ed_inv (new_editor caps w h)" "ed_point (new_editor caps w h) = 0" by (simp_all add: ed_inv_def new_editor_def)
  moreover have "ed_inv (ed_cap c n e) = ed_inv e" for c n e by (rule inv_cong) simp
  ultimately show ?thesis by (simp add: ed_cb_init_def base_cb_init_def inv_set_prompt Let_def)
qed

text \<open>A change of the size of the window moves the displayed part so that the cursor is in it.\<close>

lemma inv_window: "ed_inv e \<Longrightarrow> ed_inv (cb_windowSizeChanged w h e)"
proof -
  assume "ed_inv e"
  then have "ed_historyPoint e \<le> length (ed_history e)" "length (ed_history e) \<le> MAX_HISTORY_SIZE" by (simp_all add: ed_inv_def)
  then show ?thesis by (simp add: cb_windowSizeChanged_def Let_def set_prompt_def clearAuxDisplay_def redisplay_def goto_settles)
qed

lemma cursor_kept:
  assumes "ed_inv e" "\<And>t e. ed_inv e \<Longrightarrow> ed_inv (callback t e)"
  shows "ed_inv (keyReceived callback completers k e)"
  using assms by (auto simp: keyReceived_def Let_def inv_binding split: option.splits)

text \<open>
  C31: Whatever keys are pressed and whatever is bound to them, the cursor stays inside the text and inside
  the part of it that is displayed, the position in the history inside the history, and the history within
  its limit.
\<close>

theorem cursor_stays_visible:
  assumes "ed_inv e" "\<And>t e. ed_inv e \<Longrightarrow> ed_inv (callback t e)"
  shows "ed_inv (fold (keyReceived callback completers) keys e)"
  using assms(1)
proof (induction keys arbitrary: e)
  case (Cons k ks)
  then show ?case using Cons.IH cursor_kept [OF _ assms(2)] by simp
qed simp

theorem cursor_stays_visible_witness:
  "ed_inv (fold (keyReceived (\<lambda>_. show_editor) (\<lambda>_ _ _ _. (0, 0, [], []))) [0x61, 0x62, 0xE05C, 0x0D] (fst (ed_cb_init True (new_editor (\<lambda>_. True) 80 24))))"
proof -
  have "ed_inv (fst (ed_cb_init True (new_editor (\<lambda>_. True) 80 24)))" by (rule inv_new)
  then show ?thesis by (rule cursor_stays_visible) simp
qed

section \<open>Editing\<close>

text \<open>The text in front of the cursor and behind it, and what the editing keys do with them.\<close>

datatype edit = Type char | GoRight | GoLeft | GoHome | GoEnd | Rubout | DeleteAt | KillRest

type_synonym zipper = "string \<times> string"

fun zip_edit :: "edit \<Rightarrow> zipper \<Rightarrow> zipper" where
  "zip_edit (Type c) (b, a) = (b @ [c], a)"
| "zip_edit GoRight (b, a) = (b @ take 1 a, drop 1 a)"
| "zip_edit GoLeft (b, a) = (butlast b, drop (length b - 1) b @ a)"
| "zip_edit GoHome (b, a) = ([], b @ a)"
| "zip_edit GoEnd (b, a) = (b @ a, [])"
| "zip_edit Rubout (b, a) = (butlast b, a)"
| "zip_edit DeleteAt (b, a) = (b, tl a)"
| "zip_edit KillRest (b, a) = (b, [])"

definition ed_abs :: "editor \<Rightarrow> zipper" where
  "ed_abs e = (take (ed_point e) (ed_text e), drop (ed_point e) (ed_text e))"

definition edit_binding :: "binding \<Rightarrow> edit option" where
  "edit_binding b = (case b of forwardChar \<Rightarrow> Some GoRight | backwardChar \<Rightarrow> Some GoLeft | beginningOfLine \<Rightarrow> Some GoHome | endOfLine \<Rightarrow> Some GoEnd
     | backwardDeleteChar \<Rightarrow> Some Rubout | deleteCharCmd \<Rightarrow> Some DeleteAt | deleteToEndOfLine \<Rightarrow> Some KillRest | _ \<Rightarrow> None)"

definition key_edit :: "(int \<Rightarrow> binding option) \<Rightarrow> int \<Rightarrow> edit option" where
  "key_edit bs key = (case bs key of Some b \<Rightarrow> edit_binding b | None \<Rightarrow> if 32 \<le> key \<and> key < 256 then Some (Type (char_of (nat key))) else None)"

lemma abs_core: "ed_core e' = ed_core e \<Longrightarrow> ed_abs e' = ed_abs e"
  by (frule core_eqD(9), drule core_eqD(10)) (simp add: ed_abs_def)

lemma abs_goto: "n \<le> length (ed_text e) \<Longrightarrow> ed_abs (gotoChar n e) = (take n (ed_text e), drop n (ed_text e))"
  by (simp add: ed_abs_def gotoChar_def redisplay_def Let_def)

lemma abs_goto_end: "ed_abs (gotoChar (length (ed_text e) + k) e) = (ed_text e, [])"
  by (simp add: ed_abs_def gotoChar_def redisplay_def Let_def)

lemma abs_insert: "ed_point e \<le> length (ed_text e) \<Longrightarrow> ed_abs (insert_text [c] e) = zip_edit (Type c) (ed_abs e)"
  by (simp add: insert_text_def ed_abs_def gotoChar_def redisplay_def insert_list_def Let_def)

lemma abs_delete: "ed_point e \<le> length (ed_text e) \<Longrightarrow> ed_abs (deleteChar n e) = (take (ed_point e) (ed_text e), drop (ed_point e + n) (ed_text e))"
  by (auto simp: deleteChar_def ed_abs_def redisplay_def cut_list_def)

lemma take_drop_left:
  assumes "0 < n" "n \<le> length s"
  shows "take (n - 1) s = butlast (take n s)" "drop (n - 1) s = drop (n - 1) (take n s) @ drop n s"
proof -
  obtain k where k: "n = Suc k" using assms(1) by (cases n) auto
  show "take (n - 1) s = butlast (take n s)" using assms(2) by (simp add: k take_Suc_conv_app_nth)
  show "drop (n - 1) s = drop (n - 1) (take n s) @ drop n s" using assms(2) Cons_nth_drop_Suc [of k s] by (simp add: k take_Suc_conv_app_nth)
qed

lemma abs_binding:
  assumes "ed_inv e" "edit_binding b = Some d"
  shows "ed_abs (run_binding callback completers b e) = zip_edit d (ed_abs e)"
proof -
  have p: "ed_point e \<le> length (ed_text e)" using assms(1) by (simp add: ed_inv_def)
  have t: "ed_text (gotoChar n e) = ed_text e" "n \<le> length (ed_text e) \<Longrightarrow> ed_point (gotoChar n e) = n" for n by (simp_all add: gotoChar_def redisplay_def Let_def)
  note left = take_drop_left [OF _ p]
  show ?thesis
  proof (cases b)
    case forwardChar
    then show ?thesis using assms(2) p abs_goto [of "ed_point e + 1" e] abs_goto_end [of e 1]
      by (cases "ed_point e = length (ed_text e)") (simp_all add: run_binding_def edit_binding_def ed_abs_def take_Suc_conv_app_nth take_Suc hd_drop_conv_nth)
  next
    case backwardChar
    then show ?thesis using assms(2) p abs_goto [of "ed_point e - 1" e] left
      by (cases "ed_point e = 0") (simp_all add: run_binding_def edit_binding_def ed_abs_def min_absorb2)
  next
    case backwardDeleteChar
    then show ?thesis using assms(2) p left abs_delete [of "gotoChar (ed_point e - 1) e" 1] t(2) [of "ed_point e - 1"]
      by (cases "ed_point e = 0") (simp_all add: run_binding_def edit_binding_def t, simp_all add: ed_abs_def)
  next
    case deleteCharCmd
    then show ?thesis using assms(2) abs_delete [OF p, of 1] by (simp add: run_binding_def edit_binding_def ed_abs_def tl_drop drop_Suc)
  next
    case deleteToEndOfLine
    then show ?thesis using assms(2) abs_delete [OF p, of "length (ed_text e) - ed_point e"] p by (simp add: run_binding_def edit_binding_def ed_abs_def)
  next
    case beginningOfLine
    then show ?thesis using assms(2) abs_goto [of 0 e] by (simp add: run_binding_def edit_binding_def) (simp add: ed_abs_def)
  next
    case endOfLine
    then show ?thesis using assms(2) abs_goto_end [of e 0] by (simp add: run_binding_def edit_binding_def) (simp add: ed_abs_def)
  qed (use assms(2) in \<open>simp_all add: edit_binding_def\<close>)
qed

lemma edit_keeps:
  assumes "edit_binding b = Some d"
  shows "ed_enabled (run_binding callback completers b e) = ed_enabled e" "ed_bindings (run_binding callback completers b e) = ed_bindings e"
  using assms by (cases b; simp add: edit_binding_def run_binding_def gotoChar_def deleteChar_def redisplay_def Let_def)+

lemma force_keeps [simp]: "ed_enabled (forceRedisplay e) = ed_enabled e" "ed_bindings (forceRedisplay e) = ed_bindings e" "ed_abs (forceRedisplay e) = ed_abs e"
  "ed_point (forceRedisplay e) = ed_point e" "ed_displayPos (forceRedisplay e) = ed_displayPos e" "ed_promptWidth (forceRedisplay e) = ed_promptWidth e"
  by (simp_all add: forceRedisplay_def Let_def ed_abs_def)

lemma edit_key:
  assumes "ed_inv e" "ed_enabled e" "key_edit (ed_bindings e) key = Some d"
  shows "ed_abs (keyReceived callback completers key e) = zip_edit d (ed_abs e) \<and> ed_enabled (keyReceived callback completers key e) \<and>
    ed_bindings (keyReceived callback completers key e) = ed_bindings e"
proof -
  define e1 where "e1 = (clearAuxDisplay e)\<lparr>ed_lastKey := key\<rparr>"
  have i: "ed_inv e1" "ed_abs e1 = ed_abs e" "ed_enabled e1" "ed_bindings e1 = ed_bindings e"
    using assms by (simp_all add: e1_def clearAuxDisplay_def) (simp add: ed_abs_def)
  define e2 where "e2 = (case ed_bindings e1 key of Some b \<Rightarrow> run_binding callback completers b e1
                     | None \<Rightarrow> if 32 \<le> key \<and> key < 256 then insert_text [char_of (nat key)] e1 else e1)"
  have e2: "ed_abs e2 = zip_edit d (ed_abs e) \<and> ed_enabled e2 \<and> ed_bindings e2 = ed_bindings e"
  proof (cases "ed_bindings e key")
    case None
    then show ?thesis using assms(3) i abs_insert [of e1] by (auto simp: e2_def key_edit_def ed_inv_def insert_text_def gotoChar_def redisplay_def Let_def split: if_splits)
  next
    case (Some b)
    then show ?thesis using assms(3) i abs_binding [of e1 b d] edit_keeps [of b d] by (simp add: e2_def key_edit_def)
  qed
  have same: "ed_abs (toLine l e') = ed_abs e'" "ed_abs (toColumn l e') = ed_abs e'" for l e' by (rule abs_core, simp)+
  have k: "keyReceived callback completers key e = (let e3 = (if ed_line e2 \<noteq> 0 then toLine 0 e2 else e2)
           in if ed_redisplay e3 then forceRedisplay e3 else toColumn (usub (ed_point e3) (ed_displayPos e3) + ed_promptWidth e3 + 1) e3)"
    unfolding keyReceived_def e2_def e1_def Let_def using assms(2) by simp
  show ?thesis unfolding k Let_def using e2 by (simp add: same)
qed

text \<open>
  The editor behaves as a text with a cursor in it: every sequence of typed characters and editing keys
  has the effect on the text in front of the cursor and behind it that the keys stand for, whatever part of the line is
  displayed.
\<close>

lemma editing_refines:
  assumes "ed_inv e" "ed_enabled e" "list_all (\<lambda>k. key_edit (ed_bindings e) k \<noteq> None) keys" "\<And>t e. ed_inv e \<Longrightarrow> ed_inv (callback t e)"
  shows "ed_abs (fold (keyReceived callback completers) keys e) = fold (\<lambda>k. zip_edit (the (key_edit (ed_bindings e) k))) keys (ed_abs e)"
  using assms(1-3)
proof (induction keys arbitrary: e)
  case (Cons k ks)
  obtain d where d: "key_edit (ed_bindings e) k = Some d" using Cons.prems(3) by auto
  have "ed_inv (keyReceived callback completers k e)" using cursor_kept [OF Cons.prems(1) assms(4)] by simp
  then show ?case using Cons.IH [of "keyReceived callback completers k e"] edit_key [OF Cons.prems(1,2) d, of callback completers] Cons.prems(3) d by simp
qed simp

text \<open>The editor after its start.\<close>

lemma init_edit:
  "ed_bindings (fst (ed_cb_init True (new_editor (\<lambda>_. True) w h))) = default_bindings"
  "ed_abs (fst (ed_cb_init True (new_editor (\<lambda>_. True) w h))) = ([], [])"
  "ed_enabled (fst (ed_cb_init True (new_editor (\<lambda>_. True) w h)))"
proof -
  have aux: "ed_aux (set_prompt t e) = ed_aux e" "ed_enabled (set_prompt t e) = ed_enabled e" "ed_bindings (set_prompt t e) = ed_bindings e"
    "ed_abs (set_prompt t e) = ed_abs e" for t e
    by (simp_all add: set_prompt_def redisplay_def ed_abs_def Let_def)
  have sh: "ed_bindings (show_editor e) = ed_bindings e" "ed_abs (show_editor e) = ed_abs e" "ed_enabled (show_editor e)" if "ed_aux e = []" for e
    using that by (simp_all add: show_editor_def) (simp_all add: ed_abs_def)
  show "ed_bindings (fst (ed_cb_init True (new_editor (\<lambda>_. True) w h))) = default_bindings"
    "ed_abs (fst (ed_cb_init True (new_editor (\<lambda>_. True) w h))) = ([], [])"
    "ed_enabled (fst (ed_cb_init True (new_editor (\<lambda>_. True) w h)))"
    by (simp_all add: ed_cb_init_def base_cb_init_def Let_def sh aux ed_cap_def ed_write_def new_editor_def) (simp_all add: ed_abs_def)
qed

section \<open>History and completion\<close>

text \<open>The line that was accepted last is the first one that comes back.\<close>

lemma accepted_line_recalled:
  assumes "ed_inv e" "ed_text e \<noteq> []" "\<And>t e. ed_history (callback t e) = ed_history e"
  shows "ed_text (prevHistory (accept_line callback e)) = ed_text e"
proof -
  define e2 where "e2 = pushHistory (ed_text e) True (hide_editor (if ed_enabled e then newline e else e))"
  have h: "ed_history (hide_editor (if ed_enabled e then newline e else e)) = ed_history e" "ed_text (hide_editor (if ed_enabled e then newline e else e)) = ed_text e"
    by (simp_all add: hide_editor_def)
  have "ed_history e2 \<noteq> [] \<and> last (ed_history e2) = ed_text e"
    using assms(1,2) by (auto simp: e2_def pushHistory_def h ed_inv_def MAX_HISTORY_SIZE_def Let_def)
  moreover define e3 where "e3 = clear_text (callback (ed_text e2) e2)"
  ultimately have "ed_history e3 \<noteq> []" "last (ed_history e3) = ed_text e" "ed_historyPoint e3 = length (ed_history e3)" "ed_text e3 = []"
    by (simp_all add: assms(3) clear_text_def set_text_def redisplay_def Let_def)
  then have "ed_text (prevHistory e3) = ed_text e"
    by (simp add: prevHistory_def pushHistory_def set_text_def redisplay_def last_conv_nth Let_def)
  moreover have "accept_line callback e = e3" by (simp add: accept_line_def e3_def e2_def Let_def)
  ultimately show ?thesis by simp
qed

text \<open>
  When the history is full, storing the new text moves its entries: the key for the previous line brings back the text
  that is in the line already.
\<close>

lemma full_history_repeats:
  assumes "length (ed_history e) = MAX_HISTORY_SIZE" "ed_historyPoint e = MAX_HISTORY_SIZE" "ed_text e \<noteq> []" "ed_text e \<noteq> last (ed_history e)"
  shows "ed_text (prevHistory e) = ed_text e"
  using assms by (auto simp: prevHistory_def pushHistory_def set_text_def redisplay_def nth_append MAX_HISTORY_SIZE_def Let_def)

text \<open>
  A completer gets the range to complete from its begin to its end; the end is then used as a number of
  characters. If the range does not begin at the begin of the line, text behind the cursor is deleted.
\<close>

lemma completion_deletes_text:
  assumes "b < en" "en \<le> length text" "take en (drop b text) \<noteq> c"
  shows "complete_text text b en c = (take b text @ c @ drop (b + en) text, True)"
  using assms by (simp add: complete_text_def insert_list_def cut_list_def)

lemma completion_example: "complete_text ''ls fo bar'' 3 5 ''foo'' = (''ls foor'', True)"
  by (simp add: complete_text_def insert_list_def cut_list_def numeral_eq_Suc)

end
