(* ===== verification/String_Order.thy ===== *)
theory String_Order
  imports Senf_Prelude "HOL-Library.Sublist"
begin

text \<open>
  The order of \<open>std::string\<close> and \<open>std::map\<close> with strings as keys, as the list of its entries in their order.
\<close>

section \<open>Strings\<close>

text \<open>The characters are compared as unsigned numbers.\<close>

fun str_less :: "string \<Rightarrow> string \<Rightarrow> bool" where
  "str_less _ [] \<longleftrightarrow> False"
| "str_less [] (y # ys) \<longleftrightarrow> True"
| "str_less (x # xs) (y # ys) \<longleftrightarrow> (of_char x :: nat) < of_char y \<or> x = y \<and> str_less xs ys"

lemma str_less_irrefl [simp]: "\<not> str_less s s"
  by (induction s) auto

lemma str_less_trans: "str_less a b \<Longrightarrow> str_less b c \<Longrightarrow> str_less a c"
proof (induction a b arbitrary: c rule: str_less.induct)
  case (2 y ys)
  then show ?case by (cases c) auto
next
  case (3 x xs y ys)
  then show ?case by (cases c) auto
qed simp

lemma str_less_linear: "str_less a b \<or> a = b \<or> str_less b a"
proof (induction a b rule: str_less.induct)
  case (1 a)
  then show ?case by (cases a) auto
next
  case (3 x xs y ys)
  then show ?case by (metis linorder_less_linear of_char_eq_iff str_less.simps(3))
qed simp

lemma prefix_not_greater: "prefix a b \<Longrightarrow> \<not> str_less b a"
proof (induction a arbitrary: b)
  case (Cons x a)
  then show ?case by (cases b) auto
qed simp

text \<open>Between a string and one that it begins there are only strings that it begins.\<close>

lemma prefix_between: "prefix a c \<Longrightarrow> \<not> str_less b a \<Longrightarrow> \<not> str_less c b \<Longrightarrow> prefix a b"
proof (induction a arbitrary: b c)
  case (Cons x a)
  obtain c' where c: "c = x # c'" "prefix a c'" using Cons.prems(1) by (cases c) auto
  show ?case
  proof (cases b)
    case Nil
    then show ?thesis using Cons.prems(2) by simp
  next
    case (Cons y b')
    have "(of_char y :: nat) = of_char x" using Cons.prems(2,3) c(1) Cons by (auto simp: not_less)
    then have "y = x" by simp
    then show ?thesis using Cons.IH [OF c(2), of b'] Cons.prems(2,3) Cons c(1) by simp
  qed
qed simp

section \<open>Maps\<close>

text \<open>\<open>std::map::insert\<close>: an entry that is there stays.\<close>

fun table_insert :: "string \<Rightarrow> 'a \<Rightarrow> (string \<times> 'a) list \<Rightarrow> (string \<times> 'a) list" where
  "table_insert k c [] = [(k, c)]"
| "table_insert k c ((k', c') # t) =
     (if k = k' then (k', c') # t else if str_less k k' then (k, c) # (k', c') # t else (k', c') # table_insert k c t)"

definition table_sorted :: "(string \<times> 'a) list \<Rightarrow> bool" where
  "table_sorted t \<longleftrightarrow> sorted_wrt (\<lambda>a b. str_less (fst a) (fst b)) t"

lemma insert_keys: "set (map fst (table_insert k c t)) = insert k (set (map fst t))"
  by (induction k c t rule: table_insert.induct) auto

lemma insert_sorted: "table_sorted t \<Longrightarrow> table_sorted (table_insert k c t)"
proof (induction t)
  case (Cons p t)
  obtain k' c' where p: "p = (k', c')" by fastforce
  have t: "table_sorted t" "\<forall>q\<in>set t. str_less k' (fst q)" using Cons.prems by (auto simp: table_sorted_def p)
  consider "k = k'" | "str_less k k'" "k \<noteq> k'" | "str_less k' k" "k \<noteq> k'" "\<not> str_less k k'"
    using str_less_linear [of k k'] str_less_trans [of k k' k] by (metis str_less_irrefl)
  then show ?case
  proof cases
    case 3
    have "str_less k' (fst q)" if "q \<in> set (table_insert k c t)" for q
    proof -
      have "fst q \<in> insert k (set (map fst t))" using that insert_keys [of k c t] by (metis image_eqI set_map)
      then show ?thesis using t(2) 3(1) by auto
    qed
    then show ?thesis using 3 Cons.IH [OF t(1)] by (simp add: p table_sorted_def)
  qed (use Cons.prems t in \<open>auto simp: p table_sorted_def dest: str_less_trans\<close>)
qed (simp add: table_sorted_def)

lemma sorted_distinct: "table_sorted t \<Longrightarrow> distinct (map fst t)"
  by (induction t) (auto simp: table_sorted_def)

lemma map_of_insert: "k \<notin> fst ` set t \<Longrightarrow> map_of (table_insert k c t) = (map_of t)(k \<mapsto> c)"
  by (induction k c t rule: table_insert.induct) (auto simp: fun_eq_iff)

lemma set_insert_new: "k \<notin> fst ` set t \<Longrightarrow> set (table_insert k c t) = insert (k, c) (set t)"
  by (induction k c t rule: table_insert.induct) auto

lemma filter_sorted: "table_sorted t \<Longrightarrow> table_sorted (filter P t)"
  by (simp add: table_sorted_def sorted_wrt_filter)

text \<open>The entries from the lower bound of one key up to the lower bound of another.\<close>

definition table_range :: "string \<Rightarrow> string \<Rightarrow> (string \<times> 'a) list \<Rightarrow> (string \<times> 'a) list" where
  "table_range a b t = takeWhile (\<lambda>p. str_less (fst p) b) (dropWhile (\<lambda>p. str_less (fst p) a) t)"

lemma sorted_takeWhile:
  assumes "table_sorted t" "\<And>x y. str_less x y \<Longrightarrow> P y \<Longrightarrow> P x"
  shows "takeWhile (\<lambda>p. P (fst p)) t = filter (\<lambda>p. P (fst p)) t"
  using assms(1)
proof (induction t)
  case (Cons p t)
  have "table_sorted t" "\<forall>q\<in>set t. str_less (fst p) (fst q)" using Cons.prems by (auto simp: table_sorted_def)
  then show ?case using Cons.IH assms(2) by (auto intro!: filter_False [symmetric])
qed simp

lemma sorted_dropWhile:
  assumes "table_sorted t" "\<And>x y. str_less x y \<Longrightarrow> P y \<Longrightarrow> P x"
  shows "dropWhile (\<lambda>p. P (fst p)) t = filter (\<lambda>p. \<not> P (fst p)) t"
  using assms(1)
proof (induction t)
  case (Cons p t)
  have "table_sorted t" "\<forall>q\<in>set t. str_less (fst p) (fst q)" using Cons.prems by (auto simp: table_sorted_def)
  then show ?case using Cons.IH assms(2) by (auto intro!: filter_True [symmetric])
qed simp

lemma table_range_filter:
  assumes "table_sorted t"
  shows "table_range a b t = filter (\<lambda>p. \<not> str_less (fst p) a \<and> str_less (fst p) b) t"
proof -
  have "dropWhile (\<lambda>p. str_less (fst p) a) t = filter (\<lambda>p. \<not> str_less (fst p) a) t"
    by (rule sorted_dropWhile [OF assms]) (rule str_less_trans)
  moreover have "takeWhile (\<lambda>p. str_less (fst p) b) (filter (\<lambda>p. \<not> str_less (fst p) a) t) = filter (\<lambda>p. str_less (fst p) b) (filter (\<lambda>p. \<not> str_less (fst p) a) t)"
    by (rule sorted_takeWhile [OF filter_sorted [OF assms]]) (rule str_less_trans)
  ultimately show ?thesis by (simp add: table_range_def conj_commute)
qed

end
