(* ===== verification/Key_Parser.thy ===== *)
theory Key_Parser
  imports Line_Editor String_Order
begin

text \<open>
  From characters to keys: the table of key sequences, \<open>KeyParser\<close> of \<open>senf/Utils/Termlib/Terminfo.cc\<close>, and the input buffer of
  \<open>BaseEditor\<close> (\<open>Editor.cc\<close>). What a key does is an argument. The strings of the terminfo entry are an argument, in
  the order of the array \<open>keyStrings\<close>; a string that the entry does not have is \<open>None\<close>.
\<close>

section \<open>The key table\<close>

definition First_key :: int where "First_key = 0xE000"
definition Incomplete :: int where "Incomplete = 0xE0FF"

text \<open>A \<open>char\<close> is signed, and so is a key code.\<close>

definition keycode_of :: "char \<Rightarrow> int" where
  "keycode_of c = (if of_char c < (128 :: nat) then of_char c else of_char c - 256)"

definition Ctrl :: "char \<Rightarrow> int" where
  "Ctrl c = keycode_of c - 64"

type_synonym key_table = "(string \<times> int) list"

fun load_keys :: "int \<Rightarrow> string option list \<Rightarrow> key_table \<Rightarrow> key_table" where
  "load_keys i [] t = t"
| "load_keys i (None # ss) t = load_keys (i + 1) ss t"
| "load_keys i (Some s # ss) t = load_keys (i + 1) ss (table_insert s (First_key + i) t)"

definition key_load :: "string option list \<Rightarrow> key_table" where
  "key_load ss = load_keys 0 ss []"

definition upper_bound :: "string \<Rightarrow> key_table \<Rightarrow> key_table" where
  "upper_bound key = dropWhile (\<lambda>(k, _). \<not> str_less key k)"

definition up_to :: "string \<Rightarrow> key_table \<Rightarrow> key_table" where
  "up_to key = takeWhile (\<lambda>(k, _). \<not> str_less key k)"

text \<open>The entry in front of the upper bound, if the key sequence begins with it; else the character stands for itself.\<close>

definition key_before :: "key_table \<Rightarrow> string \<Rightarrow> int \<times> nat" where
  "key_before table key =
     (if up_to key table = [] then (keycode_of (hd key), 1)
      else case last (up_to key table) of (k, c) \<Rightarrow> if take (length k) key = k then (c, length k) else (keycode_of (hd key), 1))"

definition key_lookup :: "key_table \<Rightarrow> string \<Rightarrow> int \<times> nat" where
  "key_lookup table key =
     (if key = [] then (0, 0)
      else case upper_bound key table of
        (k, _) # _ \<Rightarrow> if take (length key) k = key then (Incomplete, length key) else key_before table key
      | [] \<Rightarrow> key_before table key)"

section \<open>The input buffer\<close>

text \<open>The buffer, the state of the editor, and whether the timer is stopped. The loop need not end: then there is no result.\<close>

partial_function (option) processKeys :: "(int \<Rightarrow> 'e \<Rightarrow> 'e) \<Rightarrow> key_table \<Rightarrow> string \<Rightarrow> 'e \<Rightarrow> (string \<times> 'e \<times> bool) option" where
  "processKeys handler table buf e =
     (let r = key_lookup table buf
      in if fst r = Incomplete then Some (buf, e, False)
         else let e1 = handler (fst r) e; buf1 = drop (snd r) buf
              in if buf1 = [] then Some (buf1, e1, True) else processKeys handler table buf1 e1)"

text \<open>The timer runs after a character and is stopped when the buffer is empty.\<close>

definition charReceived :: "(int \<Rightarrow> 'e \<Rightarrow> 'e) \<Rightarrow> key_table \<Rightarrow> char \<Rightarrow> string \<times> 'e \<Rightarrow> (string \<times> 'e \<times> bool) option" where
  "charReceived handler table c s = processKeys handler table (fst s @ [c]) (snd s)"

text \<open>When it expires: the first character of an empty \<open>std::string\<close> is zero.\<close>

partial_function (option) keySequenceTimeout :: "(int \<Rightarrow> 'e \<Rightarrow> 'e) \<Rightarrow> key_table \<Rightarrow> string \<Rightarrow> 'e \<Rightarrow> (string \<times> 'e) option" where
  "keySequenceTimeout handler table buf e =
     (if buf = [] then Some (buf, e)
      else Option.bind (processKeys handler table buf e)
        (\<lambda>r. keySequenceTimeout handler table (drop 1 (fst r))
           (handler (if fst r = [] then 0 else keycode_of (hd (fst r))) (fst (snd r)))))"

section \<open>The order of the table\<close>

lemma load_sorted: "table_sorted (key_load ss)"
proof -
  have "table_sorted t \<Longrightarrow> table_sorted (load_keys i ss t)" for i t
    by (induction i ss t rule: load_keys.induct) (simp_all add: insert_sorted)
  then show ?thesis by (simp add: key_load_def table_sorted_def)
qed

lemma up_to_set: "table_sorted t \<Longrightarrow> set (up_to key t) = {p \<in> set t. \<not> str_less key (fst p)}"
proof (induction t)
  case (Cons p t)
  then have "str_less key (fst p) \<Longrightarrow> \<forall>q\<in>set t. str_less key (fst q)" by (auto simp: table_sorted_def intro: str_less_trans)
  moreover have "table_sorted t" using Cons.prems by (simp add: table_sorted_def)
  ultimately show ?case using Cons.IH by (cases "str_less key (fst p)") (auto simp: up_to_def split: prod.splits)
qed (simp add: up_to_def)

lemma up_to_upper: "up_to key t @ upper_bound key t = t"
  by (simp add: up_to_def upper_bound_def)

lemma up_to_last:
  assumes "table_sorted t" "up_to key t \<noteq> []" "p \<in> set (up_to key t)"
  shows "\<not> str_less (fst (last (up_to key t))) (fst p)"
proof -
  have "table_sorted (up_to key t @ upper_bound key t)" using assms(1) by (simp add: up_to_upper)
  then have s: "table_sorted (up_to key t)" by (simp add: table_sorted_def sorted_wrt_append)
  obtain xs where xs: "up_to key t = xs @ [last (up_to key t)]" using assms(2) by (metis append_butlast_last_id)
  have "\<forall>q\<in>set xs. str_less (fst q) (fst (last (up_to key t)))" using s by (subst (asm) xs) (simp add: table_sorted_def sorted_wrt_append)
  moreover have "p \<in> set xs \<or> p = last (up_to key t)" using assms(3) by (subst (asm) xs) auto
  ultimately show ?thesis by (auto dest: str_less_trans)
qed

lemma upper_hd:
  assumes "table_sorted t" "upper_bound key t = u # us"
  shows "str_less key (fst u)" "p \<in> set t \<Longrightarrow> str_less key (fst p) \<Longrightarrow> \<not> str_less (fst p) (fst u)"
proof -
  show "str_less key (fst u)" using assms(2) hd_dropWhile [of "\<lambda>(k, _). \<not> str_less key k" t] by (auto simp: upper_bound_def split: prod.splits)
  assume p: "p \<in> set t" "str_less key (fst p)"
  then have "p \<in> set (u # us)" using up_to_upper [of key t] up_to_set [OF assms(1)] assms(2) by (metis (mono_tags, lifting) Un_iff mem_Collect_eq set_append)
  moreover have "\<forall>q\<in>set us. str_less (fst u) (fst q)"
    using assms up_to_upper [of key t] by (metis list.simps(15) sorted_wrt.simps(2) sorted_wrt_append table_sorted_def)
  ultimately show "\<not> str_less (fst p) (fst u)" by (auto dest: str_less_trans)
qed

section \<open>What the table means\<close>

text \<open>No sequence is the begin of another one, none is empty.\<close>

definition table_ok :: "key_table \<Rightarrow> bool" where
  "table_ok t \<longleftrightarrow> table_sorted t \<and> (\<forall>p\<in>set t. fst p \<noteq> [] \<and> snd p \<noteq> Incomplete) \<and> (\<forall>p\<in>set t. \<forall>q\<in>set t. prefix (fst p) (fst q) \<longrightarrow> p = q)"

definition key_spec :: "key_table \<Rightarrow> string \<Rightarrow> int \<times> nat" where
  "key_spec t key =
     (if list_ex (\<lambda>p. strict_prefix key (fst p)) t then (Incomplete, length key)
      else case find (\<lambda>p. prefix (fst p) key) t of Some p \<Rightarrow> (snd p, length (fst p)) | None \<Rightarrow> (keycode_of (hd key), 1))"

lemma take_is_prefix_iff: "take (length a) b = a \<longleftrightarrow> prefix a b"
  by (metis append_eq_conv_conj prefixE take_is_prefix)

lemma before_spec:
  assumes "table_ok t" "key \<noteq> []"
  shows "key_before t key = (case find (\<lambda>p. prefix (fst p) key) t of Some p \<Rightarrow> (snd p, length (fst p)) | None \<Rightarrow> (keycode_of (hd key), 1))"
proof (cases "find (\<lambda>p. prefix (fst p) key) t")
  case None
  then have n: "\<not> prefix (fst p) key" if "p \<in> set t" for p using that unfolding find_None_iff by blast
  have "\<not> prefix (fst (last (up_to key t))) key" if "up_to key t \<noteq> []"
    using n [of "last (up_to key t)"] last_in_set [OF that] up_to_upper [of key t] by (metis Un_iff set_append)
  then show ?thesis using None by (auto simp: key_before_def take_is_prefix_iff split: prod.splits)
next
  case (Some p)
  then have p: "p \<in> set t" "prefix (fst p) key" by (auto simp: find_Some_iff)
  have s: "table_sorted t" using assms(1) by (simp add: table_ok_def)
  have u: "p \<in> set (up_to key t)" using p prefix_not_greater [OF p(2)] by (simp add: up_to_set [OF s])
  then have ne: "up_to key t \<noteq> []" by auto
  define l where "l = last (up_to key t)"
  have l: "l \<in> set t" "\<not> str_less key (fst l)" using last_in_set [OF ne] by (simp_all add: l_def up_to_set [OF s])
  have "\<not> str_less (fst l) (fst p)" using up_to_last [OF s ne u] by (simp add: l_def)
  then have "prefix (fst p) (fst l)" by (rule prefix_between [OF p(2)]) (rule l(2))
  then have "l = p" using assms(1) p(1) l(1) by (auto simp: table_ok_def)
  then show ?thesis using Some ne p(2) by (cases p) (simp add: key_before_def l_def [symmetric] take_is_prefix_iff)
qed

lemma lookup_spec:
  assumes "table_ok t" "key \<noteq> []"
  shows "key_lookup t key = key_spec t key"
proof -
  have s: "table_sorted t" using assms(1) by (simp add: table_ok_def)
  have greater: "str_less key (fst p)" if "strict_prefix key (fst p)" for p :: "string \<times> int"
    using that prefix_not_greater [of key "fst p"] str_less_linear [of key "fst p"] by (auto simp: strict_prefix_def)
  show ?thesis
  proof (cases "upper_bound key t")
    case Nil
    then have "\<not> str_less key (fst p)" if "p \<in> set t" for p using that up_to_upper [of key t] up_to_set [OF s, of key] by auto
    then have "\<not> list_ex (\<lambda>p. strict_prefix key (fst p)) t" using greater by (auto simp: list_ex_iff)
    then show ?thesis using Nil before_spec [OF assms] by (simp add: key_lookup_def key_spec_def assms(2))
  next
    case (Cons u us)
    have ut: "u \<in> set t" using up_to_upper [of key t] Cons by (metis Un_iff list.set_intros(1) set_append)
    have eq: "list_ex (\<lambda>p. strict_prefix key (fst p)) t \<longleftrightarrow> prefix key (fst u)"
    proof
      assume "list_ex (\<lambda>p. strict_prefix key (fst p)) t"
      then obtain p where p: "p \<in> set t" "strict_prefix key (fst p)" by (auto simp: list_ex_iff)
      have "\<not> str_less (fst p) (fst u)" by (rule upper_hd(2) [OF s Cons p(1) greater [OF p(2)]])
      moreover have "\<not> str_less (fst u) key" using upper_hd(1) [OF s Cons] str_less_trans [of "fst u" key "fst u"] by auto
      ultimately show "prefix key (fst u)" using prefix_between [of key "fst p" "fst u"] p(2) by (simp add: strict_prefix_def)
    next
      assume "prefix key (fst u)"
      moreover have "key \<noteq> fst u" using upper_hd(1) [OF s Cons] by auto
      ultimately show "list_ex (\<lambda>p. strict_prefix key (fst p)) t" using ut by (auto simp: list_ex_iff strict_prefix_def)
    qed
    then show ?thesis using Cons before_spec [OF assms] assms(2)
      by (cases u) (simp add: key_lookup_def key_spec_def take_is_prefix_iff)
  qed
qed



section \<open>Reading keys\<close>

text \<open>A key that was pressed: a sequence of the table, or a character that begins none.\<close>

definition press_ok :: "key_table \<Rightarrow> string \<times> int \<Rightarrow> bool" where
  "press_ok t p \<longleftrightarrow> p \<in> set t \<or> (\<exists>c. p = ([c], keycode_of c) \<and> (\<forall>q\<in>set t. hd (fst q) \<noteq> c))"

lemma keycode_complete: "keycode_of c \<noteq> Incomplete"
proof -
  have "int (of_char c) < 256" by simp
  then have "(of_char c :: int) < 256" by (simp only: of_nat_of_char)
  then show ?thesis by (simp add: keycode_of_def Incomplete_def)
qed

text \<open>Part of a key sequence is kept in the buffer, the whole sequence is one key.\<close>

lemma process_incomplete:
  "table_ok t \<Longrightarrow> p \<in> set t \<Longrightarrow> b \<noteq> [] \<Longrightarrow> strict_prefix b (fst p) \<Longrightarrow> processKeys handler t b e = Some (b, e, False)"
  by (subst processKeys.simps) (auto simp: lookup_spec key_spec_def list_ex_iff Let_def)

lemma press_spec: "table_ok t \<Longrightarrow> press_ok t p \<Longrightarrow> key_spec t (fst p) = (snd p, length (fst p)) \<and> snd p \<noteq> Incomplete \<and> fst p \<noteq> []"
proof -
  assume t: "table_ok t" and "press_ok t p"
  then consider "p \<in> set t" | c where "p = ([c], keycode_of c)" "\<forall>q\<in>set t. hd (fst q) \<noteq> c" by (auto simp: press_ok_def)
  then show ?thesis
  proof cases
    case 1
    have n: "\<not> list_ex (\<lambda>q. strict_prefix (fst p) (fst q)) t" using t 1 by (auto simp: table_ok_def list_ex_iff strict_prefix_def)
    have "find (\<lambda>q. prefix (fst q) (fst p)) t = Some p"
    proof (cases "find (\<lambda>q. prefix (fst q) (fst p)) t")
      case None
      then have "\<not> prefix (fst p) (fst p)" using 1 unfolding find_None_iff by blast
      then show ?thesis by simp
    next
      case (Some q)
      then have "q \<in> set t" "prefix (fst q) (fst p)" by (auto simp: find_Some_iff)
      then show ?thesis using Some t 1 by (auto simp: table_ok_def)
    qed
    then show ?thesis using n t 1 by (simp add: key_spec_def table_ok_def)
  next
    case 2
    have q: "fst q \<noteq> [] \<and> hd (fst q) \<noteq> c" if "q \<in> set t" for q using t 2(2) that by (simp add: table_ok_def)
    have "\<not> strict_prefix [c] (fst q) \<and> \<not> prefix (fst q) [c]" if "q \<in> set t" for q using q [OF that] by (cases "fst q") auto
    then have "\<not> list_ex (\<lambda>q. strict_prefix [c] (fst q)) t" "find (\<lambda>q. prefix (fst q) [c]) t = None"
      unfolding list_ex_iff find_None_iff by blast+
    then show ?thesis using 2(1) keycode_complete by (simp add: key_spec_def)
  qed
qed

lemma process_press:
  assumes "table_ok t" "press_ok t p"
  shows "processKeys handler t (fst p) e = Some ([], handler (snd p) e, True)"
  using press_spec [OF assms] lookup_spec [OF assms(1)] by (subst processKeys.simps) (simp add: Let_def)

fun feed :: "(int \<Rightarrow> 'e \<Rightarrow> 'e) \<Rightarrow> key_table \<Rightarrow> string \<Rightarrow> string \<times> 'e \<Rightarrow> (string \<times> 'e) option" where
  "feed handler t [] s = Some s"
| "feed handler t (c # cs) s = (case charReceived handler t c s of None \<Rightarrow> None | Some (buf, e, _) \<Rightarrow> feed handler t cs (buf, e))"

lemma feed_append: "feed handler t (xs @ ys) s = (case feed handler t xs s of None \<Rightarrow> None | Some s' \<Rightarrow> feed handler t ys s')"
  by (induction xs arbitrary: s) (auto split: option.splits)

lemma feed_part: "table_ok t \<Longrightarrow> p \<in> set t \<Longrightarrow> strict_prefix b (fst p) \<Longrightarrow> feed handler t b ([], e) = Some (b, e)"
proof (induction b rule: rev_induct)
  case (snoc c b)
  have "strict_prefix b (fst p)" using snoc.prems(3) by (metis append_prefixD prefix_order.less_le_trans prefix_snoc strict_prefix_def append_Nil2 same_append_eq list.distinct(1))
  then show ?case using snoc process_incomplete [OF snoc.prems(1,2) _ snoc.prems(3), where handler = handler and e = e] by (simp add: feed_append charReceived_def)
qed simp

lemma feed_press:
  assumes "table_ok t" "press_ok t p"
  shows "feed handler t (fst p) ([], e) = Some ([], handler (snd p) e)"
proof -
  have ne: "fst p \<noteq> []" using press_spec [OF assms] by simp
  define b c where "b = butlast (fst p)" and "c = last (fst p)"
  have bc: "fst p = b @ [c]" using ne by (simp add: b_def c_def)
  have "feed handler t b ([], e) = Some (b, e)"
  proof (cases "p \<in> set t")
    case True
    then show ?thesis using feed_part [OF assms(1), of p b] bc by (simp add: strict_prefix_def)
  next
    case False
    then have "b = []" using assms(2) by (auto simp: press_ok_def b_def)
    then show ?thesis by simp
  qed
  then show ?thesis using process_press [OF assms, of handler e] bc by (simp add: feed_append charReceived_def)
qed

text \<open>
  The keys that are pressed are the keys that the editor gets, in their order: with the characters of their sequences arriving one by
  one, every key is reported when its last character has arrived, nothing is reported twice and the buffer is empty
  again.
\<close>

lemma keys_roundtrip:
  assumes "table_ok t" "list_all (press_ok t) ps"
  shows "feed handler t (concat (map fst ps)) ([], e) = Some ([], fold handler (map snd ps) e)"
  using assms(2)
proof (induction ps arbitrary: e)
  case (Cons p ps)
  then show ?case using feed_press [OF assms(1), of p handler e] by (simp add: feed_append)
qed simp

text \<open>
  Typing at the terminal edits the line: when the characters of a sequence of keys arrive one by one, whether they are plain
  characters or editing keys with sequences of several characters, the text in front of the cursor and behind it is what the keys
  stand for, and nothing is left in the buffer.
\<close>

theorem typed_text_is_edited:
  assumes "table_ok t" "list_all (press_ok t) ps" "ed_inv e" "ed_enabled e" "list_all (\<lambda>k. key_edit (ed_bindings e) k \<noteq> None) (map snd ps)"
    "\<And>t e. ed_inv e \<Longrightarrow> ed_inv (callback t e)"
  shows "\<exists>e'. feed (keyReceived callback completers) t (concat (map fst ps)) ([], e) = Some ([], e') \<and>
     ed_abs e' = fold (\<lambda>k. zip_edit (the (key_edit (ed_bindings e) k))) (map snd ps) (ed_abs e)"
  using keys_roundtrip [OF assms(1,2), of "keyReceived callback completers" e] editing_refines [OF assms(3-5), of callback completers] assms(6) by auto

theorem typed_text_is_edited_witness:
  "\<exists>e'. feed (keyReceived (\<lambda>_. show_editor) (\<lambda>_ _ _ _. (0, 0, [], []))) [([CHR 0x1B, CHR ''['', CHR ''C''], 0xE06E), ([CHR 0x1B, CHR ''['', CHR ''D''], 0xE05C)]
     [CHR ''l'', CHR 0x1B, CHR ''['', CHR ''D'', CHR ''s''] ([], fst (ed_cb_init True (new_editor (\<lambda>_. True) 80 24))) = Some ([], e') \<and> ed_abs e' = (''s'', ''l'')"
proof -
  define t where "t = [([CHR 0x1B, CHR ''['', CHR ''C''], 0xE06E :: int), ([CHR 0x1B, CHR ''['', CHR ''D''], 0xE05C)]"
  define ps where "ps = [([CHR ''l''], keycode_of CHR ''l''), ([CHR 0x1B, CHR ''['', CHR ''D''], 0xE05C), ([CHR ''s''], keycode_of CHR ''s'')]"
  define e where "e = fst (ed_cb_init True (new_editor (\<lambda>_. True) 80 24))"
  have k: "ed_bindings e = default_bindings" "ed_abs e = ([], [])" "ed_enabled e" unfolding e_def by (rule init_edit)+
  have i: "ed_inv e" unfolding e_def by (rule inv_new)
  have t: "table_ok t" by (auto simp: table_ok_def table_sorted_def t_def Incomplete_def)
  have ps: "list_all (press_ok t) ps" by (simp add: ps_def press_ok_def t_def)
  have edits: "key_edit default_bindings (keycode_of CHR ''l'') = Some (Type CHR ''l'')" "key_edit default_bindings 0xE05C = Some GoLeft"
    "key_edit default_bindings (keycode_of CHR ''s'') = Some (Type CHR ''s'')"
    by (simp_all add: key_edit_def default_bindings_def edit_binding_def keycode_of_def char_of_def bit_0 bit_numeral_rec(1,2))
  have "list_all (\<lambda>k. key_edit (ed_bindings e) k \<noteq> None) (map snd ps)" by (simp add: ps_def k edits)
  from typed_text_is_edited [OF t ps i k(3) this, of "\<lambda>_. show_editor" "\<lambda>_ _ _ _. (0, 0, [], [])"]
  obtain e' where "feed (keyReceived (\<lambda>_. show_editor) (\<lambda>_ _ _ _. (0, 0, [], []))) t (concat (map fst ps)) ([], e) = Some ([], e')"
    "ed_abs e' = fold (\<lambda>k. zip_edit (the (key_edit (ed_bindings e) k))) (map snd ps) (ed_abs e)" by auto
  then show ?thesis by (simp add: ps_def t_def e_def [symmetric] k edits)
qed

section \<open>Sequences that begin with others, and the timeout\<close>

text \<open>A terminal with a key whose sequence begins the one of another key: the shorter one is not found when a character follows.\<close>

lemma shorter_key_lost:
  "key_lookup [([CHR 0x1B, CHR ''O''], 0xE014), ([CHR 0x1B, CHR ''O'', CHR ''A''], 0xE090)] [CHR 0x1B, CHR ''O'', CHR ''B''] = (0x1B, 1)"
  by (simp add: key_lookup_def key_before_def upper_bound_def up_to_def keycode_of_def)

text \<open>
  The reading of keys always ends. Only an empty string as a key of the terminal would be found again and again.
\<close>

lemma lookup_size:
  assumes "\<forall>p\<in>set t. fst p \<noteq> []" "b \<noteq> []" "fst (key_lookup t b) \<noteq> Incomplete"
  shows "0 < snd (key_lookup t b)"
proof -
  have "set (up_to b t) \<subseteq> set t" using up_to_upper [of b t] by (metis set_append sup_ge1)
  then have "up_to b t \<noteq> [] \<Longrightarrow> fst (last (up_to b t)) \<noteq> []" using assms(1) last_in_set by blast
  then have "0 < snd (key_before t b)" by (auto simp: key_before_def split: prod.splits)
  then show ?thesis using assms(2,3) by (auto simp: key_lookup_def split: list.splits prod.splits if_splits)
qed

lemma processKeys_returns: "\<forall>p\<in>set t. fst p \<noteq> [] \<Longrightarrow> b \<noteq> [] \<Longrightarrow> \<exists>r. processKeys handler t b e = Some r"
proof (induction b arbitrary: e rule: length_induct)
  case (1 b)
  show ?case
  proof (cases "fst (key_lookup t b) = Incomplete \<or> drop (snd (key_lookup t b)) b = []")
    case True
    then show ?thesis by (subst processKeys.simps) (auto simp: Let_def)
  next
    case False
    then have "length (drop (snd (key_lookup t b)) b) < length b" using lookup_size [OF 1(2,3)] 1(3) by simp
    then show ?thesis using 1 False by (subst processKeys.simps) (auto simp: Let_def)
  qed
qed

text \<open>
  The timeout: the characters of an unfinished sequence are given to the editor one by one. After the last of them the
  loop reports the character at the begin of the empty buffer too, a key zero that nobody pressed.
\<close>

lemma timeout_extra_key:
  "keySequenceTimeout (\<lambda>k ks. ks @ [k]) [([CHR 0x1B, CHR ''['', CHR ''A''], 0xE090)] [CHR 0x1B, CHR ''[''] [] = Some ([], [0x1B, 0x5B, 0])"
proof -
  define t where "t = [([CHR 0x1B, CHR ''['', CHR ''A''], 0xE090 :: int)]"
  have l: "key_lookup t [CHR 0x1B, CHR ''[''] = (Incomplete, 2)" "key_lookup t ''['' = (0x5B, 1)"
    by (simp_all add: t_def key_lookup_def key_before_def upper_bound_def up_to_def keycode_of_def)
  have p: "processKeys h t [CHR 0x1B, CHR ''[''] e = Some ([CHR 0x1B, CHR ''[''], e, False)" "processKeys h t ''['' e = Some ([], h 0x5B e, True)" for h and e :: "int list"
    by (subst processKeys.simps, simp add: l Incomplete_def)+
  have "keySequenceTimeout h t [] e = Some ([], e)" for h and e :: "int list" by (subst keySequenceTimeout.simps) simp
  then have "keySequenceTimeout h t ''['' e = Some ([], h 0 (h 0x5B e))" for h and e :: "int list"
    by (subst keySequenceTimeout.simps) (simp add: p)
  then have "keySequenceTimeout h t [CHR 0x1B, CHR ''[''] e = Some ([], h 0 (h 0x5B (h 0x1B e)))" for h and e :: "int list"
    by (subst keySequenceTimeout.simps) (simp add: p keycode_of_def)
  then show ?thesis by (simp add: t_def)
qed

text \<open>A character from 128 on is a negative key code, which no key has: it is not inserted.\<close>

lemma eight_bit_ignored: "128 \<le> (of_char c :: nat) \<Longrightarrow> keycode_of c < 32"
proof -
  assume "128 \<le> (of_char c :: nat)"
  moreover have "(of_char c :: int) = int (of_char c)" by (simp only: of_nat_of_char)
  moreover have "(of_char c :: nat) < 256" by simp
  ultimately show ?thesis by (simp add: keycode_of_def del: nat_of_char_less_256 of_nat_of_char)
qed

end
