(* ===== verification/Editor_Display.thy ===== *)
theory Editor_Display
  imports Line_Editor
begin

text \<open>
  What the user of the line editor sees: a terminal that executes the commands the editor writes, and the proof
  that its line always shows the text of the editor, with the cursor where it belongs. The terminal is the
  specification; the editor is the one of \<open>senf/Utils/Termlib/Editor.cc\<close>.
\<close>

section \<open>The display\<close>

text \<open>A terminal: what it does with the commands, on lines that go on downwards without end.\<close>

record screen =
  sc_cells :: "nat \<Rightarrow> nat \<Rightarrow> char"
  sc_row :: nat
  sc_col :: nat

fun cap_step :: "capability \<Rightarrow> nat \<Rightarrow> screen \<Rightarrow> screen" where
  "cap_step ClrEol n s = s\<lparr>sc_cells := (sc_cells s)(sc_row s := (\<lambda>c. if c < sc_col s then sc_cells s (sc_row s) c else CHR '' ''))\<rparr>"
| "cap_step ParmRightCursor n s = s\<lparr>sc_col := sc_col s + n\<rparr>"
| "cap_step CursorRight n s = s\<lparr>sc_col := sc_col s + 1\<rparr>"
| "cap_step ParmLeftCursor n s = s\<lparr>sc_col := sc_col s - n\<rparr>"
| "cap_step CursorLeft n s = s\<lparr>sc_col := sc_col s - 1\<rparr>"
| "cap_step ClearScreen n s = s\<lparr>sc_cells := (\<lambda>_ _. CHR '' ''), sc_row := 0, sc_col := 0\<rparr>"
| "cap_step ParmDownCursor n s = s\<lparr>sc_row := sc_row s + n\<rparr>"
| "cap_step CursorDown n s = s\<lparr>sc_row := sc_row s + 1\<rparr>"
| "cap_step ParmUpCursor n s = s\<lparr>sc_row := sc_row s - n\<rparr>"
| "cap_step CursorUp n s = s\<lparr>sc_row := sc_row s - 1\<rparr>"
| "cap_step _ n s = s"

fun term_step :: "tcmd \<Rightarrow> screen \<Rightarrow> screen" where
  "term_step (Ch c) s =
     (if c = CHR 0x0D then s\<lparr>sc_col := 0\<rparr>
      else if c = CHR 0x0A then s\<lparr>sc_row := sc_row s + 1, sc_col := 0\<rparr>
      else s\<lparr>sc_cells := (sc_cells s)(sc_row s := (sc_cells s (sc_row s))(sc_col s := c)), sc_col := sc_col s + 1\<rparr>)"
| "term_step (Cap c) s = cap_step c 1 s"
| "term_step (CapN c n) s = cap_step c n s"

definition ed_screen :: "screen \<Rightarrow> editor \<Rightarrow> screen" where
  "ed_screen s0 e = fold term_step (ed_out e) s0"

text \<open>What the line should show.\<close>

definition shown_prompt :: "editor \<Rightarrow> string" where
  "shown_prompt e = (if length (ed_prompt e) > ed_promptWidth e then drop (length (ed_prompt e) - ed_promptWidth e) (ed_prompt e) else ed_prompt e)"

definition display_row :: "editor \<Rightarrow> nat \<Rightarrow> char" where
  "display_row e c =
     (let pw = ed_promptWidth e; dp = ed_displayPos e; ew = ed_editWidth e; t = ed_text e
      in if c < pw then shown_prompt e ! c
         else if c = pw then (if dp > 0 then CHR ''<'' else CHR '' '')
         else if c \<le> pw + ew then (if dp + (c - pw - 1) < length t then t ! (dp + (c - pw - 1)) else CHR '' '')
         else if c = pw + ew + 1 \<and> length t > dp + ew then CHR ''>'' else CHR '' '')"

definition clean :: "string \<Rightarrow> bool" where
  "clean t \<longleftrightarrow> CHR 0x0D \<notin> set t \<and> CHR 0x0A \<notin> set t"

definition row_put :: "nat \<Rightarrow> string \<Rightarrow> (nat \<Rightarrow> char) \<Rightarrow> nat \<Rightarrow> char" where
  "row_put k t f = (\<lambda>i. if k \<le> i \<and> i < k + length t then t ! (i - k) else f i)"

lemma row_put_Nil: "row_put k [] f = f"
  by (auto simp: row_put_def fun_eq_iff)

lemma row_put_Cons: "row_put (Suc k) t (f(k := c)) = row_put k (c # t) f"
  by (auto simp: row_put_def fun_eq_iff nth_Cons')

lemma term_text: "clean t \<Longrightarrow> fold term_step (map Ch t) \<lparr>sc_cells = C(r := f), sc_row = r, sc_col = k\<rparr> =
    \<lparr>sc_cells = C(r := row_put k t f), sc_row = r, sc_col = k + length t\<rparr>"
proof (induction t arbitrary: f k)
  case (Cons c t)
  have "term_step (Ch c) \<lparr>sc_cells = C(r := f), sc_row = r, sc_col = k\<rparr> = \<lparr>sc_cells = C(r := f(k := c)), sc_row = r, sc_col = Suc k\<rparr>"
    using Cons.prems by (auto simp: clean_def)
  moreover have "clean t" using Cons.prems by (simp add: clean_def)
  ultimately show ?case using Cons.IH [of "f(k := c)" "Suc k"] by (simp only: list.map fold_Cons comp_apply row_put_Cons) simp
qed (simp add: row_put_Nil)

text \<open>The cursor is at column \<open>k\<close> of line \<open>r\<close>, which holds \<open>f\<close>; the other lines are those of \<open>C\<close>.\<close>

definition term_at :: "screen \<Rightarrow> editor \<Rightarrow> (nat \<Rightarrow> nat \<Rightarrow> char) \<Rightarrow> nat \<Rightarrow> (nat \<Rightarrow> char) \<Rightarrow> nat \<Rightarrow> bool" where
  "term_at s0 e C r f k \<longleftrightarrow> ed_screen s0 e = \<lparr>sc_cells = C(r := f), sc_row = r, sc_col = k\<rparr> \<and> ed_column e = k"

definition ed_geom :: "editor \<Rightarrow> bool" where
  "ed_geom e \<longleftrightarrow> 5 \<le> ed_width e \<and> ed_width e < 2 ^ 32 \<and> ed_promptWidth e = min (length (ed_prompt e)) (ed_width e - 4) \<and>
     ed_editWidth e = ed_width e - ed_promptWidth e - 3 \<and> 1 \<le> ed_height e \<and> ed_height e < 2 ^ 32 \<and> ed_aux e = [] \<and>
     ed_caps e ClrEol \<and> (ed_caps e ParmRightCursor \<or> ed_caps e CursorRight) \<and> (ed_caps e ParmLeftCursor \<or> ed_caps e CursorLeft) \<and>
     clean (ed_prompt e) \<and> clean (ed_text e) \<and> list_all clean (ed_history e)"

lemma geom_core: "ed_core e' = ed_core e \<Longrightarrow> ed_geom e' = ed_geom e"
  by (cases e, cases e') (simp add: ed_core_def ed_geom_def)

lemma screen_write: "ed_screen s0 (ed_write cs e) = fold term_step cs (ed_screen s0 e)"
  by (simp add: ed_screen_def ed_write_def)

lemma screen_update [simp]:
  "ed_screen s0 (e\<lparr>ed_column := n\<rparr>) = ed_screen s0 e" "ed_screen s0 (e\<lparr>ed_failed := b\<rparr>) = ed_screen s0 e"
  by (simp_all add: ed_screen_def)

lemma write_fields [simp]: "ed_column (ed_write cs e) = ed_column e" "ed_line (ed_write cs e) = ed_line e" "ed_displayHeight (ed_write cs e) = ed_displayHeight e"
  by (simp_all add: ed_write_def)

lemma rights: "(term_step (Cap CursorRight) ^^ n) s = s\<lparr>sc_col := sc_col s + n\<rparr>"
  by (induction n arbitrary: s) simp_all

lemma lefts: "(term_step (Cap CursorLeft) ^^ n) s = s\<lparr>sc_col := sc_col s - n\<rparr>"
  by (induction n arbitrary: s) simp_all

lemma at_column:
  assumes "term_at s0 e C r f k" "c \<le> ed_width e" "ed_geom e"
  shows "term_at s0 (toColumn c e) C r f c"
proof -
  have s: "ed_screen s0 e = \<lparr>sc_cells = C(r := f), sc_row = r, sc_col = k\<rparr>" "ed_column e = k" using assms(1) by (simp_all add: term_at_def)
  consider "k < c" | "c < k" | "k = c" by linarith
  then show ?thesis
  proof cases
    case 1
    then show ?thesis using assms(2,3) s by (auto simp: toColumn_def term_at_def screen_write ed_cap_def rights ed_geom_def Let_def)
  next
    case 2
    then show ?thesis using assms(2,3) s by (auto simp: toColumn_def term_at_def screen_write ed_cap_def lefts ed_geom_def Let_def)
  next
    case 3
    then show ?thesis using assms(1,2) s by (auto simp: toColumn_def Let_def)
  qed
qed

lemma at_text:
  assumes "term_at s0 e C r f k" "k + length t < ed_width e" "ed_width e < 2 ^ 32" "clean t"
  shows "term_at s0 (put_text t e) C r (row_put k t f) (k + length t)"
proof -
  have "usub (usub (ed_width e) k) 1 = ed_width e - k - 1" using assms(2,3) by simp
  then have "\<not> usub (usub (ed_width e) k) 1 < length t" using assms(2) by simp
  then show ?thesis using assms(1,4) by (simp add: put_text_def term_at_def ed_writes_def screen_write term_text Let_def)
qed

lemma at_char:
  assumes "term_at s0 e C r f k" "k + 1 < ed_width e" "ed_width e < 2 ^ 32" "c \<noteq> CHR 0x0D" "c \<noteq> CHR 0x0A"
  shows "term_at s0 (put_char c e) C r (row_put k [c] f) (k + 1)"
  using assms term_text [of "[c]" C r f k] by (simp add: put_char_def term_at_def ed_writes_def screen_write clean_def)

lemma at_clear:
  assumes "term_at s0 e C r f k" "ed_caps e ClrEol"
  shows "term_at s0 (clearLine e) C r (\<lambda>_. CHR '' '') 0"
  using assms by (simp add: clearLine_def term_at_def ed_writes_def ed_cap_def screen_write)

lemma at_bold: "term_at s0 e C r f k \<Longrightarrow> term_at s0 (setBold e) C r f k" "term_at s0 e C r f k \<Longrightarrow> term_at s0 (setNormal e) C r f k"
  by (simp_all add: setBold_def setNormal_def term_at_def ed_cap_def screen_write)

text \<open>After a redisplay the line shows what it should and the cursor is on the character it stands at.\<close>

lemma force_shows:
  assumes g: "ed_geom e" and i: "ed_inv e" and en: "ed_enabled e" and a: "term_at s0 e C r f k"
  shows "term_at s0 (forceRedisplay e) C r (display_row e) (ed_point e - ed_displayPos e + ed_promptWidth e + 1)"
proof -
  define pw dp ew where "pw = ed_promptWidth e" and "dp = ed_displayPos e" and "ew = ed_editWidth e"
  have w: "pw + ew + 3 = ed_width e" "ed_width e < 2 ^ 32" "ed_caps e ClrEol" "length (shown_prompt e) = pw" "clean (shown_prompt e)"
    using g by (auto simp: ed_geom_def pw_def ew_def shown_prompt_def clean_def dest: in_set_dropD)
  have p: "dp \<le> ed_point e" "ed_point e - dp \<le> ew" using i by (auto simp: ed_inv_def dp_def ew_def)
  then have u: "usub (ed_point e) dp = ed_point e - dp" using w(1,2) by simp
  define t where "t = take ew (drop dp (ed_text e))"
  have t: "length t \<le> ew" "clean t" using g by (auto simp: t_def ed_geom_def clean_def dest: in_set_takeD in_set_dropD)
  define m where "m = (if dp > 0 then CHR ''<'' else CHR '' '')"
  define e1 e2 e3 where "e1 = setBold (clearLine e)" and "e2 = put_text (shown_prompt e) e1" and "e3 = put_char m e2"
  define e4 where "e4 = (if length (ed_text e) > dp + ew then toColumn (pw + 1) (put_char (CHR ''>'') (toColumn (ew + pw + 1) e3)) else e3)"
  define e5 where "e5 = put_text t (setNormal e4)"
  have geom: "ed_geom e3" "ed_geom (put_char c (toColumn n e3))" "ed_geom e5" for c n
    by (rule geom_core [THEN iffD2, OF _ g], simp add: e1_def e2_def e3_def e4_def e5_def)+
  have width: "ed_width e1 = ed_width e" "ed_width e2 = ed_width e" "ed_width e3 = ed_width e" "ed_width e4 = ed_width e" "ed_width e5 = ed_width e"
    by (simp_all add: e1_def e2_def e3_def e4_def e5_def)
  define f2 where "f2 = row_put 0 (shown_prompt e) (\<lambda>_. CHR '' '')"
  define f3 where "f3 = row_put pw [m] f2"
  define f4 where "f4 = (if length (ed_text e) > dp + ew then row_put (ew + pw + 1) ''>'' f3 else f3)"
  have "term_at s0 e1 C r (\<lambda>_. CHR '' '') 0" unfolding e1_def by (intro at_bold at_clear [OF a] w(3))
  then have "term_at s0 e2 C r f2 pw" using at_text [of s0 e1 C r "\<lambda>_. CHR '' ''" 0 "shown_prompt e"] w width by (simp add: e2_def f2_def)
  then have 3: "term_at s0 e3 C r f3 (pw + 1)" unfolding e3_def f3_def using w width by (intro at_char) (auto simp: m_def)
  have "term_at s0 e4 C r f4 (pw + 1)"
  proof (cases "length (ed_text e) > dp + ew")
    case True
    have "term_at s0 (toColumn (ew + pw + 1) e3) C r f3 (ew + pw + 1)" using 3 geom(1) w width by (intro at_column) auto
    then have "term_at s0 (put_char (CHR ''>'') (toColumn (ew + pw + 1) e3)) C r (row_put (ew + pw + 1) ''>'' f3) (ew + pw + 1 + 1)"
      using w width by (intro at_char) auto
    then show ?thesis using True geom(2) w width by (simp add: e4_def f4_def) (intro at_column, auto)
  qed (use 3 in \<open>simp add: e4_def f4_def\<close>)
  then have "term_at s0 e5 C r (row_put (pw + 1) t f4) (pw + 1 + length t)"
    unfolding e5_def using w width t by (intro at_text at_bold) auto
  then have 6: "term_at s0 (toColumn (usub (ed_point e) dp + pw + 1) e5) C r (row_put (pw + 1) t f4) (usub (ed_point e) dp + pw + 1)"
    using geom(3) w width p u by (intro at_column) auto
  have "row_put (pw + 1) t f4 = display_row e"
  proof
    fix c
    show "row_put (pw + 1) t f4 c = display_row e c"
      using w(4) by (auto simp: row_put_def f4_def f3_def f2_def display_row_def m_def t_def pw_def [symmetric] dp_def [symmetric] ew_def [symmetric] Let_def)
  qed
  moreover have "forceRedisplay e = (toColumn (usub (ed_point e) dp + pw + 1) e5)\<lparr>ed_redisplay := False\<rparr>"
    using en by (simp add: forceRedisplay_def Let_def e5_def e4_def e3_def e2_def e1_def m_def t_def shown_prompt_def pw_def dp_def ew_def)
  ultimately show ?thesis using 6 u by (simp add: term_at_def ed_screen_def pw_def dp_def)
qed

section \<open>The line shows the text after every key\<close>

text \<open>Terminal and editor agree on the column, and while nothing waits to be displayed the line shows what it should.\<close>

definition ed_sync :: "screen \<Rightarrow> editor \<Rightarrow> bool" where
  "ed_sync s0 e \<longleftrightarrow> ed_geom e \<and> ed_inv e \<and> ed_displayHeight e = 1 \<and> ed_line e = 0 \<and> sc_col (ed_screen s0 e) = ed_column e \<and>
     (\<forall>k n. ed_bindings e k \<noteq> Some (complete n))"

definition ed_shown :: "screen \<Rightarrow> editor \<Rightarrow> bool" where
  "ed_shown s0 e \<longleftrightarrow> (ed_enabled e \<and> \<not> ed_redisplay e \<longrightarrow> sc_cells (ed_screen s0 e) (sc_row (ed_screen s0 e)) = display_row e)"

definition ed_good :: "screen \<Rightarrow> editor \<Rightarrow> bool" where
  "ed_good s0 e \<longleftrightarrow> ed_sync s0 e \<and> ed_shown s0 e"

lemma sync_at: "ed_sync s0 e \<Longrightarrow> term_at s0 e (sc_cells (ed_screen s0 e)) (sc_row (ed_screen s0 e)) (sc_cells (ed_screen s0 e) (sc_row (ed_screen s0 e))) (ed_column e)"
  by (simp add: ed_sync_def term_at_def)

lemma display_core: "ed_core e' = ed_core e \<Longrightarrow> display_row e' = display_row e"
  by (cases e, cases e') (simp add: ed_core_def display_row_def shown_prompt_def fun_eq_iff Let_def)

lemma at_sync:
  assumes "term_at s0 e' C r f k" "ed_core e' = ed_core e" "ed_sync s0 e" "ed_displayHeight e' = 1" "ed_line e' = 0"
  shows "ed_sync s0 e'"
  using assms geom_core [OF assms(2)] inv_cong [OF assms(2)] core_eqD(13) [OF assms(2)] by (simp add: ed_sync_def term_at_def)

lemma toColumn_lines [simp]: "ed_line (toColumn c e) = ed_line e" "ed_displayHeight (toColumn c e) = ed_displayHeight e"
  by (simp_all add: toColumn_def ed_cap_def Let_def)

lemma output_lines [simp]:
  "ed_line (clearLine e) = ed_line e" "ed_displayHeight (clearLine e) = ed_displayHeight e" "ed_line (setBold e) = ed_line e" "ed_displayHeight (setBold e) = ed_displayHeight e"
  "ed_line (setNormal e) = ed_line e" "ed_displayHeight (setNormal e) = ed_displayHeight e" "ed_line (put_char c e) = ed_line e" "ed_displayHeight (put_char c e) = ed_displayHeight e"
  "ed_line (put_text t e) = ed_line e" "ed_displayHeight (put_text t e) = ed_displayHeight e" "ed_line (maybeClrScr e) = ed_line e" "ed_displayHeight (maybeClrScr e) = ed_displayHeight e"
  by (simp_all add: clearLine_def setBold_def setNormal_def put_char_def put_text_def maybeClrScr_def ed_cap_def ed_writes_def Let_def)

lemma force_lines [simp]: "ed_line (forceRedisplay e) = ed_line e" "ed_displayHeight (forceRedisplay e) = ed_displayHeight e"
  by (simp_all add: forceRedisplay_def Let_def)

lemma redisplay_update_fields: "ed_geom (e\<lparr>ed_redisplay := b\<rparr>) = ed_geom e" "display_row (e\<lparr>ed_redisplay := b\<rparr>) = display_row e"
  "ed_screen s0 (e\<lparr>ed_redisplay := b\<rparr>) = ed_screen s0 e" "term_at s0 (e\<lparr>ed_redisplay := b\<rparr>) = term_at s0 e"
  by (simp_all add: ed_geom_def display_row_def shown_prompt_def ed_screen_def term_at_def fun_eq_iff Let_def)

lemma force_good:
  assumes "ed_sync s0 e"
  shows "ed_good s0 (forceRedisplay e)" "ed_enabled e \<Longrightarrow> \<not> ed_redisplay (forceRedisplay e)"
    "ed_enabled e \<Longrightarrow> ed_column (forceRedisplay e) = ed_point e - ed_displayPos e + ed_promptWidth e + 1"
proof -
  show "ed_enabled e \<Longrightarrow> \<not> ed_redisplay (forceRedisplay e)" by (simp add: forceRedisplay_def Let_def)
  have a: "ed_enabled e \<Longrightarrow> term_at s0 (forceRedisplay e) (sc_cells (ed_screen s0 e)) (sc_row (ed_screen s0 e)) (display_row e) (ed_point e - ed_displayPos e + ed_promptWidth e + 1)"
    using assms by (intro force_shows [OF _ _ _ sync_at]) (simp_all add: ed_sync_def)
  then show "ed_enabled e \<Longrightarrow> ed_column (forceRedisplay e) = ed_point e - ed_displayPos e + ed_promptWidth e + 1" by (simp add: term_at_def)
  show "ed_good s0 (forceRedisplay e)"
  proof (cases "ed_enabled e")
    case True
    define e' where "e' = (forceRedisplay e)\<lparr>ed_redisplay := ed_redisplay e\<rparr>"
    have c: "ed_core e' = ed_core e" using core_force [of e] True by (simp add: e'_def core_redisplay_update) (simp add: ed_core_def)
    have "term_at s0 e' (sc_cells (ed_screen s0 e)) (sc_row (ed_screen s0 e)) (display_row e) (ed_point e - ed_displayPos e + ed_promptWidth e + 1)"
      using a [OF True] by (simp add: e'_def redisplay_update_fields)
    from at_sync [OF this c assms] have "ed_sync s0 e'" using assms by (simp add: e'_def ed_sync_def)
    then have "ed_sync s0 (forceRedisplay e)" by (simp add: ed_sync_def e'_def redisplay_update_fields)
    moreover have "display_row (forceRedisplay e) = display_row e" using display_core [OF c] by (simp add: e'_def redisplay_update_fields)
    ultimately show ?thesis using a [OF True] by (simp add: ed_good_def ed_shown_def term_at_def)
  next
    case False
    then have "forceRedisplay e = e" by (simp add: forceRedisplay_def)
    then show ?thesis using assms False by (simp add: ed_good_def ed_shown_def)
  qed
qed

text \<open>Operations that write nothing.\<close>

lemma waiting_good: "ed_sync s0 e' \<Longrightarrow> ed_redisplay e' \<Longrightarrow> ed_good s0 e'"
  by (simp add: ed_good_def ed_shown_def)

lemma sync_silent:
  assumes "ed_sync s0 e" "ed_inv e'" "ed_geom e'" "ed_out e' = ed_out e" "ed_column e' = ed_column e" "ed_displayHeight e' = ed_displayHeight e"
    "ed_line e' = ed_line e" "ed_bindings e' = ed_bindings e"
  shows "ed_sync s0 e'"
  using assms by (simp add: ed_sync_def ed_screen_def)

lemma sync_goto: "ed_sync s0 e \<Longrightarrow> ed_good s0 (gotoChar n e)"
  by (rule waiting_good, rule sync_silent [of s0 e]) (simp_all add: ed_sync_def, simp_all add: gotoChar_def redisplay_def ed_geom_def Let_def)

lemma clean_insert: "clean t \<Longrightarrow> clean s \<Longrightarrow> clean (insert_list i t s)"
  by (auto simp: clean_def insert_list_def dest: in_set_takeD in_set_dropD)

lemma clean_cut: "clean s \<Longrightarrow> clean (cut_list i j s)"
  by (auto simp: clean_def cut_list_def dest: in_set_takeD in_set_dropD)

lemma good_insert: "ed_sync s0 e \<Longrightarrow> clean t \<Longrightarrow> ed_good s0 (insert_text t e)"
  by (rule waiting_good, rule sync_silent [of s0 e])
    (simp_all add: ed_sync_def, simp_all add: insert_text_def gotoChar_def redisplay_def ed_geom_def clean_insert Let_def)

lemma good_delete: "ed_good s0 e \<Longrightarrow> ed_good s0 (deleteChar n e)"
proof (cases "ed_point e \<ge> length (ed_text e)")
  case False
  assume "ed_good s0 e"
  then have s: "ed_sync s0 e" by (simp add: ed_good_def)
  show ?thesis
    by (rule waiting_good, rule sync_silent [OF s]) (use s False in \<open>simp_all add: ed_sync_def\<close>, simp_all add: deleteChar_def redisplay_def ed_geom_def clean_cut)
qed (simp add: deleteChar_def)

lemma good_set_text: "ed_sync s0 e \<Longrightarrow> clean t \<Longrightarrow> ed_good s0 (set_text t n e)"
  by (rule waiting_good, rule sync_silent [of s0 e]) (simp_all add: ed_sync_def, simp_all add: set_text_def redisplay_def ed_geom_def Let_def)

lemma good_clear_text: "ed_sync s0 e \<Longrightarrow> ed_good s0 (clear_text e)"
  by (rule waiting_good, rule sync_silent [of s0 e])
    (simp_all add: ed_sync_def, simp_all add: clear_text_def set_text_def redisplay_def ed_geom_def clean_def Let_def)

lemma geom_updates [simp]: "ed_geom (e\<lparr>ed_historyPoint := n\<rparr>) = ed_geom e" "ed_geom (e\<lparr>ed_enabled := b\<rparr>) = ed_geom e" "ed_geom (e\<lparr>ed_lastKey := k\<rparr>) = ed_geom e"
  by (simp_all add: ed_geom_def)

lemma sync_history: "ed_sync s0 e \<Longrightarrow> n \<le> length (ed_history e) \<Longrightarrow> ed_sync s0 (e\<lparr>ed_historyPoint := n\<rparr>)"
  by (rule sync_silent [of s0 e]) (simp_all add: ed_sync_def, simp add: ed_inv_def)

lemma push_geom: "ed_geom e \<Longrightarrow> clean t \<Longrightarrow> ed_geom (pushHistory t a e)"
  by (auto simp: pushHistory_def ed_geom_def list_all_iff Let_def dest: in_set_dropD)

lemma sync_push: "ed_sync s0 e \<Longrightarrow> clean t \<Longrightarrow> ed_sync s0 (pushHistory t a e)"
  by (rule sync_silent [of s0 e]) (simp_all add: ed_sync_def push_geom, simp_all add: pushHistory_def Let_def)

lemma good_push: "ed_good s0 e \<Longrightarrow> clean t \<Longrightarrow> ed_good s0 (pushHistory t a e)"
proof -
  have "display_row (pushHistory t a e) = display_row e" "ed_enabled (pushHistory t a e) = ed_enabled e" "ed_redisplay (pushHistory t a e) = ed_redisplay e"
    "ed_screen s0 (pushHistory t a e) = ed_screen s0 e"
    by (simp_all add: pushHistory_def display_row_def shown_prompt_def ed_screen_def fun_eq_iff Let_def)
  then show "ed_good s0 e \<Longrightarrow> clean t \<Longrightarrow> ed_good s0 (pushHistory t a e)" by (simp add: ed_good_def sync_push ed_shown_def)
qed

lemma sync_cleans: "ed_sync s0 e \<Longrightarrow> clean (ed_text e)" "ed_sync s0 e \<Longrightarrow> n < length (ed_history e) \<Longrightarrow> clean (ed_history e ! n)"
  by (simp_all add: ed_sync_def ed_geom_def list_all_length)

lemma good_prev: "ed_good s0 e \<Longrightarrow> ed_good s0 (prevHistory e)"
proof (cases "ed_historyPoint e = 0")
  case False
  assume "ed_good s0 e"
  define e1 where "e1 = pushHistory (ed_text e) False e"
  have "ed_sync s0 e" using \<open>ed_good s0 e\<close> by (simp add: ed_good_def)
  then have s: "ed_sync s0 e1" unfolding e1_def by (intro sync_push sync_cleans(1))
  have h: "ed_historyPoint e1 - 1 < length (ed_history e1)" using s False by (auto simp: ed_sync_def ed_inv_def e1_def push_keeps_point)
  have "ed_good s0 (set_text (ed_history e1 ! (ed_historyPoint e1 - 1)) (length (ed_history e1 ! (ed_historyPoint e1 - 1))) (e1\<lparr>ed_historyPoint := ed_historyPoint e1 - 1\<rparr>))"
    using s h by (intro good_set_text sync_history) (auto intro: sync_cleans)
  then show ?thesis using False by (simp add: prevHistory_def e1_def Let_def)
qed (simp add: prevHistory_def)

lemma good_next: "ed_good s0 e \<Longrightarrow> ed_good s0 (nextHistory e)"
proof (cases "ed_historyPoint e \<ge> length (ed_history e)")
  case False
  assume g: "ed_good s0 e"
  define e1 where "e1 = pushHistory (ed_text e) False e"
  have "ed_sync s0 e" using g by (simp add: ed_good_def)
  then have s: "ed_sync s0 e1" unfolding e1_def by (intro sync_push sync_cleans(1))
  have "length (ed_history e) \<le> length (ed_history e1)" using g push_history_grows by (simp add: ed_good_def ed_sync_def ed_inv_def e1_def)
  then have h: "ed_historyPoint e1 + 1 \<le> length (ed_history e1)" using False by (simp add: e1_def push_keeps_point)
  have s2: "ed_sync s0 (e1\<lparr>ed_historyPoint := ed_historyPoint e1 + 1\<rparr>)" using s h by (rule sync_history)
  show ?thesis
  proof (cases "ed_historyPoint e1 + 1 \<ge> length (ed_history e1)")
    case True
    then show ?thesis using False good_set_text [OF s2, of "[]" 0] by (simp add: nextHistory_def e1_def Let_def clean_def)
  next
    case l: False
    define x where "x = ed_history e1 ! (ed_historyPoint e1 + 1)"
    have "clean x" unfolding x_def by (rule sync_cleans(2) [OF s]) (use l in simp)
    from good_set_text [OF s2 this, of "length x"] show ?thesis using False l by (simp add: nextHistory_def e1_def Let_def x_def)
  qed
qed (simp add: nextHistory_def)

text \<open>With one display line a reset only goes back to the first column.\<close>

lemma reset_one_line:
  assumes "ed_sync s0 e"
  shows "ed_reset e = (ed_writes [CHR 0x0D] e)\<lparr>ed_column := 0\<rparr>"
  using assms by (simp add: ed_reset_def toLine_def ed_sync_def ed_geom_def ed_writes_def ed_write_def Let_def)

lemma sync_core:
  assumes "ed_sync s0 e" "ed_core e' = ed_core e" "ed_displayHeight e' = 1" "ed_line e' = 0" "sc_col (ed_screen s0 e') = ed_column e'"
  shows "ed_sync s0 e'"
  using assms geom_core [OF assms(2)] inv_cong [OF assms(2)] core_eqD(13) [OF assms(2)] by (simp add: ed_sync_def)

lemma sync_reset: "ed_sync s0 e \<Longrightarrow> ed_sync s0 (ed_reset e)"
  by (rule sync_core) (simp_all add: reset_one_line, simp_all add: ed_writes_def ed_write_def ed_sync_def ed_screen_def)

lemma good_reset: "ed_good s0 e \<Longrightarrow> ed_good s0 (ed_reset e)"
proof -
  assume g: "ed_good s0 e"
  then have s: "ed_sync s0 e" by (simp add: ed_good_def)
  have "ed_screen s0 (ed_reset e) = (ed_screen s0 e)\<lparr>sc_col := 0\<rparr>" by (simp add: reset_one_line [OF s] ed_writes_def screen_write)
  moreover have "display_row (ed_reset e) = display_row e" by (rule display_core) simp
  ultimately show ?thesis using g by (simp add: ed_good_def sync_reset ed_shown_def)
qed

lemma sync_newline: "ed_sync s0 e \<Longrightarrow> ed_sync s0 (newline e)"
proof -
  assume s: "ed_sync s0 e"
  have "ed_caps e ClrEol" using s by (simp add: ed_sync_def ed_geom_def)
  then show ?thesis
    by (intro sync_core [OF s]) (simp_all, simp_all add: newline_def ed_cap_def ed_writes_def screen_write, use sync_reset [OF s] in \<open>simp_all add: ed_sync_def\<close>)
qed

lemma sync_clearLine: "ed_sync s0 e \<Longrightarrow> ed_sync s0 (clearLine e)"
proof -
  assume s: "ed_sync s0 e"
  have c: "ed_caps e ClrEol" using s by (simp add: ed_sync_def ed_geom_def)
  show ?thesis by (rule at_sync [OF at_clear [OF sync_at [OF s] c]]) (use s in \<open>simp_all add: ed_sync_def\<close>)
qed

lemma sync_clrscr: "ed_sync s0 e \<Longrightarrow> ed_sync s0 (clearLine (maybeClrScr e))"
proof -
  assume s: "ed_sync s0 e"
  have "ed_caps e ClrEol" using s by (simp add: ed_sync_def ed_geom_def)
  then have "sc_col (ed_screen s0 (clearLine (maybeClrScr e))) = 0 \<and> ed_column (clearLine (maybeClrScr e)) = 0"
    by (simp add: clearLine_def maybeClrScr_def ed_cap_def ed_writes_def screen_write)
  then show ?thesis using s by (intro sync_core [OF s]) (simp_all, simp_all add: ed_sync_def)
qed

lemma good_hide: "ed_sync s0 e \<Longrightarrow> ed_good s0 (hide_editor e)"
proof -
  assume s: "ed_sync s0 e"
  have "ed_sync s0 (clearLine (ed_reset e))" by (rule sync_clearLine) (rule sync_reset [OF s])
  then have "ed_sync s0 ((clearLine (ed_reset e))\<lparr>ed_enabled := False\<rparr>)" by (rule sync_silent) (use \<open>ed_sync s0 (clearLine (ed_reset e))\<close> in \<open>simp_all add: ed_sync_def\<close>)
  then show ?thesis using s by (auto simp: hide_editor_def ed_good_def ed_shown_def)
qed

lemma good_show: "ed_good s0 e \<Longrightarrow> ed_good s0 (show_editor e)"
proof (cases "ed_enabled e")
  case False
  assume "ed_good s0 e"
  then have s0: "ed_sync s0 e" by (simp add: ed_good_def)
  have "ed_sync s0 (e\<lparr>ed_enabled := True\<rparr>)" by (rule sync_silent [OF s0]) (use s0 in \<open>simp_all add: ed_sync_def\<close>)
  then have s: "ed_sync s0 (ed_reset (e\<lparr>ed_enabled := True\<rparr>))" by (rule sync_reset)
  have a: "ed_aux e = []" "ed_height e \<ge> 1" "ed_line e = 0" "ed_displayHeight e = 1" using \<open>ed_good s0 e\<close> by (simp_all add: ed_good_def ed_sync_def ed_geom_def)
  then have "toLine 0 (e\<lparr>ed_enabled := True\<rparr>) = ed_reset (e\<lparr>ed_enabled := True\<rparr>)"
    by (simp add: ed_reset_def) (simp add: toLine_def ed_writes_def ed_write_def Let_def)
  then show ?thesis using False a force_good(1) [OF s] by (simp add: show_editor_def)
qed (simp add: show_editor_def)

lemma good_accept: "ed_good s0 e \<Longrightarrow> (\<And>t e. ed_good s0 e \<Longrightarrow> ed_good s0 (callback t e)) \<Longrightarrow> ed_good s0 (accept_line callback e)"
proof -
  assume g: "ed_good s0 e" and cb: "\<And>t e. ed_good s0 e \<Longrightarrow> ed_good s0 (callback t e)"
  have "ed_sync s0 (if ed_enabled e then newline e else e)" using g by (simp add: ed_good_def sync_newline)
  then have "ed_good s0 (pushHistory (ed_text e) True (hide_editor (if ed_enabled e then newline e else e)))"
    using g by (intro good_push good_hide) (auto simp: ed_good_def dest: sync_cleans)
  then show ?thesis unfolding accept_line_def Let_def by (intro good_clear_text) (use cb in \<open>simp add: ed_good_def\<close>)
qed

lemma clean_key: "32 \<le> k \<Longrightarrow> k < 256 \<Longrightarrow> clean [char_of (nat k)]"
  by (auto simp: clean_def nat_less_iff dest: arg_cong [where f = "of_char :: char \<Rightarrow> nat"])

lemma lines_of_sync: "ed_sync s0 e \<Longrightarrow> ed_line e = 0"
  by (simp add: ed_sync_def)

lemma good_binding:
  assumes g: "ed_good s0 e" and cb: "\<And>t e. ed_good s0 e \<Longrightarrow> ed_good s0 (callback t e)" and b: "\<And>n. b \<noteq> complete n"
  shows "ed_good s0 (run_binding callback completers b e)"
proof -
  have s: "ed_sync s0 e" using g by (simp add: ed_good_def)
  have g': "ed_good s0 (gotoChar n e)" for n by (rule sync_goto [OF s])
  show ?thesis
  proof (cases b)
    case selfInsertCommand
    then show ?thesis using g good_insert [OF s clean_key] by (simp add: run_binding_def)
  next
    case acceptWithRepeat
    have "ed_good s0 (forceRedisplay (prevHistory e))" using good_prev [OF g] by (intro force_good) (simp add: ed_good_def)
    then show ?thesis using acceptWithRepeat g good_accept cb by (simp add: run_binding_def)
  next
    case restartEdit
    have "ed_good s0 (clear_text (newline e))" by (intro good_clear_text sync_newline s)
    moreover have "redisplay x = x" if "ed_redisplay x" for x using that by (cases x) (simp add: redisplay_def)
    moreover have "ed_redisplay (clear_text (newline e))" by (simp add: clear_text_def set_text_def redisplay_def Let_def)
    ultimately have "ed_good s0 (redisplay (clear_text (newline e)))" by simp
    then show ?thesis using restartEdit by (simp add: run_binding_def)
  next
    case clearScreenCmd
    have "ed_good s0 (forceRedisplay (clearLine (maybeClrScr e)))" by (rule force_good(1) [OF sync_clrscr [OF s]])
    then show ?thesis using clearScreenCmd by (simp add: run_binding_def)
  next
    case (complete n)
    then show ?thesis using b by simp
  qed (use g g' good_delete good_prev [OF g] good_next [OF g] good_accept [OF g cb] in \<open>simp_all add: run_binding_def\<close>)
qed

lemma good_key:
  assumes g: "ed_good s0 e" and cb: "\<And>t e. ed_good s0 e \<Longrightarrow> ed_good s0 (callback t e)"
    and e': "e' = keyReceived callback completers key e"
  shows "ed_good s0 e' \<and> (ed_enabled e \<and> ed_enabled e' \<longrightarrow>
    \<not> ed_redisplay e' \<and> ed_column e' = ed_point e' - ed_displayPos e' + ed_promptWidth e' + 1)"
proof (cases "ed_enabled e")
  case True
  have s: "ed_sync s0 e" using g by (simp add: ed_good_def)
  define e1 where "e1 = (clearAuxDisplay e)\<lparr>ed_lastKey := key\<rparr>"
  have "ed_aux (ed_reset e) = []" using s by (simp add: ed_sync_def ed_geom_def)
  then have "clearAuxDisplay e = ed_reset e" by (simp add: clearAuxDisplay_def)
  then have g1: "ed_good s0 e1" using good_reset [OF g]
    by (simp add: e1_def ed_good_def ed_sync_def ed_shown_def) (simp add: ed_screen_def display_row_def shown_prompt_def ed_inv_def fun_eq_iff Let_def)
  define e2 where "e2 = (case ed_bindings e1 key of Some b \<Rightarrow> run_binding callback completers b e1
                     | None \<Rightarrow> if 32 \<le> key \<and> key < 256 then insert_text [char_of (nat key)] e1 else e1)"
  have g2: "ed_good s0 e2"
  proof (cases "ed_bindings e1 key")
    case None
    then show ?thesis using g1 good_insert [of s0 e1] clean_key [of key] by (auto simp: e2_def ed_good_def)
  next
    case (Some b)
    moreover have "b \<noteq> complete n" for n using g1 Some by (auto simp: ed_good_def ed_sync_def)
    ultimately show ?thesis using good_binding [OF g1 cb] by (simp add: e2_def)
  qed
  have s2: "ed_sync s0 e2" "ed_line e2 = 0" using g2 lines_of_sync by (auto simp: ed_good_def)
  have "e' = (let e3 = (if ed_line e2 \<noteq> 0 then toLine 0 e2 else e2)
           in if ed_redisplay e3 then forceRedisplay e3 else toColumn (usub (ed_point e3) (ed_displayPos e3) + ed_promptWidth e3 + 1) e3)"
    unfolding e' keyReceived_def e2_def e1_def Let_def using True by simp
  then have k: "e' = (if ed_redisplay e2 then forceRedisplay e2 else toColumn (usub (ed_point e2) (ed_displayPos e2) + ed_promptWidth e2 + 1) e2)"
    using s2(2) by (simp add: Let_def)
  show ?thesis
  proof (cases "ed_redisplay e2")
    case True
    then show ?thesis using force_good [OF s2(1)] by (simp add: k)
  next
    case False
    have w: "ed_geom e2" "ed_inv e2" using s2 by (simp_all add: ed_sync_def)
    have u: "usub (ed_point e2) (ed_displayPos e2) = ed_point e2 - ed_displayPos e2" "ed_point e2 - ed_displayPos e2 + ed_promptWidth e2 + 1 \<le> ed_width e2"
    proof -
      have "ed_promptWidth e2 + ed_editWidth e2 + 3 = ed_width e2" "ed_width e2 < 2 ^ 32" using w(1) by (auto simp: ed_geom_def)
      moreover have "ed_displayPos e2 \<le> ed_point e2" "ed_point e2 \<le> ed_displayPos e2 + ed_editWidth e2" using w(2) by (simp_all add: ed_inv_def)
      ultimately show "usub (ed_point e2) (ed_displayPos e2) = ed_point e2 - ed_displayPos e2" "ed_point e2 - ed_displayPos e2 + ed_promptWidth e2 + 1 \<le> ed_width e2"
        by simp_all
    qed
    note a = at_column [OF sync_at [OF s2(1)] u(2) w(1)]
    have "ed_sync s0 e'" unfolding k using False u by simp (rule at_sync [OF a [simplified] _ s2(1)], use s2 in \<open>simp_all add: ed_sync_def\<close>)
    moreover have "display_row e' = display_row e2" unfolding k using False by simp (rule display_core, simp)
    moreover have "ed_screen s0 e' = (ed_screen s0 e2)\<lparr>sc_col := ed_column e'\<rparr>" using a False u by (simp add: k term_at_def)
    ultimately show ?thesis using g2 a False u by (simp add: ed_good_def ed_shown_def k term_at_def)
  qed
qed (use g in \<open>simp add: e' keyReceived_def\<close>)


lemma init_good:
  assumes "5 \<le> w" "w < 2 ^ 32" "1 \<le> h" "h < 2 ^ 32" "caps ClrEol" "caps ParmRightCursor \<or> caps CursorRight" "caps ParmLeftCursor \<or> caps CursorLeft"
    "sc_col s0 = 0"
  shows "ed_good s0 (fst (ed_cb_init True (new_editor caps w h))) \<and> ed_enabled (fst (ed_cb_init True (new_editor caps w h)))"
proof -
  define e1 where "e1 = (if ed_caps (new_editor caps w h) KeypadXmit then ed_cap KeypadXmit 1 (new_editor caps w h) else new_editor caps w h)"
  have core: "ed_core e1 = ed_core (new_editor caps w h)" by (simp add: e1_def)
  have f: "ed_text e1 = []" "ed_prompt e1 = ''$''" "ed_width e1 = w" "ed_height e1 = h" "ed_caps e1 = caps" "ed_aux e1 = []" "ed_history e1 = []" "\<not> ed_enabled e1"
    "ed_point e1 = 0" "ed_displayPos e1 = 0" "ed_historyPoint e1 = 0" "ed_bindings e1 = default_bindings"
    using core_eqD [OF core] by (simp_all add: new_editor_def)
  have p: "ed_displayHeight e1 = 1" "ed_line e1 = 0" "ed_column e1 = 0" "sc_col (ed_screen s0 e1) = 0"
    using assms(8) by (simp_all add: e1_def ed_cap_def) (simp_all add: new_editor_def ed_screen_def ed_write_def)
  have "ed_bindings e1 k \<noteq> Some (complete n)" for k n by (simp add: f default_bindings_def)
  then have "ed_good s0 (set_prompt (ed_prompt e1) e1)"
    using assms f p by (auto simp: ed_good_def ed_sync_def ed_shown_def ed_geom_def ed_inv_def set_prompt_def clean_def ed_screen_def Let_def)
  then have "ed_good s0 (show_editor (set_prompt (ed_prompt e1) e1))" by (rule good_show)
  moreover have "ed_enabled (show_editor (set_prompt (ed_prompt e1) e1))"
    using f by (simp add: show_editor_def set_prompt_def Let_def)
  moreover have "fst (ed_cb_init True (new_editor caps w h)) = show_editor (set_prompt (ed_prompt e1) e1)"
    using assms(5-7) by (simp add: ed_cb_init_def base_cb_init_def e1_def new_editor_def Let_def)
  ultimately show ?thesis by simp
qed


end
