(* ===== verification/Telnet_Terminal.thy ===== *)
theory Telnet_Terminal
  imports Telnet Key_Parser Editor_Display
begin

text \<open>
  The terminal at the other end of a telnet connection, \<open>senf/Utils/Termlib/TelnetTerminal.*\<close>: it asks for the options the line
  editor needs, starts the editor when they are there, and hands it the characters that arrive.

  The result of \<open>cb_init\<close> of the editor is an argument.
\<close>

record telnet_terminal =
  tt_telnet :: telnet
  tt_setupFailed :: bool

text \<open>The two option handlers register themselves first. The options are \<open>SUPPRESS_GO_AHEAD\<close> (3) and \<open>ECHO\<close> (1).\<close>

definition TelnetTerminal :: telnet_terminal where
  "TelnetTerminal =
     \<lparr>tt_telnet = requestLocalOption 1 True (requestLocalOption 3 True (requestPeerOption 3 True
        (registerHandler NAWS True (registerHandler TerminalType True BaseTelnetProtocol)))),
      tt_setupFailed = False\<rparr>"

datatype setup_result = SetupDone | SetupFailed | SetupUndone

text \<open>The tests are made in their order until one fails; \<open>cb_init\<close> is called last.\<close>

definition options_present :: "telnet \<Rightarrow> bool \<times> telnet" where
  "options_present t =
     (if \<not> (tn_width t > 0 \<and> tn_type t \<noteq> []) then (False, t)
      else case localOption 3 t of (False, t1) \<Rightarrow> (False, t1)
      | (True, t1) \<Rightarrow> (case peerOption 3 t1 of (False, t2) \<Rightarrow> (False, t2)
        | (True, t2) \<Rightarrow> localOption 1 t2))"

definition withdraw_requests :: "telnet \<Rightarrow> telnet" where
  "withdraw_requests t =
     requestPeerOption 31 False (requestPeerOption 24 False (requestLocalOption 1 False (requestLocalOption 3 False (requestPeerOption 3 False t))))"

definition tt_setupComplete :: "bool \<Rightarrow> telnet_terminal \<Rightarrow> telnet_terminal \<times> setup_result" where
  "tt_setupComplete init tt =
     (if tt_setupFailed tt then (tt, SetupFailed)
      else case options_present (tt_telnet tt) of
        (ok, t) \<Rightarrow>
          (if ok \<and> init then (tt\<lparr>tt_telnet := t\<rparr>, SetupDone)
           else let t' = withdraw_requests t
                in (\<lparr>tt_telnet = t', tt_setupFailed = True\<rparr>, if requestsPending t' then SetupUndone else SetupFailed)))"

text \<open>The characters that are handed to the editor.\<close>

definition byte_of_char :: "char \<Rightarrow> byte" where
  "byte_of_char c = word_of_nat (of_char c)"

definition char_of_byte :: "byte \<Rightarrow> char" where
  "char_of_byte b = char_of (unat b)"

fun typed_chars :: "telnet_call list \<Rightarrow> string" where
  "typed_chars [] = []"
| "typed_chars (CharReceived b # cs) = char_of_byte b # typed_chars cs"
| "typed_chars (_ # cs) = typed_chars cs"

definition tt_charsReceived :: "(int \<Rightarrow> 'e \<Rightarrow> 'e) \<Rightarrow> key_table \<Rightarrow> telnet_call list \<Rightarrow> string \<times> 'e \<Rightarrow> (string \<times> 'e) option" where
  "tt_charsReceived handler table calls s = feed handler table (typed_chars calls) s"

lemma char_byte [simp]: "char_of_byte (byte_of_char c) = c"
  using nat_of_char_less_256 [of c] by (simp add: char_of_byte_def byte_of_char_def unat_of_nat)

lemma typed_bytes: "typed_chars (map (CharReceived \<circ> byte_of_char) s) = s"
  by (induction s) simp_all

text \<open>What one side writes arrives as the same characters at the other.\<close>

lemma written_arrives:
  assumes "tn_sendQueue a = []" "tn_charState b = NORMAL"
  shows "tn_calls (readHandler lower True False (tn_sendQueue (tn_write s a)) b) = tn_calls b @ map CharReceived s"
proof -
  have "list_all msg_ok (map Character s)" by (simp add: list_all_iff)
  then have "handleChars lower (concat (map encode (map Character s))) b = receives lower (map Character s) b"
    using handleChars_stream assms(2) by blast
  then show ?thesis by (simp add: readHandler_def tn_write_queue assms(1) receives_characters)
qed

text \<open>A sequence of editing keys keeps the terminal in step with the editor.\<close>

lemma keys_good:
  assumes g: "ed_good s0 e" "ed_enabled e" and cb: "\<And>t e. ed_good s0 e \<Longrightarrow> ed_good s0 (callback t e)"
  shows "list_all (\<lambda>k. key_edit (ed_bindings e) k \<noteq> None) keys \<Longrightarrow> e' = fold (keyReceived callback completers) keys e \<Longrightarrow>
    ed_good s0 e' \<and> ed_enabled e' \<and> ed_bindings e' = ed_bindings e \<and>
    (keys \<noteq> [] \<longrightarrow> \<not> ed_redisplay e' \<and> ed_column e' = ed_point e' - ed_displayPos e' + ed_promptWidth e' + 1)"
proof (induction keys arbitrary: e' rule: rev_induct)
  case Nil
  then show ?case using g by simp
next
  case (snoc k keys)
  define f where "f = fold (keyReceived callback completers) keys e"
  have f: "ed_good s0 f" "ed_enabled f" "ed_bindings f = ed_bindings e" using snoc.IH [OF _ f_def] snoc.prems(1) by simp_all
  have e': "e' = keyReceived callback completers k f" using snoc.prems(2) by (simp add: f_def)
  obtain d where "key_edit (ed_bindings f) k = Some d" using snoc.prems(1) f(3) by auto
  moreover have "ed_inv f" using f(1) by (simp add: ed_good_def ed_sync_def)
  ultimately have "ed_enabled e'" "ed_bindings e' = ed_bindings f" using edit_key [of f k d callback completers] f(2) e' by simp_all
  then show ?case using good_key [OF f(1) cb e'] f(2,3) by simp
qed

end
