(* ===== verification/Console_Nodes.thy ===== *)
theory Console_Nodes
  imports String_Order Fd_Events
begin

text \<open>
  The tree of the console, \<open>senf/Utils/Console/Node.*\<close>: directories with named children, links and commands. The nodes
  are in a store from addresses to nodes; a destroyed node has no entry. A command is a number.

  The loops that go up to the parents need not end when a directory is below itself: then there is no result.
\<close>

section \<open>Nodes\<close>

datatype node_kind = DirectoryNode | LinkNode nat | CommandNode nat

record cnode =
  cn_kind :: node_kind
  cn_name :: string
  cn_parent :: "nat option"
  cn_children :: "(string \<times> nat) list"
  cn_doc :: string
  cn_shortdoc :: string

type_synonym ctree = "nat \<Rightarrow> cnode option"

datatype node_error = UnknownNodeName string | BadCast | NodeHasParent | NoNode

definition new_node :: "node_kind \<Rightarrow> cnode" where
  "new_node k = \<lparr>cn_kind = k, cn_name = [], cn_parent = None, cn_children = [], cn_doc = [], cn_shortdoc = []\<rparr>"

definition node_update :: "nat \<Rightarrow> (cnode \<Rightarrow> cnode) \<Rightarrow> ctree \<Rightarrow> ctree" where
  "node_update n f t = t(n := map_option f (t n))"

definition hasChild :: "ctree \<Rightarrow> nat \<Rightarrow> string \<Rightarrow> bool" where
  "hasChild t d name = (case t d of None \<Rightarrow> False | Some nd \<Rightarrow> map_of (cn_children nd) name \<noteq> None)"

definition node_remove :: "nat \<Rightarrow> string \<Rightarrow> ctree \<Rightarrow> node_error + (nat \<times> ctree)" where
  "node_remove d name t =
     (case t d of None \<Rightarrow> Inl NoNode
      | Some nd \<Rightarrow> (case map_of (cn_children nd) name of
          None \<Rightarrow> Inl (UnknownNodeName name)
        | Some c \<Rightarrow> Inr (c, node_update c (\<lambda>x. x\<lparr>cn_parent := None, cn_name := []\<rparr>)
            (node_update d (\<lambda>x. x\<lparr>cn_children := filter (\<lambda>p. fst p \<noteq> name) (cn_children x)\<rparr>) t))))"

definition node_remove_nothrow :: "nat \<Rightarrow> string \<Rightarrow> ctree \<Rightarrow> nat option \<times> ctree" where
  "node_remove_nothrow d name t = (case node_remove d name t of Inl _ \<Rightarrow> (None, t) | Inr (c, t') \<Rightarrow> (Some c, t'))"

subsection \<open>Unique names\<close>

definition suffix_name :: "string \<Rightarrow> nat \<Rightarrow> string" where
  "suffix_name name k = name @ ''-'' @ digits_of k"

fun digits_value :: "string \<Rightarrow> nat" where
  "digits_value ds = foldl (\<lambda>v c. v * 10 + (of_char c - 48)) 0 ds"

lemma digits_value_of: "digits_value (digits_of n) = n"
proof (induction n rule: digits_of.induct)
  case (1 n)
  have c: "(of_char (char_of (48 + k) :: char) :: nat) = 48 + k" if "k < 10" for k :: nat using that by simp
  show ?case
  proof (cases "n < 10")
    case True
    then show ?thesis using c [of n] by (subst digits_of.simps) simp
  next
    case False
    have "digits_value (digits_of n) = digits_value (digits_of (n div 10)) * 10 + n mod 10"
      using False c [of "n mod 10"] by (subst digits_of.simps) simp
    then show ?thesis using 1 False by simp
  qed
qed

lemma suffix_name_inj: "suffix_name name i = suffix_name name j \<Longrightarrow> i = j"
  unfolding suffix_name_def using digits_value_of by (metis append.assoc same_append_eq)

text \<open>The loop that counts until the name is new.\<close>

function unique_name :: "string set \<Rightarrow> string \<Rightarrow> nat \<Rightarrow> string" where
  "unique_name names name k =
     (if infinite names then name
      else if suffix_name name (k + 1) \<in> names then unique_name names name (k + 1) else suffix_name name (k + 1))"
  by pat_completeness auto

termination
proof (relation "measure (\<lambda>(names, name, s). card {i. s < i \<and> suffix_name name i \<in> names})")
  fix names :: "string set" and name s
  assume f: "\<not> infinite names" and i: "suffix_name name (s + 1) \<in> names"
  have "inj (suffix_name name)" by (auto intro: injI suffix_name_inj)
  then have "finite {i. suffix_name name i \<in> names}" using f by (auto intro: finite_vimageI simp flip: vimage_def)
  then have "finite {i. s < i \<and> suffix_name name i \<in> names}" by (rule rev_finite_subset) auto
  moreover have "{i. s + 1 < i \<and> suffix_name name i \<in> names} \<subset> {i. s < i \<and> suffix_name name i \<in> names}" using i by auto
  ultimately show "((names, name, s + 1), names, name, s) \<in> measure (\<lambda>(names, name, s). card {i. s < i \<and> suffix_name name i \<in> names})"
    by (simp add: psubset_card_mono)
qed simp

declare unique_name.simps [simp del]

lemma unique_name_new: "finite names \<Longrightarrow> unique_name names name s \<notin> names"
proof (induction names name s rule: unique_name.induct)
  case (1 names name s)
  then show ?case by (subst unique_name.simps) auto
qed

lemma unique_name_form: "finite names \<Longrightarrow> \<exists>i. unique_name names name s = suffix_name name i"
proof (induction names name s rule: unique_name.induct)
  case (1 names name s)
  then show ?case by (subst unique_name.simps) auto
qed

definition node_add :: "nat \<Rightarrow> nat \<Rightarrow> ctree \<Rightarrow> node_error + ctree" where
  "node_add d n t =
     (case (t d, t n) of
        (Some nd, Some x) \<Rightarrow>
          (if cn_parent x \<noteq> None then Inl NodeHasParent
           else let name1 = (if cn_name x = [] then ''unnamed'' else cn_name x);
                    name2 = (if map_of (cn_children nd) name1 \<noteq> None then unique_name (fst ` set (cn_children nd)) name1 0 else name1)
                in Inr (node_update n (\<lambda>x. x\<lparr>cn_name := name2, cn_parent := Some d\<rparr>)
                     (node_update d (\<lambda>x. x\<lparr>cn_children := table_insert name2 n (cn_children x)\<rparr>) t)))
      | _ \<Rightarrow> Inl NoNode)"

definition node_add_named :: "nat \<Rightarrow> string \<Rightarrow> nat \<Rightarrow> ctree \<Rightarrow> node_error + ctree" where
  "node_add_named d name n t =
     (case t n of None \<Rightarrow> Inl NoNode
      | Some x \<Rightarrow> if cn_parent x \<noteq> None then Inl NodeHasParent else node_add d n (node_update n (\<lambda>x. x\<lparr>cn_name := name\<rparr>) t))"

definition node_unlink :: "nat \<Rightarrow> ctree \<Rightarrow> node_error + (nat \<times> ctree)" where
  "node_unlink n t =
     (case t n of None \<Rightarrow> Inl NoNode
      | Some x \<Rightarrow> (case cn_parent x of Some d \<Rightarrow> node_remove d (cn_name x) t | None \<Rightarrow> Inr (n, t)))"

definition node_rename :: "nat \<Rightarrow> string \<Rightarrow> ctree \<Rightarrow> node_error + ctree" where
  "node_rename n newName t =
     (case t n of None \<Rightarrow> Inl NoNode
      | Some x \<Rightarrow> (case cn_parent x of None \<Rightarrow> Inr t
          | Some d \<Rightarrow> (case node_unlink n t of Inl e \<Rightarrow> Inl e | Inr (m, t') \<Rightarrow> node_add_named d newName m t')))"

text \<open>The last reference to a node is given up.\<close>

definition node_destroy :: "nat \<Rightarrow> ctree \<Rightarrow> ctree" where
  "node_destroy n t =
     (case t n of None \<Rightarrow> t
      | Some x \<Rightarrow> (fold (\<lambda>p. node_update (snd p) (\<lambda>y. y\<lparr>cn_parent := None\<rparr>)) (cn_children x) t)(n := None))"

definition node_create :: "nat \<Rightarrow> node_kind \<Rightarrow> ctree \<Rightarrow> ctree" where
  "node_create n k t = t(n \<mapsto> new_node k)"

subsection \<open>Looking up\<close>

definition getLink :: "ctree \<Rightarrow> nat \<Rightarrow> string \<Rightarrow> node_error + nat" where
  "getLink t d name =
     (case t d of None \<Rightarrow> Inl NoNode
      | Some nd \<Rightarrow> (case map_of (cn_children nd) name of None \<Rightarrow> Inl (UnknownNodeName name) | Some c \<Rightarrow> Inr c))"

definition followLink :: "ctree \<Rightarrow> nat \<Rightarrow> nat" where
  "followLink t n = (case t n of Some x \<Rightarrow> (case cn_kind x of LinkNode m \<Rightarrow> m | _ \<Rightarrow> n) | None \<Rightarrow> n)"

definition node_get :: "ctree \<Rightarrow> nat \<Rightarrow> string \<Rightarrow> node_error + nat" where
  "node_get t d name = (case getLink t d name of Inl e \<Rightarrow> Inl e | Inr c \<Rightarrow> Inr (followLink t c))"

definition isDirectory :: "ctree \<Rightarrow> nat \<Rightarrow> bool" where
  "isDirectory t n = (case t n of Some x \<Rightarrow> cn_kind x = DirectoryNode | None \<Rightarrow> False)"

definition isCommand :: "ctree \<Rightarrow> nat \<Rightarrow> bool" where
  "isCommand t n = (case t n of Some x \<Rightarrow> (case cn_kind x of CommandNode _ \<Rightarrow> True | _ \<Rightarrow> False) | None \<Rightarrow> False)"

definition getDirectory :: "ctree \<Rightarrow> nat \<Rightarrow> string \<Rightarrow> node_error + nat" where
  "getDirectory t d name = (case node_get t d name of Inl e \<Rightarrow> Inl e | Inr c \<Rightarrow> if isDirectory t c then Inr c else Inl BadCast)"

definition getCommand :: "ctree \<Rightarrow> nat \<Rightarrow> string \<Rightarrow> node_error + nat" where
  "getCommand t d name = (case node_get t d name of Inl e \<Rightarrow> Inl e | Inr c \<Rightarrow> if isCommand t c then Inr c else Inl BadCast)"

text \<open>The documentation; the one of a link is the one of the node it leads to.\<close>

definition node_set_doc :: "nat \<Rightarrow> string \<Rightarrow> ctree \<Rightarrow> ctree" where
  "node_set_doc n d = node_update n (\<lambda>x. x\<lparr>cn_doc := d\<rparr>)"

definition node_set_shortdoc :: "nat \<Rightarrow> string \<Rightarrow> ctree \<Rightarrow> ctree" where
  "node_set_shortdoc n d = node_update n (\<lambda>x. x\<lparr>cn_shortdoc := d\<rparr>)"

definition node_help :: "ctree \<Rightarrow> nat \<Rightarrow> string" where
  "node_help t n = (case t (followLink t n) of None \<Rightarrow> [] | Some x \<Rightarrow> cn_doc x @ [CHR 0x0A])"

definition node_shorthelp :: "ctree \<Rightarrow> nat \<Rightarrow> string" where
  "node_shorthelp t n =
     (case t (followLink t n) of None \<Rightarrow> []
      | Some x \<Rightarrow> if cn_shortdoc x \<noteq> [] then cn_shortdoc x else takeWhile (\<lambda>c. c \<noteq> CHR 0x0A) (cn_doc x))"

text \<open>A new link leads to the end of the links that begin at the node.\<close>

partial_function (option) link_target :: "ctree \<Rightarrow> nat \<Rightarrow> nat option" where
  "link_target t n =
     (case t n of None \<Rightarrow> None | Some x \<Rightarrow> (case cn_kind x of LinkNode m \<Rightarrow> link_target t m | _ \<Rightarrow> Some n))"

definition link_create :: "nat \<Rightarrow> nat \<Rightarrow> ctree \<Rightarrow> ctree option" where
  "link_create l n t = map_option (\<lambda>m. node_create l (LinkNode m) t) (link_target t n)"

definition node_completions :: "ctree \<Rightarrow> nat \<Rightarrow> string \<Rightarrow> (string \<times> nat) list" where
  "node_completions t d s = (case t d of None \<Rightarrow> [] | Some nd \<Rightarrow> table_range s (s @ [CHR 0xFF]) (cn_children nd))"

subsection \<open>Paths\<close>

text \<open>The nodes from the top down to this one.\<close>

partial_function (option) node_chain :: "ctree \<Rightarrow> nat \<Rightarrow> nat list option" where
  "node_chain t n =
     (case t n of None \<Rightarrow> None
      | Some x \<Rightarrow> (case cn_parent x of None \<Rightarrow> Some [n] | Some d \<Rightarrow> Option.bind (node_chain t d) (\<lambda>ns. Some (ns @ [n]))))"

fun join_slash :: "string list \<Rightarrow> string" where
  "join_slash [] = []"
| "join_slash [w] = w"
| "join_slash (w # v # ws) = w @ ''/'' @ join_slash (v # ws)"

definition chain_name :: "ctree \<Rightarrow> nat \<Rightarrow> string" where
  "chain_name t n = (case t n of None \<Rightarrow> [] | Some x \<Rightarrow> cn_name x)"

definition node_path :: "ctree \<Rightarrow> nat \<Rightarrow> string option" where
  "node_path t n = map_option (\<lambda>ns. let p = join_slash (map (chain_name t) ns) in if p = [] then ''/'' else p) (node_chain t n)"

definition node_active :: "ctree \<Rightarrow> nat \<Rightarrow> nat \<Rightarrow> bool option" where
  "node_active t root n = map_option (\<lambda>ns. hd ns = root) (node_chain t n)"

partial_function (option) isChildOf :: "ctree \<Rightarrow> nat \<Rightarrow> nat \<Rightarrow> bool option" where
  "isChildOf t n d =
     (if n = d then Some True
      else case t n of None \<Rightarrow> None
           | Some x \<Rightarrow> (case cn_parent x of None \<Rightarrow> Some False | Some p \<Rightarrow> isChildOf t p d))"

text \<open>The path below another directory.\<close>

partial_function (option) path_up :: "ctree \<Rightarrow> nat \<Rightarrow> nat \<Rightarrow> string \<Rightarrow> string option" where
  "path_up t root n path =
     (if n = root then Some path
      else case t n of None \<Rightarrow> None
           | Some x \<Rightarrow> (let path' = (if path \<noteq> [] then cn_name x @ ''/'' @ path else cn_name x)
               in case cn_parent x of None \<Rightarrow> Some path' | Some p \<Rightarrow> path_up t root p path'))"

definition node_path_in :: "ctree \<Rightarrow> nat \<Rightarrow> nat \<Rightarrow> string option" where
  "node_path_in t root n = map_option (\<lambda>p. if p = [] \<or> hd p \<noteq> CHR ''/'' then ''/'' @ p else p) (path_up t root n [])"

definition provideDirectory :: "nat \<Rightarrow> string \<Rightarrow> nat \<Rightarrow> ctree \<Rightarrow> node_error + (nat \<times> ctree)" where
  "provideDirectory d name fresh t =
     (if hasChild t d name then (case getDirectory t d name of Inl e \<Rightarrow> Inl e | Inr c \<Rightarrow> Inr (c, t))
      else (case node_add_named d name fresh (node_create fresh DirectoryNode t) of Inl e \<Rightarrow> Inl e | Inr t' \<Rightarrow> Inr (fresh, t')))"

text \<open>All children of one directory become children of another.\<close>

fun move_all :: "nat \<Rightarrow> nat \<Rightarrow> string list \<Rightarrow> ctree \<Rightarrow> node_error + ctree" where
  "move_all from dest [] t = Inr t"
| "move_all from dest (name # names) t =
     (case node_remove from name t of Inl e \<Rightarrow> Inl e
      | Inr (c, t1) \<Rightarrow> (case node_add_named dest name c t1 of Inl e \<Rightarrow> Inl e | Inr t2 \<Rightarrow> move_all from dest names t2))"

definition moveChildren :: "nat \<Rightarrow> nat \<Rightarrow> ctree \<Rightarrow> node_error + ctree" where
  "moveChildren from dest t = (case t from of None \<Rightarrow> Inl NoNode | Some nd \<Rightarrow> move_all from dest (map fst (cn_children nd)) t)"

section \<open>The tree\<close>

text \<open>The parts of a node; a node that is not there has none.\<close>

definition pv :: "ctree \<Rightarrow> nat \<Rightarrow> nat option" where "pv t n = Option.bind (t n) cn_parent"
definition nv :: "ctree \<Rightarrow> nat \<Rightarrow> string" where "nv t n = (case t n of None \<Rightarrow> [] | Some x \<Rightarrow> cn_name x)"
definition cv :: "ctree \<Rightarrow> nat \<Rightarrow> (string \<times> nat) list" where "cv t n = (case t n of None \<Rightarrow> [] | Some x \<Rightarrow> cn_children x)"
definition kv :: "ctree \<Rightarrow> nat \<Rightarrow> node_kind option" where "kv t n = map_option cn_kind (t n)"

lemmas views = pv_def nv_def cv_def kv_def

definition parent_rel :: "ctree \<Rightarrow> (nat \<times> nat) set" where
  "parent_rel t = {(d, c). pv t c = Some d}"

text \<open>
  Directories and their children agree, the children are in order, links lead to nodes that are no links, and no
  directory is below itself.
\<close>

definition tree_ok :: "ctree \<Rightarrow> bool" where
  "tree_ok t \<longleftrightarrow> (\<forall>d. table_sorted (cv t d) \<and> (cv t d \<noteq> [] \<longrightarrow> kv t d = Some DirectoryNode)) \<and>
     (\<forall>d name c. (name, c) \<in> set (cv t d) \<longleftrightarrow> pv t c = Some d \<and> nv t c = name) \<and>
     (\<forall>l m. kv t l = Some (LinkNode m) \<longrightarrow> kv t m \<noteq> None \<and> (\<forall>k. kv t m \<noteq> Some (LinkNode k))) \<and>
     wf (parent_rel t)"

lemma child_iff: "tree_ok t \<Longrightarrow> map_of (cv t d) name = Some c \<longleftrightarrow> pv t c = Some d \<and> nv t c = name"
proof -
  assume ok: "tree_ok t"
  then have "distinct (map fst (cv t d))" using sorted_distinct by (auto simp: tree_ok_def)
  then show ?thesis using ok by (simp add: tree_ok_def)
qed

lemma not_own_parent: "tree_ok t \<Longrightarrow> pv t c = Some d \<Longrightarrow> c \<noteq> d"
  by (auto simp: tree_ok_def parent_rel_def dest: wf_not_refl)

lemma parent_directory:
  assumes "tree_ok t" "pv t c = Some d"
  shows "kv t d = Some DirectoryNode"
proof -
  have "(nv t c, c) \<in> set (cv t d)" using assms by (simp add: tree_ok_def)
  then have "cv t d \<noteq> []" by auto
  then show ?thesis using assms(1) by (simp add: tree_ok_def)
qed

lemma parent_exists: "tree_ok t \<Longrightarrow> pv t c = Some d \<Longrightarrow> t d \<noteq> None"
  by (drule (1) parent_directory) (auto simp: kv_def)

lemma remove_views:
  assumes ok: "tree_ok t" and r: "node_remove d name t = Inr (c, t')"
  shows "pv t c = Some d" "nv t c = name" "pv t' = (pv t)(c := None)" "nv t' = (nv t)(c := [])"
    "cv t' = (cv t)(d := filter (\<lambda>p. fst p \<noteq> name) (cv t d))" "kv t' = kv t"
proof -
  obtain nd where nd: "t d = Some nd" "map_of (cn_children nd) name = Some c"
    and t': "t' = node_update c (\<lambda>x. x\<lparr>cn_parent := None, cn_name := []\<rparr>) (node_update d (\<lambda>x. x\<lparr>cn_children := filter (\<lambda>p. fst p \<noteq> name) (cn_children x)\<rparr>) t)"
    using r by (auto simp: node_remove_def split: option.splits)
  have "map_of (cv t d) name = Some c" using nd by (simp add: cv_def)
  then show p: "pv t c = Some d" "nv t c = name" using child_iff [OF ok] by auto
  have "c \<noteq> d" by (rule not_own_parent [OF ok p(1)])
  then show "pv t' = (pv t)(c := None)" "nv t' = (nv t)(c := [])" "cv t' = (cv t)(d := filter (\<lambda>p. fst p \<noteq> name) (cv t d))" "kv t' = kv t"
    using nd(1) by (auto simp: t' views node_update_def fun_eq_iff map_option_case split: option.splits)
qed

lemma remove_ok:
  assumes ok: "tree_ok t" and r: "node_remove d name t = Inr (c, t')"
  shows "tree_ok t'"
proof -
  note v = remove_views [OF assms]
  have only: "(name, c') \<in> set (cv t d) \<Longrightarrow> c' = c" for c'
    using child_iff [OF ok, of d name] v(1,2) ok by (metis option.inject tree_ok_def)
  have "parent_rel t' \<subseteq> parent_rel t" by (auto simp: parent_rel_def v(3) split: if_splits)
  then have "wf (parent_rel t')" using ok by (auto simp: tree_ok_def intro: wf_subset)
  moreover have "(nm, b) \<in> set (cv t' e) \<longleftrightarrow> pv t' b = Some e \<and> nv t' b = nm" for e nm b
  proof -
    have "(nm, b) \<in> set (cv t e) \<longleftrightarrow> pv t b = Some e \<and> nv t b = nm" using ok by (simp add: tree_ok_def)
    then show ?thesis using v(1,2) only by (cases "e = d"; cases "b = c") (auto simp: v(3-5))
  qed
  moreover have "table_sorted (cv t' e) \<and> (cv t' e \<noteq> [] \<longrightarrow> kv t' e = Some DirectoryNode)" for e
  proof -
    have "filter (\<lambda>p. fst p \<noteq> name) (cv t d) \<noteq> [] \<Longrightarrow> cv t d \<noteq> []" by auto
    then show ?thesis using ok filter_sorted [of "cv t d"] by (auto simp: tree_ok_def v(5,6))
  qed
  moreover have "\<forall>l m. kv t' l = Some (LinkNode m) \<longrightarrow> kv t' m \<noteq> None \<and> (\<forall>k. kv t' m \<noteq> Some (LinkNode k))" using ok by (simp add: tree_ok_def v(6))
  ultimately show ?thesis by (simp add: tree_ok_def)
qed

text \<open>The name a node gets.\<close>

definition added_name :: "ctree \<Rightarrow> nat \<Rightarrow> string \<Rightarrow> string" where
  "added_name t d name =
     (let name1 = (if name = [] then ''unnamed'' else name)
      in if map_of (cv t d) name1 \<noteq> None then unique_name (fst ` set (cv t d)) name1 0 else name1)"

lemma added_name_new: "added_name t d name \<notin> fst ` set (cv t d)"
  using unique_name_new [of "fst ` set (cv t d)"] by (auto simp: added_name_def Let_def map_of_eq_None_iff)

lemma add_views:
  assumes "node_add d n t = Inr t'" "n \<noteq> d"
  shows "pv t n = None" "t d \<noteq> None" "pv t' = (pv t)(n := Some d)" "nv t' = (nv t)(n := added_name t d (nv t n))"
    "cv t' = (cv t)(d := table_insert (added_name t d (nv t n)) n (cv t d))" "kv t' = kv t"
proof -
  obtain nd x where nd: "t d = Some nd" "t n = Some x" "cn_parent x = None"
    and t': "t' = node_update n (\<lambda>x. x\<lparr>cn_name := added_name t d (nv t n), cn_parent := Some d\<rparr>)
       (node_update d (\<lambda>x. x\<lparr>cn_children := table_insert (added_name t d (nv t n)) n (cn_children x)\<rparr>) t)"
    using assms(1) by (auto simp: node_add_def added_name_def views Let_def split: option.splits if_splits)
  then show "pv t n = None" "t d \<noteq> None" by (simp_all add: pv_def)
  define name where "name = added_name t d (nv t n)"
  show "pv t' = (pv t)(n := Some d)" "nv t' = (nv t)(n := added_name t d (nv t n))"
    "cv t' = (cv t)(d := table_insert (added_name t d (nv t n)) n (cv t d))" "kv t' = kv t"
    unfolding name_def [symmetric] using nd assms(2) t' [folded name_def] by (auto simp: views node_update_def fun_eq_iff split: option.splits)
qed

lemma add_ok:
  assumes ok: "tree_ok t" and a: "node_add d n t = Inr t'" and k: "kv t d = Some DirectoryNode" and above: "(n, d) \<notin> (parent_rel t)\<^sup>*"
  shows "tree_ok t'"
proof -
  have "n \<noteq> d" using above by auto
  note v = add_views [OF a this]
  define name where "name = added_name t d (nv t n)"
  note v' = v [folded name_def]
  have new: "name \<notin> fst ` set (cv t d)" unfolding name_def by (rule added_name_new)
  have iff: "(nm, b) \<in> set (cv t e) \<longleftrightarrow> pv t b = Some e \<and> nv t b = nm" for e nm b using ok by (simp add: tree_ok_def)
  have "parent_rel t' = insert (d, n) (parent_rel t)" using v(1) by (auto simp: parent_rel_def v(3) split: if_splits)
  then have "wf (parent_rel t')" using ok above by (simp add: tree_ok_def)
  moreover have "(nm, b) \<in> set (cv t' e) \<longleftrightarrow> pv t' b = Some e \<and> nv t' b = nm" for e nm b
    using v(1) iff [of nm b e] by (cases "e = d"; cases "b = n") (auto simp: v'(3-5) set_insert_new [OF new])
  moreover have "table_sorted (cv t' e) \<and> (cv t' e \<noteq> [] \<longrightarrow> kv t' e = Some DirectoryNode)" for e
    using ok insert_sorted [of "cv t d"] k by (auto simp: tree_ok_def v'(5,6))
  moreover have "\<forall>l m. kv t' l = Some (LinkNode m) \<longrightarrow> kv t' m \<noteq> None \<and> (\<forall>k. kv t' m \<noteq> Some (LinkNode k))" using ok by (simp add: tree_ok_def v(6))
  ultimately show ?thesis by (simp add: tree_ok_def)
qed

text \<open>A node that is in no directory may get any name.\<close>

lemma name_views:
  assumes "t n = Some x"
  shows "pv (node_update n (\<lambda>x. x\<lparr>cn_name := name\<rparr>) t) = pv t" "nv (node_update n (\<lambda>x. x\<lparr>cn_name := name\<rparr>) t) = (nv t)(n := name)"
    "cv (node_update n (\<lambda>x. x\<lparr>cn_name := name\<rparr>) t) = cv t" "kv (node_update n (\<lambda>x. x\<lparr>cn_name := name\<rparr>) t) = kv t"
  using assms by (auto simp: views node_update_def fun_eq_iff split: option.splits)

lemma name_ok:
  assumes "tree_ok t" "t n = Some x" "pv t n = None"
  shows "tree_ok (node_update n (\<lambda>x. x\<lparr>cn_name := name\<rparr>) t)"
proof -
  show ?thesis using assms(1,3) unfolding tree_ok_def parent_rel_def name_views [of t n x, OF assms(2)] by auto
qed

lemma add_named_ok:
  assumes "tree_ok t" "node_add_named d name n t = Inr t'" "kv t d = Some DirectoryNode" "(n, d) \<notin> (parent_rel t)\<^sup>*"
  shows "tree_ok t'"
proof -
  obtain x where x: "t n = Some x" "cn_parent x = None" and a: "node_add d n (node_update n (\<lambda>x. x\<lparr>cn_name := name\<rparr>) t) = Inr t'"
    using assms(2) by (auto simp: node_add_named_def split: option.splits if_splits)
  note v = name_views [of t n x name, OF x(1)]
  have "tree_ok (node_update n (\<lambda>x. x\<lparr>cn_name := name\<rparr>) t)" by (rule name_ok [OF assms(1) x(1)]) (simp add: pv_def x)
  then show ?thesis using a by (rule add_ok) (use assms(3,4) v in \<open>simp_all add: parent_rel_def\<close>)
qed

lemma unlink_ok: "tree_ok t \<Longrightarrow> node_unlink n t = Inr (m, t') \<Longrightarrow> tree_ok t'"
  by (auto simp: node_unlink_def remove_ok split: option.splits)

lemma unlink_self:
  assumes "tree_ok t" "node_unlink n t = Inr (m, t')"
  shows "m = n"
proof (cases "pv t n")
  case (Some d)
  then obtain x where x: "t n = Some x" "cn_parent x = Some d" by (auto simp: pv_def bind_eq_Some_conv)
  then have r: "node_remove d (nv t n) t = Inr (m, t')" using assms(2) by (simp add: node_unlink_def nv_def)
  note v = remove_views [OF assms(1) r]
  show ?thesis using child_iff [OF assms(1), of d "nv t n"] v(1,2) Some by (metis option.inject)
qed (use assms(2) in \<open>auto simp: node_unlink_def pv_def split: option.splits\<close>)

lemma rename_ok:
  assumes ok: "tree_ok t" and r: "node_rename n name t = Inr t'"
  shows "tree_ok t'"
proof (cases "pv t n")
  case None
  then show ?thesis using r ok by (auto simp: node_rename_def pv_def split: option.splits)
next
  case (Some d)
  then obtain x where x: "t n = Some x" "cn_parent x = Some d" by (auto simp: pv_def bind_eq_Some_conv)
  obtain m t1 where u: "node_unlink n t = Inr (m, t1)" and a: "node_add_named d name m t1 = Inr t'"
    using r x by (auto simp: node_rename_def split: sum.splits)
  have m: "m = n" by (rule unlink_self [OF ok u])
  have rm: "node_remove d (nv t n) t = Inr (n, t1)" using u x m by (simp add: node_unlink_def nv_def)
  note v = remove_views [OF ok rm]
  have "(d, n) \<in> parent_rel t" using Some by (simp add: parent_rel_def)
  then have "(n, d) \<notin> (parent_rel t)\<^sup>*" using ok by (metis rtrancl_into_trancl1 rtrancl_trancl_trancl tree_ok_def wf_not_refl wf_trancl r_into_trancl')
  moreover have "parent_rel t1 \<subseteq> parent_rel t" by (auto simp: parent_rel_def v(3) split: if_splits)
  ultimately have "(n, d) \<notin> (parent_rel t1)\<^sup>*" using rtrancl_mono by blast
  moreover have "kv t1 d = Some DirectoryNode" using parent_directory [OF ok Some] by (simp add: v(6))
  ultimately show ?thesis using add_named_ok [OF remove_ok [OF ok rm] a] m by simp
qed

lemma create_ok:
  assumes "tree_ok t" "t n = None" "case k of LinkNode m \<Rightarrow> kv t m \<noteq> None \<and> (\<forall>j. kv t m \<noteq> Some (LinkNode j)) | _ \<Rightarrow> True"
  shows "tree_ok (node_create n k t)"
proof -
  have v: "pv (node_create n k t) = pv t" "nv (node_create n k t) = nv t" "cv (node_create n k t) = cv t" "kv (node_create n k t) = (kv t)(n \<mapsto> k)"
    using assms(2) by (auto simp: views node_create_def new_node_def fun_eq_iff split: option.splits)
  have "kv t n = None" "cv t n = []" using assms(2) by (simp_all add: views)
  then have "kv t m = Some (LinkNode j) \<Longrightarrow> j \<noteq> n" for m j using assms(1) unfolding tree_ok_def by metis
  then show ?thesis using assms(1,3) \<open>cv t n = []\<close> \<open>kv t n = None\<close> unfolding tree_ok_def parent_rel_def v by (auto split: node_kind.splits)
qed

text \<open>A link to a link leads where that one leads.\<close>

lemma link_target_end:
  assumes "tree_ok t" "t n \<noteq> None"
  shows "link_target t n = Some (followLink t n)" "kv t (followLink t n) \<noteq> None" "kv t (followLink t n) \<noteq> Some (LinkNode j)"
proof -
  have all: "link_target t n = Some (followLink t n) \<and> kv t (followLink t n) \<noteq> None \<and> (\<forall>j. kv t (followLink t n) \<noteq> Some (LinkNode j))"
  proof (cases "\<exists>m. kv t n = Some (LinkNode m)")
    case True
    then obtain m where k: "kv t n = Some (LinkNode m)" by blast
    then have f: "followLink t n = m" by (auto simp: followLink_def kv_def split: option.splits)
    have m: "kv t m \<noteq> None" "\<forall>j. kv t m \<noteq> Some (LinkNode j)" using assms(1) k by (simp_all add: tree_ok_def)
    obtain x y where xy: "t n = Some x" "cn_kind x = LinkNode m" "t m = Some y" using k m(1) by (auto simp: kv_def)
    have "link_target t m = Some m" using m(2) xy(3) by (subst link_target.simps) (auto simp: kv_def split: node_kind.splits)
    then have "link_target t n = Some m" using xy by (subst link_target.simps) simp
    then show ?thesis using f m by simp
  next
    case False
    then have f: "followLink t n = n" using assms(2) by (auto simp: followLink_def kv_def split: option.splits node_kind.splits)
    have "link_target t n = Some n" using False assms(2) by (subst link_target.simps) (auto simp: kv_def split: node_kind.splits)
    then show ?thesis using f False assms(2) by (auto simp: kv_def)
  qed
  then show "link_target t n = Some (followLink t n)" "kv t (followLink t n) \<noteq> None" "kv t (followLink t n) \<noteq> Some (LinkNode j)" by auto
qed

lemma link_ok:
  assumes "tree_ok t" "t n \<noteq> None" "t l = None" "link_create l n t = Some t'"
  shows "tree_ok t'"
proof -
  note e = link_target_end [OF assms(1,2)]
  have "t' = node_create l (LinkNode (followLink t n)) t" using assms(4) by (simp add: link_create_def e(1))
  then show ?thesis using create_ok [OF assms(1,3), of "LinkNode (followLink t n)"] e(2,3) by simp
qed

lemma doc_ok:
  shows "tree_ok (node_set_doc n d t) \<longleftrightarrow> tree_ok t" "tree_ok (node_set_shortdoc n d t) \<longleftrightarrow> tree_ok t"
proof -
  have "pv (node_set_doc n d t) = pv t" "nv (node_set_doc n d t) = nv t" "cv (node_set_doc n d t) = cv t" "kv (node_set_doc n d t) = kv t"
    "pv (node_set_shortdoc n d t) = pv t" "nv (node_set_shortdoc n d t) = nv t" "cv (node_set_shortdoc n d t) = cv t" "kv (node_set_shortdoc n d t) = kv t"
    by (cases "t n"; auto simp: views node_set_doc_def node_set_shortdoc_def node_update_def fun_eq_iff)+
  then show "tree_ok (node_set_doc n d t) \<longleftrightarrow> tree_ok t" "tree_ok (node_set_shortdoc n d t) \<longleftrightarrow> tree_ok t" by (simp_all add: tree_ok_def parent_rel_def)
qed

lemma orphan_views:
  "pv (fold (\<lambda>p. node_update (snd p) (\<lambda>y. y\<lparr>cn_parent := None\<rparr>)) ps t) = (\<lambda>c. if c \<in> snd ` set ps then None else pv t c) \<and>
   nv (fold (\<lambda>p. node_update (snd p) (\<lambda>y. y\<lparr>cn_parent := None\<rparr>)) ps t) = nv t \<and>
   cv (fold (\<lambda>p. node_update (snd p) (\<lambda>y. y\<lparr>cn_parent := None\<rparr>)) ps t) = cv t \<and>
   kv (fold (\<lambda>p. node_update (snd p) (\<lambda>y. y\<lparr>cn_parent := None\<rparr>)) ps t) = kv t"
proof (induction ps arbitrary: t)
  case (Cons p ps)
  have "pv (node_update (snd p) (\<lambda>y. y\<lparr>cn_parent := None\<rparr>) t) = (pv t)(snd p := None)" "nv (node_update (snd p) (\<lambda>y. y\<lparr>cn_parent := None\<rparr>) t) = nv t"
    "cv (node_update (snd p) (\<lambda>y. y\<lparr>cn_parent := None\<rparr>) t) = cv t" "kv (node_update (snd p) (\<lambda>y. y\<lparr>cn_parent := None\<rparr>) t) = kv t"
    by (cases "t (snd p)"; auto simp: views node_update_def fun_eq_iff)+
  then show ?case using Cons.IH [of "node_update (snd p) (\<lambda>y. y\<lparr>cn_parent := None\<rparr>) t"] by (auto simp: fun_eq_iff)
qed simp

text \<open>A node is destroyed when no directory and no link refers to it any more.\<close>

lemma destroy_ok:
  assumes ok: "tree_ok t" and n: "pv t n = None" "\<And>l. kv t l \<noteq> Some (LinkNode n)"
  shows "tree_ok (node_destroy n t)"
proof (cases "t n")
  case (Some x)
  define t1 where "t1 = fold (\<lambda>p. node_update (snd p) (\<lambda>y. y\<lparr>cn_parent := None\<rparr>)) (cn_children x) t"
  have c: "cv t n = cn_children x" using Some by (simp add: cv_def)
  note v = orphan_views [of "cn_children x" t, folded t1_def]
  have d: "node_destroy n t = t1(n := None)" using Some by (simp add: node_destroy_def t1_def)
  have w: "pv (node_destroy n t) = (\<lambda>c. if c \<in> snd ` set (cv t n) then None else pv t c)" "nv (node_destroy n t) = (nv t)(n := [])"
    "cv (node_destroy n t) = (cv t)(n := [])" "kv (node_destroy n t) = (kv t)(n := None)"
  proof -
    have "pv (t1(n := None)) = (pv t1)(n := None)" "nv (t1(n := None)) = (nv t1)(n := [])" "cv (t1(n := None)) = (cv t1)(n := [])"
      "kv (t1(n := None)) = (kv t1)(n := None)"
      by (simp_all add: views fun_eq_iff)
    then show "nv (node_destroy n t) = (nv t)(n := [])" "cv (node_destroy n t) = (cv t)(n := [])" "kv (node_destroy n t) = (kv t)(n := None)"
      "pv (node_destroy n t) = (\<lambda>c. if c \<in> snd ` set (cv t n) then None else pv t c)"
      using v n(1) unfolding d c by (simp_all add: fun_eq_iff)
  qed
  have iff: "(nm, b) \<in> set (cv t e) \<longleftrightarrow> pv t b = Some e \<and> nv t b = nm" for e nm b using ok by (simp add: tree_ok_def)
  have ch: "b \<in> snd ` set (cv t n) \<longleftrightarrow> pv t b = Some n" for b
  proof
    assume "b \<in> snd ` set (cv t n)"
    then obtain nm where "(nm, b) \<in> set (cv t n)" by auto
    then show "pv t b = Some n" using iff [of nm b n] by simp
  next
    assume "pv t b = Some n"
    then have "(nv t b, b) \<in> set (cv t n)" using iff [of "nv t b" b n] by simp
    then show "b \<in> snd ` set (cv t n)" by (rule image_eqI [rotated]) simp
  qed
  have "parent_rel (node_destroy n t) \<subseteq> parent_rel t" by (auto simp: parent_rel_def w(1) split: if_splits)
  then have "wf (parent_rel (node_destroy n t))" using ok by (auto simp: tree_ok_def intro: wf_subset)
  moreover have "(nm, b) \<in> set (cv (node_destroy n t) e) \<longleftrightarrow> pv (node_destroy n t) b = Some e \<and> nv (node_destroy n t) b = nm" for e nm b
  proof -
    have "pv t b = Some e \<Longrightarrow> b \<in> snd ` set (cv t n) \<longleftrightarrow> e = n" using ch [of b] by auto
    moreover have "b = n \<Longrightarrow> pv t b \<noteq> Some e" using n(1) by simp
    ultimately show ?thesis using iff [of nm b e] by (auto simp: w)
  qed
  moreover have "table_sorted (cv (node_destroy n t) e) \<and> (cv (node_destroy n t) e \<noteq> [] \<longrightarrow> kv (node_destroy n t) e = Some DirectoryNode)" for e
    using ok by (auto simp: tree_ok_def w(3,4) table_sorted_def)
  moreover have "\<forall>l m. kv (node_destroy n t) l = Some (LinkNode m) \<longrightarrow> kv (node_destroy n t) m \<noteq> None \<and> (\<forall>k. kv (node_destroy n t) m \<noteq> Some (LinkNode k))"
    using ok n(2) unfolding tree_ok_def w(4) by (auto split: if_splits)
  ultimately show ?thesis by (simp add: tree_ok_def)
qed (use ok in \<open>simp add: node_destroy_def\<close>)

subsection \<open>Directories\<close>

lemma provide_ok:
  assumes "tree_ok t" "provideDirectory d name f t = Inr (c, t')" "kv t d = Some DirectoryNode" "t f = None"
  shows "tree_ok t'"
proof (cases "hasChild t d name")
  case True
  then show ?thesis using assms by (auto simp: provideDirectory_def split: sum.splits)
next
  case False
  then have a: "node_add_named d name f (node_create f DirectoryNode t) = Inr t'" using assms(2) by (auto simp: provideDirectory_def split: sum.splits)
  have c: "tree_ok (node_create f DirectoryNode t)" by (rule create_ok [OF assms(1,4)]) simp
  have f: "cv t f = []" "pv t f = None" "kv t f = None" using assms(4) by (simp_all add: views)
  have "f \<noteq> d" using f(3) assms(3) by auto
  then have k: "kv (node_create f DirectoryNode t) d = Some DirectoryNode" using assms(3) by (simp add: kv_def node_create_def)
  have p: "pv (node_create f DirectoryNode t) = pv t" using f(2) by (auto simp: pv_def node_create_def new_node_def fun_eq_iff)
  have "pv t b \<noteq> Some f" for b using assms(1) f(1) by (metis emptyE empty_set tree_ok_def)
  then have "(f, b) \<notin> parent_rel t" for b by (simp add: parent_rel_def)
  then have "(f, d) \<notin> (parent_rel t)\<^sup>*" using \<open>f \<noteq> d\<close> by (metis converse_rtranclE)
  then show ?thesis by (intro add_named_ok [OF c a k]) (simp add: parent_rel_def p)
qed

text \<open>The children move to a directory that is not below one of them.\<close>

lemma move_all_ok:
  "tree_ok t \<Longrightarrow> move_all d e names t = Inr t' \<Longrightarrow> kv t e = Some DirectoryNode \<Longrightarrow> (\<And>c. pv t c = Some d \<Longrightarrow> (c, e) \<notin> (parent_rel t)\<^sup>*) \<Longrightarrow> tree_ok t'"
proof (induction names arbitrary: t)
  case (Cons name names)
  obtain c t1 t2 where r: "node_remove d name t = Inr (c, t1)" and a: "node_add_named e name c t1 = Inr t2" and m: "move_all d e names t2 = Inr t'"
    using Cons.prems(2) by (auto split: sum.splits)
  note v = remove_views [OF Cons.prems(1) r]
  have sub: "parent_rel t1 \<subseteq> parent_rel t" by (auto simp: parent_rel_def v(3) split: if_splits)
  have nc: "(c, e) \<notin> (parent_rel t1)\<^sup>*" using Cons.prems(4) [OF v(1)] rtrancl_mono [OF sub] by blast
  then have "c \<noteq> e" by auto
  obtain x where x: "t1 c = Some x" and a': "node_add e c (node_update c (\<lambda>x. x\<lparr>cn_name := name\<rparr>) t1) = Inr t2"
    using a by (auto simp: node_add_named_def split: option.splits if_splits)
  note w = name_views [of t1 c x name, OF x] and z = add_views [OF a' \<open>c \<noteq> e\<close>]
  have k2: "kv t2 e = Some DirectoryNode" using Cons.prems(3) by (simp add: z(6) w(4) v(6))
  have ok2: "tree_ok t2" by (rule add_named_ok [OF remove_ok [OF Cons.prems(1) r] a _ nc]) (simp add: v(6) Cons.prems(3))
  have rel2: "parent_rel t2 \<subseteq> insert (e, c) (parent_rel t)" using sub by (auto simp: parent_rel_def z(3) w(1) split: if_splits)
  have "(b, e) \<notin> (parent_rel t2)\<^sup>*" if b: "pv t2 b = Some d" for b
  proof
    assume "(b, e) \<in> (parent_rel t2)\<^sup>*"
    then have be: "(b, e) \<in> (parent_rel t)\<^sup>*" using rtrancl_mono [OF rel2] by (auto simp: rtrancl_insert)
    show False
    proof (cases "b = c")
      case True
      then show False using be Cons.prems(4) [OF v(1)] by simp
    next
      case False
      then have "pv t b = Some d" using b by (simp add: z(3) w(1) v(3))
      then show False using be Cons.prems(4) by blast
    qed
  qed
  then show ?case by (rule Cons.IH [OF ok2 m k2])
qed simp

subsection \<open>Going up\<close>

text \<open>In a tree every node has its way from the top, and it is below another node exactly when that node is on the way.\<close>

lemma chain_ends:
  assumes ok: "tree_ok t"
  shows "t n \<noteq> None \<Longrightarrow> \<exists>ns. node_chain t n = Some ns \<and> ns \<noteq> [] \<and> last ns = n"
proof -
  have "wf (parent_rel t)" using ok by (simp add: tree_ok_def)
  then show "t n \<noteq> None \<Longrightarrow> \<exists>ns. node_chain t n = Some ns \<and> ns \<noteq> [] \<and> last ns = n"
  proof (induction n rule: wf_induct_rule)
    case (less n)
    obtain x where x: "t n = Some x" using less.prems by auto
    show ?case
    proof (cases "cn_parent x")
      case None
      then show ?thesis using x by (subst node_chain.simps) simp
    next
      case (Some d)
      then have p: "pv t n = Some d" using x by (simp add: pv_def)
      then have "t d \<noteq> None" by (rule parent_exists [OF ok])
      then obtain ns where "node_chain t d = Some ns" using less.IH [of d] p by (auto simp: parent_rel_def)
      then show ?thesis using x Some by (subst node_chain.simps) simp
    qed
  qed
qed

lemma isChildOf_iff:
  assumes ok: "tree_ok t"
  shows "t n \<noteq> None \<Longrightarrow> isChildOf t n d = Some ((d, n) \<in> (parent_rel t)\<^sup>*)"
proof -
  have "wf (parent_rel t)" using ok by (simp add: tree_ok_def)
  then show "t n \<noteq> None \<Longrightarrow> isChildOf t n d = Some ((d, n) \<in> (parent_rel t)\<^sup>*)"
  proof (induction n rule: wf_induct_rule)
    case (less n)
    obtain x where x: "t n = Some x" using less.prems by auto
    show ?case
    proof (cases "n = d \<or> cn_parent x = None")
      case True
      have "n \<noteq> d \<Longrightarrow> (d, n) \<notin> (parent_rel t)\<^sup>*"
        using True x by (auto simp: parent_rel_def pv_def elim: rtranclE)
      then show ?thesis using True x by (subst isChildOf.simps) auto
    next
      case False
      then obtain e where e: "cn_parent x = Some e" by auto
      then have p: "pv t n = Some e" using x by (simp add: pv_def)
      then have "t e \<noteq> None" by (rule parent_exists [OF ok])
      then have "isChildOf t e d = Some ((d, e) \<in> (parent_rel t)\<^sup>*)" using less.IH [of e] p by (auto simp: parent_rel_def)
      moreover have "(d, n) \<in> (parent_rel t)\<^sup>* \<longleftrightarrow> (d, e) \<in> (parent_rel t)\<^sup>*"
        using p False by (auto simp: parent_rel_def elim: rtranclE intro: rtrancl_into_rtrancl)
      ultimately show ?thesis using x e False by (subst isChildOf.simps) simp
    qed
  qed
qed

subsection \<open>The operations together\<close>

text \<open>
  The trees that the operations build from a first directory. A node is added only to a directory that is not below it
  (this is left to the caller), and it is destroyed when no directory and no link refers to it.
\<close>

inductive tree_reach :: "ctree \<Rightarrow> bool" where
  tree_init: "tree_reach (node_create r DirectoryNode Map.empty)"
| tree_new: "tree_reach t \<Longrightarrow> t n = None \<Longrightarrow> k = DirectoryNode \<or> k = CommandNode c \<Longrightarrow> tree_reach (node_create n k t)"
| tree_link: "tree_reach t \<Longrightarrow> t l = None \<Longrightarrow> t n \<noteq> None \<Longrightarrow> link_create l n t = Some t' \<Longrightarrow> tree_reach t'"
| tree_doc: "tree_reach t \<Longrightarrow> tree_reach (node_set_doc n d t)"
| tree_shortdoc: "tree_reach t \<Longrightarrow> tree_reach (node_set_shortdoc n d t)"
| tree_add: "tree_reach t \<Longrightarrow> isDirectory t d \<Longrightarrow> isChildOf t d n = Some False \<Longrightarrow> node_add d n t = Inr t' \<Longrightarrow> tree_reach t'"
| tree_add_named: "tree_reach t \<Longrightarrow> isDirectory t d \<Longrightarrow> isChildOf t d n = Some False \<Longrightarrow> node_add_named d name n t = Inr t' \<Longrightarrow> tree_reach t'"
| tree_remove: "tree_reach t \<Longrightarrow> node_remove d name t = Inr (c, t') \<Longrightarrow> tree_reach t'"
| tree_unlink: "tree_reach t \<Longrightarrow> node_unlink n t = Inr (m, t') \<Longrightarrow> tree_reach t'"
| tree_rename: "tree_reach t \<Longrightarrow> node_rename n name t = Inr t' \<Longrightarrow> tree_reach t'"
| tree_provide: "tree_reach t \<Longrightarrow> isDirectory t d \<Longrightarrow> t f = None \<Longrightarrow> provideDirectory d name f t = Inr (c, t') \<Longrightarrow> tree_reach t'"
| tree_move: "tree_reach t \<Longrightarrow> isDirectory t e \<Longrightarrow> (\<And>c. pv t c = Some d \<Longrightarrow> isChildOf t e c = Some False) \<Longrightarrow> moveChildren d e t = Inr t' \<Longrightarrow> tree_reach t'"
| tree_destroy: "tree_reach t \<Longrightarrow> pv t n = None \<Longrightarrow> (\<And>l. kv t l \<noteq> Some (LinkNode n)) \<Longrightarrow> tree_reach (node_destroy n t)"

lemma directory_kv: "isDirectory t d \<longleftrightarrow> kv t d = Some DirectoryNode"
  by (auto simp: isDirectory_def kv_def split: option.splits)

lemma not_above: "tree_ok t \<Longrightarrow> isDirectory t d \<Longrightarrow> isChildOf t d n = Some False \<Longrightarrow> (n, d) \<notin> (parent_rel t)\<^sup>*"
  using isChildOf_iff [of t d n] by (auto simp: isDirectory_def split: option.splits)

lemma empty_ok: "tree_ok Map.empty"
  by (simp add: tree_ok_def views parent_rel_def table_sorted_def)

lemma reach_ok: "tree_reach t \<Longrightarrow> tree_ok t"
proof (induction rule: tree_reach.induct)
  case (tree_init r)
  show ?case by (rule create_ok [OF empty_ok]) simp_all
next
  case (tree_new t n k c)
  then show ?case by (intro create_ok) auto
next
  case (tree_add t d n t')
  show ?case by (rule add_ok [OF tree_add.IH tree_add.hyps(4) _ not_above [OF tree_add.IH tree_add.hyps(2,3)]]) (use tree_add.hyps(2) in \<open>simp add: directory_kv\<close>)
next
  case (tree_add_named t d n name t')
  show ?case
    by (rule add_named_ok [OF tree_add_named.IH tree_add_named.hyps(4) _ not_above [OF tree_add_named.IH tree_add_named.hyps(2,3)]])
      (use tree_add_named.hyps(2) in \<open>simp add: directory_kv\<close>)
next
  case (tree_provide t d f name c t')
  then show ?case by (intro provide_ok [of t d name f c t']) (auto simp: directory_kv)
next
  case (tree_move t e d t')
  have "tree_ok t'" if "move_all d e names t = Inr t'" for names
    using that by (rule move_all_ok [OF tree_move.IH]) (use tree_move.hyps tree_move.IH not_above in \<open>auto simp: directory_kv\<close>)
  then show ?case using tree_move.hyps by (auto simp: moveChildren_def split: option.splits)
qed (auto simp: doc_ok intro: link_ok remove_ok unlink_ok rename_ok destroy_ok)


text \<open>A directory with a directory \<open>a\<close> in it.\<close>

definition two_nodes :: ctree where
  "two_nodes = node_create 1 DirectoryNode (node_create 0 DirectoryNode Map.empty)"

definition small_tree :: ctree where
  "small_tree =
     [0 \<mapsto> (new_node DirectoryNode)\<lparr>cn_children := [(''a'', 1)]\<rparr>, 1 \<mapsto> (new_node DirectoryNode)\<lparr>cn_name := ''a'', cn_parent := Some 0\<rparr>]"

lemma two_nodes_reach: "tree_reach two_nodes"
  unfolding two_nodes_def by (rule tree_new [OF tree_init, where c = 0]) (simp_all add: node_create_def)

lemma small_tree_added: "node_add_named 0 ''a'' 1 two_nodes = Inr small_tree"
  by (auto simp: node_add_named_def node_add_def two_nodes_def small_tree_def node_create_def new_node_def node_update_def fun_eq_iff Let_def)

lemma small_tree_reach: "tree_reach small_tree"
proof (rule tree_add_named [OF two_nodes_reach _ _ small_tree_added])
  show "isDirectory two_nodes 0" by (simp add: isDirectory_def two_nodes_def node_create_def new_node_def)
  show "isChildOf two_nodes 0 1 = Some False" by (subst isChildOf.simps) (simp add: two_nodes_def node_create_def new_node_def)
qed


text \<open>
  Adding a directory below itself is not refused; the loops that go up from it have no end.
\<close>

lemma chain_top: "node_chain t n = Some ns \<Longrightarrow> \<exists>m. t m \<noteq> None \<and> pv t m = None"
proof (rule node_chain.raw_induct [where P = "\<lambda>t n ns. \<exists>m. t m \<noteq> None \<and> pv t m = None"], goal_cases)
  case (1 chain t n ns)
  then show ?case by (fastforce simp: pv_def bind_eq_Some_conv split: option.splits)
qed assumption

lemma cycle_possible: "\<exists>t'. node_add 1 0 small_tree = Inr t' \<and> node_path t' 0 = None"
proof -
  define t' where "t' = node_update 0 (\<lambda>x. x\<lparr>cn_name := ''unnamed'', cn_parent := Some 1\<rparr>)
      (node_update 1 (\<lambda>x. x\<lparr>cn_children := [(''unnamed'', 0)]\<rparr>) small_tree)"
  have a: "node_add 1 0 small_tree = Inr t'" by (simp add: node_add_def small_tree_def new_node_def t'_def node_update_def Let_def)
  have "pv t' m \<noteq> None" if "t' m \<noteq> None" for m using that by (auto simp: t'_def node_update_def small_tree_def new_node_def pv_def split: if_splits)
  then have "node_chain t' 0 = None" using chain_top [of t' 0] by (metis option.exhaust)
  then show ?thesis using a by (simp add: node_path_def)
qed

subsection \<open>Names\<close>

text \<open>
  A node that is added is found under its name, or, when the directory has a child with this name, under the name with
  a number that makes it new; every other child is found as before.
\<close>

theorem add_then_found:
  assumes "tree_ok t" "node_add d n t = Inr t'" "n \<noteq> d"
  shows "\<exists>name. getLink t' d name = Inr n \<and> \<not> hasChild t d name \<and> nv t' n = name \<and>
     (nv t n \<noteq> [] \<and> \<not> hasChild t d (nv t n) \<longrightarrow> name = nv t n) \<and> (nv t n \<noteq> [] \<and> hasChild t d (nv t n) \<longrightarrow> (\<exists>i. name = suffix_name (nv t n) i)) \<and>
     (\<forall>other. other \<noteq> name \<longrightarrow> getLink t' d other = getLink t d other)"
proof -
  note v = add_views [OF assms(2,3)]
  define name where "name = added_name t d (nv t n)"
  have new: "name \<notin> fst ` set (cv t d)" unfolding name_def by (rule added_name_new)
  have has: "hasChild u d nm \<longleftrightarrow> map_of (cv u d) nm \<noteq> None" for u nm by (simp add: hasChild_def cv_def split: option.splits)
  have "kv t' d \<noteq> None" using v(2) by (simp add: v(6)) (simp add: kv_def)
  then have d': "t' d \<noteq> None" by (simp add: kv_def)
  have get: "u d \<noteq> None \<Longrightarrow> getLink u d nm = (case map_of (cv u d) nm of None \<Rightarrow> Inl (UnknownNodeName nm) | Some c \<Rightarrow> Inr c)" for u nm
    by (auto simp: getLink_def cv_def)
  have m: "map_of (cv t' d) = (map_of (cv t d))(name \<mapsto> n)" using map_of_insert [OF new] by (simp add: v(5) name_def)
  have "getLink t' d name = Inr n" using get [of t' name, OF d'] m by simp
  moreover have "\<not> hasChild t d name" using new by (simp add: has map_of_eq_None_iff)
  moreover have "nv t' n = name" by (simp add: v(4) name_def)
  moreover have "nv t n \<noteq> [] \<and> \<not> hasChild t d (nv t n) \<longrightarrow> name = nv t n" by (simp add: name_def added_name_def has)
  moreover have "nv t n \<noteq> [] \<and> hasChild t d (nv t n) \<longrightarrow> (\<exists>i. name = suffix_name (nv t n) i)"
    by (auto simp: name_def added_name_def has unique_name_form)
  moreover have "other \<noteq> name \<Longrightarrow> getLink t' d other = getLink t d other" for other using get [of t' other, OF d'] get [of t other, OF v(2)] m by simp
  ultimately show ?thesis by blast
qed

theorem add_then_found_witness:
  "\<exists>t' name. node_add 0 1 two_nodes = Inr t' \<and> getLink t' 0 name = Inr 1"
proof -
  obtain t' where a: "node_add 0 1 two_nodes = Inr t'" by (simp add: node_add_def two_nodes_def node_create_def new_node_def Let_def)
  have "tree_ok two_nodes" by (rule reach_ok [OF two_nodes_reach])
  then show ?thesis using add_then_found [OF _ a] a by auto
qed

text \<open>The completions are the children whose names begin with the text, as long as no name has the character 255.\<close>

lemma last_after: "CHR 0xFF \<notin> set b \<Longrightarrow> \<not> str_less b a \<and> str_less b (a @ [CHR 0xFF]) \<longleftrightarrow> prefix a b"
proof (induction a arbitrary: b)
  case Nil
  show ?case
  proof (cases b)
    case (Cons y b')
    have "y \<noteq> CHR 0xFF" using Nil Cons by auto
    then have "(of_char y :: nat) \<noteq> of_char (CHR 0xFF)" by (simp only: of_char_eq_iff not_False_eq_True)
    moreover have "(of_char y :: nat) < 256" by (rule nat_of_char_less_256)
    moreover have "(of_char (CHR 0xFF) :: nat) = 255" by simp
    ultimately have "(of_char y :: nat) < 255" by linarith
    then show ?thesis using Cons by simp
  qed simp
next
  case (Cons x a)
  then show ?case by (cases b) auto
qed

lemma completions_prefix:
  assumes "tree_ok t" "\<And>p. p \<in> set (cv t d) \<Longrightarrow> CHR 0xFF \<notin> set (fst p)"
  shows "node_completions t d s = filter (\<lambda>p. prefix s (fst p)) (cv t d)"
proof -
  have "node_completions t d s = table_range s (s @ [CHR 0xFF]) (cv t d)" by (simp add: node_completions_def cv_def table_range_def split: option.splits)
  also have "\<dots> = filter (\<lambda>p. \<not> str_less (fst p) s \<and> str_less (fst p) (s @ [CHR 0xFF])) (cv t d)"
    by (rule table_range_filter) (use assms(1) in \<open>simp add: tree_ok_def\<close>)
  also have "\<dots> = filter (\<lambda>p. prefix s (fst p)) (cv t d)" by (rule filter_cong [OF refl]) (rule last_after [OF assms(2)])
  finally show ?thesis .
qed

end
