(* ===== verification/Console_Executor.thy ===== *)
theory Console_Executor
  imports Console_Nodes
begin

text \<open>
  The executor of the console, \<open>senf/Utils/Console/Executor.*\<close>, with the tokens of \<open>Parse.*\<close> it works on: the path of the
  current directory, the stack of the directory groups, and the commands built in.

  A path holds weak pointers: addresses of directories that may be gone (\<open>expired\<close>: no node is there any more; addresses are not
  used again). What a command does is a parameter; it gets the tree and its arguments and gives its output, the tree it leaves
  and its value. A result \<open>Inl\<close> is an exception; \<open>NullNode\<close> stands for following a pointer that is null, \<open>CwdAssert\<close> for a
  failing \<open>SENF_ASSERT\<close> and \<open>NoEnd\<close> for a loop that does not end.
\<close>

section \<open>Tokens and commands\<close>

datatype token_type = NoneType | PathSeparator | ArgumentGroupOpen | ArgumentGroupClose | DirectoryGroupOpen
  | DirectoryGroupClose | CommandTerminator | OtherPunctuation | BasicString | HexString | Word

record token =
  tk_type :: token_type
  tk_value :: string

definition NoneToken :: token where
  "NoneToken = \<lparr>tk_type = NoneType, tk_value = []\<rparr>"

definition WordToken :: "string \<Rightarrow> token" where
  "WordToken v = \<lparr>tk_type = Word, tk_value = v\<rparr>"

datatype builtin_command = NoBuiltin | BuiltinCD | BuiltinLS | BuiltinLL | BuiltinLR | BuiltinPUSHD | BuiltinPOPD | BuiltinEXIT
  | BuiltinHELP | BuiltinECHO

record command_info =
  ci_builtin :: builtin_command
  ci_path :: "token list"
  ci_tokens :: "token list"

section \<open>State\<close>

datatype exec_error = InvalidPath string | InvalidDirectory string | InvalidCommand | IgnoreCommand | ExitException
  | SyntaxError string | OtherException nat | NullNode | CwdAssert | BadNodeCast | NoEnd

type_synonym path = "nat list"

record executor =
  ex_root :: nat
  ex_policy :: "(nat \<Rightarrow> string \<Rightarrow> bool) option"
  ex_cwd :: path
  ex_oldCwd :: path
  ex_dirstack :: "path list"
  ex_autocd :: bool
  ex_autocomplete :: bool

definition new_executor :: "nat \<Rightarrow> executor" where
  "new_executor r = \<lparr>ex_root = r, ex_policy = None, ex_cwd = [r], ex_oldCwd = [], ex_dirstack = [], ex_autocd = False, ex_autocomplete = False\<rparr>"

definition ex_set_cwd :: "nat \<Rightarrow> executor \<Rightarrow> executor" where
  "ex_set_cwd d e = e\<lparr>ex_cwd := [d], ex_oldCwd := [d], ex_dirstack := []\<rparr>"

definition ex_set_autocd :: "bool \<Rightarrow> executor \<Rightarrow> executor" where
  "ex_set_autocd v e = e\<lparr>ex_autocd := v\<rparr>"

definition ex_set_autocomplete :: "bool \<Rightarrow> executor \<Rightarrow> executor" where
  "ex_set_autocomplete v e = e\<lparr>ex_autocomplete := True\<rparr>"

definition ex_chroot :: "nat \<Rightarrow> executor \<Rightarrow> executor" where
  "ex_chroot d e = e\<lparr>ex_root := d, ex_cwd := [d], ex_oldCwd := [d]\<rparr>"

definition ex_set_policy :: "(nat \<Rightarrow> string \<Rightarrow> bool) option \<Rightarrow> executor \<Rightarrow> executor" where
  "ex_set_policy p e = e\<lparr>ex_policy := p\<rparr>"

definition skipping :: "executor \<Rightarrow> bool" where
  "skipping e \<longleftrightarrow> ex_cwd e = []"

subsection \<open>The current directory\<close>

text \<open>Directories that are gone, or no longer in the tree, are taken from the end of the path. \<open>g\<close> is the root of the tree.\<close>

function prune_path :: "ctree \<Rightarrow> nat \<Rightarrow> path \<Rightarrow> path option" where
  "prune_path t g p =
     (if length p \<le> 1 then Some p
      else if t (last p) = None then prune_path t g (butlast p)
      else (case node_active t g (last p) of None \<Rightarrow> None | Some a \<Rightarrow> if a then Some p else prune_path t g (butlast p)))"
  by pat_completeness auto
termination by (relation "measure (\<lambda>(t, g, p). length p)") auto

declare prune_path.simps [simp del]

definition back_dir :: "ctree \<Rightarrow> path \<Rightarrow> exec_error + nat" where
  "back_dir t p = (if p = [] \<or> t (last p) = None then Inl NullNode else Inr (last p))"

definition ex_get_cwd :: "ctree \<Rightarrow> nat \<Rightarrow> executor \<Rightarrow> executor \<times> (exec_error + nat)" where
  "ex_get_cwd t g e =
     (if ex_cwd e = [] then (e, Inl CwdAssert)
      else case prune_path t g (ex_cwd e) of
        None \<Rightarrow> (e, Inl NoEnd)
      | Some p \<Rightarrow> (e\<lparr>ex_cwd := p\<rparr>, back_dir t p))"

definition cwdPath :: "ctree \<Rightarrow> nat \<Rightarrow> executor \<Rightarrow> executor \<times> (exec_error + string)" where
  "cwdPath t g e =
     (if skipping e then (e, Inr [])
      else case prune_path t g (ex_cwd e) of
        None \<Rightarrow> (e, Inl NoEnd)
      | Some p \<Rightarrow> (e\<lparr>ex_cwd := p\<rparr>,
          if \<exists>n\<in>set (tl p). t n = None then Inl NullNode else Inr (''/'' @ join_slash (map (chain_name t) (tl p)))))"

section \<open>Walking through the tree\<close>

definition ex_complete :: "ctree \<Rightarrow> nat \<Rightarrow> string \<Rightarrow> string" where
  "ex_complete t d name =
     (if hasChild t d name then name
      else case node_completions t d name of [p] \<Rightarrow> fst p | _ \<Rightarrow> name)"

definition policy_allows :: "executor \<Rightarrow> nat \<Rightarrow> string \<Rightarrow> bool" where
  "policy_allows e d name = (case ex_policy e of None \<Rightarrow> True | Some f \<Rightarrow> f d name)"

text \<open>One element of a path; \<open>first\<close>: it is the first one, \<open>err\<close> is the path up to and with this element.\<close>

definition traverse_step :: "ctree \<Rightarrow> executor \<Rightarrow> bool \<Rightarrow> string \<Rightarrow> token \<Rightarrow> path \<Rightarrow> exec_error + path" where
  "traverse_step t e first err i dir =
     (if i = NoneToken then Inr (if first then [ex_root e] else dir)
      else if i = WordToken ''..'' then Inr (if length dir > 1 then butlast dir else dir)
      else if i = WordToken ''.'' then Inr dir
      else case back_dir t dir of
        Inl x \<Rightarrow> Inl x
      | Inr base \<Rightarrow> (let name = ex_complete t base (tk_value i)
          in if \<not> policy_allows e base name then Inl IgnoreCommand
             else case getDirectory t base name of Inl _ \<Rightarrow> Inl (InvalidDirectory err) | Inr d \<Rightarrow> Inr (dir @ [d])))"

fun traverse_from :: "ctree \<Rightarrow> executor \<Rightarrow> bool \<Rightarrow> string \<Rightarrow> token list \<Rightarrow> path \<Rightarrow> exec_error + path" where
  "traverse_from t e first err [] dir = Inr dir"
| "traverse_from t e first err (i # is) dir =
     (let err' = (if first then err else err @ ''/'') @ tk_value i
      in case traverse_step t e first err' i dir of Inl x \<Rightarrow> Inl x | Inr dir' \<Rightarrow> traverse_from t e False err' is dir')"

definition traverseDirectory :: "ctree \<Rightarrow> executor \<Rightarrow> token list \<Rightarrow> path \<Rightarrow> exec_error + path" where
  "traverseDirectory t e path dir = traverse_from t e True [] path dir"

definition traverseNode :: "ctree \<Rightarrow> executor \<Rightarrow> token list \<Rightarrow> exec_error + nat" where
  "traverseNode t e path =
     (if path = [] then back_dir t (ex_cwd e)
      else case traverseDirectory t e (butlast path) (ex_cwd e) of
        Inl x \<Rightarrow> Inl x
      | Inr dir \<Rightarrow>
          (if last path = WordToken ''..'' then back_dir t (if length dir > 1 then butlast dir else dir)
           else case back_dir t dir of
             Inl x \<Rightarrow> Inl x
           | Inr base \<Rightarrow>
               (if last path = WordToken ''.'' \<or> last path = NoneToken then Inr base
                else let name = ex_complete t base (tk_value (last path))
                     in if \<not> policy_allows e base name then Inl IgnoreCommand
                        else case node_get t base name of
                          Inl _ \<Rightarrow> Inl (InvalidPath (join_slash (map tk_value path)))
                        | Inr n \<Rightarrow> Inr n)))"

section \<open>The commands built in\<close>

definition ex_cd :: "ctree \<Rightarrow> nat \<Rightarrow> token list \<Rightarrow> executor \<Rightarrow> executor \<times> (exec_error + unit)" where
  "ex_cd t g dir e =
     (if dir = [WordToken ''-''] then
        (case ex_get_cwd t g (e\<lparr>ex_cwd := ex_oldCwd e, ex_oldCwd := ex_cwd e\<rparr>) of
           (e', Inl CwdAssert) \<Rightarrow> (e', Inl CwdAssert)
         | (e', Inl NoEnd) \<Rightarrow> (e', Inl NoEnd)
         | (e', _) \<Rightarrow> (e', Inr ()))
      else case traverseDirectory t e dir (ex_cwd e) of
        Inl x \<Rightarrow> (e, Inl x)
      | Inr newDir \<Rightarrow> (e\<lparr>ex_oldCwd := ex_cwd e, ex_cwd := newDir\<rparr>, Inr ()))"

definition list_dir :: "ctree \<Rightarrow> executor \<Rightarrow> token list \<Rightarrow> exec_error + nat" where
  "list_dir t e path = (case traverseDirectory t e path (ex_cwd e) of Inl x \<Rightarrow> Inl x | Inr dir \<Rightarrow> back_dir t dir)"

definition children_of :: "ctree \<Rightarrow> nat \<Rightarrow> (string \<times> nat) list" where
  "children_of t d = (case t d of None \<Rightarrow> [] | Some x \<Rightarrow> cn_children x)"

definition ex_ls :: "ctree \<Rightarrow> token list \<Rightarrow> executor \<Rightarrow> exec_error + string" where
  "ex_ls t path e =
     (case list_dir t e path of Inl x \<Rightarrow> Inl x
      | Inr d \<Rightarrow> Inr (concat (map (\<lambda>(name, c). name @ [CHR 0x0A]) (children_of t d))))"

fun ex_echo :: "token list \<Rightarrow> string" where
  "ex_echo [] = [CHR 0x0A]"
| "ex_echo [i] = tk_value i @ [CHR 0x0A]"
| "ex_echo (i # j # is) = tk_value i @ '' '' @ ex_echo (j # is)"

subsection \<open>Listings with help\<close>

text \<open>The width of the terminal of the client, when the output belongs to one.\<close>

definition getWidth :: "nat option \<Rightarrow> nat \<Rightarrow> nat \<Rightarrow> nat" where
  "getWidth w defaultWidth minWidth = (let rv = (case w of None \<Rightarrow> defaultWidth | Some v \<Rightarrow> v) in if rv < minWidth then defaultWidth else rv)"

definition pad_to :: "nat \<Rightarrow> string \<Rightarrow> string" where
  "pad_to k s = s @ replicate (k - length s) CHR '' ''"

definition isLink :: "ctree \<Rightarrow> nat \<Rightarrow> bool" where
  "isLink t n = (case t n of Some x \<Rightarrow> (case cn_kind x of LinkNode _ \<Rightarrow> True | _ \<Rightarrow> False) | None \<Rightarrow> False)"

definition kind_mark :: "ctree \<Rightarrow> nat \<Rightarrow> string" where
  "kind_mark t n = (if isDirectory t n then ''/'' else if isLink t n then ''@'' else [])"

definition help_line :: "ctree \<Rightarrow> nat \<Rightarrow> nat \<Rightarrow> string \<Rightarrow> string \<Rightarrow> nat \<Rightarrow> string" where
  "help_line t column width pad name c = pad_to column (pad @ name @ kind_mark t c @ ''  '') @ take width (node_shorthelp t c) @ [CHR 0x0A]"

definition ex_ll :: "ctree \<Rightarrow> nat option \<Rightarrow> token list \<Rightarrow> executor \<Rightarrow> exec_error + string" where
  "ex_ll t w path e =
     (let width = getWidth w 80 60 - (28 + 1) in
      case list_dir t e path of Inl x \<Rightarrow> Inl x
      | Inr d \<Rightarrow> Inr (concat (map (\<lambda>(name, c). help_line t 28 width [] name c) (children_of t d))))"

text \<open>The listing of all directories below; \<open>nodes\<close>: the directories that were listed, with their paths.\<close>

partial_function (option) dolr ::
  "ctree \<Rightarrow> nat \<Rightarrow> (nat \<rightharpoonup> string) \<Rightarrow> string \<Rightarrow> nat \<Rightarrow> (string \<times> nat) list \<Rightarrow> (string \<times> (nat \<rightharpoonup> string)) option" where
  "dolr t width nodes base level cs =
     (case cs of [] \<Rightarrow> Some ([], nodes)
      | p # ps \<Rightarrow>
          (let name = fst p; c = snd p; pad = replicate (2 * level) CHR '' ''; sub = followLink t c in
           if isDirectory t sub then
             (case nodes sub of
                None \<Rightarrow>
                  (let subbase = (if base \<noteq> [] then base @ ''/'' else base) @ name in
                   Option.bind (dolr t width (nodes(sub \<mapsto> subbase)) subbase (level + 1) (children_of t sub))
                     (\<lambda>r1. Option.bind (dolr t width (snd r1) base level ps)
                       (\<lambda>r2. Some (help_line t 40 width pad name c @ fst r1 @ fst r2, snd r2))))
              | Some other \<Rightarrow>
                  Option.bind (dolr t width nodes base level ps)
                    (\<lambda>r2. Some (pad @ name @ kind_mark t c @ '' -> '' @ other @ [CHR 0x0A] @ fst r2, snd r2)))
           else
             Option.bind (dolr t width nodes base level ps)
               (\<lambda>r2. Some (help_line t 40 width pad name c @ fst r2, snd r2))))"

definition ex_lr :: "ctree \<Rightarrow> nat option \<Rightarrow> token list \<Rightarrow> executor \<Rightarrow> exec_error + string" where
  "ex_lr t w path e =
     (case list_dir t e path of Inl x \<Rightarrow> Inl x
      | Inr d \<Rightarrow> (case dolr t (getWidth w 80 60 - (40 + 1)) Map.empty [] 0 (children_of t d) of None \<Rightarrow> Inl NoEnd | Some r \<Rightarrow> Inr (fst r)))"

subsection \<open>Directory groups\<close>

definition enter_dir :: "path \<Rightarrow> executor \<Rightarrow> executor" where
  "enter_dir p e = e\<lparr>ex_dirstack := ex_dirstack e @ [ex_cwd e], ex_cwd := p\<rparr>"

definition ex_pushd :: "ctree \<Rightarrow> token list \<Rightarrow> executor \<Rightarrow> executor \<times> (exec_error + unit)" where
  "ex_pushd t dir e =
     (if skipping e then (enter_dir (ex_cwd e) e, Inr ())
      else case traverseDirectory t e dir (ex_cwd e) of
        Inr newDir \<Rightarrow> (enter_dir newDir e, Inr ())
      | Inl IgnoreCommand \<Rightarrow> (enter_dir [] e, Inr ())
      | Inl x \<Rightarrow> (e, Inl x))"

definition ex_popd :: "executor \<Rightarrow> executor" where
  "ex_popd e = (if ex_dirstack e = [] then e else e\<lparr>ex_cwd := last (ex_dirstack e), ex_dirstack := butlast (ex_dirstack e)\<rparr>)"

definition ex_help :: "ctree \<Rightarrow> token list \<Rightarrow> executor \<Rightarrow> exec_error + string" where
  "ex_help t path e = (case traverseNode t e path of Inl x \<Rightarrow> Inl x | Inr n \<Rightarrow> Inr (node_help t n))"

section \<open>Executing\<close>

text \<open>
  The value of a command: a directory (a null pointer: an address without a node) or something else. What a command wrote before
  it threw an exception is left out.
\<close>

datatype any_value = AnyDirectory nat | AnyOther

type_synonym command_fn = "nat \<Rightarrow> command_info \<Rightarrow> ctree \<Rightarrow> ctree \<times> (exec_error + (string \<times> any_value))"

definition ex_exec_body ::
  "command_fn \<Rightarrow> ctree \<Rightarrow> nat \<Rightarrow> command_info \<Rightarrow> executor \<Rightarrow> ctree \<times> executor \<times> (exec_error + string)" where
  "ex_exec_body run t g ci e =
     (case traverseNode t e (ci_path ci) of
        Inl x \<Rightarrow> (t, e, Inl x)
      | Inr n \<Rightarrow>
          (if isDirectory t n then
             (if ci_tokens ci \<noteq> [] then (t, e, Inl InvalidCommand)
              else if ci_builtin ci = BuiltinPUSHD then (case ex_pushd t (ci_path ci) e of (e', r) \<Rightarrow> (t, e', map_sum id (\<lambda>_. []) r))
              else if ex_autocd e then (case ex_cd t g (ci_path ci) e of (e', r) \<Rightarrow> (t, e', map_sum id (\<lambda>_. []) r))
              else (t, e, Inl InvalidCommand))
           else case t n of
             Some x \<Rightarrow> (case cn_kind x of
                 CommandNode f \<Rightarrow> (case run f ci t of
                     (t', Inl err) \<Rightarrow> (t', e, Inl err)
                   | (t', Inr (out, rv)) \<Rightarrow>
                       (if ci_builtin ci = BuiltinPUSHD then
                          (case rv of AnyDirectory d \<Rightarrow> (t', enter_dir (ex_cwd e @ [d]) e, Inr out) | AnyOther \<Rightarrow> (t', e, Inl InvalidCommand))
                        else (t', e, Inr out)))
               | _ \<Rightarrow> (t, e, Inl BadNodeCast))
           | None \<Rightarrow> (t, e, Inl NullNode)))"

definition ex_exec ::
  "command_fn \<Rightarrow> ctree \<Rightarrow> nat \<Rightarrow> command_info \<Rightarrow> executor \<Rightarrow> ctree \<times> executor \<times> (exec_error + string)" where
  "ex_exec run t g ci e =
     (case ex_exec_body run t g ci e of
        (t', e', Inl IgnoreCommand) \<Rightarrow>
          (if ci_builtin ci = BuiltinPUSHD then (t', enter_dir [] e', Inr []) else (t', e', Inl IgnoreCommand))
      | r \<Rightarrow> r)"

definition quoted :: "string \<Rightarrow> string" where
  "quoted s = [CHR 0x27] @ s @ [CHR 0x27]"

definition exec_builtin ::
  "command_fn \<Rightarrow> nat option \<Rightarrow> ctree \<Rightarrow> nat \<Rightarrow> command_info \<Rightarrow> executor \<Rightarrow> ctree \<times> executor \<times> (exec_error + string)" where
  "exec_builtin run w t g ci e =
     (case ci_builtin ci of
        NoBuiltin \<Rightarrow> if skipping e then (t, e, Inr []) else ex_exec run t g ci e
      | BuiltinCD \<Rightarrow>
          if skipping e then (t, e, Inr [])
          else (case ex_cd t g (ci_path ci) e of
              (e', Inl IgnoreCommand) \<Rightarrow> (t, e', Inl (SyntaxError (quoted ''cd'' @ '' cannot be skipped (don'' @ [CHR 0x27] @ ''t use '' @ quoted ''cd'' @ '' in conf-files)'')))
            | (e', r) \<Rightarrow> (t, e', map_sum id (\<lambda>_. []) r))
      | BuiltinLS \<Rightarrow> if skipping e then (t, e, Inr []) else (t, e, ex_ls t (ci_path ci) e)
      | BuiltinLL \<Rightarrow> if skipping e then (t, e, Inr []) else (t, e, ex_ll t w (ci_path ci) e)
      | BuiltinLR \<Rightarrow> if skipping e then (t, e, Inr []) else (t, e, ex_lr t w (ci_path ci) e)
      | BuiltinPUSHD \<Rightarrow>
          if skipping e then (case ex_pushd t (ci_path ci) e of (e', r) \<Rightarrow> (t, e', map_sum id (\<lambda>_. []) r))
          else ex_exec run t g ci e
      | BuiltinPOPD \<Rightarrow> (t, ex_popd e, Inr [])
      | BuiltinEXIT \<Rightarrow> if skipping e then (t, e, Inr []) else (t, e, Inl ExitException)
      | BuiltinHELP \<Rightarrow> if skipping e then (t, e, Inr []) else (t, e, ex_help t (ci_path ci) e)
      | BuiltinECHO \<Rightarrow> if skipping e then (t, e, Inr []) else (t, e, Inr (ex_echo (ci_tokens ci))))"

definition syntax_error :: "exec_error \<Rightarrow> exec_error" where
  "syntax_error x =
     (case x of
        InvalidPath p \<Rightarrow> SyntaxError (''invalid path '' @ quoted p)
      | InvalidDirectory p \<Rightarrow> SyntaxError (''invalid directory '' @ quoted p)
      | InvalidCommand \<Rightarrow> SyntaxError ''invalid command''
      | _ \<Rightarrow> x)"

definition ex_execute ::
  "command_fn \<Rightarrow> nat option \<Rightarrow> ctree \<Rightarrow> nat \<Rightarrow> command_info \<Rightarrow> executor \<Rightarrow> ctree \<times> executor \<times> (exec_error + string)" where
  "ex_execute run w t g ci e =
     (case (if skipping e then Some (ex_cwd e) else prune_path t g (ex_cwd e)) of
        None \<Rightarrow> (t, e, Inl NoEnd)
      | Some p \<Rightarrow>
          (case exec_builtin run w t g ci (e\<lparr>ex_cwd := p\<rparr>) of
             (t', e', Inl IgnoreCommand) \<Rightarrow> (t', e', Inr [])
           | (t', e', Inl x) \<Rightarrow> (t', e', Inl (syntax_error x))
           | r \<Rightarrow> r))"

definition ex_getNode :: "ctree \<Rightarrow> command_info \<Rightarrow> executor \<Rightarrow> exec_error + nat" where
  "ex_getNode t ci e = (case traverseNode t e (ci_path ci) of Inl x \<Rightarrow> Inl (if x = InvalidCommand then x else syntax_error x) | Inr n \<Rightarrow> Inr n)"

section \<open>A small tree\<close>

text \<open>An executor in the tree with one directory \<open>a\<close>; the commands do nothing.\<close>

definition no_commands :: command_fn where
  "no_commands f ci t = (t, Inr ([], AnyOther))"

definition word_command :: "builtin_command \<Rightarrow> string list \<Rightarrow> command_info" where
  "word_command b ws = \<lparr>ci_builtin = b, ci_path = map WordToken ws, ci_tokens = []\<rparr>"

lemmas small_eval = small_tree_def new_node_def no_commands_def word_command_def new_executor_def ex_execute_def exec_builtin_def
  ex_exec_def ex_exec_body_def ex_pushd_def ex_popd_def enter_dir_def skipping_def traverseNode_def traverseDirectory_def
  traverse_step_def back_dir_def ex_complete_def policy_allows_def hasChild_def getDirectory_def node_get_def getLink_def
  followLink_def isDirectory_def prune_path.simps WordToken_def NoneToken_def Let_def list_dir_def syntax_error_def

lemma small_chain: "node_chain small_tree 0 = Some [0]" "node_chain small_tree (Suc 0) = Some [0, Suc 0]"
proof -
  show z: "node_chain small_tree 0 = Some [0]" by (subst node_chain.simps) (simp add: small_tree_def new_node_def)
  show "node_chain small_tree (Suc 0) = Some [0, Suc 0]" by (subst node_chain.simps) (simp add: small_tree_def new_node_def z [unfolded small_tree_def new_node_def, simplified])
qed

lemma small_active: "node_active small_tree 0 0 = Some True" "node_active small_tree 0 (Suc 0) = Some True"
  by (simp_all add: node_active_def small_chain)

lemma small_ok: "tree_ok small_tree"
  by (rule reach_ok [OF small_tree_reach])

lemma small_push: "ex_execute no_commands None small_tree 0 (word_command BuiltinPUSHD [''a'']) (new_executor 0) =
    (small_tree, (new_executor 0)\<lparr>ex_cwd := [0, 1], ex_dirstack := [[0]]\<rparr>, Inr [])"
  by (simp add: small_eval)

lemma small_pop: "ex_execute no_commands None small_tree 0 (word_command BuiltinPOPD []) ((new_executor 0)\<lparr>ex_cwd := [0, 1], ex_dirstack := [[0]]\<rparr>) =
    (small_tree, new_executor 0, Inr [])"
  using small_active(2) by (simp add: small_eval)

section \<open>Directory groups\<close>

lemma prune_prefix: "prune_path t g p = Some q \<Longrightarrow> prefix q p \<and> (p \<noteq> [] \<longrightarrow> q \<noteq> [])"
proof (induction t g p rule: prune_path.induct)
  case (1 t g p)
  show ?case
  proof (cases "q = p")
    case False
    then have l: "\<not> length p \<le> 1" and b: "prune_path t g (butlast p) = Some q" using 1(3) by (subst (asm) prune_path.simps; auto split: if_splits option.splits)+
    have "butlast p \<noteq> []" using l by (cases p rule: rev_cases) auto
    moreover have "prefix q (butlast p) \<and> (butlast p \<noteq> [] \<longrightarrow> q \<noteq> [])"
    proof (cases "t (last p) = None")
      case True
      show ?thesis by (rule 1(1) [OF l True b])
    next
      case some: False
      then obtain a where a: "node_active t g (last p) = Some a" using 1(3) l by (subst (asm) prune_path.simps) (auto split: option.splits)
      moreover have "\<not> a" using 1(3) l some a False by (subst (asm) prune_path.simps) auto
      ultimately show ?thesis using 1(2) [OF l some _ _ b] by simp
    qed
    ultimately show ?thesis using l prefixeq_butlast prefix_order.trans by blast
  qed simp
qed

text \<open>In a tree the pruning ends.\<close>

lemma prune_ends: "tree_ok t \<Longrightarrow> \<exists>q. prune_path t g p = Some q"
proof (induction "length p" arbitrary: p rule: less_induct)
  case less
  show ?case
  proof (cases "length p \<le> 1")
    case False
    then have "\<exists>q. prune_path t g (butlast p) = Some q" by (intro less.hyps [OF _ less.prems]) simp
    moreover have "\<exists>a. node_active t g (last p) = Some a" if "t (last p) \<noteq> None"
      using chain_ends [OF less.prems that] by (auto simp: node_active_def)
    ultimately show ?thesis by (subst prune_path.simps) auto
  qed (subst prune_path.simps, simp)
qed

lemma pushd_result:
  assumes "ex_pushd t dir e = (e', r)"
  shows "case r of Inr _ \<Rightarrow> \<exists>p. e' = enter_dir p e | Inl x \<Rightarrow> e' = e \<and> x \<noteq> IgnoreCommand"
  using assms by (auto simp: ex_pushd_def split: if_splits sum.splits exec_error.splits)

lemma cd_result:
  assumes "ex_cd t g dir e = (e', r)"
  shows "ex_dirstack e' = ex_dirstack e"
  using assms by (auto simp: ex_cd_def ex_get_cwd_def split: if_splits sum.splits exec_error.splits option.splits prod.splits)

lemma exec_body_stack:
  assumes "ex_exec_body run t g ci e = (t', e', r)"
  shows "case r of Inr _ \<Rightarrow> (if ci_builtin ci = BuiltinPUSHD then \<exists>p. e' = enter_dir p e else ex_dirstack e' = ex_dirstack e)
     | Inl _ \<Rightarrow> ex_dirstack e' = ex_dirstack e \<and> (ci_builtin ci = BuiltinPUSHD \<longrightarrow> e' = e)"
proof -
  have push: "case r of Inr _ \<Rightarrow> \<exists>p. e' = enter_dir p e | Inl _ \<Rightarrow> e' = e" if "(case ex_pushd t d e of (e', r) \<Rightarrow> (t, e', map_sum id (\<lambda>_. []) r)) = (t', e', r)" for d
    using that pushd_result [of t d e] by (auto split: prod.splits sum.splits)
  have cd: "ex_dirstack e' = ex_dirstack e" if "(case ex_cd t g d e of (e', r) \<Rightarrow> (t, e', map_sum id (\<lambda>_. []) r)) = (t', e', r)" for d
    using that cd_result [of t g d e] by (auto split: prod.splits)
  show ?thesis
    using assms push [of "ci_path ci"] cd [of "ci_path ci"] unfolding ex_exec_body_def
    by (auto simp: enter_dir_def split: sum.splits if_splits option.splits node_kind.splits any_value.splits prod.splits)
qed

lemma exec_stack:
  assumes "ex_exec run t g ci e = (t', e', r)"
  shows "case r of Inr _ \<Rightarrow> (if ci_builtin ci = BuiltinPUSHD then \<exists>p. e' = enter_dir p e else ex_dirstack e' = ex_dirstack e)
     | Inl x \<Rightarrow> ex_dirstack e' = ex_dirstack e \<and> (ci_builtin ci = BuiltinPUSHD \<longrightarrow> e' = e \<and> x \<noteq> IgnoreCommand)"
proof -
  obtain u f q where b: "ex_exec_body run t g ci e = (u, f, q)" by (metis prod_cases3)
  show ?thesis using assms exec_body_stack [OF b] by (auto simp: ex_exec_def b split: sum.splits exec_error.splits if_splits)
qed

lemma builtin_stack:
  assumes "exec_builtin run w t g ci e = (t', e', r)" "ci_builtin ci \<noteq> BuiltinPOPD"
  shows "case r of Inr _ \<Rightarrow> (if ci_builtin ci = BuiltinPUSHD then \<exists>p. e' = enter_dir p e else ex_dirstack e' = ex_dirstack e)
     | Inl x \<Rightarrow> ex_dirstack e' = ex_dirstack e \<and> (ci_builtin ci = BuiltinPUSHD \<longrightarrow> e' = e \<and> x \<noteq> IgnoreCommand)"
proof (cases "ci_builtin ci")
  case NoBuiltin
  then show ?thesis using assms(1) exec_stack [of run t g ci e t' e' r] by (auto simp: exec_builtin_def split: if_splits sum.splits)
next
  case BuiltinPUSHD
  then show ?thesis using assms(1) exec_stack [of run t g ci e t' e' r] pushd_result [of t "ci_path ci" e]
    by (auto simp: exec_builtin_def split: if_splits prod.splits sum.splits)
next
  case BuiltinCD
  then show ?thesis using assms(1) cd_result [of t g "ci_path ci" e]
    by (auto simp: exec_builtin_def split: if_splits prod.splits sum.splits exec_error.splits)
qed (use assms in \<open>auto simp: exec_builtin_def split: if_splits sum.splits\<close>)

lemma execute_stack:
  assumes x: "ex_execute run w t g ci e = (t', e', Inr out)"
  shows "ci_builtin ci = BuiltinPOPD \<Longrightarrow> ex_dirstack e' = butlast (ex_dirstack e) \<and> t' = t \<and> (ex_dirstack e \<noteq> [] \<longrightarrow> ex_cwd e' = last (ex_dirstack e))"
    "ci_builtin ci = BuiltinPUSHD \<Longrightarrow> \<exists>q. prefix q (ex_cwd e) \<and> ex_dirstack e' = ex_dirstack e @ [q]"
    "ci_builtin ci \<noteq> BuiltinPOPD \<Longrightarrow> ci_builtin ci \<noteq> BuiltinPUSHD \<Longrightarrow> ex_dirstack e' = ex_dirstack e"
proof -
  obtain p where p: "(if skipping e then Some (ex_cwd e) else prune_path t g (ex_cwd e)) = Some p" using x by (fastforce simp: ex_execute_def split: option.splits)
  then have pre: "prefix p (ex_cwd e)" using prune_prefix by (auto split: if_splits)
  obtain u f r where b: "exec_builtin run w t g ci (e\<lparr>ex_cwd := p\<rparr>) = (u, f, r)" by (metis prod_cases3)
  have r: "u = t'" "f = e'" "r = Inr out \<or> r = Inl IgnoreCommand"
    using x by (auto simp: ex_execute_def p b split: sum.splits exec_error.splits)
  show "ci_builtin ci = BuiltinPOPD \<Longrightarrow> ex_dirstack e' = butlast (ex_dirstack e) \<and> t' = t \<and> (ex_dirstack e \<noteq> [] \<longrightarrow> ex_cwd e' = last (ex_dirstack e))"
    using b r by (auto simp: exec_builtin_def ex_popd_def)
  have s: "ci_builtin ci \<noteq> BuiltinPOPD \<Longrightarrow> case r of Inr _ \<Rightarrow> (if ci_builtin ci = BuiltinPUSHD then \<exists>q. e' = enter_dir q (e\<lparr>ex_cwd := p\<rparr>) else ex_dirstack e' = ex_dirstack e)
     | Inl x \<Rightarrow> ex_dirstack e' = ex_dirstack e \<and> (ci_builtin ci = BuiltinPUSHD \<longrightarrow> x \<noteq> IgnoreCommand)"
    using builtin_stack [OF b] r(1,2) by (auto split: sum.splits)
  show "\<exists>q. prefix q (ex_cwd e) \<and> ex_dirstack e' = ex_dirstack e @ [q]" if "ci_builtin ci = BuiltinPUSHD"
    using s that r(3) pre by (auto simp: enter_dir_def)
  show "ci_builtin ci \<noteq> BuiltinPOPD \<Longrightarrow> ci_builtin ci \<noteq> BuiltinPUSHD \<Longrightarrow> ex_dirstack e' = ex_dirstack e" using s r(3) by auto
qed

text \<open>Commands one after the other; an exception ends it.\<close>

fun ex_run :: "command_fn \<Rightarrow> nat option \<Rightarrow> nat \<Rightarrow> command_info list \<Rightarrow> ctree \<Rightarrow> executor \<Rightarrow> ctree \<times> executor \<times> (exec_error + string)" where
  "ex_run run w g [] t e = (t, e, Inr [])"
| "ex_run run w g (ci # cis) t e =
     (case ex_execute run w t g ci e of
        (t1, e1, Inl x) \<Rightarrow> (t1, e1, Inl x)
      | (t1, e1, Inr out) \<Rightarrow> (case ex_run run w g cis t1 e1 of
            (t2, e2, Inl x) \<Rightarrow> (t2, e2, Inl x)
          | (t2, e2, Inr outs) \<Rightarrow> (t2, e2, Inr (out @ outs))))"

text \<open>Every group that is opened is closed; \<open>n\<close> groups are open at the beginning.\<close>

fun closes :: "nat \<Rightarrow> builtin_command list \<Rightarrow> bool" where
  "closes n [] \<longleftrightarrow> n = 0"
| "closes n (BuiltinPUSHD # bs) \<longleftrightarrow> closes (Suc n) bs"
| "closes n (BuiltinPOPD # bs) \<longleftrightarrow> n > 0 \<and> closes (n - 1) bs"
| "closes n (_ # bs) \<longleftrightarrow> closes n bs"

lemma run_Cons:
  assumes "ex_run run w g (ci # cis) t e = (t', e', Inr out)"
  obtains t1 e1 o1 o2 where "ex_execute run w t g ci e = (t1, e1, Inr o1)" "ex_run run w g cis t1 e1 = (t', e', Inr o2)" "out = o1 @ o2"
proof -
  obtain t1 e1 r where x: "ex_execute run w t g ci e = (t1, e1, r)" by (metis prod_cases3)
  obtain t2 e2 q where y: "ex_run run w g cis t1 e1 = (t2, e2, q)" by (metis prod_cases3)
  show ?thesis using assms that x y by (cases r; cases q) auto
qed

lemma run_append:
  assumes "ex_run run w g (xs @ ys) t e = (t', e', Inr out)"
  obtains t1 e1 o1 o2 where "ex_run run w g xs t e = (t1, e1, Inr o1)" "ex_run run w g ys t1 e1 = (t', e', Inr o2)" "out = o1 @ o2"
  using assms
proof (induction xs arbitrary: t e out thesis)
  case (Cons x xs)
  obtain t1 e1 o1 o2 where x: "ex_execute run w t g x e = (t1, e1, Inr o1)" "ex_run run w g (xs @ ys) t1 e1 = (t', e', Inr o2)" "out = o1 @ o2"
    using Cons.prems(2) unfolding append_Cons by (rule run_Cons)
  obtain t2 e2 o3 o4 where y: "ex_run run w g xs t1 e1 = (t2, e2, Inr o3)" "ex_run run w g ys t2 e2 = (t', e', Inr o4)" "o2 = o3 @ o4"
    using Cons.IH [OF _ x(2)] by blast
  show ?case by (rule Cons.prems(1) [of t2 e2 "o1 @ o3" o4]) (use x y in simp_all)
qed simp

lemma closes_other: "b \<noteq> BuiltinPUSHD \<Longrightarrow> b \<noteq> BuiltinPOPD \<Longrightarrow> closes n (b # bs) \<longleftrightarrow> closes n bs"
  by (cases b) auto

lemma run_stack:
  "ex_run run w g cis t e = (t', e', Inr out) \<Longrightarrow> closes n (map ci_builtin cis) \<Longrightarrow> n \<le> length (ex_dirstack e) \<Longrightarrow>
    ex_dirstack e' = take (length (ex_dirstack e) - n) (ex_dirstack e)"
proof (induction cis arbitrary: t e n out)
  case (Cons ci cis)
  obtain t1 e1 o1 o2 where x: "ex_execute run w t g ci e = (t1, e1, Inr o1)" and r: "ex_run run w g cis t1 e1 = (t', e', Inr o2)" and "out = o1 @ o2"
    using Cons.prems(1) by (rule run_Cons)
  note s = execute_stack [OF x]
  show ?case
  proof (cases "ci_builtin ci = BuiltinPUSHD \<or> ci_builtin ci = BuiltinPOPD")
    case True
    then show ?thesis
    proof
      assume b: "ci_builtin ci = BuiltinPUSHD"
      then obtain q where q: "ex_dirstack e1 = ex_dirstack e @ [q]" using s(2) by auto
      then show ?thesis using Cons.IH [OF r, of "Suc n"] Cons.prems(2,3) b by simp
    next
      assume b: "ci_builtin ci = BuiltinPOPD"
      then have q: "ex_dirstack e1 = butlast (ex_dirstack e)" "n > 0" "closes (n - 1) (map ci_builtin cis)" using s(1) Cons.prems(2) by auto
      have "length (butlast (ex_dirstack e)) - (n - 1) = length (ex_dirstack e) - n" using q(2) by simp
      then show ?thesis using Cons.IH [OF r q(3)] Cons.prems(3) q(1,2) by (simp add: take_butlast)
    qed
  next
    case False
    then show ?thesis using Cons.IH [OF r, of n] Cons.prems(2,3) s(3) closes_other by simp
  qed
qed simp



text \<open>In a group that is skipped only the groups are counted.\<close>

lemma skipped_execute:
  assumes "skipping e"
  shows "ex_execute run w t g ci e =
    (case ci_builtin ci of BuiltinPUSHD \<Rightarrow> (t, e\<lparr>ex_dirstack := ex_dirstack e @ [[]]\<rparr>, Inr []) | BuiltinPOPD \<Rightarrow> (t, ex_popd e, Inr []) | _ \<Rightarrow> (t, e, Inr []))"
proof -
  have "ex_cwd e = []" using assms by (simp add: skipping_def)
  then show ?thesis
    by (cases e; cases "ci_builtin ci") (simp_all add: ex_execute_def exec_builtin_def ex_pushd_def skipping_def enter_dir_def)
qed

lemma skipped_run:
  "ex_cwd e = [] \<Longrightarrow> ex_dirstack e = s @ replicate n [] \<Longrightarrow> closes n (map ci_builtin cis) \<Longrightarrow> ex_run run w g cis t e = (t, e\<lparr>ex_dirstack := s\<rparr>, Inr [])"
proof (induction cis arbitrary: e n)
  case Nil
  then show ?case by (cases e) simp
next
  case (Cons ci cis)
  note x = skipped_execute [of e run w t g ci]
  have k: "skipping e" using Cons.prems(1) by (simp add: skipping_def)
  show ?case
  proof (cases "ci_builtin ci = BuiltinPUSHD \<or> ci_builtin ci = BuiltinPOPD")
    case True
    then show ?thesis
    proof
      assume b: "ci_builtin ci = BuiltinPUSHD"
      have "ex_run run w g cis t (e\<lparr>ex_dirstack := ex_dirstack e @ [[]]\<rparr>) = (t, e\<lparr>ex_dirstack := s\<rparr>, Inr [])"
        using Cons.IH [of "e\<lparr>ex_dirstack := ex_dirstack e @ [[]]\<rparr>" "Suc n"] Cons.prems b by (simp add: replicate_append_same)
      then show ?thesis using x [OF k] b by simp
    next
      assume b: "ci_builtin ci = BuiltinPOPD"
      obtain m where m: "n = Suc m" using Cons.prems(3) b by (cases n) auto
      have d: "ex_dirstack e = (s @ replicate m []) @ [[]]" using Cons.prems(2) m by (simp add: replicate_append_same)
      then have "ex_popd e = e\<lparr>ex_dirstack := s @ replicate m []\<rparr>" using Cons.prems(1) by (cases e) (simp add: ex_popd_def butlast_append)
      moreover have "ex_run run w g cis t (e\<lparr>ex_dirstack := s @ replicate m []\<rparr>) = (t, e\<lparr>ex_dirstack := s\<rparr>, Inr [])"
        using Cons.IH [of "e\<lparr>ex_dirstack := s @ replicate m []\<rparr>" m] Cons.prems b m by simp
      ultimately show ?thesis using x [OF k] b by simp
    qed
  next
    case False
    then have "ex_execute run w t g ci e = (t, e, Inr [])" using x [OF k] by (cases "ci_builtin ci") simp_all
    moreover have "ex_run run w g cis t e = (t, e\<lparr>ex_dirstack := s\<rparr>, Inr [])" using Cons.IH [OF Cons.prems(1,2)] Cons.prems(3) False closes_other by simp
    ultimately show ?thesis by simp
  qed
qed

text \<open>
  While a group is skipped (the policy refused its directory) no command runs: every sequence of commands whose groups are
  closed ends without an error and without output and leaves the tree and the executor as they were.
\<close>

theorem skipped_group_runs_nothing:
  assumes "skipping e" "closes 0 (map ci_builtin cis)"
  shows "ex_run run w g cis t e = (t, e, Inr [])"
proof -
  have "ex_run run w g cis t e = (t, e\<lparr>ex_dirstack := ex_dirstack e\<rparr>, Inr [])"
    by (rule skipped_run [of e "ex_dirstack e" 0]) (use assms in \<open>simp_all add: skipping_def\<close>)
  then show ?thesis by (cases e) simp
qed

theorem skipped_group_runs_nothing_witness:
  "ex_run no_commands None 0 [word_command BuiltinPUSHD [''b''], word_command BuiltinEXIT [], word_command BuiltinPOPD []] small_tree ((new_executor 0)\<lparr>ex_cwd := []\<rparr>) =
     (small_tree, (new_executor 0)\<lparr>ex_cwd := []\<rparr>, Inr [])"
  by (rule skipped_group_runs_nothing) (simp_all add: skipping_def word_command_def)

section \<open>Errors\<close>

lemma cd_error:
  assumes "tree_ok t" "ex_oldCwd e \<noteq> []" "ex_cd t g dir e = (e', Inl x)"
  shows "e' = e"
proof (cases "dir = [WordToken ''-'']")
  case True
  obtain q where "prune_path t g (ex_oldCwd e) = Some q" using prune_ends [OF assms(1)] by blast
  then show ?thesis using assms(2,3) True by (auto simp: ex_cd_def ex_get_cwd_def back_dir_def split: if_splits)
next
  case False
  then show ?thesis using assms(3) by (auto simp: ex_cd_def split: sum.splits)
qed

lemma exec_error:
  assumes "tree_ok t" "ex_oldCwd e \<noteq> []" "ex_exec run t g ci e = (t', e', Inl x)"
  shows "e' = e"
proof -
  obtain u f r where b: "ex_exec_body run t g ci e = (u, f, r)" by (metis prod_cases3)
  have r: "r = Inl x" "f = e'" using assms(3) by (auto simp: ex_exec_def b split: sum.splits exec_error.splits if_splits)
  have push: "f = e" if "(case ex_pushd t d e of (e', r) \<Rightarrow> (t, e', map_sum id (\<lambda>_. [] :: string) r)) = (u, f, r)" for d
    using that pushd_result [of t d e] r(1) by (auto split: prod.splits sum.splits)
  have cd: "f = e" if "(case ex_cd t g d e of (e', r) \<Rightarrow> (t, e', map_sum id (\<lambda>_. [] :: string) r)) = (u, f, r)" for d
  proof -
    obtain k q where k: "ex_cd t g d e = (k, q)" by fastforce
    then have "k = f" "map_sum id (\<lambda>_. [] :: string) q = Inl x" using that r(1) by auto
    then show ?thesis using cd_error [OF assms(1,2), of g d k] k by (cases q) auto
  qed
  have "f = e" using b push [of "ci_path ci"] cd [of "ci_path ci"] r(1) unfolding ex_exec_body_def
    by (auto split: sum.splits if_splits option.splits node_kind.splits any_value.splits prod.splits)
  then show ?thesis using r by simp
qed



text \<open>
  A new executor has no directory that \<open>cd -\<close> leads to: the command leaves it without a current directory, and an assertion fails.
\<close>

lemma first_cd_back: "\<exists>e'. ex_cd t g [WordToken ''-''] (new_executor r) = (e', Inl CwdAssert) \<and> skipping e'"
  by (simp add: ex_cd_def ex_get_cwd_def new_executor_def skipping_def)

text \<open>Only the end of the path is pruned: a directory that is gone in the middle of the path is followed by \<open>..\<close>.\<close>

lemma stale_parent: "small_tree 9 = None \<and> prune_path small_tree 0 [0, 9, 1] = Some [0, 9, 1] \<and>
    traverseDirectory small_tree (new_executor 0) [WordToken ''..'', WordToken ''a''] [0, 9, 1] = Inl NullNode"
  using small_active(2) by (simp add: small_eval)

text \<open>Names are completed whatever \<open>autocomplete\<close> was set to, and it cannot be switched off.\<close>

lemma traverse_autocomplete: "traverse_from t (e\<lparr>ex_autocomplete := v\<rparr>) first err path dir = traverse_from t e first err path dir"
proof (induction path arbitrary: first err dir)
  case (Cons i path)
  have "traverse_step t (e\<lparr>ex_autocomplete := v\<rparr>) first err' i dir = traverse_step t e first err' i dir" for err'
    by (simp add: traverse_step_def policy_allows_def Let_def split: sum.splits)
  then show ?case using Cons.IH by (simp add: Let_def split: sum.splits)
qed simp

lemma autocomplete_unused:
  "ex_autocomplete (ex_set_autocomplete False e) \<and> traverseNode t (e\<lparr>ex_autocomplete := v\<rparr>) path = traverseNode t e path"
  by (simp add: ex_set_autocomplete_def traverseNode_def traverseDirectory_def traverse_autocomplete policy_allows_def Let_def split: sum.splits)

section \<open>The root\<close>

definition inside :: "ctree \<Rightarrow> nat \<Rightarrow> path \<Rightarrow> bool" where
  "inside t r p \<longleftrightarrow> (\<forall>n\<in>set p. t n \<noteq> None \<longrightarrow> (r, n) \<in> (parent_rel t)\<^sup>*)"

lemma get_below:
  assumes ok: "tree_ok t" and links: "\<And>l m. kv t l \<noteq> Some (LinkNode m)" and g: "node_get t b name = Inr n"
  shows "pv t n = Some b"
proof -
  obtain c where c: "getLink t b name = Inr c" "n = followLink t c" using g by (auto simp: node_get_def split: sum.splits)
  have "followLink t c = c" using links [of c] by (auto simp: followLink_def kv_def split: option.splits node_kind.splits)
  moreover have "map_of (cv t b) name = Some c" using c(1) by (auto simp: getLink_def cv_def split: option.splits)
  ultimately show ?thesis using child_iff [OF ok] c(2) by simp
qed

lemma back_dir_inside: "inside t r p \<Longrightarrow> back_dir t p = Inr b \<Longrightarrow> (r, b) \<in> (parent_rel t)\<^sup>*"
  by (auto simp: inside_def back_dir_def split: if_splits)

lemma get_inside:
  assumes "tree_ok t" "\<And>l m. kv t l \<noteq> Some (LinkNode m)" "inside t r p" "back_dir t p = Inr b" "node_get t b name = Inr n"
  shows "(r, n) \<in> (parent_rel t)\<^sup>*"
  using back_dir_inside [OF assms(3,4)] get_below [OF assms(1,2,5)] by (auto simp: parent_rel_def intro: rtrancl_into_rtrancl)

lemma inside_butlast: "inside t r p \<Longrightarrow> inside t r (butlast p)"
  by (auto simp: inside_def dest: in_set_butlastD)

lemma traverse_inside:
  assumes "tree_ok t" "\<And>l m. kv t l \<noteq> Some (LinkNode m)"
  shows "inside t (ex_root e) dir \<Longrightarrow> traverse_from t e first err path dir = Inr dir' \<Longrightarrow> inside t (ex_root e) dir'"
proof (induction path arbitrary: first err dir)
  case (Cons i path)
  obtain err' dir1 where s: "traverse_step t e first err' i dir = Inr dir1" and r: "traverse_from t e False err' path dir1 = Inr dir'"
    using Cons.prems(2) by (auto simp: Let_def split: sum.splits)
  have "inside t (ex_root e) dir1"
  proof (cases "i = NoneToken \<or> i = WordToken ''..'' \<or> i = WordToken ''.''")
    case True
    then show ?thesis using s Cons.prems(1) inside_butlast by (auto simp: traverse_step_def inside_def split: if_splits dest: in_set_butlastD)
  next
    case False
    then obtain b name d where b: "back_dir t dir = Inr b" "getDirectory t b name = Inr d" "dir1 = dir @ [d]"
      using s by (auto simp: traverse_step_def Let_def split: sum.splits if_splits)
    have "node_get t b name = Inr d" using b(2) by (auto simp: getDirectory_def split: sum.splits if_splits)
    then show ?thesis using get_inside [OF assms Cons.prems(1) b(1)] Cons.prems(1) b(3) by (auto simp: inside_def)
  qed
  then show ?case by (rule Cons.IH [OF _ r])
qed simp



text \<open>A link leads out of the directory given to \<open>chroot\<close>.\<close>

definition link_tree :: ctree where
  "link_tree =
     [0 \<mapsto> (new_node DirectoryNode)\<lparr>cn_children := [(''a'', 1)]\<rparr>,
      1 \<mapsto> (new_node DirectoryNode)\<lparr>cn_name := ''a'', cn_parent := Some 0, cn_children := [(''up'', 2)]\<rparr>,
      2 \<mapsto> (new_node (LinkNode 0))\<lparr>cn_name := ''up'', cn_parent := Some 1\<rparr>]"

lemma link_leaves_root: "traverseNode link_tree (ex_chroot 1 (new_executor 0)) [WordToken ''up''] = Inr 0 \<and> isChildOf link_tree 0 1 = Some False"
proof
  show "traverseNode link_tree (ex_chroot 1 (new_executor 0)) [WordToken ''up''] = Inr 0"
    by (simp add: small_eval link_tree_def ex_chroot_def)
  show "isChildOf link_tree 0 1 = Some False" by (subst isChildOf.simps) (simp add: link_tree_def new_node_def)
qed

section \<open>Paths\<close>

lemma chain_steps:
  "node_chain t n = Some ns \<Longrightarrow> ns \<noteq> [] \<and> last ns = n \<and> t n \<noteq> None \<and> successively (\<lambda>a b. pv t b = Some a) ns"
proof (rule node_chain.raw_induct [where P = "\<lambda>t n ns. ns \<noteq> [] \<and> last ns = n \<and> t n \<noteq> None \<and> successively (\<lambda>a b. pv t b = Some a) ns"], goal_cases)
  case (1 chain t n ns)
  obtain x where x: "t n = Some x" using 1(3) by (auto split: option.splits)
  show ?case
  proof (cases "cn_parent x")
    case None
    then show ?thesis using 1(3) x by auto
  next
    case (Some d)
    then obtain ms where ms: "chain t d = Some ms" "ns = ms @ [n]" using 1(3) x by (auto simp: bind_eq_Some_conv)
    have "pv t n = Some d" using x Some by (simp add: pv_def)
    then show ?thesis using 1(2) [OF ms(1)] ms(2) x by (auto simp: successively_append_iff)
  qed
qed assumption

definition name_token :: "ctree \<Rightarrow> nat \<Rightarrow> token" where
  "name_token t n = WordToken (chain_name t n)"

lemma traverse_child:
  assumes ok: "tree_ok t" and p: "pv t n = Some b" and d: "isDirectory t n" and pol: "ex_policy e = None"
    and dots: "chain_name t n \<noteq> ''.''" "chain_name t n \<noteq> ''..''" and l: "dir \<noteq> []" "last dir = b"
  shows "traverse_step t e first err (name_token t n) dir = Inr (dir @ [n])"
proof -
  have nv: "chain_name t n = nv t n" by (simp add: chain_name_def nv_def)
  have m: "map_of (cv t b) (nv t n) = Some n" using child_iff [OF ok] p by simp
  have b: "t b \<noteq> None" by (rule parent_exists [OF ok p])
  then have m': "hasChild t b (nv t n)" "getLink t b (nv t n) = Inr n" using m by (auto simp: hasChild_def getLink_def cv_def)
  have "followLink t n = n" using d by (auto simp: followLink_def isDirectory_def split: option.splits)
  then have g: "getDirectory t b (nv t n) = Inr n" using m'(2) d by (simp add: getDirectory_def node_get_def)
  show ?thesis using m'(1) g b l dots pol
    by (simp add: traverse_step_def name_token_def WordToken_def NoneToken_def nv back_dir_def ex_complete_def policy_allows_def)
qed

lemma traverse_chain:
  assumes ok: "tree_ok t" and pol: "ex_policy e = None"
  shows "successively (\<lambda>a b. pv t b = Some a) (b # ns) \<Longrightarrow> (\<And>n. n \<in> set ns \<Longrightarrow> isDirectory t n \<and> chain_name t n \<noteq> ''.'' \<and> chain_name t n \<noteq> ''..'') \<Longrightarrow>
    dir \<noteq> [] \<Longrightarrow> last dir = b \<Longrightarrow> traverse_from t e False err (map (name_token t) ns) dir = Inr (dir @ ns)"
proof (induction ns arbitrary: b dir err)
  case (Cons n ns)
  have "traverse_step t e False (err @ ''/'' @ tk_value (name_token t n)) (name_token t n) dir = Inr (dir @ [n])"
    by (rule traverse_child [OF ok _ _ pol]) (use Cons.prems in auto)
  moreover have "traverse_from t e False (err @ ''/'' @ tk_value (name_token t n)) (map (name_token t) ns) (dir @ [n]) = Inr ((dir @ [n]) @ ns)"
    by (rule Cons.IH [of n]) (use Cons.prems in auto)
  ultimately show ?case by simp
qed simp

lemma chain_directories:
  assumes "tree_ok t" "successively (\<lambda>a b. pv t b = Some a) ns" "m \<in> set (butlast ns)"
  shows "isDirectory t m"
  using assms(2,3)
proof (induction ns rule: induct_list012)
  case (3 a b ns)
  show ?case
  proof (cases "m = a")
    case True
    then show ?thesis using 3(3) parent_directory [OF assms(1), of b a] by (simp add: directory_kv)
  qed (use 3 in auto)
qed auto

text \<open>
  C35: The path that the console shows for a directory leads back to it: the names on the way from the root to the directory, as
  an absolute path, bring the executor there, its current path is then the way, and what it shows as its current path is
  the path of the directory.
\<close>

theorem path_leads_back:
  assumes ok: "tree_ok t" and ch: "node_chain t n = Some (r # ns)" and dir: "isDirectory t n"
    and e: "ex_root e = r" "ex_policy e = None" and root: "chain_name t r = []"
    and dots: "\<And>m. m \<in> set ns \<Longrightarrow> chain_name t m \<noteq> ''.'' \<and> chain_name t m \<noteq> ''..''"
  shows "ex_cd t r (NoneToken # map (name_token t) ns) e = (e\<lparr>ex_oldCwd := ex_cwd e, ex_cwd := r # ns\<rparr>, Inr ()) \<and>
    map_option Inr (node_path t n) = Some (snd (cwdPath t r (e\<lparr>ex_cwd := r # ns\<rparr>)))"
proof -
  have c: "last (r # ns) = n" "successively (\<lambda>a b. pv t b = Some a) (r # ns)" using chain_steps [OF ch] by auto
  have d: "isDirectory t m" if "m \<in> set (r # ns)" for m
  proof (cases "m = n")
    case False
    have "r # ns = butlast (r # ns) @ [n]" using c(1) by (metis append_butlast_last_id list.distinct(1))
    then have "m \<in> set (butlast (r # ns)) \<union> {n}" using that by (metis list.simps(15) set_append empty_set)
    then show ?thesis using False chain_directories [OF ok c(2)] by blast
  qed (use dir in simp)
  have "traverse_from t e False [] (map (name_token t) ns) [r] = Inr ([r] @ ns)"
    by (rule traverse_chain [OF ok e(2) c(2)]) (use d dots in auto)
  then have "traverseDirectory t e (NoneToken # map (name_token t) ns) (ex_cwd e) = Inr (r # ns)"
    by (simp add: traverseDirectory_def traverse_step_def e(1) NoneToken_def)
  then have cd: "ex_cd t r (NoneToken # map (name_token t) ns) e = (e\<lparr>ex_oldCwd := ex_cwd e, ex_cwd := r # ns\<rparr>, Inr ())"
    by (simp add: ex_cd_def NoneToken_def WordToken_def)
  have "node_active t r n = Some True" by (simp add: node_active_def ch)
  moreover have "t n \<noteq> None" using dir by (auto simp: isDirectory_def split: option.splits)
  ultimately have prune: "prune_path t r (r # ns) = Some (r # ns)" using c(1) by (subst prune_path.simps) auto
  have "t m \<noteq> None" if "m \<in> set ns" for m using d [of m] that by (auto simp: isDirectory_def split: option.splits)
  then have "snd (cwdPath t r (e\<lparr>ex_cwd := r # ns\<rparr>)) = Inr (''/'' @ join_slash (map (chain_name t) ns))"
    using prune by (auto simp: cwdPath_def skipping_def)
  moreover have "node_path t n = Some (''/'' @ join_slash (map (chain_name t) ns))"
    using root by (cases ns) (simp_all add: node_path_def ch)
  ultimately show ?thesis using cd by simp
qed

theorem path_leads_back_witness:
  "ex_cd small_tree 0 [NoneToken, name_token small_tree 1] (new_executor 0) = ((new_executor 0)\<lparr>ex_oldCwd := [0], ex_cwd := [0, 1]\<rparr>, Inr ()) \<and>
   map_option Inr (node_path small_tree 1) = Some (snd (cwdPath small_tree 0 ((new_executor 0)\<lparr>ex_cwd := [0, 1]\<rparr>)))"
proof -
  have ch: "node_chain small_tree 1 = Some (0 # [1])" using small_chain(2) by simp
  have h: "isDirectory small_tree 1" "ex_root (new_executor 0) = 0" "ex_policy (new_executor 0) = None" "chain_name small_tree 0 = []"
    by (simp_all add: isDirectory_def chain_name_def small_tree_def new_node_def new_executor_def)
  have dots: "m \<in> set [1] \<Longrightarrow> chain_name small_tree m \<noteq> ''.'' \<and> chain_name small_tree m \<noteq> ''..''" for m
    by (simp add: chain_name_def small_tree_def new_node_def)
  show ?thesis using path_leads_back [OF small_ok ch h dots] by (simp add: new_executor_def)
qed

section \<open>Listing\<close>

text \<open>Every directory is entered once, so the recursion ends also when links lead back.\<close>

lemma dolr_ends:
  assumes fin: "finite {d. isDirectory t d}"
  shows "card ({d. isDirectory t d} - dom nodes) \<le> k \<Longrightarrow> \<exists>r. dolr t width nodes base level cs = Some r \<and> dom nodes \<subseteq> dom (snd r)"
proof (induction k arbitrary: nodes base level cs)
  case (0 nodes base level cs)
  then have none: "isDirectory t d \<Longrightarrow> nodes d \<noteq> None" for d using fin by auto
  show ?case
  proof (induction cs)
    case (Cons p ps)
    then obtain r where "dolr t width nodes base level ps = Some r" "dom nodes \<subseteq> dom (snd r)" by blast
    then show ?case using none [of "followLink t (snd p)"] by (subst dolr.simps) (auto simp: Let_def split: option.splits)
  qed (subst dolr.simps, simp)
next
  case (Suc k nodes base level cs)
  show ?case using Suc.prems
  proof (induction cs arbitrary: nodes)
    case (Cons p ps)
    define sub where "sub = followLink t (snd p)"
    show ?case
    proof (cases "isDirectory t sub \<and> nodes sub = None")
      case False
      obtain r where "dolr t width nodes base level ps = Some r" "dom nodes \<subseteq> dom (snd r)" using Cons.IH [OF Cons.prems] by blast
      then show ?thesis using False by (subst dolr.simps) (auto simp: Let_def sub_def split: option.splits)
    next
      case True
      have "sub \<in> {d. isDirectory t d} - dom nodes" using True by auto
      then have "card ({d. isDirectory t d} - dom nodes - {sub}) < card ({d. isDirectory t d} - dom nodes)" using fin by (intro card_Diff1_less) auto
      moreover have "{d. isDirectory t d} - dom (nodes(sub \<mapsto> b)) = {d. isDirectory t d} - dom nodes - {sub}" for b by auto
      ultimately have k: "card ({d. isDirectory t d} - dom (nodes(sub \<mapsto> b))) \<le> k" for b using Cons.prems by simp
      define subbase where "subbase = (if base \<noteq> [] then base @ ''/'' else base) @ fst p"
      obtain r1 where r1: "dolr t width (nodes(sub \<mapsto> subbase)) subbase (level + 1) (children_of t sub) = Some r1" "dom (nodes(sub \<mapsto> subbase)) \<subseteq> dom (snd r1)"
        using Suc.IH [OF k, where base = subbase and level = "level + 1" and cs = "children_of t sub"] by blast
      have "{d. isDirectory t d} - dom (snd r1) \<subseteq> {d. isDirectory t d} - dom nodes" using r1(2) by auto
      then have "card ({d. isDirectory t d} - dom (snd r1)) \<le> Suc k" using Cons.prems card_mono [of "{d. isDirectory t d} - dom nodes"] fin by (meson finite_Diff le_trans)
      from Cons.IH [OF this] obtain r2 where r2: "dolr t width (snd r1) base level ps = Some r2" "dom (snd r1) \<subseteq> dom (snd r2)" by blast
      have "dom nodes \<subseteq> dom (snd r1)" using r1(2) by auto
      then have "dom nodes \<subseteq> dom (snd r2)" using r2(2) by (rule subset_trans)
      then show ?thesis using True r1(1) r2(1) by (subst dolr.simps) (simp add: Let_def sub_def [symmetric] subbase_def [symmetric])
    qed
  qed (subst dolr.simps, simp)
qed

text \<open>
  C37: In a tree of finitely many nodes the recursive listing ends for every directory, whatever the links are.
\<close>

theorem lr_ends:
  assumes "finite (dom t)" "list_dir t e path = Inr d"
  shows "\<exists>out. ex_lr t w path e = Inr out"
proof -
  have "{d. isDirectory t d} \<subseteq> dom t" by (auto simp: isDirectory_def split: option.splits)
  then have "finite {d. isDirectory t d}" using assms(1) by (rule finite_subset)
  from dolr_ends [OF this, where nodes = Map.empty and k = "card {d. isDirectory t d}" and width = "getWidth w 80 60 - (40 + 1)" and base = "[]" and level = 0 and cs = "children_of t d"]
  show ?thesis using assms(2) by (auto simp: ex_lr_def)
qed

theorem lr_ends_witness: "\<exists>out. ex_lr link_tree None [] (new_executor 0) = Inr out"
proof (rule lr_ends)
  show "finite (dom link_tree)" by (simp add: link_tree_def)
  show "list_dir link_tree (new_executor 0) [] = Inr 0" by (simp add: small_eval link_tree_def)
qed

end
