(* ===== verification/Console_Arguments.thy ===== *)
theory Console_Arguments
  imports Console_Executor "HOL-Library.Word"
begin

text \<open>
  The data of a parsed command, \<open>senf/Utils/Console/Parse.*\<close>: what the actions of the grammar do with it, the types of tokens
  and their names in messages, and the iterator that splits the tokens of a command into arguments, where parentheses make one
  argument of several tokens.

  An iterator is a pair of positions in the tokens; a step that reads a token in front of the first or behind the last has no
  result. The levels of parentheses are not bounded (the code counts them in 32 bits).
\<close>

section \<open>The parsed command\<close>

definition pi_new :: command_info where
  "pi_new = \<lparr>ci_builtin = NoBuiltin, ci_path = [], ci_tokens = []\<rparr>"

definition pi_clear :: "command_info \<Rightarrow> command_info" where
  "pi_clear ci = ci\<lparr>ci_builtin := NoBuiltin, ci_path := [], ci_tokens := []\<rparr>"

definition pi_empty :: "command_info \<Rightarrow> bool" where
  "pi_empty ci \<longleftrightarrow> ci_builtin ci = NoBuiltin \<and> ci_path ci = []"

text \<open>The path is moved: the vector it came from is empty then.\<close>

definition pi_command :: "token list \<Rightarrow> command_info \<Rightarrow> command_info \<times> token list" where
  "pi_command path ci = (ci\<lparr>ci_path := path\<rparr>, [])"

definition pi_addToken :: "token \<Rightarrow> command_info \<Rightarrow> command_info" where
  "pi_addToken k ci = ci\<lparr>ci_tokens := ci_tokens ci @ [k]\<rparr>"

definition pd_beginCommand :: "token list \<Rightarrow> command_info \<Rightarrow> command_info \<times> token list" where
  "pd_beginCommand path ci = pi_command path (pi_clear ci)"

definition pd_builtin_path :: "builtin_command \<Rightarrow> token list \<Rightarrow> command_info \<Rightarrow> command_info \<times> token list" where
  "pd_builtin_path b path ci = pi_command path ((pi_clear ci)\<lparr>ci_builtin := b\<rparr>)"

definition pd_pushDirectory :: "command_info \<Rightarrow> command_info" where
  "pd_pushDirectory ci = ci\<lparr>ci_builtin := BuiltinPUSHD\<rparr>"

definition pd_popDirectory :: "command_info \<Rightarrow> command_info" where
  "pd_popDirectory ci = (pi_clear ci)\<lparr>ci_builtin := BuiltinPOPD\<rparr>"

definition pd_builtin_exit :: "command_info \<Rightarrow> command_info" where
  "pd_builtin_exit ci = (pi_clear ci)\<lparr>ci_builtin := BuiltinEXIT\<rparr>"

definition pd_builtin_echo :: "command_info \<Rightarrow> command_info" where
  "pd_builtin_echo ci = ci\<lparr>ci_builtin := BuiltinECHO\<rparr>"

section \<open>Types of tokens\<close>

unbundle bit_operations_syntax

fun token_bits :: "token_type \<Rightarrow> 32 word" where
  "token_bits NoneType = 0"
| "token_bits PathSeparator = 0x0001"
| "token_bits ArgumentGroupOpen = 0x0002"
| "token_bits ArgumentGroupClose = 0x0004"
| "token_bits DirectoryGroupOpen = 0x0008"
| "token_bits DirectoryGroupClose = 0x0010"
| "token_bits CommandTerminator = 0x0020"
| "token_bits OtherPunctuation = 0x0040"
| "token_bits BasicString = 0x0080"
| "token_bits HexString = 0x0100"
| "token_bits Word = 0x0200"

definition token_is :: "32 word \<Rightarrow> token \<Rightarrow> bool" where
  "token_is tokens k \<longleftrightarrow> tokens AND token_bits (tk_type k) \<noteq> 0"

definition token_names :: "string list" where
  "token_names = [''None'', ''PathSeparator'', ''ArgumentGroupOpen'', ''ArgumentGroupClose'', ''DirectoryGroupOpen'',
     ''DirectoryGroupClose'', ''CommandTerminator'', ''OtherPunctuation'', ''BasicString'', ''HexString'', ''Word'']"

definition bit_position :: "nat list" where
  "bit_position = [1, 2, 0, 3, 0, 0, 0, 4, 0, 0, 0, 0, 0, 0, 5, 9, 0, 0, 0, 0, 0, 0, 0, 8, 0, 0, 0, 7, 0, 6, 0, 10]"

text \<open>The lowest bit is found by a multiplication in 64 bits.\<close>

definition token_index :: "token_type \<Rightarrow> nat" where
  "token_index k =
     (if token_bits k = 0 then 0
      else bit_position ! unat (drop_bit 27 ((ucast (token_bits k AND - token_bits k) :: 64 word) * 0x077CB531) AND 31))"

definition token_print :: "token \<Rightarrow> string" where
  "token_print k = token_names ! token_index (tk_type k) @ ''('' @ quoted (tk_value k) @ '')''"

fun type_name :: "token_type \<Rightarrow> string" where
  "type_name NoneType = ''None''"
| "type_name PathSeparator = ''PathSeparator''"
| "type_name ArgumentGroupOpen = ''ArgumentGroupOpen''"
| "type_name ArgumentGroupClose = ''ArgumentGroupClose''"
| "type_name DirectoryGroupOpen = ''DirectoryGroupOpen''"
| "type_name DirectoryGroupClose = ''DirectoryGroupClose''"
| "type_name CommandTerminator = ''CommandTerminator''"
| "type_name OtherPunctuation = ''OtherPunctuation''"
| "type_name BasicString = ''BasicString''"
| "type_name HexString = ''HexString''"
| "type_name Word = ''Word''"

text \<open>The table finds the name of every type.\<close>

lemma token_print_name: "token_print k = type_name (tk_type k) @ ''('' @ quoted (tk_value k) @ '')''"
  by (cases "tk_type k") (simp_all add: token_print_def token_index_def token_names_def bit_position_def)

section \<open>Arguments\<close>

definition is_open :: "token \<Rightarrow> bool" where
  "is_open = token_is (token_bits ArgumentGroupOpen)"

definition is_close :: "token \<Rightarrow> bool" where
  "is_close = token_is (token_bits ArgumentGroupClose)"

lemma open_iff: "is_open k \<longleftrightarrow> tk_type k = ArgumentGroupOpen"
  by (cases "tk_type k") (simp_all add: is_open_def token_is_def)

lemma close_iff: "is_close k \<longleftrightarrow> tk_type k = ArgumentGroupClose"
  by (cases "tk_type k") (simp_all add: is_close_def token_is_def)

record arg_iter =
  ai_b :: nat
  ai_e :: nat

definition arg_iter_at :: "nat \<Rightarrow> arg_iter" where
  "arg_iter_at i = \<lparr>ai_b = i, ai_e = i\<rparr>"

text \<open>The position of the parenthesis that closes the group.\<close>

function scan_close :: "token list \<Rightarrow> nat \<Rightarrow> nat \<Rightarrow> nat option" where
  "scan_close ts level i =
     (if i \<ge> length ts then None
      else if is_open (ts ! i) then scan_close ts (level + 1) (i + 1)
      else if is_close (ts ! i) then (if level - 1 = 0 then Some i else scan_close ts (level - 1) (i + 1))
      else scan_close ts level (i + 1))"
  by pat_completeness auto
termination by (relation "measure (\<lambda>(ts, level, i). length ts - i)") auto

text \<open>The position of the parenthesis that opens the group, going back.\<close>

fun scan_open :: "token list \<Rightarrow> nat \<Rightarrow> nat \<Rightarrow> nat option" where
  "scan_open ts level i =
     (if is_close (ts ! i) then (if i = 0 then None else scan_open ts (level + 1) (i - 1))
      else if is_open (ts ! i) then (if level - 1 = 0 then Some i else if i = 0 then None else scan_open ts (level - 1) (i - 1))
      else if i = 0 then None else scan_open ts level (i - 1))"

declare scan_close.simps [simp del] scan_open.simps [simp del]

definition ai_setRange :: "token list \<Rightarrow> arg_iter \<Rightarrow> arg_iter option" where
  "ai_setRange ts a =
     (if ai_b a \<ge> length ts then None
      else if is_open (ts ! ai_b a) then map_option (\<lambda>i. a\<lparr>ai_e := i + 1\<rparr>) (scan_close ts 0 (ai_b a))
      else Some (a\<lparr>ai_e := ai_e a + 1\<rparr>))"

definition ai_range :: "token list \<Rightarrow> arg_iter \<Rightarrow> arg_iter option" where
  "ai_range ts a = (if ai_b a = ai_e a then ai_setRange ts a else Some a)"

definition ai_dereference :: "token list \<Rightarrow> arg_iter \<Rightarrow> (token list \<times> arg_iter) option" where
  "ai_dereference ts a =
     map_option (\<lambda>a. (if is_open (ts ! ai_b a) then take (ai_e a - 1 - (ai_b a + 1)) (drop (ai_b a + 1) ts)
                      else take (ai_e a - ai_b a) (drop (ai_b a) ts), a)) (ai_range ts a)"

definition ai_increment :: "token list \<Rightarrow> arg_iter \<Rightarrow> arg_iter option" where
  "ai_increment ts a = map_option (\<lambda>a. a\<lparr>ai_b := ai_e a\<rparr>) (ai_range ts a)"

definition ai_decrement :: "token list \<Rightarrow> arg_iter \<Rightarrow> arg_iter option" where
  "ai_decrement ts a =
     (if ai_b a = 0 then None
      else if is_close (ts ! (ai_b a - 1)) then map_option (\<lambda>i. \<lparr>ai_b = i, ai_e = ai_b a\<rparr>) (scan_open ts 0 (ai_b a - 1))
      else Some \<lparr>ai_b = ai_b a - 1, ai_e = ai_b a\<rparr>)"

definition ai_equal :: "arg_iter \<Rightarrow> arg_iter \<Rightarrow> bool" where
  "ai_equal a b \<longleftrightarrow> ai_b a = ai_b b"

lemma scan_close_bounds: "scan_close ts level i = Some j \<Longrightarrow> i \<le> j \<and> j < length ts"
proof (induction ts level i rule: scan_close.induct)
  case (1 ts level i)
  then show ?case by (subst (asm) (4) scan_close.simps) (auto split: if_splits)
qed

lemma range_bounds:
  assumes "ai_range ts (arg_iter_at i) = Some a"
  shows "ai_b a = i" "i < ai_e a" "ai_e a \<le> length ts"
  using assms by (auto simp: ai_range_def ai_setRange_def arg_iter_at_def split: if_splits dest: scan_close_bounds)

lemma after_range: "ai_range ts (arg_iter_at i) = Some a \<Longrightarrow> ai_increment ts a = Some (arg_iter_at (ai_e a))"
  using range_bounds [of ts i a] by (auto simp: ai_increment_def ai_range_def arg_iter_at_def)

text \<open>All arguments, from an iterator to the end of the tokens.\<close>

function arg_list :: "token list \<Rightarrow> nat \<Rightarrow> token list list option" where
  "arg_list ts i =
     (if i = length ts then Some []
      else case ai_dereference ts (arg_iter_at i) of
        None \<Rightarrow> None
      | Some (arg, a) \<Rightarrow> (case ai_increment ts a of None \<Rightarrow> None | Some a' \<Rightarrow> map_option (Cons arg) (arg_list ts (ai_b a'))))"
  by pat_completeness auto

termination
proof (relation "measure (\<lambda>(ts, i). length ts - i)")
  fix ts :: "token list" and i d arg and a a' :: arg_iter
  assume "ai_dereference ts (arg_iter_at i) = Some d" "(arg, a) = d" "ai_increment ts a = Some a'"
  then have r: "ai_range ts (arg_iter_at i) = Some a" by (auto simp: ai_dereference_def)
  then show "((ts, ai_b a'), ts, i) \<in> measure (\<lambda>(ts, i). length ts - i)"
    using range_bounds [OF r] after_range [OF r] \<open>ai_increment ts a = Some a'\<close> by (auto simp: arg_iter_at_def)
qed simp

declare arg_list.simps [simp del]

subsection \<open>Messages\<close>

fun builtin_index :: "builtin_command \<Rightarrow> nat" where
  "builtin_index NoBuiltin = 0"
| "builtin_index BuiltinCD = 1"
| "builtin_index BuiltinLS = 2"
| "builtin_index BuiltinLL = 3"
| "builtin_index BuiltinLR = 4"
| "builtin_index BuiltinPUSHD = 5"
| "builtin_index BuiltinPOPD = 6"
| "builtin_index BuiltinEXIT = 7"
| "builtin_index BuiltinHELP = 8"
| "builtin_index BuiltinECHO = 9"

definition builtin_names :: "string list" where
  "builtin_names = [[], ''cd'', ''ls'', ''lr'', ''pushd'', ''popd'', ''exit'', ''help'']"

fun join_space :: "string list \<Rightarrow> string" where
  "join_space [] = []"
| "join_space [w] = w"
| "join_space (w # v # ws) = w @ '' '' @ join_space (v # ws)"

definition arg_print :: "token list \<Rightarrow> string" where
  "arg_print arg = '' ['' @ join_space (map (\<lambda>k. quoted (tk_value k)) arg) @ '']''"

text \<open>No result: a name is read behind the end of the table.\<close>

definition ci_print :: "command_info \<Rightarrow> string option" where
  "ci_print ci =
     Option.bind
       (if ci_builtin ci = NoBuiltin then Some (join_slash (map tk_value (ci_path ci)))
        else if builtin_index (ci_builtin ci) < length builtin_names then Some (''builtin-'' @ builtin_names ! builtin_index (ci_builtin ci))
        else None)
       (\<lambda>s. map_option (\<lambda>args. s @ concat (map arg_print args)) (arg_list (ci_tokens ci) 0))"

lemma builtin_misprinted:
  "ci_print (word_command BuiltinLL []) = Some ''builtin-lr'' \<and> ci_print (word_command BuiltinPUSHD []) = Some ''builtin-popd'' \<and>
   ci_print (word_command BuiltinHELP []) = None \<and> ci_print (word_command BuiltinECHO []) = None"
  by (simp add: ci_print_def word_command_def builtin_names_def arg_list.simps)

subsection \<open>Nested groups\<close>

text \<open>The level of parentheses behind the tokens; none when a group is closed that was not opened.\<close>

fun depth :: "nat \<Rightarrow> token list \<Rightarrow> nat option" where
  "depth d [] = Some d"
| "depth d (k # ks) = (if is_open k then depth (d + 1) ks else if is_close k then (if d = 0 then None else depth (d - 1) ks) else depth d ks)"

lemma depth_append: "depth d (xs @ ys) = Option.bind (depth d xs) (\<lambda>d'. depth d' ys)"
  by (induction d xs rule: depth.induct) auto

lemma not_both: "is_open k \<Longrightarrow> \<not> is_close k"
  by (simp add: open_iff close_iff)

lemma scan_close_inner:
  "depth d inner = Some 0 \<Longrightarrow> is_close c \<Longrightarrow> scan_close (pre @ inner @ c # rest) (Suc d) (length pre) = Some (length pre + length inner)"
proof (induction inner arbitrary: d pre)
  case Nil
  then show ?case using not_both [of c] by (subst scan_close.simps) auto
next
  case (Cons k inner)
  have n: "(pre @ (k # inner) @ c # rest) ! length pre = k" by (simp add: nth_append)
  have l: "\<not> length (pre @ (k # inner) @ c # rest) \<le> length pre" by simp
  have IH: "depth d' inner = Some 0 \<Longrightarrow> scan_close (pre @ (k # inner) @ c # rest) (Suc d') (length pre + 1) = Some (length pre + length (k # inner))" for d'
    using Cons.IH [of d' "pre @ [k]"] Cons.prems(2) by simp
  consider "is_open k" | "is_close k" "\<not> is_open k" "d \<noteq> 0" | "\<not> is_open k" "\<not> is_close k" using Cons.prems(1) by (auto split: if_splits)
  then show ?case
  proof cases
    case 1
    then show ?thesis using Cons.prems(1) IH [of "d + 1"] by (subst scan_close.simps) (simp only: n l if_False if_True, simp)
  next
    case 2
    then show ?thesis using Cons.prems(1) IH [of "d - 1"] by (subst scan_close.simps) (simp only: n l if_False if_True, simp)
  next
    case 3
    then show ?thesis using Cons.prems(1) IH [of d] by (subst scan_close.simps) (simp only: n l if_False if_True, simp)
  qed
qed

lemma scan_open_inner:
  "depth 0 inner = Some n \<Longrightarrow> is_open op \<Longrightarrow> scan_open (pre @ op # inner @ rest) (Suc n) (length pre + length inner) = Some (length pre)"
proof (induction inner arbitrary: n rest rule: rev_induct)
  case Nil
  then show ?case using not_both [of op] by (subst scan_open.simps) (simp add: nth_append)
next
  case (snoc k inner)
  have nth: "(pre @ op # (inner @ [k]) @ rest) ! (length pre + length (inner @ [k])) = k" by (simp add: nth_append)
  have z: "length pre + length (inner @ [k]) \<noteq> 0" by simp
  obtain m where m: "depth 0 inner = Some m" "depth m [k] = Some n" using snoc.prems(1) by (auto simp: depth_append bind_eq_Some_conv)
  have IH: "scan_open (pre @ op # (inner @ [k]) @ rest) (Suc m) (length pre + length (inner @ [k]) - 1) = Some (length pre)"
    using snoc.IH [OF m(1) snoc.prems(2), of "k # rest"] by simp
  consider "is_close k" "m = Suc n" "\<not> is_open k" | "is_open k" "n = Suc m" "\<not> is_close k" | "\<not> is_open k" "\<not> is_close k" "n = m"
    using m(2) not_both [of k] by (auto split: if_splits)
  then show ?case
  proof cases
    case 1
    then show ?thesis using IH by (subst scan_open.simps) (simp only: nth z if_False if_True, simp)
  next
    case 2
    then show ?thesis using IH by (subst scan_open.simps) (simp only: nth z if_False if_True, simp)
  next
    case 3
    then show ?thesis using IH by (subst scan_open.simps) (simp only: nth z if_False if_True)
  qed
qed

section \<open>Splitting into arguments\<close>

text \<open>An argument as it is written: one token, or a group of tokens in parentheses.\<close>

datatype argument = Simple token | Group token "token list" token

fun arg_tokens :: "argument \<Rightarrow> token list" where
  "arg_tokens (Simple k) = [k]"
| "arg_tokens (Group op inner cl) = op # inner @ [cl]"

fun arg_value :: "argument \<Rightarrow> token list" where
  "arg_value (Simple k) = [k]"
| "arg_value (Group op inner cl) = inner"

fun arg_ok :: "argument \<Rightarrow> bool" where
  "arg_ok (Simple k) \<longleftrightarrow> \<not> is_open k \<and> \<not> is_close k"
| "arg_ok (Group op inner cl) \<longleftrightarrow> is_open op \<and> is_close cl \<and> depth 0 inner = Some 0"

lemma arg_range:
  assumes "arg_ok x"
  shows "ai_range (pre @ arg_tokens x @ rest) (arg_iter_at (length pre)) = Some \<lparr>ai_b = length pre, ai_e = length pre + length (arg_tokens x)\<rparr>"
proof (cases x)
  case (Simple k)
  then show ?thesis using assms by (simp add: ai_range_def ai_setRange_def arg_iter_at_def nth_append)
next
  case (Group op inner cl)
  let ?ts = "pre @ op # inner @ cl # rest"
  have "scan_close ((pre @ [op]) @ inner @ cl # rest) (Suc 0) (length (pre @ [op])) = Some (length (pre @ [op]) + length inner)"
    by (rule scan_close_inner) (use assms Group in simp_all)
  then have "scan_close ?ts 0 (length pre) = Some (length pre + 1 + length inner)"
    using assms Group by (subst scan_close.simps) (simp add: nth_append)
  then show ?thesis using assms Group by (simp add: ai_range_def ai_setRange_def arg_iter_at_def nth_append)
qed

lemma arg_dereference:
  assumes "arg_ok x"
  shows "ai_dereference (pre @ arg_tokens x @ rest) (arg_iter_at (length pre)) =
    Some (arg_value x, \<lparr>ai_b = length pre, ai_e = length pre + length (arg_tokens x)\<rparr>)"
  unfolding ai_dereference_def arg_range [OF assms] using assms by (cases x) (simp_all add: nth_append)

lemma step_back:
  assumes "arg_ok x"
  shows "ai_decrement (pre @ arg_tokens x @ rest) \<lparr>ai_b = length pre + length (arg_tokens x), ai_e = e\<rparr> =
    Some \<lparr>ai_b = length pre, ai_e = length pre + length (arg_tokens x)\<rparr>"
proof (cases x)
  case (Simple k)
  then show ?thesis using assms by (simp add: ai_decrement_def nth_append)
next
  case (Group op inner cl)
  have c: "is_close cl" "is_open op" "depth 0 inner = Some 0" using assms Group by auto
  let ?ts = "pre @ op # inner @ [cl] @ rest"
  have n: "?ts ! (length pre + length inner + 1) = cl" by (simp add: nth_append)
  have "scan_open ?ts (Suc 0) (length pre + length inner) = Some (length pre)" by (rule scan_open_inner [OF c(3,2)])
  then have "scan_open ?ts 0 (length pre + length inner + 1) = Some (length pre)" using c(1) n by (subst scan_open.simps) simp
  then show ?thesis using c(1) n Group by (simp add: ai_decrement_def)
qed

text \<open>
  C39: The arguments of a command are the ones that were written: for every sequence of arguments, each a single token or a
  group in which the parentheses are closed, the iterator over the tokens gives the arguments in their order, of a group
  the tokens inside; and from behind each argument a step back leads to the argument.
\<close>

theorem arguments_as_written:
  assumes "list_all arg_ok args"
  shows "arg_list (concat (map arg_tokens args)) 0 = Some (map arg_value args) \<and>
    (\<forall>xs x ys. args = xs @ x # ys \<longrightarrow>
       ai_decrement (concat (map arg_tokens args)) (arg_iter_at (length (concat (map arg_tokens (xs @ [x]))))) =
         Some \<lparr>ai_b = length (concat (map arg_tokens xs)), ai_e = length (concat (map arg_tokens (xs @ [x])))\<rparr>)"
proof -
  have "arg_list (pre @ concat (map arg_tokens args)) (length pre) = Some (map arg_value args)" for pre
    using assms
  proof (induction args arbitrary: pre)
    case Nil
    then show ?case by (subst arg_list.simps) simp
  next
    case (Cons x args)
    have x: "arg_ok x" using Cons.prems by simp
    have ne: "length pre \<noteq> length (pre @ arg_tokens x @ concat (map arg_tokens args))" by (cases x) simp_all
    have "arg_list ((pre @ arg_tokens x) @ concat (map arg_tokens args)) (length (pre @ arg_tokens x)) = Some (map arg_value args)"
      by (rule Cons.IH) (use Cons.prems in simp)
    moreover note arg_dereference [OF x, of pre "concat (map arg_tokens args)"]
      after_range [OF arg_range [OF x, of pre "concat (map arg_tokens args)"]]
    ultimately show ?case using ne by (subst arg_list.simps) (simp add: arg_iter_at_def)
  qed
  from this [of "[]"] have "arg_list (concat (map arg_tokens args)) 0 = Some (map arg_value args)" by simp
  moreover have "ai_decrement (concat (map arg_tokens args)) (arg_iter_at (length (concat (map arg_tokens (xs @ [x]))))) =
      Some \<lparr>ai_b = length (concat (map arg_tokens xs)), ai_e = length (concat (map arg_tokens (xs @ [x])))\<rparr>" if "args = xs @ x # ys" for xs x ys
    using step_back [of x "concat (map arg_tokens xs)" "concat (map arg_tokens ys)"] assms that by (simp add: arg_iter_at_def)
  ultimately show ?thesis by blast
qed

definition paren_args :: "argument list" where
  "paren_args = [Simple (WordToken ''a''), Group \<lparr>tk_type = ArgumentGroupOpen, tk_value = ''(''\<rparr> [WordToken ''b'', WordToken ''c''] \<lparr>tk_type = ArgumentGroupClose, tk_value = '')''\<rparr>]"

lemma paren_args_ok: "list_all arg_ok paren_args"
  by (simp add: paren_args_def open_iff close_iff WordToken_def)

theorem arguments_as_written_witness:
  "arg_list (concat (map arg_tokens paren_args)) 0 = Some [[WordToken ''a''], [WordToken ''b'', WordToken ''c'']]"
  using arguments_as_written [OF paren_args_ok] by (simp add: paren_args_def)

subsection \<open>Checked access\<close>

text \<open>A wrapper that has an error instead of an access behind the last argument; \<open>e\<close> is the end.\<close>

record checked_args =
  ch_i :: arg_iter
  ch_e :: arg_iter
  ch_msg :: string

definition ch_new :: "token list \<Rightarrow> string \<Rightarrow> checked_args" where
  "ch_new ts msg = \<lparr>ch_i = arg_iter_at 0, ch_e = arg_iter_at (length ts), ch_msg = msg\<rparr>"

definition ch_done :: "checked_args \<Rightarrow> bool" where
  "ch_done c \<longleftrightarrow> ai_equal (ch_i c) (ch_e c)"

definition ch_clear :: "checked_args \<Rightarrow> checked_args" where
  "ch_clear c = c\<lparr>ch_i := ch_e c\<rparr>"

definition ch_dereference :: "token list \<Rightarrow> checked_args \<Rightarrow> (exec_error + token list \<times> checked_args) option" where
  "ch_dereference ts c =
     (if ch_done c then Some (Inl (SyntaxError (ch_msg c)))
      else map_option (\<lambda>(arg, a). Inr (arg, c\<lparr>ch_i := a\<rparr>)) (ai_dereference ts (ch_i c)))"

definition ch_increment :: "token list \<Rightarrow> checked_args \<Rightarrow> (exec_error + checked_args) option" where
  "ch_increment ts c =
     (if ch_done c then Some (Inl (SyntaxError (ch_msg c)))
      else map_option (\<lambda>a. Inr (c\<lparr>ch_i := a\<rparr>)) (ai_increment ts (ch_i c)))"

text \<open>The destructor, when no exception is on its way.\<close>

definition ch_finish :: "checked_args \<Rightarrow> exec_error + unit" where
  "ch_finish c = (if ch_done c then Inr () else Inl (SyntaxError (ch_msg c)))"

text \<open>\<open>*(arg++)\<close>, n times, and then the end of the scope.\<close>

fun take_args :: "token list \<Rightarrow> nat \<Rightarrow> checked_args \<Rightarrow> (exec_error + token list list) option" where
  "take_args ts 0 c = Some (map_sum id (\<lambda>_. []) (ch_finish c))"
| "take_args ts (Suc n) c =
     (case ch_increment ts c of None \<Rightarrow> None
      | Some (Inl x) \<Rightarrow> Some (Inl x)
      | Some (Inr c') \<Rightarrow> (case ai_dereference ts (ch_i c) of None \<Rightarrow> None
          | Some (arg, _) \<Rightarrow> (case take_args ts n c' of None \<Rightarrow> None | Some (Inl x) \<Rightarrow> Some (Inl x) | Some (Inr args) \<Rightarrow> Some (Inr (arg # args)))))"

text \<open>
  A command that takes its arguments through the checked iterator gets them all when it takes as many as there are,
  and otherwise, whether it takes fewer or more, ends with the syntax error of the iterator; no token behind the last
  is read.
\<close>

theorem checked_arguments:
  assumes "list_all arg_ok args"
  shows "take_args (concat (map arg_tokens args)) n (ch_new (concat (map arg_tokens args)) msg) =
    Some (if n = length args then Inr (map arg_value args) else Inl (SyntaxError msg))"
proof -
  have "take_args (pre @ concat (map arg_tokens args)) n \<lparr>ch_i = arg_iter_at (length pre), ch_e = arg_iter_at (length (pre @ concat (map arg_tokens args))), ch_msg = msg\<rparr> =
      Some (if n = length args then Inr (map arg_value args) else Inl (SyntaxError msg))" for pre
    using assms
  proof (induction args arbitrary: pre n)
    case Nil
    then show ?case by (cases n) (simp_all add: ch_increment_def ch_finish_def ch_done_def ai_equal_def arg_iter_at_def)
  next
    case (Cons x args)
    have x: "arg_ok x" using Cons.prems by simp
    let ?ts = "pre @ arg_tokens x @ concat (map arg_tokens args)"
    have ne: "arg_tokens x \<noteq> []" by (cases x) simp_all
    show ?case
    proof (cases n)
      case 0
      then show ?thesis using ne by (simp add: ch_finish_def ch_done_def ai_equal_def arg_iter_at_def)
    next
      case (Suc m)
      have r: "ai_range ?ts (arg_iter_at (length pre)) = Some \<lparr>ai_b = length pre, ai_e = length pre + length (arg_tokens x)\<rparr>" by (rule arg_range [OF x])
      have i: "ai_increment ?ts (arg_iter_at (length pre)) = Some (arg_iter_at (length pre + length (arg_tokens x)))"
        using r by (simp add: ai_increment_def arg_iter_at_def)
      have "take_args ((pre @ arg_tokens x) @ concat (map arg_tokens args)) m
          \<lparr>ch_i = arg_iter_at (length (pre @ arg_tokens x)), ch_e = arg_iter_at (length ((pre @ arg_tokens x) @ concat (map arg_tokens args))), ch_msg = msg\<rparr> =
          Some (if m = length args then Inr (map arg_value args) else Inl (SyntaxError msg))"
        by (rule Cons.IH) (use Cons.prems in simp)
      then show ?thesis using Suc ne i arg_dereference [OF x, of pre "concat (map arg_tokens args)"]
        by (cases "m = length args") (simp_all add: ch_increment_def ch_done_def ai_equal_def arg_iter_at_def)
    qed
  qed
  from this [of "[]"] show ?thesis by (simp add: ch_new_def)
qed

theorem checked_arguments_witness:
  "take_args (concat (map arg_tokens paren_args)) 3 (ch_new (concat (map arg_tokens paren_args)) ''too few'') = Some (Inl (SyntaxError ''too few''))"
  using checked_arguments [OF paren_args_ok, of 3 "''too few''"] by (simp add: paren_args_def)

end
