(* ===== verification/Console_Config.thy ===== *)
theory Console_Config
  imports Console_Executor
begin

text \<open>
  Configuration in several steps, \<open>senf/Utils/Console/Config.*\<close>: an executor that runs only the commands below a directory and
  leaves out what was run in earlier steps, and the bundle of sources that are read in each step.

  The policy of the executor is the function \<open>policyCallback\<close> of the restricted executor; it looks at the tree before the command
  runs. A source is the list of the commands the parser reads from it. The walk up from a node is taken as not leading to the
  directory when it does not end; in a tree it always ends.
\<close>

section \<open>The restricted executor\<close>

record restricted =
  rx_exec :: executor
  rx_parsed :: "nat list"
  rx_restrict :: "nat option"

definition rx_new :: "nat \<Rightarrow> nat \<Rightarrow> restricted" where
  "rx_new g root = \<lparr>rx_exec = ex_chroot root (new_executor g), rx_parsed = [], rx_restrict = None\<rparr>"

definition node_below :: "ctree \<Rightarrow> nat \<Rightarrow> nat \<Rightarrow> bool" where
  "node_below t n d \<longleftrightarrow> isChildOf t n d = Some True"

definition rx_is_parsed :: "ctree \<Rightarrow> restricted \<Rightarrow> nat \<Rightarrow> bool" where
  "rx_is_parsed t re n \<longleftrightarrow> list_ex (\<lambda>p. t p \<noteq> None \<and> node_below t n p) (rx_parsed re)"

definition rx_outside :: "ctree \<Rightarrow> restricted \<Rightarrow> nat \<Rightarrow> bool" where
  "rx_outside t re n \<longleftrightarrow> (case rx_restrict re of None \<Rightarrow> False | Some r \<Rightarrow> \<not> node_below t n r)"

text \<open>The policy allows the access; otherwise the command is ignored.\<close>

definition policyCallback :: "ctree \<Rightarrow> restricted \<Rightarrow> nat \<Rightarrow> string \<Rightarrow> bool" where
  "policyCallback t re dir name =
     (if hasChild t dir name then
        (case node_get t dir name of Inl _ \<Rightarrow> True
         | Inr item \<Rightarrow> \<not> (rx_outside t re item \<and> \<not> isDirectory t item) \<and> \<not> rx_is_parsed t re item)
      else \<not> rx_outside t re dir)"

definition rx_execute ::
  "command_fn \<Rightarrow> nat option \<Rightarrow> ctree \<Rightarrow> nat \<Rightarrow> command_info \<Rightarrow> restricted \<Rightarrow> ctree \<times> restricted \<times> (exec_error + string)" where
  "rx_execute run w t g ci re =
     (case ex_execute run w t g ci ((rx_exec re)\<lparr>ex_policy := Some (policyCallback t re)\<rparr>) of
        (t', e', r) \<Rightarrow> (t', re\<lparr>rx_exec := e'\<lparr>ex_policy := ex_policy (rx_exec re)\<rparr>\<rparr>, r))"

definition insertParsedNode :: "ctree \<Rightarrow> nat \<Rightarrow> restricted \<Rightarrow> restricted" where
  "insertParsedNode t n re = re\<lparr>rx_parsed := filter (\<lambda>p. \<not> (t p = None \<or> node_below t p n)) (rx_parsed re) @ [n]\<rparr>"

definition rx_complete :: "ctree \<Rightarrow> restricted \<Rightarrow> bool" where
  "rx_complete t re \<longleftrightarrow> length (rx_parsed re) = 1 \<and> t (rx_parsed re ! 0) \<noteq> None \<and> rx_parsed re ! 0 = ex_root (rx_exec re)"

definition rx_reset :: "restricted \<Rightarrow> restricted" where
  "rx_reset re = re\<lparr>rx_parsed := []\<rparr>"

definition rx_chroot :: "nat \<Rightarrow> restricted \<Rightarrow> restricted" where
  "rx_chroot n re = re\<lparr>rx_exec := ex_chroot n (rx_exec re)\<rparr>"

section \<open>The bundle\<close>

fun source_parse ::
  "command_fn \<Rightarrow> nat option \<Rightarrow> nat \<Rightarrow> command_info list \<Rightarrow> ctree \<Rightarrow> restricted \<Rightarrow> ctree \<times> restricted \<times> (exec_error + unit)" where
  "source_parse run w g [] t re = (t, re, Inr ())"
| "source_parse run w g (ci # cis) t re =
     (case rx_execute run w t g ci re of (t', re', Inl x) \<Rightarrow> (t', re', Inl x) | (t', re', Inr _) \<Rightarrow> source_parse run w g cis t' re')"

fun parseInternal ::
  "command_fn \<Rightarrow> nat option \<Rightarrow> nat \<Rightarrow> command_info list list \<Rightarrow> ctree \<Rightarrow> restricted \<Rightarrow> ctree \<times> restricted \<times> (exec_error + unit)" where
  "parseInternal run w g [] t re = (t, re, Inr ())"
| "parseInternal run w g (s # ss) t re =
     (case source_parse run w g s t re of (t', re', Inl x) \<Rightarrow> (t', re', Inl x) | (t', re', Inr _) \<Rightarrow> parseInternal run w g ss t' re')"

text \<open>The guard sets the restriction and, when no exception was thrown, notes the directory as parsed.\<close>

definition guard_end :: "ctree \<Rightarrow> nat \<Rightarrow> exec_error + unit \<Rightarrow> restricted \<Rightarrow> restricted" where
  "guard_end t g r re =
     (case (r, rx_restrict re) of (Inr _, Some n) \<Rightarrow> insertParsedNode t n re | _ \<Rightarrow> re)\<lparr>rx_restrict := Some g\<rparr>"

definition bundle_parse_restricted ::
  "command_fn \<Rightarrow> nat option \<Rightarrow> nat \<Rightarrow> nat \<Rightarrow> command_info list list \<Rightarrow> ctree \<Rightarrow> restricted \<Rightarrow> ctree \<times> restricted \<times> (exec_error + unit)" where
  "bundle_parse_restricted run w g r ss t re =
     (case parseInternal run w g ss t (re\<lparr>rx_restrict := Some r\<rparr>) of (t', re', res) \<Rightarrow> (t', guard_end t' g res re', res))"

definition bundle_parse ::
  "command_fn \<Rightarrow> nat option \<Rightarrow> nat \<Rightarrow> command_info list list \<Rightarrow> ctree \<Rightarrow> restricted \<Rightarrow> ctree \<times> restricted \<times> (exec_error + unit)" where
  "bundle_parse run w g = bundle_parse_restricted run w g g"

section \<open>Every command once\<close>

lemma below_iff: "tree_ok t \<Longrightarrow> t n \<noteq> None \<Longrightarrow> node_below t n d \<longleftrightarrow> (d, n) \<in> (parent_rel t)\<^sup>*"
  by (simp add: node_below_def isChildOf_iff)

lemma below_trans: "tree_ok t \<Longrightarrow> t n \<noteq> None \<Longrightarrow> t p \<noteq> None \<Longrightarrow> node_below t n p \<Longrightarrow> node_below t p d \<Longrightarrow> node_below t n d"
  by (simp add: below_iff)

text \<open>What is noted as parsed in place of directories below it covers them.\<close>

lemma insert_parsed:
  assumes "tree_ok t" "t n \<noteq> None" "t r \<noteq> None"
  shows "rx_is_parsed t (insertParsedNode t r re) n \<longleftrightarrow> rx_is_parsed t re n \<or> node_below t n r"
  using below_trans [OF assms(1,2), of _ r] assms(3) by (auto simp: rx_is_parsed_def insertParsedNode_def list_ex_iff)

lemma steps_parsed:
  "tree_ok t \<Longrightarrow> t n \<noteq> None \<Longrightarrow> list_all (\<lambda>r. t r \<noteq> None) rs \<Longrightarrow>
    rx_is_parsed t (fold (insertParsedNode t) rs re) n \<longleftrightarrow> rx_is_parsed t re n \<or> list_ex (node_below t n) rs"
  by (induction rs arbitrary: re) (auto simp: insert_parsed)

lemma steps_same: "rx_exec (fold (insertParsedNode t) rs re) = rx_exec re" "rx_restrict (fold (insertParsedNode t) rs re) = rx_restrict re"
  by (induction rs arbitrary: re) (simp_all add: insertParsedNode_def)

text \<open>A command in the current directory.\<close>

lemma execute_command:
  assumes c: "\<not> skipping e" "prune_path t g (ex_cwd e) = Some (ex_cwd e)" "last (ex_cwd e) = d" "t d \<noteq> None"
    and n: "hasChild t d name" "node_get t d name = Inr n" "t n = Some x" "cn_kind x = CommandNode f" "name \<noteq> ''.''" "name \<noteq> ''..''"
    and r: "run f ci t = (t', Inr (out, v))" "ci_builtin ci = NoBuiltin" "ci_path ci = [WordToken name]"
  shows "ex_execute run w t g ci e = (if policy_allows e d name then (t', e, Inr out) else (t, e, Inr []))"
proof -
  have "ex_cwd e \<noteq> []" using c(1) by (simp add: skipping_def)
  then have "traverseNode t e [WordToken name] = (if policy_allows e d name then Inr n else Inl IgnoreCommand)"
    using c(3,4) n by (simp add: traverseNode_def traverseDirectory_def back_dir_def ex_complete_def WordToken_def NoneToken_def)
  then have "ex_exec run t g ci e = (if policy_allows e d name then (t', e, Inr out) else (t, e, Inl IgnoreCommand))"
    using n r by (simp add: ex_exec_def ex_exec_body_def isDirectory_def)
  then show ?thesis using c(1,2) r(2) by (simp add: ex_execute_def exec_builtin_def)
qed


text \<open>A directory with a command \<open>c\<close> in it.\<close>

definition command_tree :: ctree where
  "command_tree =
     [0 \<mapsto> (new_node DirectoryNode)\<lparr>cn_children := [(''c'', 1)]\<rparr>, 1 \<mapsto> (new_node (CommandNode 7))\<lparr>cn_name := ''c'', cn_parent := Some 0\<rparr>]"

lemma command_tree_ok: "tree_ok command_tree"
proof -
  let ?t = "node_create 1 (CommandNode 7) (node_create 0 DirectoryNode Map.empty)"
  have t: "tree_reach ?t" by (rule tree_new [OF tree_init, where c = 7]) (simp_all add: node_create_def)
  have "tree_reach command_tree"
  proof (rule tree_add_named [OF t])
    show "isDirectory ?t 0" by (simp add: isDirectory_def node_create_def new_node_def)
    show "isChildOf ?t 0 1 = Some False" by (subst isChildOf.simps) (simp add: node_create_def new_node_def)
    show "node_add_named 0 ''c'' 1 ?t = Inr command_tree"
      by (simp add: node_add_named_def node_add_def command_tree_def node_create_def new_node_def node_update_def Let_def fun_eq_iff)
  qed
  then show ?thesis by (rule reach_ok)
qed

definition echo_name :: command_fn where
  "echo_name f ci t = (t, Inr (''done'', AnyOther))"


text \<open>
  A bundle with another root than that of the console is never complete: parsing everything notes the root of the console.
\<close>

lemma other_root_never_complete:
  assumes "bundle_parse run w g ss t re = (t', re', Inr ())" "ex_root (rx_exec re') \<noteq> g"
  shows "\<not> rx_complete t' re'"
proof -
  obtain re1 where p: "parseInternal run w g ss t (re\<lparr>rx_restrict := Some g\<rparr>) = (t', re1, Inr ())" and e: "re' = guard_end t' g (Inr ()) re1"
    using assms(1) by (auto simp: bundle_parse_def bundle_parse_restricted_def split: prod.splits)
  have same: "rx_restrict (fst (snd (rx_execute run w t g ci re))) = rx_restrict re" for t ci re by (simp add: rx_execute_def split: prod.splits)
  have src: "source_parse run w g cis t re = (t1, re1, r) \<Longrightarrow> rx_restrict re1 = rx_restrict re" for cis t re t1 re1 r
  proof (induction cis arbitrary: t re)
    case (Cons ci cis)
    then show ?case using same [of t ci re] by (auto split: prod.splits sum.splits)
  qed simp
  have "parseInternal run w g ss t re = (t1, re1, r) \<Longrightarrow> rx_restrict re1 = rx_restrict re" for t re t1 re1 r
  proof (induction ss arbitrary: t re)
    case (Cons s ss)
    obtain u f q where x: "source_parse run w g s t re = (u, f, q)" by (metis prod_cases3)
    show ?case using Cons.prems Cons.IH [of u f] src [OF x] x by (cases q) auto
  qed simp
  from this [OF p] have "rx_restrict re1 = Some g" by simp
  then have "last (rx_parsed re') = g" "rx_parsed re' \<noteq> []" by (simp_all add: e guard_end_def insertParsedNode_def)
  then show ?thesis using assms(2) by (cases "rx_parsed re'") (auto simp: rx_complete_def)
qed

end
