(* ===== verification/Console_Server.thy ===== *)
theory Console_Server
  imports Console_Executor
begin

text \<open>
  Overloaded commands, \<open>senf/Utils/Console/OverloadedCommand.*\<close>, and the readers of a console client that use no line editor,
  \<open>senf/Utils/Console/Server.cc\<close>: the one for simple terminals with its prompt and the non-interactive one with its queue of output.

  What an overload does, how many characters the socket takes and what the parser does with a text are arguments.
\<close>

section \<open>Overloaded commands\<close>

type_synonym overload_fn = "command_info \<Rightarrow> ctree \<Rightarrow> ctree \<times> (exec_error + (string \<times> any_value))"

record argument_doc =
  ad_name :: string
  ad_type :: string
  ad_default :: string
  ad_doc :: string

record overload =
  ov_fn :: overload_fn
  ov_args :: "argument_doc list"
  ov_doc :: string

record overloaded_command =
  oc_name :: string
  oc_doc :: string
  oc_shortdoc :: string
  oc_overloads :: "overload list"

definition oc_add :: "overload \<Rightarrow> overloaded_command \<Rightarrow> overloaded_command" where
  "oc_add o1 c = c\<lparr>oc_overloads := oc_overloads c @ [o1]\<rparr>"

text \<open>The overloads are tried in their order until one does not throw a syntax error; the last syntax error is thrown.\<close>

fun try_overloads :: "overload list \<Rightarrow> exec_error \<Rightarrow> overload_fn" where
  "try_overloads [] err ci t = (t, Inl err)"
| "try_overloads (i # is) err ci t =
     (case ov_fn i ci t of (t', Inl (SyntaxError m)) \<Rightarrow> try_overloads is (SyntaxError m) ci t' | r \<Rightarrow> r)"

definition oc_execute :: "overloaded_command \<Rightarrow> overload_fn" where
  "oc_execute c = try_overloads (oc_overloads c) (SyntaxError ''syntax error'')"

text \<open>The first overload that accepts the arguments decides.\<close>

lemma first_overload:
  assumes "list_all (\<lambda>i. \<exists>m. ov_fn i ci t = (t, Inl (SyntaxError m))) pre" "\<And>m. snd (ov_fn x ci t) \<noteq> Inl (SyntaxError m)"
  shows "try_overloads (pre @ x # post) err ci t = ov_fn x ci t"
  using assms(1)
proof (induction pre arbitrary: err)
  case Nil
  obtain t' r where x: "ov_fn x ci t = (t', r)" by fastforce
  then have "r \<noteq> Inl (SyntaxError m)" for m using assms(2) [of m] by simp
  then show ?case using x by (auto split: sum.splits exec_error.splits)
qed auto

definition first_line :: "string \<Rightarrow> string" where
  "first_line s = takeWhile (\<lambda>ch. ch \<noteq> CHR 0x0A) s"

definition oc_shorthelp :: "overloaded_command \<Rightarrow> string" where
  "oc_shorthelp c =
     (if oc_shortdoc c \<noteq> [] then oc_shortdoc c
      else if oc_doc c \<noteq> [] then first_line (oc_doc c)
      else case filter (\<lambda>d. d \<noteq> []) (map ov_doc (oc_overloads c)) of [] \<Rightarrow> [] | d # _ \<Rightarrow> first_line d)"

subsection \<open>Help\<close>

definition arg_usage :: "argument_doc \<Rightarrow> string" where
  "arg_usage a =
     '' '' @ (if ad_default a \<noteq> [] then ''['' else []) @ ad_name a @ (if ad_type a \<noteq> [] then '':'' @ ad_type a else []) @
     (if ad_name a = [] \<and> ad_type a = [] then ''...'' else []) @ (if ad_default a \<noteq> [] then '']'' else [])"

text \<open>The list of the arguments that are explained, and whether one of them has a text.\<close>

fun note_arg :: "argument_doc \<Rightarrow> argument_doc list \<Rightarrow> argument_doc list \<times> bool" where
  "note_arg a [] = ([a], ad_doc a \<noteq> [])"
| "note_arg a (k # ks) =
     (if ad_name k = ad_name a \<and> ad_default k = ad_default a then
        (if ad_doc a \<noteq> [] \<and> ad_doc k = [] then (k\<lparr>ad_doc := ad_doc a\<rparr> # ks, True) else (k # ks, False))
      else (case note_arg a ks of (ks', b) \<Rightarrow> (k # ks', b)))"

definition note_args :: "argument_doc list \<Rightarrow> argument_doc list \<times> bool \<Rightarrow> argument_doc list \<times> bool" where
  "note_args as st =
     fold (\<lambda>a (ks, b). if ad_name a \<noteq> [] \<or> ad_default a \<noteq> [] then (case note_arg a ks of (ks', b') \<Rightarrow> (ks', b \<or> b')) else (ks, b)) as st"

definition usage_line :: "overloaded_command \<Rightarrow> nat \<Rightarrow> overload \<Rightarrow> string" where
  "usage_line c index i =
     ''    '' @ (if length (oc_overloads c) > 1 then digits_of index @ ''- '' else []) @ oc_name c @ concat (map arg_usage (ov_args i)) @ [CHR 0x0A]"

definition arg_help :: "argument_doc \<Rightarrow> string" where
  "arg_help a =
     (if ad_doc a \<noteq> [] \<or> ad_default a \<noteq> [] then
        ''    '' @ pad_to 8 (ad_name a) @ ''  '' @ ad_doc a @ [CHR 0x0A] @
        (if ad_default a \<noteq> [] then ''        default: '' @ ad_default a @ [CHR 0x0A] else [])
      else [])"

definition variant_help :: "overloaded_command \<Rightarrow> nat \<Rightarrow> overload \<Rightarrow> string" where
  "variant_help c index i =
     (if ov_doc i \<noteq> [] then
        [CHR 0x0A] @ (if length (oc_overloads c) > 1 then ''Variant '' @ digits_of index @ '':'' @ [CHR 0x0A] else []) @ ov_doc i @ [CHR 0x0A]
      else [])"

definition oc_help :: "overloaded_command \<Rightarrow> string" where
  "oc_help c =
     (let ovs = oc_overloads c; idx = [1 ..< length ovs + 1];
          (docs, have) = fold (\<lambda>i. note_args (ov_args i)) ovs ([], False)
      in ''Usage:'' @ [CHR 0x0A] @ concat (map2 (usage_line c) idx ovs) @
         (if have then [CHR 0x0A] @ ''With:'' @ [CHR 0x0A] @ concat (map arg_help docs) else []) @
         (if oc_doc c \<noteq> [] then [CHR 0x0A] @ oc_doc c @ [CHR 0x0A] else []) @
         concat (map2 (variant_help c) idx ovs))"

section \<open>The simple reader\<close>

record dumb_reader =
  dr_promptLen :: nat
  dr_promptActive :: bool

definition promptString :: "string \<Rightarrow> string \<Rightarrow> string" where
  "promptString name cwd = name @ '':'' @ cwd @ ''$''"

definition showPrompt :: "string \<Rightarrow> dumb_reader \<Rightarrow> dumb_reader \<times> string" where
  "showPrompt prompt r = (r\<lparr>dr_promptLen := length (prompt @ '' ''), dr_promptActive := True\<rparr>, prompt @ '' '')"

text \<open>\<open>std::string(' ', n)\<close> is a string of 32 characters with the code n.\<close>

definition dr_disablePrompt :: "dumb_reader \<Rightarrow> dumb_reader \<times> string" where
  "dr_disablePrompt r =
     (if dr_promptActive r \<and> dr_promptLen r > 0 then
        (r\<lparr>dr_promptLen := 0\<rparr>, [CHR 0x0D] @ replicate 32 (char_of (dr_promptLen r)) @ [CHR 0x0D])
      else (r, []))"

definition dr_enablePrompt :: "string \<Rightarrow> dumb_reader \<Rightarrow> dumb_reader \<times> string" where
  "dr_enablePrompt prompt r = (if dr_promptActive r \<and> dr_promptLen r = 0 then showPrompt prompt r else (r, []))"

text \<open>The prompt is not overwritten with blanks: for a prompt of 20 characters a control character is written 32 times.\<close>

lemma prompt_not_erased:
  assumes "length prompt = 19"
  shows "snd (dr_disablePrompt (fst (showPrompt prompt r))) = [CHR 0x0D] @ replicate 32 (CHR 0x14) @ [CHR 0x0D]"
  using assms by (simp add: showPrompt_def dr_disablePrompt_def char_of_def bit_0 bit_numeral_rec(1,2))

section \<open>The non-interactive reader\<close>

record quiet_reader =
  qr_buffer :: string
  qr_queue :: string
  qr_max :: nat
  qr_read :: bool
  qr_write :: bool
  qr_shut :: bool

definition qr_new :: quiet_reader where
  "qr_new = \<lparr>qr_buffer = [], qr_queue = [], qr_max = 1024 * 1024, qr_read = True, qr_write = False, qr_shut = False\<rparr>"

definition qr_set_max :: "nat \<Rightarrow> quiet_reader \<Rightarrow> quiet_reader" where
  "qr_set_max n r = r\<lparr>qr_max := n\<rparr>"

text \<open>
  \<open>taken\<close>: how many characters the socket took, or none when writing threw an exception. The first result are the characters
  that were sent.
\<close>

definition qr_writeHandler :: "bool \<Rightarrow> nat option \<Rightarrow> quiet_reader \<Rightarrow> string \<times> quiet_reader" where
  "qr_writeHandler writable taken r =
     (if \<not> writable then ([], r\<lparr>qr_write := False, qr_read := False, qr_shut := True\<rparr>)
      else
        (case taken of
           None \<Rightarrow> ([], r\<lparr>qr_shut := True, qr_write := (if qr_queue r = [] then False else qr_write r)\<rparr>)
         | Some k \<Rightarrow> (take k (qr_queue r),
             r\<lparr>qr_queue := drop k (qr_queue r), qr_write := (if drop k (qr_queue r) = [] then False else qr_write r)\<rparr>)))"

definition qr_v_write :: "string \<Rightarrow> nat option \<Rightarrow> quiet_reader \<Rightarrow> string \<times> quiet_reader" where
  "qr_v_write data taken r =
     (if length (qr_queue r) > qr_max r then ([], r)
      else case qr_writeHandler True taken (r\<lparr>qr_queue := qr_queue r @ data\<rparr>) of
        (s, r') \<Rightarrow> (s, if qr_queue r' \<noteq> [] then r'\<lparr>qr_write := True\<rparr> else r'))"

text \<open>
  \<open>parse\<close>: how many characters of a text are complete commands. When the parser throws, all characters count as read; \<open>None\<close>
  stands for that.
\<close>

definition qr_handleInput :: "(string \<Rightarrow> nat option) \<Rightarrow> string \<Rightarrow> nat" where
  "qr_handleInput parse data = (case parse data of None \<Rightarrow> length data | Some n \<Rightarrow> n)"

text \<open>The second result: the client is stopped; the third: the text that was given to the parser.\<close>

definition qr_newData :: "(string \<Rightarrow> nat option) \<Rightarrow> bool \<Rightarrow> bool \<Rightarrow> string \<Rightarrow> quiet_reader \<Rightarrow> quiet_reader \<times> bool \<times> string option" where
  "qr_newData parse readable eof data r =
     (if \<not> readable \<or> eof then (r, True, if qr_buffer r \<noteq> [] then Some (qr_buffer r) else None)
      else let buf = qr_buffer r @ data in (r\<lparr>qr_buffer := drop (qr_handleInput parse buf) buf\<rparr>, False, Some buf))"

subsection \<open>Order of the output\<close>

datatype qr_op = QWrite string "nat option" | QReady bool "nat option" | QMax nat

fun qr_step :: "qr_op \<Rightarrow> quiet_reader \<Rightarrow> string \<times> string \<times> quiet_reader" where
  "qr_step (QWrite d k) r = (case qr_v_write d k r of (s, r') \<Rightarrow> (if length (qr_queue r) > qr_max r then [] else d, s, r'))"
| "qr_step (QReady w k) r = (case qr_writeHandler w k r of (s, r') \<Rightarrow> ([], s, r'))"
| "qr_step (QMax n) r = ([], [], qr_set_max n r)"

fun qr_run :: "qr_op list \<Rightarrow> quiet_reader \<Rightarrow> string \<times> string \<times> quiet_reader" where
  "qr_run [] r = ([], [], r)"
| "qr_run (p # ps) r = (case qr_step p r of (a, s, r1) \<Rightarrow> (case qr_run ps r1 of (a', s', r2) \<Rightarrow> (a @ a', s @ s', r2)))"

lemma step_order: "qr_step p r = (a, s, r') \<Longrightarrow> s @ qr_queue r' = qr_queue r @ a"
  by (cases p) (auto simp: qr_v_write_def qr_writeHandler_def qr_set_max_def simp del: take_append drop_append split: if_splits option.splits prod.splits)

lemma step_armed:
  assumes "qr_step p r = (a, s, r')" "qr_queue r \<noteq> [] \<Longrightarrow> qr_write r \<or> qr_shut r"
  shows "qr_queue r' \<noteq> [] \<Longrightarrow> qr_write r' \<or> qr_shut r'"
  using assms by (cases p) (auto simp: qr_v_write_def qr_writeHandler_def qr_set_max_def split: if_splits option.splits prod.splits)

text \<open>
  The output of a non-interactive client arrives in order: in every sequence of writes and events of the socket, what was sent
  and what still waits is what waited before and the data that was accepted, each in its order; and output waits only when
  the reader is called again for it or the connection has been shut down.
\<close>

theorem output_in_order:
  "qr_run ps r = (a, s, r') \<Longrightarrow> s @ qr_queue r' = qr_queue r @ a \<and>
     ((qr_queue r \<noteq> [] \<longrightarrow> qr_write r \<or> qr_shut r) \<longrightarrow> qr_queue r' \<noteq> [] \<longrightarrow> qr_write r' \<or> qr_shut r')"
proof (induction ps arbitrary: r a s r')
  case (Cons p ps)
  obtain a1 s1 r1 where p: "qr_step p r = (a1, s1, r1)" by (metis prod_cases3)
  obtain a2 s2 r2 where ps: "qr_run ps r1 = (a2, s2, r2)" by (metis prod_cases3)
  have e: "a = a1 @ a2" "s = s1 @ s2" "r' = r2" using Cons.prems p ps by auto
  have o1: "s1 @ qr_queue r1 = qr_queue r @ a1" by (rule step_order [OF p])
  have IH: "s2 @ qr_queue r2 = qr_queue r1 @ a2" "(qr_queue r1 \<noteq> [] \<longrightarrow> qr_write r1 \<or> qr_shut r1) \<Longrightarrow> qr_queue r2 \<noteq> [] \<Longrightarrow> qr_write r2 \<or> qr_shut r2"
    using Cons.IH [OF ps] by auto
  have "s @ qr_queue r' = s1 @ qr_queue r1 @ a2" by (simp add: e IH(1))
  also have "\<dots> = (s1 @ qr_queue r1) @ a2" by simp
  also have "\<dots> = qr_queue r @ a" by (simp add: o1 e(1))
  finally show ?case using IH(2) step_armed [OF p] e(3) by blast
qed simp

theorem output_in_order_witness:
  "\<exists>a s r'. qr_run [QWrite ''hello'' (Some 2), QReady True (Some 3)] qr_new = (a, s, r') \<and> s @ qr_queue r' = ''hello''"
proof -
  obtain a s r' where r: "qr_run [QWrite ''hello'' (Some 2), QReady True (Some 3)] qr_new = (a, s, r')" by (metis prod_cases3)
  moreover have "a = ''hello''" using r by (simp add: qr_new_def qr_v_write_def qr_writeHandler_def)
  ultimately show ?thesis using output_in_order [OF r] by (simp add: qr_new_def)
qed

text \<open>The queue holds at most the limit and one piece of data more.\<close>

lemma queue_bound:
  assumes "length (qr_queue r) \<le> qr_max r + length d"
  shows "length (qr_queue (snd (qr_v_write d k r))) \<le> qr_max r + length d"
  using assms by (auto simp: qr_v_write_def qr_writeHandler_def split: option.splits prod.splits)

end
