(* ===== verification/String_Parser.thy ===== *)
theory String_Parser
  imports Vector_Parser
begin

text \<open>
  Strings in packets, \<open>senf/Packets/StringParser.*\<close>, and how a parser changes its size, \<open>PacketParser.cc\<close>,
  and is assigned from another parser of its type, \<open>PacketParser.ct\<close> and \<open>PacketParser.cti\<close>.

  The packet data is a byte list and a parser is an offset into it, as in \<open>Vector_Parser\<close>.
\<close>

section \<open>Resizing and copying\<close>

definition parser_resize :: "byte list \<Rightarrow> nat \<Rightarrow> nat \<Rightarrow> nat \<Rightarrow> byte list" where
  "parser_resize ds i oldSize newSize =
     (if oldSize > newSize then cut_list (i + newSize) (i + oldSize) ds
      else if oldSize < newSize then insert_list (i + oldSize) (replicate (newSize - oldSize) 0) ds
      else ds)"

text \<open>
  \<open>target << source\<close> for parsers of any size: \<open>bytes\<close> is the size of the parser at a position, and \<open>src\<close>
  are the bytes of the source.
\<close>

definition parser_copy :: "(byte list \<Rightarrow> nat \<Rightarrow> nat) \<Rightarrow> byte list \<Rightarrow> byte list \<Rightarrow> nat \<Rightarrow> byte list" where
  "parser_copy bytes src ds i = write_at i src (parser_resize ds i (bytes ds i) (length src))"

section \<open>Strings\<close>

definition string_length :: "'a::len word int_parser \<Rightarrow> byte list \<Rightarrow> nat \<Rightarrow> nat" where
  "string_length P ds i = unat (pr_value P ds i)"

definition string_bytes :: "'a::len word int_parser \<Rightarrow> byte list \<Rightarrow> nat \<Rightarrow> nat" where
  "string_bytes P ds i = string_length P ds i + pr_fixed_bytes P"

definition string_value :: "'a::len word int_parser \<Rightarrow> byte list \<Rightarrow> nat \<Rightarrow> parser_error + byte list" where
  "string_value P ds i =
     (case validate ds i (pr_fixed_bytes P) of Inl x \<Rightarrow> Inl x
      | Inr _ \<Rightarrow> (case validate ds i (string_bytes P ds i) of Inl x \<Rightarrow> Inl x
         | Inr _ \<Rightarrow> Inr (subrange (i + pr_fixed_bytes P) (i + string_bytes P ds i) ds)))"

definition string_max :: "'a::len word int_parser \<Rightarrow> nat \<Rightarrow> nat" where
  "string_max P n = (case pr_max_value P of None \<Rightarrow> n | Some m \<Rightarrow> min n (nat m))"

definition string_put :: "'a::len word int_parser \<Rightarrow> byte list \<Rightarrow> byte list \<Rightarrow> nat \<Rightarrow> byte list" where
  "string_put P v ds i =
     (let sz = string_max P (length v);
          ds1 = parser_resize ds i (string_bytes P ds i) (sz + pr_fixed_bytes P);
          ds2 = pr_assign P ds1 i (of_nat sz)
      in write_at (i + pr_fixed_bytes P) (take sz v) ds2)"

definition string_assign :: "'a::len word int_parser \<Rightarrow> byte list \<Rightarrow> byte list \<Rightarrow> nat \<Rightarrow> parser_error + byte list" where
  "string_assign P v ds i =
     (case validate ds i (pr_fixed_bytes P) of Inl x \<Rightarrow> Inl x
      | Inr _ \<Rightarrow> (case validate ds i (string_bytes P ds i) of Inl x \<Rightarrow> Inl x | Inr _ \<Rightarrow> Inr (string_put P v ds i)))"

definition string_empty :: "'a::len word int_parser \<Rightarrow> byte list \<Rightarrow> nat \<Rightarrow> bool" where
  "string_empty P ds i \<longleftrightarrow> string_length P ds i = 0"

definition string_clear :: "'a::len word int_parser \<Rightarrow> byte list \<Rightarrow> nat \<Rightarrow> parser_error + byte list" where
  "string_clear P ds i =
     (case validate ds i (pr_fixed_bytes P) of Inl x \<Rightarrow> Inl x
      | Inr _ \<Rightarrow> (case validate ds i (string_bytes P ds i) of Inl x \<Rightarrow> Inl x
         | Inr _ \<Rightarrow> Inr (pr_assign P (parser_resize ds i (string_bytes P ds i) (pr_fixed_bytes P)) i 0)))"

definition string_eq :: "'a::len word int_parser \<Rightarrow> byte list \<Rightarrow> nat \<Rightarrow> byte list \<Rightarrow> bool" where
  "string_eq P ds i v \<longleftrightarrow>
     (if length v > string_length P ds i then False
      else subrange (i + pr_fixed_bytes P) (i + pr_fixed_bytes P + length v) ds = v)"

section \<open>Strings of a fixed size\<close>

definition fixed_string_value :: "nat \<Rightarrow> byte list \<Rightarrow> nat \<Rightarrow> byte list" where
  "fixed_string_value N ds i = subrange i (i + N) ds"

text \<open>The string is copied and the rest filled; \<open>std::fill\<close> of a range whose end is before its begin is not defined.\<close>

definition fixed_string_assign :: "nat \<Rightarrow> byte list \<Rightarrow> byte list \<Rightarrow> nat \<Rightarrow> byte list option" where
  "fixed_string_assign N v ds i =
     (if length v > N then None
      else Some (write_at (i + length v) (replicate (N - length v) 0) (write_at i v ds)))"

definition fixed_string_eq :: "nat \<Rightarrow> byte list \<Rightarrow> nat \<Rightarrow> byte list \<Rightarrow> bool" where
  "fixed_string_eq N ds i v \<longleftrightarrow> (if length v > N then False else subrange i (i + length v) ds = v)"

section \<open>Lemmas\<close>

text \<open>The packet around the parser is not touched.\<close>

lemma resize_parts:
  assumes "length X = i" "length M = m"
  shows "\<exists>M'. parser_resize (X @ M @ Z) i m n = X @ M' @ Z \<and> length M' = n \<and> take (min m n) M' = take (min m n) M"
proof -
  consider "m > n" | "m < n" | "m = n" by linarith
  then show ?thesis
  proof cases
    case 1
    then show ?thesis using assms by (intro exI [of _ "take n M"]) (simp add: parser_resize_def cut_list_def)
  next
    case 2
    then show ?thesis using assms by (intro exI [of _ "M @ replicate (n - m) 0"]) (simp add: parser_resize_def insert_list_def)
  next
    case 3
    then show ?thesis using assms by (intro exI [of _ M]) (simp add: parser_resize_def)
  qed
qed

lemma copy_parts:
  assumes "length X = i" "length M = bytes (X @ M @ Z) i"
  shows "parser_copy bytes src (X @ M @ Z) i = X @ src @ Z"
proof -
  obtain M' where "parser_resize (X @ M @ Z) i (length M) (length src) = X @ M' @ Z" "length M' = length src"
    using resize_parts [OF assms(1) refl] by blast
  then show ?thesis using assms by (simp add: parser_copy_def write_at_def)
qed

text \<open>The bytes of a string.\<close>

definition string_enc :: "'a::len word int_parser \<Rightarrow> byte list \<Rightarrow> byte list" where
  "string_enc P v = pr_assign P (replicate (pr_fixed_bytes P) 0) 0 (of_nat (length v)) @ v"

context net_field
begin

lemma assign_parts:
  assumes "pr_static_assert P" "length X = i" "length H = pr_fixed_bytes P"
  shows "pr_assign P (X @ H @ Z) i v = X @ pr_assign P H 0 v @ Z"
  using assign_slice [OF assms(1), of i "X @ H @ Z" v] assms(2,3) by simp

lemma value_parts:
  assumes "pr_static_assert P" "length X = i" "length H = pr_fixed_bytes P"
  shows "pr_value P (X @ H @ Z) i = pr_value P H 0"
  using value_slice [OF assms(1), of i "X @ H @ Z"] assms(2,3) by simp

text \<open>What is written over a string, whatever its length was.\<close>

lemma put_parts:
  assumes P: "pr_static_assert P" and X: "length X = i" and H: "length H = pr_fixed_bytes P" and M: "length M = unat (pr_value P H 0)"
    and sz: "sz = string_max P (length v)"
  shows "string_put P v (X @ H @ M @ Z) i = X @ pr_assign P H 0 (of_nat sz) @ take sz v @ Z"
proof -
  define k where "k = pr_fixed_bytes P"
  have szl: "sz \<le> length v" unfolding sz string_max_def by (simp split: option.splits)
  have b: "string_bytes P (X @ H @ M @ Z) i = length (H @ M)"
    using value_parts [OF P X H, of "M @ Z"] M H by (simp add: string_bytes_def string_length_def)
  obtain M' where M': "parser_resize (X @ (H @ M) @ Z) i (length (H @ M)) (sz + k) = X @ M' @ Z" "length M' = sz + k"
      "take (min (length (H @ M)) (sz + k)) M' = take (min (length (H @ M)) (sz + k)) (H @ M)"
    using resize_parts [OF X refl, of "H @ M" Z "sz + k"] by blast
  have "take k (take (min (length (H @ M)) (sz + k)) M') = take k (take (min (length (H @ M)) (sz + k)) (H @ M))" using M'(3) by simp
  moreover have "min k (min (length (H @ M)) (sz + k)) = k" using H by (simp add: k_def)
  ultimately have "take k M' = H" using H by (simp add: k_def)
  then have m: "M' = H @ drop k M'" by (metis append_take_drop_id)
  have "parser_resize (X @ H @ M @ Z) i (string_bytes P (X @ H @ M @ Z) i) (sz + k) = X @ H @ drop k M' @ Z"
    using M'(1) b m by (metis append.assoc)
  moreover have "write_at (i + k) (take sz v) (X @ pr_assign P H 0 (of_nat sz) @ drop k M' @ Z) = X @ pr_assign P H 0 (of_nat sz) @ take sz v @ Z"
    using X H szl M'(2) by (simp add: write_at_def len k_def)
  ultimately show ?thesis
    unfolding string_put_def sz [symmetric] Let_def k_def [symmetric] using assign_parts [OF P X H] by (simp add: k_def)
qed

lemma length_read:
  assumes "pr_static_assert P" "length H = pr_fixed_bytes P" "n < 2 ^ (hi - lo)"
  shows "unat (pr_value P (pr_assign P H 0 (of_nat n)) 0) = n"
  using number_roundtrip [OF assms(1), of 0 H n] assms by simp

lemma string_split:
  assumes "i + string_bytes P ds i \<le> length ds"
  obtains X H M Z where "ds = X @ H @ M @ Z" "length X = i" "length H = pr_fixed_bytes P" "length M = string_length P ds i"
proof -
  define k n where "k = pr_fixed_bytes P" and "n = string_length P ds i"
  have l: "i + n + k \<le> length ds" using assms by (simp add: string_bytes_def k_def n_def)
  have "ds = take i ds @ take k (drop i ds) @ take n (drop (i + k) ds) @ drop (i + k + n) ds"
    by (metis append_take_drop_id drop_drop add.commute)
  then show ?thesis using l by (intro that [of "take i ds" "take k (drop i ds)" "take n (drop (i + k) ds)" "drop (i + k + n) ds"]) (simp_all add: k_def n_def)
qed

lemma value_of_parts:
  assumes "pr_static_assert P" "length X = i" "length H = pr_fixed_bytes P" "length M = unat (pr_value P H 0)"
  shows "string_bytes P (X @ H @ M @ Z) i = length (H @ M)" "string_value P (X @ H @ M @ Z) i = Inr M"
proof -
  show b: "string_bytes P (X @ H @ M @ Z) i = length (H @ M)"
    using value_parts [OF assms(1-3), of "M @ Z"] assms(3,4) by (simp add: string_bytes_def string_length_def)
  show "string_value P (X @ H @ M @ Z) i = Inr M"
    using assms(2,3) by (simp add: string_value_def b validate_def check_size_def subrange_def)
qed

lemma max_length: "pr_max_value P = Some (2 ^ (hi - lo) - 1) \<Longrightarrow> string_max P n = min n (2 ^ (hi - lo) - 1)"
  by (simp add: string_max_def nat_diff_distrib nat_power_eq)

lemma assign_string:
  assumes "pr_static_assert P" "pr_max_value P = Some (2 ^ (hi - lo) - 1)" "i + string_bytes P ds i \<le> length ds"
  obtains ds' where "string_assign P v ds i = Inr ds'" "string_value P ds' i = Inr (take (2 ^ (hi - lo) - 1) v)"
    "take i ds' = take i ds" "drop (i + string_bytes P ds' i) ds' = drop (i + string_bytes P ds i) ds"
proof -
  define sz where "sz = string_max P (length v)"
  obtain X H M Z where ds: "ds = X @ H @ M @ Z" "length X = i" "length H = pr_fixed_bytes P" "length M = string_length P ds i"
    using string_split [OF assms(3)] by metis
  have M: "length M = unat (pr_value P H 0)" using ds value_parts [OF assms(1) ds(2,3), of "M @ Z"] by (simp add: string_length_def)
  define H' where "H' = pr_assign P H 0 (of_nat sz)"
  have sz: "sz = min (length v) (2 ^ (hi - lo) - 1)" by (simp add: sz_def max_length [OF assms(2)])
  then have "take sz v = take (2 ^ (hi - lo) - 1) v" by (metis min.commute order_refl take_all take_take)
  moreover have "sz < 2 ^ (hi - lo)"
  proof -
    have "sz \<le> 2 ^ (hi - lo) - 1" unfolding sz by (rule min.cobounded2)
    moreover have "(0 :: nat) < 2 ^ (hi - lo)" by simp
    ultimately show ?thesis by linarith
  qed
  then have "length (take sz v) = unat (pr_value P H' 0)" using length_read [OF assms(1) ds(3)] sz by (simp add: H'_def)
  moreover have H': "length H' = pr_fixed_bytes P" using ds(3) by (simp add: H'_def len)
  ultimately have v: "string_value P (X @ H' @ take sz v @ Z) i = Inr (take (2 ^ (hi - lo) - 1) v)"
      "string_bytes P (X @ H' @ take sz v @ Z) i = length (H' @ take sz v)"
    using value_of_parts [OF assms(1) ds(2), of H' "take sz v" Z] by simp_all
  have "string_assign P v ds i = Inr (string_put P v ds i)" using assms(3) by (auto simp: string_assign_def validate_def check_size_def string_bytes_def)
  also have "string_put P v ds i = X @ H' @ take sz v @ Z"
    unfolding ds(1) H'_def by (rule put_parts [OF assms(1) ds(2,3) M sz_def])
  finally show ?thesis
    using that v ds(1,2) value_of_parts(1) [OF assms(1) ds(2,3) M, of Z] by simp
qed

text \<open>Comparing a string with a value compares the beginning of the string.\<close>

lemma string_eq_prefix:
  assumes "pr_static_assert P" "i + string_bytes P ds i \<le> length ds"
  shows "string_eq P ds i v \<longleftrightarrow> (\<exists>u. string_value P ds i = Inr (v @ u))"
proof -
  obtain X H M Z where ds: "ds = X @ H @ M @ Z" "length X = i" "length H = pr_fixed_bytes P" "length M = string_length P ds i"
    using string_split [OF assms(2)] by metis
  have M: "length M = unat (pr_value P H 0)" using ds value_parts [OF assms(1) ds(2,3), of "M @ Z"] by (simp add: string_length_def)
  have v: "string_value P ds i = Inr M" unfolding ds(1) by (rule value_of_parts(2) [OF assms(1) ds(2,3) M])
  have "string_eq P ds i v \<longleftrightarrow> length v \<le> length M \<and> take (length v) M = v"
    using ds(2,3) by (auto simp: string_eq_def ds(4) [symmetric] subrange_def) (simp_all add: ds(1))
  also have "\<dots> \<longleftrightarrow> (\<exists>u. M = v @ u)"
  proof
    assume "length v \<le> length M \<and> take (length v) M = v"
    then show "\<exists>u. M = v @ u" by (metis append_take_drop_id)
  qed auto
  finally show ?thesis by (simp add: v)
qed

end

section \<open>Properties\<close>

text \<open>
  C22: A string in a packet reads back what was assigned, cut to the greatest length its length field can
  hold; whatever was in front of the string and behind it stays, although the packet grows or shrinks.
  When the length field or the old string is not within the packet, both reading and assigning raise
  the exception. It holds for every unsigned integer parser as the length field, bit fields included.
\<close>

theorem string_roundtrip:
  assumes "net_field P lo hi" "pr_static_assert P" "pr_max_value P = Some (2 ^ (hi - lo) - 1)"
  shows "if i + string_bytes P ds i \<le> length ds
    then \<exists>ds'. string_assign P v ds i = Inr ds' \<and> string_value P ds' i = Inr (take (2 ^ (hi - lo) - 1) v) \<and>
           take i ds' = take i ds \<and> drop (i + string_bytes P ds' i) ds' = drop (i + string_bytes P ds i) ds
    else string_assign P v ds i = Inl TruncatedPacketException \<and> string_value P ds i = Inl TruncatedPacketException"
proof (cases "i + string_bytes P ds i \<le> length ds")
  case True
  obtain ds' where "string_assign P v ds i = Inr ds'" "string_value P ds' i = Inr (take (2 ^ (hi - lo) - 1) v)"
      "take i ds' = take i ds" "drop (i + string_bytes P ds' i) ds' = drop (i + string_bytes P ds i) ds"
    using net_field.assign_string [OF assms True] by blast
  then show ?thesis using True by auto
next
  case False
  then show ?thesis by (auto simp: string_assign_def string_value_def validate_def check_size_def)
qed

theorem string_roundtrip_witness:
  "\<exists>ds'. string_assign UInt8Parser [5, 6, 7] [9, 1, 4, 8] 1 = Inr ds' \<and> string_value UInt8Parser ds' 1 = Inr [5, 6, 7] \<and>
     drop (1 + string_bytes UInt8Parser ds' 1) ds' = [8]"
proof -
  have b: "string_bytes UInt8Parser [9, 1, 4, 8] 1 = 2" by (simp add: string_bytes_def string_length_def UInt8Parser_def)
  show ?thesis
    using string_roundtrip [OF u8.net_field_axioms, of 1 "[9, 1, 4, 8]" "[5, 6, 7]"] unfolding b by (simp add: UInt8Parser_def) blast
qed

text \<open>A string of a fixed size: what is longer than it is written behind it.\<close>

lemma fixed_string_roundtrip:
  assumes "i + N \<le> length ds"
  shows "length v \<le> N \<Longrightarrow> \<exists>ds'. fixed_string_assign N v ds i = Some ds' \<and> length ds' = length ds \<and>
      fixed_string_value N ds' i = v @ replicate (N - length v) 0 \<and> take i ds' = take i ds \<and> drop (i + N) ds' = drop (i + N) ds"
    "N < length v \<Longrightarrow> fixed_string_assign N v ds i = None"
  using assms by (simp_all add: fixed_string_assign_def fixed_string_value_def write_at_def subrange_def add.commute)

end
