(* ===== verification/List_Parser.thy ===== *)
theory List_Parser
  imports String_Parser
begin

text \<open>
  Lists in packets, \<open>senf/Packets/ListParser.*\<close> with the policies \<open>ListNParser.*\<close> and \<open>ListBParser.*\<close>:
  elements of any size behind each other, with their number or their total size in bytes in a field.

  The packet data is a byte list and iterators are offsets, as in \<open>Vector_Parser\<close>. An element parser is a
  record of its operations. The container wrapper of a list counted in bytes caches the number of the
  elements and the size of the packet.
\<close>

section \<open>Elements\<close>

text \<open>
  \<open>senf::bytes\<close>, \<open>senf::init_bytes\<close>, \<open>init()\<close>, the assignment \<open>parser << value\<close>, and the value of a parser.
\<close>

record 'v list_elem =
  le_bytes :: "byte list \<Rightarrow> nat \<Rightarrow> nat"
  le_init_bytes :: nat
  le_init :: "byte list \<Rightarrow> nat \<Rightarrow> byte list"
  le_put :: "'v \<Rightarrow> byte list \<Rightarrow> nat \<Rightarrow> byte list"
  le_get :: "byte list \<Rightarrow> nat \<Rightarrow> 'v"

datatype list_kind = ListN | ListB

datatype list_error = TruncatedPacket | BrokenElement

text \<open>The container wrapper: \<open>n_\<close> and \<open>container_size_\<close> of \<open>ListBParser_Policy::container_policy\<close>.\<close>

record list_cont =
  lc_n :: nat
  lc_size :: nat

text \<open>The position \<open>n\<close> elements further on.\<close>

fun walk :: "'v list_elem \<Rightarrow> byte list \<Rightarrow> nat \<Rightarrow> nat \<Rightarrow> nat" where
  "walk E ds j 0 = j"
| "walk E ds j (Suc n) = walk E ds (j + le_bytes E ds j) n"

section \<open>The policies\<close>

text \<open>
  The loop of the constructor of a byte counted container; \<open>i(size)\<close> checks that the size is in the packet.
  An element whose own size fields are cut off throws the same exception: \<open>le_bytes\<close> is then a size that
  is not in the packet.
\<close>

function lb_count :: "'v list_elem \<Rightarrow> byte list \<Rightarrow> nat \<Rightarrow> nat \<Rightarrow> nat \<Rightarrow> list_error + nat" where
  "lb_count E ds e j n =
     (if j = e then Inr n
      else let sz = le_bytes E ds j
           in if sz = 0 then Inl BrokenElement
              else if length ds < j + sz then Inl TruncatedPacket
              else lb_count E ds e (j + sz) (n + 1))"
  by pat_completeness auto
termination
  by (relation "measure (\<lambda>(E, ds, e, j, n). length ds - j)") auto

declare lb_count.simps [simp del]

definition lc_construct :: "list_kind \<Rightarrow> 'v list_elem \<Rightarrow> aux_policy \<Rightarrow> byte list \<Rightarrow> nat \<Rightarrow> list_error + list_cont" where
  "lc_construct K E A ds i =
     (case K of
        ListN \<Rightarrow> Inr \<lparr>lc_n = 0, lc_size = 0\<rparr>
      | ListB \<Rightarrow>
          let totalsz = aux_get A ds i + aux_bytes A
          in if length ds < i + totalsz then Inl TruncatedPacket
             else map_sum id (\<lambda>n. \<lparr>lc_n = n, lc_size = length ds\<rparr>) (lb_count E ds (i + totalsz) (aux_adjust A i) 0))"

definition lc_update :: "list_kind \<Rightarrow> 'v list_elem \<Rightarrow> aux_policy \<Rightarrow> nat \<Rightarrow> byte list \<times> list_cont \<Rightarrow> byte list \<times> list_cont" where
  "lc_update K E A i = (\<lambda>(ds, c).
     if K = ListN \<or> lc_size c = length ds then (ds, c)
     else let ds' = aux_set A (walk E ds (aux_adjust A i) (lc_n c) - aux_adjust A i) ds i
          in (ds', c\<lparr>lc_size := length ds'\<rparr>))"

definition lc_hook_insert :: "list_kind \<Rightarrow> 'v list_elem \<Rightarrow> aux_policy \<Rightarrow> nat \<Rightarrow> nat \<Rightarrow> byte list \<times> list_cont \<Rightarrow> byte list \<times> list_cont" where
  "lc_hook_insert K E A i sp = (\<lambda>(ds, c).
     case K of
       ListN \<Rightarrow> (aux_set A (aux_get A ds i + 1) ds i, c)
     | ListB \<Rightarrow>
         let ds' = aux_set A (aux_get A ds i + le_bytes E ds sp) ds i
         in (ds', c\<lparr>lc_n := lc_n c + 1, lc_size := length ds'\<rparr>))"

definition sub64 :: "nat \<Rightarrow> nat \<Rightarrow> nat" where
  "sub64 a b = (a + 2 ^ 64 - b) mod 2 ^ 64"

definition lc_hook_erase :: "list_kind \<Rightarrow> 'v list_elem \<Rightarrow> aux_policy \<Rightarrow> nat \<Rightarrow> nat \<Rightarrow> byte list \<times> list_cont \<Rightarrow> byte list \<times> list_cont" where
  "lc_hook_erase K E A i sp = (\<lambda>(ds, c).
     case K of
       ListN \<Rightarrow> (aux_set A (sub64 (aux_get A ds i) 1) ds i, c)
     | ListB \<Rightarrow>
         let b = le_bytes E ds sp; ds' = aux_set A (sub64 (aux_get A ds i) b) ds i
         in (ds', c\<lparr>lc_n := lc_n c - 1, lc_size := length ds' - b\<rparr>))"

section \<open>The container\<close>

definition lc_begin :: "aux_policy \<Rightarrow> nat \<Rightarrow> nat" where
  "lc_begin A i = aux_adjust A i"

text \<open>\<open>raw()\<close> of the end iterator.\<close>

definition lc_end :: "list_kind \<Rightarrow> 'v list_elem \<Rightarrow> aux_policy \<Rightarrow> nat \<Rightarrow> byte list \<Rightarrow> nat" where
  "lc_end K E A i ds =
     (case K of ListN \<Rightarrow> walk E ds (aux_adjust A i) (aux_get A ds i) | ListB \<Rightarrow> aux_adjust A i + aux_get A ds i)"

definition lc_length :: "list_kind \<Rightarrow> aux_policy \<Rightarrow> nat \<Rightarrow> byte list \<times> list_cont \<Rightarrow> nat" where
  "lc_length K A i = (\<lambda>(ds, c). case K of ListN \<Rightarrow> aux_get A ds i | ListB \<Rightarrow> lc_n c)"

definition lc_bytes :: "list_kind \<Rightarrow> 'v list_elem \<Rightarrow> aux_policy \<Rightarrow> nat \<Rightarrow> byte list \<Rightarrow> nat" where
  "lc_bytes K E A i ds = (case K of ListN \<Rightarrow> lc_end K E A i ds - i | ListB \<Rightarrow> aux_get A ds i + aux_bytes A)"

definition new_element :: "'v list_elem \<Rightarrow> nat \<Rightarrow> byte list \<Rightarrow> byte list" where
  "new_element E sp ds = le_init E (insert_list sp (replicate (le_init_bytes E) 0) ds) sp"

fun lc_insert_loop :: "list_kind \<Rightarrow> 'v list_elem \<Rightarrow> aux_policy \<Rightarrow> nat \<Rightarrow> nat \<Rightarrow> nat \<Rightarrow> 'v \<Rightarrow> byte list \<times> list_cont \<Rightarrow> byte list \<times> list_cont" where
  "lc_insert_loop K E A i sp 0 t s = s"
| "lc_insert_loop K E A i sp (Suc n) t s =
     lc_insert_loop K E A i sp n t (lc_hook_insert K E A i sp (le_put E t (new_element E sp (fst s)) sp, snd s))"

definition lc_insert :: "list_kind \<Rightarrow> 'v list_elem \<Rightarrow> aux_policy \<Rightarrow> nat \<Rightarrow> nat \<Rightarrow> nat \<Rightarrow> 'v \<Rightarrow> byte list \<times> list_cont \<Rightarrow> byte list \<times> list_cont" where
  "lc_insert K E A i pos n t s = lc_insert_loop K E A i pos n t (lc_update K E A i s)"

fun lc_range_loop :: "list_kind \<Rightarrow> 'v list_elem \<Rightarrow> aux_policy \<Rightarrow> nat \<Rightarrow> nat \<Rightarrow> 'v list \<Rightarrow> byte list \<times> list_cont \<Rightarrow> byte list \<times> list_cont" where
  "lc_range_loop K E A i sp [] s = s"
| "lc_range_loop K E A i sp (t # ts) s =
     (let s' = lc_hook_insert K E A i sp (le_put E t (new_element E sp (fst s)) sp, snd s)
      in lc_range_loop K E A i (sp + le_bytes E (fst s') sp) ts s')"

definition lc_insert_range :: "list_kind \<Rightarrow> 'v list_elem \<Rightarrow> aux_policy \<Rightarrow> nat \<Rightarrow> nat \<Rightarrow> 'v list \<Rightarrow> byte list \<times> list_cont \<Rightarrow> byte list \<times> list_cont" where
  "lc_insert_range K E A i pos ts s = lc_range_loop K E A i pos ts (lc_update K E A i s)"

fun lc_erase_loop :: "list_kind \<Rightarrow> 'v list_elem \<Rightarrow> aux_policy \<Rightarrow> nat \<Rightarrow> nat \<Rightarrow> nat \<Rightarrow> byte list \<times> list_cont \<Rightarrow> byte list \<times> list_cont" where
  "lc_erase_loop K E A i sp 0 s = s"
| "lc_erase_loop K E A i sp (Suc n) s =
     (case lc_hook_erase K E A i sp s of (ds, c) \<Rightarrow>
        lc_erase_loop K E A i sp n (cut_list sp (sp + le_bytes E ds sp) ds, c))"

definition lc_erase :: "list_kind \<Rightarrow> 'v list_elem \<Rightarrow> aux_policy \<Rightarrow> nat \<Rightarrow> nat \<Rightarrow> nat \<Rightarrow> byte list \<times> list_cont \<Rightarrow> byte list \<times> list_cont" where
  "lc_erase K E A i pos n s = lc_erase_loop K E A i pos n (lc_update K E A i s)"

definition lc_push_back :: "list_kind \<Rightarrow> 'v list_elem \<Rightarrow> aux_policy \<Rightarrow> nat \<Rightarrow> 'v \<Rightarrow> nat \<Rightarrow> byte list \<times> list_cont \<Rightarrow> byte list \<times> list_cont" where
  "lc_push_back K E A i t n s = (let s' = lc_update K E A i s in lc_insert K E A i (lc_end K E A i (fst s')) n t s')"

definition lc_push_front :: "list_kind \<Rightarrow> 'v list_elem \<Rightarrow> aux_policy \<Rightarrow> nat \<Rightarrow> 'v \<Rightarrow> nat \<Rightarrow> byte list \<times> list_cont \<Rightarrow> byte list \<times> list_cont" where
  "lc_push_front K E A i t n s = (let s' = lc_update K E A i s in lc_insert K E A i (lc_begin A i) n t s')"

definition lc_clear :: "list_kind \<Rightarrow> 'v list_elem \<Rightarrow> aux_policy \<Rightarrow> nat \<Rightarrow> byte list \<times> list_cont \<Rightarrow> byte list \<times> list_cont" where
  "lc_clear K E A i s =
     (case lc_update K E A i s of (ds, c) \<Rightarrow>
        let sz = lc_bytes K E A i ds;
            ds1 = (if sz > aux_bytes A then cut_list (i + aux_bytes A) (i + sz) ds
                   else insert_list (i + sz) (replicate (aux_bytes A - sz) 0) ds);
            ds2 = write_at i (replicate (aux_bytes A) 0) ds1;
            ds3 = aux_set A 0 ds2 i
        in (ds3, if K = ListB then c\<lparr>lc_n := 0, lc_size := length ds3\<rparr> else c))"

definition lc_resize :: "list_kind \<Rightarrow> 'v list_elem \<Rightarrow> aux_policy \<Rightarrow> nat \<Rightarrow> nat \<Rightarrow> 'v \<Rightarrow> byte list \<times> list_cont \<Rightarrow> byte list \<times> list_cont" where
  "lc_resize K E A i n t s =
     (let s' = lc_update K E A i s; sz = lc_length K A i s'
      in if sz > n then lc_erase K E A i (walk E (fst s') (lc_begin A i) n) (sz - n) s' else lc_push_back K E A i t (n - sz) s')"

text \<open>
  \<open>senf::copy\<close> of a container with the given elements: the iterator is advanced in the body and in the
  loop. None: the iterator has been advanced behind the end, where there is nothing to read.
\<close>

fun lc_copy :: "'v list \<Rightarrow> 'v list option" where
  "lc_copy [] = Some []"
| "lc_copy [v] = None"
| "lc_copy (v # w # vs) = map_option ((#) v) (lc_copy vs)"

text \<open>Operations of the parser create a container for the call, which is updated when it is destroyed.\<close>

definition listp_push_back :: "list_kind \<Rightarrow> 'v list_elem \<Rightarrow> aux_policy \<Rightarrow> nat \<Rightarrow> 'v \<Rightarrow> nat \<Rightarrow> byte list \<Rightarrow> list_error + byte list" where
  "listp_push_back K E A i t n ds =
     (case lc_construct K E A ds i of Inl e \<Rightarrow> Inl e
      | Inr c \<Rightarrow> Inr (fst (lc_update K E A i (lc_push_back K E A i t n (ds, c)))))"

fun lc_push_all :: "list_kind \<Rightarrow> 'v list_elem \<Rightarrow> aux_policy \<Rightarrow> nat \<Rightarrow> 'v list \<Rightarrow> byte list \<times> list_cont \<Rightarrow> byte list \<times> list_cont" where
  "lc_push_all K E A i [] s = s"
| "lc_push_all K E A i (t # ts) s = lc_push_all K E A i ts (lc_push_back K E A i t 1 s)"

definition listp_assign :: "list_kind \<Rightarrow> 'v list_elem \<Rightarrow> aux_policy \<Rightarrow> nat \<Rightarrow> 'v list \<Rightarrow> byte list \<Rightarrow> list_error + byte list" where
  "listp_assign K E A i ts ds =
     (case lc_construct K E A ds i of Inl e \<Rightarrow> Inl e
      | Inr c \<Rightarrow> Inr (fst (lc_update K E A i (lc_push_all K E A i ts (lc_clear K E A i (ds, c))))))"

section \<open>The contract\<close>

text \<open>The bytes \<open>c\<close> are an element with value \<open>t\<close>, wherever they are.\<close>

definition is_elem :: "'v list_elem \<Rightarrow> byte list \<Rightarrow> 'v \<Rightarrow> bool" where
  "is_elem E c t \<longleftrightarrow> c \<noteq> [] \<and> (\<forall>xs ys. le_bytes E (xs @ c @ ys) (length xs) = length c \<and> le_get E (xs @ c @ ys) (length xs) = t)"

text \<open>What the field has to hold for these elements.\<close>

definition list_measure :: "list_kind \<Rightarrow> byte list list \<Rightarrow> nat" where
  "list_measure K cs = (case K of ListN \<Rightarrow> length cs | ListB \<Rightarrow> length (concat cs))"

text \<open>
  The packet has elements with the bytes \<open>cs\<close> and the values \<open>ts\<close> in the list at \<open>i\<close> and \<open>Y\<close> behind it;
  \<open>list_layout\<close>: and the container knows.
\<close>

definition list_bytes :: "list_kind \<Rightarrow> 'v list_elem \<Rightarrow> aux_policy \<Rightarrow> nat \<Rightarrow> nat \<Rightarrow> byte list list \<Rightarrow> 'v list \<Rightarrow> byte list \<Rightarrow> byte list \<Rightarrow> bool" where
  "list_bytes K E A i cap cs ts Y ds \<longleftrightarrow>
     (\<exists>H. ds = H @ concat cs @ Y \<and> length H = aux_adjust A i) \<and> list_all2 (is_elem E) cs ts \<and>
     aux_get A ds i = list_measure K cs \<and> list_measure K cs < cap"

definition list_layout :: "list_kind \<Rightarrow> 'v list_elem \<Rightarrow> aux_policy \<Rightarrow> nat \<Rightarrow> nat \<Rightarrow> byte list list \<Rightarrow> 'v list \<Rightarrow> byte list \<Rightarrow> byte list \<times> list_cont \<Rightarrow> bool" where
  "list_layout K E A i cap cs ts Y = (\<lambda>(ds, c). list_bytes K E A i cap cs ts Y ds \<and> (K = ListB \<longrightarrow> lc_n c = length ts \<and> lc_size c = length ds))"

definition list_in :: "list_kind \<Rightarrow> 'v list_elem \<Rightarrow> aux_policy \<Rightarrow> nat \<Rightarrow> nat \<Rightarrow> 'v list \<Rightarrow> byte list \<Rightarrow> byte list \<Rightarrow> bool" where
  "list_in K E A i cap ts Y ds \<longleftrightarrow> (\<exists>cs. list_bytes K E A i cap cs ts Y ds)"

definition list_repr :: "list_kind \<Rightarrow> 'v list_elem \<Rightarrow> aux_policy \<Rightarrow> nat \<Rightarrow> nat \<Rightarrow> 'v list \<Rightarrow> byte list \<Rightarrow> byte list \<times> list_cont \<Rightarrow> bool" where
  "list_repr K E A i cap ts Y s \<longleftrightarrow> (\<exists>cs. list_layout K E A i cap cs ts Y s)"

lemma is_elem_bytes: "is_elem E c t \<Longrightarrow> length xs = j \<Longrightarrow> le_bytes E (xs @ c @ ys) j = length c"
  by (auto simp: is_elem_def)

lemma walk_elems:
  "list_all2 (is_elem E) cs ts \<Longrightarrow> length xs = j \<Longrightarrow> walk E (xs @ concat cs @ ys) j (length cs) = j + length (concat cs)"
proof (induction arbitrary: xs j rule: list_all2_induct)
  case (Cons c cs t ts)
  have "le_bytes E (xs @ c @ concat cs @ ys) j = length c" using Cons by (simp add: is_elem_bytes)
  then show ?case using Cons.IH [of "xs @ c" "j + length c"] Cons.prems by simp
qed simp

lemma walk_prefix:
  assumes "list_all2 (is_elem E) cs ts" "length xs = j" "p \<le> length cs"
  shows "walk E (xs @ concat cs @ ys) j p = j + length (concat (take p cs))"
proof -
  have "concat cs = concat (take p cs) @ concat (drop p cs)" by (metis append_take_drop_id concat_append)
  then show ?thesis using walk_elems [of E "take p cs" "take p ts" xs j "concat (drop p cs) @ ys"] assms
    by (simp add: list_all2_takeI min_absorb2)
qed

text \<open>A new element is put in front of what is at its position as \<open>enc t\<close>; the size field is as for vectors.\<close>

locale list_element =
  fixes E :: "'v list_elem" and enc :: "'v \<Rightarrow> byte list" and fits :: "'v \<Rightarrow> bool"
  assumes le_new: "sp \<le> length ds \<Longrightarrow> fits t \<Longrightarrow> le_put E t (new_element E sp ds) sp = insert_list sp (enc t) ds"
    and le_enc: "fits t \<Longrightarrow> is_elem E (enc t) t"

locale plist = list_element E enc fits + aux A i cap
  for E :: "'v list_elem" and enc fits and A and i cap +
  assumes aux_front: "aux_adjust A i = i + aux_bytes A"
begin

abbreviation b :: nat where "b \<equiv> aux_adjust A i"

lemma set_front:
  assumes "length H = b" "v < cap"
  obtains H' where "aux_set A v (H @ T) i = H' @ T" "length H' = b" "\<And>T. aux_get A (H' @ T) i = v"
  using set_split [of "H @ T" v] assms by auto

lemma layout_update: "list_layout K E A i cap cs ts Y s \<Longrightarrow> lc_update K E A i s = s"
  by (cases K) (auto simp: list_layout_def lc_update_def)

lemma layoutE:
  assumes "list_layout K E A i cap cs ts Y s"
  obtains H c where "s = (H @ concat cs @ Y, c)" "length H = b" "list_all2 (is_elem E) cs ts"
    "\<And>T. aux_get A (H @ T) i = list_measure K cs" "list_measure K cs < cap" "K = ListB \<longrightarrow> lc_n c = length ts"
proof -
  obtain H c where s: "s = (H @ concat cs @ Y, c)" "length H = b" "list_all2 (is_elem E) cs ts"
      "aux_get A (H @ concat cs @ Y) i = list_measure K cs" "list_measure K cs < cap" "K = ListB \<longrightarrow> lc_n c = length ts"
    using assms by (cases s) (auto simp: list_layout_def list_bytes_def)
  have "aux_get A (H @ T) i = list_measure K cs" for T
  proof -
    have "aux_get A (H @ T) i = aux_get A (H @ concat cs @ Y) i" by (rule aux_local) (use s(2) in simp_all)
    then show ?thesis using s(4) by simp
  qed
  then show ?thesis using that s by blast
qed

text \<open>The field is set to what \<open>cs'\<close> needs.\<close>

lemma layout_set:
  assumes "length H = b" "list_all2 (is_elem E) cs' ts'" "list_measure K cs' < cap"
  obtains H' where "aux_set A (list_measure K cs') (H @ T) i = H' @ T" "length H' = b"
    "\<And>c. (K = ListB \<longrightarrow> lc_n c = length ts' \<and> lc_size c = length (H' @ concat cs' @ Y)) \<Longrightarrow>
       list_layout K E A i cap cs' ts' Y (H' @ concat cs' @ Y, c)"
proof -
  obtain H' where H': "aux_set A (list_measure K cs') (H @ T) i = H' @ T" "length H' = b" "\<And>T. aux_get A (H' @ T) i = list_measure K cs'"
    using set_front [OF assms(1,3)] by metis
  show ?thesis by (rule that [OF H'(1,2)]) (use H'(2,3) assms in \<open>auto simp: list_layout_def list_bytes_def\<close>)
qed

lemma concat_split: "concat cs = concat (take p cs) @ concat (drop p cs)"
  by (metis append_take_drop_id concat_append)

text \<open>One element is inserted, in front of element \<open>p\<close>.\<close>

lemma insert_step:
  assumes r: "list_layout K E A i cap cs ts Y s"
    and p: "p \<le> length ts" and t: "fits t" and m: "list_measure K (enc t # cs) < cap" and sp: "sp = b + length (concat (take p cs))"
  shows "list_layout K E A i cap (take p cs @ enc t # drop p cs) (take p ts @ t # drop p ts) Y
    (lc_hook_insert K E A i sp (le_put E t (new_element E sp (fst s)) sp, snd s))"
proof -
  define cs' where "cs' = take p cs @ enc t # drop p cs"
  obtain H c where s: "s = (H @ concat cs @ Y, c)" "length H = b" "list_all2 (is_elem E) cs ts"
      "\<And>T. aux_get A (H @ T) i = list_measure K cs" "K = ListB \<longrightarrow> lc_n c = length ts" using layoutE [OF r] by metis
  have cc': "concat cs' = concat (take p cs) @ enc t @ concat (drop p cs)" by (simp add: cs'_def)
  have ds: "fst s = (H @ concat (take p cs)) @ (concat (drop p cs) @ Y)" using s(1) by (simp add: concat_split [of cs p])
  have spl: "length (H @ concat (take p cs)) = sp" using s(2) sp by simp
  have n: "le_put E t (new_element E sp (fst s)) sp = H @ concat cs' @ Y"
  proof -
    have "sp \<le> length (fst s)" unfolding ds using spl by simp
    then have "le_put E t (new_element E sp (fst s)) sp = insert_list sp (enc t) (fst s)" using t by (rule le_new)
    also have "\<dots> = H @ concat cs' @ Y" unfolding ds insert_list_def cc' using spl by simp
    finally show ?thesis .
  qed
  have lb: "le_bytes E (H @ concat cs' @ Y) sp = length (enc t)"
    using is_elem_bytes [OF le_enc [OF t], of "H @ concat (take p cs)" sp "concat (drop p cs) @ Y"] spl cc' by simp
  have ms: "list_measure K cs' = list_measure K cs + (case K of ListN \<Rightarrow> 1 | ListB \<Rightarrow> length (enc t))" "list_measure K cs' < cap"
    using m p list_all2_lengthD [OF s(3)] by (auto simp: list_measure_def cs'_def concat_split [of cs p] split: list_kind.splits)
  have l2: "list_all2 (is_elem E) cs' (take p ts @ t # drop p ts)"
    unfolding cs'_def using s(3) le_enc [OF t] by (intro list_all2_appendI list_all2_takeI) (simp_all add: list_all2_dropI)
  have lts: "length (take p ts @ t # drop p ts) = length ts + 1" using p by simp
  obtain H' where H': "aux_set A (list_measure K cs') (H @ concat cs' @ Y) i = H' @ concat cs' @ Y" "length H' = b"
      "\<And>c. (K = ListB \<longrightarrow> lc_n c = length (take p ts @ t # drop p ts) \<and> lc_size c = length (H' @ concat cs' @ Y)) \<Longrightarrow>
         list_layout K E A i cap cs' (take p ts @ t # drop p ts) Y (H' @ concat cs' @ Y, c)"
    using layout_set [OF s(2) l2 ms(2)] by metis
  define c' where "c' = (if K = ListB then c\<lparr>lc_n := lc_n c + 1, lc_size := length (H' @ concat cs' @ Y)\<rparr> else c)"
  have "lc_hook_insert K E A i sp (H @ concat cs' @ Y, c) = (H' @ concat cs' @ Y, c')"
    using H'(1) ms(1) lb s(4) by (cases K) (simp_all add: lc_hook_insert_def c'_def)
  moreover have "list_layout K E A i cap cs' (take p ts @ t # drop p ts) Y (H' @ concat cs' @ Y, c')"
    by (rule H'(3)) (use s(5) lts in \<open>simp add: c'_def\<close>)
  ultimately show ?thesis unfolding n using s(1) by (simp add: cs'_def)
qed

text \<open>Element \<open>p\<close> is removed.\<close>

lemma erase_step:
  assumes r: "list_layout K E A i cap cs ts Y s" and p: "p < length ts" and sp: "sp = b + length (concat (take p cs))"
  shows "list_layout K E A i cap (take p cs @ drop (Suc p) cs) (take p ts @ drop (Suc p) ts) Y
    (case lc_hook_erase K E A i sp s of (ds, c) \<Rightarrow> (cut_list sp (sp + le_bytes E ds sp) ds, c))"
proof -
  define e cs' where "e = cs ! p" and "cs' = take p cs @ drop (Suc p) cs"
  obtain H c where s: "s = (H @ concat cs @ Y, c)" "length H = b" "list_all2 (is_elem E) cs ts"
      "\<And>T. aux_get A (H @ T) i = list_measure K cs" "list_measure K cs < cap" "K = ListB \<longrightarrow> lc_n c = length ts" using layoutE [OF r] by metis
  have pl: "p < length cs" using p list_all2_lengthD [OF s(3)] by simp
  have cs: "cs = take p cs @ e # drop (Suc p) cs" using pl by (simp add: e_def id_take_nth_drop)
  have cc: "concat cs = concat (take p cs) @ e @ concat (drop (Suc p) cs)" by (subst cs) (simp del: append_take_drop_id)
  have el: "is_elem E e (ts ! p)" using s(3) pl by (simp add: e_def list_all2_conv_all_nth)
  have lb: "le_bytes E (G @ concat cs @ Y) sp = length e" if "length G = b" for G
    using is_elem_bytes [OF el, of "G @ concat (take p cs)" sp "concat (drop (Suc p) cs) @ Y"] that sp by (simp add: cc)
  have ms: "list_measure K cs = list_measure K cs' + (case K of ListN \<Rightarrow> 1 | ListB \<Rightarrow> length e)"
    using pl by (auto simp: list_measure_def cs'_def cc split: list_kind.splits)
  have wrap: "sub64 (list_measure K cs) d = list_measure K cs - d" if "d \<le> list_measure K cs" for d
  proof -
    have "list_measure K cs + 2 ^ 64 - d = (list_measure K cs - d) + 2 ^ 64" using that by linarith
    moreover have "list_measure K cs - d < 2 ^ 64" using s(5) aux_cap by linarith
    ultimately show ?thesis unfolding sub64_def by (metis mod_add_self2 mod_less)
  qed
  have l2: "list_all2 (is_elem E) cs' (take p ts @ drop (Suc p) ts)"
    unfolding cs'_def using s(3) by (intro list_all2_appendI list_all2_takeI list_all2_dropI)
  have lts: "length (take p ts @ drop (Suc p) ts) = length ts - 1" using p by simp
  obtain H' where H': "aux_set A (list_measure K cs') (H @ concat cs @ Y) i = H' @ concat cs @ Y" "length H' = b"
      "\<And>c. (K = ListB \<longrightarrow> lc_n c = length (take p ts @ drop (Suc p) ts) \<and> lc_size c = length (H' @ concat cs' @ Y)) \<Longrightarrow>
         list_layout K E A i cap cs' (take p ts @ drop (Suc p) ts) Y (H' @ concat cs' @ Y, c)"
    using layout_set [OF s(2) l2, where T = "concat cs @ Y"] ms s(5) by (metis add_lessD1)
  define c' where "c' = (if K = ListB then c\<lparr>lc_n := lc_n c - 1, lc_size := length (H' @ concat cs @ Y) - length e\<rparr> else c)"
  have "lc_hook_erase K E A i sp (H @ concat cs @ Y, c) = (H' @ concat cs @ Y, c')"
    using H'(1) ms lb [OF s(2)] s(4) wrap [of 1] wrap [of "length e"] by (cases K) (simp_all add: lc_hook_erase_def c'_def Let_def)
  moreover have "cut_list sp (sp + length e) (H' @ concat cs @ Y) = H' @ concat cs' @ Y"
    unfolding cut_list_def cc cs'_def using H'(2) sp by simp
  moreover have "list_layout K E A i cap cs' (take p ts @ drop (Suc p) ts) Y (H' @ concat cs' @ Y, c')"
    by (rule H'(3)) (use s(6) lts in \<open>simp add: c'_def cc cs'_def\<close>)
  ultimately show ?thesis using s(1) lb [OF H'(2)] by (simp add: cs'_def)
qed

text \<open>The loops.\<close>

lemma measure_move: "list_measure K (take p cs @ c # drop p cs) = list_measure K (c # cs)"
  using arg_cong [OF concat_split [of cs p], of length] by (cases K) (auto simp: list_measure_def)

lemma measure_Cons: "list_measure K (c # cs) = list_measure K [c] + list_measure K cs"
  by (cases K) (simp_all add: list_measure_def)

lemma range_loop:
  assumes "list_layout K E A i cap cs ts Y s" "p \<le> length ts" "list_all fits us" "list_measure K (map enc us) + list_measure K cs < cap"
    "sp = b + length (concat (take p cs))"
  shows "list_layout K E A i cap (take p cs @ map enc us @ drop p cs) (take p ts @ us @ drop p ts) Y (lc_range_loop K E A i sp us s)"
  using assms
proof (induction us arbitrary: cs ts s p sp)
  case (Cons u us)
  define s' where "s' = lc_hook_insert K E A i sp (le_put E u (new_element E sp (fst s)) sp, snd s)"
  define cs' ts' where "cs' = take p cs @ enc u # drop p cs" and "ts' = take p ts @ u # drop p ts"
  have lc: "length cs = length ts" using layoutE [OF Cons.prems(1)] list_all2_lengthD by metis
  have m: "list_measure K (enc u # cs) < cap" "list_measure K (map enc us) + list_measure K cs' < cap"
    using Cons.prems(4) measure_Cons [of K "enc u" "map enc us"] measure_Cons [of K "enc u" cs] unfolding cs'_def measure_move by simp_all
  have l: "list_layout K E A i cap cs' ts' Y s'"
    unfolding s'_def cs'_def ts'_def using insert_step [OF Cons.prems(1,2) _ m(1) Cons.prems(5)] Cons.prems(3) by simp
  obtain H c where s': "s' = (H @ concat cs' @ Y, c)" "length H = b" using layoutE [OF l] by metis
  have lb: "le_bytes E (fst s') sp = length (enc u)"
    using is_elem_bytes [OF le_enc, of u "H @ concat (take p cs)" sp "concat (drop p cs) @ Y"] s' Cons.prems(3,5) by (simp add: cs'_def)
  have tk: "take (Suc p) cs' = take p cs @ [enc u]" "drop (Suc p) cs' = drop p cs" "take (Suc p) ts' = take p ts @ [u]" "drop (Suc p) ts' = drop p ts"
    using Cons.prems(2) lc by (simp_all add: cs'_def ts'_def)
  have "list_layout K E A i cap (take (Suc p) cs' @ map enc us @ drop (Suc p) cs') (take (Suc p) ts' @ us @ drop (Suc p) ts') Y
      (lc_range_loop K E A i (sp + length (enc u)) us s')"
    by (rule Cons.IH [OF l _ _ m(2)]) (use Cons.prems(2,3,5) in \<open>simp_all add: tk ts'_def\<close>)
  then show ?case unfolding tk by (simp add: s'_def [symmetric] lb Let_def)
qed simp

lemma insert_loop:
  assumes "list_layout K E A i cap cs ts Y s" "p \<le> length ts" "fits t" "list_measure K (replicate n (enc t)) + list_measure K cs < cap"
    "sp = b + length (concat (take p cs))"
  shows "list_layout K E A i cap (take p cs @ replicate n (enc t) @ drop p cs) (take p ts @ replicate n t @ drop p ts) Y
    (lc_insert_loop K E A i sp n t s)"
  using assms
proof (induction n arbitrary: cs ts s)
  case (Suc n)
  define cs' ts' where "cs' = take p cs @ enc t # drop p cs" and "ts' = take p ts @ t # drop p ts"
  have lc: "length cs = length ts" using layoutE [OF Suc.prems(1)] list_all2_lengthD by metis
  have m: "list_measure K (enc t # cs) < cap" "list_measure K (replicate n (enc t)) + list_measure K cs' < cap"
    using Suc.prems(4) measure_Cons [of K "enc t" "replicate n (enc t)"] measure_Cons [of K "enc t" cs] unfolding cs'_def measure_move by simp_all
  have l: "list_layout K E A i cap cs' ts' Y (lc_hook_insert K E A i sp (le_put E t (new_element E sp (fst s)) sp, snd s))"
    unfolding cs'_def ts'_def by (rule insert_step [OF Suc.prems(1,2,3) m(1) Suc.prems(5)])
  have tk: "take p cs' = take p cs" "drop p cs' = enc t # drop p cs" "take p ts' = take p ts" "drop p ts' = t # drop p ts"
    using Suc.prems(2) lc by (simp_all add: cs'_def ts'_def)
  show ?case using Suc.IH [OF l _ Suc.prems(3) m(2)] Suc.prems(2,5) unfolding tk by (simp add: ts'_def replicate_app_Cons_same)
qed simp

lemma erase_loop:
  assumes "list_layout K E A i cap cs ts Y s" "p + n \<le> length ts" "sp = b + length (concat (take p cs))"
  shows "list_layout K E A i cap (take p cs @ drop (p + n) cs) (take p ts @ drop (p + n) ts) Y (lc_erase_loop K E A i sp n s)"
  using assms
proof (induction n arbitrary: cs ts s)
  case (Suc n)
  define cs' ts' where "cs' = take p cs @ drop (Suc p) cs" and "ts' = take p ts @ drop (Suc p) ts"
  obtain ds c where h: "lc_hook_erase K E A i sp s = (ds, c)" by fastforce
  have lc: "length cs = length ts" using layoutE [OF Suc.prems(1)] list_all2_lengthD by metis
  have l: "list_layout K E A i cap cs' ts' Y (cut_list sp (sp + le_bytes E ds sp) ds, c)"
    unfolding cs'_def ts'_def using erase_step [OF Suc.prems(1) _ Suc.prems(3)] Suc.prems(2) h by simp
  have tk: "take p cs' = take p cs" "drop (p + n) cs' = drop (p + Suc n) cs" "take p ts' = take p ts" "drop (p + n) ts' = drop (p + Suc n) ts"
    using Suc.prems(2) lc by (simp_all add: cs'_def ts'_def min_absorb2 add.commute)
  have "lc_erase_loop K E A i sp (Suc n) s = lc_erase_loop K E A i sp n (cut_list sp (sp + le_bytes E ds sp) ds, c)" by (simp add: h)
  moreover have "p + n \<le> length ts'" using Suc.prems(2) by (simp add: ts'_def)
  ultimately show ?case using Suc.IH [OF l] Suc.prems(3) unfolding tk by metis
qed simp

lemma layout_positions:
  assumes "list_layout K E A i cap cs ts Y s"
  shows "p \<le> length ts \<Longrightarrow> walk E (fst s) (lc_begin A i) p = b + length (concat (take p cs))"
    "lc_end K E A i (fst s) = b + length (concat cs)" "lc_bytes K E A i (fst s) = aux_bytes A + length (concat cs)"
proof -
  obtain H c where s: "s = (H @ concat cs @ Y, c)" "length H = b" "list_all2 (is_elem E) cs ts" "\<And>T. aux_get A (H @ T) i = list_measure K cs"
    using layoutE [OF assms] by metis
  show "p \<le> length ts \<Longrightarrow> walk E (fst s) (lc_begin A i) p = b + length (concat (take p cs))"
    using walk_prefix [OF s(3,2)] list_all2_lengthD [OF s(3)] by (simp add: s(1) lc_begin_def)
  show e: "lc_end K E A i (fst s) = b + length (concat cs)"
    using walk_elems [OF s(3,2), of Y] s(1,4) by (cases K) (simp_all add: lc_end_def list_measure_def)
  show "lc_bytes K E A i (fst s) = aux_bytes A + length (concat cs)"
    using e s(1,4) aux_front by (cases K) (simp_all add: lc_bytes_def list_measure_def)
qed

lemma clear_layout:
  assumes "list_layout K E A i cap cs ts Y s"
  shows "list_layout K E A i cap [] [] Y (lc_clear K E A i s)"
proof -
  obtain H c where s: "s = (H @ concat cs @ Y, c)" "length H = b" "list_measure K cs < cap" using layoutE [OF assms] by metis
  define ds1 where "ds1 = H @ Y"
  define G where "G = take i H @ replicate (aux_bytes A) (0 :: byte)"
  have G: "length G = b" using s(2) aux_front by (simp add: G_def)
  have sz: "lc_bytes K E A i (H @ concat cs @ Y) = aux_bytes A + length (concat cs)" using layout_positions(3) [OF assms] s(1) by simp
  have c1: "(if aux_bytes A < aux_bytes A + length (concat cs) then cut_list (i + aux_bytes A) (i + (aux_bytes A + length (concat cs))) (H @ concat cs @ Y)
      else insert_list (i + (aux_bytes A + length (concat cs))) (replicate (aux_bytes A - (aux_bytes A + length (concat cs))) 0) (H @ concat cs @ Y)) = ds1"
  proof (cases "concat cs = []")
    case False
    then have "aux_bytes A < aux_bytes A + length (concat cs)" by (simp del: length_concat)
    then show ?thesis using s(2) aux_front by (simp add: ds1_def cut_list_def add.assoc [symmetric] del: length_concat)
  qed (simp add: ds1_def)
  have c2: "write_at i (replicate (aux_bytes A) 0) ds1 = G @ Y" unfolding write_at_def ds1_def G_def using s(2) aux_front by simp
  obtain H' where H': "aux_set A (list_measure K []) (G @ Y) i = H' @ Y" "length H' = b"
      "\<And>c. (K = ListB \<longrightarrow> lc_n c = length [] \<and> lc_size c = length (H' @ concat [] @ Y)) \<Longrightarrow>
       list_layout K E A i cap [] [] Y (H' @ concat [] @ Y, c)"
    using layout_set [OF G, of "[]" "[]" K Y Y] s(3) by (auto simp: list_measure_def split: list_kind.splits)
  have m0: "list_measure K [] = 0" by (cases K) (simp_all add: list_measure_def)
  have "lc_clear K E A i s = (H' @ Y, if K = ListB then c\<lparr>lc_n := 0, lc_size := length (H' @ Y)\<rparr> else c)"
    unfolding lc_clear_def layout_update [OF assms] unfolding s(1) prod.case Let_def sz c1 c2 using H'(1) m0 by simp
  then show ?thesis using H'(3) [of "if K = ListB then c\<lparr>lc_n := 0, lc_size := length (H' @ Y)\<rparr> else c"] by simp
qed

text \<open>The container finds the elements.\<close>

lemma count_elems:
  "list_all2 (is_elem E) cs ts \<Longrightarrow> length xs = j \<Longrightarrow> e = j + length (concat cs) \<Longrightarrow> lb_count E (xs @ concat cs @ ys) e j n = Inr (n + length cs)"
proof (induction arbitrary: xs j n rule: list_all2_induct)
  case Nil
  then show ?case by (simp add: lb_count.simps)
next
  case (Cons c cs t ts)
  have c: "le_bytes E (xs @ c @ concat cs @ ys) j = length c" "c \<noteq> []" using Cons by (simp_all add: is_elem_bytes is_elem_def)
  then have "lb_count E (xs @ concat (c # cs) @ ys) e j n = lb_count E ((xs @ c) @ concat cs @ ys) e (j + length c) (n + 1)"
    using Cons.prems by (subst lb_count.simps) (simp add: Let_def del: length_concat)
  also have "\<dots> = Inr (n + 1 + length cs)" by (rule Cons.IH) (use Cons.prems in simp_all)
  finally show ?case by simp
qed

lemma construct_layout:
  assumes "list_bytes K E A i cap cs ts Y ds"
  obtains c where "lc_construct K E A ds i = Inr c" "list_layout K E A i cap cs ts Y (ds, c)"
proof (cases K)
  case ListN
  then show ?thesis using that [of "\<lparr>lc_n = 0, lc_size = 0\<rparr>"] assms by (simp add: lc_construct_def list_layout_def)
next
  case ListB
  obtain H where H: "ds = H @ concat cs @ Y" "length H = b" and e: "list_all2 (is_elem E) cs ts" and g: "aux_get A ds i = length (concat cs)"
    using assms ListB by (auto simp: list_bytes_def list_measure_def)
  have "i + (aux_get A ds i + aux_bytes A) = b + length (concat cs)" using g aux_front by simp
  then have "lc_construct K E A ds i = Inr \<lparr>lc_n = length cs, lc_size = length ds\<rparr>"
    using count_elems [OF e H(2) refl, of Y 0] H by (simp add: lc_construct_def ListB Let_def del: length_concat)
  then show ?thesis using that [of "\<lparr>lc_n = length cs, lc_size = length ds\<rparr>"] assms list_all2_lengthD [OF e] by (simp add: list_layout_def)
qed

text \<open>An element has been changed through its parser.\<close>

lemma update_layout:
  assumes r: "list_layout ListB E A i cap cs ts Y (H @ concat cs @ Y, c)" and h: "length H = b"
    and p: "p < length ts" and e: "is_elem E e t" and m: "length (concat (cs[p := e])) < cap"
  shows "list_layout ListB E A i cap (cs[p := e]) (ts[p := t]) Y (lc_update ListB E A i (H @ concat (cs[p := e]) @ Y, c))"
proof -
  define cs' where "cs' = cs[p := e]"
  obtain H0 c0 where s: "(H @ concat cs @ Y, c) = (H0 @ concat cs @ Y, c0)" "length H0 = b" "list_all2 (is_elem E) cs ts"
      "\<And>T. aux_get A (H0 @ T) i = list_measure ListB cs" "lc_n c0 = length ts" using layoutE [OF r] by metis
  have H0: "H0 = H" "c0 = c" using s(1) by auto
  have sz: "lc_size c = length (H @ concat cs @ Y)" using r by (simp add: list_layout_def)
  have l2: "list_all2 (is_elem E) cs' (ts[p := t])" unfolding cs'_def by (rule list_all2_update_cong [OF s(3) e])
  have lc: "length ts = length cs'" using list_all2_lengthD [OF s(3)] by (simp add: cs'_def)
  have m': "list_measure ListB cs' < cap" using m by (simp add: list_measure_def cs'_def)
  have "list_layout ListB E A i cap cs' (ts[p := t]) Y (lc_update ListB E A i (H @ concat cs' @ Y, c))"
  proof (cases "length (concat cs) = length (concat cs')")
    case True
    then have "list_measure ListB cs = list_measure ListB cs'" by (simp add: list_measure_def)
    then show ?thesis using True s(4,5) H0 sz l2 m' h by (auto simp: lc_update_def list_layout_def list_bytes_def)
  next
    case False
    obtain H' where H': "aux_set A (list_measure ListB cs') (H @ concat cs' @ Y) i = H' @ concat cs' @ Y" "length H' = b"
        "\<And>c. (ListB = ListB \<longrightarrow> lc_n c = length (ts[p := t]) \<and> lc_size c = length (H' @ concat cs' @ Y)) \<Longrightarrow>
           list_layout ListB E A i cap cs' (ts[p := t]) Y (H' @ concat cs' @ Y, c)"
      using layout_set [OF h l2 m'] by metis
    have "walk E (H @ concat cs' @ Y) b (lc_n c) - b = list_measure ListB cs'"
      using walk_elems [OF l2 h, of Y] s(5) H0 lc by (simp add: list_measure_def)
    moreover have "lc_size c \<noteq> length (H @ concat cs' @ Y)" using False sz by simp
    ultimately have "lc_update ListB E A i (H @ concat cs' @ Y, c) =
        (H' @ concat cs' @ Y, c\<lparr>lc_size := length (H' @ concat cs' @ Y)\<rparr>)"
      using H'(1) by (simp add: lc_update_def Let_def)
    then show ?thesis using H'(3) [of "c\<lparr>lc_size := length (H' @ concat cs' @ Y)\<rparr>"] s(5) H0 by simp
  qed
  then show ?thesis by (simp add: cs'_def)
qed

text \<open>The operations, on the values.\<close>

lemma insert_range_repr:
  assumes "list_repr K E A i cap ts Y s" "p \<le> length ts" "list_all fits us" "aux_get A (fst s) i + list_measure K (map enc us) < cap"
  shows "list_repr K E A i cap (take p ts @ us @ drop p ts) Y (lc_insert_range K E A i (walk E (fst s) (lc_begin A i) p) us s)"
proof -
  obtain cs where l: "list_layout K E A i cap cs ts Y s" using assms(1) by (auto simp: list_repr_def)
  then have "aux_get A (fst s) i = list_measure K cs" by (auto simp: list_layout_def list_bytes_def)
  then show ?thesis
    using range_loop [OF l assms(2,3), of "b + length (concat (take p cs))"] assms(4) layout_positions(1) [OF l assms(2)] layout_update [OF l]
    by (auto simp: list_repr_def lc_insert_range_def add.commute simp del: length_concat)
qed

lemma insert_repr:
  assumes "list_repr K E A i cap ts Y s" "p \<le> length ts" "fits t" "aux_get A (fst s) i + list_measure K (replicate n (enc t)) < cap"
  shows "list_repr K E A i cap (take p ts @ replicate n t @ drop p ts) Y (lc_insert K E A i (walk E (fst s) (lc_begin A i) p) n t s)"
proof -
  obtain cs where l: "list_layout K E A i cap cs ts Y s" using assms(1) by (auto simp: list_repr_def)
  then have "aux_get A (fst s) i = list_measure K cs" by (auto simp: list_layout_def list_bytes_def)
  then show ?thesis
    using insert_loop [OF l assms(2,3), of n "b + length (concat (take p cs))"] assms(4) layout_positions(1) [OF l assms(2)] layout_update [OF l]
    by (auto simp: list_repr_def lc_insert_def add.commute simp del: length_concat)
qed

lemma erase_repr:
  assumes "list_repr K E A i cap ts Y s" "p + n \<le> length ts"
  shows "list_repr K E A i cap (take p ts @ drop (p + n) ts) Y (lc_erase K E A i (walk E (fst s) (lc_begin A i) p) n s)"
proof -
  obtain cs where l: "list_layout K E A i cap cs ts Y s" using assms(1) by (auto simp: list_repr_def)
  show ?thesis
    using erase_loop [OF l assms(2) refl] layout_positions(1) [OF l, of p] assms(2) layout_update [OF l]
    by (auto simp: list_repr_def lc_erase_def simp del: length_concat)
qed

lemma repr_update: "list_repr K E A i cap ts Y s \<Longrightarrow> lc_update K E A i s = s"
  unfolding list_repr_def using layout_update by blast

lemma repr_end: "list_repr K E A i cap ts Y s \<Longrightarrow> lc_end K E A i (fst s) = walk E (fst s) (lc_begin A i) (length ts)"
  using layout_positions(1,2) layoutE list_all2_lengthD by (metis list_repr_def order_refl take_all)

lemma push_back_repr:
  assumes "list_repr K E A i cap ts Y s" "fits t" "aux_get A (fst s) i + list_measure K (replicate n (enc t)) < cap"
  shows "list_repr K E A i cap (ts @ replicate n t) Y (lc_push_back K E A i t n s)"
  using insert_repr [OF assms(1) order_refl assms(2,3)] by (simp add: lc_push_back_def repr_update [OF assms(1)] repr_end [OF assms(1)] Let_def)

lemma push_front_repr:
  assumes "list_repr K E A i cap ts Y s" "fits t" "aux_get A (fst s) i + list_measure K (replicate n (enc t)) < cap"
  shows "list_repr K E A i cap (replicate n t @ ts) Y (lc_push_front K E A i t n s)"
  using insert_repr [OF assms(1) le0 assms(2,3)] by (simp add: lc_push_front_def repr_update [OF assms(1)] Let_def)

lemma clear_repr: "list_repr K E A i cap ts Y s \<Longrightarrow> list_repr K E A i cap [] Y (lc_clear K E A i s)"
  unfolding list_repr_def using clear_layout by blast

lemma push_back_one:
  assumes "list_layout K E A i cap cs ts Y s" "fits t" "list_measure K cs + list_measure K [enc t] < cap"
  shows "list_layout K E A i cap (cs @ [enc t]) (ts @ [t]) Y (lc_push_back K E A i t 1 s)"
proof -
  have lc: "length cs = length ts" using layoutE [OF assms(1)] list_all2_lengthD by metis
  show ?thesis
    using insert_loop [OF assms(1) order_refl assms(2), of 1 "b + length (concat cs)"] assms(3) lc layout_positions(2) [OF assms(1)] layout_update [OF assms(1)]
    by (simp add: lc_push_back_def lc_insert_def Let_def add.commute)
qed

lemma push_all_layout:
  assumes "list_layout K E A i cap cs ts Y s" "list_all fits us" "list_measure K cs + list_measure K (map enc us) < cap"
  shows "list_layout K E A i cap (cs @ map enc us) (ts @ us) Y (lc_push_all K E A i us s)"
  using assms
proof (induction us arbitrary: cs ts s)
  case (Cons u us)
  have a: "list_measure K (cs @ [enc u]) = list_measure K cs + list_measure K [enc u]" by (cases K) (simp_all add: list_measure_def)
  have "list_layout K E A i cap (cs @ [enc u]) (ts @ [u]) Y (lc_push_back K E A i u 1 s)"
    by (rule push_back_one) (use Cons.prems measure_Cons [of K "enc u" "map enc us"] in simp_all)
  then show ?case using Cons.IH [of "cs @ [enc u]" "ts @ [u]"] Cons.prems a measure_Cons [of K "enc u" "map enc us"] by simp
qed simp

lemma assign_in:
  assumes "list_in K E A i cap ts Y ds" "list_all fits us" "list_measure K (map enc us) < cap"
  obtains ds' where "listp_assign K E A i us ds = Inr ds'" "list_in K E A i cap us Y ds'"
proof -
  obtain cs where "list_bytes K E A i cap cs ts Y ds" using assms(1) by (auto simp: list_in_def)
  then obtain c where c: "lc_construct K E A ds i = Inr c" "list_layout K E A i cap cs ts Y (ds, c)" by (rule construct_layout)
  have m0: "list_measure K [] = 0" by (cases K) (simp_all add: list_measure_def)
  define s where "s = lc_push_all K E A i us (lc_clear K E A i (ds, c))"
  have l: "list_layout K E A i cap (map enc us) us Y s"
    using push_all_layout [OF clear_layout [OF c(2)] assms(2)] assms(3) m0 by (simp add: s_def)
  then have "list_in K E A i cap us Y (fst s)" by (auto simp: list_in_def list_layout_def)
  moreover have "listp_assign K E A i us ds = Inr (fst s)" using c(1) layout_update [OF l] by (simp add: listp_assign_def s_def)
  ultimately show ?thesis using that by blast
qed

lemma length_repr: "list_repr K E A i cap ts Y s \<Longrightarrow> lc_length K A i s = length ts"
  by (cases K; cases s) (auto simp: list_repr_def list_layout_def list_bytes_def lc_length_def list_measure_def dest: list_all2_lengthD)

lemma resize_repr:
  assumes "list_repr K E A i cap ts Y s" "fits t" "aux_get A (fst s) i + list_measure K (replicate (n - length ts) (enc t)) < cap"
  shows "list_repr K E A i cap (take n ts @ replicate (n - length ts) t) Y (lc_resize K E A i n t s)"
proof (cases "length ts > n")
  case True
  then show ?thesis using erase_repr [OF assms(1), of n "length ts - n"]
    by (simp add: lc_resize_def Let_def repr_update [OF assms(1)] length_repr [OF assms(1)])
next
  case False
  then show ?thesis using push_back_repr [OF assms]
    by (simp add: lc_resize_def Let_def repr_update [OF assms(1)] length_repr [OF assms(1)])
qed

end

section \<open>Elements of a fixed size, and vectors as elements\<close>

definition fixed_elem :: "'v int_parser \<Rightarrow> 'v list_elem" where
  "fixed_elem P = \<lparr>le_bytes = (\<lambda>ds j. pr_fixed_bytes P), le_init_bytes = pr_fixed_bytes P, le_init = (\<lambda>ds j. ds),
     le_put = (\<lambda>t ds j. pr_assign P ds j t), le_get = pr_value P\<rparr>"

definition vec_init :: "aux_policy \<Rightarrow> byte list \<Rightarrow> nat \<Rightarrow> byte list" where
  "vec_init A ds i = aux_set A 0 ds i"

text \<open>Strings with their values, and vectors, which are assigned from the bytes of another vector.\<close>

definition string_elem :: "'a::len word int_parser \<Rightarrow> byte list list_elem" where
  "string_elem P = \<lparr>le_bytes = string_bytes P, le_init_bytes = pr_fixed_bytes P, le_init = (\<lambda>ds j. ds), le_put = string_put P,
     le_get = (\<lambda>ds j. subrange (j + pr_fixed_bytes P) (j + string_bytes P ds j) ds)\<rparr>"

definition vector_elem :: "'v int_parser \<Rightarrow> aux_policy \<Rightarrow> byte list list_elem" where
  "vector_elem P A = \<lparr>le_bytes = vec_bytes P A, le_init_bytes = aux_bytes A, le_init = vec_init A,
     le_put = parser_copy (vec_bytes P A), le_get = (\<lambda>ds j. subrange j (j + vec_bytes P A ds j) ds)\<rparr>"

context element
begin

lemma put_zeros:
  "length xs = j \<Longrightarrow> pr_assign E (xs @ replicate (pr_fixed_bytes E) 0 @ ys) j t = xs @ elem_enc E t @ ys"
  using fill_zeros [of xs j "[t]" ys] by simp

lemma fixed_list_element: "list_element (fixed_elem E) (elem_enc E) fits"
proof
  fix sp :: nat and ds :: "byte list" and t
  show "le_put (fixed_elem E) t (new_element (fixed_elem E) sp ds) sp = insert_list sp (elem_enc E t) ds" if "sp \<le> length ds"
    using put_zeros [of "take sp ds" sp "drop sp ds" t] that by (simp add: fixed_elem_def new_element_def insert_list_def)
  show "is_elem (fixed_elem E) (elem_enc E t) t" if "fits t"
    using value_append [OF refl length_enc] value_enc [OF that] el_bytes
    by (auto simp: is_elem_def fixed_elem_def simp flip: length_0_conv)
qed

end

interpretation elem8_list: list_element "fixed_elem UInt8Parser" "elem_enc UInt8Parser" "\<lambda>v. take_bit (8 - 0) v = v"
  by (rule elem8.fixed_list_element)

interpretation elem16_list: list_element "fixed_elem UInt16Parser" "elem_enc UInt16Parser" "\<lambda>v. take_bit (16 - 0) v = v"
  by (rule elem16.fixed_list_element)

interpretation list8_16: plist "fixed_elem UInt16Parser" "elem_enc UInt16Parser" "\<lambda>v. take_bit (16 - 0) v = v"
    "PrefixAuxParserPolicy UInt8Parser" i "2 ^ (8 - 0)" for i
  by unfold_locales (simp add: PrefixAuxParserPolicy_def)

context net_field
begin

lemma zero_value:
  assumes "pr_static_assert P"
  shows "pr_value P (replicate (pr_fixed_bytes P) 0) 0 = 0"
proof (rule bit_word_eqI)
  fix j
  have "\<not> netbit (replicate n 0) q" for n q by (auto simp: netbit_def)
  then show "bit (pr_value P (replicate (pr_fixed_bytes P) 0) 0) j = bit 0 j"
    using net_value [OF assms, of 0 "replicate (pr_fixed_bytes P) 0" j] by simp
qed

lemma string_list_element:
  assumes "pr_static_assert P" "pr_max_value P = Some (2 ^ (hi - lo) - 1)"
  shows "list_element (string_elem P) (string_enc P) (\<lambda>v. length v < 2 ^ (hi - lo))"
proof
  fix sp :: nat and ds t :: "byte list"
  assume t: "length t < 2 ^ (hi - lo)"
  then have m: "length t = string_max P (length t)" by (simp add: max_length [OF assms(2)])
  define k Z where "k = pr_fixed_bytes P" and "Z = replicate k (0 :: byte)"
  have Z: "length Z = pr_fixed_bytes P" by (simp add: Z_def k_def)
  show "le_put (string_elem P) t (new_element (string_elem P) sp ds) sp = insert_list sp (string_enc P t) ds" if "sp \<le> length ds"
    using put_parts [OF assms(1) _ Z _ m, of "take sp ds" sp "[]" "drop sp ds"] zero_value [OF assms(1)] that
    by (simp add: string_elem_def new_element_def insert_list_def string_enc_def Z_def k_def)
  define H where "H = pr_assign P Z 0 (of_nat (length t))"
  have H: "length H = pr_fixed_bytes P" by (simp add: H_def len Z)
  have l: "length t = unat (pr_value P H 0)" using length_read [OF assms(1) Z t] by (simp add: H_def)
  have e: "string_enc P t = H @ t" by (simp add: string_enc_def H_def Z_def k_def)
  have "H \<noteq> []" using H bytes [OF assms(1)] by auto
  then show "is_elem (string_elem P) (string_enc P t) t"
    using value_of_parts(1) [OF assms(1) refl H l] H by (simp add: is_elem_def string_elem_def e subrange_def)
qed

text \<open>A vector with a size field in front of it: any bytes that are such a vector.\<close>

lemma vector_list_element:
  fixes E :: "'v int_parser"
  assumes "pr_static_assert P"
  shows "list_element (vector_elem E (PrefixAuxParserPolicy P)) id
    (\<lambda>src. \<exists>H. length H = pr_fixed_bytes P \<and> (\<exists>V. src = H @ V \<and> length V = unat (pr_value P H 0) * pr_fixed_bytes E))"
proof
  fix sp :: nat and ds t :: "byte list"
  define A where "A = PrefixAuxParserPolicy P"
  have b: "vec_bytes E A (X @ H @ Z) i = unat (pr_value P H 0) * pr_fixed_bytes E + pr_fixed_bytes P"
    if "length X = i" "length H = pr_fixed_bytes P" for X H Z i
    using value_parts [OF assms that] by (simp add: vec_bytes_def vec_size_def A_def PrefixAuxParserPolicy_def)
  assume "\<exists>H. length H = pr_fixed_bytes P \<and> (\<exists>V. t = H @ V \<and> length V = unat (pr_value P H 0) * pr_fixed_bytes E)"
  then obtain H V where t: "length H = pr_fixed_bytes P" "t = H @ V" "length V = unat (pr_value P H 0) * pr_fixed_bytes E" by blast
  have "H \<noteq> []" using t(1) bytes [OF assms] by auto
  then show "is_elem (vector_elem E (PrefixAuxParserPolicy P)) (id t) t"
    using b [OF refl t(1)] t by (simp add: is_elem_def vector_elem_def A_def subrange_def)
  assume sp: "sp \<le> length ds"
  define Z where "Z = pr_assign P (replicate (pr_fixed_bytes P) 0) 0 0"
  have Z: "length Z = pr_fixed_bytes P" "unat (pr_value P Z 0) = 0"
    using length_read [OF assms, of "replicate (pr_fixed_bytes P) 0" 0] by (simp_all add: Z_def len)
  have n: "new_element (vector_elem E A) sp ds = take sp ds @ Z @ drop sp ds"
    using assign_parts [OF assms, of "take sp ds" sp "replicate (pr_fixed_bytes P) 0" "drop sp ds" 0] sp
    by (simp add: new_element_def vector_elem_def vec_init_def A_def PrefixAuxParserPolicy_def insert_list_def Z_def)
  show "le_put (vector_elem E (PrefixAuxParserPolicy P)) t (new_element (vector_elem E (PrefixAuxParserPolicy P)) sp ds) sp = insert_list sp (id t) ds"
    unfolding A_def [symmetric] n
    using copy_parts [of "take sp ds" sp Z "vec_bytes E A" "drop sp ds" t] b [of "take sp ds" sp Z "drop sp ds"] Z sp
    by (simp add: vector_elem_def insert_list_def)
qed

end

interpretation strings8: list_element "string_elem UInt8Parser" "string_enc UInt8Parser" "\<lambda>v. length v < 2 ^ (8 - 0)"
  by (rule u8.string_list_element) (simp_all add: UInt8Parser_def)

interpretation strings16: list_element "string_elem UInt16Parser" "string_enc UInt16Parser" "\<lambda>v. length v < 2 ^ (16 - 0)"
  by (rule u16.string_list_element) (simp_all add: UInt16Parser_def)

interpretation vectors8: list_element "vector_elem E (PrefixAuxParserPolicy UInt8Parser)" id
    "\<lambda>src. \<exists>H. length H = pr_fixed_bytes UInt8Parser \<and> (\<exists>V. src = H @ V \<and> length V = unat (pr_value UInt8Parser H 0) * pr_fixed_bytes E)" for E
  by (rule u8.vector_list_element) (simp add: UInt8Parser_def)

interpretation list16_strings: plist "string_elem UInt8Parser" "string_enc UInt8Parser" "\<lambda>v. length v < 2 ^ (8 - 0)"
    "PrefixAuxParserPolicy UInt16Parser" i "2 ^ (16 - 0)" for i
  by unfold_locales (simp add: PrefixAuxParserPolicy_def)

section \<open>Properties\<close>

text \<open>What the constructor accepts: the elements, none of them empty and all in the packet, end where the field says.\<close>

lemma walk_mono: "m \<le> n \<Longrightarrow> walk E ds j m \<le> walk E ds j n"
proof (induction n arbitrary: j m)
  case (Suc n)
  show ?case
  proof (cases m)
    case 0
    have "j + le_bytes E ds j \<le> walk E ds (j + le_bytes E ds j) n" using Suc.IH [of 0 "j + le_bytes E ds j"] by simp
    then show ?thesis using 0 by simp
  qed (use Suc in simp)
qed simp

lemma lb_count_sound:
  "lb_count E ds e j n = Inr m \<Longrightarrow>
   \<exists>k. m = n + k \<and> walk E ds j k = e \<and> (\<forall>l<k. walk E ds j l < walk E ds j (Suc l) \<and> walk E ds j (Suc l) \<le> length ds)"
proof (induction E ds e j n rule: lb_count.induct)
  case (1 E ds e j n)
  define sz where "sz = le_bytes E ds j"
  show ?case
  proof (cases "j = e")
    case True
    then show ?thesis using "1.prems" by (intro exI [of _ 0]) (simp add: lb_count.simps)
  next
    case False
    then have s: "sz \<noteq> 0" "j + sz \<le> length ds" "lb_count E ds e (j + sz) (n + 1) = Inr m"
      using "1.prems" by (auto simp: lb_count.simps [of E ds e j n] sz_def Let_def split: if_splits)
    then obtain k where k: "m = n + 1 + k" "walk E ds (j + sz) k = e"
        "\<forall>l<k. walk E ds (j + sz) l < walk E ds (j + sz) (Suc l) \<and> walk E ds (j + sz) (Suc l) \<le> length ds"
      using "1.IH" [OF False sz_def] by auto
    have "walk E ds j l < walk E ds j (Suc l) \<and> walk E ds j (Suc l) \<le> length ds" if "l < Suc k" for l
      using k(3) s that by (cases l) (simp_all add: sz_def)
    then show ?thesis using k by (intro exI [of _ "Suc k"]) (simp add: sz_def)
  qed
qed

lemma lb_count_complete:
  assumes "walk E ds j k = e" "\<forall>l<k. walk E ds j l < walk E ds j (Suc l) \<and> walk E ds j (Suc l) \<le> length ds"
  shows "lb_count E ds e j n = Inr (n + k)"
  using assms
proof (induction k arbitrary: j n)
  case (Suc k)
  define sz where "sz = le_bytes E ds j"
  have s: "0 < sz" "j + sz \<le> length ds" using spec [OF Suc.prems(2), of 0] by (simp_all add: sz_def)
  have "walk E ds j (Suc 0) \<le> walk E ds j (Suc k)" by (rule walk_mono) simp
  then have "j \<noteq> e" using Suc.prems(1) s by (simp add: sz_def)
  moreover have "lb_count E ds e (j + sz) (n + 1) = Inr (n + 1 + k)"
  proof (rule Suc.IH)
    show "walk E ds (j + sz) k = e" using Suc.prems(1) by (simp add: sz_def)
    show "\<forall>l<k. walk E ds (j + sz) l < walk E ds (j + sz) (Suc l) \<and> walk E ds (j + sz) (Suc l) \<le> length ds"
    proof (intro allI impI)
      fix l assume "l < k"
      then show "walk E ds (j + sz) l < walk E ds (j + sz) (Suc l) \<and> walk E ds (j + sz) (Suc l) \<le> length ds"
        using spec [OF Suc.prems(2), of "Suc l"] by (simp add: sz_def)
    qed
  qed
  ultimately show ?case using s by (subst lb_count.simps) (simp add: sz_def [symmetric] Let_def)
qed (simp add: lb_count.simps)

text \<open>
  Reading a list counted in bytes from any packet data ends: the container is constructed exactly when the
  elements from the first one on, each of at least one byte and within the packet, come to lie with
  their end where the size field says, and it then knows their number; every other data, a size
  beyond the packet or a last element across the end of the list included, is refused with an error.
\<close>

theorem list_bytes_accepted:
  "(\<exists>c. lc_construct ListB E A ds i = Inr c \<and> lc_n c = k \<and> lc_size c = length ds) \<longleftrightarrow>
   i + aux_get A ds i + aux_bytes A \<le> length ds \<and> walk E ds (aux_adjust A i) k = i + aux_get A ds i + aux_bytes A \<and>
   (\<forall>l<k. walk E ds (aux_adjust A i) l < walk E ds (aux_adjust A i) (Suc l) \<and> walk E ds (aux_adjust A i) (Suc l) \<le> length ds)"
  (is "?l \<longleftrightarrow> ?r")
proof
  define e j where "e = i + (aux_get A ds i + aux_bytes A)" and "j = aux_adjust A i"
  have c: "lc_construct ListB E A ds i = (if length ds < e then Inl TruncatedPacket
      else map_sum id (\<lambda>n. \<lparr>lc_n = n, lc_size = length ds\<rparr>) (lb_count E ds e j 0))"
    by (simp add: lc_construct_def e_def j_def Let_def)
  show ?r if ?l
  proof -
    have le: "e \<le> length ds" and n: "lb_count E ds e j 0 = Inr k"
      using that c by (cases "lb_count E ds e j 0"; fastforce split: if_splits)+
    show ?thesis using lb_count_sound [OF n] le by (simp add: e_def j_def add.assoc)
  qed
  show ?l if ?r
  proof -
    have "lb_count E ds e j 0 = Inr (0 + k)" by (rule lb_count_complete) (use that in \<open>simp_all add: e_def j_def add.assoc\<close>)
    then show ?thesis using c that by (simp add: e_def add.assoc)
  qed
qed

text \<open>
  C21: A list in a packet is a list of values, for elements of any size and with the number of the elements or
  of their bytes in the size field: while the field can hold the new number, inserting a range or
  copies of a value, erasing, appending, prepending, resizing and clearing have on the values the
  effect the operation has on a list, the field and the container's cached number and size are those
  of the new elements, and what is behind the list is unchanged.
\<close>

theorem packet_list_is_list:
  assumes "plist E enc fits A i cap" "list_repr K E A i cap ts Y s" "p + n \<le> length ts" "list_all fits us" "fits t"
    and "aux_get A (fst s) i + list_measure K (map enc us) < cap" "aux_get A (fst s) i + list_measure K (replicate m (enc t)) < cap"
  shows "list_repr K E A i cap (take p ts @ us @ drop p ts) Y (lc_insert_range K E A i (walk E (fst s) (lc_begin A i) p) us s) \<and>
    list_repr K E A i cap (take p ts @ replicate m t @ drop p ts) Y (lc_insert K E A i (walk E (fst s) (lc_begin A i) p) m t s) \<and>
    list_repr K E A i cap (take p ts @ drop (p + n) ts) Y (lc_erase K E A i (walk E (fst s) (lc_begin A i) p) n s) \<and>
    list_repr K E A i cap (ts @ replicate m t) Y (lc_push_back K E A i t m s) \<and>
    list_repr K E A i cap (replicate m t @ ts) Y (lc_push_front K E A i t m s) \<and>
    list_repr K E A i cap (ts @ replicate m t) Y (lc_resize K E A i (length ts + m) t s) \<and>
    list_repr K E A i cap (take p ts) Y (lc_resize K E A i p t s) \<and>
    list_repr K E A i cap [] Y (lc_clear K E A i s) \<and> lc_length K A i s = length ts"
proof -
  have p: "p \<le> length ts" using assms(3) by simp
  have "list_measure K (replicate (p - length ts) (enc t)) = 0" using p by (cases K) (simp_all add: list_measure_def)
  then show ?thesis
    using plist.insert_range_repr [OF assms(1,2) p assms(4,6)] plist.insert_repr [OF assms(1,2) p assms(5,7)]
      plist.erase_repr [OF assms(1,2,3)] plist.push_back_repr [OF assms(1,2,5,7)] plist.push_front_repr [OF assms(1,2,5,7)]
      plist.resize_repr [OF assms(1,2,5), of "length ts + m"]
      plist.resize_repr [OF assms(1,2,5), of p] plist.clear_repr [OF assms(1,2)] plist.length_repr [OF assms(1,2)] assms(7) p
    by simp
qed

lemma example_elem: "is_elem (string_elem UInt8Parser) [2, 65, 66] [65, 66]"
  using strings8.le_enc [of "[65, 66]"] by (simp add: string_enc_def UInt8Parser_def)

theorem list_bytes_accepted_witness:
  "\<exists>c. lc_construct ListB (string_elem UInt8Parser) (PrefixAuxParserPolicy UInt16Parser) [0, 3, 2, 65, 66, 9] 0 = Inr c \<and>
     lc_n c = 1 \<and> lc_size c = length ([0, 3, 2, 65, 66, 9] :: byte list)"
proof -
  define A where "A = PrefixAuxParserPolicy UInt16Parser"
  have a: "aux_get A [0, 3, 2, 65, 66, 9] 0 = 3" "aux_adjust A 0 = 2" "aux_bytes A = 2"
    by (simp_all add: A_def PrefixAuxParserPolicy_def UInt16Parser_def parse_uint16_def)
  have w: "le_bytes (string_elem UInt8Parser) [0, 3, 2, 65, 66, 9] 2 = 3" using is_elem_bytes [OF example_elem, of "[0, 3]" 2 "[9]"] by simp
  show ?thesis unfolding A_def [symmetric] by (subst list_bytes_accepted) (simp add: a w)
qed

theorem packet_list_is_list_witness:
  "list_repr ListB (string_elem UInt8Parser) (PrefixAuxParserPolicy UInt16Parser) 0 (2 ^ 16) [[65, 66], [67]] [9]
     (lc_push_back ListB (string_elem UInt8Parser) (PrefixAuxParserPolicy UInt16Parser) 0 [67] 1
        ([0, 3, 2, 65, 66, 9], \<lparr>lc_n = 1, lc_size = 6\<rparr>))"
proof -
  define A where "A = PrefixAuxParserPolicy UInt16Parser"
  have a: "aux_get A [0, 3, 2, 65, 66, 9] 0 = 3" "aux_adjust A 0 = 2"
    by (simp_all add: A_def PrefixAuxParserPolicy_def UInt16Parser_def parse_uint16_def)
  have "list_bytes ListB (string_elem UInt8Parser) A 0 (2 ^ 16) [[2, 65, 66]] [[65, 66]] [9] [0, 3, 2, 65, 66, 9]"
    unfolding list_bytes_def using example_elem a by (intro conjI exI [of _ "[0, 3]"]) (simp_all add: list_measure_def)
  then have r: "list_repr ListB (string_elem UInt8Parser) A 0 (2 ^ 16) [[65, 66]] [9] ([0, 3, 2, 65, 66, 9], \<lparr>lc_n = 1, lc_size = 6\<rparr>)"
    by (auto simp: list_repr_def list_layout_def)
  have m: "list_measure ListB (replicate 1 (string_enc UInt8Parser [67])) = 2" "list_measure ListB (map (string_enc UInt8Parser) []) = 0"
    by (simp_all add: list_measure_def string_enc_def UInt8Parser_def)
  have "plist (string_elem UInt8Parser) (string_enc UInt8Parser) (\<lambda>v. length v < 2 ^ (8 - 0)) A 0 (2 ^ 16)"
    using list16_strings.plist_axioms [of 0] by (simp add: A_def)
  from packet_list_is_list [OF this r, of 0 0 "[]" "[67]" 1]
  show ?thesis unfolding A_def [symmetric] using a m by simp
qed

text \<open>
  \<open>senf::copy\<close> yields every second element, when their number is even, and runs beyond the end otherwise.
\<close>

lemma list_copy_skips: "lc_copy vs = (if even (length vs) then Some (map (\<lambda>m. vs ! (2 * m)) [0..<length vs div 2]) else None)"
proof (induction vs rule: lc_copy.induct)
  case (3 v w vs)
  have "map (\<lambda>m. (v # w # vs) ! (2 * m)) [0..<Suc (length vs div 2)] = v # map (\<lambda>m. vs ! (2 * m)) [0..<length vs div 2]"
    by (simp add: upt_conv_Cons map_Suc_upt [symmetric] del: upt_Suc map_Suc_upt)
  then show ?case using 3 by (simp del: upt_Suc)
qed simp_all

end
