(* ===== verification/Net_Addresses.thy ===== *)
theory Net_Addresses
  imports Int_Bits
begin

text \<open>
  Addresses, \<open>senf/Socket/Protocols/Raw\<close> and \<open>senf/Socket/Protocols/INet\<close>: MAC addresses
  (\<open>MACAddress.*\<close>), EUI-64 identifiers (\<open>EUI64.*\<close>), their text form (\<open>ParseString.ct\<close>), IPv4 and
  IPv6 addresses and networks (\<open>INet4Address.*\<close>, \<open>INet6Address.*\<close>).

  An address is the list of its bytes in network order, as the classes derive from \<open>boost::array\<close>.
  \<open>boost::tokenizer\<close> and \<open>boost::numeric_cast\<close> are arguments; what is relied on is \<open>boost_spec\<close>.
  The conversions of the system library between addresses and text and the resolver are not modelled.
\<close>

datatype address_error = AddressSyntaxException | UndefinedShift

section \<open>Hexadecimal text\<close>

text \<open>
  What \<open>std::hex\<close> does: the output of an unsigned number, right aligned in a field of width \<open>w\<close> filled
  with \<open>0\<close>, and the extraction of an \<open>unsigned long\<close> that has to take up the whole text
  (\<open>senf::lexical_cast\<close>, white space is not skipped): an optional sign, an optional prefix, digits.
\<close>

definition hex_char :: "nat \<Rightarrow> char" where
  "hex_char n = ''0123456789abcdef'' ! n"

fun hex_str :: "nat \<Rightarrow> string" where
  "hex_str n = (if n < 16 then [hex_char n] else hex_str (n div 16) @ [hex_char (n mod 16)])"

declare hex_str.simps [simp del]

definition put_hex :: "nat \<Rightarrow> nat \<Rightarrow> string" where
  "put_hex w n = replicate (w - length (hex_str n)) CHR ''0'' @ hex_str n"

definition hex_digit :: "char \<Rightarrow> nat option" where
  "hex_digit c = map_of (zip ''0123456789abcdefABCDEF'' ([0..<16] @ [10..<16])) c"

fun hex_value :: "nat \<Rightarrow> string \<Rightarrow> nat option" where
  "hex_value acc [] = Some acc"
| "hex_value acc (c # cs) = (case hex_digit c of None \<Rightarrow> None | Some d \<Rightarrow> hex_value (16 * acc + d) cs)"

fun skip_prefix :: "string \<Rightarrow> string" where
  "skip_prefix (c # d # cs) = (if c = CHR ''0'' \<and> (d = CHR ''x'' \<or> d = CHR ''X'') then cs else c # d # cs)"
| "skip_prefix cs = cs"

definition hex_digits :: "string \<Rightarrow> nat option" where
  "hex_digits s =
     (let t = skip_prefix s
      in if t = [] then None
         else case hex_value 0 t of None \<Rightarrow> None | Some v \<Rightarrow> if v < 2 ^ 64 then Some v else None)"

fun get_hex :: "string \<Rightarrow> nat option" where
  "get_hex (c # cs) =
     (if c = CHR ''+'' then hex_digits cs
      else if c = CHR ''-'' then map_option (\<lambda>v. (2 ^ 64 - v) mod 2 ^ 64) (hex_digits cs)
      else hex_digits (c # cs))"
| "get_hex [] = None"

text \<open>
  The two functions of Boost: splitting at separators, where empty tokens are dropped, and the
  conversion to a byte, which fails when the value does not fit.
\<close>

type_synonym tokenizer = "string \<Rightarrow> string \<Rightarrow> string list"

definition boost_spec :: "tokenizer \<Rightarrow> (nat \<Rightarrow> byte option) \<Rightarrow> bool" where
  "boost_spec tokens ncast \<longleftrightarrow>
     (\<forall>seps. tokens seps [] = []) \<and>
     (\<forall>seps c s. c \<in> set seps \<longrightarrow> tokens seps (c # s) = tokens seps s) \<and>
     (\<forall>seps t. t \<noteq> [] \<and> set t \<inter> set seps = {} \<longrightarrow> tokens seps t = [t]) \<and>
     (\<forall>seps t c s. t \<noteq> [] \<and> set t \<inter> set seps = {} \<and> c \<in> set seps \<longrightarrow> tokens seps (t @ c # s) = t # tokens seps s) \<and>
     (\<forall>v. ncast v = (if v < 256 then Some (of_nat v) else None))"

text \<open>The loop over the tokens and the \<open>n\<close> elements of the array.\<close>

fun parse_tokens :: "(nat \<Rightarrow> byte option) \<Rightarrow> string list \<Rightarrow> nat \<Rightarrow> address_error + byte list" where
  "parse_tokens ncast [] 0 = Inr []"
| "parse_tokens ncast [] (Suc n) = Inl AddressSyntaxException"
| "parse_tokens ncast (t # ts) 0 = Inl AddressSyntaxException"
| "parse_tokens ncast (t # ts) (Suc n) =
     (case Option.bind (get_hex t) ncast of None \<Rightarrow> Inl AddressSyntaxException
      | Some b \<Rightarrow> map_sum id ((#) b) (parse_tokens ncast ts n))"

definition parseHexString :: "tokenizer \<Rightarrow> (nat \<Rightarrow> byte option) \<Rightarrow> string \<Rightarrow> string \<Rightarrow> nat \<Rightarrow> address_error + byte list" where
  "parseHexString tokens ncast s seps n = parse_tokens ncast (tokens seps s) n"

section \<open>MAC addresses and EUI-64\<close>

definition MAC_from_string :: "tokenizer \<Rightarrow> (nat \<Rightarrow> byte option) \<Rightarrow> string \<Rightarrow> address_error + byte list" where
  "MAC_from_string tokens ncast s = parseHexString tokens ncast s '':-'' 6"

fun put_mac :: "byte list \<Rightarrow> string" where
  "put_mac [] = []"
| "put_mac [b] = put_hex 2 (unat b)"
| "put_mac (b # c # bs) = put_hex 2 (unat b) @ CHR '':'' # put_mac (c # bs)"

definition MAC_from_eui64 :: "byte list \<Rightarrow> address_error + byte list" where
  "MAC_from_eui64 eui =
     (if eui ! 3 \<noteq> 0xff \<or> eui ! 4 \<noteq> 0xfe then Inl AddressSyntaxException
      else Inr [eui ! 0, eui ! 1, eui ! 2, eui ! 5, eui ! 6, eui ! 7])"

definition MAC_of_uint64 :: "u64 \<Rightarrow> byte list" where
  "MAC_of_uint64 v = [ucast (drop_bit 40 v), ucast (drop_bit 32 v), ucast (drop_bit 24 v), ucast (drop_bit 16 v),
     ucast (drop_bit 8 v), ucast v]"

definition MAC_uint64 :: "byte list \<Rightarrow> u64" where
  "MAC_uint64 m = push_bit 40 (ucast (m ! 0)) OR push_bit 32 (ucast (m ! 1)) OR push_bit 24 (ucast (m ! 2))
     OR push_bit 16 (ucast (m ! 3)) OR push_bit 8 (ucast (m ! 4)) OR ucast (m ! 5)"

definition MAC_eui64 :: "byte list \<Rightarrow> u64" where
  "MAC_eui64 m = push_bit 56 (ucast (m ! 0)) OR push_bit 48 (ucast (m ! 1)) OR push_bit 40 (ucast (m ! 2))
     OR push_bit 24 0xfffe OR push_bit 16 (ucast (m ! 3)) OR push_bit 8 (ucast (m ! 4)) OR ucast (m ! 5)"

definition MAC_set_local :: "bool \<Rightarrow> byte list \<Rightarrow> byte list" where
  "MAC_set_local flag m = (if flag then m[0 := m ! 0 OR 2] else m[0 := m ! 0 AND NOT 2])"

definition MAC_set_multicast :: "bool \<Rightarrow> byte list \<Rightarrow> byte list" where
  "MAC_set_multicast flag m = (if flag then m[0 := m ! 0 OR 1] else m[0 := m ! 0 AND NOT 1])"

definition MAC_local :: "byte list \<Rightarrow> bool" where
  "MAC_local m \<longleftrightarrow> m ! 0 AND 2 \<noteq> 0"

definition MAC_multicast :: "byte list \<Rightarrow> bool" where
  "MAC_multicast m \<longleftrightarrow> m ! 0 AND 1 \<noteq> 0"

definition MAC_broadcast :: "byte list \<Rightarrow> bool" where
  "MAC_broadcast m \<longleftrightarrow> find (\<lambda>b. b \<noteq> 0xff) m = None"

definition MAC_boolean_test :: "byte list \<Rightarrow> bool" where
  "MAC_boolean_test m \<longleftrightarrow> find (\<lambda>b. b \<noteq> 0) m \<noteq> None"

definition EUI64_from_string :: "tokenizer \<Rightarrow> (nat \<Rightarrow> byte option) \<Rightarrow> string \<Rightarrow> address_error + byte list" where
  "EUI64_from_string tokens ncast s = parseHexString tokens ncast s '':-'' 8"

definition put_eui64 :: "byte list \<Rightarrow> string" where
  "put_eui64 e =
     put_hex 2 (unat (e ! 0)) @ CHR '':'' # put_hex 2 (unat (e ! 1)) @ CHR '':'' # put_hex 2 (unat (e ! 2)) @ CHR '':'' #
     put_hex 2 (unat (e ! 3)) @ CHR ''-'' # put_hex 2 (unat (e ! 4)) @ CHR '':'' # put_hex 2 (unat (e ! 5)) @ CHR '':'' #
     put_hex 2 (unat (e ! 6)) @ CHR '':'' # put_hex 2 (unat (e ! 7))"

definition EUI64_of_uint64 :: "u64 \<Rightarrow> byte list" where
  "EUI64_of_uint64 v = [ucast (drop_bit 56 v AND 0xff), ucast (drop_bit 48 v AND 0xff), ucast (drop_bit 40 v AND 0xff),
     ucast (drop_bit 32 v AND 0xff), ucast (drop_bit 24 v AND 0xff), ucast (drop_bit 16 v AND 0xff),
     ucast (drop_bit 8 v AND 0xff), ucast (v AND 0xff)]"

definition EUI64_from_mac :: "byte list \<Rightarrow> byte list" where
  "EUI64_from_mac mac = [mac ! 0, mac ! 1, mac ! 2, 0xff, 0xfe, mac ! 3, mac ! 4, mac ! 5]"

definition EUI64_isMACCompatible :: "byte list \<Rightarrow> bool" where
  "EUI64_isMACCompatible e \<longleftrightarrow> e ! 3 = 0xff \<and> e ! 4 = 0xfe"

definition EUI64_uint64 :: "byte list \<Rightarrow> u64" where
  "EUI64_uint64 e = push_bit 56 (ucast (e ! 0)) OR push_bit 48 (ucast (e ! 1)) OR push_bit 40 (ucast (e ! 2))
     OR push_bit 32 (ucast (e ! 3)) OR push_bit 24 (ucast (e ! 4)) OR push_bit 16 (ucast (e ! 5))
     OR push_bit 8 (ucast (e ! 6)) OR ucast (e ! 7)"

definition EUI64_local :: "byte list \<Rightarrow> bool" where
  "EUI64_local e \<longleftrightarrow> e ! 0 AND 2 \<noteq> 0"

definition EUI64_group :: "byte list \<Rightarrow> bool" where
  "EUI64_group e \<longleftrightarrow> e ! 0 AND 1 \<noteq> 0"

definition EUI64_boolean_test :: "byte list \<Rightarrow> bool" where
  "EUI64_boolean_test e \<longleftrightarrow> find (\<lambda>b. b \<noteq> 0) e \<noteq> None"

definition MAC_eq_EUI64 :: "byte list \<Rightarrow> byte list \<Rightarrow> bool" where
  "MAC_eq_EUI64 mac e \<longleftrightarrow> EUI64_isMACCompatible e \<and> take 3 e = take 3 mac \<and> drop 5 e = take (length e - 5) (drop 3 mac)"

text \<open>A printed byte has two digits and is read back.\<close>

lemma hex_digit_char: "n < 16 \<Longrightarrow> hex_digit (hex_char n) = Some n"
proof -
  have "list_all (\<lambda>n. hex_digit (hex_char n) = Some n) [0..<16]"
    by (simp add: hex_digit_def hex_char_def upt_rec)
  then show "n < 16 \<Longrightarrow> hex_digit (hex_char n) = Some n" by (simp add: list_all_iff)
qed

lemma hex_char_no_sep: "n < 16 \<Longrightarrow> hex_char n \<notin> set '':-+xX''"
proof -
  have "list_all (\<lambda>n. hex_char n \<notin> set '':-+xX'') [0..<16]" by (simp add: hex_char_def upt_rec)
  then show "n < 16 \<Longrightarrow> hex_char n \<notin> set '':-+xX''" by (simp add: list_all_iff)
qed

lemma put_hex_byte: "n < 256 \<Longrightarrow> put_hex 2 n = [hex_char (n div 16), hex_char (n mod 16)]"
proof (cases "n < 16")
  case True
  then show ?thesis by (simp add: put_hex_def hex_str.simps) (simp add: hex_char_def)
next
  case False
  assume "n < 256"
  then have "hex_str n = [hex_char (n div 16), hex_char (n mod 16)]" using False hex_str.simps [of n] hex_str.simps [of "n div 16"] by auto
  then show ?thesis by (simp add: put_hex_def)
qed

lemma get_put_hex: "n < 256 \<Longrightarrow> get_hex (put_hex 2 n) = Some n"
proof -
  assume n: "n < 256"
  have d: "n div 16 < 16" "n mod 16 < 16" using n by auto
  have c: "hex_char (n div 16) \<noteq> CHR ''+''" "hex_char (n div 16) \<noteq> CHR ''-''" "hex_char (n mod 16) \<noteq> CHR ''x''" "hex_char (n mod 16) \<noteq> CHR ''X''"
    using hex_char_no_sep [OF d(1)] hex_char_no_sep [OF d(2)] by auto
  have "hex_value 0 [hex_char (n div 16), hex_char (n mod 16)] = Some n" using hex_digit_char [OF d(1)] hex_digit_char [OF d(2)] by simp
  then show ?thesis using n c by (simp add: put_hex_byte hex_digits_def)
qed

lemma put_hex_token: "n < 256 \<Longrightarrow> put_hex 2 n \<noteq> [] \<and> set (put_hex 2 n) \<inter> set '':-'' = {}"
  using hex_char_no_sep [of "n div 16"] hex_char_no_sep [of "n mod 16"] by (auto simp: put_hex_byte)

lemma unat_byte: "unat (b :: byte) < 256"
proof -
  have "unat b < 2 ^ LENGTH(8)" by (rule unsigned_less)
  then show ?thesis by simp
qed

lemma parse_printed_bytes:
  assumes "boost_spec tokens ncast"
  shows "parse_tokens ncast (map (\<lambda>b. put_hex 2 (unat b)) bs) (length bs) = Inr bs"
proof (induction bs)
  case (Cons b bs)
  have "ncast (unat b) = Some b" using assms unat_byte [of b] by (simp add: boost_spec_def)
  then show ?case using Cons get_put_hex [OF unat_byte, of b] by simp
qed simp

lemma tokens_step:
  assumes "boost_spec tokens ncast" "c \<in> set '':-''"
  shows "tokens '':-'' (put_hex 2 (unat (b :: byte)) @ c # s) = put_hex 2 (unat b) # tokens '':-'' s"
    and "tokens '':-'' (put_hex 2 (unat b)) = [put_hex 2 (unat b)]"
  using assms put_hex_token [OF unat_byte, of b] unfolding boost_spec_def by blast+

lemma tokens_put_mac:
  assumes "boost_spec tokens ncast"
  shows "tokens '':-'' (put_mac bs) = map (\<lambda>b. put_hex 2 (unat b)) bs"
proof (induction bs rule: put_mac.induct)
  case 1
  then show ?case using assms by (simp add: boost_spec_def)
next
  case (2 b)
  then show ?case using tokens_step(2) [OF assms, of "CHR '':''"] by simp
next
  case (3 b c bs)
  then show ?case using tokens_step(1) [OF assms, of "CHR '':''" b] by simp
qed

lemma eight_bytes: "length e = 8 \<Longrightarrow> e = [e ! 0, e ! 1, e ! 2, e ! 3, e ! 4, e ! 5, e ! 6, e ! 7]"
  by (rule nth_equalityI) (auto simp: less_Suc_eq numeral_eq_Suc)

lemma tokens_put_eui64:
  assumes "boost_spec tokens ncast" "length e = 8"
  shows "tokens '':-'' (put_eui64 e) = map (\<lambda>b. put_hex 2 (unat b)) e"
proof -
  note t = tokens_step [OF assms(1), of "CHR '':''"] tokens_step [OF assms(1), of "CHR ''-''"]
  have m: "map (\<lambda>b. put_hex 2 (unat b)) e = map (\<lambda>b. put_hex 2 (unat b)) [e ! 0, e ! 1, e ! 2, e ! 3, e ! 4, e ! 5, e ! 6, e ! 7]"
    by (rule arg_cong [OF eight_bytes [OF assms(2)]])
  show ?thesis unfolding m put_eui64_def by (simp add: t)
qed

text \<open>
  The text of a MAC address and of an EUI-64 is read back as the same address: every byte is printed
  with two hexadecimal digits, and the parser takes both separators.
\<close>

theorem address_text_roundtrip:
  assumes "boost_spec tokens ncast" "length mac = 6" "length eui = 8"
  shows "MAC_from_string tokens ncast (put_mac mac) = Inr mac \<and> EUI64_from_string tokens ncast (put_eui64 eui) = Inr eui"
proof -
  have "MAC_from_string tokens ncast (put_mac mac) = parse_tokens ncast (map (\<lambda>b. put_hex 2 (unat b)) mac) (length mac)"
    by (simp add: MAC_from_string_def parseHexString_def tokens_put_mac [OF assms(1)] assms(2))
  moreover have "EUI64_from_string tokens ncast (put_eui64 eui) = parse_tokens ncast (map (\<lambda>b. put_hex 2 (unat b)) eui) (length eui)"
    by (simp add: EUI64_from_string_def parseHexString_def tokens_put_eui64 [OF assms(1,3)] assms(3))
  ultimately show ?thesis by (simp only: parse_printed_bytes [OF assms(1)])
qed

text \<open>Functions with the behaviour that is relied on.\<close>

function split_tokens :: "string \<Rightarrow> string \<Rightarrow> string list" where
  "split_tokens seps [] = []"
| "split_tokens seps (c # cs) =
     (if c \<in> set seps then split_tokens seps cs
      else (c # takeWhile (\<lambda>d. d \<notin> set seps) cs) # split_tokens seps (dropWhile (\<lambda>d. d \<notin> set seps) cs))"
  by pat_completeness auto
termination
  by (relation "measure (\<lambda>(_, s). length s)") (auto simp: le_imp_less_Suc length_dropWhile_le)

lemma split_tokens_token:
  assumes "t \<noteq> []" "set t \<inter> set seps = {}"
  shows "split_tokens seps t = [t]" "c \<in> set seps \<Longrightarrow> split_tokens seps (t @ c # s) = t # split_tokens seps s"
proof -
  obtain d ds where t: "t = d # ds" using assms(1) by (cases t) auto
  have a: "takeWhile (\<lambda>d. d \<notin> set seps) ds = ds" "dropWhile (\<lambda>d. d \<notin> set seps) ds = []" using assms(2) t by auto
  show "split_tokens seps t = [t]" using assms(2) by (simp add: t a)
  assume c: "c \<in> set seps"
  have "takeWhile (\<lambda>d. d \<notin> set seps) (ds @ c # s) = ds" "dropWhile (\<lambda>d. d \<notin> set seps) (ds @ c # s) = c # s"
    using assms(2) t c by (auto simp: takeWhile_append dropWhile_append)
  then show "split_tokens seps (t @ c # s) = t # split_tokens seps s" using assms(2) c by (simp add: t)
qed

lemma boost_spec_holds: "boost_spec split_tokens (\<lambda>v. if v < 256 then Some (of_nat v) else None)"
  unfolding boost_spec_def using split_tokens_token by auto

theorem address_text_roundtrip_witness:
  "MAC_from_string split_tokens (\<lambda>v. if v < 256 then Some (of_nat v) else None) (put_mac [0, 0x1a, 0x2b, 0xff, 0x9, 0xa0]) =
     Inr [0, 0x1a, 0x2b, 0xff, 0x9, 0xa0]"
  using address_text_roundtrip [OF boost_spec_holds, of "[0, 0x1a, 0x2b, 0xff, 0x9, 0xa0]" "replicate 8 0"] by simp

text \<open>
  The text is not unique: tokens may have a prefix and any number of digits, and separators may be
  repeated.
\<close>

lemma lenient_mac_text:
  "MAC_from_string split_tokens (\<lambda>v. if v < 256 then Some (of_nat v) else None) ''::0x1-2:0003-4::+5:6-'' = Inr [1, 2, 3, 4, 5, 6]"
proof -
  have "get_hex ''0x1'' = Some 1" "get_hex ''2'' = Some 2" "get_hex ''0003'' = Some 3" "get_hex ''4'' = Some 4" "get_hex ''+5'' = Some 5"
    "get_hex ''6'' = Some 6"
    by (simp_all add: hex_digits_def hex_digit_def upt_rec)
  then have "parse_tokens (\<lambda>v. if v < 256 then Some (of_nat v) else None) [''0x1'', ''2'', ''0003'', ''4'', ''+5'', ''6'']
      (Suc (Suc (Suc (Suc (Suc (Suc 0)))))) = Inr [1, 2, 3, 4, 5, 6]"
    by (simp del: get_hex.simps)
  moreover have "Suc (Suc (Suc (Suc (Suc (Suc 0))))) = 6" by simp
  ultimately have "parse_tokens (\<lambda>v. if v < 256 then Some (of_nat v) else None) [''0x1'', ''2'', ''0003'', ''4'', ''+5'', ''6''] 6 =
      Inr [1, 2, 3, 4, 5, 6]" by (simp only:)
  then show ?thesis by (simp add: MAC_from_string_def parseHexString_def del: parse_tokens.simps)
qed

section \<open>Interface identifiers\<close>

text \<open>
  The default constructor of \<open>INet6Address\<close> gives sixteen zero bytes; \<open>from_mac\<close> and \<open>from_eui64\<close> build a
  link-local address and flip the universal/local bit.
\<close>

definition MAC_oui :: "byte list \<Rightarrow> u32" where
  "MAC_oui m = push_bit 16 (ucast (m ! 0)) OR push_bit 8 (ucast (m ! 1)) OR ucast (m ! 2)"

definition MAC_nic :: "byte list \<Rightarrow> u32" where
  "MAC_nic m = push_bit 16 (ucast (m ! 3)) OR push_bit 8 (ucast (m ! 4)) OR ucast (m ! 5)"

definition INet6_from_mac :: "byte list \<Rightarrow> byte list" where
  "INet6_from_mac mac = (replicate 16 0)[0 := 0xfe, 1 := 0x80, 8 := mac ! 0 XOR 2, 9 := mac ! 1, 10 := mac ! 2, 11 := 0xff,
     12 := 0xfe, 13 := mac ! 3, 14 := mac ! 4, 15 := mac ! 5]"

definition INet6_from_eui64 :: "byte list \<Rightarrow> byte list" where
  "INet6_from_eui64 eui = take 9 ((replicate 16 0)[0 := 0xfe, 1 := 0x80, 8 := eui ! 0 XOR 2]) @ drop 1 eui"

definition INet6_id :: "byte list \<Rightarrow> byte list" where
  "INet6_id addr = take 8 (drop 8 addr)"

definition INet6_universalId :: "byte list \<Rightarrow> bool" where
  "INet6_universalId addr \<longleftrightarrow> addr ! 8 AND 2 \<noteq> 0"

definition INet6_groupId :: "byte list \<Rightarrow> bool" where
  "INet6_groupId addr \<longleftrightarrow> addr ! 8 AND 1 \<noteq> 0"

text \<open>A test with the mask \<open>2\<close> reads bit one.\<close>

lemma and_two_iff: "w AND 2 = 0 \<longleftrightarrow> \<not> bit w 1" for w :: byte
proof -
  have "bit (2 :: byte) n \<longleftrightarrow> n = 1" for n
    using bit_push_bit_iff [of 1 "1 :: byte" n] bit_imp_le_length [of "2 :: byte" n] by (auto simp: bit_1_iff)
  then show ?thesis unfolding bit_eq_iff [of "w AND 2"] by (simp only: bit_and_iff bit_0_eq bot_apply) auto
qed

text \<open>The numbers are the network byte order ones of the integer parsers.\<close>

lemma EUI64_uint64_net: "EUI64_uint64 e = parse_uint64 e 0"
  by (simp add: EUI64_uint64_def parse_uint64_def ac_simps numeral_2_eq_2)

lemma EUI64_of_uint64_net: "EUI64_of_uint64 v = write_uint64 (replicate 8 0) 0 v"
  by (simp add: EUI64_of_uint64_def write_uint64_def numeral_eq_Suc)

lemma MAC_uint64_net: "MAC_uint64 m = EUI64_uint64 (0 # 0 # m)"
  by (simp add: MAC_uint64_def EUI64_uint64_def numeral_eq_Suc)

lemma MAC_of_uint64_net: "MAC_of_uint64 v = drop 2 (EUI64_of_uint64 v)"
  by (simp add: MAC_of_uint64_def EUI64_of_uint64_def ucast_ff)

lemma net_uint64_roundtrip: "length e = 8 \<Longrightarrow> write_uint64 (replicate 8 0) 0 (parse_uint64 e 0) = e"
proof (rule netbit_ext)
  fix k
  assume "length e = 8"
  then show "netbit (write_uint64 (replicate 8 0) 0 (parse_uint64 e 0)) k = netbit e k"
    using net_write_uint64 [of 0 "replicate 8 0" "parse_uint64 e 0" k] net_parse_uint64 [of 0 e "63 - k"]
    by (auto simp: netbit_def)
qed simp

lemma EUI64_number_roundtrip: "length e = 8 \<Longrightarrow> EUI64_of_uint64 (EUI64_uint64 e) = e"
  by (simp add: EUI64_uint64_net EUI64_of_uint64_net net_uint64_roundtrip)

lemma MAC_number_roundtrip: "length m = 6 \<Longrightarrow> MAC_of_uint64 (MAC_uint64 m) = m"
  by (simp add: MAC_uint64_net MAC_of_uint64_net EUI64_number_roundtrip)

lemma six_bytes: "length m = 6 \<Longrightarrow> [m ! 0, m ! 1, m ! 2, m ! 3, m ! 4, m ! 5] = m"
  by (rule nth_equalityI) (auto simp: less_Suc_eq numeral_eq_Suc)

lemma MAC_eui64_number: "MAC_eui64 m = EUI64_uint64 (EUI64_from_mac m)"
proof -
  have "(0xff00000000 OR (0xfe000000 OR w)) = (0xfffe000000 OR w :: u64)" for w by (simp flip: or.assoc)
  then show ?thesis by (simp add: MAC_eui64_def EUI64_uint64_def EUI64_from_mac_def or.assoc)
qed

text \<open>
  The conversions between MAC addresses, EUI-64 identifiers, their numbers and link-local IPv6 addresses
  agree: a MAC address is recovered from its EUI-64 and from its number, an EUI-64 from its number, the
  64 bit number of a MAC address's EUI-64 is the one the address computes directly, the IPv6 address
  made from the MAC address is the one made from its EUI-64, and its interface identifier is the
  EUI-64 with the universal/local bit flipped, so that it says universal exactly for MAC addresses
  that are not local.
\<close>

theorem identifiers_agree:
  assumes "length mac = 6" "length eui = 8"
  shows "MAC_from_eui64 (EUI64_from_mac mac) = Inr mac \<and>
    MAC_of_uint64 (MAC_uint64 mac) = mac \<and>
    EUI64_of_uint64 (EUI64_uint64 eui) = eui \<and>
    EUI64_of_uint64 (MAC_eui64 mac) = EUI64_from_mac mac \<and>
    INet6_from_mac mac = INet6_from_eui64 (EUI64_from_mac mac) \<and>
    INet6_id (INet6_from_eui64 eui) = eui[0 := eui ! 0 XOR 2] \<and>
    (INet6_universalId (INet6_from_mac mac) \<longleftrightarrow> \<not> MAC_local mac)"
proof -
  have a: "MAC_from_eui64 (EUI64_from_mac mac) = Inr mac"
    using six_bytes [OF assms(1)] by (simp add: MAC_from_eui64_def EUI64_from_mac_def numeral_eq_Suc)
  have b: "EUI64_of_uint64 (MAC_eui64 mac) = EUI64_from_mac mac"
    by (simp add: MAC_eui64_number EUI64_number_roundtrip EUI64_from_mac_def)
  have c: "INet6_from_mac mac = INet6_from_eui64 (EUI64_from_mac mac)"
    by (simp add: INet6_from_mac_def INet6_from_eui64_def EUI64_from_mac_def numeral_eq_Suc)
  have d: "INet6_id (INet6_from_eui64 eui) = eui[0 := eui ! 0 XOR 2]"
    using assms(2) by (cases eui) (auto simp: INet6_id_def INet6_from_eui64_def numeral_eq_Suc)
  have e: "INet6_universalId (INet6_from_mac mac) \<longleftrightarrow> \<not> MAC_local mac"
    by (simp add: INet6_universalId_def INet6_from_mac_def MAC_local_def and_two_iff bit_xor_iff)
  show ?thesis using a b c d e assms by (simp add: EUI64_number_roundtrip MAC_number_roundtrip)
qed

text \<open>A MAC address is equal to an EUI-64 exactly if it is the one the address converts to.\<close>

lemma MAC_eq_EUI64_iff:
  assumes "length mac = 6" "length e = 8"
  shows "MAC_eq_EUI64 mac e \<longleftrightarrow> e = EUI64_from_mac mac"
proof -
  have m: "mac = [mac ! 0, mac ! 1, mac ! 2, mac ! 3, mac ! 4, mac ! 5]" using six_bytes [OF assms(1)] by simp
  have e: "e = [e ! 0, e ! 1, e ! 2, e ! 3, e ! 4, e ! 5, e ! 6, e ! 7]" by (rule eight_bytes [OF assms(2)])
  have t: "take 3 mac = [mac ! 0, mac ! 1, mac ! 2]" "drop 3 mac = [mac ! 3, mac ! 4, mac ! 5]" by (subst m, simp)+
  have u: "take 3 e = [e ! 0, e ! 1, e ! 2]" "drop 5 e = [e ! 5, e ! 6, e ! 7]" by (subst e, simp)+
  show ?thesis unfolding MAC_eq_EUI64_def EUI64_isMACCompatible_def EUI64_from_mac_def t u using assms(2)
    by (subst (7) e) auto
qed

theorem identifiers_agree_witness:
  "INet6_from_mac [0, 0x1a, 0x2b, 0xff, 0x9, 0xa0] = INet6_from_eui64 (EUI64_from_mac [0, 0x1a, 0x2b, 0xff, 0x9, 0xa0])"
  using identifiers_agree [of "[0, 0x1a, 0x2b, 0xff, 0x9, 0xa0]" "replicate 8 0"] by simp

end
