(* ===== verification/Net_Networks.thy ===== *)
theory Net_Networks
  imports Net_Addresses
begin

text \<open>
  IPv4 and IPv6 addresses and networks, \<open>senf/Socket/Protocols/INet/INet4Address.*\<close> and
  \<open>INet6Address.*\<close>: the address tests, the network classes with their masks, and the matchers whose
  network is a template argument (\<open>CheckINet4Network\<close>, \<open>CheckINet6Network\<close>).

  A shift by the width of the type or more is undefined in C++: \<open>UndefinedShift\<close>. The constants
  \<open>boost::low_bits_mask_t<n>::sig_bits\<close> are an argument, \<open>sig_bits\<close>, with \<open>low_bits_spec\<close>.
\<close>

section \<open>IPv4\<close>

definition INet4_of_number :: "u32 \<Rightarrow> byte list" where
  "INet4_of_number value = write_uint32 (replicate 4 0) 0 value"

definition INet4_address :: "byte list \<Rightarrow> u32" where
  "INet4_address a = parse_uint32 a 0"

definition INet4_local :: "byte list \<Rightarrow> bool" where
  "INet4_local a \<longleftrightarrow>
     (let l = INet4_address a
      in l AND 0xFF000000 = 0x0A000000 \<or> l AND 0xFFF00000 = 0xAC100000 \<or>
         l AND 0xFFFF0000 = 0xA9FE0000 \<or> l AND 0xFFFF0000 = 0xC0A80000)"

definition INet4_loopback :: "byte list \<Rightarrow> bool" where
  "INet4_loopback a \<longleftrightarrow> INet4_address a AND 0xFF000000 = 0x7F000000"

definition INet4_multicast :: "byte list \<Rightarrow> bool" where
  "INet4_multicast a \<longleftrightarrow> INet4_address a AND 0xF0000000 = 0xE0000000"

text \<open>\<open>inaddr\<close> is the number in the byte order of the host, which does not matter for the two tests.\<close>

definition INet4_inaddr :: "byte list \<Rightarrow> u32" where
  "INet4_inaddr a = parse_uint32LSB a 0"

definition INet4_broadcast :: "byte list \<Rightarrow> bool" where
  "INet4_broadcast a \<longleftrightarrow> INet4_inaddr a = 0xFFFFFFFF"

definition INet4_boolean_test :: "byte list \<Rightarrow> bool" where
  "INet4_boolean_test a \<longleftrightarrow> INet4_inaddr a \<noteq> 0"

record inet_network =
  net_prefix_len :: nat
  net_address :: "byte list"

text \<open>\<open>1 << n\<close> on 32 bit numbers.\<close>

definition shl32 :: "u32 \<Rightarrow> nat \<Rightarrow> address_error + u32" where
  "shl32 v n = (if n < 32 then Inr (push_bit n v) else Inl UndefinedShift)"

definition INet4_mask :: "nat \<Rightarrow> address_error + u32" where
  "INet4_mask prefix_len = map_sum id (\<lambda>w. NOT (w - 1) AND 0xFFFFFFFF) (shl32 1 (32 - prefix_len))"

definition INet4_prefix_len_checked :: "nat \<Rightarrow> address_error + nat" where
  "INet4_prefix_len_checked prefix_len = (if prefix_len > 32 then Inl AddressSyntaxException else Inr prefix_len)"

definition INet4Network :: "byte list \<Rightarrow> nat \<Rightarrow> address_error + inet_network" where
  "INet4Network address prefix_len =
     (case INet4_prefix_len_checked prefix_len of Inl e \<Rightarrow> Inl e
      | Inr n \<Rightarrow>
        (case INet4_mask n of Inl e \<Rightarrow> Inl e
         | Inr m \<Rightarrow> Inr \<lparr>net_prefix_len = n, net_address = INet4_of_number (INet4_address address AND m)\<rparr>))"

definition INet4Network_boolean_test :: "inet_network \<Rightarrow> bool" where
  "INet4Network_boolean_test net \<longleftrightarrow> INet4_boolean_test (net_address net) \<or> net_prefix_len net \<noteq> 0"

definition INet4Network_match :: "inet_network \<Rightarrow> byte list \<Rightarrow> address_error + bool" where
  "INet4Network_match net addr =
     map_sum id (\<lambda>m. INet4_address addr AND m = INet4_address (net_address net)) (INet4_mask (net_prefix_len net))"

definition INet4Network_match_net :: "inet_network \<Rightarrow> inet_network \<Rightarrow> address_error + bool" where
  "INet4Network_match_net net other =
     (if net_prefix_len other \<ge> net_prefix_len net then INet4Network_match net (net_address other) else Inr False)"

definition INet4Network_host :: "inet_network \<Rightarrow> u32 \<Rightarrow> address_error + byte list" where
  "INet4Network_host net number =
     map_sum id (\<lambda>m. INet4_of_number (INet4_address (net_address net) OR (number AND NOT m))) (INet4_mask (net_prefix_len net))"

text \<open>For prefix lengths above 32 the shift count \<open>32 - prefix_len\<close> wraps around.\<close>

definition INet4Network_subnet :: "inet_network \<Rightarrow> u32 \<Rightarrow> nat \<Rightarrow> address_error + inet_network" where
  "INet4Network_subnet net number prefix_len =
     (case (if prefix_len > 32 then Inl UndefinedShift else shl32 number (32 - prefix_len)) of Inl e \<Rightarrow> Inl e
      | Inr n \<Rightarrow> (case INet4Network_host net n of Inl e \<Rightarrow> Inl e | Inr h \<Rightarrow> INet4Network h prefix_len))"

definition low_bits_spec :: "(nat \<Rightarrow> u32) \<Rightarrow> bool" where
  "low_bits_spec sig_bits \<longleftrightarrow> (\<forall>n \<le> 32. sig_bits n = mask n)"

definition CheckINet4Network_match :: "(nat \<Rightarrow> u32) \<Rightarrow> u32 \<Rightarrow> nat \<Rightarrow> byte list \<Rightarrow> bool" where
  "CheckINet4Network_match sig_bits address prefix_len addr \<longleftrightarrow>
     INet4_address addr AND NOT (sig_bits (32 - prefix_len)) = address AND NOT (sig_bits (32 - prefix_len))"

section \<open>IPv6 networks\<close>

definition low_bits_mask :: "nat \<Rightarrow> byte" where
  "low_bits_mask bits = push_bit bits 1 - 1"

text \<open>
  The function that is applied to every byte with its part of the mask may have a state; the three
  loops are \<open>apply_mask\<close>, its branch for the remaining bits and \<open>apply_rest\<close>.
\<close>

fun apply_rest :: "('s \<Rightarrow> byte \<Rightarrow> byte \<Rightarrow> byte \<times> 's) \<Rightarrow> 's \<Rightarrow> byte list \<Rightarrow> byte list" where
  "apply_rest fn s [] = []"
| "apply_rest fn s (b # bs) = (case fn s b 0 of (b', s') \<Rightarrow> b' # apply_rest fn s' bs)"

fun apply_mask :: "('s \<Rightarrow> byte \<Rightarrow> byte \<Rightarrow> byte \<times> 's) \<Rightarrow> nat \<Rightarrow> 's \<Rightarrow> byte list \<Rightarrow> byte list" where
  "apply_mask fn bits s [] = []"
| "apply_mask fn bits s (b # bs) =
     (if bits > 8 then case fn s b 0xff of (b', s') \<Rightarrow> b' # apply_mask fn (bits - 8) s' bs
      else if bits > 0 then case fn s b (NOT (low_bits_mask (8 - bits))) of (b', s') \<Rightarrow> b' # apply_rest fn s' bs
      else apply_rest fn s (b # bs))"

text \<open>
  \<open>find_if_mask\<close> gives the position it returns; \<open>None\<close> is an iterator moved past the end, since the last
  loop starts with an increment.
\<close>

fun find_rest :: "(byte \<Rightarrow> byte \<Rightarrow> byte \<Rightarrow> bool) \<Rightarrow> nat \<Rightarrow> byte list \<Rightarrow> byte list \<Rightarrow> nat" where
  "find_rest fn i (b # bs) (c # cs) = (if fn b c 0 then i else find_rest fn (i + 1) bs cs)"
| "find_rest fn i bs cs = i"

fun find_if_mask :: "(byte \<Rightarrow> byte \<Rightarrow> byte \<Rightarrow> bool) \<Rightarrow> nat \<Rightarrow> nat \<Rightarrow> byte list \<Rightarrow> byte list \<Rightarrow> nat option" where
  "find_if_mask fn bits i (b # bs) (c # cs) =
     (if bits > 8 then if fn b c 0xff then Some i else find_if_mask fn (bits - 8) (i + 1) bs cs
      else if bits > 0 \<and> fn b c (NOT (low_bits_mask (8 - bits))) then Some i
      else Some (find_rest fn (i + 1) bs cs))"
| "find_if_mask fn bits i bs cs = None"

definition INet6_prefix_len_checked :: "nat \<Rightarrow> address_error + nat" where
  "INet6_prefix_len_checked prefix_len = (if prefix_len > 128 then Inl AddressSyntaxException else Inr prefix_len)"

definition INet6Network :: "byte list \<Rightarrow> nat \<Rightarrow> address_error + inet_network" where
  "INet6Network address prefix_len =
     map_sum id (\<lambda>n. \<lparr>net_prefix_len = n, net_address = apply_mask (\<lambda>s b m. (b AND m, s)) n () address\<rparr>)
       (INet6_prefix_len_checked prefix_len)"

definition INet6_boolean_test :: "byte list \<Rightarrow> bool" where
  "INet6_boolean_test a \<longleftrightarrow> find (\<lambda>b. b \<noteq> 0) a \<noteq> None"

definition INet6Network_boolean_test :: "inet_network \<Rightarrow> bool" where
  "INet6Network_boolean_test net \<longleftrightarrow> net_prefix_len net \<noteq> 0 \<and> INet6_boolean_test (net_address net)"

definition INet6Network_match :: "inet_network \<Rightarrow> byte list \<Rightarrow> bool option" where
  "INet6Network_match net addr =
     map_option (\<lambda>i. i = length (net_address net))
       (find_if_mask (\<lambda>b c m. b \<noteq> c AND m) (net_prefix_len net) 0 (net_address net) addr)"

definition INet6Network_match_net :: "inet_network \<Rightarrow> inet_network \<Rightarrow> bool option" where
  "INet6Network_match_net net other =
     (if net_prefix_len other \<ge> net_prefix_len net then INet6Network_match net (net_address other) else Some False)"

definition INet6_set_network :: "u64 \<Rightarrow> byte list \<Rightarrow> byte list" where
  "INet6_set_network net a = a[0 := ucast (drop_bit 56 net), 1 := ucast (drop_bit 48 net), 2 := ucast (drop_bit 40 net),
     3 := ucast (drop_bit 32 net), 4 := ucast (drop_bit 24 net), 5 := ucast (drop_bit 16 net), 6 := ucast (drop_bit 8 net),
     7 := ucast net]"

definition INet6_set_id :: "u64 \<Rightarrow> byte list \<Rightarrow> byte list" where
  "INet6_set_id i a = a[8 := ucast (drop_bit 56 i), 9 := ucast (drop_bit 48 i), 10 := ucast (drop_bit 40 i),
     11 := ucast (drop_bit 32 i), 12 := ucast (drop_bit 24 i), 13 := ucast (drop_bit 16 i), 14 := ucast (drop_bit 8 i),
     15 := ucast i]"

definition INet6_network :: "byte list \<Rightarrow> address_error + inet_network" where
  "INet6_network a = INet6Network a 64"

definition INet6Network_host :: "inet_network \<Rightarrow> u64 \<Rightarrow> byte list" where
  "INet6Network_host net i = INet6_set_id i (net_address net)"

definition INet6Network_subnet :: "inet_network \<Rightarrow> u64 \<Rightarrow> nat \<Rightarrow> address_error + inet_network" where
  "INet6Network_subnet net number prefix_len =
     (if prefix_len > 64 \<or> prefix_len = 0 then Inl UndefinedShift
      else INet6Network
        (apply_mask (\<lambda>n b m. (b OR (ucast (drop_bit 56 n) AND m), push_bit 8 n)) prefix_len
           (push_bit (64 - prefix_len) number) (net_address net)) prefix_len)"

section \<open>IPv6 networks as template arguments\<close>

text \<open>
  The template arguments are numbers of type \<open>unsigned\<close>; \<open>None\<close> is a combination without a definition of
  \<open>match\<close>, which does not compile.
\<close>

definition CheckINet6Network_impl5 :: "(nat \<Rightarrow> u32) \<Rightarrow> u32 \<Rightarrow> nat \<Rightarrow> nat \<Rightarrow> byte \<Rightarrow> byte \<Rightarrow> bool option" where
  "CheckINet6Network_impl5 sig_bits a bytes restbits v0 v1 =
     (if bytes = 0 \<and> restbits = 0 then Some True
      else if bytes = 0 then
        Some (ucast v0 AND NOT (sig_bits (8 - restbits)) = ucast (ucast (drop_bit 8 a) :: byte) AND NOT (sig_bits (8 - restbits)))
      else if bytes = 1 \<and> restbits = 0 then Some (v0 = ucast (drop_bit 8 a))
      else if bytes = 1 then
        Some (v0 = ucast (drop_bit 8 a) \<and>
          ucast v1 AND NOT (sig_bits (8 - restbits)) = ucast (ucast a :: byte) AND NOT (sig_bits (8 - restbits)))
      else None)"

definition CheckINet6Network_impl4 :: "(nat \<Rightarrow> u32) \<Rightarrow> u32 \<Rightarrow> nat \<Rightarrow> byte \<Rightarrow> byte \<Rightarrow> bool option" where
  "CheckINet6Network_impl4 sig_bits a bits v0 v1 = CheckINet6Network_impl5 sig_bits a (bits div 8) (bits mod 8) v0 v1"

text \<open>The comparison of two bytes with a template argument.\<close>

definition eq16 :: "byte list \<Rightarrow> nat \<Rightarrow> u32 \<Rightarrow> bool" where
  "eq16 addr i a \<longleftrightarrow> addr ! i = ucast (drop_bit 8 a) \<and> addr ! (i + 1) = ucast a"

definition and_then :: "bool \<Rightarrow> bool option \<Rightarrow> bool option" where
  "and_then c r = map_option (\<lambda>d. c \<and> d) r"

definition CheckINet6Network_impl3 :: "(nat \<Rightarrow> u32) \<Rightarrow> u32 list \<Rightarrow> nat \<Rightarrow> nat \<Rightarrow> byte list \<Rightarrow> bool option" where
  "CheckINet6Network_impl3 sig_bits a words r addr =
     (if words = 0 then CheckINet6Network_impl4 sig_bits (a ! 0) r (addr ! 0) (addr ! 1)
      else if words = 1 then
        and_then (eq16 addr 0 (a ! 0)) (CheckINet6Network_impl4 sig_bits (a ! 1) r (addr ! 2) (addr ! 3))
      else if words = 2 then
        and_then (eq16 addr 0 (a ! 0) \<and> eq16 addr 2 (a ! 1)) (CheckINet6Network_impl4 sig_bits (a ! 1) r (addr ! 4) (addr ! 5))
      else if words = 3 then
        and_then (eq16 addr 0 (a ! 0) \<and> eq16 addr 2 (a ! 1) \<and> eq16 addr 4 (a ! 2))
          (CheckINet6Network_impl4 sig_bits (a ! 3) r (addr ! 6) (addr ! 7))
      else if words = 4 then
        and_then (eq16 addr 0 (a ! 0) \<and> eq16 addr 2 (a ! 1) \<and> eq16 addr 4 (a ! 2) \<and> eq16 addr 6 (a ! 3))
          (CheckINet6Network_impl4 sig_bits (a ! 4) r (addr ! 8) (addr ! 9))
      else if words = 5 then
        and_then (eq16 addr 0 (a ! 0) \<and> eq16 addr 2 (a ! 1) \<and> eq16 addr 4 (a ! 2) \<and> eq16 addr 6 (a ! 3) \<and> eq16 addr 8 (a ! 4))
          (CheckINet6Network_impl4 sig_bits (a ! 5) r (addr ! 10) (addr ! 11))
      else if words = 6 then
        and_then (eq16 addr 0 (a ! 0) \<and> eq16 addr 2 (a ! 1) \<and> eq16 addr 4 (a ! 2) \<and> eq16 addr 6 (a ! 3) \<and> eq16 addr 8 (a ! 4) \<and>
            eq16 addr 10 (a ! 5))
          (CheckINet6Network_impl4 sig_bits (a ! 6) r (addr ! 12) (addr ! 13))
      else if words = 7 then
        and_then (eq16 addr 0 (a ! 0) \<and> eq16 addr 2 (a ! 1) \<and> eq16 addr 4 (a ! 2) \<and> eq16 addr 6 (a ! 3) \<and> eq16 addr 8 (a ! 4) \<and>
            eq16 addr 10 (a ! 5) \<and> eq16 addr 12 (a ! 6))
          (CheckINet6Network_impl4 sig_bits (a ! 7) r (addr ! 14) (addr ! 15))
      else None)"

definition CheckINet6Network_impl2 :: "(nat \<Rightarrow> u32) \<Rightarrow> u32 list \<Rightarrow> nat \<Rightarrow> byte list \<Rightarrow> bool option" where
  "CheckINet6Network_impl2 sig_bits a bits addr = CheckINet6Network_impl3 sig_bits a (bits div 16) (bits mod 16) addr"

text \<open>The last argument that is not zero is the prefix length; the most special template is taken.\<close>

definition CheckINet6Network_impl :: "(nat \<Rightarrow> u32) \<Rightarrow> u32 list \<Rightarrow> byte list \<Rightarrow> bool option" where
  "CheckINet6Network_impl sig_bits a addr =
     (case find (\<lambda>j. a ! j \<noteq> 0) [8, 7, 6, 5, 4, 3, 2] of
        Some j \<Rightarrow> CheckINet6Network_impl2 sig_bits (take j a @ replicate (8 - j) 0) (unat (a ! j)) addr
      | None \<Rightarrow> CheckINet6Network_impl2 sig_bits (take 1 a @ replicate 7 0) (unat (a ! 1)) addr)"

section \<open>IPv6 addresses\<close>

definition INet6_words :: "u16 list \<Rightarrow> byte list" where
  "INet6_words a = [ucast (drop_bit 8 (a ! 0)), ucast (a ! 0), ucast (drop_bit 8 (a ! 1)), ucast (a ! 1),
     ucast (drop_bit 8 (a ! 2)), ucast (a ! 2), ucast (drop_bit 8 (a ! 3)), ucast (a ! 3),
     ucast (drop_bit 8 (a ! 4)), ucast (a ! 4), ucast (drop_bit 8 (a ! 5)), ucast (a ! 5),
     ucast (drop_bit 8 (a ! 6)), ucast (a ! 6), ucast (drop_bit 8 (a ! 7)), ucast (a ! 7)]"

definition INet6_from_inet4address :: "byte list \<Rightarrow> byte list" where
  "INet6_from_inet4address addr4 = take 12 ((replicate 16 0)[10 := 0xff, 11 := 0xff]) @ addr4"

definition INet6_inet4address :: "byte list \<Rightarrow> byte list" where
  "INet6_inet4address a = take 4 (drop 12 a)"

definition INet6_inet4Mapped :: "(nat \<Rightarrow> u32) \<Rightarrow> byte list \<Rightarrow> bool" where
  "INet6_inet4Mapped sig_bits a \<longleftrightarrow> CheckINet6Network_impl sig_bits [0, 0, 0, 0, 0, 0xFFFF, 96, 0, 0] a = Some True"

definition INet6_inet4Compatible :: "(nat \<Rightarrow> u32) \<Rightarrow> byte list \<Rightarrow> bool" where
  "INet6_inet4Compatible sig_bits a \<longleftrightarrow> CheckINet6Network_impl sig_bits [0, 96, 0, 0, 0, 0, 0, 0, 0] a = Some True"

definition INet6_multicast :: "(nat \<Rightarrow> u32) \<Rightarrow> byte list \<Rightarrow> bool" where
  "INet6_multicast sig_bits a \<longleftrightarrow> a ! 0 = 0xFF \<or> INet6_inet4Mapped sig_bits a \<and> INet4_multicast (INet6_inet4address a)"

definition INet6_unicast :: "(nat \<Rightarrow> u32) \<Rightarrow> byte list \<Rightarrow> bool" where
  "INet6_unicast sig_bits a \<longleftrightarrow> \<not> INet6_multicast sig_bits a"

datatype ScopeId = InterfaceScope | LinkScope | AdminScope | SiteScope | OrganizationScope | GlobalScope | ReservedScope | UnassignedScope

definition scopeMap :: "ScopeId list" where
  "scopeMap = [ReservedScope, InterfaceScope, LinkScope, ReservedScope, AdminScope, SiteScope, UnassignedScope, UnassignedScope,
     OrganizationScope, UnassignedScope, UnassignedScope, UnassignedScope, UnassignedScope, UnassignedScope, GlobalScope, ReservedScope]"

definition INet6_scope :: "(nat \<Rightarrow> u32) \<Rightarrow> byte list \<Rightarrow> ScopeId" where
  "INet6_scope sig_bits a =
     (if INet6_multicast sig_bits a then scopeMap ! unat (a ! 1 AND 0x0F)
      else if a ! 0 = 0xFE then
        (if a ! 1 AND 0xC0 = 0x80 then LinkScope else if a ! 1 AND 0xC0 = 0xC0 then SiteScope else GlobalScope)
      else GlobalScope)"

definition INet6_hasEUI64 :: "(nat \<Rightarrow> u32) \<Rightarrow> byte list \<Rightarrow> bool" where
  "INet6_hasEUI64 sig_bits a \<longleftrightarrow> INet6_unicast sig_bits a \<and> a ! 0 AND 0xE0 \<noteq> 0"

definition INet6_globalScope :: "(nat \<Rightarrow> u32) \<Rightarrow> byte list \<Rightarrow> bool" where
  "INet6_globalScope sig_bits a \<longleftrightarrow> INet6_scope sig_bits a = GlobalScope"

definition INet6_linkScope :: "(nat \<Rightarrow> u32) \<Rightarrow> byte list \<Rightarrow> bool" where
  "INet6_linkScope sig_bits a \<longleftrightarrow> INet6_scope sig_bits a = LinkScope"

definition INet6_globalMulticastAddr :: "(nat \<Rightarrow> u32) \<Rightarrow> byte list \<Rightarrow> bool" where
  "INet6_globalMulticastAddr sig_bits a \<longleftrightarrow> INet6_multicast sig_bits a \<and> a ! 1 AND 0x10 = 0"

definition INet6_prefixMulticastAddr :: "(nat \<Rightarrow> u32) \<Rightarrow> byte list \<Rightarrow> bool" where
  "INet6_prefixMulticastAddr sig_bits a \<longleftrightarrow> INet6_multicast sig_bits a \<and> a ! 1 AND 0x20 \<noteq> 0"

definition INet6_embeddedRpAddr :: "(nat \<Rightarrow> u32) \<Rightarrow> byte list \<Rightarrow> bool" where
  "INet6_embeddedRpAddr sig_bits a \<longleftrightarrow> INet6_multicast sig_bits a \<and> a ! 1 AND 0x40 \<noteq> 0"

section \<open>Prefixes\<close>

text \<open>\<open>same_prefix n\<close>: the first \<open>n\<close> bits on the network are equal.\<close>

definition same_prefix :: "nat \<Rightarrow> byte list \<Rightarrow> byte list \<Rightarrow> bool" where
  "same_prefix n a b \<longleftrightarrow> (\<forall>k<n. netbit a k = netbit b k)"

lemma netbit_Cons: "netbit (b # bs) k \<longleftrightarrow> (if k < 8 then bit b (7 - k) else netbit bs (k - 8))"
proof (cases "k < 8")
  case False
  then obtain j where "k = 8 + j" using le_Suc_ex not_less by blast
  moreover have "(8 + j) div 8 = Suc (j div 8)" by simp
  ultimately show ?thesis by (simp add: netbit_def)
qed (simp add: netbit_def)

lemma low_bits_mask_mask: "low_bits_mask n = mask n"
  by (simp add: low_bits_mask_def mask_eq_exp_minus_1 push_bit_eq_mult)

lemma bit_high_mask: "k < 8 \<Longrightarrow> n \<le> 8 \<Longrightarrow> bit (NOT (mask (8 - n)) :: byte) (7 - k) \<longleftrightarrow> k < n"
  by (auto simp: bit_not_iff bit_mask_iff)

lemma byte_eq_bits: "b = c \<longleftrightarrow> (\<forall>k<8. bit b (7 - k) = bit c (7 - k))" for b c :: byte
proof
  assume a: "\<forall>k<8. bit b (7 - k) = bit c (7 - k)"
  show "b = c"
  proof (rule bit_word_eqI)
    fix n
    assume "n < LENGTH(8)"
    then show "bit b n = bit c n" using a [rule_format, of "7 - n"] by simp
  qed
qed simp

lemma and_ff [simp]: "b AND 0xff = b" for b :: byte
  by (rule bit_word_eqI) (simp only: bit_and_iff bit_ff, simp)

lemma netbit_apply_rest: "netbit (apply_rest (\<lambda>s b m. (b AND m, s)) s bs) k \<longleftrightarrow> False"
  by (induction bs arbitrary: s k) (simp_all add: netbit_Cons, simp add: netbit_def)

lemma length_apply_rest [simp]: "length (apply_rest fn s bs) = length bs"
  by (induction fn s bs rule: apply_rest.induct) (simp_all split: prod.split)

lemma length_apply_mask [simp]: "length (apply_mask fn n s bs) = length bs"
  by (induction fn n s bs rule: apply_mask.induct) (simp_all split: prod.split del: apply_rest.simps)

lemma netbit_apply_mask: "netbit (apply_mask (\<lambda>s b m. (b AND m, s)) n s bs) k \<longleftrightarrow> k < n \<and> netbit bs k"
proof (induction bs arbitrary: n k)
  case Nil
  then show ?case by (simp add: netbit_def)
next
  case (Cons b bs)
  consider "n > 8" | "0 < n" "n \<le> 8" | "n = 0" by linarith
  then show ?case
  proof cases
    case 1
    then show ?thesis using Cons.IH [of "n - 8" "k - 8"] by (auto simp: netbit_Cons)
  next
    case 2
    then show ?thesis by (auto simp: netbit_Cons bit_and_iff netbit_apply_rest low_bits_mask_mask bit_high_mask)
  next
    case 3
    then show ?thesis by (simp add: netbit_apply_rest del: apply_rest.simps)
  qed
qed

text \<open>The search for the first byte that differs, in a network whose bits behind the prefix are zero.\<close>

lemma find_rest_zero:
  "length cs = length bs \<Longrightarrow> (\<And>k. \<not> netbit bs k) \<Longrightarrow> find_rest (\<lambda>b c m. b \<noteq> c AND m) i bs cs = i + length bs"
proof (induction "\<lambda>b c m. b \<noteq> c AND (m :: byte)" i bs cs rule: find_rest.induct)
  case (1 i b bs c cs)
  have "\<not> bit b (7 - k)" if "k < 8" for k using 1(3) [of k] that by (simp add: netbit_Cons)
  then have "b = 0" by (simp add: byte_eq_bits)
  moreover have "\<not> netbit bs k" for k using 1(3) [of "8 + k"] by (simp add: netbit_Cons)
  ultimately show ?case using 1(1,2) by simp
qed auto

lemma find_rest_bound: "find_rest fn i bs cs \<le> i + length bs"
  by (induction fn i bs cs rule: find_rest.induct) auto

lemma same_prefix_Cons:
  "same_prefix n (b # bs) (c # cs) \<longleftrightarrow> (\<forall>k<min n 8. bit b (7 - k) = bit c (7 - k)) \<and> same_prefix (n - 8) bs cs"
proof -
  have "(\<forall>k<n. P k) \<longleftrightarrow> (\<forall>k<min n 8. P k) \<and> (\<forall>k<n - 8. P (8 + k))" for P :: "nat \<Rightarrow> bool"
  proof
    assume r: "(\<forall>k<min n 8. P k) \<and> (\<forall>k<n - 8. P (8 + k))"
    show "\<forall>k<n. P k"
    proof (intro allI impI)
      fix k
      assume "k < n"
      then show "P k" using r [THEN conjunct1, rule_format, of k] r [THEN conjunct2, rule_format, of "k - 8"] by (cases "k < 8") auto
    qed
  qed auto
  then show ?thesis unfolding same_prefix_def by (simp add: netbit_Cons)
qed

lemma find_if_mask_prefix:
  assumes "length cs = length bs" "bs \<noteq> []" "n \<le> 8 * length bs" "\<And>k. netbit bs k \<Longrightarrow> k < n"
  shows "\<exists>j. find_if_mask (\<lambda>b c m. b \<noteq> c AND m) n i bs cs = Some j \<and> (j = i + length bs \<longleftrightarrow> same_prefix n bs cs) \<and> j \<le> i + length bs"
  using assms
proof (induction bs arbitrary: cs n i)
  case (Cons b bs)
  obtain c ds where cs: "cs = c # ds" "length ds = length bs" using Cons.prems(1) by (cases cs) auto
  have tl: "netbit bs k \<Longrightarrow> k + 8 < n" for k using Cons.prems(4) [of "8 + k"] by (simp add: netbit_Cons add.commute)
  have hd: "k < 8 \<Longrightarrow> bit b (7 - k) \<Longrightarrow> k < n" for k using Cons.prems(4) [of k] by (simp add: netbit_Cons)
  show ?case
  proof (cases "n > 8")
    case True
    have ne: "bs \<noteq> []" "n - 8 \<le> 8 * length bs" using True Cons.prems(3) by auto
    obtain j where j: "find_if_mask (\<lambda>b c m. b \<noteq> c AND m) (n - 8) (i + 1) bs ds = Some j"
        "j = i + 1 + length bs \<longleftrightarrow> same_prefix (n - 8) bs ds" "j \<le> i + 1 + length bs"
      using Cons.IH [of ds "n - 8" "i + 1"] cs(2) ne tl by force
    show ?thesis using True j byte_eq_bits [of b c] by (simp add: cs(1) same_prefix_Cons)
  next
    case False
    have z: "find_rest (\<lambda>b c m. b \<noteq> c AND m) (i + 1) bs ds = i + 1 + length bs"
      using find_rest_zero [of ds bs "i + 1"] cs(2) tl False by force
    have e: "b = c AND NOT (mask (8 - n)) \<longleftrightarrow> (\<forall>k<min n 8. bit b (7 - k) = bit c (7 - k))"
      unfolding byte_eq_bits using False hd by (auto simp: bit_and_iff bit_high_mask)
    show ?thesis using False z e by (auto simp: cs(1) same_prefix_Cons low_bits_mask_mask) (auto simp: same_prefix_def)
  qed
qed simp

section \<open>Networks as sets of addresses\<close>

text \<open>Every bit of an address can be chosen.\<close>

lemma choose_netbit:
  assumes "m < 8 * length b"
  shows "\<exists>c. length c = length b \<and> (\<forall>k. netbit c k = (if k = m then x else netbit b k))"
proof (cases "netbit b m = x")
  case False
  have i: "m div 8 < length b" using assms by auto
  define c where "c = b[m div 8 := flip_bit (7 - m mod 8) (b ! (m div 8))]"
  have "netbit c k = (if k = m then x else netbit b k)" for k
  proof (cases "k div 8 = m div 8")
    case True
    have "k = m \<longleftrightarrow> 7 - k mod 8 = 7 - m mod 8"
    proof -
      have "k = 8 * (m div 8) + k mod 8" "m = 8 * (m div 8) + m mod 8" "k mod 8 < 8" "m mod 8 < 8" using True by (metis mult_div_mod_eq) simp_all
      then show ?thesis by linarith
    qed
    then show ?thesis using i True False unfolding c_def netbit_def by (auto simp: bit_flip_bit_iff)
  next
    case other: False
    then have "k \<noteq> m" by auto
    then show ?thesis using other unfolding c_def netbit_def by auto
  qed
  then show ?thesis by (intro exI [of _ c]) (simp add: c_def)
qed (intro exI [of _ b], auto)

lemma same_prefix_sym: "same_prefix n a b = same_prefix n b a"
  by (auto simp: same_prefix_def)

lemma same_prefix_trans: "same_prefix n a b \<Longrightarrow> same_prefix n b c \<Longrightarrow> same_prefix n a c"
  by (auto simp: same_prefix_def)

lemma same_prefix_less: "same_prefix m a b \<Longrightarrow> n \<le> m \<Longrightarrow> same_prefix n a b"
  by (auto simp: same_prefix_def)

text \<open>
  What the two network classes have in common: the constructor keeps the prefix of the address and
  clears the rest, an address matches by its prefix, and a network is compared by its own address.
\<close>

locale networks =
  fixes make :: "byte list \<Rightarrow> nat \<Rightarrow> address_error + inet_network"
    and matches :: "inet_network \<Rightarrow> byte list \<Rightarrow> bool"
    and matches_net :: "inet_network \<Rightarrow> inet_network \<Rightarrow> bool"
    and lo bytes :: nat
  assumes make_ok: "length a = bytes \<Longrightarrow> lo \<le> n \<Longrightarrow> n \<le> 8 * bytes \<Longrightarrow>
      \<exists>net. make a n = Inr net \<and> net_prefix_len net = n \<and> length (net_address net) = bytes \<and>
        (\<forall>k. netbit (net_address net) k \<longleftrightarrow> k < n \<and> netbit a k)"
    and match_prefix: "lo \<le> net_prefix_len net \<Longrightarrow> net_prefix_len net \<le> 8 * bytes \<Longrightarrow> length (net_address net) = bytes \<Longrightarrow>
      (\<And>k. netbit (net_address net) k \<Longrightarrow> k < net_prefix_len net) \<Longrightarrow> length addr = bytes \<Longrightarrow>
      matches net addr \<longleftrightarrow> same_prefix (net_prefix_len net) (net_address net) addr"
    and matches_net_def: "matches_net net other \<longleftrightarrow> net_prefix_len net \<le> net_prefix_len other \<and> matches net (net_address other)"
begin

lemma network_matches:
  assumes "length a = bytes" "length addr = bytes" "lo \<le> n" "n \<le> 8 * bytes" "make a n = Inr net"
  shows "matches net addr \<longleftrightarrow> same_prefix n a addr"
proof -
  have net: "net_prefix_len net = n" "length (net_address net) = bytes" "\<And>k. netbit (net_address net) k \<longleftrightarrow> k < n \<and> netbit a k"
    using make_ok [OF assms(1,3,4)] assms(5) by auto
  then have "matches net addr \<longleftrightarrow> same_prefix n (net_address net) addr" using match_prefix [of net addr] assms(2-4) by simp
  then show ?thesis using net(3) by (simp add: same_prefix_def)
qed

lemma network_subset:
  assumes "length a = bytes" "length b = bytes" "lo \<le> n" "n \<le> 8 * bytes" "lo \<le> m" "m \<le> 8 * bytes"
    and "make a n = Inr net" "make b m = Inr other"
  shows "matches_net net other \<longleftrightarrow> (\<forall>addr. length addr = bytes \<longrightarrow> matches other addr \<longrightarrow> matches net addr)"
proof -
  have net: "net_prefix_len net = n" using make_ok [OF assms(1,3,4)] assms(7) by auto
  have oth: "net_prefix_len other = m" "length (net_address other) = bytes" "\<And>k. netbit (net_address other) k \<longleftrightarrow> k < m \<and> netbit b k"
    using make_ok [OF assms(2,5,6)] assms(8) by auto
  have pre: "same_prefix k (net_address other) b" if "k \<le> m" for k using oth(3) that by (auto simp: same_prefix_def)
  note m = network_matches [OF assms(1) _ assms(3,4,7)] network_matches [OF assms(2) _ assms(5,6,8)]
  have l: "matches_net net other \<longleftrightarrow> n \<le> m \<and> same_prefix n a (net_address other)"
    unfolding matches_net_def net oth(1) using m(1) [OF oth(2)] by blast
  show ?thesis
  proof (cases "n \<le> m")
    case True
    have "(\<forall>addr. length addr = bytes \<longrightarrow> matches other addr \<longrightarrow> matches net addr) \<longleftrightarrow> same_prefix n a b"
      using m assms(2) same_prefix_trans same_prefix_less [OF _ True] same_prefix_less by (metis same_prefix_def)
    then show ?thesis using l True pre [OF True] same_prefix_trans same_prefix_sym by metis
  next
    case False
    then have "m < 8 * length b" using assms(2,4) by simp
    then obtain c where c: "length c = bytes" "\<And>k. netbit c k = (if k = m then \<not> netbit a m else netbit b k)"
      using choose_netbit [of m b "\<not> netbit a m"] assms(2) by auto
    have "matches other c" "\<not> matches net c" using m c False by (auto simp: same_prefix_def)
    then show ?thesis using l False c(1) by blast
  qed
qed

end

interpretation net6: networks INet6Network "\<lambda>net addr. INet6Network_match net addr = Some True"
    "\<lambda>net other. INet6Network_match_net net other = Some True" 0 16
proof unfold_locales
  fix a :: "byte list" and n :: nat
  assume a: "length a = 16" "n \<le> 8 * 16"
  then show "\<exists>net. INet6Network a n = Inr net \<and> net_prefix_len net = n \<and> length (net_address net) = 16 \<and>
        (\<forall>k. netbit (net_address net) k \<longleftrightarrow> k < n \<and> netbit a k)"
    using netbit_apply_mask [of n "()" a] by (simp add: INet6Network_def INet6_prefix_len_checked_def)
next
  fix net :: inet_network and addr :: "byte list"
  assume n: "net_prefix_len net \<le> 8 * 16" "length (net_address net) = 16" "\<And>k. netbit (net_address net) k \<Longrightarrow> k < net_prefix_len net"
    "length addr = 16"
  then show "INet6Network_match net addr = Some True \<longleftrightarrow> same_prefix (net_prefix_len net) (net_address net) addr"
    using find_if_mask_prefix [of addr "net_address net" "net_prefix_len net" 0] by (force simp: INet6Network_match_def)
qed (auto simp: INet6Network_match_net_def)

text \<open>IPv4: the numbers are the network byte order ones.\<close>

lemma netbit_INet4_of_number: "netbit (INet4_of_number v) k \<longleftrightarrow> k < 32 \<and> bit v (31 - k)"
  using net_write_uint32 [of 0 "replicate 4 0" v k] by (auto simp: INet4_of_number_def netbit_def)

lemma bit_INet4_address: "length a = 4 \<Longrightarrow> bit (INet4_address a) j \<longleftrightarrow> j < 32 \<and> netbit a (31 - j)"
  using net_parse_uint32 [of 0 a j] by (simp add: INet4_address_def)

lemma length_INet4_of_number [simp]: "length (INet4_of_number v) = 4"
  by (simp add: INet4_of_number_def)

lemma INet4_mask_prefix: "1 \<le> n \<Longrightarrow> n \<le> 32 \<Longrightarrow> INet4_mask n = Inr (NOT (mask (32 - n)))"
proof -
  have "w AND 0xFFFFFFFF = w" for w :: u32
  proof -
    have "(0xFFFFFFFF :: u32) = mask 32" by (simp add: mask_eq_exp_minus_1 del: mask_numeral)
    moreover have "w AND mask 32 = w" by (rule bit_word_eqI) (simp add: bit_and_iff bit_mask_iff del: mask_numeral)
    ultimately show ?thesis by (simp only:)
  qed
  then show "1 \<le> n \<Longrightarrow> n \<le> 32 \<Longrightarrow> INet4_mask n = Inr (NOT (mask (32 - n)))"
    by (simp add: INet4_mask_def shl32_def mask_eq_exp_minus_1 push_bit_eq_mult)
qed

lemma masked_number_eq:
  fixes v w :: u32
  assumes "n \<le> 32"
  shows "(v AND NOT (mask (32 - n)) = w AND NOT (mask (32 - n))) \<longleftrightarrow> (\<forall>k<n. bit v (31 - k) = bit w (31 - k))"
proof
  assume a: "\<forall>k<n. bit v (31 - k) = bit w (31 - k)"
  show "v AND NOT (mask (32 - n)) = w AND NOT (mask (32 - n))"
  proof (rule bit_word_eqI)
    fix j
    assume "j < LENGTH(32)"
    then show "bit (v AND NOT (mask (32 - n))) j = bit (w AND NOT (mask (32 - n))) j"
      using a [rule_format, of "31 - j"] assms by (auto simp: bit_and_iff bit_not_iff bit_mask_iff)
  qed
next
  assume e: "v AND NOT (mask (32 - n)) = w AND NOT (mask (32 - n))"
  show "\<forall>k<n. bit v (31 - k) = bit w (31 - k)"
  proof (intro allI impI)
    fix k
    assume "k < n"
    then show "bit v (31 - k) = bit w (31 - k)"
      using arg_cong [OF e, of "\<lambda>w. bit w (31 - k)"] assms by (auto simp: bit_and_iff bit_not_iff bit_mask_iff)
  qed
qed

interpretation net4: networks INet4Network "\<lambda>net addr. INet4Network_match net addr = Inr True"
    "\<lambda>net other. INet4Network_match_net net other = Inr True" 1 4
proof unfold_locales
  fix a :: "byte list" and n :: nat
  assume a: "length a = 4" "1 \<le> n" "n \<le> 8 * 4"
  then show "\<exists>net. INet4Network a n = Inr net \<and> net_prefix_len net = n \<and> length (net_address net) = 4 \<and>
        (\<forall>k. netbit (net_address net) k \<longleftrightarrow> k < n \<and> netbit a k)"
    by (auto simp: INet4Network_def INet4_prefix_len_checked_def INet4_mask_prefix netbit_INet4_of_number bit_and_iff bit_INet4_address
        bit_not_iff bit_mask_iff)
next
  fix net :: inet_network and addr :: "byte list"
  assume n: "1 \<le> net_prefix_len net" "net_prefix_len net \<le> 8 * 4" "length (net_address net) = 4"
    "\<And>k. netbit (net_address net) k \<Longrightarrow> k < net_prefix_len net" "length addr = 4"
  have "INet4_address (net_address net) AND NOT (mask (32 - net_prefix_len net)) = INet4_address (net_address net)"
    using n(2) by (intro bit_word_eqI) (auto simp: bit_and_iff bit_not_iff bit_mask_iff bit_INet4_address [OF n(3)] dest: n(4))
  then show "INet4Network_match net addr = Inr True \<longleftrightarrow> same_prefix (net_prefix_len net) (net_address net) addr"
    using n masked_number_eq [of "net_prefix_len net" "INet4_address addr" "INet4_address (net_address net)"]
    by (auto simp: INet4Network_match_def INet4_mask_prefix bit_INet4_address same_prefix_def)
qed (auto simp: INet4Network_match_net_def)

lemma INet6Network_match_defined:
  assumes "length a = 16" "length addr = 16" "n \<le> 128" "INet6Network a n = Inr net"
  shows "INet6Network_match net addr = Some (same_prefix n a addr)"
proof -
  have net: "net_prefix_len net = n" "length (net_address net) = 16" "\<And>k. netbit (net_address net) k \<longleftrightarrow> k < n \<and> netbit a k"
    using net6.make_ok [of a n] assms by auto
  then have "INet6Network_match net addr \<noteq> None"
    using find_if_mask_prefix [of addr "net_address net" n 0] assms(2,3) by (force simp: INet6Network_match_def)
  then show ?thesis using net6.network_matches [of a addr n net] assms by auto
qed

text \<open>
  C19: An IPv6 network is the set of the addresses with its prefix: for prefix lengths up to 128 the
  constructor succeeds and keeps the prefix of the address, with the rest zero; matching an address is
  always defined (the search never moves its iterator past the end) and compares the first
  \<open>prefix_len\<close> bits; matching another network holds exactly if every address of the other one is
  matched. Longer prefixes are an error.
\<close>

theorem inet6_network_contract:
  assumes "length a = 16" "length b = 16" "n \<le> 128" "m \<le> 128" "128 < k"
  shows "\<exists>net other. INet6Network a n = Inr net \<and> INet6Network b m = Inr other \<and>
      (\<forall>addr. length addr = 16 \<longrightarrow> INet6Network_match net addr = Some (same_prefix n a addr)) \<and>
      INet6Network_match_net net other =
        Some (\<forall>addr. length addr = 16 \<longrightarrow> INet6Network_match other addr = Some True \<longrightarrow> INet6Network_match net addr = Some True) \<and>
      INet6Network a k = Inl AddressSyntaxException"
proof -
  obtain net other where n: "INet6Network a n = Inr net" "INet6Network b m = Inr other" "length (net_address other) = 16"
    using net6.make_ok [of a n] net6.make_ok [of b m] assms by auto
  have "INet6Network_match_net net other \<noteq> None"
    using INet6Network_match_defined [OF assms(1) n(3) assms(3) n(1)] by (auto simp: INet6Network_match_net_def)
  then have "INet6Network_match_net net other =
      Some (\<forall>addr. length addr = 16 \<longrightarrow> INet6Network_match other addr = Some True \<longrightarrow> INet6Network_match net addr = Some True)"
    using net6.network_subset [OF assms(1,2) _ _ _ _ n(1,2)] assms(3,4) by auto
  moreover have "INet6Network a k = Inl AddressSyntaxException"
    using assms(5) by (simp add: INet6Network_def INet6_prefix_len_checked_def)
  ultimately show ?thesis using n(1,2) INet6Network_match_defined [OF assms(1) _ assms(3) n(1)] by blast
qed

theorem inet6_network_contract_witness:
  "\<exists>net. INet6Network (0xfe # 0x80 # replicate 14 1) 10 = Inr net \<and>
     INet6Network_match net (0xfe # 0xbf # replicate 14 0) = Some (same_prefix 10 (0xfe # 0x80 # replicate 14 1) (0xfe # 0xbf # replicate 14 0))"
proof -
  have "length (0xfe # 0x80 # replicate 14 (1 :: byte)) = 16" "length (0xfe # 0xbf # replicate 14 (0 :: byte)) = 16" by simp_all
  then show ?thesis
    using inet6_network_contract [of "0xfe # 0x80 # replicate 14 1" "replicate 16 0" 10 0 129] by fastforce
qed

text \<open>
  The same for IPv4 and prefix lengths from 1 to 32; the mask of an empty prefix needs a shift by 32,
  which is undefined, and longer prefixes are an error.
\<close>

theorem inet4_network_contract:
  assumes "length a = 4" "length b = 4" "1 \<le> n" "n \<le> 32" "1 \<le> m" "m \<le> 32" "32 < k"
  shows "\<exists>net other. INet4Network a n = Inr net \<and> INet4Network b m = Inr other \<and>
      (\<forall>addr. length addr = 4 \<longrightarrow> INet4Network_match net addr = Inr (same_prefix n a addr)) \<and>
      INet4Network_match_net net other =
        Inr (\<forall>addr. length addr = 4 \<longrightarrow> INet4Network_match other addr = Inr True \<longrightarrow> INet4Network_match net addr = Inr True) \<and>
      INet4Network a 0 = Inl UndefinedShift \<and> INet4Network a k = Inl AddressSyntaxException"
proof -
  obtain net other where n: "INet4Network a n = Inr net" "INet4Network b m = Inr other" "net_prefix_len net = n"
    using net4.make_ok [of a n] net4.make_ok [of b m] assms by auto
  have d: "\<exists>r. INet4Network_match net addr = Inr r" for addr
    using n(3) assms(3,4) by (simp add: INet4Network_match_def INet4_mask_prefix)
  have "INet4Network_match net addr = Inr (same_prefix n a addr)" if "length addr = 4" for addr
    using net4.network_matches [of a addr n net] d [of addr] assms that n(1) by auto
  moreover have "\<exists>r. INet4Network_match_net net other = Inr r" using d by (auto simp: INet4Network_match_net_def)
  then have "INet4Network_match_net net other =
      Inr (\<forall>addr. length addr = 4 \<longrightarrow> INet4Network_match other addr = Inr True \<longrightarrow> INet4Network_match net addr = Inr True)"
    using net4.network_subset [OF assms(1,2) _ _ _ _ n(1,2)] assms(3-6) by auto
  ultimately show ?thesis
    using n(1,2) assms(7) by (auto simp: INet4Network_def [of a 0] INet4Network_def [of a k] INet4_prefix_len_checked_def INet4_mask_def shl32_def)
qed

theorem inet4_network_contract_witness:
  "\<exists>net. INet4Network [192, 168, 7, 1] 16 = Inr net \<and>
     INet4Network_match net [192, 168, 0, 9] = Inr (same_prefix 16 [192, 168, 7, 1] [192, 168, 0, 9])"
proof -
  have "length [192, 168, 0, 9 :: byte] = 4" by simp
  then show ?thesis using inet4_network_contract [of "[192, 168, 7, 1]" "[10, 0, 0, 0]" 16 8 33] by fastforce
qed

section \<open>The template matchers\<close>

lemma sig_bits_byte:
  fixes b c :: byte
  assumes "low_bits_spec sig_bits" "0 < r" "r < 8"
  shows "(ucast b AND NOT (sig_bits (8 - r)) = ucast c AND NOT (sig_bits (8 - r))) \<longleftrightarrow> (\<forall>k<r. bit b (7 - k) = bit c (7 - k))"
proof -
  have s: "sig_bits (8 - r) = mask (8 - r)" using assms(1) by (simp add: low_bits_spec_def)
  have m: "bit (ucast d AND NOT (mask (8 - r)) :: u32) j \<longleftrightarrow> 8 - r \<le> j \<and> j < 8 \<and> bit d j" for d :: byte and j
    by (auto simp: bit_and_iff bit_not_iff bit_mask_iff bit_unsigned_iff dest: bit_byte_le)
  have "(ucast b AND NOT (mask (8 - r)) = (ucast c AND NOT (mask (8 - r)) :: u32)) \<longleftrightarrow>
      (\<forall>j. bit (ucast b AND NOT (mask (8 - r)) :: u32) j = bit (ucast c AND NOT (mask (8 - r)) :: u32) j)"
    by (metis bit_eqI)
  also have "\<dots> \<longleftrightarrow> (\<forall>j. 8 - r \<le> j \<and> j < 8 \<longrightarrow> bit b j = bit c j)" unfolding m by blast
  also have "\<dots> \<longleftrightarrow> (\<forall>k<r. bit b (7 - k) = bit c (7 - k))"
  proof
    assume a: "\<forall>j. 8 - r \<le> j \<and> j < 8 \<longrightarrow> bit b j = bit c j"
    show "\<forall>k<r. bit b (7 - k) = bit c (7 - k)"
    proof (intro allI impI)
      fix k
      assume "k < r"
      then have "8 - r \<le> 7 - k \<and> 7 - k < 8" by linarith
      then show "bit b (7 - k) = bit c (7 - k)" using a by blast
    qed
  next
    assume a: "\<forall>k<r. bit b (7 - k) = bit c (7 - k)"
    show "\<forall>j. 8 - r \<le> j \<and> j < 8 \<longrightarrow> bit b j = bit c j"
    proof (intro allI impI)
      fix j
      assume "8 - r \<le> j \<and> j < 8"
      then have "7 - j < r" "7 - (7 - j) = j" by linarith+
      then show "bit b j = bit c j" using a by metis
    qed
  qed
  finally show ?thesis by (simp only: s)
qed

lemma same_prefix_0 [simp]: "same_prefix 0 a b"
  by (simp add: same_prefix_def)

lemma impl4_prefix:
  assumes "low_bits_spec sig_bits" "r < 16"
  shows "CheckINet6Network_impl4 sig_bits x r v0 v1 = Some (same_prefix r [ucast (drop_bit 8 x), ucast x] [v0, v1])"
proof -
  define q t where "q = r div 8" and "t = r mod 8"
  have r: "r = 8 * q + t" "t < 8" "q < 2" using assms(2) by (auto simp: q_def t_def)
  consider "q = 0" "t = 0" | "q = 0" "0 < t" | "q = 1" "t = 0" | "q = 1" "0 < t" using r(3) by linarith
  then show ?thesis
    unfolding CheckINet6Network_impl4_def CheckINet6Network_impl5_def q_def [symmetric] t_def [symmetric]
    using r byte_eq_bits [of v0 "ucast (drop_bit 8 x)"] sig_bits_byte [OF assms(1), of t v0 "ucast (drop_bit 8 x)"]
      sig_bits_byte [OF assms(1), of t v1 "ucast x"]
    by cases (auto simp: same_prefix_Cons)
qed

lemma same_prefix_two:
  "same_prefix (16 * Suc w + r) (b # b' # bs) (c # c' # cs) \<longleftrightarrow> c = b \<and> c' = b' \<and> same_prefix (16 * w + r) bs cs"
proof -
  have "16 * Suc w + r - 8 - 8 = 16 * w + r" "min (16 * Suc w + r) 8 = 8" "min (16 * Suc w + r - 8) 8 = 8" by auto
  then show ?thesis by (simp only: same_prefix_Cons byte_eq_bits [of b c, symmetric] byte_eq_bits [of b' c', symmetric]) (metis conj_assoc)
qed

lemma same_prefix_last:
  "r < 16 \<Longrightarrow> same_prefix (16 * 0 + r) (b # b' # bs) (c # c' # cs) \<longleftrightarrow> same_prefix r [b, b'] [c, c']"
  by (simp add: same_prefix_Cons)

lemma sixteen_bytes:
  assumes "length addr = 16"
  shows "addr = [addr ! 0, addr ! 1, addr ! 2, addr ! 3, addr ! 4, addr ! 5, addr ! 6, addr ! 7,
    addr ! 8, addr ! 9, addr ! 10, addr ! 11, addr ! 12, addr ! 13, addr ! 14, addr ! 15]"
proof (rule nth_equalityI)
  fix i
  assume "i < length addr"
  then have "i \<in> set [0..<16]" using assms by simp
  then show "addr ! i = [addr ! 0, addr ! 1, addr ! 2, addr ! 3, addr ! 4, addr ! 5, addr ! 6, addr ! 7,
    addr ! 8, addr ! 9, addr ! 10, addr ! 11, addr ! 12, addr ! 13, addr ! 14, addr ! 15] ! i"
    by (simp add: upt_rec) (auto simp: numeral_eq_Suc)
qed (use assms in simp)

lemma ucast_u16: "ucast (ucast x :: u16) = (ucast x :: byte)" "ucast (drop_bit 8 (ucast x :: u16)) = (ucast (drop_bit 8 x) :: byte)" for x :: u32
  by (auto intro!: bit_word_eqI simp: bit_unsigned_iff bit_drop_bit_eq)

text \<open>
  The matcher for an IPv6 network given by template arguments is the comparison of the prefix, with one
  exception: for prefix lengths from 33 to 47, where the third word is compared only in part, it is the
  second word of the network that is compared with the third word of the address. A prefix length of
  128 has no matcher.
\<close>

theorem check_inet6_network_prefix:
  assumes "low_bits_spec sig_bits" "length a = 8" "length addr = 16" "bits < 128"
  shows "CheckINet6Network_impl2 sig_bits a bits addr =
      Some (same_prefix bits (INet6_words (map ucast (if bits div 16 = 2 then a[2 := a ! 1] else a))) addr) \<and>
    CheckINet6Network_impl2 sig_bits a 128 addr = None"
proof -
  define w r where "w = bits div 16" and "r = bits mod 16"
  have b: "bits = 16 * w + r" "r < 16" "w < 8" using assms(4) by (auto simp: w_def r_def)
  note i4 = impl4_prefix [OF assms(1) b(2)]
  note e = sixteen_bytes [OF assms(3)]
  have "CheckINet6Network_impl3 sig_bits a w r addr = Some (same_prefix (16 * w + r) (INet6_words (map ucast (if w = 2 then a[2 := a ! 1] else a))) addr)"
  proof -
    note i3 = CheckINet6Network_impl3_def and_then_def eq16_def i4 nth_Cons_0 nth_Cons_Suc ucast_u16 assms(2)
    have s: "same_prefix (16 * w + r) cs addr = same_prefix (16 * w + r) cs [addr ! 0, addr ! 1, addr ! 2, addr ! 3, addr ! 4, addr ! 5, addr ! 6,
        addr ! 7, addr ! 8, addr ! 9, addr ! 10, addr ! 11, addr ! 12, addr ! 13, addr ! 14, addr ! 15]" for cs
      by (rule arg_cong [OF e])
    consider "w = 0" | "w = Suc 0" | "w = Suc (Suc 0)" | "w = Suc (Suc (Suc 0))" | "w = Suc (Suc (Suc (Suc 0)))"
      | "w = Suc (Suc (Suc (Suc (Suc 0))))" | "w = Suc (Suc (Suc (Suc (Suc (Suc 0)))))" | "w = Suc (Suc (Suc (Suc (Suc (Suc (Suc 0))))))"
      using b(3) by linarith
    then show ?thesis
      unfolding s
      by cases (simp_all only: INet6_words_def same_prefix_two same_prefix_last [OF b(2)], simp_all add: i3 conj_assoc)
  qed
  then show ?thesis by (simp add: CheckINet6Network_impl2_def CheckINet6Network_impl3_def b(1) [symmetric] w_def [symmetric] r_def [symmetric])
qed

lemma low_bits_spec_mask: "low_bits_spec mask"
  by (simp add: low_bits_spec_def)

theorem check_inet6_network_prefix_witness:
  "CheckINet6Network_impl2 mask [0xfe80, 0, 0, 0, 0, 0, 0, 0] 10 (0xfe # 0xbf # replicate 14 0) =
     Some (same_prefix 10 (INet6_words [0xfe80, 0, 0, 0, 0, 0, 0, 0]) (0xfe # 0xbf # replicate 14 0))"
  using check_inet6_network_prefix [OF low_bits_spec_mask, of "[0xfe80, 0, 0, 0, 0, 0, 0, 0]" "0xfe # 0xbf # replicate 14 0" 10] by simp

text \<open>The network \<open>2001:db8:1200::/40\<close> given by template arguments does not match its own address.\<close>

lemma network_rejects_own_address:
  "CheckINet6Network_impl2 mask [0x2001, 0xdb8, 0x1200, 0, 0, 0, 0, 0] 40 (INet6_words [0x2001, 0xdb8, 0x1200, 0, 0, 0, 0, 0]) = Some False"
  by (simp add: CheckINet6Network_impl2_def CheckINet6Network_impl3_def CheckINet6Network_impl4_def CheckINet6Network_impl5_def
      and_then_def eq16_def INet6_words_def drop_bit_eq_div)

text \<open>The matcher for IPv4 networks has no exception, and takes the empty prefix.\<close>

lemma check_inet4_network_prefix:
  assumes "low_bits_spec sig_bits" "length addr = 4" "n \<le> 32"
  shows "CheckINet4Network_match sig_bits address n addr \<longleftrightarrow> same_prefix n (INet4_of_number address) addr"
proof -
  have "sig_bits (32 - n) = mask (32 - n)" using assms(1) by (simp add: low_bits_spec_def)
  then show ?thesis using masked_number_eq [OF assms(3), of "INet4_address addr" address] assms
    by (auto simp: CheckINet4Network_match_def same_prefix_def bit_INet4_address netbit_INet4_of_number)
qed

text \<open>IPv4 addresses mapped into IPv6.\<close>

lemma inet4_mapped_roundtrip:
  assumes "length addr4 = 4"
  shows "INet6_inet4address (INet6_from_inet4address addr4) = addr4 \<and> INet6_inet4Mapped sig_bits (INet6_from_inet4address addr4)"
proof -
  have t: "take 12 ((replicate 16 0)[10 := 0xff, 11 := 0xff]) = [0, 0, 0, 0, 0, 0, 0, 0, 0, 0, 0xff, 0xff :: byte]" by (simp add: numeral_eq_Suc)
  show ?thesis using assms unfolding INet6_inet4address_def INet6_from_inet4address_def t
    by (simp add: INet6_inet4Mapped_def CheckINet6Network_impl_def CheckINet6Network_impl2_def CheckINet6Network_impl3_def
      CheckINet6Network_impl4_def CheckINet6Network_impl5_def and_then_def eq16_def drop_bit_eq_div)
qed

section \<open>Subnets\<close>

lemma netbit_or_rest:
  "netbit (apply_rest (\<lambda>n b m. (b OR (ucast (drop_bit 56 n) AND m), push_bit 8 n)) N bs) k \<longleftrightarrow> netbit bs k" for N :: u64
  by (induction bs arbitrary: N k) (simp_all add: netbit_Cons)

lemma netbit_or_number:
  fixes N :: u64
  assumes "k < 8 * length bs"
  shows "netbit (apply_mask (\<lambda>n b m. (b OR (ucast (drop_bit 56 n) AND m), push_bit 8 n)) p N bs) k \<longleftrightarrow>
    netbit bs k \<or> k < p \<and> k < 64 \<and> bit N (63 - k)"
  using assms
proof (induction bs arbitrary: p N k)
  case (Cons b bs)
  have top: "bit (ucast (drop_bit 56 N) :: byte) (7 - k) \<longleftrightarrow> bit N (63 - k)" if "k < 8"
  proof -
    have "7 - k < 8" by linarith
    then show ?thesis using that by (simp add: bit_unsigned_iff bit_drop_bit_eq)
  qed
  consider "p > 8" | "0 < p" "p \<le> 8" | "p = 0" by linarith
  then show ?case
  proof cases
    case 1
    have sh: "k - 8 < 64 \<and> bit (push_bit 8 N) (63 - (k - 8)) \<longleftrightarrow> k < 64 \<and> bit N (63 - k)" if "8 \<le> k"
    proof -
      consider "k < 64" | "64 \<le> k" "63 - (k - 8) < 8" by linarith
      then show ?thesis
      proof cases
        case 1
        then have "8 \<le> 63 - (k - 8)" "63 - (k - 8) - 8 = 63 - k" "63 - (k - 8) < 64" using that by linarith+
        then show ?thesis using 1 that by (auto simp: bit_push_bit_iff)
      qed (auto simp: bit_push_bit_iff)
    qed
    show ?thesis
    proof (cases "k < 8")
      case True
      then show ?thesis using 1 top by (simp add: netbit_Cons bit_or_iff)
    next
      case False
      have "k - 8 < 8 * length bs" "k - 8 < p - 8 \<longleftrightarrow> k < p" using False Cons.prems 1 by auto
      then show ?thesis using False 1 Cons.IH [of "k - 8" "p - 8" "push_bit 8 N"] sh by (simp add: netbit_Cons)
    qed
  next
    case 2
    then show ?thesis using top by (auto simp: netbit_Cons netbit_or_rest bit_or_iff bit_and_iff low_bits_mask_mask bit_high_mask)
  next
    case 3
    then show ?thesis by (simp add: netbit_or_rest del: apply_rest.simps)
  qed
qed simp

lemma INet6Network_subnet_bits:
  assumes "length (net_address net) = 16" "0 < p" "p \<le> 64"
  shows "\<exists>sub. INet6Network_subnet net number p = Inr sub \<and> net_prefix_len sub = p \<and> length (net_address sub) = 16 \<and>
    (\<forall>k. netbit (net_address sub) k \<longleftrightarrow> k < p \<and> (netbit (net_address net) k \<or> bit number (p - 1 - k)))"
proof -
  define addr where "addr = apply_mask (\<lambda>n b m. (b OR (ucast (drop_bit 56 n) AND m), push_bit 8 n)) p (push_bit (64 - p) number) (net_address net)"
  have "netbit addr k \<longleftrightarrow> netbit (net_address net) k \<or> bit number (p - 1 - k)" if "k < p" for k
  proof -
    have "64 - p \<le> 63 - k" "63 - k - (64 - p) = p - 1 - k" "63 - k < 64" "k < 8 * 16" using that assms(3) by linarith+
    then show ?thesis
      unfolding addr_def using netbit_or_number [of k "net_address net" p "push_bit (64 - p) number"] assms that by (auto simp: bit_push_bit_iff)
  qed
  moreover have "length addr = 16" using assms(1) by (simp add: addr_def)
  moreover have "INet6Network_subnet net number p = INet6Network addr p" using assms(2,3) by (simp add: INet6Network_subnet_def addr_def)
  ultimately show ?thesis using net6.make_ok [of addr p] assms(3) by auto
qed

text \<open>
  The subnet with a number that fits between the two prefixes is a network within this one: it
  exists for prefix lengths up to 64, has the prefix of the network, then the number, and is matched by
  the network. For other prefix lengths the shift count is out of range.
\<close>

theorem inet6_subnet_within:
  assumes "length a = 16" "INet6Network a n = Inr net" "n \<le> p" "0 < p" "p \<le> 64" "unat number < 2 ^ (p - n)" "64 < q"
  shows "\<exists>sub. INet6Network_subnet net number p = Inr sub \<and> net_prefix_len sub = p \<and>
      (\<forall>k<n. netbit (net_address sub) k = netbit a k) \<and>
      (\<forall>k. n \<le> k \<and> k < p \<longrightarrow> netbit (net_address sub) k = bit number (p - 1 - k)) \<and>
      INet6Network_match_net net sub = Some True \<and> INet6Network_subnet net number q = Inl UndefinedShift"
proof -
  have net: "net_prefix_len net = n" "length (net_address net) = 16" "\<And>k. netbit (net_address net) k \<longleftrightarrow> k < n \<and> netbit a k"
    using net6.make_ok [of a n] assms(1-5) by auto
  obtain sub where s: "INet6Network_subnet net number p = Inr sub" "net_prefix_len sub = p" "length (net_address sub) = 16"
      "\<And>k. netbit (net_address sub) k \<longleftrightarrow> k < p \<and> (netbit (net_address net) k \<or> bit number (p - 1 - k))"
    using INet6Network_subnet_bits [OF net(2) assms(4,5)] by metis
  have hi: "\<not> bit number j" if "p - n \<le> j" for j
  proof -
    have "take_bit (p - n) (unat number) = unat number" using assms(6) by (rule take_bit_nat_eq_self)
    then have "\<not> bit (unat number) j" using bit_take_bit_iff [of "p - n" "unat number" j] that by simp
    then show ?thesis by (auto simp: bit_unsigned_iff)
  qed
  have pre: "netbit (net_address sub) k = netbit a k" if "k < n" for k
    using s(4) [of k] net(3) [of k] hi [of "p - 1 - k"] that assms(3) by auto
  then have "same_prefix n a (net_address sub)" by (simp add: same_prefix_def)
  then have "INet6Network_match_net net sub = Some True"
    using INet6Network_match_defined [OF assms(1) s(3) _ assms(2)] net(1) s(2) assms(3,5) by (simp add: INet6Network_match_net_def)
  then show ?thesis using s pre net(3) assms(7) by (auto simp: INet6Network_subnet_def [of net number q])
qed

theorem inet6_subnet_within_witness:
  "\<exists>net sub. INet6Network ([0x20, 0x01, 0x0d, 0xb8] @ replicate 12 0) 32 = Inr net \<and> INet6Network_subnet net 0x12 40 = Inr sub \<and>
     INet6Network_match_net net sub = Some True"
proof -
  obtain net where "INet6Network ([0x20, 0x01, 0x0d, 0xb8] @ replicate 12 0) 32 = Inr net"
    using net6.make_ok [of "[0x20, 0x01, 0x0d, 0xb8] @ replicate 12 0" 32] by auto
  moreover have "length ([0x20, 0x01, 0x0d, 0xb8 :: byte] @ replicate 12 0) = 16" "unat (0x12 :: u64) < 2 ^ (40 - 32)" by simp_all
  ultimately show ?thesis
    using inet6_subnet_within [of "[0x20, 0x01, 0x0d, 0xb8] @ replicate 12 0" 32 net 40 "0x12" 65] by (simp del: append_Cons) blast
qed

text \<open>
  A number that does not fit changes the prefix: subnet \<open>0x100\<close> with 40 bits of \<open>2001:db8::/32\<close> is
  \<open>2001:db9::/40\<close>, which is not a subnet.
\<close>

lemma inet6_subnet_overflow:
  assumes "a = [0x20, 0x01, 0x0d, 0xb8] @ replicate 12 0"
  shows "\<exists>net sub. INet6Network a 32 = Inr net \<and> INet6Network_subnet net 0x100 40 = Inr sub \<and> INet6Network_match_net net sub = Some False"
proof -
  have a: "length a = 16" "\<not> netbit a 31" using assms by (simp_all add: netbit_def bit_numeral_rec)
  obtain net where n: "INet6Network a 32 = Inr net" "net_prefix_len net = 32" "length (net_address net) = 16"
    using net6.make_ok [of a 32] a(1) by auto
  obtain sub where s: "INet6Network_subnet net 0x100 40 = Inr sub" "net_prefix_len sub = 40" "length (net_address sub) = 16" "netbit (net_address sub) 31"
    using INet6Network_subnet_bits [OF n(3), of 40 "0x100"] by (force simp: bit_numeral_rec)
  have "\<not> same_prefix 32 a (net_address sub)" using a(2) s(4) unfolding same_prefix_def by (intro notI) (drule spec [of _ 31], simp)
  then have "INet6Network_match_net net sub = Some False"
    using INet6Network_match_defined [OF a(1) s(3) _ n(1)] n(2) s(2) by (simp add: INet6Network_match_net_def)
  then show ?thesis using n(1) s(1) by blast
qed

text \<open>IPv4 hosts and subnets are always within the network: the number is truncated.\<close>

lemma INet4Network_host_within:
  assumes "length a = 4" "1 \<le> n" "n \<le> 32" "INet4Network a n = Inr net"
  shows "\<exists>h. INet4Network_host net number = Inr h \<and> length h = 4 \<and> INet4Network_match net h = Inr True \<and>
    (\<forall>k. n \<le> k \<and> k < 32 \<longrightarrow> netbit h k = bit number (31 - k))"
proof -
  have net: "net_prefix_len net = n" "length (net_address net) = 4" "\<And>k. netbit (net_address net) k \<longleftrightarrow> k < n \<and> netbit a k"
    using net4.make_ok [of a n] assms by auto
  define h where "h = INet4_of_number (INet4_address (net_address net) OR (number AND NOT (NOT (mask (32 - n)))))"
  have h: "netbit h k \<longleftrightarrow> k < 32 \<and> (if k < n then netbit a k else bit number (31 - k))" for k
  proof (cases "k < 32")
    case True
    then have "31 - k < 32 - n \<longleftrightarrow> \<not> k < n" "31 - (31 - k) = k" "31 - k < 32" using assms(3) by linarith+
    then have "bit (mask (32 - n) :: u32) (31 - k) \<longleftrightarrow> \<not> k < n" "bit (INet4_address (net_address net)) (31 - k) \<longleftrightarrow> netbit (net_address net) k"
      by (simp_all add: bit_mask_iff bit_INet4_address [OF net(2)])
    then show ?thesis using True net(3) [of k] by (simp add: h_def netbit_INet4_of_number bit_or_iff bit_and_iff)
  qed (simp add: h_def netbit_INet4_of_number)
  have "INet4Network_match net h = Inr True"
    using net4.network_matches [of a h n net] assms h by (simp add: same_prefix_def h_def)
  moreover have "INet4Network_host net number = Inr h" using net(1) assms(2,3) by (simp add: INet4Network_host_def INet4_mask_prefix h_def)
  ultimately show ?thesis using h by (auto simp: h_def)
qed

end
