(* ===== verification/Timer_Events.thy ===== *)
theory Timer_Events
  imports Fd_Events "HOL-Library.Signed_Division"
begin

text \<open>
  Timers, idle events and event hooks of the scheduler: \<open>senf/Scheduler/TimerEvent.*\<close>,
  \<open>TimerSource.*\<close>, \<open>IdleEvent.*\<close>, \<open>EventHook.*\<close> and the conversions of \<open>ClockService.cci\<close>.

  A point in time is a number of nanoseconds. The multiset \<open>timers_\<close> is the list of its events in
  iteration order. A timer of the kernel is the time it is armed for, if it is armed.
\<close>

section \<open>Clock values\<close>

definition nanoseconds :: "int \<Rightarrow> int" where "nanoseconds v = v"
definition microseconds :: "int \<Rightarrow> int" where "microseconds v = v * nanoseconds 1000"
definition milliseconds :: "int \<Rightarrow> int" where "milliseconds v = v * microseconds 1000"
definition seconds :: "int \<Rightarrow> int" where "seconds v = v * milliseconds 1000"
definition minutes :: "int \<Rightarrow> int" where "minutes v = v * seconds 60"
definition hours :: "int \<Rightarrow> int" where "hours v = v * minutes 60"
definition days :: "int \<Rightarrow> int" where "days v = v * hours 24"

definition in_nanoseconds :: "int \<Rightarrow> int" where "in_nanoseconds v = v"
definition in_microseconds :: "int \<Rightarrow> int" where "in_microseconds v = v sdiv nanoseconds 1000"
definition in_milliseconds :: "int \<Rightarrow> int" where "in_milliseconds v = v sdiv microseconds 1000"
definition in_seconds :: "int \<Rightarrow> int" where "in_seconds v = v sdiv milliseconds 1000"
definition in_minutes :: "int \<Rightarrow> int" where "in_minutes v = v sdiv seconds 60"
definition in_hours :: "int \<Rightarrow> int" where "in_hours v = v sdiv minutes 60"
definition in_days :: "int \<Rightarrow> int" where "in_days v = v sdiv hours 24"

lemmas clock_defs = nanoseconds_def microseconds_def milliseconds_def seconds_def minutes_def hours_def
  days_def in_nanoseconds_def in_microseconds_def in_milliseconds_def in_seconds_def in_minutes_def
  in_hours_def in_days_def

text \<open>Conversion to a 32 bit \<open>int\<close>.\<close>

definition to_int :: "int \<Rightarrow> int" where
  "to_int v = (v + 2 ^ 31) mod 2 ^ 32 - 2 ^ 31"

section \<open>State\<close>

text \<open>The members of \<open>POSIXTimerSource\<close> and \<open>TimerFDTimerSource\<close>, and the kernel timer they use.\<close>

record hires =
  ts_enabled :: bool
  ts_timeout :: int
  ts_signalEnabled :: bool
  ts_armed :: "(int \<times> int) option"

datatype timer_source = PollSource | POSIXSource hires | TimerFDSource hires

record 'k timer_sys = "'k fd_sys" +
  sc_timeoutOf :: "nat \<Rightarrow> int"
  sc_timers :: "nat list"
  sc_source :: timer_source
  sc_idle :: "nat list"
  sc_idleTimeout :: int
  sc_hooks :: "nat list"

section \<open>Idle events\<close>

definition idle_timeout :: "int \<Rightarrow> ('k, 'z) timer_sys_scheme \<Rightarrow> ('k, 'z) timer_sys_scheme" where
  "idle_timeout t s =
     (let s1 = s\<lparr>sc_idleTimeout := t\<rparr>
      in if sc_idle s1 = [] then fld_timeout (sc_idleTimeout s1) s1 else s1)"

definition idle_add :: "nat \<Rightarrow> ('k, 'z) timer_sys_scheme \<Rightarrow> (('k, 'z) timer_sys_scheme, unit) sres" where
  "idle_add t s =
     sbind (runner_enqueue t (s\<lparr>sc_idle := sc_idle s @ [t]\<rparr>)) (\<lambda>_ s1. (Inr (), fld_timeout 0 s1))"

definition idle_remove :: "nat \<Rightarrow> ('k, 'z) timer_sys_scheme \<Rightarrow> (('k, 'z) timer_sys_scheme, unit) sres" where
  "idle_remove t s =
     sbind (runner_dequeue t s) (\<lambda>_ s1.
       let s2 = s1\<lparr>sc_idle := remove1 t (sc_idle s1)\<rparr>
       in (Inr (), if sc_idle s2 = [] then fld_timeout (sc_idleTimeout s2) s2 else s2))"

definition idle_prepareRun :: "('k, 'z) timer_sys_scheme \<Rightarrow> ('k, 'z) timer_sys_scheme" where
  "idle_prepareRun s = foldl (\<lambda>s i. make_runnable i s) s (sc_idle s)"

definition ie_enable :: "nat \<Rightarrow> ('k, 'z) timer_sys_scheme \<Rightarrow> (('k, 'z) timer_sys_scheme, unit) sres" where
  "ie_enable t s =
     (if \<not> fe_enabled t s then sbind (idle_add t s) (\<lambda>_ s1. (Inr (), make_runnable t s1)) else (Inr (), s))"

definition ie_disable :: "nat \<Rightarrow> ('k, 'z) timer_sys_scheme \<Rightarrow> (('k, 'z) timer_sys_scheme, unit) sres" where
  "ie_disable t s = (if fe_enabled t s then idle_remove t s else (Inr (), s))"

section \<open>Event hooks\<close>

definition hook_add :: "nat \<Rightarrow> ('k, 'z) timer_sys_scheme \<Rightarrow> (('k, 'z) timer_sys_scheme, unit) sres" where
  "hook_add t s = runner_enqueue t (s\<lparr>sc_hooks := sc_hooks s @ [t]\<rparr>)"

definition hook_remove :: "nat \<Rightarrow> ('k, 'z) timer_sys_scheme \<Rightarrow> (('k, 'z) timer_sys_scheme, unit) sres" where
  "hook_remove t s =
     sbind (runner_dequeue t s) (\<lambda>_ s1. (Inr (), s1\<lparr>sc_hooks := remove1 t (sc_hooks s1)\<rparr>))"

definition hook_prepareRun :: "('k, 'z) timer_sys_scheme \<Rightarrow> ('k, 'z) timer_sys_scheme" where
  "hook_prepareRun s = foldl (\<lambda>s i. make_runnable i s) s (sc_hooks s)"

definition eh_enable :: "nat \<Rightarrow> ('k, 'z) timer_sys_scheme \<Rightarrow> (('k, 'z) timer_sys_scheme, unit) sres" where
  "eh_enable t s =
     (if \<not> fe_enabled t s then sbind (hook_add t s) (\<lambda>_ s1. (Inr (), make_runnable t s1)) else (Inr (), s))"

definition eh_disable :: "nat \<Rightarrow> ('k, 'z) timer_sys_scheme \<Rightarrow> (('k, 'z) timer_sys_scheme, unit) sres" where
  "eh_disable t s = (if fe_enabled t s then hook_remove t s else (Inr (), s))"

section \<open>Timer sources\<close>

text \<open>\<open>reschedule\<close> of the two kernel timer sources: the timer is set to the absolute time.\<close>

definition hires_reschedule :: "hires \<Rightarrow> hires" where
  "hires_reschedule h =
     h\<lparr>ts_armed :=
        (if ts_enabled h
         then let sec = in_seconds (ts_timeout h);
                  nsec = in_nanoseconds (ts_timeout h - seconds sec)
              in if sec = 0 \<and> nsec = 0 then None else Some (sec, nsec)
         else None)\<rparr>"

definition hires_timeout :: "int \<Rightarrow> hires \<Rightarrow> hires" where
  "hires_timeout t h =
     (if \<not> ts_enabled h \<or> ts_timeout h \<noteq> t
      then hires_reschedule (h\<lparr>ts_timeout := (if t \<le> 0 then 1 else t), ts_enabled := True\<rparr>)
      else h)"

definition hires_notimeout :: "hires \<Rightarrow> hires" where
  "hires_notimeout h = (if ts_enabled h then hires_reschedule (h\<lparr>ts_enabled := False\<rparr>) else h)"

definition posix_enable :: "hires \<Rightarrow> hires" where
  "posix_enable h = (if \<not> ts_signalEnabled h then h\<lparr>ts_signalEnabled := True\<rparr> else h)"

definition posix_disable :: "hires \<Rightarrow> hires" where
  "posix_disable h = (if ts_signalEnabled h then h\<lparr>ts_signalEnabled := False\<rparr> else h)"

definition posix_signal :: "hires \<Rightarrow> hires" where
  "posix_signal h = h\<lparr>ts_enabled := False\<rparr>"

definition timerfd_signal :: "hires \<Rightarrow> hires" where
  "timerfd_signal h = h"

text \<open>An armed timer that expires is no longer armed.\<close>

definition timer_expires :: "hires \<Rightarrow> hires" where
  "timer_expires h = h\<lparr>ts_armed := None\<rparr>"

text \<open>\<open>now\<close> is what \<open>ClockService::now()\<close> returns.\<close>

definition poll_delay :: "int \<Rightarrow> int \<Rightarrow> int" where
  "poll_delay now t = (let delay = to_int (in_milliseconds (t - now) + 1) in if delay < 0 then 0 else delay)"

definition source_timeout :: "int \<Rightarrow> int \<Rightarrow> ('k, 'z) timer_sys_scheme \<Rightarrow> ('k, 'z) timer_sys_scheme" where
  "source_timeout now t s =
     (case sc_source s of
        PollSource \<Rightarrow> idle_timeout (poll_delay now t) s
      | POSIXSource h \<Rightarrow> s\<lparr>sc_source := POSIXSource (hires_timeout t h)\<rparr>
      | TimerFDSource h \<Rightarrow> s\<lparr>sc_source := TimerFDSource (hires_timeout t h)\<rparr>)"

definition source_notimeout :: "('k, 'z) timer_sys_scheme \<Rightarrow> ('k, 'z) timer_sys_scheme" where
  "source_notimeout s =
     (case sc_source s of
        PollSource \<Rightarrow> idle_timeout (- 1) s
      | POSIXSource h \<Rightarrow> s\<lparr>sc_source := POSIXSource (hires_notimeout h)\<rparr>
      | TimerFDSource h \<Rightarrow> s\<lparr>sc_source := TimerFDSource (hires_notimeout h)\<rparr>)"

section \<open>Timers\<close>

definition timer_insert :: "(nat \<Rightarrow> int) \<Rightarrow> nat \<Rightarrow> nat list \<Rightarrow> nat list" where
  "timer_insert tmo t ts =
     takeWhile (\<lambda>i. tmo i \<le> tmo t) ts @ t # dropWhile (\<lambda>i. tmo i \<le> tmo t) ts"

definition timer_add :: "nat \<Rightarrow> ('k, 'z) timer_sys_scheme \<Rightarrow> (('k, 'z) timer_sys_scheme, unit) sres" where
  "timer_add t s = runner_enqueue t (s\<lparr>sc_timers := timer_insert (sc_timeoutOf s) t (sc_timers s)\<rparr>)"

definition timer_remove :: "nat \<Rightarrow> ('k, 'z) timer_sys_scheme \<Rightarrow> (('k, 'z) timer_sys_scheme, unit) sres" where
  "timer_remove t s =
     sbind (runner_dequeue t s) (\<lambda>_ s1. (Inr (), s1\<lparr>sc_timers := remove1 t (sc_timers s1)\<rparr>))"

definition timer_prepareRun :: "('k, 'z) timer_sys_scheme \<Rightarrow> ('k, 'z) timer_sys_scheme" where
  "timer_prepareRun s =
     foldl (\<lambda>s i. make_runnable i s) s
       (takeWhile (\<lambda>i. sc_timeoutOf s i \<le> sc_eventTime s) (sc_timers s))"

definition timer_reschedule :: "int \<Rightarrow> ('k, 'z) timer_sys_scheme \<Rightarrow> ('k, 'z) timer_sys_scheme" where
  "timer_reschedule now s =
     (case sc_timers s of
        [] \<Rightarrow> source_notimeout s
      | t # _ \<Rightarrow> source_timeout now (sc_timeoutOf s t) s)"

definition te_enable :: "nat \<Rightarrow> ('k, 'z) timer_sys_scheme \<Rightarrow> (('k, 'z) timer_sys_scheme, unit) sres" where
  "te_enable t s = (if t \<notin> set (sc_timers s) then timer_add t s else (Inr (), s))"

definition te_disable :: "nat \<Rightarrow> ('k, 'z) timer_sys_scheme \<Rightarrow> (('k, 'z) timer_sys_scheme, unit) sres" where
  "te_disable t s = (if t \<in> set (sc_timers s) then timer_remove t s else (Inr (), s))"

definition te_set_timeout ::
  "nat \<Rightarrow> int \<Rightarrow> bool \<Rightarrow> ('k, 'z) timer_sys_scheme \<Rightarrow> (('k, 'z) timer_sys_scheme, unit) sres" where
  "te_set_timeout t tmo initiallyEnabled s =
     sbind (te_disable t s) (\<lambda>_ s1.
       let s2 = s1\<lparr>sc_timeoutOf := (sc_timeoutOf s1)(t := tmo)\<rparr>
       in if initiallyEnabled then te_enable t s2 else (Inr (), s2))"

definition source_enable :: "('k, 'z) timer_sys_scheme \<Rightarrow> ('k, 'z) timer_sys_scheme" where
  "source_enable s =
     (case sc_source s of POSIXSource h \<Rightarrow> s\<lparr>sc_source := POSIXSource (posix_enable h)\<rparr> | _ \<Rightarrow> s)"

definition source_disable :: "('k, 'z) timer_sys_scheme \<Rightarrow> ('k, 'z) timer_sys_scheme" where
  "source_disable s =
     (case sc_source s of POSIXSource h \<Rightarrow> s\<lparr>sc_source := POSIXSource (posix_disable h)\<rparr> | _ \<Rightarrow> s)"

definition source_signal :: "('k, 'z) timer_sys_scheme \<Rightarrow> ('k, 'z) timer_sys_scheme" where
  "source_signal s =
     (case sc_source s of
        PollSource \<Rightarrow> s
      | POSIXSource h \<Rightarrow> s\<lparr>sc_source := POSIXSource (posix_signal h)\<rparr>
      | TimerFDSource h \<Rightarrow> s\<lparr>sc_source := TimerFDSource (timerfd_signal h)\<rparr>)"

section \<open>Invariants\<close>

definition timer_ok :: "('k, 'z) timer_sys_scheme \<Rightarrow> bool" where
  "timer_ok s \<longleftrightarrow> fifo_ok (sc_runner s) \<and> sorted (map (sc_timeoutOf s) (sc_timers s)) \<and>
     distinct (sc_timers s) \<and> set (sc_timers s) \<subseteq> linked (sc_runner s)"

text \<open>A source that believes to be armed is armed for the time it remembers.\<close>

definition hires_ok :: "hires \<Rightarrow> bool" where
  "hires_ok h \<longleftrightarrow> (ts_enabled h \<longrightarrow> 1 \<le> ts_timeout h \<and>
     (\<exists>sec nsec. ts_armed h = Some (sec, nsec) \<and> seconds sec + nsec = ts_timeout h \<and> 0 \<le> nsec \<and> nsec < seconds 1))"

text \<open>
  The cascade of poll timeouts: the poller does not block while a file or an idle event is
  registered, and otherwise waits as long as the timer source asks for.
\<close>

definition timeouts_ok :: "('k, 'z) timer_sys_scheme \<Rightarrow> bool" where
  "timeouts_ok s \<longleftrightarrow> sc_managerTimeout s = (if sc_idle s = [] then sc_idleTimeout s else 0) \<and>
     sc_pollTimeout s = (if sc_files s = [] then sc_managerTimeout s else 0)"

lemma sorted_insert_between:
  "sorted (map f (xs @ ys)) \<Longrightarrow> \<forall>i \<in> set xs. f i \<le> f t \<Longrightarrow> \<forall>i \<in> set ys. f t \<le> f i \<Longrightarrow>
     sorted (map f (xs @ t # ys))"
  by (auto simp: sorted_append)

lemma sorted_timer_insert:
  assumes "sorted (map f ts)"
  shows "sorted (map f (timer_insert f t ts))"
proof -
  have split: "sorted (map f (takeWhile (\<lambda>i. f i \<le> f t) ts @ dropWhile (\<lambda>i. f i \<le> f t) ts))"
    using assms by simp
  have "f i \<le> f t" if "i \<in> set (takeWhile (\<lambda>i. f i \<le> f t) ts)" for i
    using that by (auto dest: set_takeWhileD)
  moreover have "f t \<le> f i" if "i \<in> set (dropWhile (\<lambda>i. f i \<le> f t) ts)" for i
    using assms that by (induction ts) (auto split: if_splits)
  ultimately show ?thesis unfolding timer_insert_def by (intro sorted_insert_between [OF split]) blast+
qed

lemma set_timer_insert [simp]: "set (timer_insert f t ts) = insert t (set ts)"
proof -
  have "set ts = set (takeWhile (\<lambda>i. f i \<le> f t) ts) \<union> set (dropWhile (\<lambda>i. f i \<le> f t) ts)"
    by (metis set_append takeWhile_dropWhile_id)
  then show ?thesis by (auto simp: timer_insert_def)
qed

lemma distinct_timer_insert:
  assumes "distinct ts" "t \<notin> set ts"
  shows "distinct (timer_insert f t ts)"
proof -
  have between: "distinct (xs @ ys) \<Longrightarrow> t \<notin> set (xs @ ys) \<Longrightarrow> distinct (xs @ t # ys)" for xs ys by auto
  show ?thesis unfolding timer_insert_def by (rule between) (use assms in simp_all)
qed

lemma sorted_map_upd: "t \<notin> set ts \<Longrightarrow> map (f(t := v)) ts = map f ts"
  by simp

lemma runner_enqueue_ok:
  assumes "fifo_ok (sc_runner s)" "t \<notin> linked (sc_runner s)"
  obtains r where "runner_enqueue t s = (Inr (), s\<lparr>sc_runner := r\<rparr>)" "fifo_ok r"
    "linked r = insert t (linked (sc_runner s))"
proof -
  obtain r where "enqueue t (sc_runner s) = Some r" "fifo_ok r" "linked r = insert t (linked (sc_runner s))"
    using assms by (rule fq.enqE)
  then show thesis by (intro that [of r]) (simp_all add: runner_enqueue_def)
qed

lemma te_disable_ok:
  assumes "timer_ok s"
  obtains s' where "te_disable t s = (Inr (), s')" "timer_ok s'" "sc_timers s' = remove1 t (sc_timers s)"
    "sc_timeoutOf s' = sc_timeoutOf s" "linked (sc_runner s') = linked (sc_runner s) - ({t} \<inter> set (sc_timers s))"
proof (cases "t \<in> set (sc_timers s)")
  case False
  then show thesis using assms that [of s] by (simp add: te_disable_def remove1_idem)
next
  case True
  then obtain r where r: "runner_dequeue t s = (Inr (), s\<lparr>sc_runner := r\<rparr>)" "fifo_ok r"
    "linked r = linked (sc_runner s) - {t}"
    using runner_dequeue_ok [of s t] assms by (auto simp: timer_ok_def)
  then have "te_disable t s = (Inr (), s\<lparr>sc_runner := r, sc_timers := remove1 t (sc_timers s)\<rparr>)"
    using True by (simp add: te_disable_def timer_remove_def)
  moreover have "timer_ok (s\<lparr>sc_runner := r, sc_timers := remove1 t (sc_timers s)\<rparr>)"
    using assms r sorted_remove1_map by (auto simp: timer_ok_def)
  ultimately show thesis using that True r(3) by auto
qed

lemma te_enable_ok:
  assumes "timer_ok s" "t \<notin> set (sc_timers s)" "t \<notin> linked (sc_runner s)"
  obtains s' where "te_enable t s = (Inr (), s')" "timer_ok s'"
    "sc_timers s' = timer_insert (sc_timeoutOf s) t (sc_timers s)" "sc_timeoutOf s' = sc_timeoutOf s"
    "linked (sc_runner s') = insert t (linked (sc_runner s))"
proof -
  let ?s = "s\<lparr>sc_timers := timer_insert (sc_timeoutOf s) t (sc_timers s)\<rparr>"
  obtain r where r: "runner_enqueue t ?s = (Inr (), ?s\<lparr>sc_runner := r\<rparr>)" "fifo_ok r"
    "linked r = insert t (linked (sc_runner s))"
    using runner_enqueue_ok [of ?s t] assms by (auto simp: timer_ok_def)
  moreover have "timer_ok (?s\<lparr>sc_runner := r\<rparr>)"
    using assms r(2,3) sorted_timer_insert distinct_timer_insert by (auto simp: timer_ok_def)
  ultimately show thesis using that [of "?s\<lparr>sc_runner := r\<rparr>"] assms(2)
    by (auto simp: te_enable_def timer_add_def)
qed

lemma runnable_loop:
  "fr_runnable (sc_runner (foldl (\<lambda>s i. make_runnable i s) s is)) j \<longleftrightarrow>
     fr_runnable (sc_runner s) j \<or> j \<in> set is"
  by (induction "is" arbitrary: s) (auto simp: make_runnable_def setRunnable_def)

lemma expired_prefix:
  assumes "sorted (map f ts)"
  shows "set (takeWhile (\<lambda>i. f i \<le> (now :: int)) ts) = {i \<in> set ts. f i \<le> now}"
  using assms by (induction ts) (auto split: if_splits intro: order_trans)

lemma in_seconds_split:
  assumes "0 \<le> v"
  shows "seconds (in_seconds v) + (v - seconds (in_seconds v)) = v"
    "0 \<le> v - seconds (in_seconds v)" "v - seconds (in_seconds v) < seconds 1"
proof -
  have eq: "in_seconds v = v div 1000000000"
    using assms by (cases "v = 0") (simp_all add: clock_defs signed_divide_int_def)
  then have "v - seconds (in_seconds v) = v mod 1000000000"
    by (simp add: clock_defs minus_div_mult_eq_mod [symmetric])
  then show "0 \<le> v - seconds (in_seconds v)" "v - seconds (in_seconds v) < seconds 1"
    by (simp_all add: clock_defs)
qed simp

lemma hires_timeout_ok:
  assumes "hires_ok h"
  shows "hires_ok (hires_timeout t h) \<and> ts_enabled (hires_timeout t h) \<and> ts_timeout (hires_timeout t h) = max 1 t"
proof (cases "\<not> ts_enabled h \<or> ts_timeout h \<noteq> t")
  case False
  with assms show ?thesis by (simp add: hires_timeout_def hires_ok_def)
next
  case True
  let ?t = "max 1 t" and ?sec = "in_seconds (max 1 t)"
  note split = in_seconds_split [of ?t]
  have "\<not> (?sec = 0 \<and> ?t - seconds ?sec = 0)" by (auto simp: clock_defs)
  moreover have "(if t \<le> 0 then 1 else t) = ?t" by auto
  ultimately show ?thesis
    using True split by (auto simp: hires_timeout_def hires_ok_def hires_reschedule_def in_nanoseconds_def Let_def)
qed

lemma first_is_Min:
  assumes "sorted (map f (t # ts))"
  shows "f t = Min (f ` set (t # ts))"
  using assms by (intro Min_eqI [symmetric]) auto

lemma fld_timeout_frame [simp]:
  "sc_files (fld_timeout n s) = sc_files s" "sc_managerTimeout (fld_timeout n s) = n"
  "sc_pollTimeout (fld_timeout n s) = (if sc_files s = [] then n else sc_pollTimeout s)"
  "sc_idle (fld_timeout n s) = sc_idle s" "sc_idleTimeout (fld_timeout n s) = sc_idleTimeout s"
  "sc_runner (fld_timeout n s) = sc_runner s" "sc_timers (fld_timeout n s) = sc_timers s"
  "sc_timeoutOf (fld_timeout n s) = sc_timeoutOf s" "sc_source (fld_timeout n s) = sc_source s"
  by (simp_all add: fld_timeout_def Let_def)

lemma idle_timeout_ok: "timeouts_ok s \<Longrightarrow> timeouts_ok (idle_timeout t s) \<and> sc_idleTimeout (idle_timeout t s) = t"
  by (auto simp: timeouts_ok_def idle_timeout_def Let_def split: if_splits)

lemma runner_op_frame:
  assumes "runner_enqueue t s = (Inr (), s') \<or> runner_dequeue t s = (Inr (), s')"
  obtains r where "s' = s\<lparr>sc_runner := r\<rparr>"
  using assms by (auto simp: runner_enqueue_def runner_dequeue_def split: option.splits)

lemma idle_ops_ok:
  assumes "timeouts_ok s"
  shows "ie_enable t s = (Inr (), s') \<Longrightarrow> timeouts_ok s'"
    "ie_disable t s = (Inr (), s') \<Longrightarrow> timeouts_ok s'"
proof -
  show "timeouts_ok s'" if en: "ie_enable t s = (Inr (), s')"
  proof (cases "fe_enabled t s")
    case True
    then show ?thesis using en assms by (simp add: ie_enable_def)
  next
    case False
    let ?s = "s\<lparr>sc_idle := sc_idle s @ [t]\<rparr>"
    from False en obtain s1 where s1: "runner_enqueue t ?s = (Inr (), s1)" "s' = make_runnable t (fld_timeout 0 s1)"
      by (auto simp: ie_enable_def idle_add_def sbind_def split: prod.splits sum.splits)
    then obtain r where "s1 = ?s\<lparr>sc_runner := r\<rparr>" using runner_op_frame by blast
    then show ?thesis using assms s1(2) by (auto simp: timeouts_ok_def make_runnable_def)
  qed
  show "timeouts_ok s'" if dis: "ie_disable t s = (Inr (), s')"
  proof (cases "fe_enabled t s")
    case False
    then show ?thesis using dis assms by (simp add: ie_disable_def)
  next
    case True
    with dis obtain s1 where s1: "runner_dequeue t s = (Inr (), s1)"
      "s' = (let s2 = s1\<lparr>sc_idle := remove1 t (sc_idle s1)\<rparr>
             in if sc_idle s2 = [] then fld_timeout (sc_idleTimeout s2) s2 else s2)"
      by (auto simp: ie_disable_def idle_remove_def sbind_def Let_def split: prod.splits sum.splits)
    then obtain r where "s1 = s\<lparr>sc_runner := r\<rparr>" using runner_op_frame by blast
    then show ?thesis using assms s1(2) by (auto simp: timeouts_ok_def Let_def split: if_splits)
  qed
qed

lemma file_ops_ok:
  fixes s :: "('k, 'z) timer_sys_scheme"
  assumes "timeouts_ok s"
  shows "fld_add t s = (Inr (), s') \<Longrightarrow> timeouts_ok s'"
    "fld_remove t s = (Inr (), s') \<Longrightarrow> timeouts_ok s'"
proof -
  show "timeouts_ok s'" if add: "fld_add t s = (Inr (), s')"
  proof -
    from add obtain s1 where s1: "runner_enqueue t s = (Inr (), s1)"
      "s' = s1\<lparr>sc_files := set_insert s1 t (sc_files s1), sc_pollTimeout := 0\<rparr>"
      by (auto simp: fld_add_def sbind_def Let_def split: prod.splits sum.splits if_splits)
    then obtain r where "s1 = s\<lparr>sc_runner := r\<rparr>" using runner_op_frame by blast
    then show ?thesis using assms s1(2) by (auto simp: timeouts_ok_def set_insert_def)
  qed
  show "timeouts_ok s'" if rem: "fld_remove t s = (Inr (), s')"
  proof -
    let ?s = "s\<lparr>sc_files := remove1 t (sc_files s)\<rparr>"
    from rem obtain s1 where s1: "runner_dequeue t ?s = (Inr (), s1)"
      "s' = (if sc_files s1 = [] then s1\<lparr>sc_pollTimeout := sc_managerTimeout s1\<rparr> else s1)"
      by (auto simp: fld_remove_def sbind_def Let_def split: prod.splits sum.splits if_splits)
    then obtain r where "s1 = ?s\<lparr>sc_runner := r\<rparr>" using runner_op_frame by blast
    then show ?thesis using assms s1(2) by (auto simp: timeouts_ok_def split: if_splits)
  qed
qed

section \<open>Properties of timers\<close>

definition sample_timers :: "(int \<Rightarrow> (mask \<times> poll_target) option) timer_sys" where
  "sample_timers = \<lparr>sc_runner = (fifo_init (\<lambda>_. ''tm'') (\<lambda>_. PRIORITY_NORMAL))
       \<lparr>fr_tasks := [HighPriorityEnd, Task 1, Task 2, NormalPriorityEnd]\<rparr>,
     sc_kernel = Map.empty, sc_pollTimeout = -1, sc_eventTime = 5000,
     sc_fdev = (\<lambda>_. \<lparr>fe_fd = -1, fe_pollable = True, fe_events = 0, fe_signaled = 0\<rparr>),
     sc_fds = [], sc_files = [], sc_managerTimeout = -1,
     sc_timeoutOf = (\<lambda>t. if t = 1 then 9000 else 4000), sc_timers = [2, 1],
     sc_source = TimerFDSource \<lparr>ts_enabled = False, ts_timeout = 0, ts_signalEnabled = False, ts_armed = None\<rparr>,
     sc_idle = [], sc_idleTimeout = -1, sc_hooks = []\<rparr>"

lemma sample_timers_ok: "timer_ok sample_timers" "timeouts_ok sample_timers"
proof -
  have "fifo_ok (sc_runner sample_timers)"
    by (rule fifo_okI [where S = "(\<lambda>_. [])(PRIORITY_NORMAL := [Task 1, Task 2])"])
      (auto simp: sample_timers_def queue_ok_def queue_of_def fifo_init_def split: if_splits)
  then show "timer_ok sample_timers"
    by (auto simp: timer_ok_def sample_timers_def linked_def)
  show "timeouts_ok sample_timers" by (simp add: timeouts_ok_def sample_timers_def)
qed

text \<open>C9: The scheduler makes a timer runnable exactly when it has expired: \<open>prepareRun\<close> stops at the
  first timer that is not due, and since the set is ordered by deadline it has then seen all that
  are.\<close>

theorem timer_prepareRun_expired:
  assumes "timer_ok s"
  shows "fr_runnable (sc_runner (timer_prepareRun s)) i \<longleftrightarrow>
    fr_runnable (sc_runner s) i \<or> i \<in> set (sc_timers s) \<and> sc_timeoutOf s i \<le> sc_eventTime s"
proof -
  have "sorted (map (sc_timeoutOf s) (sc_timers s))" using assms by (simp add: timer_ok_def)
  from expired_prefix [OF this] show ?thesis by (simp add: timer_prepareRun_def runnable_loop)
qed

theorem timer_prepareRun_expired_witness:
  "fr_runnable (sc_runner (timer_prepareRun sample_timers)) 2 \<and>
   \<not> fr_runnable (sc_runner (timer_prepareRun sample_timers)) 1"
  using timer_prepareRun_expired [OF sample_timers_ok(1)]
  by (simp add: sample_timers_def fifo_init_def)

text \<open>Setting the timeout of a timer moves it to its place in the ordered set: afterwards the set
  is ordered by the new deadlines, holds the timer once (or not at all when it is not to be
  enabled), keeps all other timers, and the task is queued with the runner accordingly.\<close>

theorem te_set_timeout_orders:
  assumes "timer_ok s" "t \<in> linked (sc_runner s) \<longleftrightarrow> t \<in> set (sc_timers s)"
  shows "\<exists>s'. te_set_timeout t tmo en s = (Inr (), s') \<and> timer_ok s' \<and> sc_timeoutOf s' t = tmo \<and>
    set (sc_timers s') = (if en then insert t (set (sc_timers s)) else set (sc_timers s) - {t}) \<and>
    linked (sc_runner s') = (if en then insert t (linked (sc_runner s)) else linked (sc_runner s) - {t})"
proof -
  obtain s1 where s1: "te_disable t s = (Inr (), s1)" "timer_ok s1" "sc_timers s1 = remove1 t (sc_timers s)"
    "sc_timeoutOf s1 = sc_timeoutOf s" "linked (sc_runner s1) = linked (sc_runner s) - ({t} \<inter> set (sc_timers s))"
    using assms(1) by (rule te_disable_ok [where t = t])
  have gone: "t \<notin> set (sc_timers s1)" "t \<notin> linked (sc_runner s1)"
    "set (sc_timers s1) = set (sc_timers s) - {t}" "linked (sc_runner s1) = linked (sc_runner s) - {t}"
    using assms s1(3,5) by (auto simp: timer_ok_def)
  let ?s = "s1\<lparr>sc_timeoutOf := (sc_timeoutOf s1)(t := tmo)\<rparr>"
  have ok: "timer_ok ?s" using s1(2) gone(1) by (simp add: timer_ok_def)
  show ?thesis
  proof (cases en)
    case False
    with s1(1) gone ok show ?thesis by (auto simp: te_set_timeout_def)
  next
    case True
    obtain s2 where s2: "te_enable t ?s = (Inr (), s2)" "timer_ok s2"
      "sc_timers s2 = timer_insert (sc_timeoutOf ?s) t (sc_timers ?s)" "sc_timeoutOf s2 = sc_timeoutOf ?s"
      "linked (sc_runner s2) = insert t (linked (sc_runner ?s))"
      by (rule te_enable_ok [OF ok, of t]) (use gone in auto)
    have "te_set_timeout t tmo en s = (Inr (), s2)"
      using True s1(1) s2(1) by (simp add: te_set_timeout_def Let_def)
    then show ?thesis using s2 gone True by auto
  qed
qed

theorem te_set_timeout_orders_witness:
  "\<exists>s'. te_set_timeout 1 3000 True sample_timers = (Inr (), s') \<and> set (sc_timers s') = {1, 2} \<and>
     sc_timeoutOf s' 1 = 3000 \<and> timer_ok s'"
  using te_set_timeout_orders [OF sample_timers_ok(1), of 1 3000 True]
  by (auto simp: sample_timers_def linked_def insert_commute)

text \<open>Rescheduling arms a kernel timer source for the earliest deadline (at least one nanosecond
  after the epoch), in seconds and nanoseconds below one second, as the kernel requires.\<close>

theorem timer_reschedule_arms_first:
  assumes "timer_ok s" "sc_timers s \<noteq> []" "hires_ok h"
    and "mk = POSIXSource \<or> mk = TimerFDSource" "sc_source s = mk h"
  shows "\<exists>h' sec nsec. sc_source (timer_reschedule now s) = mk h' \<and> hires_ok h' \<and>
    ts_armed h' = Some (sec, nsec) \<and> 0 \<le> nsec \<and> nsec < 1000000000 \<and>
    sec * 1000000000 + nsec = max 1 (Min (sc_timeoutOf s ` set (sc_timers s)))"
proof -
  obtain t ts where ts: "sc_timers s = t # ts" using assms(2) by (cases "sc_timers s") auto
  have "sc_timeoutOf s t = Min (sc_timeoutOf s ` set (sc_timers s))"
    using first_is_Min [of "sc_timeoutOf s" t ts] assms(1) ts by (simp add: timer_ok_def)
  moreover have "sc_source (timer_reschedule now s) = mk (hires_timeout (sc_timeoutOf s t) h)"
    using ts assms(4,5) by (auto simp: timer_reschedule_def source_timeout_def)
  moreover note hires_timeout_ok [OF assms(3), of "sc_timeoutOf s t"]
  ultimately show ?thesis by (auto simp: hires_ok_def clock_defs)
qed

theorem timer_reschedule_arms_first_witness:
  "\<exists>h'. sc_source (timer_reschedule 0 sample_timers) = TimerFDSource h' \<and> ts_armed h' \<noteq> None"
proof -
  let ?h = "\<lparr>ts_enabled = False, ts_timeout = 0, ts_signalEnabled = False, ts_armed = None\<rparr>"
  have "hires_ok ?h" "sc_timers sample_timers \<noteq> []" "sc_source sample_timers = TimerFDSource ?h"
    by (simp_all add: hires_ok_def sample_timers_def)
  with timer_reschedule_arms_first [OF sample_timers_ok(1), of ?h TimerFDSource 0] show ?thesis by auto
qed

text \<open>The polling timer source waits long enough but never a full millisecond too long: for a
  deadline less than 24 days ahead the delay handed to \<open>epoll_wait\<close> ends after the deadline, and by
  less than two milliseconds.\<close>

theorem poll_delay_bounds:
  assumes "now \<le> t" "t - now < 2147483646 * 1000000"
  shows "t - now < poll_delay now t * 1000000 \<and> poll_delay now t * 1000000 \<le> t - now + 1000000 \<and>
    0 < poll_delay now t \<and> poll_delay now t < 2147483647"
proof -
  have ms: "in_milliseconds (t - now) = (t - now) div 1000000"
    using assms(1) by (cases "t = now") (simp_all add: clock_defs signed_divide_int_def)
  let ?q = "(t - now) div 1000000"
  have q: "0 \<le> ?q" "?q < 2147483646" "?q * 1000000 \<le> t - now" "t - now < ?q * 1000000 + 1000000"
    using assms mult_div_mod_eq [of 1000000 "t - now"] pos_mod_bound [of 1000000 "t - now"]
      pos_mod_sign [of 1000000 "t - now"] by linarith+
  then have "poll_delay now t = ?q + 1" by (simp add: poll_delay_def ms to_int_def Let_def)
  with q show ?thesis by (simp add: algebra_simps)
qed

theorem poll_delay_bounds_witness: "poll_delay 0 2500000 = 3"
  using poll_delay_bounds [of 0 2500000] by linarith

text \<open>A deadline between \<open>2^31 - 1\<close> and \<open>2^32 - 2\<close> milliseconds ahead (about 25 to 50 days) overflows
  the \<open>int\<close> delay of the polling source: the delay becomes zero, so the scheduler polls without
  waiting until the deadline is near.\<close>

theorem poll_delay_wraps:
  assumes "2147483647 * 1000000 \<le> t - now" "t - now < 4294967295 * 1000000"
  shows "poll_delay now t = 0"
proof -
  have ms: "in_milliseconds (t - now) = (t - now) div 1000000"
    using assms(1) by (simp add: clock_defs signed_divide_int_def)
  have q: "2147483647 \<le> (t - now) div 1000000" "(t - now) div 1000000 < 4294967295"
    using assms mult_div_mod_eq [of 1000000 "t - now"] pos_mod_bound [of 1000000 "t - now"]
      pos_mod_sign [of 1000000 "t - now"] by linarith+
  define d where "d = (t - now) div 1000000 + 1"
  have d: "2147483648 \<le> d" "d < 4294967296" using q by (simp_all add: d_def)
  have "(d + 2147483648) mod 4294967296 = ((d - 2147483648) + 4294967296) mod 4294967296"
    by (simp add: add.commute)
  also have "\<dots> = d - 2147483648" unfolding mod_add_self2 using d by simp
  finally have "(d + 2147483648) mod 4294967296 = d - 2147483648" .
  then show ?thesis using d by (simp add: poll_delay_def ms to_int_def Let_def d_def [symmetric])
qed

theorem poll_delay_wraps_witness: "poll_delay 0 (milliseconds 2592000000) = 0"
  using poll_delay_wraps [of "milliseconds 2592000000" 0] by (simp add: clock_defs)

text \<open>After its timer has expired, the timer descriptor source ignores a request for the same
  deadline and the kernel timer stays disarmed, so a timer still pending for that deadline is not
  woken again; the POSIX source, which forgets the deadline when it is signalled, arms it again.\<close>

theorem timerfd_same_deadline_lost:
  assumes "ts_enabled h" "ts_timeout h = t" "1 \<le> t"
  shows "ts_armed (hires_timeout t (timerfd_signal (timer_expires h))) = None \<and>
    hires_ok (hires_timeout t (posix_signal (timer_expires h))) \<and>
    ts_armed (hires_timeout t (posix_signal (timer_expires h))) \<noteq> None"
proof -
  have "hires_ok (posix_signal (timer_expires h))" by (simp add: hires_ok_def posix_signal_def)
  from hires_timeout_ok [OF this, of t]
  have "hires_ok (hires_timeout t (posix_signal (timer_expires h)))"
    "ts_enabled (hires_timeout t (posix_signal (timer_expires h)))" by blast+
  then show ?thesis using assms
    by (auto simp: hires_ok_def) (simp add: hires_timeout_def timerfd_signal_def timer_expires_def)
qed

theorem timerfd_same_deadline_lost_witness:
  "ts_armed (hires_timeout 5000000007 (timerfd_signal (timer_expires (hires_timeout 5000000007
     \<lparr>ts_enabled = False, ts_timeout = 0, ts_signalEnabled = False, ts_armed = None\<rparr>)))) = None"
proof -
  let ?h = "hires_timeout 5000000007
     \<lparr>ts_enabled = False, ts_timeout = 0, ts_signalEnabled = False, ts_armed = None\<rparr>"
  have "ts_enabled ?h" "ts_timeout ?h = 5000000007"
    by (simp_all add: hires_timeout_def hires_reschedule_def Let_def)
  with timerfd_same_deadline_lost [of ?h 5000000007] show ?thesis by simp
qed

text \<open>The poller never blocks while a file event or an idle event is registered: whatever idle and
  file events are enabled or disabled and whatever delay the timer source asks for, the poll timeout
  is zero as long as one of the lists is not empty, and the delay of the timer source otherwise.\<close>

theorem poll_timeout_cascade:
  assumes "timeouts_ok s"
    and "s' = idle_timeout n s \<or> ie_enable t s = (Inr (), s') \<or> ie_disable t s = (Inr (), s') \<or>
      fld_add t s = (Inr (), s') \<or> fld_remove t s = (Inr (), s')"
  shows "timeouts_ok s' \<and>
    sc_pollTimeout s' = (if sc_files s' = [] \<and> sc_idle s' = [] then sc_idleTimeout s' else 0)"
proof -
  have "timeouts_ok s'"
    using assms(2) idle_timeout_ok [OF assms(1)] idle_ops_ok [OF assms(1)] file_ops_ok [OF assms(1)] by blast
  then show ?thesis by (auto simp: timeouts_ok_def)
qed

theorem poll_timeout_cascade_witness:
  "sc_pollTimeout (idle_timeout 17 sample_timers) = 17 \<and>
   (\<exists>s'. ie_enable 3 (idle_timeout 17 sample_timers) = (Inr (), s') \<and> sc_pollTimeout s' = 0)"
proof
  show one: "sc_pollTimeout (idle_timeout 17 sample_timers) = 17"
    using poll_timeout_cascade [OF sample_timers_ok(2), of "idle_timeout 17 sample_timers" 17]
    by (simp add: idle_timeout_def sample_timers_def fld_timeout_def)
  have ok: "timeouts_ok (idle_timeout 17 sample_timers)" using idle_timeout_ok sample_timers_ok(2) by blast
  have "\<exists>s'. ie_enable 3 (idle_timeout 17 sample_timers) = (Inr (), s') \<and> sc_idle s' = [3]"
    by (simp add: ie_enable_def idle_add_def fe_enabled_def idle_timeout_def sample_timers_def fld_timeout_def
        runner_enqueue_def enqueue_def make_runnable_def)
  then obtain s' where "ie_enable 3 (idle_timeout 17 sample_timers) = (Inr (), s')" "sc_idle s' = [3]" by blast
  with poll_timeout_cascade [OF ok, of s' 0 3]
  show "\<exists>s'. ie_enable 3 (idle_timeout 17 sample_timers) = (Inr (), s') \<and> sc_pollTimeout s' = 0" by simp
qed

end
