(* ===== verification/Scheduler_Loop.thy ===== *)
theory Scheduler_Loop
  imports Timer_Events
begin

text \<open>
  Signals and the main loop of the scheduler: \<open>senf/Scheduler/SignalEvent.*\<close>, \<open>FdManager.cc\<close>
  and \<open>Scheduler.cc\<close>.

  The signal state of the process is explicit: the set of blocked signals, the disposition of each
  signal and the content of the pipe the handler writes to. The main loop consumes a list of
  inputs, one for each time it waits; a loop that outlives the list is reported as still running.
\<close>

section \<open>State\<close>

text \<open>Of a \<open>siginfo_t\<close>, the signal number and an opaque rest.\<close>

type_synonym siginfo = "int \<times> nat"

definition SIGCLD :: int where "SIGCLD = 17"

record 'k sched = "'k timer_sys" +
  sc_signalOf :: "nat \<Rightarrow> int"
  sc_siginfo :: "nat \<Rightarrow> siginfo"
  sc_handlers :: "nat list"
  sc_sigSet :: "int set"
  sc_blocked :: bool
  sc_procMask :: "int set"
  sc_action :: "int \<Rightarrow> (int set \<times> bool) option"
  sc_sigPipe :: "siginfo list"
  sc_terminate :: bool
  sc_running :: bool

section \<open>Signal events\<close>

definition find_handler :: "int \<Rightarrow> ('k, 'z) sched_scheme \<Rightarrow> nat option" where
  "find_handler sg s = find (\<lambda>i. sc_signalOf s i = sg) (sc_handlers s)"

definition handler_insert :: "nat \<Rightarrow> ('k, 'z) sched_scheme \<Rightarrow> nat list" where
  "handler_insert t s =
     takeWhile (\<lambda>i. sc_signalOf s i < sc_signalOf s t) (sc_handlers s) @ t #
     dropWhile (\<lambda>i. sc_signalOf s i < sc_signalOf s t) (sc_handlers s)"

text \<open>The loop that installs the handlers again; \<open>valid\<close> tells the signals \<open>sigaction\<close> accepts.\<close>

fun install_handlers ::
  "(int \<Rightarrow> bool) \<Rightarrow> nat list \<Rightarrow> ('k, 'z) sched_scheme \<Rightarrow> (('k, 'z) sched_scheme, unit) sres" where
  "install_handlers valid [] s = (Inr (), s)"
| "install_handlers valid (i # is) s =
     (if valid (sc_signalOf s i)
      then install_handlers valid is
             (s\<lparr>sc_action := (sc_action s)(sc_signalOf s i \<mapsto> (sc_sigSet s, sc_signalOf s i = SIGCLD))\<rparr>)
      else (Inl SystemException, s))"

definition sd_add ::
  "(int \<Rightarrow> bool) \<Rightarrow> nat \<Rightarrow> ('k, 'z) sched_scheme \<Rightarrow> (('k, 'z) sched_scheme, unit) sres" where
  "sd_add valid t s =
     (if find_handler (sc_signalOf s t) s \<noteq> None then (Inl DuplicateSignalRegistration, s)
      else sbind (runner_enqueue t
                    (s\<lparr>sc_handlers := handler_insert t s,
                       sc_sigSet := insert (sc_signalOf s t) (sc_sigSet s)\<rparr>)) (\<lambda>_ s1.
           let s2 = s1\<lparr>sc_procMask :=
                     (if sc_blocked s1 then insert (sc_signalOf s1 t) (sc_procMask s1)
                      else sc_procMask s1 - {sc_signalOf s1 t})\<rparr>
           in install_handlers valid (sc_handlers s2) s2))"

definition sd_remove :: "nat \<Rightarrow> ('k, 'z) sched_scheme \<Rightarrow> (('k, 'z) sched_scheme, unit) sres" where
  "sd_remove t s =
     sbind (runner_dequeue t (s\<lparr>sc_action := (sc_action s)(sc_signalOf s t := None)\<rparr>)) (\<lambda>_ s1.
       (Inr (), s1\<lparr>sc_handlers := filter (\<lambda>i. sc_signalOf s1 i \<noteq> sc_signalOf s1 t) (sc_handlers s1),
                   sc_procMask := sc_procMask s1 - {sc_signalOf s1 t}\<rparr>))"

definition se_enable ::
  "(int \<Rightarrow> bool) \<Rightarrow> nat \<Rightarrow> ('k, 'z) sched_scheme \<Rightarrow> (('k, 'z) sched_scheme, unit) sres" where
  "se_enable valid t s = (if t \<notin> set (sc_handlers s) then sd_add valid t s else (Inr (), s))"

definition se_disable :: "nat \<Rightarrow> ('k, 'z) sched_scheme \<Rightarrow> (('k, 'z) sched_scheme, unit) sres" where
  "se_disable t s = (if t \<in> set (sc_handlers s) then sd_remove t s else (Inr (), s))"

definition blockSignals :: "('k, 'z) sched_scheme \<Rightarrow> ('k, 'z) sched_scheme" where
  "blockSignals s =
     (if sc_blocked s then s
      else s\<lparr>sc_procMask := sc_procMask s \<union> sc_sigSet s, sc_blocked := True\<rparr>)"

definition unblockSignals :: "('k, 'z) sched_scheme \<Rightarrow> ('k, 'z) sched_scheme" where
  "unblockSignals s =
     (if \<not> sc_blocked s then s
      else s\<lparr>sc_procMask := sc_procMask s - sc_sigSet s, sc_blocked := False\<rparr>)"

text \<open>The handler the kernel calls, and the event of the pipe that it makes readable.\<close>

definition sigHandler :: "int \<Rightarrow> siginfo \<Rightarrow> ('k, 'z) sched_scheme \<Rightarrow> ('k, 'z) sched_scheme" where
  "sigHandler sg info s = s\<lparr>sc_sigPipe := sc_sigPipe s @ [(sg, snd info)]\<rparr>"

definition sd_signal :: "('k, 'z) sched_scheme \<Rightarrow> ('k, 'z) sched_scheme" where
  "sd_signal s =
     (case sc_sigPipe s of
        [] \<Rightarrow> s
      | info # rest \<Rightarrow>
          let s1 = s\<lparr>sc_sigPipe := rest\<rparr>
          in case find_handler (fst info) s1 of
               None \<Rightarrow> s1
             | Some i \<Rightarrow> make_runnable i (s1\<lparr>sc_siginfo := (sc_siginfo s1)(i := info)\<rparr>))"

section \<open>FdManager\<close>

definition signal_target :: "mask \<times> poll_target \<Rightarrow> ('k, 'z) sched_scheme \<Rightarrow> ('k, 'z) sched_scheme" where
  "signal_target ev s =
     (case snd ev of
        FdTarget t \<Rightarrow> fe_signal t (fst ev) s
      | SignalTarget \<Rightarrow> sd_signal s
      | TimerTarget \<Rightarrow> source_signal s)"

definition processOnce ::
  "wait_result \<Rightarrow> int \<Rightarrow> ('k, 'z) sched_scheme \<Rightarrow> (('k, 'z) sched_scheme, unit) sres" where
  "processOnce w now s =
     (case poller_wait w of
        Inl e \<Rightarrow> (Inl e, s)
      | Inr evs \<Rightarrow> (Inr (), foldl (\<lambda>s ev. signal_target ev s) (s\<lparr>sc_eventTime := now\<rparr>) evs))"

section \<open>The main loop\<close>

definition sched_terminate :: "('k, 'z) sched_scheme \<Rightarrow> ('k, 'z) sched_scheme" where
  "sched_terminate s = s\<lparr>sc_terminate := True\<rparr>"

definition sched_yield :: "('k, 'z) sched_scheme \<Rightarrow> ('k, 'z) sched_scheme" where
  "sched_yield s = s\<lparr>sc_runner := yield (sc_runner s)\<rparr>"

definition sched_empty :: "('k, 'z) sched_scheme \<Rightarrow> bool" where
  "sched_empty s \<longleftrightarrow> sc_fds s = [] \<and> sc_timers s = [] \<and> sc_files s = [] \<and> sc_handlers s = [] \<and>
     sc_idle s = [] \<and> sc_hooks s = []"

definition nothing_to_wait_for :: "('k, 'z) sched_scheme \<Rightarrow> bool" where
  "nothing_to_wait_for s \<longleftrightarrow> sc_fds s = [] \<and> sc_timers s = [] \<and> sc_files s = [] \<and> sc_idle s = []"

text \<open>\<open>SchedulerScopedInit\<close>: \<open>ok\<close> says whether the watchdog timer can be set.\<close>

definition scoped_init :: "bool \<Rightarrow> ('k, 'z) sched_scheme \<Rightarrow> (('k, 'z) sched_scheme, unit) sres" where
  "scoped_init ok s =
     (case startWatchdog ok (sc_runner s) of
        None \<Rightarrow> (Inl SystemException, s)
      | Some r \<Rightarrow> (Inr (), (source_enable (unblockSignals (s\<lparr>sc_runner := r\<rparr>)))\<lparr>sc_running := True\<rparr>))"

definition scoped_exit :: "bool \<Rightarrow> ('k, 'z) sched_scheme \<Rightarrow> (('k, 'z) sched_scheme, unit) sres" where
  "scoped_exit ok s =
     (let s1 = blockSignals (source_disable s)
      in case stopWatchdog ok (sc_runner s1) of
           None \<Rightarrow> (Inl SystemException, s1)
         | Some r \<Rightarrow> (Inr (), s1\<lparr>sc_runner := r, sc_running := False\<rparr>))"

text \<open>
  One turn of the loop waits once. The input gives the result of the wait, the clock after the wait
  and at the end, and a bound on how often callbacks may yield. The callbacks see and change the
  whole state except the runner, which they change by the calls they return.
\<close>

record turn_input =
  in_wait :: wait_result
  in_eventTime :: int
  in_rounds :: nat
  in_now :: int

definition prepare_all :: "('k, 'z) sched_scheme \<Rightarrow> ('k, 'z) sched_scheme" where
  "prepare_all s = idle_prepareRun (timer_prepareRun (hook_prepareRun (fld_prepareRun s)))"

definition run_tasks ::
  "('k, 'z) sched_scheme callback \<Rightarrow> nat \<Rightarrow> ('k, 'z) sched_scheme \<Rightarrow>
   (sched_error + unit) option \<times> ('k, 'z) sched_scheme" where
  "run_tasks cb rounds s =
     (case fifo_run rounds cb (sc_runner s) s of
        (oc, _, r, s1) \<Rightarrow>
          (case oc of
             Finished \<Rightarrow> Some (Inr ())
           | Thrown \<Rightarrow> Some (Inl CallbackException)
           | Asserted \<Rightarrow> Some (Inl AssertFailed)
           | _ \<Rightarrow> None,
           s1\<lparr>sc_runner := r\<rparr>))"

fun process_loop ::
  "('k, 'z) sched_scheme callback \<Rightarrow> turn_input list \<Rightarrow> ('k, 'z) sched_scheme \<Rightarrow>
   (sched_error + unit) option \<times> ('k, 'z) sched_scheme" where
  "process_loop cb ins s =
     (if sc_terminate s \<or> nothing_to_wait_for s then (Some (Inr ()), s)
      else case ins of
        [] \<Rightarrow> (None, s)
      | inp # rest \<Rightarrow>
          (case processOnce (in_wait inp) (in_eventTime inp) s of
             (Inl e, s1) \<Rightarrow> (Some (Inl e), s1)
           | (Inr _, s1) \<Rightarrow>
               (case run_tasks cb (in_rounds inp) (prepare_all s1) of
                  (Some (Inr _), s2) \<Rightarrow> process_loop cb rest (timer_reschedule (in_now inp) s2)
                | res \<Rightarrow> res)))"

declare process_loop.simps [simp del]

definition process ::
  "('k, 'z) sched_scheme callback \<Rightarrow> bool \<Rightarrow> int \<Rightarrow> turn_input list \<Rightarrow> ('k, 'z) sched_scheme \<Rightarrow>
   (sched_error + unit) option \<times> ('k, 'z) sched_scheme" where
  "process cb ok now ins s =
     (case scoped_init ok s of
        (Inl e, s1) \<Rightarrow> (Some (Inl e), s1)
      | (Inr _, s1) \<Rightarrow>
          (case process_loop cb ins (timer_reschedule now (s1\<lparr>sc_terminate := False\<rparr>)) of
             (None, s2) \<Rightarrow> (None, s2)
           | (Some res, s2) \<Rightarrow>
               (case scoped_exit ok s2 of
                  (Inl e, s3) \<Rightarrow> (Some (Inl e), s3)
                | (Inr _, s3) \<Rightarrow> (Some res, s3))))"

section \<open>Blocking signals\<close>

record block_signals =
  bs_blocked :: bool
  bs_saved :: "int set"

text \<open>\<open>allSigs\<close> is the full signal set; the second component is the signal mask of the process.\<close>

definition bs_block :: "int set \<Rightarrow> block_signals \<times> int set \<Rightarrow> block_signals \<times> int set" where
  "bs_block allSigs x =
     (case x of (b, m) \<Rightarrow> if bs_blocked b then (b, m) else (\<lparr>bs_blocked = True, bs_saved = m\<rparr>, m \<union> allSigs))"

definition bs_unblock :: "block_signals \<times> int set \<Rightarrow> block_signals \<times> int set" where
  "bs_unblock x =
     (case x of (b, m) \<Rightarrow> if \<not> bs_blocked b then (b, m) else (b\<lparr>bs_blocked := False\<rparr>, bs_saved b))"

section \<open>Signal invariant\<close>

text \<open>
  Every enabled signal has one event, is blocked exactly while the dispatcher blocks signals, and is
  caught by a handler during which all enabled signals are blocked.
\<close>

definition sig_ok :: "('k, 'z) sched_scheme \<Rightarrow> bool" where
  "sig_ok s \<longleftrightarrow> fifo_ok (sc_runner s) \<and> distinct (sc_handlers s) \<and> set (sc_handlers s) \<subseteq> linked (sc_runner s) \<and>
     inj_on (sc_signalOf s) (set (sc_handlers s)) \<and> sc_signalOf s ` set (sc_handlers s) \<subseteq> sc_sigSet s \<and>
     (\<forall>i \<in> set (sc_handlers s). (sc_signalOf s i \<in> sc_procMask s \<longleftrightarrow> sc_blocked s) \<and>
        (\<exists>m. sc_action s (sc_signalOf s i) = Some (m, sc_signalOf s i = SIGCLD) \<and>
           sc_signalOf s ` set (sc_handlers s) \<subseteq> m))"

lemma sig_okD:
  assumes "sig_ok s"
  shows "fifo_ok (sc_runner s)" "distinct (sc_handlers s)" "set (sc_handlers s) \<subseteq> linked (sc_runner s)"
    "inj_on (sc_signalOf s) (set (sc_handlers s))" "sc_signalOf s ` set (sc_handlers s) \<subseteq> sc_sigSet s"
    "i \<in> set (sc_handlers s) \<Longrightarrow> sc_signalOf s i \<in> sc_procMask s \<longleftrightarrow> sc_blocked s"
    "i \<in> set (sc_handlers s) \<Longrightarrow> \<exists>m. sc_action s (sc_signalOf s i) = Some (m, sc_signalOf s i = SIGCLD) \<and>
       sc_signalOf s ` set (sc_handlers s) \<subseteq> m"
  using assms by (auto simp: sig_ok_def)

lemma find_handler_None:
  "find_handler sg s = None \<longleftrightarrow> sg \<notin> sc_signalOf s ` set (sc_handlers s)"
  by (auto simp: find_handler_def find_None_iff)

lemma set_handler_insert [simp]: "set (handler_insert t s) = insert t (set (sc_handlers s))"
proof -
  let ?P = "\<lambda>i. sc_signalOf s i < sc_signalOf s t"
  have "set (sc_handlers s) = set (takeWhile ?P (sc_handlers s)) \<union> set (dropWhile ?P (sc_handlers s))"
    by (metis set_append takeWhile_dropWhile_id)
  then show ?thesis by (auto simp: handler_insert_def)
qed

lemma distinct_handler_insert:
  assumes "distinct (sc_handlers s)" "t \<notin> set (sc_handlers s)"
  shows "distinct (handler_insert t s)"
proof -
  have between: "distinct (xs @ ys) \<Longrightarrow> t \<notin> set (xs @ ys) \<Longrightarrow> distinct (xs @ t # ys)" for xs ys by auto
  show ?thesis unfolding handler_insert_def by (rule between) (use assms in simp_all)
qed

text \<open>When \<open>sigaction\<close> accepts the signals, the loop gives every handler the current mask.\<close>

lemma install_handlers_all:
  "\<forall>i \<in> set is. valid (sc_signalOf s i) \<Longrightarrow>
     \<exists>act. install_handlers valid is s = (Inr (), s\<lparr>sc_action := act\<rparr>) \<and>
       (\<forall>sg. act sg = (if sg \<in> sc_signalOf s ` set is then Some (sc_sigSet s, sg = SIGCLD) else sc_action s sg))"
proof (induction "is" arbitrary: s)
  case Nil
  have "s = s\<lparr>sc_action := sc_action s\<rparr>" by simp
  then show ?case by (intro exI [of _ "sc_action s"]) simp
next
  case (Cons i "is")
  let ?s = "s\<lparr>sc_action := (sc_action s)(sc_signalOf s i \<mapsto> (sc_sigSet s, sc_signalOf s i = SIGCLD))\<rparr>"
  from Cons.IH [of ?s] Cons.prems obtain act where
    inst: "install_handlers valid is ?s = (Inr (), ?s\<lparr>sc_action := act\<rparr>)"
    and act: "\<forall>sg. act sg = (if sg \<in> sc_signalOf s ` set is then Some (sc_sigSet s, sg = SIGCLD) else sc_action ?s sg)"
    by auto
  have "install_handlers valid (i # is) s = (Inr (), s\<lparr>sc_action := act\<rparr>)" using inst Cons.prems by simp
  moreover have "act sg = (if sg \<in> sc_signalOf s ` set (i # is) then Some (sc_sigSet s, sg = SIGCLD) else sc_action s sg)"
    for sg using act by auto
  ultimately show ?case by blast
qed

lemma se_enable_ok:
  assumes ok: "sig_ok s" and new: "sc_signalOf s t \<notin> sc_signalOf s ` set (sc_handlers s)"
    and t: "t \<notin> linked (sc_runner s)" and valid: "\<forall>i \<in> insert t (set (sc_handlers s)). valid (sc_signalOf s i)"
  shows "\<exists>s'. se_enable valid t s = (Inr (), s') \<and> sig_ok s' \<and> t \<in> set (sc_handlers s') \<and>
    linked (sc_runner s') = insert t (linked (sc_runner s))"
proof -
  note D = sig_okD [OF ok]
  let ?sg = "sc_signalOf s t"
  let ?s1 = "s\<lparr>sc_handlers := handler_insert t s, sc_sigSet := insert ?sg (sc_sigSet s)\<rparr>"
  have tn: "t \<notin> set (sc_handlers s)" using new by blast
  obtain r where r: "runner_enqueue t ?s1 = (Inr (), ?s1\<lparr>sc_runner := r\<rparr>)" "fifo_ok r"
    "linked r = insert t (linked (sc_runner s))"
    using runner_enqueue_ok [of ?s1 t] D(1) t by auto
  define pm where "pm = (if sc_blocked s then insert ?sg (sc_procMask s) else sc_procMask s - {?sg})"
  let ?s2 = "?s1\<lparr>sc_runner := r, sc_procMask := pm\<rparr>"
  have "\<forall>i \<in> set (sc_handlers ?s2). valid (sc_signalOf ?s2 i)" using valid by auto
  from install_handlers_all [OF this] obtain act where
    inst: "install_handlers valid (sc_handlers ?s2) ?s2 = (Inr (), ?s2\<lparr>sc_action := act\<rparr>)"
    and act: "\<forall>sg. act sg = (if sg \<in> sc_signalOf s ` insert t (set (sc_handlers s))
        then Some (insert ?sg (sc_sigSet s), sg = SIGCLD) else sc_action s sg)"
    by auto
  let ?s' = "?s2\<lparr>sc_action := act\<rparr>"
  have "se_enable valid t s = (Inr (), ?s')"
    using tn new inst r(1) by (cases "sc_blocked s") (simp_all add: se_enable_def sd_add_def find_handler_None pm_def Let_def)
  moreover have "sig_ok ?s'"
    unfolding sig_ok_def
  proof (intro conjI ballI)
    show "inj_on (sc_signalOf ?s') (set (sc_handlers ?s'))" using D(4) new tn by simp
    fix i assume i: "i \<in> set (sc_handlers ?s')"
    show "sc_signalOf ?s' i \<in> sc_procMask ?s' \<longleftrightarrow> sc_blocked ?s'"
      using i D(6) new by (auto simp: pm_def image_iff)
    show "\<exists>m. sc_action ?s' (sc_signalOf ?s' i) = Some (m, sc_signalOf ?s' i = SIGCLD) \<and>
        sc_signalOf ?s' ` set (sc_handlers ?s') \<subseteq> m"
      using i D(5) act by (intro exI [of _ "insert ?sg (sc_sigSet s)"]) auto
  qed (use D(2,3,5) r tn in \<open>auto simp: distinct_handler_insert\<close>)
  ultimately show ?thesis using r(3) by auto
qed

lemma se_disable_ok:
  assumes ok: "sig_ok s" and t: "t \<in> set (sc_handlers s)"
  shows "\<exists>s'. se_disable t s = (Inr (), s') \<and> sig_ok s' \<and> set (sc_handlers s') = set (sc_handlers s) - {t} \<and>
    linked (sc_runner s') = linked (sc_runner s) - {t} \<and> sc_action s' (sc_signalOf s t) = None \<and>
    sc_procMask s' = sc_procMask s - {sc_signalOf s t} \<and> sc_sigSet s' = sc_sigSet s \<and> sc_blocked s' = sc_blocked s"
proof -
  note D = sig_okD [OF ok]
  let ?sg = "sc_signalOf s t"
  let ?s1 = "s\<lparr>sc_action := (sc_action s)(?sg := None)\<rparr>"
  obtain r where r: "runner_dequeue t ?s1 = (Inr (), ?s1\<lparr>sc_runner := r\<rparr>)" "fifo_ok r"
    "linked r = linked (sc_runner s) - {t}"
    using runner_dequeue_ok [of ?s1 t] D(1,3) t by auto
  let ?hs = "filter (\<lambda>i. sc_signalOf s i \<noteq> ?sg) (sc_handlers s)"
  let ?s' = "?s1\<lparr>sc_runner := r, sc_handlers := ?hs, sc_procMask := sc_procMask s - {?sg}\<rparr>"
  have hs: "set ?hs = set (sc_handlers s) - {t}" using D(4) t by (auto simp: inj_on_def)
  have "se_disable t s = (Inr (), ?s')" using t r(1) by (simp add: se_disable_def sd_remove_def)
  moreover have "sig_ok ?s'"
    unfolding sig_ok_def
  proof (intro conjI ballI)
    show "inj_on (sc_signalOf ?s') (set (sc_handlers ?s'))" using D(4) by (auto intro: inj_on_subset)
    fix i assume "i \<in> set (sc_handlers ?s')"
    then have i: "i \<in> set (sc_handlers s)" "sc_signalOf s i \<noteq> ?sg" by auto
    show "sc_signalOf ?s' i \<in> sc_procMask ?s' \<longleftrightarrow> sc_blocked ?s'" using i D(6) [OF i(1)] by simp
    show "\<exists>m. sc_action ?s' (sc_signalOf ?s' i) = Some (m, sc_signalOf ?s' i = SIGCLD) \<and>
        sc_signalOf ?s' ` set (sc_handlers ?s') \<subseteq> m"
      using i D(7) [OF i(1)] by auto
  qed (use D(2,3,5) r hs in auto)
  ultimately show ?thesis using r(3) hs by auto
qed

lemma block_ops_ok:
  assumes "sig_ok s"
  shows "sig_ok (blockSignals s)" "sig_ok (unblockSignals s)"
proof -
  note D = sig_okD [OF assms]
  have "sc_signalOf s i \<in> sc_sigSet s" if "i \<in> set (sc_handlers s)" for i using D(5) that by blast
  then show "sig_ok (blockSignals s)" "sig_ok (unblockSignals s)"
    using assms by (auto simp: sig_ok_def blockSignals_def unblockSignals_def)
qed

section \<open>Frames of the main loop\<close>

lemma foldl_runnable_frame:
  fixes s :: "('k, 'z) sched_scheme"
  shows "sc_timers (foldl (\<lambda>s i. make_runnable i s) s is) = sc_timers s"
    "sc_timeoutOf (foldl (\<lambda>s i. make_runnable i s) s is) = sc_timeoutOf s"
    "sc_eventTime (foldl (\<lambda>s i. make_runnable i s) s is) = sc_eventTime s"
    "sc_idle (foldl (\<lambda>s i. make_runnable i s) s is) = sc_idle s"
    "sc_hooks (foldl (\<lambda>s i. make_runnable i s) s is) = sc_hooks s"
    "linked (sc_runner (foldl (\<lambda>s i. make_runnable i s) s is)) = linked (sc_runner s)"
    "fifo_ok (sc_runner (foldl (\<lambda>s i. make_runnable i s) s is)) = fifo_ok (sc_runner s)"
  by (induction "is" arbitrary: s)
    (simp_all add: make_runnable_def setRunnable_def linked_def fifo_ok_def queue_ok_def)

lemma fld_prepareRun_frame:
  fixes s :: "('k, 'z) sched_scheme"
  defines "s' \<equiv> fld_prepareRun s"
  shows "sc_timers s' = sc_timers s" "sc_timeoutOf s' = sc_timeoutOf s" "sc_eventTime s' = sc_eventTime s"
    "sc_idle s' = sc_idle s" "sc_hooks s' = sc_hooks s" "linked (sc_runner s') = linked (sc_runner s)"
    "fifo_ok (sc_runner s') = fifo_ok (sc_runner s)"
    "fr_runnable (sc_runner s') j \<longleftrightarrow> fr_runnable (sc_runner s) j \<or> j \<in> set (sc_files s)"
proof -
  have "sc_timers (foldl f s is) = sc_timers s \<and> sc_timeoutOf (foldl f s is) = sc_timeoutOf s \<and>
      sc_eventTime (foldl f s is) = sc_eventTime s \<and> sc_idle (foldl f s is) = sc_idle s \<and>
      sc_hooks (foldl f s is) = sc_hooks s \<and> linked (sc_runner (foldl f s is)) = linked (sc_runner s) \<and>
      fifo_ok (sc_runner (foldl f s is)) = fifo_ok (sc_runner s) \<and>
      (fr_runnable (sc_runner (foldl f s is)) j \<longleftrightarrow> fr_runnable (sc_runner s) j \<or> j \<in> set is)"
    if "f = (\<lambda>s i. make_runnable i (signal_one i (ev_of s i) s))" for f :: "('k, 'z) sched_scheme \<Rightarrow> nat \<Rightarrow> _" and "is"
    by (induction "is" arbitrary: s)
      (auto simp: that make_runnable_def signal_one_def setRunnable_def linked_def fifo_ok_def queue_ok_def)
  from this [OF refl, of "sc_files s"]
  show "sc_timers s' = sc_timers s" "sc_timeoutOf s' = sc_timeoutOf s" "sc_eventTime s' = sc_eventTime s"
    "sc_idle s' = sc_idle s" "sc_hooks s' = sc_hooks s" "linked (sc_runner s') = linked (sc_runner s)"
    "fifo_ok (sc_runner s') = fifo_ok (sc_runner s)"
    "fr_runnable (sc_runner s') j \<longleftrightarrow> fr_runnable (sc_runner s) j \<or> j \<in> set (sc_files s)"
    unfolding s'_def fld_prepareRun_def by blast+
qed

section \<open>Properties of the scheduler\<close>

definition sample_sched :: "(int \<Rightarrow> (mask \<times> poll_target) option) sched" where
  "sample_sched = timer_sys.extend sample_timers
     \<lparr>sc_signalOf = (\<lambda>t. int t), sc_siginfo = (\<lambda>_. (0, 0)), sc_handlers = [], sc_sigSet = {}, sc_blocked = True,
      sc_procMask = {}, sc_action = Map.empty, sc_sigPipe = [], sc_terminate = False, sc_running = False\<rparr>"

lemma sample_sched_ok: "sig_ok sample_sched" "timer_ok sample_sched"
  using sample_timers_ok(1)
  by (auto simp: sample_sched_def sig_ok_def timer_ok_def timer_sys.defs)

text \<open>Enabling a signal event for a signal nobody handles installs a handler for it that blocks all
  enabled signals while it runs, blocks the signal exactly if the dispatcher blocks signals, and
  renews the mask of all other handlers; disabling it restores the default action and unblocks it.\<close>

theorem signal_events_consistent:
  assumes "sig_ok s" "sc_signalOf s t \<notin> sc_signalOf s ` set (sc_handlers s)"
    and "t \<notin> linked (sc_runner s)" "\<forall>i \<in> insert t (set (sc_handlers s)). valid (sc_signalOf s i)"
  shows "\<exists>s1 s2. se_enable valid t s = (Inr (), s1) \<and> sig_ok s1 \<and> t \<in> set (sc_handlers s1) \<and>
    sig_ok (blockSignals s1) \<and> sig_ok (unblockSignals s1) \<and>
    se_disable t s1 = (Inr (), s2) \<and> sig_ok s2 \<and> t \<notin> set (sc_handlers s2) \<and>
    linked (sc_runner s2) = linked (sc_runner s)"
proof -
  from se_enable_ok [OF assms] obtain s1 where
    s1: "se_enable valid t s = (Inr (), s1)" "sig_ok s1" "t \<in> set (sc_handlers s1)"
      "linked (sc_runner s1) = insert t (linked (sc_runner s))" by blast
  from se_disable_ok [OF s1(2,3)] obtain s2 where
    "se_disable t s1 = (Inr (), s2)" "sig_ok s2" "set (sc_handlers s2) = set (sc_handlers s1) - {t}"
      "linked (sc_runner s2) = linked (sc_runner s1) - {t}" by blast
  with s1 block_ops_ok [OF s1(2)] assms(3) show ?thesis by auto
qed

theorem signal_events_consistent_witness:
  "\<exists>s1. se_enable (\<lambda>_. True) 10 sample_sched = (Inr (), s1) \<and> sig_ok s1 \<and> sig_ok (unblockSignals s1)"
proof -
  have "sc_handlers sample_sched = []" "10 \<notin> linked (sc_runner sample_sched)"
    by (simp_all add: sample_sched_def timer_sys.defs sample_timers_def linked_def)
  then show ?thesis using signal_events_consistent [OF sample_sched_ok(1), of 10 "\<lambda>_. True"] by auto
qed

text \<open>Disabling a signal event leaves its signal in the set the dispatcher blocks: when the
  scheduler leaves its main loop it blocks the signal again, although no event handles it any more
  and its default action has been restored.\<close>

theorem disabled_signal_blocked_again:
  assumes "sig_ok s" "t \<in> set (sc_handlers s)" "\<not> sc_blocked s"
  shows "\<exists>s'. se_disable t s = (Inr (), s') \<and> sc_action s' (sc_signalOf s t) = None \<and>
    sc_signalOf s t \<notin> sc_procMask s' \<and> sc_signalOf s t \<in> sc_procMask (blockSignals s')"
proof -
  from se_disable_ok [OF assms(1,2)] obtain s' where
    "se_disable t s = (Inr (), s')" "sc_action s' (sc_signalOf s t) = None"
    "sc_procMask s' = sc_procMask s - {sc_signalOf s t}" "sc_sigSet s' = sc_sigSet s" "sc_blocked s' = sc_blocked s"
    by blast
  moreover have "sc_signalOf s t \<in> sc_sigSet s" using sig_okD(5) [OF assms(1)] assms(2) by blast
  ultimately show ?thesis using assms(3) by (auto simp: blockSignals_def)
qed

theorem disabled_signal_blocked_again_witness:
  "\<exists>s s'. se_disable 10 s = (Inr (), s') \<and> sc_action s' 10 = None \<and>
     10 \<in> sc_procMask (blockSignals (s' :: (int \<Rightarrow> (mask \<times> poll_target) option) sched))"
proof -
  have h: "sc_handlers sample_sched = []" "10 \<notin> linked (sc_runner sample_sched)"
    by (simp_all add: sample_sched_def timer_sys.defs sample_timers_def linked_def)
  from se_enable_ok [OF sample_sched_ok(1), of 10 "\<lambda>_. True"] h obtain s1 where
    s1: "se_enable (\<lambda>_. True) 10 sample_sched = (Inr (), s1)" "sig_ok s1" "10 \<in> set (sc_handlers s1)" by auto
  have sg: "sc_signalOf s1 10 = 10"
    using s1(1) by (auto simp: se_enable_def sd_add_def find_handler_def sbind_def Let_def runner_enqueue_def
        sample_sched_def timer_sys.defs sample_timers_def handler_insert_def enqueue_def fifo_init_def
        split: if_splits option.splits)
  have "\<not> sc_blocked (unblockSignals s1)" "sc_handlers (unblockSignals s1) = sc_handlers s1"
    "sc_signalOf (unblockSignals s1) = sc_signalOf s1" by (simp_all add: unblockSignals_def)
  with disabled_signal_blocked_again [OF block_ops_ok(2) [OF s1(2)], of 10] s1(3) sg show ?thesis by auto
qed

text \<open>Before each run of the task queue the scheduler has made runnable exactly the tasks that are
  due: those signalled while it waited, every file event, every event hook, every expired timer and
  every idle event.\<close>

theorem prepare_all_runnable:
  assumes "timer_ok s"
  shows "fr_runnable (sc_runner (prepare_all s)) i \<longleftrightarrow> fr_runnable (sc_runner s) i \<or>
    i \<in> set (sc_files s) \<or> i \<in> set (sc_hooks s) \<or>
    i \<in> set (sc_timers s) \<and> sc_timeoutOf s i \<le> sc_eventTime s \<or> i \<in> set (sc_idle s)"
proof -
  have "sorted (map (sc_timeoutOf s) (sc_timers s))" using assms by (simp add: timer_ok_def)
  from expired_prefix [OF this, of "sc_eventTime s"] show ?thesis
    by (auto simp: prepare_all_def idle_prepareRun_def timer_prepareRun_def hook_prepareRun_def
        runnable_loop foldl_runnable_frame fld_prepareRun_frame)
qed

theorem prepare_all_runnable_witness:
  "fr_runnable (sc_runner (prepare_all sample_sched)) 2 \<and> \<not> fr_runnable (sc_runner (prepare_all sample_sched)) 1"
  using prepare_all_runnable [OF sample_sched_ok(2)]
  by (simp add: sample_sched_def timer_sys.defs sample_timers_def fifo_init_def)

lemma source_frame:
  fixes s :: "('k, 'z) sched_scheme"
  shows "nothing_to_wait_for (source_enable s) = nothing_to_wait_for s"
    "nothing_to_wait_for (unblockSignals s) = nothing_to_wait_for s"
    "nothing_to_wait_for (timer_reschedule now s) = nothing_to_wait_for s"
    "sc_terminate (timer_reschedule now s) = sc_terminate s"
  by (auto simp: nothing_to_wait_for_def source_enable_def unblockSignals_def timer_reschedule_def
      source_timeout_def source_notimeout_def idle_timeout_def fld_timeout_def Let_def
      split: timer_source.splits list.splits)

text \<open>However \<open>process()\<close> ends, by running out of events, by \<open>terminate()\<close> or by an exception of a
  callback or of the poller, the signals are blocked again, the signals of the POSIX timer are
  disabled, the watchdog is stopped and the scheduler no longer counts as running; and it returns at
  once, without waiting, when no descriptor, timer, file or idle event is registered, even if
  signal events or event hooks are.\<close>

theorem process_scope:
  assumes "process cb True now ins s = (Some res, s')"
  shows "\<not> sc_running s' \<and> sc_blocked s' \<and> \<not> fr_watchdogRunning (sc_runner s') \<and>
    (\<forall>h. sc_source s' = POSIXSource h \<longrightarrow> \<not> ts_signalEnabled h) \<and>
    (nothing_to_wait_for s \<longrightarrow> process cb True now [] s = (Some (Inr ()), s'))"
proof -
  have "\<exists>r. startWatchdog True (sc_runner s) = Some r" by (simp add: startWatchdog_def stopWatchdog_def)
  then obtain r where r: "startWatchdog True (sc_runner s) = Some r" ..
  define s1 where "s1 = timer_reschedule now
    ((source_enable (unblockSignals (s\<lparr>sc_runner := r\<rparr>)))\<lparr>sc_running := True, sc_terminate := False\<rparr>)"
  have init: "scoped_init True s = (Inr (), (source_enable (unblockSignals (s\<lparr>sc_runner := r\<rparr>)))\<lparr>sc_running := True\<rparr>)"
    using r by (simp add: scoped_init_def)
  with assms obtain s2 where s2: "process_loop cb ins s1 = (Some res, s2)"
    by (auto simp: process_def s1_def scoped_exit_def stopWatchdog_def Let_def split: prod.splits option.splits)
  define s3 where "s3 = blockSignals (source_disable s2)"
  define f where "f = (sc_runner s3)\<lparr>fr_timer := (0, 0), fr_watchdogRunning := False\<rparr>"
  have ex: "scoped_exit True s2 = (Inr (), s3\<lparr>sc_runner := f, sc_running := False\<rparr>)"
    by (simp add: scoped_exit_def s3_def f_def stopWatchdog_def Let_def)
  then have s': "s' = s3\<lparr>sc_runner := f, sc_running := False\<rparr>"
    using assms init s2 by (simp add: process_def s1_def)
  have "sc_blocked s3" by (simp add: s3_def blockSignals_def)
  moreover have "\<not> ts_signalEnabled h" if "sc_source s3 = POSIXSource h" for h
    using that by (auto simp: s3_def blockSignals_def source_disable_def posix_disable_def
        split: timer_source.splits if_splits)
  moreover have "process cb True now [] s = (Some (Inr ()), s')" if n: "nothing_to_wait_for s"
  proof -
    have n1: "nothing_to_wait_for s1"
    proof -
      have a: "nothing_to_wait_for (s\<lparr>sc_runner := r\<rparr>)" using n by (simp add: nothing_to_wait_for_def)
      have b: "nothing_to_wait_for (x\<lparr>sc_running := True, sc_terminate := False\<rparr>) = nothing_to_wait_for x"
        for x :: "('a, 'b) sched_scheme" by (simp add: nothing_to_wait_for_def)
      show ?thesis unfolding s1_def source_frame b by (rule a)
    qed
    then have l: "process_loop cb xs s1 = (Some (Inr ()), s1)" for xs by (simp add: process_loop.simps)
    with s2 have "s2 = s1" by simp
    with init ex s' l [of "[]"] show ?thesis by (simp add: process_def s1_def)
  qed
  ultimately show ?thesis using s' by (simp add: f_def)
qed

theorem process_scope_witness:
  "\<exists>s'. process (\<lambda>_ s. ([], False, s)) True 0 [] (sample_sched\<lparr>sc_timers := []\<rparr>) = (Some (Inr ()), s') \<and>
     sc_blocked s' \<and> \<not> sc_running s'"
proof -
  let ?s = "sample_sched\<lparr>sc_timers := []\<rparr>"
  have "\<exists>s'. process (\<lambda>_ s. ([], False, s)) True 0 [] ?s = (Some (Inr ()), s')"
    by (auto simp: process_def scoped_init_def scoped_exit_def startWatchdog_def stopWatchdog_def sample_sched_def
        timer_sys.defs sample_timers_def fifo_init_def process_loop.simps nothing_to_wait_for_def source_enable_def
        unblockSignals_def timer_reschedule_def source_notimeout_def hires_notimeout_def Let_def)
  with process_scope [of "\<lambda>_ s. ([], False, s)" 0 "[]" ?s] show ?thesis by blast
qed

end
