(* ===== verification/Ppi_Throttle.thy ===== *)
theory Ppi_Throttle
  imports Senf_Prelude
begin

text \<open>
  Throttle notifications of the packet processing infrastructure: \<open>senf/PPI/Connectors.cc\<close> and
  \<open>.cci\<close> (\<open>PassiveConnector\<close>, \<open>ActiveConnector\<close>), \<open>Route.*\<close> (\<open>ForwardingRoute\<close>) and \<open>Events.*\<close>
  (\<open>EventDescriptor\<close>).

  Connectors and events are numbered; the network is a record of their members. A notification runs
  through the network by nested calls: a passive connector notifies the active connector it is
  connected to, that one notifies the routes it is part of, and each route the passive connector
  or event at its other end. The callbacks of an active connector are a parameter: the passive
  connectors they throttle or unthrottle in a given state. \<open>fuel\<close> bounds the depth of nested
  notifications of active connectors; it is shown that their number is enough.
\<close>

section \<open>State\<close>

datatype endpoint = Conn nat | Ev nat

record route =
  rt_id :: nat
  rt_source :: endpoint
  rt_target :: endpoint
  rt_auto :: bool

record net =
  pn_peer :: "nat \<Rightarrow> nat option"
  pn_passive :: "nat \<Rightarrow> bool"
  pn_native :: "nat \<Rightarrow> bool"
  pn_remote :: "nat \<Rightarrow> bool"
  pn_throttled :: "nat \<Rightarrow> bool"
  pn_routes :: "nat \<Rightarrow> route list"
  pn_evThrottled :: "nat \<Rightarrow> bool"
  pn_evEnabled :: "nat \<Rightarrow> bool"
  pn_evRoutes :: "nat \<Rightarrow> route list"
  pn_evHook :: "nat \<Rightarrow> bool"

definition passive_throttled :: "nat \<Rightarrow> net \<Rightarrow> bool" where
  "passive_throttled p n \<longleftrightarrow> pn_native n p \<or> pn_remote n p"

definition active_throttled :: "nat \<Rightarrow> net \<Rightarrow> bool" where
  "active_throttled a n = (case pn_peer n a of None \<Rightarrow> True | Some p \<Rightarrow> passive_throttled p n)"

text \<open>Only active connectors are sources of notifications.\<close>

fun ep_throttled :: "endpoint \<Rightarrow> net \<Rightarrow> bool" where
  "ep_throttled (Conn c) n = (\<not> pn_passive n c \<and> active_throttled c n)"
| "ep_throttled (Ev e) n = False"

definition route_throttled :: "route \<Rightarrow> net \<Rightarrow> bool" where
  "route_throttled r n \<longleftrightarrow> rt_auto r \<and> (ep_throttled (rt_source r) n \<or> ep_throttled (rt_target r) n)"

fun fold_opt :: "('a \<Rightarrow> 's \<Rightarrow> 's option) \<Rightarrow> 'a list \<Rightarrow> 's \<Rightarrow> 's option" where
  "fold_opt f [] s = Some s"
| "fold_opt f (x # xs) s = Option.bind (f x s) (fold_opt f xs)"

section \<open>Events\<close>

text \<open>\<open>pn_evHook\<close> is what \<open>v_enable\<close> and \<open>v_disable\<close> switch: the registration of the event's source.\<close>

definition ev_v_enable :: "nat \<Rightarrow> net \<Rightarrow> net" where
  "ev_v_enable e n = n\<lparr>pn_evHook := (pn_evHook n)(e := True)\<rparr>"

definition ev_v_disable :: "nat \<Rightarrow> net \<Rightarrow> net" where
  "ev_v_disable e n = n\<lparr>pn_evHook := (pn_evHook n)(e := False)\<rparr>"

definition ev_set_enabled :: "nat \<Rightarrow> bool \<Rightarrow> net \<Rightarrow> net" where
  "ev_set_enabled e v n =
     (if pn_evThrottled n e \<and> v then n
      else let n1 = (if v \<and> \<not> pn_evEnabled n e then ev_v_enable e n
                     else if \<not> v \<and> pn_evEnabled n e then ev_v_disable e n else n)
           in n1\<lparr>pn_evEnabled := (pn_evEnabled n1)(e := v)\<rparr>)"

definition ev_notifyThrottle :: "nat \<Rightarrow> net \<Rightarrow> net" where
  "ev_notifyThrottle e n = ev_set_enabled e False (n\<lparr>pn_evThrottled := (pn_evThrottled n)(e := True)\<rparr>)"

definition ev_notifyUnthrottle :: "nat \<Rightarrow> net \<Rightarrow> net" where
  "ev_notifyUnthrottle e n =
     (if list_ex (\<lambda>r. route_throttled r n) (pn_evRoutes n e) then n
      else ev_set_enabled e True (n\<lparr>pn_evThrottled := (pn_evThrottled n)(e := False)\<rparr>))"

section \<open>Throttling\<close>

text \<open>In the following \<open>f\<close> is the notification of an active connector.\<close>

definition emitThrottle :: "(nat \<Rightarrow> net \<Rightarrow> net option) \<Rightarrow> nat \<Rightarrow> net \<Rightarrow> net option" where
  "emitThrottle f p n = (case pn_peer n p of None \<Rightarrow> Some n | Some a \<Rightarrow> f a n)"

definition passive_notifyThrottle :: "(nat \<Rightarrow> net \<Rightarrow> net option) \<Rightarrow> nat \<Rightarrow> net \<Rightarrow> net option" where
  "passive_notifyThrottle f p n =
     (let n1 = n\<lparr>pn_remote := (pn_remote n)(p := True)\<rparr>
      in if \<not> passive_throttled p n then emitThrottle f p n1 else Some n1)"

definition passive_throttle :: "(nat \<Rightarrow> net \<Rightarrow> net option) \<Rightarrow> nat \<Rightarrow> net \<Rightarrow> net option" where
  "passive_throttle f p n =
     (let n1 = n\<lparr>pn_native := (pn_native n)(p := True)\<rparr>
      in if \<not> passive_throttled p n then emitThrottle f p n1 else Some n1)"

fun ep_notifyThrottle :: "(nat \<Rightarrow> net \<Rightarrow> net option) \<Rightarrow> endpoint \<Rightarrow> net \<Rightarrow> net option" where
  "ep_notifyThrottle f (Conn c) n = (if pn_passive n c then passive_notifyThrottle f c n else Some n)"
| "ep_notifyThrottle f (Ev e) n = Some (ev_notifyThrottle e n)"

definition route_notifyThrottle :: "(nat \<Rightarrow> net \<Rightarrow> net option) \<Rightarrow> route \<Rightarrow> net \<Rightarrow> net option" where
  "route_notifyThrottle f r n =
     (if rt_auto r
      then Option.bind (ep_notifyThrottle f (rt_source r) n) (ep_notifyThrottle f (rt_target r))
      else Some n)"

fun active_notifyThrottle :: "(nat \<Rightarrow> net \<Rightarrow> nat list) \<Rightarrow> nat \<Rightarrow> nat \<Rightarrow> net \<Rightarrow> net option" where
  "active_notifyThrottle cb 0 a n = (if pn_throttled n a then Some n else None)"
| "active_notifyThrottle cb (Suc k) a n =
     (if pn_throttled n a then Some n
      else let n1 = n\<lparr>pn_throttled := (pn_throttled n)(a := True)\<rparr>;
               f = active_notifyThrottle cb k
           in Option.bind (fold_opt (passive_throttle f) (cb a n1) n1) (\<lambda>n2.
              fold_opt (route_notifyThrottle f) (pn_routes n2 a) n2))"

section \<open>Unthrottling\<close>

text \<open>\<open>drain\<close> is the effect of \<open>v_unthrottleEvent\<close>, which lets a passive input process its queue.\<close>

definition emitUnthrottle ::
  "(nat \<Rightarrow> net \<Rightarrow> net) \<Rightarrow> (nat \<Rightarrow> net \<Rightarrow> net option) \<Rightarrow> nat \<Rightarrow> net \<Rightarrow> net option" where
  "emitUnthrottle drain f p n = (case pn_peer n p of None \<Rightarrow> Some n | Some a \<Rightarrow> map_option (drain p) (f a n))"

definition passive_notifyUnthrottle ::
  "(nat \<Rightarrow> net \<Rightarrow> net) \<Rightarrow> (nat \<Rightarrow> net \<Rightarrow> net option) \<Rightarrow> nat \<Rightarrow> net \<Rightarrow> net option" where
  "passive_notifyUnthrottle drain f p n =
     (if list_ex (\<lambda>r. route_throttled r n) (pn_routes n p) then Some n
      else let n1 = n\<lparr>pn_remote := (pn_remote n)(p := False)\<rparr>
           in if \<not> pn_native n1 p then emitUnthrottle drain f p n1 else Some n1)"

definition passive_unthrottle ::
  "(nat \<Rightarrow> net \<Rightarrow> net) \<Rightarrow> (nat \<Rightarrow> net \<Rightarrow> net option) \<Rightarrow> nat \<Rightarrow> net \<Rightarrow> net option" where
  "passive_unthrottle drain f p n =
     (let n1 = n\<lparr>pn_native := (pn_native n)(p := False)\<rparr>
      in if passive_throttled p n \<and> \<not> pn_remote n p then emitUnthrottle drain f p n1 else Some n1)"

fun ep_notifyUnthrottle ::
  "(nat \<Rightarrow> net \<Rightarrow> net) \<Rightarrow> (nat \<Rightarrow> net \<Rightarrow> net option) \<Rightarrow> endpoint \<Rightarrow> net \<Rightarrow> net option" where
  "ep_notifyUnthrottle drain f (Conn c) n =
     (if pn_passive n c then passive_notifyUnthrottle drain f c n else Some n)"
| "ep_notifyUnthrottle drain f (Ev e) n = Some (ev_notifyUnthrottle e n)"

definition route_notifyUnthrottle ::
  "(nat \<Rightarrow> net \<Rightarrow> net) \<Rightarrow> (nat \<Rightarrow> net \<Rightarrow> net option) \<Rightarrow> route \<Rightarrow> net \<Rightarrow> net option" where
  "route_notifyUnthrottle drain f r n =
     (if rt_auto r
      then Option.bind (ep_notifyUnthrottle drain f (rt_source r) n) (ep_notifyUnthrottle drain f (rt_target r))
      else Some n)"

fun active_notifyUnthrottle ::
  "(nat \<Rightarrow> net \<Rightarrow> net) \<Rightarrow> (nat \<Rightarrow> net \<Rightarrow> nat list) \<Rightarrow> nat \<Rightarrow> nat \<Rightarrow> net \<Rightarrow> net option" where
  "active_notifyUnthrottle drain cb 0 a n = (if \<not> pn_throttled n a then Some n else None)"
| "active_notifyUnthrottle drain cb (Suc k) a n =
     (if \<not> pn_throttled n a then Some n
      else let n1 = n\<lparr>pn_throttled := (pn_throttled n)(a := False)\<rparr>;
               f = active_notifyUnthrottle drain cb k
           in Option.bind (fold_opt (passive_unthrottle drain f) (cb a n1) n1) (\<lambda>n2.
              fold_opt (route_notifyUnthrottle drain f) (pn_routes n2 a) n2))"

section \<open>Initialisation\<close>

definition passive_init ::
  "(nat \<Rightarrow> net \<Rightarrow> net) \<Rightarrow> (nat \<Rightarrow> net \<Rightarrow> net option) \<Rightarrow> (nat \<Rightarrow> net \<Rightarrow> net option) \<Rightarrow> nat \<Rightarrow> net \<Rightarrow> net option" where
  "passive_init drain thr unthr p n =
     (let n1 = (if list_ex (\<lambda>r. route_throttled r n) (pn_routes n p) then n
                else n\<lparr>pn_remote := (pn_remote n)(p := False)\<rparr>)
      in if passive_throttled p n1 then emitThrottle thr p n1 else emitUnthrottle drain unthr p n1)"

definition active_init :: "(nat \<Rightarrow> net \<Rightarrow> net option) \<Rightarrow> nat \<Rightarrow> net \<Rightarrow> net option" where
  "active_init thr a n = (if pn_peer n a = None then thr a n else Some n)"

definition registerRoute :: "nat \<Rightarrow> route \<Rightarrow> net \<Rightarrow> net" where
  "registerRoute c r n = n\<lparr>pn_routes := (pn_routes n)(c := pn_routes n c @ [r])\<rparr>"

definition unregisterRoute :: "nat \<Rightarrow> route \<Rightarrow> net \<Rightarrow> net" where
  "unregisterRoute c r n = n\<lparr>pn_routes := (pn_routes n)(c := remove1 r (pn_routes n c))\<rparr>"

section \<open>Throttling terminates and spreads\<close>

text \<open>The structure of the network stays, flags only rise.\<close>

definition raises :: "net \<Rightarrow> net \<Rightarrow> bool" where
  "raises n n' \<longleftrightarrow> pn_peer n' = pn_peer n \<and> pn_passive n' = pn_passive n \<and> pn_routes n' = pn_routes n \<and>
     pn_evRoutes n' = pn_evRoutes n \<and> pn_native n \<le> pn_native n' \<and> pn_remote n \<le> pn_remote n' \<and>
     pn_throttled n \<le> pn_throttled n' \<and> pn_evThrottled n \<le> pn_evThrottled n' \<and> pn_evEnabled n' \<le> pn_evEnabled n"

lemma raises_refl [simp]: "raises n n"
  by (simp add: raises_def)

lemma raises_trans: "raises n1 n2 \<Longrightarrow> raises n2 n3 \<Longrightarrow> raises n1 n3"
  by (auto simp: raises_def intro: order_trans)

lemma raises_upd:
  "raises n (n\<lparr>pn_native := (pn_native n)(p := True)\<rparr>)"
  "raises n (n\<lparr>pn_remote := (pn_remote n)(p := True)\<rparr>)"
  "raises n (n\<lparr>pn_throttled := (pn_throttled n)(p := True)\<rparr>)"
  by (auto simp: raises_def le_fun_def)

lemma ev_set_enabled_fields [simp]:
  "pn_peer (ev_set_enabled e v n) = pn_peer n" "pn_passive (ev_set_enabled e v n) = pn_passive n"
  "pn_native (ev_set_enabled e v n) = pn_native n" "pn_remote (ev_set_enabled e v n) = pn_remote n"
  "pn_throttled (ev_set_enabled e v n) = pn_throttled n" "pn_routes (ev_set_enabled e v n) = pn_routes n"
  "pn_evThrottled (ev_set_enabled e v n) = pn_evThrottled n" "pn_evRoutes (ev_set_enabled e v n) = pn_evRoutes n"
  "pn_evEnabled (ev_set_enabled e v n) =
     (if pn_evThrottled n e \<and> v then pn_evEnabled n else (pn_evEnabled n)(e := v))"
  by (simp_all add: ev_set_enabled_def ev_v_enable_def ev_v_disable_def)

lemma raises_ev: "raises n (ev_notifyThrottle e n)"
  by (auto simp: raises_def le_fun_def ev_notifyThrottle_def)

text \<open>A fold of total steps is total, and collects what the steps establish.\<close>

lemma fold_opt_total:
  assumes step: "\<And>x n. x \<in> set xs \<Longrightarrow> R n0 n \<Longrightarrow> Q n \<Longrightarrow> \<exists>n'. g x n = Some n' \<and> R n n' \<and> Q n' \<and> P x n'"
    and mono: "\<And>x n n'. P x n \<Longrightarrow> R n n' \<Longrightarrow> P x n'"
    and trans: "\<And>a b c. R a b \<Longrightarrow> R b c \<Longrightarrow> R a c" and refl: "\<And>a. R a a"
    and "R n0 n" "Q n"
  shows "\<exists>n'. fold_opt g xs n = Some n' \<and> R n n' \<and> Q n' \<and> (\<forall>x \<in> set xs. P x n')"
  using step \<open>R n0 n\<close> \<open>Q n\<close>
proof (induction xs arbitrary: n)
  case Nil
  then show ?case by (simp add: refl)
next
  case (Cons x xs)
  from Cons.prems(1) [of x n] Cons.prems(2,3) obtain n1
    where n1: "g x n = Some n1" "R n n1" "Q n1" "P x n1" by auto
  have r: "R n0 n1" using trans [OF Cons.prems(2) n1(2)] .
  have "\<exists>n'. fold_opt g xs n1 = Some n' \<and> R n1 n' \<and> Q n' \<and> (\<forall>x \<in> set xs. P x n')"
    using Cons.IH [OF _ r n1(3)] Cons.prems(1) by simp
  then obtain n2 where n2: "fold_opt g xs n1 = Some n2" "R n1 n2" "Q n2" "\<forall>x \<in> set xs. P x n2" by blast
  show ?case using n1(1) n2 trans [OF n1(2) n2(2)] mono [OF n1(4) n2(2)] by simp
qed

text \<open>
  \<open>up_ok X\<close>: the active peer of a throttled passive connector knows it, unless its notification is
  pending in \<open>X\<close>. \<open>notified\<close>: what a throttle notification leaves at the end of a route. \<open>cl_ok X\<close>:
  a throttled active connector has notified the ends of its routes, unless it is still at it (\<open>X\<close>).
\<close>

definition up_ok :: "nat set \<Rightarrow> net \<Rightarrow> bool" where
  "up_ok X n \<longleftrightarrow> (\<forall>p a. pn_passive n p \<longrightarrow> passive_throttled p n \<longrightarrow> pn_peer n p = Some a \<longrightarrow> pn_throttled n a \<or> a \<in> X)"

fun notified :: "net \<Rightarrow> endpoint \<Rightarrow> bool" where
  "notified n (Conn c) \<longleftrightarrow> (pn_passive n c \<longrightarrow> pn_remote n c)"
| "notified n (Ev e) \<longleftrightarrow> pn_evThrottled n e \<and> \<not> pn_evEnabled n e"

definition route_done :: "route \<Rightarrow> net \<Rightarrow> bool" where
  "route_done r n \<longleftrightarrow> (rt_auto r \<longrightarrow> notified n (rt_source r) \<and> notified n (rt_target r))"

definition cl_ok :: "nat set \<Rightarrow> net \<Rightarrow> bool" where
  "cl_ok X n \<longleftrightarrow> (\<forall>a. pn_throttled n a \<longrightarrow> a \<notin> X \<longrightarrow> (\<forall>r \<in> set (pn_routes n a). route_done r n))"

lemma notified_mono: "notified n x \<Longrightarrow> raises n n' \<Longrightarrow> notified n' x"
  by (cases x) (auto simp: raises_def le_fun_def)

lemma route_done_mono: "route_done r n \<Longrightarrow> raises n n' \<Longrightarrow> route_done r n'"
  by (auto simp: route_done_def notified_mono)

lemma route_done_end: "route_done r n \<Longrightarrow> rt_auto r \<Longrightarrow> x \<in> {rt_source r, rt_target r} \<Longrightarrow> notified n x"
  by (auto simp: route_done_def)

text \<open>Raising flags other than those of active connectors keeps \<open>cl_ok\<close>.\<close>

lemma cl_ok_raises:
  assumes "cl_ok X n" "raises n n'" "pn_throttled n' = pn_throttled n"
  shows "cl_ok X n'"
  using assms route_done_mono [OF _ assms(2)] by (simp add: cl_ok_def raises_def)

text \<open>What holds between notifications, and what a notification of an active connector has to do.\<close>

definition thr_inv :: "nat set \<Rightarrow> nat \<Rightarrow> nat set \<Rightarrow> net \<Rightarrow> bool" where
  "thr_inv A k X n \<longleftrightarrow> card {b \<in> A. \<not> pn_throttled n b} \<le> k \<and> ran (pn_peer n) \<subseteq> A \<and> cl_ok X n"

definition thr_spec :: "nat set \<Rightarrow> nat \<Rightarrow> (nat \<Rightarrow> net \<Rightarrow> net option) \<Rightarrow> bool" where
  "thr_spec A k f \<longleftrightarrow> (\<forall>a X n. a \<in> A \<longrightarrow> thr_inv A k X n \<longrightarrow> up_ok {a} n \<longrightarrow>
      (\<exists>n'. f a n = Some n' \<and> raises n n' \<and> up_ok {} n' \<and> thr_inv A k X n' \<and> pn_throttled n' a))"

lemma open_mono:
  assumes "finite A" "raises n n'"
  shows "card {b \<in> A. \<not> pn_throttled n' b} \<le> card {b \<in> A. \<not> pn_throttled n b}"
  by (rule card_mono) (use assms in \<open>auto simp: raises_def le_fun_def\<close>)

lemma thr_inv_raises:
  assumes "thr_inv A k X n" "raises n n'" "finite A" "cl_ok X n'"
  shows "thr_inv A k X n'"
  using assms open_mono [OF assms(3,2)] by (simp add: thr_inv_def raises_def)

lemma emitThrottle_step:
  assumes "finite A" "thr_spec A k f" "thr_inv A k X n1" "raises n n1" "up_ok {} n"
    and flags: "pn_throttled n1 = pn_throttled n" "\<forall>q. passive_throttled q n1 \<longrightarrow> q \<noteq> p \<longrightarrow> passive_throttled q n"
  shows "\<exists>n'. emitThrottle f p n1 = Some n' \<and> raises n1 n' \<and> up_ok {} n' \<and> thr_inv A k X n'"
proof (cases "pn_peer n1 p")
  case None
  then have "up_ok {} n1"
    using assms(4,5) flags by (simp add: up_ok_def raises_def) (metis option.distinct(1))
  then show ?thesis using None assms(3) by (simp add: emitThrottle_def)
next
  case (Some a)
  have up: "up_ok {a} n1"
    using assms(4,5) flags Some by (simp add: up_ok_def raises_def) (metis option.inject)
  have "a \<in> A" using assms(3) Some by (auto simp: thr_inv_def ran_def)
  with assms(2,3) up have "\<exists>n'. f a n1 = Some n' \<and> raises n1 n' \<and> up_ok {} n' \<and> thr_inv A k X n'"
    unfolding thr_spec_def by blast
  then show ?thesis using Some by (simp add: emitThrottle_def)
qed

lemma passive_raise_step:
  assumes "finite A" "thr_spec A k f" "thr_inv A k X n" "up_ok {} n" "raises n n1"
    and flags: "pn_throttled n1 = pn_throttled n" "\<forall>q. passive_throttled q n1 \<longrightarrow> q \<noteq> p \<longrightarrow> passive_throttled q n"
  shows "\<exists>n'. (if \<not> passive_throttled p n then emitThrottle f p n1 else Some n1) = Some n' \<and>
    raises n1 n' \<and> up_ok {} n' \<and> thr_inv A k X n'"
proof -
  have inv: "thr_inv A k X n1"
    using thr_inv_raises [OF assms(3,5,1)] cl_ok_raises [OF _ assms(5) flags(1)] assms(3) by (simp add: thr_inv_def)
  have "up_ok {} n1" if "passive_throttled p n"
    using assms(4,5) flags that by (simp add: up_ok_def raises_def) metis
  then show ?thesis using emitThrottle_step [OF assms(1,2) inv assms(5,4) flags] inv by simp
qed

text \<open>Throttling a connector, from inside or through a route.\<close>

lemma passive_throttle_step:
  assumes "finite A" "thr_spec A k f" "thr_inv A k X n" "up_ok {} n"
  shows "\<exists>n'. passive_throttle f p n = Some n' \<and> raises n n' \<and> up_ok {} n' \<and> thr_inv A k X n' \<and> pn_native n' p"
proof -
  let ?n1 = "n\<lparr>pn_native := (pn_native n)(p := True)\<rparr>"
  have "\<forall>q. passive_throttled q ?n1 \<longrightarrow> q \<noteq> p \<longrightarrow> passive_throttled q n" by (simp add: passive_throttled_def)
  from passive_raise_step [OF assms raises_upd(1) _ this] obtain n'
    where n': "passive_throttle f p n = Some n'" "raises ?n1 n'" "up_ok {} n'" "thr_inv A k X n'"
    by (auto simp: passive_throttle_def Let_def)
  moreover have "pn_native n' p" using n'(2) by (auto simp: raises_def le_fun_def)
  ultimately show ?thesis using raises_trans [OF raises_upd(1) n'(2)] by blast
qed

lemma passive_notifyThrottle_step:
  assumes "finite A" "thr_spec A k f" "thr_inv A k X n" "up_ok {} n"
  shows "\<exists>n'. passive_notifyThrottle f p n = Some n' \<and> raises n n' \<and> up_ok {} n' \<and> thr_inv A k X n' \<and> pn_remote n' p"
proof -
  let ?n1 = "n\<lparr>pn_remote := (pn_remote n)(p := True)\<rparr>"
  have "\<forall>q. passive_throttled q ?n1 \<longrightarrow> q \<noteq> p \<longrightarrow> passive_throttled q n" by (simp add: passive_throttled_def)
  from passive_raise_step [OF assms raises_upd(2) _ this] obtain n'
    where n': "passive_notifyThrottle f p n = Some n'" "raises ?n1 n'" "up_ok {} n'" "thr_inv A k X n'"
    by (auto simp: passive_notifyThrottle_def Let_def)
  moreover have "pn_remote n' p" using n'(2) by (auto simp: raises_def le_fun_def)
  ultimately show ?thesis using raises_trans [OF raises_upd(2) n'(2)] by blast
qed

lemma ep_notifyThrottle_step:
  assumes "finite A" "thr_spec A k f" "thr_inv A k X n" "up_ok {} n"
  shows "\<exists>n'. ep_notifyThrottle f x n = Some n' \<and> raises n n' \<and> up_ok {} n' \<and> thr_inv A k X n' \<and> notified n' x"
proof (cases x)
  case (Conn c)
  then show ?thesis
    using passive_notifyThrottle_step [OF assms, of c] assms(3,4) by (cases "pn_passive n c") auto
next
  case (Ev e)
  let ?n1 = "ev_notifyThrottle e n"
  have "pn_throttled ?n1 = pn_throttled n" by (simp add: ev_notifyThrottle_def)
  then have "thr_inv A k X ?n1"
    using thr_inv_raises [OF assms(3) raises_ev assms(1)] cl_ok_raises [OF _ raises_ev] assms(3) by (simp add: thr_inv_def)
  moreover have "up_ok {} ?n1" using assms(4) by (simp add: up_ok_def ev_notifyThrottle_def passive_throttled_def)
  moreover have "notified ?n1 (Ev e)" by (simp add: ev_notifyThrottle_def)
  ultimately show ?thesis using Ev raises_ev by simp
qed

lemma route_notifyThrottle_step:
  assumes "finite A" "thr_spec A k f" "thr_inv A k X n" "up_ok {} n"
  shows "\<exists>n'. route_notifyThrottle f r n = Some n' \<and> raises n n' \<and> (up_ok {} n' \<and> thr_inv A k X n') \<and> route_done r n'"
proof (cases "rt_auto r")
  case True
  obtain n1 where n1: "ep_notifyThrottle f (rt_source r) n = Some n1" "raises n n1" "up_ok {} n1"
    "thr_inv A k X n1" "notified n1 (rt_source r)"
    using ep_notifyThrottle_step [OF assms, of "rt_source r"] by blast
  obtain n2 where n2: "ep_notifyThrottle f (rt_target r) n1 = Some n2" "raises n1 n2" "up_ok {} n2"
    "thr_inv A k X n2" "notified n2 (rt_target r)"
    using ep_notifyThrottle_step [OF assms(1,2) n1(4,3), of "rt_target r"] by blast
  show ?thesis
    using True n1(1) n2 raises_trans [OF n1(2) n2(2)] notified_mono [OF n1(5) n2(2)]
    by (simp add: route_notifyThrottle_def route_done_def)
qed (use assms(3,4) in \<open>simp add: route_notifyThrottle_def route_done_def\<close>)

text \<open>A notification that finds the connector unthrottled closes one more connector.\<close>

lemma thr_inv_enter:
  assumes "finite A" "a \<in> A" "\<not> pn_throttled n a" "thr_inv A (Suc k) X n"
  shows "thr_inv A k (insert a X) (n\<lparr>pn_throttled := (pn_throttled n)(a := True)\<rparr>)"
proof -
  let ?n1 = "n\<lparr>pn_throttled := (pn_throttled n)(a := True)\<rparr>"
  have "{b \<in> A. \<not> pn_throttled ?n1 b} = {b \<in> A. \<not> pn_throttled n b} - {a}" by auto
  then have "card {b \<in> A. \<not> pn_throttled ?n1 b} \<le> k"
    using assms by (simp add: thr_inv_def le_diff_conv)
  moreover have "cl_ok (insert a X) ?n1"
    using assms(4) route_done_mono [OF _ raises_upd(3) [of n a]] by (simp add: thr_inv_def cl_ok_def)
  ultimately show ?thesis using assms(4) by (simp add: thr_inv_def)
qed

lemma up_ok_known: "up_ok {a} n \<Longrightarrow> pn_throttled n a \<Longrightarrow> up_ok {} n"
  by (auto simp: up_ok_def)

lemma active_notifyThrottle_spec:
  assumes "finite A"
  shows "thr_spec A k (active_notifyThrottle cb k)"
proof (induction k)
  case 0
  have "pn_throttled n a" if "a \<in> A" "thr_inv A 0 X n" for a X n
    using that assms by (auto simp: thr_inv_def)
  then show ?case using up_ok_known by (auto simp: thr_spec_def)
next
  case (Suc k)
  let ?f = "active_notifyThrottle cb k"
  have new_case: "\<exists>n'. active_notifyThrottle cb (Suc k) a n = Some n' \<and> raises n n' \<and> up_ok {} n' \<and>
      thr_inv A (Suc k) X n' \<and> pn_throttled n' a"
    if pre: "a \<in> A" "thr_inv A (Suc k) X n" "up_ok {a} n" and new: "\<not> pn_throttled n a" for a X n
  proof -
    let ?n1 = "n\<lparr>pn_throttled := (pn_throttled n)(a := True)\<rparr>"
    let ?Q = "\<lambda>m. up_ok {} m \<and> thr_inv A k (insert a X) m"
    have up: "up_ok {} ?n1" using pre(3) by (auto simp: up_ok_def passive_throttled_def)
    have inv: "thr_inv A k (insert a X) ?n1" by (rule thr_inv_enter [OF assms pre(1) new pre(2)])
    have "\<exists>m. fold_opt (passive_throttle ?f) (cb a ?n1) ?n1 = Some m \<and> raises ?n1 m \<and> ?Q m \<and>
        (\<forall>p \<in> set (cb a ?n1). pn_native m p)"
    proof (rule fold_opt_total [where R = raises and ?n0.0 = ?n1])
      show "\<exists>m'. passive_throttle ?f p m = Some m' \<and> raises m m' \<and> ?Q m' \<and> pn_native m' p" if "?Q m" for p m
        using passive_throttle_step [OF assms Suc] that by blast
    qed (use up inv raises_trans in \<open>auto simp: raises_def le_fun_def\<close>)
    then obtain n2 where n2: "fold_opt (passive_throttle ?f) (cb a ?n1) ?n1 = Some n2" "raises ?n1 n2" "?Q n2"
      by blast
    have "\<exists>m. fold_opt (route_notifyThrottle ?f) (pn_routes n2 a) n2 = Some m \<and> raises n2 m \<and> ?Q m \<and>
        (\<forall>r \<in> set (pn_routes n2 a). route_done r m)"
    proof (rule fold_opt_total [where R = raises and ?n0.0 = n2])
      show "\<exists>m'. route_notifyThrottle ?f r m = Some m' \<and> raises m m' \<and> ?Q m' \<and> route_done r m'" if "?Q m" for r m
        using route_notifyThrottle_step [OF assms Suc] that by blast
    qed (use n2(3) raises_trans route_done_mono in \<open>auto\<close>)
    then obtain n3 where n3: "fold_opt (route_notifyThrottle ?f) (pn_routes n2 a) n2 = Some n3"
      "raises n2 n3" "?Q n3" "\<forall>r \<in> set (pn_routes n2 a). route_done r n3" by blast
    have r: "raises ?n1 n3" by (rule raises_trans [OF n2(2) n3(2)])
    have "pn_routes n3 a = pn_routes n2 a" using n3(2) by (simp add: raises_def)
    then have "cl_ok X n3" using n3(3,4) by (auto simp: thr_inv_def cl_ok_def)
    then have "thr_inv A (Suc k) X n3" using n3(3) by (simp add: thr_inv_def)
    moreover have "pn_throttled n3 a" using r by (auto simp: raises_def le_fun_def)
    ultimately show ?thesis
      using new n2(1) n3(1,3) raises_trans [OF raises_upd(3) r] by (simp add: Let_def)
  qed
  show ?case unfolding thr_spec_def
  proof (intro allI impI)
    fix a X n
    assume pre: "a \<in> A" "thr_inv A (Suc k) X n" "up_ok {a} n"
    show "\<exists>n'. active_notifyThrottle cb (Suc k) a n = Some n' \<and> raises n n' \<and> up_ok {} n' \<and>
        thr_inv A (Suc k) X n' \<and> pn_throttled n' a"
    proof (cases "pn_throttled n a")
      case True
      then show ?thesis using pre(2) up_ok_known [OF pre(3)] by simp
    qed (rule new_case [OF pre])
  qed
qed

text \<open>The connectors a throttled connector holds up: the passive ends of the routes of its peer.\<close>

inductive holds_up :: "net \<Rightarrow> nat \<Rightarrow> nat \<Rightarrow> bool" for n where
  base: "holds_up n p p"
| step: "holds_up n p q \<Longrightarrow> pn_peer n q = Some a \<Longrightarrow> r \<in> set (pn_routes n a) \<Longrightarrow> rt_auto r \<Longrightarrow>
    Conn q' \<in> {rt_source r, rt_target r} \<Longrightarrow> pn_passive n q' \<Longrightarrow> holds_up n p q'"

definition throttle_consistent :: "net \<Rightarrow> bool" where
  "throttle_consistent n \<longleftrightarrow> up_ok {} n \<and> cl_ok {} n"

lemma holds_up_throttled:
  assumes "throttle_consistent n" "holds_up n p q" "passive_throttled p n" "pn_passive n p"
  shows "passive_throttled q n \<and> pn_passive n q"
  using assms(2-4)
proof (induction rule: holds_up.induct)
  case (step p q a r q')
  then have "pn_throttled n a" using assms(1) unfolding throttle_consistent_def up_ok_def by blast
  then have "route_done r n" using assms(1) step.hyps by (auto simp: throttle_consistent_def cl_ok_def)
  from route_done_end [OF this step.hyps(4,5)] show ?case using step.hyps(6) by (simp add: passive_throttled_def)
qed simp

lemma holds_up_cong:
  assumes "raises n n'" shows "holds_up n p q \<Longrightarrow> holds_up n' p q"
  by (induction rule: holds_up.induct) (use assms in \<open>auto simp: raises_def intro: holds_up.intros\<close>)

text \<open>
  C10: Throttling a passive connector returns however the network is wired (cycles included: every
  active connector passes a notification on at most once, so their number bounds the depth of nested
  notifications), leaves every connected active connector informed and every passive connector
  upstream of it throttled, switches off the events of the routes on the way, and never clears a flag.
\<close>

theorem throttle_reaches_upstream:
  assumes "finite A" "ran (pn_peer n) \<subseteq> A" "throttle_consistent n" "pn_passive n p"
  shows "\<exists>n'. passive_throttle (active_notifyThrottle cb (card A)) p n = Some n' \<and> throttle_consistent n' \<and>
    raises n n' \<and> (\<forall>q. holds_up n p q \<longrightarrow> passive_throttled q n') \<and>
    (\<forall>q a r e. holds_up n p q \<longrightarrow> pn_peer n q = Some a \<longrightarrow> r \<in> set (pn_routes n a) \<longrightarrow> rt_auto r \<longrightarrow>
      Ev e \<in> {rt_source r, rt_target r} \<longrightarrow> pn_evThrottled n' e \<and> \<not> pn_evEnabled n' e)"
proof -
  have "thr_inv A (card A) {} n"
    using assms card_mono [OF assms(1), of "{b \<in> A. \<not> pn_throttled n b}"]
    by (auto simp: thr_inv_def throttle_consistent_def)
  moreover have "up_ok {} n" using assms(3) by (simp add: throttle_consistent_def)
  ultimately obtain n' where n': "passive_throttle (active_notifyThrottle cb (card A)) p n = Some n'"
    "raises n n'" "up_ok {} n'" "thr_inv A (card A) {} n'" "pn_native n' p"
    using passive_throttle_step [OF assms(1) active_notifyThrottle_spec [OF assms(1)]] by blast
  have c: "throttle_consistent n'" using n' by (simp add: throttle_consistent_def thr_inv_def)
  have pas: "pn_passive n' = pn_passive n" using n'(2) by (simp add: raises_def)
  have all: "passive_throttled q n' \<and> pn_passive n' q" if "holds_up n p q" for q
    using holds_up_throttled [OF c holds_up_cong [OF n'(2) that]] n'(5) assms(4) pas by (simp add: passive_throttled_def)
  have "pn_evThrottled n' e \<and> \<not> pn_evEnabled n' e"
    if "holds_up n p q" "pn_peer n q = Some a" "r \<in> set (pn_routes n a)" "rt_auto r"
      "Ev e \<in> {rt_source r, rt_target r}" for q a r e
  proof -
    have "pn_throttled n' a"
      using c all [OF that(1)] that(2) n'(2) by (auto simp: throttle_consistent_def up_ok_def raises_def)
    then have "route_done r n'" using c that(3) n'(2) by (auto simp: throttle_consistent_def cl_ok_def raises_def)
    from route_done_end [OF this that(4,5)] show ?thesis by simp
  qed
  then show ?thesis using n' c all by blast
qed

section \<open>Unthrottling releases\<close>

definition lowers :: "net \<Rightarrow> net \<Rightarrow> bool" where
  "lowers n n' \<longleftrightarrow> pn_peer n' = pn_peer n \<and> pn_passive n' = pn_passive n \<and> pn_routes n' = pn_routes n \<and>
     pn_evRoutes n' = pn_evRoutes n \<and> pn_native n' \<le> pn_native n \<and> pn_remote n' \<le> pn_remote n \<and>
     pn_throttled n' \<le> pn_throttled n \<and> pn_evThrottled n' \<le> pn_evThrottled n"

lemma lowers_refl [simp]: "lowers n n"
  by (simp add: lowers_def)

lemma lowers_trans: "lowers n1 n2 \<Longrightarrow> lowers n2 n3 \<Longrightarrow> lowers n1 n3"
  by (auto simp: lowers_def intro: order_trans)

text \<open>
  The wiring that \<open>connect\<close> and the constructors of routes build: peers are mutual and of opposite
  kind, a route is registered at both its ends.
\<close>

definition route_ends :: "route \<Rightarrow> endpoint set" where
  "route_ends r = {rt_source r, rt_target r}"

definition wired :: "net \<Rightarrow> bool" where
  "wired n \<longleftrightarrow> (\<forall>x y. pn_peer n x = Some y \<longrightarrow> pn_peer n y = Some x \<and> pn_passive n x \<noteq> pn_passive n y) \<and>
     (\<forall>c r. r \<in> set (pn_routes n c) \<longrightarrow> Conn c \<in> route_ends r \<and> (\<forall>d. Conn d \<in> route_ends r \<longrightarrow> r \<in> set (pn_routes n d))) \<and>
     (\<forall>e r. r \<in> set (pn_evRoutes n e) \<longrightarrow> Ev e \<in> route_ends r \<and> (\<forall>d. Conn d \<in> route_ends r \<longrightarrow> r \<in> set (pn_routes n d)))"

text \<open>
  \<open>down_ok X\<close>: a connected active connector marked as throttled has a throttled peer. \<open>caused Y\<close>: what
  a route throttled is still held by a throttled route, unless its notification is pending in \<open>Y\<close>.
\<close>

definition down_ok :: "nat set \<Rightarrow> net \<Rightarrow> bool" where
  "down_ok X n \<longleftrightarrow> (\<forall>p a. pn_passive n p \<longrightarrow> pn_peer n p = Some a \<longrightarrow> pn_throttled n a \<longrightarrow> a \<notin> X \<longrightarrow> passive_throttled p n)"

definition caused :: "endpoint set \<Rightarrow> net \<Rightarrow> bool" where
  "caused Y n \<longleftrightarrow>
     (\<forall>q. pn_passive n q \<longrightarrow> pn_remote n q \<longrightarrow> Conn q \<in> Y \<or> (\<exists>r \<in> set (pn_routes n q). route_throttled r n)) \<and>
     (\<forall>e. pn_evThrottled n e \<longrightarrow> Ev e \<in> Y \<or> (\<exists>r \<in> set (pn_evRoutes n e). route_throttled r n))"

definition auto_ends :: "route list \<Rightarrow> endpoint set" where
  "auto_ends rs = (\<Union>r \<in> {r \<in> set rs. rt_auto r}. route_ends r)"

definition unthr_inv :: "nat set \<Rightarrow> nat \<Rightarrow> net \<Rightarrow> bool" where
  "unthr_inv A k n \<longleftrightarrow> card {b \<in> A. pn_throttled n b} \<le> k \<and> ran (pn_peer n) \<subseteq> A \<and> wired n \<and> up_ok {} n"

definition unthr_spec :: "nat set \<Rightarrow> nat \<Rightarrow> (nat \<Rightarrow> net \<Rightarrow> net option) \<Rightarrow> bool" where
  "unthr_spec A k f \<longleftrightarrow> (\<forall>a p Y n. unthr_inv A k n \<longrightarrow> pn_passive n p \<longrightarrow> pn_peer n p = Some a \<longrightarrow> \<not> passive_throttled p n \<longrightarrow>
      down_ok {a} n \<longrightarrow> caused (if pn_throttled n a then Y \<union> auto_ends (pn_routes n a) else Y) n \<longrightarrow>
      (\<exists>n'. f a n = Some n' \<and> lowers n n' \<and> unthr_inv A k n' \<and> down_ok {} n' \<and> caused Y n'))"

lemma lowers_open:
  assumes "finite A" "lowers n n'"
  shows "card {b \<in> A. pn_throttled n' b} \<le> card {b \<in> A. pn_throttled n b}"
  by (rule card_mono) (use assms in \<open>auto simp: lowers_def le_fun_def\<close>)

lemma wired_lowers:
  assumes "wired n" "lowers n n'"
  shows "wired n'"
proof -
  have eqs: "pn_peer n' = pn_peer n" "pn_passive n' = pn_passive n" "pn_routes n' = pn_routes n" "pn_evRoutes n' = pn_evRoutes n"
    using assms(2) by (simp_all add: lowers_def)
  have "wired n' = wired n" by (simp only: wired_def eqs)
  with assms(1) show ?thesis by simp
qed

lemma route_throttled_iff:
  "route_throttled r n \<longleftrightarrow> rt_auto r \<and> (\<exists>c. Conn c \<in> route_ends r \<and> \<not> pn_passive n c \<and> active_throttled c n)"
proof -
  have "ep_throttled x n \<longleftrightarrow> (\<exists>c. Conn c = x \<and> \<not> pn_passive n c \<and> active_throttled c n)" for x
    by (cases x) auto
  then show ?thesis by (auto simp: route_throttled_def route_ends_def)
qed

lemma unthr_inv_lowers:
  assumes "unthr_inv A k n" "lowers n n'" "finite A" "up_ok {} n'"
  shows "unthr_inv A k n'"
  using assms lowers_open [OF assms(3,2)] wired_lowers [OF _ assms(2)] by (simp add: unthr_inv_def lowers_def)

text \<open>A route loses its throttling only through the peer of the connector that was released.\<close>

lemma route_released:
  assumes "wired n" "pn_peer n1 = pn_peer n" "pn_passive n1 = pn_passive n"
    and "\<forall>q. q \<noteq> p \<longrightarrow> passive_throttled q n1 = passive_throttled q n"
    and "route_throttled r n" "\<not> route_throttled r n1"
  shows "\<exists>a. pn_peer n p = Some a \<and> Conn a \<in> route_ends r \<and> rt_auto r"
proof -
  from assms(5) obtain c where c: "rt_auto r" "Conn c \<in> route_ends r" "\<not> pn_passive n c" "active_throttled c n"
    by (auto simp: route_throttled_iff)
  have "\<not> active_throttled c n1"
    using c assms(3,6) by (auto simp: route_throttled_iff)
  then obtain q where q: "pn_peer n c = Some q" "\<not> passive_throttled q n1" "passive_throttled q n"
    using c(4) assms(2) by (auto simp: active_throttled_def split: option.splits)
  then have "q = p" using assms(4) by auto
  with q(1) assms(1) have "pn_peer n p = Some c" unfolding wired_def by blast
  with c show ?thesis by blast
qed

lemma caused_release:
  assumes "wired n" "caused Y n" "lowers n n1" "pn_evThrottled n1 = pn_evThrottled n"
    and "\<forall>q. q \<noteq> p \<longrightarrow> passive_throttled q n1 = passive_throttled q n"
  shows "caused (Y \<union> (case pn_peer n p of None \<Rightarrow> {} | Some a \<Rightarrow> auto_ends (pn_routes n a))) n1"
proof -
  have st: "pn_peer n1 = pn_peer n" "pn_passive n1 = pn_passive n" "pn_routes n1 = pn_routes n"
    "pn_evRoutes n1 = pn_evRoutes n" "\<And>q. pn_remote n1 q \<Longrightarrow> pn_remote n q"
    using assms(3) by (auto simp: lowers_def le_fun_def)
  let ?Z = "case pn_peer n p of None \<Rightarrow> {} | Some a \<Rightarrow> auto_ends (pn_routes n a)"
  have rel: "x \<in> ?Z" if "route_throttled r n" "\<not> route_throttled r n1" "x \<in> route_ends r"
    "\<forall>d. Conn d \<in> route_ends r \<longrightarrow> r \<in> set (pn_routes n d)" for r x
  proof -
    from route_released [OF assms(1) st(1,2) assms(5) that(1,2)] obtain a
      where a: "pn_peer n p = Some a" "Conn a \<in> route_ends r" "rt_auto r" by blast
    with that(4) have "r \<in> set (pn_routes n a)" by blast
    with a(3) that(3) have "x \<in> auto_ends (pn_routes n a)" unfolding auto_ends_def by blast
    with a(1) show ?thesis by simp
  qed
  have w: "r \<in> set (pn_routes n c) \<Longrightarrow> Conn c \<in> route_ends r \<and> (\<forall>d. Conn d \<in> route_ends r \<longrightarrow> r \<in> set (pn_routes n d))"
    "r \<in> set (pn_evRoutes n e) \<Longrightarrow> Ev e \<in> route_ends r \<and> (\<forall>d. Conn d \<in> route_ends r \<longrightarrow> r \<in> set (pn_routes n d))"
    for r c e using assms(1) unfolding wired_def by blast+
  show ?thesis
    unfolding caused_def st(2,3,4) assms(4)
  proof (intro conjI allI impI)
    fix q assume q: "pn_passive n q" "pn_remote n1 q"
    then consider "Conn q \<in> Y" | r where "r \<in> set (pn_routes n q)" "route_throttled r n"
      using assms(2) st(5) unfolding caused_def by blast
    then show "Conn q \<in> Y \<union> ?Z \<or> (\<exists>r \<in> set (pn_routes n q). route_throttled r n1)"
      using rel w(1) by cases blast+
  next
    fix e assume "pn_evThrottled n e"
    then consider "Ev e \<in> Y" | r where "r \<in> set (pn_evRoutes n e)" "route_throttled r n"
      using assms(2) unfolding caused_def by blast
    then show "Ev e \<in> Y \<union> ?Z \<or> (\<exists>r \<in> set (pn_evRoutes n e). route_throttled r n1)"
      using rel w(2) by cases blast+
  qed
qed

lemma caused_keep:
  assumes "caused Y n" "lowers n n1" "\<forall>q. passive_throttled q n1 = passive_throttled q n"
  shows "caused Y n1"
proof -
  have st: "pn_peer n1 = pn_peer n" "pn_passive n1 = pn_passive n" "pn_routes n1 = pn_routes n"
    "pn_evRoutes n1 = pn_evRoutes n" "\<And>q. pn_remote n1 q \<Longrightarrow> pn_remote n q" "\<And>e. pn_evThrottled n1 e \<Longrightarrow> pn_evThrottled n e"
    using assms(2) by (auto simp: lowers_def le_fun_def)
  have "route_throttled r n1 = route_throttled r n" for r
    using st(1,2) assms(3) by (simp add: route_throttled_iff active_throttled_def split: option.splits)
  with assms(1) st(5,6) show ?thesis unfolding caused_def st(2,3,4) by blast
qed

lemma caused_drop:
  "caused (insert (Conn p) Y) n \<Longrightarrow> \<not> pn_remote n p \<or> \<not> pn_passive n p \<Longrightarrow> caused Y n"
  "caused (insert (Ev e) Y) n \<Longrightarrow> \<not> pn_evThrottled n e \<Longrightarrow> caused Y n"
  unfolding caused_def by blast+

lemma lowers_passive: "lowers n n1 \<Longrightarrow> passive_throttled q n1 \<Longrightarrow> passive_throttled q n"
  by (auto simp: lowers_def le_fun_def passive_throttled_def)

lemma up_ok_lowers:
  assumes "up_ok {} n" "lowers n n1" "pn_throttled n1 = pn_throttled n"
  shows "up_ok {} n1"
proof -
  have "pn_peer n1 = pn_peer n" "pn_passive n1 = pn_passive n" using assms(2) by (simp_all add: lowers_def)
  then show ?thesis using assms(1,3) lowers_passive [OF assms(2)] by (auto simp: up_ok_def)
qed

text \<open>Releasing a passive connector: the step that clears its flags, then the notification of its peer.\<close>

lemma emitUnthrottle_step:
  assumes fin: "finite A" and f: "unthr_spec A k f" and inv: "unthr_inv A k n" "down_ok {} n"
    and cs: "caused (insert (Conn p) Y) n" and p: "pn_passive n p"
    and low: "lowers n n1" "pn_throttled n1 = pn_throttled n" "pn_evThrottled n1 = pn_evThrottled n"
      "\<forall>q. q \<noteq> p \<longrightarrow> passive_throttled q n1 = passive_throttled q n" "\<not> passive_throttled p n1"
  shows "\<exists>n'. emitUnthrottle (\<lambda>_ m. m) f p n1 = Some n' \<and> lowers n1 n' \<and> unthr_inv A k n' \<and> down_ok {} n' \<and> caused Y n'"
proof -
  have st: "pn_peer n1 = pn_peer n" "pn_passive n1 = pn_passive n" "pn_routes n1 = pn_routes n"
    using low(1) by (auto simp: lowers_def)
  have w: "wired n" and up: "up_ok {} n" using inv by (auto simp: unthr_inv_def)
  have rem: "\<not> pn_remote n1 p" using low(5) by (simp add: passive_throttled_def)
  have inv1: "unthr_inv A k n1" using unthr_inv_lowers [OF inv(1) low(1) fin up_ok_lowers [OF up low(1,2)]] .
  have down: "down_ok {a} n1" if "pn_peer n p = Some a" for a
    using inv(2) low(4) that unfolding down_ok_def st low(2) by (metis option.inject empty_iff insertI1)
  show ?thesis
  proof (cases "pn_peer n p")
    case None
    have "down_ok {} n1"
      using inv(2) low(4) None unfolding down_ok_def st low(2) by (metis option.distinct(1))
    moreover have "caused Y n1"
      using caused_release [OF w cs low(1,3,4)] None caused_drop(1) rem by simp
    ultimately show ?thesis using None inv1 st by (simp add: emitUnthrottle_def)
  next
    case (Some a)
    have "caused (if pn_throttled n1 a then Y \<union> auto_ends (pn_routes n1 a) else Y) n1"
    proof (cases "pn_throttled n1 a")
      case True
      then show ?thesis
        using caused_release [OF w cs low(1,3,4)] Some caused_drop(1) [of p _ n1] rem st by simp
    next
      case False
      then have "\<not> passive_throttled p n" using up Some p unfolding up_ok_def low(2) by blast
      then have "\<forall>q. passive_throttled q n1 = passive_throttled q n" using low(4,5) by metis
      from caused_keep [OF cs low(1) this] False caused_drop(1) rem show ?thesis by auto
    qed
    then obtain n' where "f a n1 = Some n'" "lowers n1 n'" "unthr_inv A k n'" "down_ok {} n'" "caused Y n'"
      using f inv1 p Some down [OF Some] low(5) st unfolding unthr_spec_def by metis
    then show ?thesis using Some st by (simp add: emitUnthrottle_def)
  qed
qed

lemma lowers_upd:
  "lowers n (n\<lparr>pn_native := (pn_native n)(p := False)\<rparr>)"
  "lowers n (n\<lparr>pn_remote := (pn_remote n)(p := False)\<rparr>)"
  "lowers n (n\<lparr>pn_throttled := (pn_throttled n)(p := False)\<rparr>)"
  by (auto simp: lowers_def le_fun_def)

text \<open>Clearing a flag that does not release the connector changes nothing else.\<close>

lemma flag_step:
  assumes "finite A" "unthr_inv A k n" "down_ok {} n" "caused Y n" "lowers n n1"
    "pn_throttled n1 = pn_throttled n" "\<forall>q. passive_throttled q n1 = passive_throttled q n"
  shows "unthr_inv A k n1 \<and> down_ok {} n1 \<and> caused Y n1"
proof -
  have up: "up_ok {} n1" using up_ok_lowers [OF _ assms(5,6)] assms(2) by (simp add: unthr_inv_def)
  have "down_ok {} n1" using assms(3,5,6,7) by (simp add: down_ok_def lowers_def)
  then show ?thesis using unthr_inv_lowers [OF assms(2,5,1) up] caused_keep [OF assms(4,5,7)] by simp
qed

lemma passive_unthrottle_step:
  assumes "finite A" "unthr_spec A k f" "unthr_inv A k n" "down_ok {} n" "caused Y n" "pn_passive n p"
  shows "\<exists>n'. passive_unthrottle (\<lambda>_ m. m) f p n = Some n' \<and> lowers n n' \<and> unthr_inv A k n' \<and> down_ok {} n' \<and>
    caused Y n' \<and> \<not> pn_native n' p"
proof -
  let ?n1 = "n\<lparr>pn_native := (pn_native n)(p := False)\<rparr>"
  have "\<exists>n'. passive_unthrottle (\<lambda>_ m. m) f p n = Some n' \<and> lowers ?n1 n' \<and> unthr_inv A k n' \<and> down_ok {} n' \<and> caused Y n'"
  proof (cases "passive_throttled p n \<and> \<not> pn_remote n p")
    case True
    have c: "caused (insert (Conn p) Y) n" using assms(5) unfolding caused_def by blast
    have "\<exists>n'. emitUnthrottle (\<lambda>_ m. m) f p ?n1 = Some n' \<and> lowers ?n1 n' \<and> unthr_inv A k n' \<and> down_ok {} n' \<and> caused Y n'"
      by (rule emitUnthrottle_step [OF assms(1-4) c assms(6) lowers_upd(1)]) (use True in \<open>auto simp: passive_throttled_def\<close>)
    then show ?thesis using True by (simp add: passive_unthrottle_def)
  next
    case False
    have "unthr_inv A k ?n1 \<and> down_ok {} ?n1 \<and> caused Y ?n1"
      by (rule flag_step [OF assms(1,3-5) lowers_upd(1)]) (use False in \<open>auto simp: passive_throttled_def\<close>)
    then show ?thesis using False by (auto simp: passive_unthrottle_def)
  qed
  then obtain n' where n': "passive_unthrottle (\<lambda>_ m. m) f p n = Some n'" "lowers ?n1 n'" "unthr_inv A k n'"
    "down_ok {} n'" "caused Y n'" by blast
  moreover have "\<not> pn_native n' p" using n'(2) by (auto simp: lowers_def le_fun_def)
  ultimately show ?thesis using lowers_trans [OF lowers_upd(1) n'(2)] by blast
qed

lemma passive_notifyUnthrottle_step:
  assumes "finite A" "unthr_spec A k f" "unthr_inv A k n" "down_ok {} n" "caused (insert (Conn p) Y) n" "pn_passive n p"
  shows "\<exists>n'. passive_notifyUnthrottle (\<lambda>_ m. m) f p n = Some n' \<and> lowers n n' \<and> unthr_inv A k n' \<and> down_ok {} n' \<and> caused Y n'"
proof (cases "list_ex (\<lambda>r. route_throttled r n) (pn_routes n p)")
  case True
  then have "caused Y n" using assms(5) unfolding caused_def list_ex_iff by blast
  then show ?thesis using True assms(3,4) by (simp add: passive_notifyUnthrottle_def)
next
  case False
  let ?n1 = "n\<lparr>pn_remote := (pn_remote n)(p := False)\<rparr>"
  have "\<exists>n'. (if \<not> pn_native ?n1 p then emitUnthrottle (\<lambda>_ m. m) f p ?n1 else Some ?n1) = Some n' \<and>
      lowers ?n1 n' \<and> unthr_inv A k n' \<and> down_ok {} n' \<and> caused Y n'"
  proof (cases "pn_native n p")
    case True
    have "unthr_inv A k ?n1 \<and> down_ok {} ?n1 \<and> caused (insert (Conn p) Y) ?n1"
      by (rule flag_step [OF assms(1,3-5) lowers_upd(2)]) (use True in \<open>auto simp: passive_throttled_def\<close>)
    moreover from this have "caused Y ?n1" using caused_drop(1) [of p Y ?n1] by simp
    ultimately show ?thesis using True by simp
  next
    case False
    have "\<exists>n'. emitUnthrottle (\<lambda>_ m. m) f p ?n1 = Some n' \<and> lowers ?n1 n' \<and> unthr_inv A k n' \<and> down_ok {} n' \<and> caused Y n'"
      by (rule emitUnthrottle_step [OF assms(1-6) lowers_upd(2)]) (use False in \<open>auto simp: passive_throttled_def\<close>)
    then show ?thesis using False by simp
  qed
  then show ?thesis
    using False lowers_trans [OF lowers_upd(2)] lowers_upd(2) unfolding passive_notifyUnthrottle_def Let_def by auto
qed

lemma ev_notifyUnthrottle_step:
  assumes "finite A" "unthr_inv A k n" "down_ok {} n" "caused (insert (Ev e) Y) n"
  shows "lowers n (ev_notifyUnthrottle e n) \<and> unthr_inv A k (ev_notifyUnthrottle e n) \<and>
    down_ok {} (ev_notifyUnthrottle e n) \<and> caused Y (ev_notifyUnthrottle e n)"
proof (cases "list_ex (\<lambda>r. route_throttled r n) (pn_evRoutes n e)")
  case True
  then have "caused Y n" using assms(4) unfolding caused_def list_ex_iff by blast
  then show ?thesis using True assms(2,3) by (simp add: ev_notifyUnthrottle_def)
next
  case False
  let ?n1 = "ev_notifyUnthrottle e n"
  have low: "lowers n ?n1" using False by (auto simp: ev_notifyUnthrottle_def lowers_def le_fun_def)
  have "unthr_inv A k ?n1 \<and> down_ok {} ?n1 \<and> caused (insert (Ev e) Y) ?n1"
    by (rule flag_step [OF assms low]) (use False in \<open>simp_all add: ev_notifyUnthrottle_def passive_throttled_def\<close>)
  moreover have "\<not> pn_evThrottled ?n1 e" using False by (simp add: ev_notifyUnthrottle_def)
  ultimately show ?thesis using low caused_drop(2) by blast
qed

lemma ep_notifyUnthrottle_step:
  assumes "finite A" "unthr_spec A k f" "unthr_inv A k n" "down_ok {} n" "caused (insert x Y) n"
  shows "\<exists>n'. ep_notifyUnthrottle (\<lambda>_ m. m) f x n = Some n' \<and> lowers n n' \<and> unthr_inv A k n' \<and> down_ok {} n' \<and> caused Y n'"
proof (cases x)
  case (Conn c)
  show ?thesis
  proof (cases "pn_passive n c")
    case True
    then show ?thesis using Conn passive_notifyUnthrottle_step [OF assms(1-4)] assms(5) by simp
  next
    case False
    then have "caused Y n" using Conn assms(5) caused_drop(1) by blast
    then show ?thesis using Conn False assms(3,4) by simp
  qed
next
  case (Ev e)
  then show ?thesis using ev_notifyUnthrottle_step [OF assms(1,3,4)] assms(5) by simp
qed

lemma route_notifyUnthrottle_step:
  assumes "finite A" "unthr_spec A k f" "unthr_inv A k n" "down_ok {} n" "caused (Y \<union> auto_ends (r # rs)) n"
  shows "\<exists>n'. route_notifyUnthrottle (\<lambda>_ m. m) f r n = Some n' \<and> lowers n n' \<and> unthr_inv A k n' \<and> down_ok {} n' \<and>
    caused (Y \<union> auto_ends rs) n'"
proof (cases "rt_auto r")
  case True
  let ?Z = "Y \<union> auto_ends rs"
  have "Y \<union> auto_ends (r # rs) = insert (rt_source r) (insert (rt_target r) ?Z)"
    using True by (auto simp: auto_ends_def route_ends_def)
  with assms(5) have "caused (insert (rt_source r) (insert (rt_target r) ?Z)) n" by simp
  from ep_notifyUnthrottle_step [OF assms(1-4) this] obtain n1
    where n1: "ep_notifyUnthrottle (\<lambda>_ m. m) f (rt_source r) n = Some n1" "lowers n n1" "unthr_inv A k n1"
      "down_ok {} n1" "caused (insert (rt_target r) ?Z) n1" by blast
  from ep_notifyUnthrottle_step [OF assms(1,2) n1(3,4,5)] obtain n2
    where n2: "ep_notifyUnthrottle (\<lambda>_ m. m) f (rt_target r) n1 = Some n2" "lowers n1 n2" "unthr_inv A k n2"
      "down_ok {} n2" "caused ?Z n2" by blast
  show ?thesis
    using True n1(1) n2 lowers_trans [OF n1(2) n2(2)] by (simp add: route_notifyUnthrottle_def)
next
  case False
  then have "auto_ends (r # rs) = auto_ends rs" by (auto simp: auto_ends_def)
  then show ?thesis using False assms(3-5) by (simp add: route_notifyUnthrottle_def)
qed

lemma routes_notifyUnthrottle_step:
  assumes "finite A" "unthr_spec A k f" "unthr_inv A k n" "down_ok {} n" "caused (Y \<union> auto_ends rs) n"
  shows "\<exists>n'. fold_opt (route_notifyUnthrottle (\<lambda>_ m. m) f) rs n = Some n' \<and> lowers n n' \<and> unthr_inv A k n' \<and>
    down_ok {} n' \<and> caused Y n'"
  using assms(3-5)
proof (induction rs arbitrary: n)
  case Nil
  then show ?case by (simp add: auto_ends_def)
next
  case (Cons r rs)
  from route_notifyUnthrottle_step [OF assms(1,2) Cons.prems] obtain n1
    where n1: "route_notifyUnthrottle (\<lambda>_ m. m) f r n = Some n1" "lowers n n1" "unthr_inv A k n1"
      "down_ok {} n1" "caused (Y \<union> auto_ends rs) n1" by blast
  from Cons.IH [OF n1(3-5)] n1(1) lowers_trans [OF n1(2)] show ?case by auto
qed

lemma callbacks_unthrottle_step:
  assumes "finite A" "unthr_spec A k f" "unthr_inv A k n" "down_ok {} n" "caused Y n" "\<forall>p \<in> set ps. pn_passive n p"
  shows "\<exists>n'. fold_opt (passive_unthrottle (\<lambda>_ m. m) f) ps n = Some n' \<and> lowers n n' \<and> unthr_inv A k n' \<and>
    down_ok {} n' \<and> caused Y n'"
  using assms(3-6)
proof (induction ps arbitrary: n)
  case (Cons p ps)
  from passive_unthrottle_step [OF assms(1,2) Cons.prems(1-3), of p] Cons.prems(4) obtain n1
    where n1: "passive_unthrottle (\<lambda>_ m. m) f p n = Some n1" "lowers n n1" "unthr_inv A k n1" "down_ok {} n1" "caused Y n1"
    by auto
  have "\<forall>p \<in> set ps. pn_passive n1 p" using Cons.prems(4) n1(2) by (simp add: lowers_def)
  from Cons.IH [OF n1(3-5) this] n1(1) lowers_trans [OF n1(2)] show ?case by auto
qed simp

text \<open>A notification that finds the connector throttled opens one more connector.\<close>

lemma unthr_inv_enter:
  assumes "finite A" "pn_passive n p" "pn_peer n p = Some a" "pn_throttled n a" "unthr_inv A (Suc k) n" "\<not> passive_throttled p n"
  shows "unthr_inv A k (n\<lparr>pn_throttled := (pn_throttled n)(a := False)\<rparr>)"
proof -
  let ?n1 = "n\<lparr>pn_throttled := (pn_throttled n)(a := False)\<rparr>"
  have "a \<in> A" using assms(3,5) by (auto simp: unthr_inv_def ran_def)
  moreover have "{b \<in> A. pn_throttled ?n1 b} = {b \<in> A. pn_throttled n b} - {a}" by auto
  ultimately have c: "card {b \<in> A. pn_throttled ?n1 b} \<le> k"
    using assms(1,4,5) by (simp add: unthr_inv_def le_diff_conv)
  have w: "wired ?n1" using wired_lowers [OF _ lowers_upd(3)] assms(5) by (simp add: unthr_inv_def)
  have "q = p" if "pn_peer n q = Some a" for q
    using that assms(3,5) unfolding unthr_inv_def wired_def by (metis option.inject)
  then have "up_ok {} ?n1"
    using assms(5,6) by (auto simp: unthr_inv_def up_ok_def passive_throttled_def)
  then show ?thesis using c w assms(5) by (simp add: unthr_inv_def)
qed

lemma down_ok_open: "down_ok {a} n \<Longrightarrow> \<not> pn_throttled n a \<Longrightarrow> down_ok {} n"
  unfolding down_ok_def by blast

lemma active_notifyUnthrottle_spec:
  assumes "finite A" "\<forall>a n. \<forall>p \<in> set (cb a n). pn_passive n p"
  shows "unthr_spec A k (active_notifyUnthrottle (\<lambda>_ m. m) cb k)"
proof (induction k)
  case 0
  have "\<not> pn_throttled n a" if "unthr_inv A 0 n" "pn_peer n p = Some a" for a p n
    using that assms(1) by (auto simp: unthr_inv_def ran_def)
  then show ?case unfolding unthr_spec_def by (auto intro: down_ok_open)
next
  case (Suc k)
  let ?f = "active_notifyUnthrottle (\<lambda>_ m. m) cb k"
  show ?case unfolding unthr_spec_def
  proof (intro allI impI)
    fix a p Y n
    assume pre: "unthr_inv A (Suc k) n" "pn_passive n p" "pn_peer n p = Some a" "\<not> passive_throttled p n" "down_ok {a} n"
      "caused (if pn_throttled n a then Y \<union> auto_ends (pn_routes n a) else Y) n"
    show "\<exists>n'. active_notifyUnthrottle (\<lambda>_ m. m) cb (Suc k) a n = Some n' \<and> lowers n n' \<and>
        unthr_inv A (Suc k) n' \<and> down_ok {} n' \<and> caused Y n'"
    proof (cases "pn_throttled n a")
      case False
      then show ?thesis using pre(1,6) down_ok_open [OF pre(5)] by simp
    next
      case True
      let ?n1 = "n\<lparr>pn_throttled := (pn_throttled n)(a := False)\<rparr>"
      let ?Z = "Y \<union> auto_ends (pn_routes n a)"
      have inv1: "unthr_inv A k ?n1" by (rule unthr_inv_enter [OF assms(1) pre(2,3) True pre(1,4)])
      have down1: "down_ok {} ?n1" using pre(5) by (auto simp: down_ok_def passive_throttled_def)
      have c: "caused ?Z ?n1"
        by (rule caused_keep [OF _ lowers_upd(3)]) (use pre(6) True in \<open>auto simp: passive_throttled_def\<close>)
      from callbacks_unthrottle_step [OF assms(1) Suc inv1 down1 c] assms(2) obtain n2
        where n2: "fold_opt (passive_unthrottle (\<lambda>_ m. m) ?f) (cb a ?n1) ?n1 = Some n2" "lowers ?n1 n2"
          "unthr_inv A k n2" "down_ok {} n2" "caused ?Z n2" by blast
      have r: "pn_routes n2 a = pn_routes n a" using n2(2) by (simp add: lowers_def)
      from routes_notifyUnthrottle_step [OF assms(1) Suc n2(3,4,5)] obtain n3
        where n3: "fold_opt (route_notifyUnthrottle (\<lambda>_ m. m) ?f) (pn_routes n a) n2 = Some n3" "lowers n2 n3"
          "unthr_inv A k n3" "down_ok {} n3" "caused Y n3" by blast
      have "unthr_inv A (Suc k) n3" using n3(3) by (simp add: unthr_inv_def)
      then show ?thesis
        using True n2(1) n3(1,4,5) r lowers_trans [OF lowers_upd(3) lowers_trans [OF n2(2) n3(2)]] by (simp add: Let_def)
    qed
  qed
qed

text \<open>What may hold up a connector: its own module, or a route to an active connector that is not connected.\<close>

definition throttle_source :: "nat \<Rightarrow> net \<Rightarrow> bool" where
  "throttle_source s n \<longleftrightarrow> pn_native n s \<or>
     (\<exists>r \<in> set (pn_routes n s). rt_auto r \<and> (\<exists>a. Conn a \<in> route_ends r \<and> \<not> pn_passive n a \<and> pn_peer n a = None))"

definition acyclic_net :: "(nat \<Rightarrow> nat) \<Rightarrow> net \<Rightarrow> bool" where
  "acyclic_net rk n \<longleftrightarrow> (\<forall>q a r q'. pn_passive n q \<longrightarrow> pn_peer n q = Some a \<longrightarrow> r \<in> set (pn_routes n a) \<longrightarrow> rt_auto r \<longrightarrow>
     Conn q' \<in> route_ends r \<longrightarrow> pn_passive n q' \<longrightarrow> rk q < rk q')"

definition release_consistent :: "net \<Rightarrow> bool" where
  "release_consistent n \<longleftrightarrow> wired n \<and> up_ok {} n \<and> down_ok {} n \<and> caused {} n"

lemma throttle_has_source:
  assumes "release_consistent n" "acyclic_net rk n" "pn_passive n q" "passive_throttled q n"
  shows "\<exists>s. throttle_source s n \<and> holds_up n s q"
  using assms(3,4)
proof (induction "rk q" arbitrary: q rule: less_induct)
  case less
  show ?case
  proof (cases "pn_native n q")
    case True
    then show ?thesis using holds_up.base by (auto simp: throttle_source_def)
  next
    case False
    then have "pn_remote n q" using less.prems by (simp add: passive_throttled_def)
    then obtain r where r: "r \<in> set (pn_routes n q)" "route_throttled r n"
      using assms(1) less.prems unfolding release_consistent_def caused_def by blast
    then obtain a where a: "rt_auto r" "Conn a \<in> route_ends r" "\<not> pn_passive n a" "active_throttled a n"
      by (auto simp: route_throttled_iff)
    have w: "r \<in> set (pn_routes n a)" "Conn q \<in> route_ends r"
      using assms(1) r(1) a(2) unfolding release_consistent_def wired_def by blast+
    show ?thesis
    proof (cases "pn_peer n a")
      case None
      then have "throttle_source q n" unfolding throttle_source_def using r(1) a by blast
      then show ?thesis using holds_up.base by blast
    next
      case (Some p)
      have p: "pn_peer n p = Some a" "pn_passive n p"
        using assms(1) Some a(3) unfolding release_consistent_def wired_def by blast+
      have "passive_throttled p n" using a(4) Some by (simp add: active_throttled_def)
      moreover have "rk p < rk q"
        using assms(2) p w a(1) less.prems(1) unfolding acyclic_net_def by blast
      ultimately obtain s where s: "throttle_source s n" "holds_up n s p" using less.hyps p(2) by blast
      have "holds_up n s q"
        by (rule holds_up.step [OF s(2) p(1) w(1) a(1) _ less.prems(1)]) (use w(2) in \<open>simp add: route_ends_def\<close>)
      with s(1) show ?thesis by blast
    qed
  qed
qed


section \<open>Examples\<close>

text \<open>
  An event source with output 0 feeds input 1 of a second module, whose output 2 feeds input 3 of a
  sink.
\<close>

definition chain_net :: net where
  "chain_net = \<lparr>pn_peer = [0 \<mapsto> 1, 1 \<mapsto> 0, 2 \<mapsto> 3, 3 \<mapsto> 2], pn_passive = (\<lambda>c. c = 1 \<or> c = 3),
     pn_native = (\<lambda>_. False), pn_remote = (\<lambda>_. False), pn_throttled = (\<lambda>_. False),
     pn_routes = (\<lambda>c. if c = 0 then [\<lparr>rt_id = 0, rt_source = Ev 0, rt_target = Conn 0, rt_auto = True\<rparr>]
        else if c = 1 \<or> c = 2 then [\<lparr>rt_id = 1, rt_source = Conn 1, rt_target = Conn 2, rt_auto = True\<rparr>] else []),
     pn_evThrottled = (\<lambda>_. False), pn_evEnabled = (\<lambda>e. e = 0),
     pn_evRoutes = (\<lambda>e. if e = 0 then [\<lparr>rt_id = 0, rt_source = Ev 0, rt_target = Conn 0, rt_auto = True\<rparr>] else []),
     pn_evHook = (\<lambda>e. e = 0)\<rparr>"

lemma chain_net_ok:
  "ran (pn_peer chain_net) \<subseteq> {0, 1, 2, 3}" "throttle_consistent chain_net" "release_consistent chain_net"
  "acyclic_net (\<lambda>q. 3 - q) chain_net" "pn_passive chain_net 3"
  by (auto simp: chain_net_def ran_def throttle_consistent_def up_ok_def cl_ok_def passive_throttled_def
      release_consistent_def wired_def down_ok_def caused_def route_ends_def acyclic_net_def split: if_splits)

theorem throttle_reaches_upstream_witness:
  "\<exists>n'. passive_throttle (active_notifyThrottle (\<lambda>_ _. []) (card {0, 1, 2, 3 :: nat})) 3 chain_net = Some n' \<and>
     passive_throttled 1 n' \<and> \<not> pn_evEnabled n' 0"
proof -
  let ?r0 = "\<lparr>rt_id = 0, rt_source = Ev 0, rt_target = Conn 0, rt_auto = True\<rparr> :: route"
  let ?r1 = "\<lparr>rt_id = 1, rt_source = Conn 1, rt_target = Conn 2, rt_auto = True\<rparr> :: route"
  have h: "holds_up chain_net 3 1"
    by (rule holds_up.step [OF holds_up.base, of _ _ 2 ?r1]) (simp_all add: chain_net_def)
  have e: "pn_peer chain_net 1 = Some 0" "?r0 \<in> set (pn_routes chain_net 0)" "rt_auto ?r0" "Ev 0 \<in> {rt_source ?r0, rt_target ?r0}"
    by (simp_all add: chain_net_def)
  show ?thesis
    using throttle_reaches_upstream [OF _ chain_net_ok(1,2,5), of "\<lambda>_ _. []"] h e by blast
qed


text \<open>
  Without acyclicity a throttle may outlive its cause: a module that feeds itself (output 1 connected
  to its own input 0) stays throttled after its input is unthrottled, for its route keeps it so.
\<close>

definition ring_net :: net where
  "ring_net = \<lparr>pn_peer = [0 \<mapsto> 1, 1 \<mapsto> 0], pn_passive = (\<lambda>c. c = 0), pn_native = (\<lambda>_. False), pn_remote = (\<lambda>_. False),
     pn_throttled = (\<lambda>_. False),
     pn_routes = (\<lambda>c. if c = 0 \<or> c = 1 then [\<lparr>rt_id = 0, rt_source = Conn 0, rt_target = Conn 1, rt_auto = True\<rparr>] else []),
     pn_evThrottled = (\<lambda>_. False), pn_evEnabled = (\<lambda>_. False), pn_evRoutes = (\<lambda>_. []), pn_evHook = (\<lambda>_. False)\<rparr>"

lemma ring_keeps_throttle:
  "map_option (passive_throttled 0)
     (Option.bind (passive_throttle (active_notifyThrottle (\<lambda>_ _. []) 2) 0 ring_net)
        (passive_unthrottle (\<lambda>_ m. m) (active_notifyUnthrottle (\<lambda>_ m. m) (\<lambda>_ _. []) 2) 0)) = Some True"
  by code_simp

text \<open>
  An event that its module has disabled is switched on by the next unthrottle notification: the
  event does not record that it was disabled by the module and not by a throttle notification.
\<close>

theorem unthrottle_enables_disabled_event:
  assumes "\<forall>r \<in> set (pn_evRoutes n e). \<not> route_throttled r n"
  shows "pn_evEnabled (ev_notifyUnthrottle e (ev_notifyThrottle e (ev_set_enabled e False n))) e"
proof -
  have "route_throttled r (ev_notifyThrottle e (ev_set_enabled e False n)) = route_throttled r n" for r
    by (simp add: route_throttled_iff active_throttled_def ev_notifyThrottle_def passive_throttled_def split: option.splits)
  then show ?thesis using assms by (simp add: ev_notifyUnthrottle_def list_ex_iff ev_notifyThrottle_def)
qed

theorem unthrottle_enables_disabled_event_witness:
  "\<not> pn_evEnabled (ev_set_enabled 0 False chain_net) 0 \<and>
   pn_evEnabled (ev_notifyUnthrottle 0 (ev_notifyThrottle 0 (ev_set_enabled 0 False chain_net))) 0"
proof -
  have "\<forall>r \<in> set (pn_evRoutes chain_net 0). \<not> route_throttled r chain_net"
    by (simp add: chain_net_def route_throttled_def active_throttled_def passive_throttled_def)
  from unthrottle_enables_disabled_event [OF this] show ?thesis by (simp add: chain_net_def)
qed

end
