(* ===== verification/Ppi_Modules.thy ===== *)
theory Ppi_Modules
  imports Ppi_Throttle
begin

text \<open>
  Wiring of the packet processing infrastructure: connections (\<open>Connector::connect\<close>, \<open>disconnect\<close> and
  the destructor in \<open>senf/PPI/Connectors.cc\<close>), the registries of a module (\<open>senf/PPI/Module.*\<close>) and
  the initialisation queue of \<open>senf/PPI/ModuleManager.*\<close>. It shows that connectors are paired, that
  the queue holds each object once, and that connecting or disconnecting followed by initialisation
  brings the throttling state of \<open>Ppi_Throttle\<close> back to a consistent one.
\<close>

section \<open>State\<close>

datatype initializable = IConn nat | IMod nat

text \<open>\<open>pp_packetType c = None\<close> stands for \<open>typeid(void)\<close>, a generic connector.\<close>

record ppi =
  pp_net :: net
  pp_module :: "nat \<Rightarrow> nat option"
  pp_packetType :: "nat \<Rightarrow> nat option"
  pp_connectorRegistry :: "nat \<Rightarrow> nat list"
  pp_modRoutes :: "nat \<Rightarrow> route list"
  pp_moduleRegistry :: "nat list"
  pp_initQueue :: "initializable list"
  pp_initRunner :: bool
  pp_yield :: bool
  pp_running :: bool
  pp_alive :: bool

datatype connect_error = SourceNotRegistered | TargetNotRegistered | DuplicateConnection | IncompatibleConnectors | NotConnected

section \<open>Module manager\<close>

definition registerModule :: "nat \<Rightarrow> ppi \<Rightarrow> ppi" where
  "registerModule m s = (if \<not> pp_alive s then s else s\<lparr>pp_moduleRegistry := pp_moduleRegistry s @ [m]\<rparr>)"

definition unregisterModule :: "nat \<Rightarrow> ppi \<Rightarrow> ppi" where
  "unregisterModule m s =
     (if \<not> pp_alive s then s else s\<lparr>pp_moduleRegistry := removeAll m (pp_moduleRegistry s)\<rparr>)"

definition registerInitializable :: "initializable \<Rightarrow> ppi \<Rightarrow> ppi" where
  "registerInitializable i s =
     (if \<not> pp_alive s then s
      else s\<lparr>pp_initQueue := pp_initQueue s @ [i], pp_initRunner := True, pp_yield := True\<rparr>)"

definition unregisterInitializable :: "initializable \<Rightarrow> ppi \<Rightarrow> ppi" where
  "unregisterInitializable i s =
     (if \<not> pp_alive s then s
      else let s1 = s\<lparr>pp_initQueue := removeAll i (pp_initQueue s)\<rparr>
           in if pp_initQueue s1 = [] then s1\<lparr>pp_initRunner := False\<rparr> else s1)"

definition initializationScheduled :: "initializable \<Rightarrow> ppi \<Rightarrow> bool" where
  "initializationScheduled i s \<longleftrightarrow> pp_alive s \<and> i \<in> set (pp_initQueue s)"

text \<open>
  \<open>vinit\<close> is the virtual \<open>v_init\<close> of the objects. The object stays at the front of the queue while it
  is initialised; the loop may not end when \<open>vinit\<close> keeps registering objects, hence the fuel.
\<close>

fun mm_init_loop :: "(initializable \<Rightarrow> ppi \<Rightarrow> ppi option) \<Rightarrow> nat \<Rightarrow> ppi \<Rightarrow> ppi option" where
  "mm_init_loop vinit 0 s = (if pp_initQueue s = [] then Some s else None)"
| "mm_init_loop vinit (Suc k) s =
     (case pp_initQueue s of [] \<Rightarrow> Some s
      | i # _ \<Rightarrow> Option.bind (vinit i s) (\<lambda>s1. mm_init_loop vinit k (s1\<lparr>pp_initQueue := tl (pp_initQueue s1)\<rparr>)))"

definition mm_init :: "(initializable \<Rightarrow> ppi \<Rightarrow> ppi option) \<Rightarrow> nat \<Rightarrow> ppi \<Rightarrow> ppi option" where
  "mm_init vinit k s = map_option (\<lambda>s1. s1\<lparr>pp_initRunner := False\<rparr>) (mm_init_loop vinit k s)"

text \<open>\<open>proc\<close> is \<open>scheduler::process\<close>, with whether it ended by an exception; the guard clears
  \<open>running_\<close> either way.\<close>

definition mm_run :: "(initializable \<Rightarrow> ppi \<Rightarrow> ppi option) \<Rightarrow> nat \<Rightarrow> (ppi \<Rightarrow> bool \<times> ppi) \<Rightarrow> ppi \<Rightarrow> (bool \<times> ppi) option" where
  "mm_run vinit k proc s =
     map_option (\<lambda>s1. let (ex, s2) = proc (s1\<lparr>pp_running := True\<rparr>) in (ex, s2\<lparr>pp_running := False\<rparr>)) (mm_init vinit k s)"

text \<open>
  \<open>v_init\<close> of connectors; \<open>cbt\<close> and \<open>cbu\<close> are the throttle callbacks of \<open>Ppi_Throttle\<close>, \<open>minit\<close> is what
  the modules do.
\<close>

fun v_init :: "(nat \<Rightarrow> net \<Rightarrow> nat list) \<Rightarrow> (nat \<Rightarrow> net \<Rightarrow> nat list) \<Rightarrow> (nat \<Rightarrow> ppi \<Rightarrow> ppi) \<Rightarrow> nat \<Rightarrow> initializable \<Rightarrow> ppi \<Rightarrow> ppi option" where
  "v_init cbt cbu minit k (IConn c) s =
     map_option (\<lambda>n. s\<lparr>pp_net := n\<rparr>)
       (if pn_passive (pp_net s) c
        then passive_init (\<lambda>_ m. m) (active_notifyThrottle cbt k) (active_notifyUnthrottle (\<lambda>_ m. m) cbu k) c (pp_net s)
        else active_init (active_notifyThrottle cbt k) c (pp_net s))"
| "v_init cbt cbu minit k (IMod m) s = Some (minit m s)"

section \<open>Modules\<close>

definition setModule :: "nat \<Rightarrow> nat \<Rightarrow> ppi \<Rightarrow> ppi" where
  "setModule c m s = s\<lparr>pp_module := (pp_module s)(c \<mapsto> m)\<rparr>"

definition registerConnector :: "nat \<Rightarrow> nat \<Rightarrow> ppi \<Rightarrow> ppi" where
  "registerConnector m c s =
     (if c \<in> set (pp_connectorRegistry s m) then s
      else setModule c m (s\<lparr>pp_connectorRegistry := (pp_connectorRegistry s)(m := pp_connectorRegistry s m @ [c])\<rparr>))"

definition noroute :: "nat \<Rightarrow> nat \<Rightarrow> ppi \<Rightarrow> ppi" where
  "noroute m c s = setModule c m (registerConnector m c s)"

text \<open>Routing traits: active connectors send notifications, passive connectors and events receive them.\<close>

fun notifySource :: "net \<Rightarrow> endpoint \<Rightarrow> bool" where
  "notifySource n (Conn c) = (\<not> pn_passive n c)"
| "notifySource n (Ev e) = False"

fun notifyTarget :: "net \<Rightarrow> endpoint \<Rightarrow> bool" where
  "notifyTarget n (Conn c) = pn_passive n c"
| "notifyTarget n (Ev e) = True"

definition isForwarding :: "net \<Rightarrow> route \<Rightarrow> bool" where
  "isForwarding n r \<longleftrightarrow> notifySource n (rt_source r) \<and> notifyTarget n (rt_target r) \<or>
     notifyTarget n (rt_source r) \<and> notifySource n (rt_target r)"

fun ep_registerRoute :: "endpoint \<Rightarrow> route \<Rightarrow> net \<Rightarrow> net" where
  "ep_registerRoute (Conn c) r n = registerRoute c r n"
| "ep_registerRoute (Ev e) r n = n\<lparr>pn_evRoutes := (pn_evRoutes n)(e := pn_evRoutes n e @ [r])\<rparr>"

fun ep_unregisterRoute :: "endpoint \<Rightarrow> route \<Rightarrow> net \<Rightarrow> net" where
  "ep_unregisterRoute (Conn c) r n = unregisterRoute c r n"
| "ep_unregisterRoute (Ev e) r n = n\<lparr>pn_evRoutes := (pn_evRoutes n)(e := remove1 r (pn_evRoutes n e))\<rparr>"

text \<open>Construction and destruction of a route object.\<close>

definition route_create :: "route \<Rightarrow> net \<Rightarrow> net" where
  "route_create r n = (if isForwarding n r then ep_registerRoute (rt_target r) r (ep_registerRoute (rt_source r) r n) else n)"

definition route_destroy :: "route \<Rightarrow> net \<Rightarrow> net" where
  "route_destroy r n = (if isForwarding n r then ep_unregisterRoute (rt_target r) r (ep_unregisterRoute (rt_source r) r n) else n)"

fun routeHelper_route :: "nat \<Rightarrow> endpoint \<Rightarrow> ppi \<Rightarrow> ppi" where
  "routeHelper_route m (Conn c) s = registerConnector m c s"
| "routeHelper_route m (Ev e) s = s"

definition addRoute :: "nat \<Rightarrow> route \<Rightarrow> ppi \<Rightarrow> ppi" where
  "addRoute m r s = s\<lparr>pp_modRoutes := (pp_modRoutes s)(m := pp_modRoutes s m @ [r])\<rparr>"

definition module_route :: "nat \<Rightarrow> route \<Rightarrow> ppi \<Rightarrow> ppi" where
  "module_route m r s =
     (let s1 = routeHelper_route m (rt_target r) (routeHelper_route m (rt_source r) s)
      in addRoute m r (s1\<lparr>pp_net := route_create r (pp_net s1)\<rparr>))"

definition hasConnector :: "nat \<Rightarrow> route \<Rightarrow> bool" where
  "hasConnector c r \<longleftrightarrow> rt_source r = Conn c \<or> rt_target r = Conn c"

definition hasEvent :: "nat \<Rightarrow> route \<Rightarrow> bool" where
  "hasEvent e r \<longleftrightarrow> rt_source r = Ev e \<or> rt_target r = Ev e"

definition erase_routes :: "(route \<Rightarrow> bool) \<Rightarrow> nat \<Rightarrow> ppi \<Rightarrow> ppi" where
  "erase_routes P m s =
     s\<lparr>pp_modRoutes := (pp_modRoutes s)(m := filter (\<lambda>r. \<not> P r) (pp_modRoutes s m)),
       pp_net := fold route_destroy (filter P (pp_modRoutes s m)) (pp_net s)\<rparr>"

definition module_unregisterConnector :: "nat \<Rightarrow> nat \<Rightarrow> ppi \<Rightarrow> ppi" where
  "module_unregisterConnector m c s =
     erase_routes (hasConnector c) m
       (s\<lparr>pp_connectorRegistry := (pp_connectorRegistry s)(m := remove1 c (pp_connectorRegistry s m))\<rparr>)"

definition module_unregisterEvent :: "nat \<Rightarrow> nat \<Rightarrow> ppi \<Rightarrow> ppi" where
  "module_unregisterEvent m e s = erase_routes (hasEvent e) m s"

section \<open>Connections\<close>

definition enqueue_if_needed :: "nat \<Rightarrow> ppi \<Rightarrow> ppi" where
  "enqueue_if_needed c s = (if initializationScheduled (IConn c) s then s else registerInitializable (IConn c) s)"

definition set_peer :: "nat \<Rightarrow> nat option \<Rightarrow> ppi \<Rightarrow> ppi" where
  "set_peer c p s = s\<lparr>pp_net := (pp_net s)\<lparr>pn_peer := (pn_peer (pp_net s))(c := p)\<rparr>\<rparr>"

definition connector_connect :: "nat \<Rightarrow> nat \<Rightarrow> ppi \<Rightarrow> connect_error + ppi" where
  "connector_connect c t s =
     (if pp_module s c = None then Inl SourceNotRegistered
      else if pn_peer (pp_net s) c \<noteq> None then Inl DuplicateConnection
      else if pp_module s t = None then Inl TargetNotRegistered
      else if pn_peer (pp_net s) t \<noteq> None then Inl DuplicateConnection
      else if \<not> (pp_packetType s c = None \<or> pp_packetType s t = None \<or> pp_packetType s c = pp_packetType s t)
      then Inl IncompatibleConnectors
      else Inr (enqueue_if_needed t (enqueue_if_needed c (set_peer t (Some c) (set_peer c (Some t) s)))))"

definition connector_disconnect :: "nat \<Rightarrow> ppi \<Rightarrow> connect_error + ppi" where
  "connector_disconnect c s =
     (case pn_peer (pp_net s) c of None \<Rightarrow> Inl NotConnected
      | Some p \<Rightarrow> Inr (enqueue_if_needed p (enqueue_if_needed c (set_peer p None (set_peer c None s)))))"

text \<open>
  Destruction, up to the end of the life of \<open>c\<close>, when its members are gone: first \<open>~PassiveConnector\<close> or \<open>~ActiveConnector\<close> leaves the module, then \<open>~Connector\<close>
  releases the peer, then \<open>~Initializable\<close> leaves the queue.
\<close>

definition connector_unregister :: "nat \<Rightarrow> ppi \<Rightarrow> ppi" where
  "connector_unregister c s = (case pp_module s c of None \<Rightarrow> s | Some m \<Rightarrow> module_unregisterConnector m c s)"

definition connector_release :: "nat \<Rightarrow> ppi \<Rightarrow> ppi" where
  "connector_release c s =
     (case pn_peer (pp_net s) c of None \<Rightarrow> s | Some p \<Rightarrow> enqueue_if_needed p (set_peer p None s))"

definition connector_destroy :: "nat \<Rightarrow> ppi \<Rightarrow> ppi" where
  "connector_destroy c s =
     (let s1 = unregisterInitializable (IConn c) (connector_release c (connector_unregister c s))
      in set_peer c None (s1\<lparr>pp_module := (pp_module s1)(c := None)\<rparr>))"

section \<open>The initialisation queue\<close>

text \<open>Every object is queued once, and the hook that empties the queue is armed while there is work.\<close>

definition queue_ok :: "ppi \<Rightarrow> bool" where
  "queue_ok s \<longleftrightarrow> distinct (pp_initQueue s) \<and> (pp_alive s \<longrightarrow> pp_initRunner s = (pp_initQueue s \<noteq> []))"

lemma queue_ok_cong:
  "pp_initQueue s' = pp_initQueue s \<Longrightarrow> pp_initRunner s' = pp_initRunner s \<Longrightarrow> pp_alive s' = pp_alive s \<Longrightarrow> queue_ok s' = queue_ok s"
  by (simp add: queue_ok_def)

lemma queue_ok_unregister: "queue_ok s \<Longrightarrow> queue_ok (unregisterInitializable i s)"
  by (auto simp: queue_ok_def unregisterInitializable_def Let_def distinct_removeAll)

lemma queue_ok_enqueue: "queue_ok s \<Longrightarrow> queue_ok (enqueue_if_needed c s)"
  by (auto simp: queue_ok_def enqueue_if_needed_def initializationScheduled_def registerInitializable_def)

lemma set_peer_fields [simp]:
  "pp_initQueue (set_peer c p s) = pp_initQueue s" "pp_initRunner (set_peer c p s) = pp_initRunner s"
  "pp_alive (set_peer c p s) = pp_alive s" "pp_module (set_peer c p s) = pp_module s"
  "pn_peer (pp_net (set_peer c p s)) = (pn_peer (pp_net s))(c := p)" "pn_passive (pp_net (set_peer c p s)) = pn_passive (pp_net s)"
  "pn_routes (pp_net (set_peer c p s)) = pn_routes (pp_net s)" "pn_evRoutes (pp_net (set_peer c p s)) = pn_evRoutes (pp_net s)"
  by (simp_all add: set_peer_def)

lemma enqueue_net [simp]: "pp_net (enqueue_if_needed c s) = pp_net s"
  by (simp add: enqueue_if_needed_def registerInitializable_def)

lemma queue_ok_set_peer [simp]: "queue_ok (set_peer c p s) = queue_ok s"
  by (rule queue_ok_cong) simp_all

lemma erase_routes_fields [simp]:
  "pp_initQueue (erase_routes P m s) = pp_initQueue s" "pp_initRunner (erase_routes P m s) = pp_initRunner s"
  "pp_alive (erase_routes P m s) = pp_alive s" "pp_module (erase_routes P m s) = pp_module s"
  by (simp_all add: erase_routes_def)

lemma unregister_connector_fields [simp]:
  "pp_initQueue (connector_unregister c s) = pp_initQueue s" "pp_initRunner (connector_unregister c s) = pp_initRunner s"
  "pp_alive (connector_unregister c s) = pp_alive s"
  by (simp_all add: connector_unregister_def module_unregisterConnector_def split: option.splits)


text \<open>Initialising the objects in the order of the queue, each one once.\<close>

fun init_each :: "(initializable \<Rightarrow> ppi \<Rightarrow> ppi option) \<Rightarrow> initializable list \<Rightarrow> ppi \<Rightarrow> ppi option" where
  "init_each vinit [] s = Some s"
| "init_each vinit (i # is) s =
     Option.bind (vinit i s) (\<lambda>s1. init_each vinit is (s1\<lparr>pp_initQueue := tl (pp_initQueue s1)\<rparr>))"

lemma mm_init_each:
  assumes keep: "\<And>i s s'. vinit i s = Some s' \<Longrightarrow> pp_initQueue s' = pp_initQueue s" and "length (pp_initQueue s) \<le> k"
  shows "mm_init_loop vinit k s = init_each vinit (pp_initQueue s) s"
  using assms(2)
proof (induction k arbitrary: s)
  case (Suc k)
  show ?case
  proof (cases "pp_initQueue s")
    case (Cons i "is")
    show ?thesis
    proof (cases "vinit i s")
      case (Some s1)
      then have "pp_initQueue s1 = i # is" using keep Cons by simp
      then show ?thesis using Suc.IH [of "s1\<lparr>pp_initQueue := is\<rparr>"] Suc.prems Cons Some by simp
    qed (simp add: Cons)
  qed simp
qed simp

section \<open>Connecting settles the throttling state\<close>

definition link :: "nat \<Rightarrow> nat \<Rightarrow> net \<Rightarrow> net" where
  "link a p n = n\<lparr>pn_peer := (pn_peer n)(a := Some p, p := Some a)\<rparr>"

lemma link_fields [simp]:
  "pn_peer (link a p n) = (pn_peer n)(a := Some p, p := Some a)" "pn_passive (link a p n) = pn_passive n"
  "pn_routes (link a p n) = pn_routes n" "pn_evRoutes (link a p n) = pn_evRoutes n" "pn_native (link a p n) = pn_native n"
  "pn_remote (link a p n) = pn_remote n" "pn_throttled (link a p n) = pn_throttled n" "pn_evThrottled (link a p n) = pn_evThrottled n"
  "passive_throttled q (link a p n) = passive_throttled q n"
  by (simp_all add: link_def passive_throttled_def)

lemma link_wired:
  assumes "wired n" "pn_peer n p = None" "pn_peer n a = None" "pn_passive n p" "\<not> pn_passive n a"
  shows "wired (link a p n)"
proof -
  have ne: "a \<noteq> p" using assms(4,5) by blast
  have "pn_peer (link a p n) y = Some x \<and> pn_passive n x \<noteq> pn_passive n y" if "pn_peer (link a p n) x = Some y" for x y
  proof (cases "x = a \<or> x = p")
    case True
    then show ?thesis using that ne assms(4,5) by (auto split: if_splits)
  next
    case False
    then have xy: "pn_peer n x = Some y" using that by simp
    then have yx: "pn_peer n y = Some x" "pn_passive n x \<noteq> pn_passive n y" using assms(1) unfolding wired_def by blast+
    then have "y \<noteq> a" "y \<noteq> p" using assms(2,3) by auto
    then show ?thesis using yx by simp
  qed
  then show ?thesis using assms(1) unfolding wired_def link_fields(2-4) by blast
qed

text \<open>A new connection changes the throttling of the routes of its active end only.\<close>

lemma link_route_throttled:
  assumes "pn_peer n a = None" "\<not> pn_passive n a" "pn_peer n p = None" "pn_passive n p"
  shows "route_throttled r (link a p n) \<longleftrightarrow> rt_auto r \<and> (\<exists>c. Conn c \<in> route_ends r \<and> \<not> pn_passive n c \<and>
    (if c = a then passive_throttled p n else active_throttled c n))"
proof -
  have "active_throttled c (link a p n) = (if c = a then passive_throttled p n else active_throttled c n)"
    if "\<not> pn_passive n c" for c
    using that assms by (auto simp: active_throttled_def split: option.splits)
  then show ?thesis unfolding route_throttled_iff link_fields(2) by meson
qed

lemma link_route_same:
  assumes "pn_peer n a = None" "\<not> pn_passive n a" "pn_peer n p = None" "pn_passive n p" "passive_throttled p n"
  shows "route_throttled r (link a p n) = route_throttled r n"
proof -
  have "active_throttled a n" using assms(1) by (simp add: active_throttled_def)
  then show ?thesis using link_route_throttled [OF assms(1-4), of r] route_throttled_iff [of r n] assms(5) by metis
qed

lemma link_caused:
  assumes "release_consistent n" "pn_peer n a = None" "\<not> pn_passive n a" "pn_peer n p = None" "pn_passive n p"
  shows "caused (auto_ends (pn_routes n a)) (link a p n)"
proof -
  have w: "wired n" and c: "caused {} n" using assms(1) by (auto simp: release_consistent_def)
  have rel: "x \<in> auto_ends (pn_routes n a)"
    if "route_throttled r n" "\<not> route_throttled r (link a p n)" "x \<in> route_ends r"
      "\<forall>d. Conn d \<in> route_ends r \<longrightarrow> r \<in> set (pn_routes n d)" for r x
  proof -
    have "rt_auto r" "Conn a \<in> route_ends r"
      using that(1,2) link_route_throttled [OF assms(2-5), of r] route_throttled_iff [of r n] by metis+
    with that(3,4) show ?thesis unfolding auto_ends_def by blast
  qed
  have wr: "r \<in> set (pn_routes n c) \<Longrightarrow> Conn c \<in> route_ends r \<and> (\<forall>d. Conn d \<in> route_ends r \<longrightarrow> r \<in> set (pn_routes n d))"
    "r \<in> set (pn_evRoutes n e) \<Longrightarrow> Ev e \<in> route_ends r \<and> (\<forall>d. Conn d \<in> route_ends r \<longrightarrow> r \<in> set (pn_routes n d))"
    for r c e using w unfolding wired_def by blast+
  show ?thesis
    unfolding caused_def link_fields
  proof (intro conjI allI impI)
    fix q assume "pn_passive n q" "pn_remote n q"
    then obtain r where "r \<in> set (pn_routes n q)" "route_throttled r n" using c unfolding caused_def by blast
    then show "Conn q \<in> auto_ends (pn_routes n a) \<or> (\<exists>r \<in> set (pn_routes n q). route_throttled r (link a p n))"
      using rel wr(1) by blast
  next
    fix e assume "pn_evThrottled n e"
    then obtain r where "r \<in> set (pn_evRoutes n e)" "route_throttled r n" using c unfolding caused_def by blast
    then show "Ev e \<in> auto_ends (pn_routes n a) \<or> (\<exists>r \<in> set (pn_evRoutes n e). route_throttled r (link a p n))"
      using rel wr(2) by blast
  qed
qed

text \<open>The passive end has nothing to correct in its own flags.\<close>

lemma link_remote_same:
  assumes "release_consistent n" "pn_peer n a = None" "\<not> pn_passive n a" "pn_peer n p = None" "pn_passive n p"
  shows "(if list_ex (\<lambda>r. route_throttled r (link a p n)) (pn_routes n p) then link a p n
     else (link a p n)\<lparr>pn_remote := (pn_remote (link a p n))(p := False)\<rparr>) = link a p n"
proof (cases "pn_remote n p")
  case True
  then have "passive_throttled p n" by (simp add: passive_throttled_def)
  moreover obtain r where "r \<in> set (pn_routes n p)" "route_throttled r n"
    using True assms(1,5) unfolding release_consistent_def caused_def by blast
  ultimately show ?thesis using link_route_same [OF assms(2-5)] by (auto simp: list_ex_iff)
next
  case False
  then have "(pn_remote n)(p := False) = pn_remote n" by (simp add: fun_upd_idem)
  then show ?thesis by (simp add: link_def)
qed

lemma passive_init_linked:
  assumes "finite A" "ran (pn_peer n) \<subseteq> A" "a \<in> A" "p \<in> A" "release_consistent n"
    and ends: "pn_peer n a = None" "\<not> pn_passive n a" "pn_peer n p = None" "pn_passive n p" and thr: "pn_throttled n a"
    and cbu: "\<forall>a n. \<forall>p \<in> set (cbu a n). pn_passive n p"
  shows "\<exists>n'. passive_init (\<lambda>_ m. m) (active_notifyThrottle cbt (card A)) (active_notifyUnthrottle (\<lambda>_ m. m) cbu (card A)) p (link a p n) = Some n' \<and>
    lowers (link a p n) n' \<and> release_consistent n'"
proof -
  let ?l = "link a p n"
  have rc: "wired n" "up_ok {} n" "down_ok {} n" "caused {} n" using assms(5) by (auto simp: release_consistent_def)
  have ne: "a \<noteq> p" using ends by blast
  have w: "wired ?l" by (rule link_wired [OF rc(1) ends(3,1,4,2)])
  have r: "ran (pn_peer ?l) \<subseteq> A" using assms(2-4) by (auto simp: ran_def)
  have init: "passive_init (\<lambda>_ m. m) thrf unthr p ?l = (if passive_throttled p n then thrf a ?l else unthr a ?l)" for thrf unthr
    using link_remote_same [OF assms(5) ends]
    by (simp add: passive_init_def emitThrottle_def emitUnthrottle_def option.map_ident)
  show ?thesis
  proof (cases "passive_throttled p n")
    case True
    have "active_notifyThrottle cbt k a ?l = Some ?l" for k by (cases k) (simp_all add: thr)
    moreover have "up_ok {} ?l" using rc(2) thr ne ends by (auto simp: up_ok_def)
    moreover have "down_ok {} ?l" using rc(3) True ends by (auto simp: down_ok_def split: if_splits)
    moreover have "caused {} ?l" using rc(4) link_route_same [OF ends True] by (simp add: caused_def)
    ultimately show ?thesis using True w by (auto simp: init release_consistent_def)
  next
    case False
    have "card {b \<in> A. pn_throttled n b} \<le> card A" by (rule card_mono [OF assms(1)]) auto
    moreover have up: "up_ok {} ?l" using rc(2) False ends by (auto simp: up_ok_def split: if_splits)
    ultimately have inv: "unthr_inv A (card A) ?l" using w r by (simp add: unthr_inv_def)
    have "down_ok {a} ?l" using rc(3) ends by (auto simp: down_ok_def split: if_splits)
    moreover have "caused (if pn_throttled ?l a then {} \<union> auto_ends (pn_routes ?l a) else {}) ?l"
      using link_caused [OF assms(5) ends] thr by simp
    moreover have "pn_passive ?l p" "pn_peer ?l p = Some a" "\<not> passive_throttled p ?l"
      using ends False by simp_all
    ultimately obtain n' where "active_notifyUnthrottle (\<lambda>_ m. m) cbu (card A) a ?l = Some n'" "lowers ?l n'"
      "unthr_inv A (card A) n'" "down_ok {} n'" "caused {} n'"
      using active_notifyUnthrottle_spec [OF assms(1) cbu] inv unfolding unthr_spec_def by blast
    then show ?thesis using False by (auto simp: init release_consistent_def unthr_inv_def)
  qed
qed

text \<open>
  Connecting an initialised, unconnected active connector to an unconnected passive one succeeds
  when both belong to modules and their packet types agree; the initialisation that follows
  terminates, empties the queue, and leaves the network consistent: every connector that is throttled
  remotely is held by a throttled route, and the active connector knows the state of its new peer.
\<close>

theorem connect_settles:
  assumes "finite A" "ran (pn_peer (pp_net s)) \<subseteq> A" "a \<in> A" "p \<in> A" "release_consistent (pp_net s)"
    and ends: "pn_peer (pp_net s) a = None" "\<not> pn_passive (pp_net s) a" "pn_peer (pp_net s) p = None" "pn_passive (pp_net s) p"
    and "pn_throttled (pp_net s) a" "pp_module s a \<noteq> None" "pp_module s p \<noteq> None"
      "pp_packetType s a = None \<or> pp_packetType s p = None \<or> pp_packetType s a = pp_packetType s p"
      "pp_alive s" "pp_initQueue s = []" "\<forall>a n. \<forall>p \<in> set (cbu a n). pn_passive n p"
  shows "\<exists>s1 s2. connector_connect a p s = Inr s1 \<and> mm_init (v_init cbt cbu minit (card A)) 2 s1 = Some s2 \<and>
    pp_initQueue s2 = [] \<and> \<not> pp_initRunner s2 \<and> release_consistent (pp_net s2) \<and>
    pn_peer (pp_net s2) a = Some p \<and> pn_throttled (pp_net s2) a = passive_throttled p (pp_net s2)"
proof -
  let ?l = "link a p (pp_net s)"
  have ne: "a \<noteq> p" using ends by blast
  define s0 where "s0 = s\<lparr>pp_net := ?l\<rparr>"
  have "set_peer p (Some a) (set_peer a (Some p) s) = s0" by (simp add: s0_def set_peer_def link_def)
  then have c: "connector_connect a p s = Inr (enqueue_if_needed p (enqueue_if_needed a s0))"
    using assms(11-13) ends by (simp add: connector_connect_def)
  define s1 where "s1 = s0\<lparr>pp_initQueue := [IConn a, IConn p], pp_initRunner := True, pp_yield := True\<rparr>"
  have s1: "enqueue_if_needed p (enqueue_if_needed a s0) = s1"
    using assms(14,15) ne
    by (simp add: s0_def s1_def enqueue_if_needed_def initializationScheduled_def registerInitializable_def)
  obtain n' where n': "passive_init (\<lambda>_ m. m) (active_notifyThrottle cbt (card A))
      (active_notifyUnthrottle (\<lambda>_ m. m) cbu (card A)) p ?l = Some n'" "lowers ?l n'" "release_consistent n'"
    using passive_init_linked [OF assms(1-5) ends assms(10,16)] by blast
  have "mm_init (v_init cbt cbu minit (card A)) 2 s1 = Some (s1\<lparr>pp_net := n', pp_initQueue := [], pp_initRunner := False\<rparr>)"
    using n'(1) ends ne by (simp add: mm_init_def numeral_2_eq_2 s1_def s0_def active_init_def)
  moreover have "pn_peer n' a = Some p" "pn_peer n' p = Some a" "pn_passive n' p"
    using n'(2) ne ends(4) by (simp_all add: lowers_def)
  moreover from this have "pn_throttled n' a = passive_throttled p n'"
    using n'(3) unfolding release_consistent_def up_ok_def down_ok_def by blast
  ultimately show ?thesis using c s1 n'(3) by simp
qed

text \<open>
  The example network of \<open>Ppi_Throttle\<close> with its connectors in modules 0 to 2, and a new active
  connector 4 and passive connector 5.
\<close>

definition example_ppi :: ppi where
  "example_ppi = \<lparr>pp_net = chain_net\<lparr>pn_passive := (\<lambda>c. c = 1 \<or> c = 3 \<or> c = 5), pn_throttled := (\<lambda>c. c = 4)\<rparr>,
     pp_module = (\<lambda>c. Some (c div 2)), pp_packetType = (\<lambda>_. None), pp_connectorRegistry = (\<lambda>_. []),
     pp_modRoutes = (\<lambda>_. []), pp_moduleRegistry = [0, 1, 2], pp_initQueue = [], pp_initRunner = False, pp_yield = False,
     pp_running = False, pp_alive = True\<rparr>"

lemma example_ppi_ok:
  "ran (pn_peer (pp_net example_ppi)) \<subseteq> {0, 1, 2, 3, 4, 5}" "release_consistent (pp_net example_ppi)"
  "throttle_consistent (pp_net example_ppi)"
  by (auto simp: example_ppi_def chain_net_def ran_def up_ok_def cl_ok_def passive_throttled_def throttle_consistent_def
      release_consistent_def wired_def down_ok_def caused_def route_ends_def split: if_splits)


theorem connect_settles_witness:
  "\<exists>s1 s2. connector_connect 4 5 example_ppi = Inr s1 \<and>
     mm_init (v_init (\<lambda>_ _. []) (\<lambda>_ _. []) (\<lambda>_ s. s) (card {0, 1, 2, 3, 4, 5 :: nat})) 2 s1 = Some s2 \<and>
     pp_initQueue s2 = [] \<and> release_consistent (pp_net s2)"
proof -
  have "pn_peer (pp_net example_ppi) 4 = None" "\<not> pn_passive (pp_net example_ppi) 4" "pn_peer (pp_net example_ppi) 5 = None"
    "pn_passive (pp_net example_ppi) 5" "pn_throttled (pp_net example_ppi) 4" "pp_module example_ppi 4 \<noteq> None"
    "pp_module example_ppi 5 \<noteq> None" "pp_packetType example_ppi 4 = None \<or> pp_packetType example_ppi 5 = None \<or>
      pp_packetType example_ppi 4 = pp_packetType example_ppi 5"
    "pp_alive example_ppi" "pp_initQueue example_ppi = []" "\<forall>(a::nat) n. \<forall>p \<in> set []. pn_passive n p"
    by (simp_all add: example_ppi_def chain_net_def)
  from connect_settles [OF _ example_ppi_ok(1) _ _ example_ppi_ok(2) this, of "\<lambda>_ _. []" "\<lambda>_ s. s"]
  show ?thesis by auto
qed

section \<open>Disconnecting throttles\<close>

text \<open>
  When a connection is taken down, the initialisation of its active end terminates and reports the
  loss upstream like a throttle: the active connector is marked and every passive connector at the end
  of one of its routes is throttled, together with all it holds up.
\<close>

theorem disconnect_throttles:
  assumes "finite A" "ran (pn_peer (pp_net s)) \<subseteq> A" "throttle_consistent (pp_net s)"
    "pn_peer (pp_net s) a = Some p" "a \<in> A" "connector_disconnect a s = Inr s1"
  shows "\<exists>n'. active_init (active_notifyThrottle cb (card A)) a (pp_net s1) = Some n' \<and> throttle_consistent n' \<and>
    raises (pp_net s1) n' \<and> pn_throttled n' a \<and>
    (\<forall>r \<in> set (pn_routes (pp_net s) a). \<forall>q q'. rt_auto r \<longrightarrow> Conn q \<in> route_ends r \<longrightarrow> pn_passive (pp_net s) q \<longrightarrow>
      holds_up (pp_net s1) q q' \<longrightarrow> passive_throttled q' n')"
proof -
  let ?n = "pp_net s1"
  have st: "pn_peer ?n = (pn_peer (pp_net s))(a := None, p := None)" "pn_passive ?n = pn_passive (pp_net s)"
    "pn_routes ?n = pn_routes (pp_net s)" "pn_throttled ?n = pn_throttled (pp_net s)" "pn_remote ?n = pn_remote (pp_net s)"
    "pn_native ?n = pn_native (pp_net s)" "pn_evThrottled ?n = pn_evThrottled (pp_net s)" "pn_evEnabled ?n = pn_evEnabled (pp_net s)"
    using assms(4,6) by (auto simp: connector_disconnect_def set_peer_def)
  have "notified ?n x = notified (pp_net s) x" for x by (cases x) (simp_all add: st)
  then have "cl_ok {} ?n" using assms(3) by (simp add: throttle_consistent_def cl_ok_def route_done_def st)
  moreover have "card {b \<in> A. \<not> pn_throttled ?n b} \<le> card A" by (rule card_mono [OF assms(1)]) auto
  moreover have "ran (pn_peer ?n) \<subseteq> A" using assms(2) unfolding st by (auto simp: ran_def split: if_splits)
  ultimately have inv: "thr_inv A (card A) {} ?n" by (simp add: thr_inv_def)
  have "up_ok {a} ?n" using assms(3) unfolding throttle_consistent_def up_ok_def by (auto simp: st passive_throttled_def)
  with inv assms(5) active_notifyThrottle_spec [OF assms(1)] obtain n'
    where n': "active_notifyThrottle cb (card A) a ?n = Some n'" "raises ?n n'" "up_ok {} n'" "thr_inv A (card A) {} n'" "pn_throttled n' a"
    unfolding thr_spec_def by blast
  have c: "throttle_consistent n'" using n' by (simp add: throttle_consistent_def thr_inv_def)
  have "passive_throttled q' n'"
    if "r \<in> set (pn_routes (pp_net s) a)" "rt_auto r" "Conn q \<in> route_ends r" "pn_passive (pp_net s) q" "holds_up ?n q q'" for r q q'
  proof -
    have "route_done r n'" using c n'(2,5) that(1) st(3) by (auto simp: throttle_consistent_def cl_ok_def raises_def)
    from route_done_end [OF this that(2), of "Conn q"] that(3,4) n'(2) st(2)
    have "pn_remote n' q" "pn_passive n' q" by (auto simp: route_ends_def raises_def)
    then show ?thesis using holds_up_throttled [OF c holds_up_cong [OF n'(2) that(5)]] by (simp add: passive_throttled_def)
  qed
  then show ?thesis using n' c st(1) by (auto simp: active_init_def)
qed

theorem disconnect_throttles_witness:
  "\<exists>s1 n'. connector_disconnect 2 example_ppi = Inr s1 \<and>
     active_init (active_notifyThrottle (\<lambda>_ _. []) (card {0, 1, 2, 3, 4, 5 :: nat})) 2 (pp_net s1) = Some n' \<and> passive_throttled 1 n'"
proof -
  obtain s1 where s1: "connector_disconnect 2 example_ppi = Inr s1" "pn_peer (pp_net example_ppi) 2 = Some 3"
    by (simp add: connector_disconnect_def example_ppi_def chain_net_def)
  let ?r = "\<lparr>rt_id = 1, rt_source = Conn 1, rt_target = Conn 2, rt_auto = True\<rparr> :: route"
  have "?r \<in> set (pn_routes (pp_net example_ppi) 2)" "rt_auto ?r" "Conn 1 \<in> route_ends ?r" "pn_passive (pp_net example_ppi) 1"
    by (simp_all add: example_ppi_def chain_net_def route_ends_def)
  moreover have "holds_up (pp_net s1) 1 1" by (rule holds_up.base)
  ultimately show ?thesis
    using disconnect_throttles [OF _ example_ppi_ok(1,3) s1(2) _ s1(1), of "\<lambda>_ _. []"] s1(1) by blast
qed

end
