(* ===== verification/Ppi_Queue.thy ===== *)
theory Ppi_Queue
  imports Senf_Prelude "HOL-Library.Signed_Division"
begin

text \<open>
  Packet queues of the packet processing infrastructure: the queue of an input connector
  (\<open>InputConnector\<close> in \<open>senf/PPI/Connectors.*\<close>) with its threshold throttling (\<open>Throttling.cc\<close>), the
  queueing algorithms (\<open>QueueingAlgorithm.*\<close>), the order of the inputs of a \<open>PriorityJoin\<close>
  (\<open>Joins.cc\<close>) and the schedule of an \<open>IntervalTimer\<close> (\<open>IntervalTimer.cc\<close>).
\<close>

section \<open>Input connectors\<close>

text \<open>
  \<open>in_fast\<close> is the packet that \<open>fastPacket_\<close> points to, \<open>in_queue\<close> the deque from front to back: packets
  enter at the front and leave at the back.
\<close>

record 'p inp =
  in_fast :: "'p option"
  in_slow :: "'p option"
  in_queue :: "'p list"
  in_native :: bool
  in_remote :: bool

text \<open>How a call ends: normally, by a \<open>senf::Exception\<close>, or by any other exception.\<close>

datatype outcome = Done | SenfException | OtherException

definition queueSize :: "'p inp \<Rightarrow> nat" where
  "queueSize s = length (in_queue s) + (if in_fast s = None then 0 else 1)"

definition in_empty :: "'p inp \<Rightarrow> bool" where
  "in_empty s \<longleftrightarrow> in_fast s = None \<and> in_queue s = []"

definition park_fast :: "'p \<Rightarrow> 'p inp \<Rightarrow> 'p inp" where
  "park_fast p s = (if in_fast s \<noteq> None then s\<lparr>in_queue := p # in_queue s, in_fast := None\<rparr> else s)"

text \<open>\<open>ev\<close> is \<open>v_enqueueEvent\<close>.\<close>

definition in_enqueue :: "('p inp \<Rightarrow> outcome \<times> 'p inp) \<Rightarrow> 'p \<Rightarrow> 'p inp \<Rightarrow> outcome \<times> 'p inp" where
  "in_enqueue ev p s =
     (if in_queue s = []
      then (case ev (s\<lparr>in_fast := Some p\<rparr>) of
          (Done, s1) \<Rightarrow> (Done, park_fast p s1)
        | (SenfException, s1) \<Rightarrow> (SenfException, park_fast p s1)
        | (OtherException, s1) \<Rightarrow> (OtherException, s1))
      else ev (s\<lparr>in_queue := p # in_queue s\<rparr>))"

text \<open>\<open>req\<close> and \<open>deq\<close> are \<open>v_requestEvent\<close> and \<open>v_dequeueEvent\<close>; \<open>None\<close> stands for the null packet.\<close>

definition in_read :: "('p inp \<Rightarrow> 'p inp) \<Rightarrow> ('p inp \<Rightarrow> 'p inp) \<Rightarrow> 'p inp \<Rightarrow> 'p option \<times> 'p inp" where
  "in_read req deq s =
     (let s1 = (if in_empty s then req s else s)
      in case in_fast s1 of Some p \<Rightarrow> (Some p, deq (s1\<lparr>in_fast := None\<rparr>))
         | None \<Rightarrow>
             if in_queue s1 \<noteq> []
             then let s2 = deq (s1\<lparr>in_slow := Some (last (in_queue s1)), in_queue := butlast (in_queue s1)\<rparr>)
                  in (in_slow s2, s2)
             else (None, s1))"

section \<open>Throttling discipline\<close>

datatype thr_event = ENQUEUE | DEQUEUE

text \<open>What \<open>throttle\<close> and \<open>unthrottle\<close> do to the connector's own flag; \<open>emit\<close> and \<open>un\<close> are the
  notifications sent when the connector's state changes.\<close>

definition in_throttle :: "('p inp \<Rightarrow> 'p inp) \<Rightarrow> 'p inp \<Rightarrow> 'p inp" where
  "in_throttle emit s =
     (if \<not> (in_native s \<or> in_remote s) then emit (s\<lparr>in_native := True\<rparr>) else s\<lparr>in_native := True\<rparr>)"

definition in_unthrottle :: "('p inp \<Rightarrow> 'p inp) \<Rightarrow> 'p inp \<Rightarrow> 'p inp" where
  "in_unthrottle un s =
     (if (in_native s \<or> in_remote s) \<and> \<not> in_remote s then un (s\<lparr>in_native := False\<rparr>) else s\<lparr>in_native := False\<rparr>)"

fun threshold_update ::
  "('p inp \<Rightarrow> 'p inp) \<Rightarrow> ('p inp \<Rightarrow> 'p inp) \<Rightarrow> nat \<Rightarrow> nat \<Rightarrow> thr_event \<Rightarrow> 'p inp \<Rightarrow> 'p inp" where
  "threshold_update emit un high low ENQUEUE s = (if queueSize s \<ge> high then in_throttle emit s else s)"
| "threshold_update emit un high low DEQUEUE s = (if queueSize s \<le> low then in_unthrottle un s else s)"

text \<open>
  \<open>GenericPassiveInput\<close>: \<open>cb\<close> is the request handler, called unless the connector is throttled; \<open>disc\<close>
  the update of the throttling discipline, if there is one.
\<close>

definition in_emit :: "('p inp \<Rightarrow> outcome \<times> 'p inp) \<Rightarrow> 'p inp \<Rightarrow> outcome \<times> 'p inp" where
  "in_emit cb s = (if \<not> (in_native s \<or> in_remote s) then cb s else (Done, s))"

definition gpi_enqueueEvent ::
  "('p inp \<Rightarrow> outcome \<times> 'p inp) \<Rightarrow> (thr_event \<Rightarrow> 'p inp \<Rightarrow> 'p inp) option \<Rightarrow> 'p inp \<Rightarrow> outcome \<times> 'p inp" where
  "gpi_enqueueEvent cb disc s =
     (case in_emit cb s of
        (Done, s1) \<Rightarrow> (Done, case disc of None \<Rightarrow> s1 | Some d \<Rightarrow> d ENQUEUE s1)
      | (x, s1) \<Rightarrow> (x, s1))"

definition gpi_dequeueEvent :: "(thr_event \<Rightarrow> 'p inp \<Rightarrow> 'p inp) option \<Rightarrow> 'p inp \<Rightarrow> 'p inp" where
  "gpi_dequeueEvent disc s = (case disc of None \<Rightarrow> s | Some d \<Rightarrow> d DEQUEUE s)"

text \<open>The loop runs while the handler keeps changing the size of the queue; it may not end when the
  handler adds packets, hence the fuel.\<close>

fun gpi_unthrottleEvent :: "('p inp \<Rightarrow> outcome \<times> 'p inp) \<Rightarrow> nat \<Rightarrow> 'p inp \<Rightarrow> (outcome \<times> 'p inp) option" where
  "gpi_unthrottleEvent cb 0 s = (if queueSize s = 0 then Some (Done, s) else None)"
| "gpi_unthrottleEvent cb (Suc k) s =
     (if queueSize s = 0 then Some (Done, s)
      else case in_emit cb s of
          (Done, s1) \<Rightarrow> if queueSize s1 = queueSize s then Some (Done, s1) else gpi_unthrottleEvent cb k s1
        | (x, s1) \<Rightarrow> Some (x, s1))"

section \<open>First in, first out\<close>

text \<open>The packets in the connector, the oldest first.\<close>

definition packets :: "'p inp \<Rightarrow> 'p list" where
  "packets s = (case in_fast s of None \<Rightarrow> [] | Some p \<Rightarrow> [p]) @ rev (in_queue s)"

lemma rev_butlast: "rev (butlast xs) = tl (rev xs)"
  by (cases xs rule: rev_cases) simp_all

lemma tl_drop_1: "tl xs = drop (Suc 0) xs"
  by (simp add: drop_Suc)

definition in_wf :: "'p inp \<Rightarrow> bool" where
  "in_wf s \<longleftrightarrow> (in_fast s \<noteq> None \<longrightarrow> in_queue s = [])"

text \<open>What a handler may do to a connector: read packets from the old end.\<close>

definition consumes :: "'p inp \<Rightarrow> 'p inp \<Rightarrow> bool" where
  "consumes s s' \<longleftrightarrow> in_wf s' \<and> (\<exists>n. packets s' = drop n (packets s)) \<and> (in_fast s' = None \<or> in_fast s' = in_fast s)"

lemma consumes_refl: "in_wf s \<Longrightarrow> consumes s s"
  by (auto simp: consumes_def intro: exI [of _ 0])

lemma consumes_trans: "consumes s1 s2 \<Longrightarrow> consumes s2 s3 \<Longrightarrow> consumes s1 s3"
  unfolding consumes_def by (metis drop_drop)

lemma consumes_size: "consumes s s' \<Longrightarrow> queueSize s' \<le> queueSize s"
  by (auto simp: consumes_def queueSize_def packets_def dest!: arg_cong [where f = length] split: option.splits)

text \<open>The contract between a connector and the code it calls on its events.\<close>

locale input_events =
  fixes enq :: "'p inp \<Rightarrow> outcome \<times> 'p inp"
    and deq :: "'p inp \<Rightarrow> 'p inp"
  assumes enq_consumes: "in_wf s \<Longrightarrow> consumes s (snd (enq s))"
    and deq_consumes: "in_wf s \<Longrightarrow> consumes s (deq s)"
    and deq_slow: "in_wf s \<Longrightarrow> in_slow (deq s) = in_slow s"
begin

lemma enqueue_fifo:
  assumes "in_fast s = None" "in_enqueue enq p s = (x, s')" "x \<noteq> OtherException"
  shows "in_fast s' = None \<and> (\<exists>n. packets s' = drop n (packets s @ [p]))"
proof (cases "in_queue s = []")
  case True
  let ?s0 = "s\<lparr>in_fast := Some p\<rparr>"
  obtain y s1 where e: "enq ?s0 = (y, s1)" by fastforce
  have "consumes ?s0 s1" using enq_consumes [of ?s0] True e by (simp add: in_wf_def)
  then obtain n where n: "in_wf s1" "packets s1 = drop n [p]" "in_fast s1 = None \<or> in_fast s1 = Some p"
    using True by (auto simp: consumes_def packets_def)
  have "s' = park_fast p s1" using assms(2,3) True e by (auto simp: in_enqueue_def split: outcome.splits)
  moreover have "packets s = []" using True assms(1) by (simp add: packets_def)
  ultimately show ?thesis
  proof (cases "in_fast s1 = None")
    case False
    then have "packets (park_fast p s1) = [p]" using n by (auto simp: park_fast_def packets_def in_wf_def)
    then show ?thesis
      using \<open>s' = _\<close> \<open>packets s = []\<close> False by (auto simp: park_fast_def intro: exI [of _ 0])
  qed (use n in \<open>auto simp: park_fast_def\<close>)
next
  case False
  let ?s0 = "s\<lparr>in_queue := p # in_queue s\<rparr>"
  have "enq ?s0 = (x, s')" using False assms(2) by (simp add: in_enqueue_def)
  then have "consumes ?s0 s'" using enq_consumes [of ?s0] assms(1) by (simp add: in_wf_def)
  then show ?thesis using assms(1) by (auto simp: consumes_def packets_def)
qed

lemma read_oldest:
  assumes "in_wf s" "packets s \<noteq> []" "in_read req deq s = (r, s')"
  shows "r = Some (hd (packets s)) \<and> in_wf s' \<and> (\<exists>n. packets s' = drop n (tl (packets s)))"
proof -
  have ne: "\<not> in_empty s" using assms(2) by (auto simp: in_empty_def packets_def)
  show ?thesis
  proof (cases "in_fast s")
    case (Some p)
    let ?s1 = "s\<lparr>in_fast := None\<rparr>"
    have q: "in_queue s = []" using assms(1) Some by (simp add: in_wf_def)
    have "r = Some p" "s' = deq ?s1" using assms(3) ne Some by (auto simp: in_read_def)
    then show ?thesis
      using deq_consumes [of ?s1] Some q by (auto simp: consumes_def packets_def in_wf_def)
  next
    case None
    then have q: "in_queue s \<noteq> []" using ne by (simp add: in_empty_def)
    let ?s1 = "s\<lparr>in_slow := Some (last (in_queue s)), in_queue := butlast (in_queue s)\<rparr>"
    have w: "in_wf ?s1" using None by (simp add: in_wf_def)
    have r: "r = in_slow (deq ?s1)" "s' = deq ?s1" using assms(3) ne None q by (auto simp: in_read_def Let_def)
    have "packets ?s1 = tl (packets s)" "hd (packets s) = last (in_queue s)"
      using None q by (simp_all add: packets_def rev_butlast hd_rev)
    then show ?thesis
      using deq_consumes [OF w] deq_slow [OF w] r by (auto simp: consumes_def)
  qed
qed

end

text \<open>A handler that reads one packet, throttled between 1 and 0 packets as new connectors are.\<close>

definition read_handler :: "(thr_event \<Rightarrow> 'p inp \<Rightarrow> 'p inp) option \<Rightarrow> 'p inp \<Rightarrow> outcome \<times> 'p inp" where
  "read_handler disc s = (Done, snd (in_read (\<lambda>s. s) (gpi_dequeueEvent disc) s))"

definition default_disc :: "thr_event \<Rightarrow> 'p inp \<Rightarrow> 'p inp" where
  "default_disc = threshold_update (\<lambda>s. s) (\<lambda>s. s) 1 0"

lemma default_disc_keeps:
  "packets (default_disc e s) = packets s" "in_fast (default_disc e s) = in_fast s" "in_queue (default_disc e s) = in_queue s"
  "in_slow (default_disc e s) = in_slow s"
  by (cases e; simp add: default_disc_def in_throttle_def in_unthrottle_def packets_def)+

lemma default_deq_consumes:
  assumes "in_wf s"
  shows "consumes s (gpi_dequeueEvent (Some default_disc) s)"
  using assms by (auto simp: gpi_dequeueEvent_def consumes_def in_wf_def default_disc_keeps intro: exI [of _ 0])

lemma read_consumes:
  assumes "in_wf s"
  shows "consumes s (snd (in_read (\<lambda>s. s) (gpi_dequeueEvent (Some default_disc)) s))"
proof (cases "in_fast s")
  case (Some p)
  then have "in_queue s = []" using assms by (simp add: in_wf_def)
  then show ?thesis using Some
    by (auto simp: in_read_def in_empty_def gpi_dequeueEvent_def consumes_def in_wf_def default_disc_keeps packets_def intro: exI [of _ 1])
next
  case None
  show ?thesis
  proof (cases "in_queue s = []")
    case True
    then show ?thesis using None assms by (simp add: in_read_def in_empty_def consumes_refl)
  next
    case False
    let ?s1 = "s\<lparr>in_slow := Some (last (in_queue s)), in_queue := butlast (in_queue s)\<rparr>"
    have "consumes s ?s1"
      using None False by (auto simp: consumes_def in_wf_def packets_def rev_butlast intro: exI [of _ "Suc 0"] simp: tl_drop_1)
    moreover have "consumes ?s1 (gpi_dequeueEvent (Some default_disc) ?s1)"
      by (rule default_deq_consumes) (use None in \<open>simp add: in_wf_def\<close>)
    ultimately show ?thesis
      using None False consumes_trans by (auto simp: in_read_def in_empty_def Let_def)
  qed
qed

interpretation pin: input_events "gpi_enqueueEvent (read_handler (Some default_disc)) (Some default_disc)" "gpi_dequeueEvent (Some default_disc)"
proof
  fix s :: "'a inp"
  assume w: "in_wf s"
  have "consumes s s1 \<Longrightarrow> consumes s (default_disc ENQUEUE s1)" for s1
    by (simp add: consumes_def default_disc_keeps in_wf_def)
  then show "consumes s (snd (gpi_enqueueEvent (read_handler (Some default_disc)) (Some default_disc) s))"
    using read_consumes [OF w] consumes_refl [OF w]
    by (simp add: gpi_enqueueEvent_def in_emit_def read_handler_def)
  show "consumes s (gpi_dequeueEvent (Some default_disc) s)" by (rule default_deq_consumes [OF w])
  show "in_slow (gpi_dequeueEvent (Some default_disc) s) = in_slow s"
    by (simp add: gpi_dequeueEvent_def default_disc_keeps)
qed


definition empty_input :: "nat inp" where
  "empty_input = \<lparr>in_fast = None, in_slow = None, in_queue = [], in_native = False, in_remote = False\<rparr>"


text \<open>The drain loop ends when the handler only consumes: fuel for the packets in the queue is enough.\<close>

lemma unthrottleEvent_ends:
  assumes "\<And>s. in_wf s \<Longrightarrow> consumes s (snd (cb s))" "in_wf s" "queueSize s \<le> k"
  shows "\<exists>x s'. gpi_unthrottleEvent cb k s = Some (x, s') \<and> consumes s s'"
  using assms(2,3)
proof (induction k arbitrary: s)
  case 0
  then show ?case using consumes_refl by simp
next
  case (Suc k)
  obtain x s1 where e: "in_emit cb s = (x, s1)" by fastforce
  have c: "consumes s s1"
    using e assms(1) [OF Suc.prems(1)] consumes_refl [OF Suc.prems(1)] by (auto simp: in_emit_def split: if_splits)
  show ?case
  proof (cases "queueSize s \<noteq> 0 \<and> x = Done \<and> queueSize s1 \<noteq> queueSize s")
    case True
    have "in_wf s1" using c by (simp add: consumes_def)
    moreover have "queueSize s1 \<le> k" using consumes_size [OF c] True Suc.prems(2) by linarith
    ultimately show ?thesis using Suc.IH [of s1] True e consumes_trans [OF c] by auto
  next
    case False
    then show ?thesis using e c consumes_refl [OF Suc.prems(1)] by (cases x) auto
  qed
qed

text \<open>
  A handler that raises an exception not derived from \<open>senf::Exception\<close> leaves the connector
  pointing to the caller's packet: the connector is not empty although its queue is, and the next
  read returns that packet.
\<close>

theorem foreign_exception_leaves_packet:
  assumes "in_fast s = None" "in_queue s = []"
  shows "in_enqueue (\<lambda>t. (OtherException, t)) p s = (OtherException, s\<lparr>in_fast := Some p\<rparr>) \<and>
    fst (in_read req deq (snd (in_enqueue (\<lambda>t. (OtherException, t)) p s))) = Some p"
  using assms by (simp add: in_enqueue_def in_read_def in_empty_def)

theorem foreign_exception_leaves_packet_witness:
  "fst (in_read (\<lambda>s. s) (\<lambda>s. s) (snd (in_enqueue (\<lambda>t. (OtherException, t)) 7 empty_input))) = Some 7"
proof -
  have "in_fast empty_input = None" "in_queue empty_input = []" by (simp_all add: empty_input_def)
  from foreign_exception_leaves_packet [OF this] show ?thesis by blast
qed

text \<open>
  A packet that arrives at a connector while the handler of an earlier packet is running and has
  not read that one yet replaces it: the earlier packet is lost.
\<close>

theorem nested_enqueue_loses_packet:
  assumes "in_fast s = None" "in_queue s = []"
  shows "packets (snd (in_enqueue (in_enqueue (\<lambda>t. (Done, t)) q) p s)) = [q]"
  using assms by (simp add: in_enqueue_def park_fast_def packets_def)

theorem nested_enqueue_loses_packet_witness:
  "packets (snd (in_enqueue (in_enqueue (\<lambda>t. (Done, t)) 8) 7 empty_input)) = [8]"
  using nested_enqueue_loses_packet [of empty_input 8 7] by (simp add: empty_input_def)

section \<open>Queueing algorithms\<close>

text \<open>The interface of \<open>QueueingAlgorithm\<close>, over the packets an algorithm holds.\<close>

locale queueing_algorithm =
  fixes enqueue :: "'p \<Rightarrow> bool \<Rightarrow> 'q \<Rightarrow> bool \<times> 'q"
    and dequeue :: "'q \<Rightarrow> 'p option \<times> 'q"
    and clear :: "'q \<Rightarrow> 'q"
    and held :: "'q \<Rightarrow> 'p list"
    and room :: "'q \<Rightarrow> bool \<Rightarrow> bool"
  assumes enqueue_law: "enqueue p force q = (ok, q') \<Longrightarrow>
      ok = room q force \<and> held q' = (if ok then held q @ [p] else held q)"
    and dequeue_law: "dequeue q = (r, q') \<Longrightarrow>
      (held q = [] \<longrightarrow> r = None \<and> held q' = []) \<and> (held q \<noteq> [] \<longrightarrow> r = Some (hd (held q)) \<and> held q' = tl (held q))"
    and clear_law: "held (clear q) = []"
begin

fun enqueue_all :: "'p list \<Rightarrow> 'q \<Rightarrow> 'p list \<times> 'q" where
  "enqueue_all [] q = ([], q)"
| "enqueue_all (p # ps) q =
     (let (ok, q1) = enqueue p False q; (acc, q2) = enqueue_all ps q1 in (if ok then p # acc else acc, q2))"

fun dequeue_n :: "nat \<Rightarrow> 'q \<Rightarrow> 'p list \<times> 'q" where
  "dequeue_n 0 q = ([], q)"
| "dequeue_n (Suc n) q =
     (let (r, q1) = dequeue q; (ps, q2) = dequeue_n n q1 in (case r of None \<Rightarrow> ps | Some p \<Rightarrow> p # ps, q2))"

lemma enqueue_all_held: "enqueue_all ps q = (acc, q') \<Longrightarrow> held q' = held q @ acc"
proof (induction ps arbitrary: q acc q')
  case (Cons p ps)
  obtain ok q1 where e: "enqueue p False q = (ok, q1)" by fastforce
  obtain acc1 q2 where r: "enqueue_all ps q1 = (acc1, q2)" by fastforce
  show ?case using Cons.IH [OF r] enqueue_law [OF e] Cons.prems e r by (auto split: if_splits)
qed simp

lemma dequeue_n_held: "dequeue_n n q = (ps, q') \<Longrightarrow> ps = take n (held q) \<and> held q' = drop n (held q)"
proof (induction n arbitrary: q ps q')
  case (Suc n)
  obtain r q1 where d: "dequeue q = (r, q1)" by fastforce
  obtain ps1 q2 where i: "dequeue_n n q1 = (ps1, q2)" by fastforce
  show ?case using Suc.IH [OF i] dequeue_law [OF d] Suc.prems d i by (cases "held q") auto
qed simp

lemma accepted_come_out:
  assumes "enqueue_all ps (clear q) = (acc, q1)" "dequeue_n (length acc) q1 = (out, q2)"
  shows "out = acc"
  using enqueue_all_held [OF assms(1)] dequeue_n_held [OF assms(2)] by (simp add: clear_law)

end

record 'p fifo_alg =
  fa_queue :: "'p list"
  fa_max_size :: nat

definition FIFO_v_dequeue :: "'p fifo_alg \<Rightarrow> 'p option \<times> 'p fifo_alg" where
  "FIFO_v_dequeue q = (if length (fa_queue q) > 0 then (Some (hd (fa_queue q)), q\<lparr>fa_queue := tl (fa_queue q)\<rparr>) else (None, q))"

definition FIFO_v_enqueue :: "'p \<Rightarrow> bool \<Rightarrow> 'p fifo_alg \<Rightarrow> bool \<times> 'p fifo_alg" where
  "FIFO_v_enqueue p force q =
     (if \<not> force \<and> length (fa_queue q) \<ge> fa_max_size q then (False, q) else (True, q\<lparr>fa_queue := fa_queue q @ [p]\<rparr>))"

definition FIFO_v_clear :: "'p fifo_alg \<Rightarrow> 'p fifo_alg" where
  "FIFO_v_clear q = q\<lparr>fa_queue := []\<rparr>"

definition FIFO_create :: "'p fifo_alg" where
  "FIFO_create = \<lparr>fa_queue = [], fa_max_size = 64\<rparr>"

definition FIFO_v_frontPacketSize :: "('p \<Rightarrow> nat) \<Rightarrow> 'p fifo_alg \<Rightarrow> nat" where
  "FIFO_v_frontPacketSize sz q = (if fa_queue q = [] then 0 else sz (hd (fa_queue q)))"

definition None_v_enqueue :: "'p \<Rightarrow> bool \<Rightarrow> unit \<Rightarrow> bool \<times> unit" where
  "None_v_enqueue p force q = (False, q)"

definition None_v_dequeue :: "unit \<Rightarrow> 'p option \<times> unit" where
  "None_v_dequeue q = (None, q)"

definition None_v_clear :: "unit \<Rightarrow> unit" where
  "None_v_clear q = q"

text \<open>The registry: algorithms by name, an exception for an unknown one.\<close>

definition createQAlgorithm :: "(string \<rightharpoonup> 'q) \<Rightarrow> string \<Rightarrow> string + 'q" where
  "createQAlgorithm algs key =
     (case algs key of Some q \<Rightarrow> Inr q | None \<Rightarrow> Inl (''QueueingAlgorithm not registered: '' @ key))"

interpretation fifo: queueing_algorithm FIFO_v_enqueue FIFO_v_dequeue FIFO_v_clear fa_queue
  "\<lambda>q force. force \<or> length (fa_queue q) < fa_max_size q"
  by unfold_locales (auto simp: FIFO_v_enqueue_def FIFO_v_dequeue_def FIFO_v_clear_def split: if_splits)

interpretation noneq: queueing_algorithm None_v_enqueue None_v_dequeue None_v_clear "\<lambda>_. []" "\<lambda>_ _. False"
  by unfold_locales (auto simp: None_v_enqueue_def None_v_dequeue_def None_v_clear_def)

lemma fifo_bound:
  assumes "length (fa_queue q) \<le> fa_max_size q" "FIFO_v_enqueue p False q = (ok, q')"
  shows "length (fa_queue q') \<le> fa_max_size q' \<and> (ok \<longleftrightarrow> length (fa_queue q) < fa_max_size q)"
  using assms by (auto simp: FIFO_v_enqueue_def split: if_splits)

section \<open>Priorities of a join\<close>

text \<open>The new connector is the last of \<open>cs\<close>; \<open>pop_back\<close> runs before the position to insert at is used.\<close>

definition connectorSetup :: "'c list \<Rightarrow> int \<Rightarrow> 'c list" where
  "connectorSetup cs priority =
     (let p1 = (if priority < 0 then int (length cs) + priority else priority);
          p2 = (if priority < 0 \<and> p1 < 0 then 0 else p1)
      in if p2 \<ge> int (length cs) - 1 then cs
         else take (nat p2) (butlast cs) @ [last cs] @ drop (nat p2) (butlast cs))"

definition join_request :: "('c \<Rightarrow> bool) \<Rightarrow> 'c list \<Rightarrow> 'c option" where
  "join_request throttled cs = List.find (\<lambda>c. \<not> throttled c) cs"

definition join_onThrottle :: "('c \<Rightarrow> bool) \<Rightarrow> 'c list \<Rightarrow> bool" where
  "join_onThrottle throttled cs \<longleftrightarrow> List.find (\<lambda>c. \<not> throttled c) cs = None"

lemma connectorSetup_position:
  assumes "0 \<le> p" "p \<le> int (length cs)"
  shows "connectorSetup (cs @ [c]) p = take (nat p) cs @ [c] @ drop (nat p) cs"
  using assms by (auto simp: connectorSetup_def Let_def)

lemma connectorSetup_negative:
  assumes "p < 0"
  shows "connectorSetup (cs @ [c]) p = (let k = length cs + 1 - nat (- p) in take k cs @ [c] @ drop k cs)"
proof -
  have k: "nat (int (length cs) + 1 + p) = length cs + 1 - nat (- p)" using assms by (simp add: nat_diff_distrib nat_add_distrib)
  show ?thesis
  proof (cases "int (length cs) + 1 + p < 0")
    case True
    then have "length cs + 1 - nat (- p) = 0" by simp
    then show ?thesis using assms True by (simp add: connectorSetup_def Let_def algebra_simps)
  next
    case False
    then show ?thesis using assms k by (auto simp: connectorSetup_def Let_def algebra_simps)
  qed
qed

section \<open>Interval timer\<close>

record interval_timer =
  it_interval :: int
  it_eventsPerInterval :: nat
  it_intervalStart :: int
  it_number :: nat
  it_expected :: int
  it_timeout :: "int option"

definition it_schedule :: "interval_timer \<Rightarrow> interval_timer" where
  "it_schedule t =
     (let e = it_intervalStart t + (it_interval t * (int (it_number t) + 1)) sdiv int (it_eventsPerInterval t)
      in t\<lparr>it_expected := e, it_timeout := Some e\<rparr>)"

definition it_v_enable :: "int \<Rightarrow> interval_timer \<Rightarrow> interval_timer" where
  "it_v_enable now t =
     (if it_eventsPerInterval t \<le> 0 then t else it_schedule (t\<lparr>it_intervalStart := now, it_number := 0\<rparr>))"

definition it_v_disable :: "interval_timer \<Rightarrow> interval_timer" where
  "it_v_disable t = t\<lparr>it_timeout := None\<rparr>"

text \<open>\<open>cb\<close> is the event handler, with whether the event is still enabled afterwards.\<close>

definition it_cb :: "(interval_timer \<Rightarrow> bool \<times> interval_timer) \<Rightarrow> interval_timer \<Rightarrow> interval_timer" where
  "it_cb cb t =
     (let (enabled, t1) = cb t
      in if \<not> enabled then t1
         else let t2 = t1\<lparr>it_number := it_number t1 + 1\<rparr>;
                  t3 = (if it_number t2 \<ge> it_eventsPerInterval t2
                        then t2\<lparr>it_number := 0, it_intervalStart := it_intervalStart t2 + it_interval t2\<rparr> else t2)
              in it_schedule t3)"

lemma it_cb_state:
  assumes "0 < it_eventsPerInterval t" "it_number t = n mod it_eventsPerInterval t"
    "it_intervalStart t = now + int (n div it_eventsPerInterval t) * it_interval t"
  defines "t' \<equiv> it_cb (\<lambda>t. (True, t)) t"
  shows "it_number t' = Suc n mod it_eventsPerInterval t" "it_eventsPerInterval t' = it_eventsPerInterval t"
    "it_interval t' = it_interval t"
    "it_intervalStart t' = now + int (Suc n div it_eventsPerInterval t) * it_interval t"
proof -
  have "(it_eventsPerInterval t \<le> Suc (n mod it_eventsPerInterval t)) = (Suc (n mod it_eventsPerInterval t) = it_eventsPerInterval t)"
    using mod_less_divisor [OF assms(1), of n] by linarith
  then show "it_number t' = Suc n mod it_eventsPerInterval t" "it_eventsPerInterval t' = it_eventsPerInterval t"
    "it_interval t' = it_interval t"
    "it_intervalStart t' = now + int (Suc n div it_eventsPerInterval t) * it_interval t"
    using assms(1-3) by (auto simp: t'_def it_cb_def it_schedule_def Let_def mod_Suc div_Suc algebra_simps)
qed

lemma it_schedule_fields [simp]:
  "it_number (it_schedule t) = it_number t" "it_eventsPerInterval (it_schedule t) = it_eventsPerInterval t"
  "it_interval (it_schedule t) = it_interval t" "it_intervalStart (it_schedule t) = it_intervalStart t"
  by (simp_all add: it_schedule_def Let_def)

definition it_run :: "nat \<Rightarrow> int \<Rightarrow> interval_timer \<Rightarrow> interval_timer" where
  "it_run n now t = (it_cb (\<lambda>t. (True, t)) ^^ n) (it_v_enable now t)"

lemma it_run_state:
  assumes "0 < it_eventsPerInterval t"
  shows "it_number (it_run n now t) = n mod it_eventsPerInterval t \<and> it_eventsPerInterval (it_run n now t) = it_eventsPerInterval t \<and>
    it_interval (it_run n now t) = it_interval t \<and>
    it_intervalStart (it_run n now t) = now + int (n div it_eventsPerInterval t) * it_interval t"
proof (induction n)
  case 0
  then show ?case using assms(1) by (simp add: it_run_def it_v_enable_def)
next
  case (Suc n)
  have "it_run (Suc n) now t = it_cb (\<lambda>t. (True, t)) (it_run n now t)" by (simp add: it_run_def)
  then show ?case using it_cb_state [of "it_run n now t" n now] Suc assms(1) by simp
qed

lemma it_cb_expected: "\<exists>v. it_cb (\<lambda>t. (True, t)) t = it_schedule v"
  unfolding it_cb_def by (auto simp: Let_def)

text \<open>
  An interval timer does not drift: the time set for the event number \<open>n\<close> after it was enabled
  depends only on the time it was enabled at, its interval and its number of events per interval,
  however late the earlier events were delivered, and the last event of each interval is set for
  exactly the end of the interval.
\<close>

theorem interval_timer_no_drift:
  assumes "0 < it_eventsPerInterval t" "e = it_eventsPerInterval t"
  shows "it_timeout (it_run n now t) = Some (it_expected (it_run n now t)) \<and>
    it_expected (it_run n now t) = now + int (n div e) * it_interval t + (it_interval t * (int (n mod e) + 1)) sdiv int e \<and>
    (n mod e = e - 1 \<longrightarrow> it_expected (it_run n now t) = now + (int (n div e) + 1) * it_interval t)"
proof -
  have "\<exists>v. it_run n now t = it_schedule v"
  proof (cases n)
    case 0
    then show ?thesis using assms(1) by (auto simp: it_run_def it_v_enable_def)
  next
    case (Suc m)
    then show ?thesis using it_cb_expected by (simp add: it_run_def)
  qed
  then obtain v where v: "it_run n now t = it_schedule v" by blast
  have x: "it_timeout (it_run n now t) = Some (it_expected (it_run n now t))"
    "it_expected (it_run n now t) = now + int (n div e) * it_interval t + (it_interval t * (int (n mod e) + 1)) sdiv int e"
    using it_run_state [OF assms(1), of n now] v by (simp_all add: assms(2) it_schedule_def Let_def)
  have "(it_interval t * int e) sdiv int e = it_interval t"
    using assms by (simp add: signed_divide_int_def sgn_mult abs_mult abs_mult_sgn mult.commute)
  moreover have "int (n mod e) + 1 = int e" if "n mod e = e - 1" using that assms by (simp add: of_nat_diff)
  ultimately show ?thesis using x by (auto simp: algebra_simps)
qed

theorem interval_timer_no_drift_witness:
  "it_expected (it_run 2 1000 \<lparr>it_interval = 100, it_eventsPerInterval = 3,
     it_intervalStart = 0, it_number = 0, it_expected = 0, it_timeout = None\<rparr>) = 1100"
  using interval_timer_no_drift [of "\<lparr>it_interval = 100, it_eventsPerInterval = 3,
     it_intervalStart = 0, it_number = 0, it_expected = 0, it_timeout = None\<rparr>" 3 2 1000] by simp

end
