(* ===== verification/Token_Bucket.thy ===== *)
theory Token_Bucket
  imports Ppi_Queue
begin

text \<open>
  Traffic shaping in the network emulator, \<open>senf/Ext/NetEmu/Modules\<close>: the token bucket filter
  (\<open>TokenBucketFilter.cc\<close>) over any queueing algorithm, the random early detection queue
  (\<open>REDQueue.cc\<close>), and the packet delayer (\<open>PacketDelayer.cc\<close>).

  Times are nanoseconds of the monotonic clock; members of type \<open>unsigned\<close> are natural numbers below
  \<open>2 ^ 32\<close> with the wrap-around written out. The value of \<open>rand()\<close> is an argument.
\<close>

definition sub32 :: "nat \<Rightarrow> nat \<Rightarrow> nat" where
  "sub32 a b = nat ((int a - int b) mod 2 ^ 32)"

lemma sub32_le [simp]: "b \<le> a \<Longrightarrow> a < 2 ^ 32 \<Longrightarrow> sub32 a b = a - b"
proof -
  assume "b \<le> a" "a < 2 ^ 32"
  then have "(int a - int b) mod 2 ^ 32 = int a - int b" by (intro mod_pos_pos_trivial) auto
  then show ?thesis by (simp only: sub32_def)
qed

section \<open>Token bucket filter\<close>

text \<open>The operations of the queueing algorithm that the filter calls.\<close>

record ('p, 'q) queue_ops =
  qo_enqueue :: "'p \<Rightarrow> 'q \<Rightarrow> bool \<times> 'q"
  qo_dequeue :: "'q \<Rightarrow> 'p \<times> 'q"
  qo_empty :: "'q \<Rightarrow> bool"
  qo_front :: "'q \<Rightarrow> nat"
  qo_clear :: "'q \<Rightarrow> 'q"

record 'q tbf =
  tb_queue :: 'q
  tb_lastToken :: int
  tb_timer :: "int option"
  tb_bucketLimit :: nat
  tb_bucketLowThresh :: nat
  tb_bucketSize :: nat
  tb_rate :: nat
  tb_bucketEmpty :: nat
  tb_bypass :: bool

text \<open>The assertions of the code, and the division by a zero limit.\<close>

datatype tbf_error = QueueEmpty | PacketFits | DivisionByZero

definition tbf_init :: "'q \<Rightarrow> int \<Rightarrow> nat \<Rightarrow> nat \<Rightarrow> 'q tbf" where
  "tbf_init q now burst rate =
     \<lparr>tb_queue = q, tb_lastToken = now, tb_timer = None, tb_bucketLimit = burst, tb_bucketLowThresh = 0,
      tb_bucketSize = burst, tb_rate = rate, tb_bucketEmpty = 0, tb_bypass = (rate = 0)\<rparr>"

definition tbf_set_burst :: "nat \<Rightarrow> 'q tbf \<Rightarrow> 'q tbf" where
  "tbf_set_burst bytes s = s\<lparr>tb_bucketLimit := bytes\<rparr>"

definition tbf_set_bucketLowThresh :: "nat \<Rightarrow> 'q tbf \<Rightarrow> 'q tbf" where
  "tbf_set_bucketLowThresh t s = s\<lparr>tb_bucketLowThresh := (tb_bucketLimit s * min 100 t) mod 2 ^ 32 div 100\<rparr>"

definition tbf_set_rate :: "('p, 'q) queue_ops \<Rightarrow> nat \<Rightarrow> 'q tbf \<Rightarrow> 'q tbf" where
  "tbf_set_rate ops r s =
     (if r = 0 then s\<lparr>tb_rate := r, tb_queue := qo_clear ops (tb_queue s), tb_bypass := True\<rparr>
      else s\<lparr>tb_rate := r, tb_bypass := False\<rparr>)"

text \<open>\<open>diff * rate_\<close> is a 64 bit product; the division is unsigned.\<close>

definition fillBucket :: "int \<Rightarrow> 'q tbf \<Rightarrow> 'q tbf" where
  "fillBucket now s =
     (let diff = now - tb_lastToken s;
          tokens = nat ((diff * int (tb_rate s)) mod 2 ^ 64 div 8000000000)
      in s\<lparr>tb_lastToken := now, tb_bucketSize := (tb_bucketSize s + tokens) mod 2 ^ 32\<rparr>)"

definition fillBucketLimit :: "int \<Rightarrow> 'q tbf \<Rightarrow> tbf_error + 'q tbf" where
  "fillBucketLimit now s =
     (let s1 = fillBucket now s
      in if tb_bucketLimit s1 = 0 then Inl DivisionByZero
         else Inr (s1\<lparr>tb_bucketSize := tb_bucketSize s1 mod tb_bucketLimit s1\<rparr>))"

definition tbf_defer :: "nat \<Rightarrow> nat \<Rightarrow> nat" where
  "tbf_defer missing rate = (missing * 8000000000) mod 2 ^ 64 div rate"

definition tbf_setTimeout :: "('p, 'q) queue_ops \<Rightarrow> int \<Rightarrow> 'q tbf \<Rightarrow> tbf_error + 'q tbf" where
  "tbf_setTimeout ops now s =
     (if qo_empty ops (tb_queue s) then Inl QueueEmpty
      else if \<not> qo_front ops (tb_queue s) > tb_bucketSize s then Inl PacketFits
      else if tb_rate s = 0 then Inl DivisionByZero
      else Inr (s\<lparr>tb_timer := Some (now + int (tbf_defer (qo_front ops (tb_queue s) - tb_bucketSize s) (tb_rate s)))\<rparr>))"

text \<open>The loop of \<open>onTimeout\<close>, with what it outputs; \<open>sz\<close> is the size of a packet.\<close>

fun tbf_send :: "('p, 'q) queue_ops \<Rightarrow> ('p \<Rightarrow> nat) \<Rightarrow> nat \<Rightarrow> 'q tbf \<Rightarrow> ('p list \<times> 'q tbf) option" where
  "tbf_send ops sz 0 s = (if \<not> qo_empty ops (tb_queue s) \<and> qo_front ops (tb_queue s) \<le> tb_bucketSize s then None else Some ([], s))"
| "tbf_send ops sz (Suc k) s =
     (if \<not> qo_empty ops (tb_queue s) \<and> qo_front ops (tb_queue s) \<le> tb_bucketSize s
      then let (p, q) = qo_dequeue ops (tb_queue s)
           in map_option (\<lambda>(out, s'). (p # out, s'))
                (tbf_send ops sz k (s\<lparr>tb_queue := q, tb_bucketSize := sub32 (tb_bucketSize s) (sz p)\<rparr>))
      else Some ([], s))"

definition tbf_onTimeout ::
  "('p, 'q) queue_ops \<Rightarrow> ('p \<Rightarrow> nat) \<Rightarrow> nat \<Rightarrow> int \<Rightarrow> 'q tbf \<Rightarrow> (tbf_error + 'p list \<times> 'q tbf) option" where
  "tbf_onTimeout ops sz k now s =
     (if qo_empty ops (tb_queue s) then Some (Inl QueueEmpty)
      else map_option (\<lambda>(out, s1).
             if qo_empty ops (tb_queue s1) then Inr (out, s1)
             else case tbf_setTimeout ops now s1 of Inl x \<Rightarrow> Inl x | Inr s2 \<Rightarrow> Inr (out, s2))
             (tbf_send ops sz k (fillBucket now (s\<lparr>tb_timer := None\<rparr>))))"

definition tbf_onRequest ::
  "('p, 'q) queue_ops \<Rightarrow> ('p \<Rightarrow> nat) \<Rightarrow> nat \<Rightarrow> int \<Rightarrow> 'p \<Rightarrow> 'q tbf \<Rightarrow> tbf_error + 'p list \<times> 'q tbf" where
  "tbf_onRequest ops sz rnd now p s =
     (if tb_bypass s then Inr ([p], s)
      else if \<not> qo_empty ops (tb_queue s)
      then Inr ([], s\<lparr>tb_bucketEmpty := (tb_bucketEmpty s + 1) mod 2 ^ 32, tb_queue := snd (qo_enqueue ops p (tb_queue s))\<rparr>)
      else case fillBucketLimit now s of Inl x \<Rightarrow> Inl x
        | Inr s1 \<Rightarrow>
            if sz p \<le> tb_bucketSize s1
            then if tb_bucketSize s1 < tb_bucketLowThresh s1 \<and> tb_bucketSize s1 \<le> rnd mod tb_bucketLowThresh s1
                 then Inr ([], s1\<lparr>tb_bucketEmpty := (tb_bucketEmpty s1 + 1) mod 2 ^ 32\<rparr>)
                 else Inr ([p], s1\<lparr>tb_bucketSize := tb_bucketSize s1 - sz p\<rparr>)
            else let s2 = s1\<lparr>tb_bucketEmpty := (tb_bucketEmpty s1 + 1) mod 2 ^ 32\<rparr>;
                     (ok, q) = qo_enqueue ops p (tb_queue s2);
                     s3 = s2\<lparr>tb_queue := q\<rparr>
                 in if ok then (case tbf_setTimeout ops now s3 of Inl x \<Rightarrow> Inl x | Inr s4 \<Rightarrow> Inr ([], s4)) else Inr ([], s3))"

text \<open>What reaches the filter: a packet, with the value of \<open>rand()\<close>, or the timer.\<close>

datatype 'p tbf_event = Request int nat 'p | Timeout int

fun event_time :: "'p tbf_event \<Rightarrow> int" where
  "event_time (Request t _ _) = t"
| "event_time (Timeout t) = t"

fun tbf_step :: "('p, 'q) queue_ops \<Rightarrow> ('p \<Rightarrow> nat) \<Rightarrow> nat \<Rightarrow> 'p tbf_event \<Rightarrow> 'q tbf \<Rightarrow> (tbf_error + 'p list \<times> 'q tbf) option" where
  "tbf_step ops sz k (Request now rnd p) s = Some (tbf_onRequest ops sz rnd now p s)"
| "tbf_step ops sz k (Timeout now) s = tbf_onTimeout ops sz k now s"

fun tbf_run :: "('p, 'q) queue_ops \<Rightarrow> ('p \<Rightarrow> nat) \<Rightarrow> nat \<Rightarrow> 'p tbf_event list \<Rightarrow> 'q tbf \<Rightarrow> (tbf_error + 'p list \<times> 'q tbf) option" where
  "tbf_run ops sz k [] s = Some (Inr ([], s))"
| "tbf_run ops sz k (e # es) s =
     (case tbf_step ops sz k e s of None \<Rightarrow> None | Some (Inl x) \<Rightarrow> Some (Inl x)
      | Some (Inr (out, s1)) \<Rightarrow> map_option (map_sum id (map_prod ((@) out) id)) (tbf_run ops sz k es s1))"

text \<open>The tokens earned in a time.\<close>

definition earned :: "nat \<Rightarrow> int \<Rightarrow> nat" where
  "earned rate d = nat (d * int rate div 8000000000)"

lemma earned_add: "0 \<le> a \<Longrightarrow> 0 \<le> b \<Longrightarrow> earned r a + earned r b \<le> earned r (a + b)"
proof -
  assume ab: "0 \<le> a" "0 \<le> b"
  let ?x = "a * int r" and ?y = "b * int r" and ?c = "8000000000 :: int"
  have "0 \<le> (?x mod ?c + ?y mod ?c) div ?c" by (intro div_int_pos_iff [THEN iffD2]) simp
  then have "?x div ?c + ?y div ?c \<le> (?x + ?y) div ?c" using div_add1_eq [of ?x ?y ?c] by linarith
  then have le: "?x div ?c + ?y div ?c \<le> (a + b) * int r div ?c" by (simp only: distrib_right)
  have "0 \<le> ?x div ?c" "0 \<le> ?y div ?c" using ab by (auto intro!: div_int_pos_iff [THEN iffD2])
  then have "nat (?x div ?c) + nat (?y div ?c) = nat (?x div ?c + ?y div ?c)" by (rule nat_add_distrib [symmetric])
  also have "\<dots> \<le> nat ((a + b) * int r div ?c)" by (rule nat_mono [OF le])
  finally show ?thesis by (simp only: earned_def)
qed

lemma earned_mono: "a \<le> b \<Longrightarrow> earned r a \<le> earned r b"
  unfolding earned_def by (intro nat_mono zdiv_mono1 mult_right_mono) auto

lemma fillBucket_le:
  assumes "tb_lastToken s \<le> now"
  shows "tb_bucketSize (fillBucket now s) \<le> tb_bucketSize s + earned (tb_rate s) (now - tb_lastToken s)"
proof -
  let ?x = "(now - tb_lastToken s) * int (tb_rate s)"
  have "?x mod 2 ^ 64 \<le> ?x" using assms by (intro zmod_le_nonneg_dividend) simp
  then have "?x mod 2 ^ 64 div 8000000000 \<le> ?x div 8000000000" by (rule zdiv_mono1) simp
  then have t: "nat (?x mod 2 ^ 64 div 8000000000) \<le> earned (tb_rate s) (now - tb_lastToken s)"
    unfolding earned_def by (rule nat_mono)
  have "tb_bucketSize (fillBucket now s) \<le> tb_bucketSize s + nat (?x mod 2 ^ 64 div 8000000000)"
    unfolding fillBucket_def Let_def by simp
  with t show ?thesis by linarith
qed

lemma fillBucket_fields [simp]:
  "tb_queue (fillBucket now s) = tb_queue s" "tb_lastToken (fillBucket now s) = now" "tb_rate (fillBucket now s) = tb_rate s"
  "tb_bypass (fillBucket now s) = tb_bypass s" "tb_timer (fillBucket now s) = tb_timer s"
  "tb_bucketLimit (fillBucket now s) = tb_bucketLimit s"
  by (simp_all add: fillBucket_def Let_def)

lemma fillBucket_32: "tb_bucketSize (fillBucket now s) < 2 ^ 32"
  by (simp add: fillBucket_def Let_def)

section \<open>Conformance\<close>

text \<open>What the filter relies on in a queueing algorithm, over the packets the queue holds.\<close>

locale shaping_queue =
  fixes ops :: "('p, 'q) queue_ops" and sz :: "'p \<Rightarrow> nat" and held :: "'q \<Rightarrow> 'p list" and wf :: "'q \<Rightarrow> bool"
  assumes empty_law: "qo_empty ops q = (held q = [])"
    and front_law: "wf q \<Longrightarrow> held q \<noteq> [] \<Longrightarrow> qo_front ops q = sz (hd (held q))"
    and dequeue_law: "wf q \<Longrightarrow> held q \<noteq> [] \<Longrightarrow> qo_dequeue ops q = (p, q') \<Longrightarrow> p = hd (held q) \<and> held q' = tl (held q) \<and> wf q'"
    and enqueue_law: "wf q \<Longrightarrow> qo_enqueue ops p q = (ok, q') \<Longrightarrow> wf q' \<and> held q' = (if ok then held q @ [p] else held q)"
begin

definition total :: "'p list \<Rightarrow> nat" where
  "total ps = sum_list (map sz ps)"

lemma send_total:
  assumes "wf (tb_queue s)" "tbf_send ops sz k s = Some (out, s')" "tb_bucketSize s < 2 ^ 32"
  shows "wf (tb_queue s') \<and> total out + tb_bucketSize s' = tb_bucketSize s \<and> out @ held (tb_queue s') = held (tb_queue s) \<and>
    tb_lastToken s' = tb_lastToken s \<and> tb_rate s' = tb_rate s \<and> tb_bypass s' = tb_bypass s"
  using assms
proof (induction k arbitrary: s out)
  case 0
  then show ?case by (simp add: total_def split: if_splits)
next
  case (Suc k)
  show ?case
  proof (cases "\<not> qo_empty ops (tb_queue s) \<and> qo_front ops (tb_queue s) \<le> tb_bucketSize s")
    case True
    obtain p q where pq: "qo_dequeue ops (tb_queue s) = (p, q)" by fastforce
    have ne: "held (tb_queue s) \<noteq> []" using True empty_law by simp
    have d: "p = hd (held (tb_queue s))" "held q = tl (held (tb_queue s))" "wf q"
      using dequeue_law [OF Suc.prems(1) ne pq] by auto
    have fit: "sz p \<le> tb_bucketSize s" using True front_law [OF Suc.prems(1) ne] d(1) by simp
    let ?s1 = "s\<lparr>tb_queue := q, tb_bucketSize := sub32 (tb_bucketSize s) (sz p)\<rparr>"
    obtain out' where o: "tbf_send ops sz k ?s1 = Some (out', s')" "out = p # out'"
      using Suc.prems(2) True pq by auto
    have "sub32 (tb_bucketSize s) (sz p) = tb_bucketSize s - sz p" using fit Suc.prems(3) by simp
    from Suc.IH [OF _ o(1)] d(3) this Suc.prems(3)
    have "wf (tb_queue s') \<and> total out' + tb_bucketSize s' = tb_bucketSize s - sz p \<and> out' @ held (tb_queue s') = held q \<and>
      tb_lastToken s' = tb_lastToken s \<and> tb_rate s' = tb_rate s \<and> tb_bypass s' = tb_bypass s" by simp
    moreover have "out @ held (tb_queue s') = p # held q \<longleftrightarrow> out' @ held (tb_queue s') = held q" using o(2) by simp
    moreover have "p # held q = held (tb_queue s)" using d ne by simp
    ultimately show ?thesis using o(2) fit by (auto simp: total_def)
  next
    case False
    then have "Some (out, s') = Some ([], s)" using Suc.prems(2) by (auto split: if_splits)
    then show ?thesis using Suc.prems(1) by (simp add: total_def)
  qed
qed

lemma send_ends:
  assumes "wf (tb_queue s)" "length (held (tb_queue s)) \<le> k"
  shows "\<exists>out s'. tbf_send ops sz k s = Some (out, s') \<and>
    (held (tb_queue s') \<noteq> [] \<longrightarrow> tb_bucketSize s' < qo_front ops (tb_queue s'))"
  using assms
proof (induction k arbitrary: s)
  case 0
  then show ?case using empty_law by simp
next
  case (Suc k)
  show ?case
  proof (cases "\<not> qo_empty ops (tb_queue s) \<and> qo_front ops (tb_queue s) \<le> tb_bucketSize s")
    case True
    obtain p q where pq: "qo_dequeue ops (tb_queue s) = (p, q)" by fastforce
    have ne: "held (tb_queue s) \<noteq> []" using True empty_law by simp
    have "length (held q) \<le> k" "wf q" using dequeue_law [OF Suc.prems(1) ne pq] Suc.prems(2) by auto
    then obtain out s' where "tbf_send ops sz k (s\<lparr>tb_queue := q, tb_bucketSize := sub32 (tb_bucketSize s) (sz p)\<rparr>) = Some (out, s')"
      "held (tb_queue s') \<noteq> [] \<longrightarrow> tb_bucketSize s' < qo_front ops (tb_queue s')"
      using Suc.IH [of "s\<lparr>tb_queue := q, tb_bucketSize := sub32 (tb_bucketSize s) (sz p)\<rparr>"] Suc.prems(2) by auto
    then show ?thesis using True pq by auto
  next
    case False
    then have "tbf_send ops sz (Suc k) s = Some ([], s)" by auto
    moreover have "held (tb_queue s) \<noteq> [] \<longrightarrow> tb_bucketSize s < qo_front ops (tb_queue s)"
      using False empty_law [of "tb_queue s"] by linarith
    ultimately show ?thesis by blast
  qed
qed

text \<open>
  The balance of a filter that had \<open>b0\<close> tokens at time \<open>t0\<close> and has output \<open>sent\<close> bytes since.
\<close>

definition balance :: "int \<Rightarrow> nat \<Rightarrow> nat \<Rightarrow> 'q tbf \<Rightarrow> bool" where
  "balance t0 b0 sent s \<longleftrightarrow> wf (tb_queue s) \<and> \<not> tb_bypass s \<and> t0 \<le> tb_lastToken s \<and>
     sent + tb_bucketSize s \<le> b0 + earned (tb_rate s) (tb_lastToken s - t0)"

lemma balance_fill:
  assumes "balance t0 b0 sent s" "tb_lastToken s \<le> now"
  shows "balance t0 b0 sent (fillBucket now s)"
proof -
  have "earned (tb_rate s) (tb_lastToken s - t0) + earned (tb_rate s) (now - tb_lastToken s) \<le> earned (tb_rate s) (now - t0)"
    using earned_add [of "tb_lastToken s - t0" "now - tb_lastToken s" "tb_rate s"] assms by (simp add: balance_def)
  then show ?thesis using assms fillBucket_le [OF assms(2)] by (auto simp: balance_def)
qed

lemma balance_less: "balance t0 b0 sent s \<Longrightarrow> b \<le> tb_bucketSize s \<Longrightarrow> balance t0 b0 (sent + (tb_bucketSize s - b)) (s\<lparr>tb_bucketSize := b\<rparr>)"
  by (auto simp: balance_def)

lemma balance_drop: "balance t0 b0 sent s \<Longrightarrow> b \<le> tb_bucketSize s \<Longrightarrow> balance t0 b0 sent (s\<lparr>tb_bucketSize := b\<rparr>)"
  by (auto simp: balance_def)

lemma balance_setTimeout: "balance t0 b0 sent s \<Longrightarrow> tbf_setTimeout ops now s = Inr s' \<Longrightarrow> balance t0 b0 sent s' \<and> tb_lastToken s' = tb_lastToken s \<and> tb_rate s' = tb_rate s"
  by (auto simp: tbf_setTimeout_def balance_def split: if_splits)

lemma balance_onTimeout:
  assumes "balance t0 b0 sent s" "tb_lastToken s \<le> now" "tbf_onTimeout ops sz k now s = Some (Inr (out, s'))"
  shows "balance t0 b0 (sent + total out) s' \<and> tb_lastToken s' = now \<and> tb_rate s' = tb_rate s"
proof -
  let ?f = "fillBucket now (s\<lparr>tb_timer := None\<rparr>)"
  have b: "balance t0 b0 sent ?f" using balance_fill [of t0 b0 sent "s\<lparr>tb_timer := None\<rparr>" now] assms(1,2) by (simp add: balance_def)
  obtain out1 s1 where s1: "tbf_send ops sz k ?f = Some (out1, s1)"
      "(if qo_empty ops (tb_queue s1) then Inr (out1, s1)
        else case tbf_setTimeout ops now s1 of Inl x \<Rightarrow> Inl x | Inr s2 \<Rightarrow> Inr (out1, s2)) = Inr (out, s')"
    using assms(3) by (auto simp: tbf_onTimeout_def split: if_splits)
  have w: "wf (tb_queue ?f)" using assms(1) by (simp add: balance_def)
  from send_total [OF w s1(1) fillBucket_32] b have b1: "balance t0 b0 (sent + total out1) s1 \<and> tb_lastToken s1 = now \<and> tb_rate s1 = tb_rate s"
    by (auto simp: balance_def)
  show ?thesis
  proof (cases "qo_empty ops (tb_queue s1)")
    case True
    then show ?thesis using s1(2) b1 by simp
  next
    case False
    then have "tbf_setTimeout ops now s1 = Inr s'" "out = out1" using s1(2) by (auto split: sum.splits)
    then show ?thesis using balance_setTimeout b1 by auto
  qed
qed

lemma balance_onRequest:
  assumes "balance t0 b0 sent s" "tb_lastToken s \<le> now" "tbf_onRequest ops sz rnd now p s = Inr (out, s')"
  shows "balance t0 b0 (sent + total out) s' \<and> tb_lastToken s' \<le> now \<and> tb_rate s' = tb_rate s"
proof (cases "qo_empty ops (tb_queue s)")
  case False
  obtain ok q where "qo_enqueue ops p (tb_queue s) = (ok, q)" by fastforce
  moreover from this have "wf q" using enqueue_law assms(1) by (auto simp: balance_def)
  ultimately show ?thesis using False assms by (auto simp: tbf_onRequest_def balance_def total_def)
next
  case True
  define f where "f = fillBucket now s"
  define s1 where "s1 = f\<lparr>tb_bucketSize := tb_bucketSize f mod tb_bucketLimit f\<rparr>"
  have bf: "balance t0 b0 sent f" using balance_fill [OF assms(1,2)] by (simp add: f_def)
  have b1: "balance t0 b0 sent s1" using balance_drop [OF bf] by (simp add: s1_def)
  have l1: "tb_lastToken s1 = now" "tb_rate s1 = tb_rate s" "tb_queue s1 = tb_queue s" by (simp_all add: s1_def f_def)
  have bp: "\<not> tb_bypass s" using assms(1) by (simp add: balance_def)
  have fl: "fillBucketLimit now s = Inr s1"
    using assms(3) True bp by (auto simp: tbf_onRequest_def fillBucketLimit_def f_def s1_def Let_def split: if_splits)
  show ?thesis
  proof (cases "sz p \<le> tb_bucketSize s1")
    case fit: True
    show ?thesis
    proof (cases "tb_bucketSize s1 < tb_bucketLowThresh s1 \<and> tb_bucketSize s1 \<le> rnd mod tb_bucketLowThresh s1")
      case early: True
      then have "out = []" "s' = s1\<lparr>tb_bucketEmpty := (tb_bucketEmpty s1 + 1) mod 2 ^ 32\<rparr>"
        using assms(3) True bp fl fit by (auto simp: tbf_onRequest_def)
      then show ?thesis using b1 l1 by (simp add: balance_def total_def)
    next
      case early: False
      then have "out = [p]" "s' = s1\<lparr>tb_bucketSize := tb_bucketSize s1 - sz p\<rparr>"
        using assms(3) True bp fl fit by (auto simp: tbf_onRequest_def split: if_splits)
      then show ?thesis using b1 l1 balance_less [OF b1, of "tb_bucketSize s1 - sz p"] fit by (simp add: total_def)
    qed
  next
    case fit: False
    obtain ok q where q: "qo_enqueue ops p (tb_queue s1) = (ok, q)" by fastforce
    define s3 where "s3 = s1\<lparr>tb_bucketEmpty := (tb_bucketEmpty s1 + 1) mod 2 ^ 32, tb_queue := q\<rparr>"
    have "wf q" using enqueue_law [OF _ q] b1 by (simp add: balance_def)
    then have b3: "balance t0 b0 sent s3" using b1 by (simp add: balance_def s3_def)
    have "(if ok then (case tbf_setTimeout ops now s3 of Inl x \<Rightarrow> Inl x | Inr s4 \<Rightarrow> Inr ([], s4)) else Inr ([], s3)) = Inr (out, s')"
      using assms(3) True bp fl fit q unfolding s3_def by (simp add: tbf_onRequest_def Let_def split: if_splits)
    then have "out = []" "tbf_setTimeout ops now s3 = Inr s' \<or> s' = s3" by (auto split: if_splits sum.splits)
    moreover have "tb_lastToken s3 = now" "tb_rate s3 = tb_rate s" using l1 by (simp_all add: s3_def)
    ultimately show ?thesis using b3 balance_setTimeout [OF b3] by (auto simp: total_def)
  qed
qed

lemma run_conforms:
  assumes "balance t0 b0 sent s" "tbf_run ops sz k es s = Some (Inr (out, s'))" "sorted (tb_lastToken s # map event_time es)"
    "\<forall>e \<in> set es. event_time e \<le> t1" "tb_lastToken s \<le> t1"
  shows "balance t0 b0 (sent + total out) s' \<and> tb_lastToken s' \<le> t1 \<and> tb_rate s' = tb_rate s"
  using assms
proof (induction es arbitrary: s sent out)
  case Nil
  then show ?case by (simp add: total_def)
next
  case (Cons e es)
  obtain out1 s1 where st: "tbf_step ops sz k e s = Some (Inr (out1, s1))"
    using Cons.prems(2) by (auto split: option.splits sum.splits)
  obtain z where z: "tbf_run ops sz k es s1 = Some z" "map_sum id (map_prod ((@) out1) id) z = Inr (out, s')"
    using Cons.prems(2) st by auto
  obtain out2 where r: "tbf_run ops sz k es s1 = Some (Inr (out2, s'))" "out = out1 @ out2"
    using z by (cases z) auto
  have le: "tb_lastToken s \<le> event_time e" using Cons.prems(3) by simp
  have b: "balance t0 b0 (sent + total out1) s1 \<and> tb_lastToken s1 \<le> event_time e \<and> tb_rate s1 = tb_rate s"
  proof (cases e)
    case (Request t rnd p)
    then show ?thesis using balance_onRequest [OF Cons.prems(1), of t rnd p out1 s1] st le by simp
  next
    case (Timeout t)
    then show ?thesis using balance_onTimeout [OF Cons.prems(1), of t k out1 s1] st le by simp
  qed
  have "balance t0 b0 (sent + total out1 + total out2) s' \<and> tb_lastToken s' \<le> t1 \<and> tb_rate s' = tb_rate s1"
  proof (rule Cons.IH [OF _ r(1)])
    show "sorted (tb_lastToken s1 # map event_time es)" using b Cons.prems(3) by (auto intro: order_trans)
    show "tb_lastToken s1 \<le> t1" using b Cons.prems(4) by (auto intro: order_trans)
  qed (use b Cons.prems(4) in simp_all)
  then show ?case using b r(2) by (simp add: total_def add.assoc)
qed

end

text \<open>The filter over the FIFO algorithm of the packet processing infrastructure.\<close>

definition fifo_ops :: "('p \<Rightarrow> nat) \<Rightarrow> ('p, 'p fifo_alg) queue_ops" where
  "fifo_ops sz = \<lparr>qo_enqueue = (\<lambda>p. FIFO_v_enqueue p False), qo_dequeue = (\<lambda>q. map_prod the id (FIFO_v_dequeue q)),
     qo_empty = (\<lambda>q. fa_queue q = []), qo_front = FIFO_v_frontPacketSize sz, qo_clear = FIFO_v_clear\<rparr>"

interpretation fifos: shaping_queue "fifo_ops sz" sz fa_queue "\<lambda>_. True" for sz
  by unfold_locales
    (auto simp: fifo_ops_def FIFO_v_enqueue_def FIFO_v_dequeue_def FIFO_v_frontPacketSize_def split: if_splits)


text \<open>A timeout is handled without running into an assertion: the packet that is left does not fit.\<close>

lemma tbf_onTimeout_returns:
  assumes "fa_queue (tb_queue s) \<noteq> []" "length (fa_queue (tb_queue s)) \<le> k" "0 < tb_rate s"
  shows "\<exists>out s'. tbf_onTimeout (fifo_ops sz) sz k now s = Some (Inr (out, s')) \<and>
    (fa_queue (tb_queue s') \<noteq> [] \<longrightarrow> tb_timer s' \<noteq> None)"
proof -
  let ?f = "fillBucket now (s\<lparr>tb_timer := None\<rparr>)"
  obtain out s1 where s1: "tbf_send (fifo_ops sz) sz k ?f = Some (out, s1)"
    "fa_queue (tb_queue s1) \<noteq> [] \<longrightarrow> tb_bucketSize s1 < qo_front (fifo_ops sz) (tb_queue s1)"
    using fifos.send_ends [of ?f k sz] assms(2) by auto
  have r: "tb_rate s1 = tb_rate s" using fifos.send_total [OF _ s1(1) fillBucket_32] by simp
  have e: "qo_empty (fifo_ops sz) q = (fa_queue q = [])" for q by (simp add: fifo_ops_def)
  show ?thesis
    using s1 r assms(1,3) by (cases "fa_queue (tb_queue s1) = []") (auto simp: tbf_onTimeout_def tbf_setTimeout_def e)
qed

definition example_tbf :: "nat fifo_alg tbf" where
  "example_tbf = tbf_init FIFO_create 0 1500 8000"


text \<open>
  The limit of the bucket is applied as a remainder: a bucket that holds exactly its limit is empty
  after the next refill, so the first packet through a new filter finds no tokens.
\<close>

theorem full_bucket_is_emptied:
  assumes "0 < burst" "burst < 2 ^ 32"
  shows "\<exists>s. fillBucketLimit now (tbf_init q now burst rate) = Inr s \<and> tb_bucketSize s = 0"
  using assms by (simp add: fillBucketLimit_def fillBucket_def tbf_init_def)

theorem full_bucket_is_emptied_witness:
  "\<exists>s. fillBucketLimit 0 example_tbf = Inr s \<and> tb_bucketSize s = 0"
  unfolding example_tbf_def by (rule full_bucket_is_emptied) simp_all

text \<open>
  Clearing the rate leaves the timer armed over an empty queue, and the timer's handler asserts that the
  queue is not empty.
\<close>

lemma rate_zero_leaves_timer:
  "tb_timer s = Some t \<Longrightarrow> tb_timer (tbf_set_rate (fifo_ops sz) 0 s) = Some t \<and>
     tbf_onTimeout (fifo_ops sz) sz k now (tbf_set_rate (fifo_ops sz) 0 s) = Some (Inl QueueEmpty)"
  by (simp add: tbf_set_rate_def tbf_onTimeout_def fifo_ops_def FIFO_v_clear_def)

text \<open>
  The waiting time and the refill are both rounded down, so a timer that fires exactly on time may find
  no new token, and set the same time again.
\<close>

lemma punctual_timer_stalls:
  "tbf_defer 1 3 = 2666666666 \<and>
   tb_bucketSize (fillBucket (int (tbf_defer 1 3)) ((tbf_init q 0 0 3)\<lparr>tb_bucketSize := b\<rparr>)) = b mod 2 ^ 32"
  by (simp add: tbf_defer_def fillBucket_def tbf_init_def)

section \<open>Random early detection\<close>

record 'p red =
  rq_queue :: "'p list"
  rq_queueLimit :: nat
  rq_lowThresh :: nat
  rq_lowThreshPercentage :: nat
  rq_queueSize :: nat
  rq_packetsDroppedTotal :: nat
  rq_packetsDroppedLast :: nat

datatype red_error = RedDivisionByZero | RedEmptyQueue

definition red_drop :: "'p red \<Rightarrow> 'p red" where
  "red_drop q = q\<lparr>rq_packetsDroppedTotal := (rq_packetsDroppedTotal q + 1) mod 2 ^ 32\<rparr>"

definition red_push :: "('p \<Rightarrow> nat) \<Rightarrow> 'p \<Rightarrow> 'p red \<Rightarrow> 'p red" where
  "red_push sz p q = q\<lparr>rq_queue := rq_queue q @ [p], rq_queueSize := (rq_queueSize q + sz p) mod 2 ^ 32\<rparr>"

definition red_v_enqueue :: "('p \<Rightarrow> nat) \<Rightarrow> nat \<Rightarrow> 'p \<Rightarrow> bool \<Rightarrow> 'p red \<Rightarrow> red_error + bool \<times> 'p red" where
  "red_v_enqueue sz rnd p force q =
     (if rq_queueLimit q = 0 then Inr (False, red_drop q)
      else if \<not> force \<and> rq_queueSize q > rq_lowThresh q
      then if sub32 (rq_queueLimit q) (rq_lowThresh q) = 0 then Inl RedDivisionByZero
           else if rnd mod sub32 (rq_queueLimit q) (rq_lowThresh q) \<le> sub32 (rq_queueSize q) (rq_lowThresh q) then Inr (False, red_drop q)
           else Inr (True, red_push sz p q)
      else Inr (True, red_push sz p q))"

definition red_v_dequeue :: "('p \<Rightarrow> nat) \<Rightarrow> 'p red \<Rightarrow> red_error + 'p \<times> 'p red" where
  "red_v_dequeue sz q =
     (case rq_queue q of [] \<Rightarrow> Inl RedEmptyQueue
      | p # ps \<Rightarrow> Inr (p, q\<lparr>rq_queue := ps, rq_queueSize := sub32 (rq_queueSize q) (sz p)\<rparr>))"

definition red_v_clear :: "'p red \<Rightarrow> 'p red" where
  "red_v_clear q = q\<lparr>rq_queueSize := 0, rq_packetsDroppedLast := 0, rq_packetsDroppedTotal := 0, rq_queue := []\<rparr>"

definition red_v_frontPacketSize :: "('p \<Rightarrow> nat) \<Rightarrow> 'p red \<Rightarrow> red_error + nat" where
  "red_v_frontPacketSize sz q = (case rq_queue q of [] \<Rightarrow> Inl RedEmptyQueue | p # _ \<Rightarrow> Inr (sz p))"

fun red_shrink :: "('p \<Rightarrow> nat) \<Rightarrow> nat \<Rightarrow> nat \<Rightarrow> 'p list \<Rightarrow> red_error + nat \<times> 'p list" where
  "red_shrink sz lim m [] = (if m > lim then Inl RedEmptyQueue else Inr (m, []))"
| "red_shrink sz lim m (p # ps) = (if m > lim then red_shrink sz lim (sub32 m (sz p)) ps else Inr (m, p # ps))"

definition red_set_limit :: "('p \<Rightarrow> nat) \<Rightarrow> nat \<Rightarrow> nat \<Rightarrow> 'p red \<Rightarrow> red_error + 'p red" where
  "red_set_limit sz bytes pct q =
     (let pct' = (if pct > 100 then 100 else pct);
          bytes' = (if bytes > 0x7fffffff then 0x7fffffff else bytes)
      in case red_shrink sz bytes' (rq_queueSize q) (rq_queue q) of Inl x \<Rightarrow> Inl x
         | Inr (m, ps) \<Rightarrow>
             Inr (q\<lparr>rq_queueLimit := bytes', rq_lowThreshPercentage := pct', rq_lowThresh := (bytes' * pct') mod 2 ^ 32 div 100,
                    rq_queueSize := m, rq_queue := ps\<rparr>))"

definition red_dropped :: "'p red \<Rightarrow> nat" where
  "red_dropped q = nat ((int (rq_packetsDroppedTotal q) - int (rq_packetsDroppedLast q)) mod 2 ^ 32)"

definition red_resetDropped :: "'p red \<Rightarrow> 'p red" where
  "red_resetDropped q = q\<lparr>rq_packetsDroppedLast := rq_packetsDroppedTotal q\<rparr>"

text \<open>The size kept is the size of the packets, the threshold is below the limit.\<close>

definition red_ok :: "('p \<Rightarrow> nat) \<Rightarrow> 'p red \<Rightarrow> bool" where
  "red_ok sz q \<longleftrightarrow> rq_queueSize q = sum_list (map sz (rq_queue q)) \<and> rq_lowThresh q \<le> rq_queueLimit q \<and> rq_queueLimit q < 2 ^ 31 \<and>
     rq_queueSize q < 2 ^ 32"

lemma red_ok_clear: "rq_lowThresh q \<le> rq_queueLimit q \<Longrightarrow> rq_queueLimit q < 2 ^ 31 \<Longrightarrow> red_ok sz (red_v_clear q)"
  by (simp add: red_ok_def red_v_clear_def)

lemma red_ok_dequeue:
  assumes "red_ok sz q" "rq_queue q = p # ps"
  shows "\<exists>q'. red_v_dequeue sz q = Inr (p, q') \<and> red_ok sz q' \<and> rq_queue q' = ps"
  using assms by (simp add: red_ok_def red_v_dequeue_def)

lemma red_shrink_fits:
  "m = sum_list (map sz ps) \<Longrightarrow> m < 2 ^ 32 \<Longrightarrow> \<exists>m' ps'. red_shrink sz lim m ps = Inr (m', ps') \<and> m' = sum_list (map sz ps') \<and>
     m' \<le> lim \<and> (\<exists>n. ps' = drop n ps)"
proof (induction ps arbitrary: m)
  case (Cons p ps)
  show ?case
  proof (cases "m > lim")
    case True
    have "sub32 m (sz p) = sum_list (map sz ps)" "sub32 m (sz p) < 2 ^ 32" using Cons.prems by simp_all
    from Cons.IH [OF this] obtain m' ps' n where "red_shrink sz lim (sub32 m (sz p)) ps = Inr (m', ps')"
      "m' = sum_list (map sz ps')" "m' \<le> lim" "ps' = drop n ps" by blast
    then show ?thesis using True by (auto intro: exI [of _ "Suc n"])
  next
    case False
    then show ?thesis using Cons.prems by (auto intro: exI [of _ 0])
  qed
qed simp


definition example_red :: "nat red" where
  "example_red = \<lparr>rq_queue = [], rq_queueLimit = 16384, rq_lowThresh = 4096, rq_lowThreshPercentage = 25, rq_queueSize = 0,
     rq_packetsDroppedTotal = 0, rq_packetsDroppedLast = 0\<rparr>"


text \<open>
  A low threshold of 100 percent is accepted by \<open>limit\<close>, and then the first unforced packet that
  arrives at a queue above its limit divides by zero.
\<close>

theorem red_full_threshold_divides_by_zero:
  assumes "0 < bytes" "bytes * 100 < 2 ^ 32" "red_set_limit sz bytes 100 q = Inr q1"
    and "rq_queueSize q2 > bytes" "rq_queueLimit q2 = rq_queueLimit q1" "rq_lowThresh q2 = rq_lowThresh q1"
  shows "red_v_enqueue sz rnd p False q2 = Inl RedDivisionByZero"
proof -
  have "rq_queueLimit q1 = bytes" "rq_lowThresh q1 = bytes"
    using assms(1-3) by (auto simp: red_set_limit_def Let_def split: sum.splits if_splits)
  then show ?thesis using assms by (simp add: red_v_enqueue_def)
qed

theorem red_full_threshold_divides_by_zero_witness:
  "red_v_enqueue id 0 10 False (example_red\<lparr>rq_queueLimit := 1000, rq_lowThresh := 1000, rq_queue := [900, 900], rq_queueSize := 1800\<rparr>) = Inl RedDivisionByZero"
proof -
  have "red_set_limit id 1000 100 example_red = Inr (example_red\<lparr>rq_queueLimit := 1000, rq_lowThresh := 1000, rq_lowThreshPercentage := 100\<rparr>)"
    by (simp add: red_set_limit_def example_red_def)
  from red_full_threshold_divides_by_zero [OF _ _ this] show ?thesis by simp
qed

text \<open>The product that yields the threshold overflows for limits above 42949672 bytes.\<close>

lemma red_threshold_overflows:
  "red_set_limit id 42949673 100 example_red = Inr q \<Longrightarrow> rq_lowThresh q = 0"
  by (auto simp: red_set_limit_def example_red_def)

section \<open>Packet delayer\<close>

text \<open>\<open>pd_waiting\<close> are the packets in the queue of the input, \<open>pd_queue\<close> the times they are due.\<close>

record 'p delayer =
  pd_waiting :: "'p list"
  pd_queue :: "int list"
  pd_timer :: "int option"
  pd_delay :: int
  pd_variation :: int
  pd_delaying :: bool

definition pd_set_delay :: "int \<Rightarrow> 'p delayer \<Rightarrow> 'p delayer" where
  "pd_set_delay d s = s\<lparr>pd_delay := d, pd_delaying := (d \<noteq> 0)\<rparr>"

definition pd_set_variation :: "int \<Rightarrow> 'p delayer \<Rightarrow> 'p delayer" where
  "pd_set_variation v s = s\<lparr>pd_variation := v, pd_delaying := (pd_delay s \<noteq> 0 \<or> v \<noteq> 0)\<rparr>"

text \<open>A packet has arrived in the input queue; \<open>rnd\<close> is the random variation of its delay.\<close>

definition pd_onRequest_delay :: "int \<Rightarrow> int \<Rightarrow> 'p delayer \<Rightarrow> 'p delayer" where
  "pd_onRequest_delay now rnd s =
     (let s1 = s\<lparr>pd_queue := pd_queue s @ [now + pd_delay s + rnd]\<rparr>
      in if pd_timer s1 = None then s1\<lparr>pd_timer := Some (hd (pd_queue s1))\<rparr> else s1)"

text \<open>\<open>clk\<close> are the readings of the clock, one for each round.\<close>

fun pd_release :: "int list \<Rightarrow> int list \<Rightarrow> 'p list \<Rightarrow> 'p list \<times> int list \<times> 'p list" where
  "pd_release (now # clk) (t # ts) (p # ps) =
     (if t \<le> now then (case pd_release clk ts ps of (out, rest) \<Rightarrow> (p # out, rest)) else ([], t # ts, p # ps))"
| "pd_release clk ts ps = ([], ts, ps)"

definition pd_timeout :: "int list \<Rightarrow> 'p delayer \<Rightarrow> 'p list \<times> 'p delayer" where
  "pd_timeout clk s =
     (case pd_release clk (pd_queue s) (pd_waiting s) of (out, ts, ps) \<Rightarrow>
        (out, s\<lparr>pd_queue := ts, pd_waiting := ps, pd_timer := (if ts = [] then None else Some (hd ts))\<rparr>))"

text \<open>Packets leave in the order they came, none before it is due, and the timer is armed while one is left.\<close>

lemma pd_release_order:
  assumes "pd_release clk ts ps = (out, ts', ps')" "length ts = length ps"
  shows "out @ ps' = ps \<and> length ts' = length ps' \<and> ts' = drop (length out) ts \<and>
    (\<forall>i < length out. ts ! i \<le> clk ! i)"
  using assms
proof (induction clk ts ps arbitrary: out rule: pd_release.induct)
  case (1 now clk t ts p ps)
  show ?case
  proof (cases "t \<le> now")
    case True
    then obtain out1 where r: "pd_release clk ts ps = (out1, ts', ps')" "out = p # out1"
      using "1.prems"(1) by (auto split: prod.splits)
    from "1.IH" [OF True r(1)] "1.prems"(2) r(2) True show ?thesis by (auto simp: nth_Cons split: nat.splits)
  qed (use "1.prems" in auto)
qed auto

lemma pd_timeout_in_order:
  assumes "pd_timeout clk s = (out, s')" "length (pd_queue s) = length (pd_waiting s)"
  shows "out @ pd_waiting s' = pd_waiting s \<and> length (pd_queue s') = length (pd_waiting s') \<and>
    (pd_timer s' = None) = (pd_waiting s' = []) \<and> (\<forall>i < length out. pd_queue s ! i \<le> clk ! i)"
proof -
  obtain o1 ts ps where r: "pd_release clk (pd_queue s) (pd_waiting s) = (o1, ts, ps)" by (metis prod_cases3)
  have "(ts = []) = (ps = [])" using pd_release_order [OF r assms(2)] by (metis length_0_conv)
  then show ?thesis using pd_release_order [OF r assms(2)] assms(1) r by (auto simp: pd_timeout_def split: if_splits)
qed

end
